(* ===== verification/MQ_Prelude.thy ===== *)
theory MQ_Prelude
  imports Main "HOL-Library.Word" "HOL-Library.AList" "HOL-Library.Sublist"
    "HOL-Library.Multiset"
begin

text \<open>
  What every component of the queue model shares: Go's 64-bit signed integers as \<open>int\<close>
  with the wrap-around written out, the clock, the option monad used for operations that may
  panic, Go's buffered channels, and generic lemmas on lists.
\<close>

section \<open>Collections of facts\<close>

named_theorems int64_simps \<open>the limits and operations of 64-bit integers, unfolded\<close>
named_theorems frame_simps \<open>what an operation leaves unchanged\<close>

section \<open>Time\<close>

text \<open>
  \<^verbatim>\<open>time.Time\<close> is a number of nanoseconds from a fixed origin and \<^verbatim>\<open>time.Duration\<close> a signed
  64-bit number of nanoseconds. A piece of code that asks for the time several times reads
  a \<open>clock\<close>: its \<open>k\<close>-th call of \<^verbatim>\<open>time.Now\<close> or \<^verbatim>\<open>time.Since\<close> gives \<open>clk k\<close>. Nothing is
  assumed of a clock; a theorem that relies on two readings says so.
\<close>

type_synonym time = int
type_synonym duration = int
type_synonym clock = "nat \<Rightarrow> time"

section \<open>64-bit signed integers\<close>

definition MaxInt64 :: int where
  "MaxInt64 = 9223372036854775807"

definition MinInt64 :: int where
  "MinInt64 = - 9223372036854775808"

definition is_int64 :: "int \<Rightarrow> bool" where
  "is_int64 x \<longleftrightarrow> MinInt64 \<le> x \<and> x \<le> MaxInt64"

definition wrap64 :: "int \<Rightarrow> int" where
  "wrap64 x = (x + 9223372036854775808) mod 18446744073709551616 - 9223372036854775808"

lemmas int64_defs [int64_simps] = MaxInt64_def MinInt64_def is_int64_def

lemma wrap64_id [simp]: "is_int64 x \<Longrightarrow> wrap64 x = x"
  by (simp add: wrap64_def int64_simps)

lemma is_int64_wrap64 [simp]: "is_int64 (wrap64 x)"
proof -
  have "0 \<le> (x + 9223372036854775808) mod 18446744073709551616"
    and "(x + 9223372036854775808) mod 18446744073709551616 < 18446744073709551616"
    by simp_all
  then show ?thesis unfolding wrap64_def int64_simps by linarith
qed

text \<open>The wrap-around is that of two's complement on a 64-bit word.\<close>

lemma wrap64_sint: "wrap64 x = sint (word_of_int x :: 64 word)"
proof -
  have "sint (word_of_int x :: 64 word) = signed_take_bit 63 x"
    by (simp add: sint_sbintrunc')
  also have "\<dots> = take_bit 64 (x + 2 ^ 63) - 2 ^ 63"
    by (simp add: signed_take_bit_eq_take_bit_shift)
  finally show ?thesis
    by (simp add: wrap64_def take_bit_eq_mod)
qed

lemma wrap64_add: "wrap64 (sint (a :: 64 word) + sint b) = sint (a + b)"
  by (simp add: wrap64_sint)

text \<open>
  \<^verbatim>\<open>time.Since(t)\<close>: the distance of two times, saturated to the range of a Duration.
\<close>

definition time_Since :: "time \<Rightarrow> time \<Rightarrow> duration" where
  "time_Since now t = max MinInt64 (min MaxInt64 (now - t))"

lemma time_Since_less [simp]:
  "d < MaxInt64 \<Longrightarrow> MinInt64 \<le> d \<Longrightarrow> d < time_Since now t \<longleftrightarrow> d < now - t"
  by (auto simp: time_Since_def)

section \<open>Operations that may panic\<close>

text \<open>
  A Go operation that can panic (a send on a closed channel, a second close) returns an
  option here, \<open>None\<close> being the panic. A loop over such an operation stops at the first
  panic.
\<close>

fun fold_opt :: "('a \<Rightarrow> 's \<Rightarrow> 's option) \<Rightarrow> 'a list \<Rightarrow> 's \<Rightarrow> 's option" where
  "fold_opt f [] s = Some s"
| "fold_opt f (x # xs) s = Option.bind (f x s) (fold_opt f xs)"

lemma fold_opt_append: "fold_opt f (xs @ ys) s = Option.bind (fold_opt f xs s) (fold_opt f ys)"
  by (induction xs arbitrary: s) (auto split: Option.bind_splits)

text \<open>A loop whose body keeps an invariant and never panics in it never panics.\<close>

lemma fold_opt_total:
  assumes "I s"
    and "\<And>x s. x \<in> set xs \<Longrightarrow> I s \<Longrightarrow> \<exists>s'. f x s = Some s' \<and> I s'"
  shows "\<exists>s'. fold_opt f xs s = Some s' \<and> I s'"
  using assms
proof (induction xs arbitrary: s)
  case Nil
  then show ?case by simp
next
  case (Cons x xs)
  from Cons.prems obtain s1 where s1: "f x s = Some s1" "I s1"
    by force
  have "\<exists>s'. fold_opt f xs s1 = Some s' \<and> I s'"
    using s1(2) by (rule Cons.IH) (use Cons.prems(2) in auto)
  with s1 show ?case by simp
qed

section \<open>Channels\<close>

text \<open>
  A buffered Go channel: the values in its buffer (oldest first), its capacity, and whether
  it was closed. Only the operations the queue uses: the non-blocking send (a \<^verbatim>\<open>select\<close>
  with a \<^verbatim>\<open>default\<close>), \<^verbatim>\<open>close\<close>, and the non-blocking receive of a user. A send on a closed
  channel and a second close panic.
\<close>

record 'a chan =
  ch_buf :: "'a list"
  ch_cap :: nat
  ch_closed :: bool

definition make_chan :: "nat \<Rightarrow> 'a chan" where
  "make_chan n = \<lparr>ch_buf = [], ch_cap = n, ch_closed = False\<rparr>"

definition chan_try_send :: "'a \<Rightarrow> 'a chan \<Rightarrow> 'a chan option" where
  "chan_try_send x ch =
     (if ch_closed ch then None
      else if length (ch_buf ch) < ch_cap ch then Some (ch\<lparr>ch_buf := ch_buf ch @ [x]\<rparr>)
      else Some ch)"

definition chan_close :: "'a chan \<Rightarrow> 'a chan option" where
  "chan_close ch = (if ch_closed ch then None else Some (ch\<lparr>ch_closed := True\<rparr>))"

lemma make_chan_simps [simp]:
  "ch_buf (make_chan n) = []" "ch_cap (make_chan n) = n" "\<not> ch_closed (make_chan n)"
  by (simp_all add: make_chan_def)

section \<open>Lists\<close>

lemma map_upt_split:
  "a \<le> b \<Longrightarrow> b \<le> c \<Longrightarrow> map f [a..<c] = map f [a..<b] @ map f [b..<c]"
  by (metis map_append le_iff_add upt_add_eq_append)

lemma map_upt_Cons: "a < b \<Longrightarrow> map f [a..<b] = f a # map f [Suc a..<b]"
  by (simp add: upt_conv_Cons)

lemma map_upt_fun_upd_out [simp]:
  "\<not> (a \<le> n \<and> n < b) \<Longrightarrow> map (f(n := y)) [a..<b] = map f [a..<b]"
  by auto

lemma sum_list_map_append: "sum_list (map f (xs @ ys)) = sum_list (map f xs) + sum_list (map f ys)"
  by simp

lemma distinct_split_unique:
  assumes "distinct (xs @ e # ys)" and "xs @ e # ys = xs' @ e # ys'"
  shows "xs' = xs" and "ys' = ys"
proof -
  have "e \<notin> set xs" and "e \<notin> set ys"
    using assms(1) by auto
  then have "xs = xs' \<and> ys = ys'"
    using assms(2) by (simp add: append_Cons_eq_iff)
  then show "xs' = xs" and "ys' = ys" by simp_all
qed

end
