(* ===== verification/MQ_Payload.thy ===== *)
theory MQ_Payload
  imports MQ_Prelude
begin

text \<open>
  The payload of an item (Go's \<^verbatim>\<open>any\<close>) and the estimate of its size: \<^verbatim>\<open>estimatePayloadSize\<close> and
  the recursive walk \<^verbatim>\<open>estimateValueSize\<close> of \<^verbatim>\<open>queue/memory.go\<close>, with the set of visited
  addresses, the depth limit and the cache of type sizes. A payload is what the reflect package
  shows of it: a value with its type, and a heap for what pointers and slices refer to (so
  cyclic payloads are in the model). Sizes are those of a 64-bit platform.
\<close>

section \<open>Types and values as the reflect package presents them\<close>

datatype kind =
    KBool | KInt | KInt8 | KInt16 | KInt32 | KInt64
  | KUint | KUint8 | KUint16 | KUint32 | KUint64 | KUintptr
  | KFloat32 | KFloat64 | KComplex64 | KComplex128
  | KArray | KChan | KFunc | KInterface | KMap | KPointer | KSlice | KString | KStruct | KUnsafePointer

text \<open>The number of a \<^verbatim>\<open>reflect.Kind\<close>, which orders the kinds (the code compares them).\<close>

fun kind_num :: "kind \<Rightarrow> nat" where
  "kind_num KBool = 1" | "kind_num KInt = 2" | "kind_num KInt8 = 3" | "kind_num KInt16 = 4"
| "kind_num KInt32 = 5" | "kind_num KInt64 = 6" | "kind_num KUint = 7" | "kind_num KUint8 = 8"
| "kind_num KUint16 = 9" | "kind_num KUint32 = 10" | "kind_num KUint64 = 11"
| "kind_num KUintptr = 12" | "kind_num KFloat32 = 13" | "kind_num KFloat64 = 14"
| "kind_num KComplex64 = 15" | "kind_num KComplex128 = 16" | "kind_num KArray = 17"
| "kind_num KChan = 18" | "kind_num KFunc = 19" | "kind_num KInterface = 20"
| "kind_num KMap = 21" | "kind_num KPointer = 22" | "kind_num KSlice = 23"
| "kind_num KString = 24" | "kind_num KStruct = 25" | "kind_num KUnsafePointer = 26"

lemma kind_num_inject: "kind_num a = kind_num b \<Longrightarrow> a = b"
  by (cases a; cases b; simp)

instantiation kind :: linorder
begin

definition less_eq_kind :: "kind \<Rightarrow> kind \<Rightarrow> bool" where
  "a \<le> b \<longleftrightarrow> kind_num a \<le> kind_num b"

definition less_kind :: "kind \<Rightarrow> kind \<Rightarrow> bool" where
  "a < b \<longleftrightarrow> kind_num a < kind_num b"

instance
  by standard (auto simp: less_eq_kind_def less_kind_def dest: kind_num_inject)

end

text \<open>
  A type descriptor carries what the walk asks of a \<^verbatim>\<open>reflect.Type\<close>: its kind, its size and,
  for arrays and structs, the types of the components. A struct carries the size the compiler
  gave it (with its padding). Pointers, maps and interfaces are told apart by name only, and a
  slice by the kind and size of its elements, so a recursive Go type has a finite descriptor.
\<close>

datatype rtype =
    TScalar string kind
  | TString string
  | TArray string nat rtype
  | TSlice string kind int
  | TMap string
  | TStruct string int "rtype list"
  | TPointer string
  | TInterface string
  | TOther string kind

fun kind_size :: "kind \<Rightarrow> int" where
  "kind_size KBool = 1" | "kind_size KInt8 = 1" | "kind_size KUint8 = 1"
| "kind_size KInt16 = 2" | "kind_size KUint16 = 2"
| "kind_size KInt32 = 4" | "kind_size KUint32 = 4" | "kind_size KFloat32 = 4"
| "kind_size KString = 16" | "kind_size KSlice = 24" | "kind_size KInterface = 16"
| "kind_size KComplex128 = 16"
| "kind_size _ = 8"

fun rt_Kind :: "rtype \<Rightarrow> kind" where
  "rt_Kind (TScalar _ k) = k"
| "rt_Kind (TString _) = KString"
| "rt_Kind (TArray _ _ _) = KArray"
| "rt_Kind (TSlice _ _ _) = KSlice"
| "rt_Kind (TMap _) = KMap"
| "rt_Kind (TStruct _ _ _) = KStruct"
| "rt_Kind (TPointer _) = KPointer"
| "rt_Kind (TInterface _) = KInterface"
| "rt_Kind (TOther _ k) = k"

fun rt_Size :: "rtype \<Rightarrow> int" where
  "rt_Size (TArray _ n t) = int n * rt_Size t"
| "rt_Size (TStruct _ s _) = s"
| "rt_Size t = kind_size (rt_Kind t)"

type_synonym addr = nat

datatype gval =
    VInvalid
  | VScalar rtype
  | VString rtype nat
  | VArray rtype "gval list"
  | VSlice rtype "addr option" nat
  | VMap rtype "addr option"
  | VStruct rtype "gval list"
  | VPointer rtype "addr option"
  | VInterface rtype "gval option"
  | VOther rtype

fun rv_Type :: "gval \<Rightarrow> rtype" where
  "rv_Type (VScalar t) = t"
| "rv_Type (VString t _) = t"
| "rv_Type (VArray t _) = t"
| "rv_Type (VSlice t _ _) = t"
| "rv_Type (VMap t _) = t"
| "rv_Type (VStruct t _) = t"
| "rv_Type (VPointer t _) = t"
| "rv_Type (VInterface t _) = t"
| "rv_Type (VOther t) = t"
| "rv_Type VInvalid = TOther '''' KUnsafePointer"

text \<open>What a pointer refers to is a one-element list, what a slice refers to its backing array.\<close>

type_synonym gheap = "(addr \<times> gval list) list"

definition heap_elems :: "gheap \<Rightarrow> addr \<Rightarrow> gval list" where
  "heap_elems h a = (case map_of h a of None \<Rightarrow> [] | Some vs \<Rightarrow> vs)"

definition heap_deref :: "gheap \<Rightarrow> addr \<Rightarrow> gval" where
  "heap_deref h a = (case heap_elems h a of [] \<Rightarrow> VInvalid | v # _ \<Rightarrow> v)"

text \<open>The address the walk records as visited: that of a non-nil pointer, map or slice.\<close>

fun rv_Pointer :: "gval \<Rightarrow> addr option" where
  "rv_Pointer (VPointer _ p) = p"
| "rv_Pointer (VMap _ p) = p"
| "rv_Pointer (VSlice _ p _) = p"
| "rv_Pointer _ = None"

text \<open>
  What a value of another type holds, as the program that put it into the queue reads it back; the
  queue never looks at it. A struct has its type's name and its fields in order.
\<close>

datatype content =
    CNil
  | CInt int
  | CString string
  | CTime time
  | CMap "(string \<times> string) list"
  | CSlice "content list"
  | CStruct string "content list"
  | CPointer addr

text \<open>
  A payload: the predeclared types the type switch lists, a value whose type has the method
  \<^verbatim>\<open>Size() int\<close> (with the result of that method, \<open>None\<close> when it panics), or any other value,
  with its heap and its content.
\<close>

datatype payload =
    PNil
  | PString string
  | PBytes "8 word list"
  | PScalar kind int
  | PSizeable "int option"
  | PValue gheap gval content

section \<open>Saturating addition and the walk\<close>

definition safeAdd :: "int \<Rightarrow> int \<Rightarrow> int" where
  "safeAdd a b = (if b \<le> 0 then a else if a > MaxInt64 - b then MaxInt64 else a + b)"

lemma safeAdd_ge: "a \<le> MaxInt64 \<Longrightarrow> a \<le> safeAdd a b"
  by (auto simp: safeAdd_def)

lemma safeAdd_le: "a \<le> MaxInt64 \<Longrightarrow> safeAdd a b \<le> MaxInt64"
  by (auto simp: safeAdd_def)

lemma safeAdd_exact: "0 \<le> b \<Longrightarrow> a + b \<le> MaxInt64 \<Longrightarrow> safeAdd a b = a + b"
  by (auto simp: safeAdd_def)

lemma safeAdd_min: "0 \<le> b \<Longrightarrow> a \<le> MaxInt64 \<Longrightarrow> safeAdd a b = min (a + b) MaxInt64"
  by (auto simp: safeAdd_def)

text \<open>The cache maps a type to its size, or to -1 when the size depends on the value.\<close>

type_synonym size_cache = "rtype \<rightharpoonup> int"

text \<open>
  \<^verbatim>\<open>visited\<close> is a Go map, \<open>None\<close> while it is nil. It is shared with the recursive calls once
  it exists; a call that finds it nil makes its own, which its caller does not see. The result is
  (sz, isFixed), the visited map as the caller sees it afterwards, and the cache.
  \<^verbatim>\<open>canAddr\<close> is \<^verbatim>\<open>v.CanAddr()\<close>: not for the top value and the content of an interface.
  \<open>estimateElems\<close> is the loop over the elements of an array or slice or the fields of a struct.
\<close>

type_synonym walk_result = "(int \<times> bool) \<times> addr list option \<times> size_cache"

definition visited_list :: "addr list option \<Rightarrow> addr list" where
  "visited_list vis = (case vis of None \<Rightarrow> [] | Some as \<Rightarrow> as)"

function (sequential)
    estimateValueSize ::
      "int \<Rightarrow> gheap \<Rightarrow> bool \<Rightarrow> gval \<Rightarrow> addr list option \<Rightarrow> nat \<Rightarrow> size_cache \<Rightarrow> walk_result"
and estimateElems ::
      "int \<Rightarrow> gheap \<Rightarrow> gval list \<Rightarrow> addr list option \<Rightarrow> nat \<Rightarrow> size_cache \<Rightarrow> int \<times> bool
        \<Rightarrow> walk_result"
where
  "estimateValueSize maxMemory h canAddr v visited depth cache =
    (if depth > 1000 then ((0, False), visited, cache)
     else if length (visited_list visited) > 10000 then ((2 ^ 40, False), visited, cache)
     else if v = VInvalid then ((0, True), visited, cache)
     else if (rt_Kind (rv_Type v) = KStruct \<or> rt_Kind (rv_Type v) = KArray) \<and> \<not> canAddr
             \<and> rt_Size (rv_Type v) > maxMemory then ((2 ^ 40, False), visited, cache)
     else if (case rv_Pointer v of None \<Rightarrow> False
              | Some a \<Rightarrow> visited \<noteq> None \<and> a \<in> set (visited_list visited))
          then ((0, False), visited, cache)
     else
       let t = rv_Type v;
           vis1 = (case rv_Pointer v of None \<Rightarrow> visited
                   | Some a \<Rightarrow> Some (a # visited_list visited));
           ret = (\<lambda>vis. if visited = None then None else vis);
           cached = cache t
       in if (case cached of None \<Rightarrow> False | Some c \<Rightarrow> 0 \<le> c)
          then ((the cached, True), ret vis1, cache)
          else
            let ((sz, isFixed), vis2, cache2) =
              (case v of
                 VString _ n \<Rightarrow> ((int n, False), vis1, cache)
               | VArray _ vs \<Rightarrow> estimateElems maxMemory h vs vis1 (Suc depth) cache (0, True)
               | VSlice (TSlice _ ek es) p n \<Rightarrow>
                   (if n = 0 then ((rt_Size t, False), vis1, cache)
                    else if KBool \<le> ek \<and> ek \<le> KFloat64
                    then ((safeAdd (rt_Size t) (wrap64 (int n * es)), False), vis1, cache)
                    else
                      let ((s, _), vis', cache') =
                        estimateElems maxMemory h
                          (case p of None \<Rightarrow> [] | Some a \<Rightarrow> take n (heap_elems h a))
                          vis1 (Suc depth) cache (rt_Size t, True)
                      in ((s, False), vis', cache'))
               | VMap _ _ \<Rightarrow> ((2 ^ 40, False), vis1, cache)
               | VStruct _ vs \<Rightarrow> estimateElems maxMemory h vs vis1 (Suc depth) cache (0, True)
               | VPointer _ (Some a) \<Rightarrow>
                   let ((s, _), vis', cache') =
                     estimateValueSize maxMemory h True (heap_deref h a) vis1 (Suc depth) cache
                   in ((safeAdd (rt_Size t) s, False), vis', cache')
               | VPointer _ None \<Rightarrow> ((rt_Size t, False), vis1, cache)
               | VInterface _ (Some w) \<Rightarrow>
                   let ((s, _), vis', cache') =
                     estimateValueSize maxMemory h False w vis1 (Suc depth) cache
                   in ((safeAdd (rt_Size t) s, False), vis', cache')
               | VInterface _ None \<Rightarrow> ((rt_Size t, False), vis1, cache)
               | _ \<Rightarrow> ((rt_Size t, True), vis1, cache));
              cache3 = (if cached = None
                        then cache2(t \<mapsto> (if isFixed then sz else -1)) else cache2)
            in ((sz, isFixed), ret vis2, cache3))"
| "estimateElems maxMemory h [] visited depth cache (sz, isFixed) =
     ((sz, isFixed), visited, cache)"
| "estimateElems maxMemory h (v # vs) visited depth cache (sz, isFixed) =
    (let ((elemSize, elemFixed), vis1, cache1) =
           estimateValueSize maxMemory h True v visited depth cache
     in estimateElems maxMemory h vs vis1 depth cache1
          (safeAdd sz elemSize, isFixed \<and> elemFixed))"
  by pat_completeness auto
termination
  by (relation "measures
       [\<lambda>x. (case x of Inl (_, _, _, _, _, d, _) \<Rightarrow> 1002 - d | Inr (_, _, _, _, d, _, _) \<Rightarrow> 1002 - d),
        \<lambda>x. (case x of Inl _ \<Rightarrow> 0 | Inr (_, _, vs, _, _, _, _) \<Rightarrow> Suc (length vs))]") auto

declare estimateValueSize.simps [simp del]

text \<open>
  \<^verbatim>\<open>estimatePayloadSize\<close>: the type switch, then \<^verbatim>\<open>Sizeable\<close>, then the walk. The deferred
  \<^verbatim>\<open>recover\<close> turns a panic of a user's \<^verbatim>\<open>Size\<close> into \<open>1 << 40\<close>.
\<close>

fun in_type_switch :: "kind \<Rightarrow> bool" where
  "in_type_switch k \<longleftrightarrow> KBool \<le> k \<and> k \<le> KFloat64 \<and> k \<noteq> KUintptr"

fun estimatePayloadSize :: "int \<Rightarrow> payload \<Rightarrow> size_cache \<Rightarrow> int \<times> size_cache" where
  "estimatePayloadSize maxMemory PNil cache = (0, cache)"
| "estimatePayloadSize maxMemory (PString s) cache = (int (length s), cache)"
| "estimatePayloadSize maxMemory (PBytes b) cache = (int (length b), cache)"
| "estimatePayloadSize maxMemory (PScalar k _) cache =
     (if in_type_switch k then (kind_size k, cache)
      else let ((sz, _), _, cache') =
             estimateValueSize maxMemory [] False (VScalar (TScalar '''' k)) None 0 cache
           in (sz, cache'))"
| "estimatePayloadSize maxMemory (PSizeable None) cache = (2 ^ 40, cache)"
| "estimatePayloadSize maxMemory (PSizeable (Some sSize)) cache =
     (if sSize < 0 then 0 else sSize, cache)"
| "estimatePayloadSize maxMemory (PValue h v x) cache =
     (let ((sz, _), _, cache') = estimateValueSize maxMemory h False v None 0 cache
      in (sz, cache'))"


section \<open>What the walk computes\<close>

text \<open>
  The size of a type all of whose values have the same size, as the walk sums it (saturating),
  and \<open>None\<close> for a type whose size depends on the value.
\<close>

fun fixed_size :: "rtype \<Rightarrow> int option" where
  "fixed_size (TScalar _ k) = Some (kind_size k)"
| "fixed_size (TOther _ k) = Some (kind_size k)"
| "fixed_size (TArray _ n t) =
     (if n = 0 then Some 0
      else map_option (\<lambda>s. foldl safeAdd 0 (replicate n s)) (fixed_size t))"
| "fixed_size (TStruct _ _ ts) = map_option (foldl safeAdd 0) (those (map fixed_size ts))"
| "fixed_size _ = None"

text \<open>A value of its type, as the reflect package guarantees.\<close>

fun well_typed :: "gval \<Rightarrow> bool" where
  "well_typed VInvalid = True"
| "well_typed (VScalar (TScalar _ k)) = (k \<le> KComplex128)"
| "well_typed (VString (TString _) n) = (int n \<le> MaxInt64)"
| "well_typed (VArray (TArray _ n t) vs) =
     (length vs = n \<and> (\<forall>v \<in> set vs. v \<noteq> VInvalid \<and> rv_Type v = t \<and> well_typed v))"
| "well_typed (VSlice (TSlice _ _ _) p n) = (p = None \<longrightarrow> n = 0)"
| "well_typed (VMap (TMap _) _) = True"
| "well_typed (VStruct (TStruct _ _ ts) vs) =
     (map rv_Type vs = ts \<and> (\<forall>v \<in> set vs. v \<noteq> VInvalid \<and> well_typed v))"
| "well_typed (VPointer (TPointer _) _) = True"
| "well_typed (VInterface (TInterface _) None) = True"
| "well_typed (VInterface (TInterface _) (Some w)) = well_typed w"
| "well_typed (VOther (TOther _ k)) = (k = KChan \<or> k = KFunc \<or> k = KUnsafePointer)"
| "well_typed _ = False"

definition heap_ok :: "gheap \<Rightarrow> bool" where
  "heap_ok h \<longleftrightarrow> (\<forall>(a, vs) \<in> set h. \<forall>v \<in> set vs. well_typed v)"

definition cache_sound :: "size_cache \<Rightarrow> bool" where
  "cache_sound c \<longleftrightarrow> (\<forall>t s. c t = Some s \<longrightarrow> s = -1 \<or> fixed_size t = Some s)"

lemma kind_size_bounds: "0 < kind_size k \<and> kind_size k \<le> 24"
  by (cases k) auto

lemma foldl_safeAdd_bounds:
  "0 \<le> s \<Longrightarrow> s \<le> MaxInt64 \<Longrightarrow> 0 \<le> foldl safeAdd s ss \<and> foldl safeAdd s ss \<le> MaxInt64"
proof (induction ss arbitrary: s)
  case (Cons x ss)
  have "0 \<le> safeAdd s x" "safeAdd s x \<le> MaxInt64"
    using safeAdd_ge [of s x] safeAdd_le [of s x] Cons.prems by simp_all
  then show ?case using Cons.IH by simp
qed simp

lemma fixed_size_bounds: "fixed_size t = Some s \<Longrightarrow> 0 \<le> s \<and> s \<le> MaxInt64"
proof (induction t rule: fixed_size.induct)
  case (1 n k)
  then show ?case using kind_size_bounds [of k] by (simp add: MaxInt64_def)
next
  case (2 n k)
  then show ?case using kind_size_bounds [of k] by (simp add: MaxInt64_def)
next
  case (3 n m t)
  then show ?case
    using foldl_safeAdd_bounds [of 0] by (auto simp: MaxInt64_def split: if_splits)
next
  case (4 n m ts)
  then show ?case
    using foldl_safeAdd_bounds [of 0] by (auto simp: MaxInt64_def)
qed simp_all

lemma heap_elems_ok: "heap_ok h \<Longrightarrow> v \<in> set (heap_elems h a) \<Longrightarrow> well_typed v"
  by (cases "map_of h a") (auto simp: heap_ok_def heap_elems_def dest!: map_of_SomeD)

lemma heap_deref_ok: "heap_ok h \<Longrightarrow> well_typed (heap_deref h a)"
  using heap_elems_ok [of h _ a]
  by (auto simp: heap_deref_def split: list.splits)

lemma those_eq_Some: "those xs = Some ys \<longleftrightarrow> xs = map Some ys"
  by (induction xs arbitrary: ys) (auto split: option.splits simp: Cons_eq_map_conv)

text \<open>
  What one call of the walk, and one run of its loop, keep: the cache stays sound, the size is a
  non-negative 64-bit number, and a size reported as fixed is the size of the type.
\<close>

definition walk_ok :: "gval \<Rightarrow> walk_result \<Rightarrow> bool" where
  "walk_ok v r \<longleftrightarrow> (case r of ((s, fx), _, c) \<Rightarrow>
     cache_sound c \<and> 0 \<le> s \<and> s \<le> MaxInt64
     \<and> (fx \<longrightarrow> v \<noteq> VInvalid \<longrightarrow> fixed_size (rv_Type v) = Some s))"

definition loop_ok :: "gval list \<Rightarrow> int \<times> bool \<Rightarrow> walk_result \<Rightarrow> bool" where
  "loop_ok vs acc r \<longleftrightarrow> (case r of ((s, fx), _, c) \<Rightarrow>
     cache_sound c \<and> 0 \<le> s \<and> s \<le> MaxInt64
     \<and> (fx \<longrightarrow> snd acc \<and> (\<exists>ss. map (fixed_size \<circ> rv_Type) vs = map Some ss
                            \<and> s = foldl safeAdd (fst acc) ss)))"

definition est_ok :: "nat \<Rightarrow> bool" where
  "est_ok d \<longleftrightarrow> (\<forall>mx h ca v vis c. heap_ok h \<longrightarrow> well_typed v \<longrightarrow> cache_sound c \<longrightarrow>
     walk_ok v (estimateValueSize mx h ca v vis d c))"

definition elems_ok :: "nat \<Rightarrow> bool" where
  "elems_ok d \<longleftrightarrow> (\<forall>mx h vs vis c acc. heap_ok h \<longrightarrow> (\<forall>v \<in> set vs. well_typed v) \<longrightarrow>
     cache_sound c \<longrightarrow> 0 \<le> fst acc \<longrightarrow> fst acc \<le> MaxInt64 \<longrightarrow>
     loop_ok (filter (\<lambda>v. v \<noteq> VInvalid) vs) acc
       (case estimateElems mx h vs vis d c acc of ((s, fx), r) \<Rightarrow>
          ((s, fx \<and> VInvalid \<notin> set vs), r)))"

lemma elems_from_est:
  assumes "est_ok d"
  shows "elems_ok d"
  unfolding elems_ok_def
proof (intro allI impI)
  fix mx h vs vis c and acc :: "int \<times> bool"
  assume "heap_ok h" "\<forall>v \<in> set vs. well_typed v" "cache_sound c"
    "0 \<le> fst acc" "fst acc \<le> MaxInt64"
  then show "loop_ok (filter (\<lambda>v. v \<noteq> VInvalid) vs) acc
       (case estimateElems mx h vs vis d c acc of ((s, fx), r) \<Rightarrow>
          ((s, fx \<and> VInvalid \<notin> set vs), r))"
  proof (induction vs arbitrary: vis c acc)
    case Nil
    then show ?case by (cases acc) (simp add: loop_ok_def)
  next
    case (Cons v vs)
    obtain sz fx where acc: "acc = (sz, fx)" by (cases acc)
    obtain es ef vis1 c1 where r1: "estimateValueSize mx h True v vis d c = ((es, ef), vis1, c1)"
      by (metis prod.exhaust)
    have ok1: "walk_ok v ((es, ef), vis1, c1)"
      using assms Cons.prems r1 unfolding est_ok_def by (metis list.set_intros(1))
    have le: "0 \<le> safeAdd sz es" "safeAdd sz es \<le> MaxInt64"
      using safeAdd_ge [of sz es] safeAdd_le [of sz es] Cons.prems acc by simp_all
    have IH: "loop_ok (filter (\<lambda>v. v \<noteq> VInvalid) vs) (safeAdd sz es, fx \<and> ef)
       (case estimateElems mx h vs vis1 d c1 (safeAdd sz es, fx \<and> ef) of ((s, fx), r) \<Rightarrow>
          ((s, fx \<and> VInvalid \<notin> set vs), r))"
      by (rule Cons.IH) (use Cons.prems ok1 le in \<open>auto simp: walk_ok_def\<close>)
    obtain s2 f2 r2 where r2:
      "estimateElems mx h vs vis1 d c1 (safeAdd sz es, fx \<and> ef) = ((s2, f2), r2)"
      by (metis prod.exhaust)
    have "\<exists>ss. map (fixed_size \<circ> rv_Type) (v # filter (\<lambda>v. v \<noteq> VInvalid) vs) = map Some ss
            \<and> s2 = foldl safeAdd sz ss"
      if "f2" "VInvalid \<notin> set vs" "v \<noteq> VInvalid"
    proof -
      from IH that r2 obtain ss where ss:
        "map (fixed_size \<circ> rv_Type) (filter (\<lambda>v. v \<noteq> VInvalid) vs) = map Some ss"
        "s2 = foldl safeAdd (safeAdd sz es) ss" and "ef"
        by (auto simp: loop_ok_def)
      with ok1 that have "fixed_size (rv_Type v) = Some es" by (simp add: walk_ok_def)
      with ss show ?thesis by (intro exI [of _ "es # ss"]) simp
    qed
    with IH acc r1 r2 show ?case by (auto simp: loop_ok_def)
  qed
qed


text \<open>
  One call, given that the calls one level deeper are right: first what the induction hypotheses
  give of the loop and of a call, then the ways a call returns.
\<close>

lemma elems_okD:
  assumes "elems_ok d" "heap_ok h" "\<forall>v \<in> set vs. well_typed v" "cache_sound c"
    "0 \<le> s0" "s0 \<le> MaxInt64" and r: "estimateElems mx h vs vis d c (s0, f0) = ((s, fx), vis', c')"
  shows "cache_sound c'" "0 \<le> s" "s \<le> MaxInt64"
    "fx \<Longrightarrow> VInvalid \<notin> set vs \<Longrightarrow>
       \<exists>ss. map (fixed_size \<circ> rv_Type) vs = map Some ss \<and> s = foldl safeAdd s0 ss"
proof -
  have ok: "loop_ok (filter (\<lambda>v. v \<noteq> VInvalid) vs) (s0, f0)
       (case estimateElems mx h vs vis d c (s0, f0) of ((s, fx), r) \<Rightarrow>
          ((s, fx \<and> VInvalid \<notin> set vs), r))"
    by (rule assms(1) [unfolded elems_ok_def, rule_format]) (use assms in auto)
  then show "cache_sound c'" "0 \<le> s" "s \<le> MaxInt64"
    using r by (auto simp: loop_ok_def)
  assume "fx" and inv: "VInvalid \<notin> set vs"
  then have "filter (\<lambda>v. v \<noteq> VInvalid) vs = vs" by (auto simp: filter_id_conv)
  with ok r inv \<open>fx\<close> show "\<exists>ss. map (fixed_size \<circ> rv_Type) vs = map Some ss \<and> s = foldl safeAdd s0 ss"
    by (auto simp: loop_ok_def)
qed

lemma est_okD:
  assumes "est_ok d" "heap_ok h" "well_typed v" "cache_sound c"
    and "estimateValueSize mx h ca v vis d c = ((s, fx), vis', c')"
  shows "cache_sound c'" "0 \<le> s" "s \<le> MaxInt64"
  using assms unfolding est_ok_def walk_ok_def by (metis (no_types, lifting) case_prod_conv)+

lemma array_size:
  assumes "map (fixed_size \<circ> rv_Type) vs = map Some ss" "\<forall>v \<in> set vs. rv_Type v = t"
  shows "fixed_size (TArray nm (length vs) t) = Some (foldl safeAdd 0 ss)"
proof (cases vs)
  case (Cons v vs')
  with assms obtain s where s: "fixed_size t = Some s" by (cases ss) auto
  have "map Some ss = map Some (replicate (length vs) s)"
    using assms s by (metis (mono_tags, lifting) comp_apply map_eq_conv map_replicate_const map_replicate)
  then have "ss = replicate (length vs) s" by (simp add: inj_map_eq_map del: map_replicate)
  with Cons s show ?thesis by simp
qed (use assms in simp)


lemma walk_ok_2p40: "cache_sound c \<Longrightarrow> walk_ok v ((1099511627776, False), vis, c)"
  by (simp add: walk_ok_def MaxInt64_def)

lemma walk_ok_0: "cache_sound c \<Longrightarrow> walk_ok v ((0, False), vis, c)"
  by (simp add: walk_ok_def MaxInt64_def)

lemma walk_ok_cached:
  "cache_sound c \<Longrightarrow> c (rv_Type v) = Some s \<Longrightarrow> 0 \<le> s \<Longrightarrow> walk_ok v ((s, True), vis, c)"
  unfolding cache_sound_def walk_ok_def using fixed_size_bounds [of "rv_Type v" s] by force

lemma walk_ok_updI:
  assumes "walk_ok v ((s, fx), vis, c)" and "v \<noteq> VInvalid" "t = rv_Type v"
  shows "walk_ok v ((s, fx), vis', c(t \<mapsto> (if fx then s else -1)))"
    and "walk_ok v ((s, fx), vis', c)"
  using assms by (auto simp: walk_ok_def cache_sound_def)

text \<open>The type's case analysis, one lemma for each kind of value that has something below it.\<close>

lemmas walk_step = Let_def walk_ok_2p40 walk_ok_0 walk_ok_cached

lemma walk_leaf:
  assumes c: "cache_sound c" and v: "well_typed v"
    and leaf: "(\<exists>t. v = VScalar t) \<or> (\<exists>t. v = VOther t)"
  shows "walk_ok v (estimateValueSize mx h ca v vis d c)"
proof -
  obtain k where k: "rt_Size (rv_Type v) = kind_size k"
    "fixed_size (rv_Type v) = Some (kind_size k)" "v \<noteq> VInvalid" "rv_Pointer v = None"
    using leaf v by (cases "rv_Type v") auto
  then have ok: "walk_ok v ((rt_Size (rv_Type v), True), vis, c)"
    using kind_size_bounds [of k] c by (simp add: walk_ok_def MaxInt64_def)
  show ?thesis
    using leaf c walk_ok_updI [OF ok]
    by (elim disjE exE)
      (simp_all add: estimateValueSize.simps [of mx h ca] walk_step split: option.splits)
qed

lemma walk_elems:
  assumes E: "elems_ok (Suc d)" and h: "heap_ok h" and c: "cache_sound c"
    and v: "v = VArray t vs \<and> (\<exists>nm t'. t = TArray nm (length vs) t'
                 \<and> (\<forall>u \<in> set vs. u \<noteq> VInvalid \<and> rv_Type u = t' \<and> well_typed u))
          \<or> v = VStruct t vs \<and> (\<exists>nm z. t = TStruct nm z (map rv_Type vs)
                 \<and> (\<forall>u \<in> set vs. u \<noteq> VInvalid \<and> well_typed u))"
  shows "walk_ok v (estimateValueSize mx h ca v vis d c)"
proof -
  obtain s fx vis' c' where
    r: "estimateElems mx h vs vis (Suc d) c (0, True) = ((s, fx), vis', c')"
    by (metis prod.exhaust)
  have vs: "\<forall>u \<in> set vs. well_typed u" "VInvalid \<notin> set vs" using v by auto
  note D = elems_okD [OF E h vs(1) c _ _ r]
  have "fixed_size t = Some s" if "fx"
  proof -
    from D(4) [OF _ _ that vs(2)] obtain ss where
      ss: "map (fixed_size \<circ> rv_Type) vs = map Some ss" "s = foldl safeAdd 0 ss"
      by (auto simp: MaxInt64_def)
    from v show ?thesis
    proof (elim disjE conjE exE)
      fix nm t' assume "t = TArray nm (length vs) t'"
        "\<forall>u \<in> set vs. u \<noteq> VInvalid \<and> rv_Type u = t' \<and> well_typed u"
      then show ?thesis using array_size [of vs ss t' nm] ss by simp
    next
      fix nm z assume "t = TStruct nm z (map rv_Type vs)"
      then show ?thesis using ss by (simp add: those_eq_Some comp_def)
    qed
  qed
  with D v have ok: "walk_ok v ((s, fx), vis', c')" by (auto simp: walk_ok_def MaxInt64_def)
  show ?thesis
    using v r c walk_ok_updI [OF ok]
    by (elim disjE conjE exE)
      (simp_all add: estimateValueSize.simps [of mx h ca] walk_step split: option.splits)
qed

lemma walk_slice:
  assumes E: "elems_ok (Suc d)" and h: "heap_ok h" and c: "cache_sound c"
    and v: "v = VSlice (TSlice nm ek es) p n" "p = None \<longrightarrow> n = 0"
  shows "walk_ok v (estimateValueSize mx h ca v vis d c)"
proof -
  let ?vs = "case p of None \<Rightarrow> [] | Some a \<Rightarrow> take n (heap_elems h a)"
  let ?vis = "case p of None \<Rightarrow> vis | Some a \<Rightarrow> Some (a # visited_list vis)"
  obtain s fx vis' c' where
    r: "estimateElems mx h ?vs ?vis (Suc d) c (24, True) = ((s, fx), vis', c')"
    by (metis prod.exhaust)
  have "\<forall>v \<in> set ?vs. well_typed v"
    using heap_elems_ok [OF h] by (auto split: option.splits dest: in_set_takeD)
  note D = elems_okD [OF E h this c _ _ r]
  have ok1: "walk_ok v ((s, False), vis1, c')" for vis1
    using D by (simp add: walk_ok_def MaxInt64_def)
  have ok2: "walk_ok v ((safeAdd 24 k, False), vis1, c)" for vis1 k
    using safeAdd_ge [of 24 k] safeAdd_le [of 24 k] c by (simp add: walk_ok_def MaxInt64_def)
  have ok3: "walk_ok v ((24, False), vis1, c)" for vis1
    using c by (simp add: walk_ok_def MaxInt64_def)
  show ?thesis
    using v r c walk_ok_updI [OF ok1] walk_ok_updI [OF ok2] walk_ok_updI [OF ok3]
    by (cases "n = 0"; cases p; cases vis)
      (simp_all add: estimateValueSize.simps [of mx h ca] walk_step split: option.splits)
qed

lemma walk_pointer:
  assumes V: "est_ok (Suc d)" and h: "heap_ok h" and c: "cache_sound c"
    and v: "v = VPointer (TPointer nm) p"
  shows "walk_ok v (estimateValueSize mx h ca v vis d c)"
proof (cases p)
  case None
  have "walk_ok v ((8, False), vis, c)"
    using c by (simp add: walk_ok_def MaxInt64_def)
  from walk_ok_updI [OF this] show ?thesis
    using v None c
    by (simp add: estimateValueSize.simps [of mx h ca] walk_step split: option.splits)
next
  case (Some a)
  obtain s fx vis' c' where
    r: "estimateValueSize mx h True (heap_deref h a) (Some (a # visited_list vis)) (Suc d) c
         = ((s, fx), vis', c')"
    by (metis prod.exhaust)
  note D = est_okD [OF V h heap_deref_ok [OF h] c r]
  have ok: "walk_ok v ((safeAdd 8 s, False), vis1, c')" for vis1
    using D safeAdd_ge [of 8 s] safeAdd_le [of 8 s] by (simp add: walk_ok_def MaxInt64_def)
  show ?thesis
    using v Some r c walk_ok_updI [OF ok]
    by (cases vis)
      (simp_all add: estimateValueSize.simps [of mx h ca] walk_step split: option.splits)
qed

lemma walk_interface:
  assumes V: "est_ok (Suc d)" and h: "heap_ok h" and c: "cache_sound c"
    and v: "v = VInterface (TInterface nm) w" and w: "\<And>u. w = Some u \<Longrightarrow> well_typed u"
  shows "walk_ok v (estimateValueSize mx h ca v vis d c)"
proof (cases w)
  case None
  have "walk_ok v ((16, False), vis, c)"
    using c by (simp add: walk_ok_def MaxInt64_def)
  from walk_ok_updI [OF this] show ?thesis
    using v None c
    by (simp add: estimateValueSize.simps [of mx h ca] walk_step split: option.splits)
next
  case (Some u)
  obtain s fx vis' c' where
    r: "estimateValueSize mx h False u vis (Suc d) c = ((s, fx), vis', c')"
    by (metis prod.exhaust)
  note D = est_okD [OF V h w [OF Some] c r]
  have ok: "walk_ok v ((safeAdd 16 s, False), vis1, c')" for vis1
    using D safeAdd_ge [of 16 s] safeAdd_le [of 16 s] by (simp add: walk_ok_def MaxInt64_def)
  show ?thesis
    using v Some r c walk_ok_updI [OF ok]
    by (simp add: estimateValueSize.simps [of mx h ca] walk_step split: option.splits)
qed

lemma walk_string_map:
  assumes c: "cache_sound c" and v: "well_typed v"
    and sm: "(\<exists>t n. v = VString t n) \<or> (\<exists>t p. v = VMap t p)"
  shows "walk_ok v (estimateValueSize mx h ca v vis d c)"
  using sm
proof (elim disjE exE)
  fix t n assume vn: "v = VString t n"
  with v have "walk_ok v ((int n, False), vis, c)"
    using c by (cases t) (simp_all add: walk_ok_def)
  from walk_ok_updI [OF this] show ?thesis
    using vn c by (simp add: estimateValueSize.simps [of mx h ca] walk_step split: option.splits)
next
  fix t p assume vp: "v = VMap t p"
  from c have "walk_ok v ((2 ^ 40, False), vis1, c)" for vis1
    by (simp add: walk_ok_2p40)
  from walk_ok_updI [OF this] show ?thesis
    using vp c by (simp add: estimateValueSize.simps [of mx h ca] walk_step split: option.splits)
qed

lemma est_from_elems:
  assumes E: "elems_ok (Suc d)" and V: "est_ok (Suc d)"
  shows "est_ok d"
  unfolding est_ok_def
proof (intro allI impI)
  fix mx h ca v vis c
  assume h: "heap_ok h" and v: "well_typed v" and c: "cache_sound c"
  show "walk_ok v (estimateValueSize mx h ca v vis d c)"
  proof (cases v)
    case VInvalid
    then show ?thesis using c
      by (subst estimateValueSize.simps) (auto simp: walk_ok_def MaxInt64_def)
  next
    case (VArray t vs)
    with v show ?thesis by (intro walk_elems [OF E h c, of v t vs]) (cases t; auto)
  next
    case (VStruct t vs)
    with v show ?thesis by (intro walk_elems [OF E h c, of v t vs]) (cases t; auto)
  next
    case (VSlice t p n)
    with v obtain nm ek es where "t = TSlice nm ek es" "p = None \<longrightarrow> n = 0" by (cases t) auto
    with VSlice show ?thesis by (intro walk_slice [OF E h c]) simp_all
  next
    case (VPointer t p)
    with v obtain nm where "t = TPointer nm" by (cases t) auto
    with VPointer show ?thesis by (intro walk_pointer [OF V h c]) simp
  next
    case (VInterface t w)
    with v obtain nm where "t = TInterface nm" by (cases t; cases w) auto
    with VInterface v show ?thesis by (intro walk_interface [OF V h c]) auto
  qed (use walk_leaf [OF c v] walk_string_map [OF c v] in auto)
qed

lemma walk_correct: "est_ok d"
proof (induction "1002 - d" arbitrary: d rule: less_induct)
  case less
  show ?case
  proof (cases "d > 1000")
    case True
    then show ?thesis
      unfolding est_ok_def
      by (intro allI impI, subst estimateValueSize.simps) (simp add: walk_ok_0)
  next
    case False
    then have "est_ok (Suc d)" by (intro less) simp
    then show ?thesis by (metis est_from_elems elems_from_est)
  qed
qed

section \<open>The estimate of a payload\<close>

text \<open>A Go value: lengths and the result of \<^verbatim>\<open>Size()\<close> are 64-bit integers.\<close>

fun payload_ok :: "payload \<Rightarrow> bool" where
  "payload_ok PNil = True"
| "payload_ok (PString s) = (int (length s) \<le> MaxInt64)"
| "payload_ok (PBytes b) = (int (length b) \<le> MaxInt64)"
| "payload_ok (PScalar k _) = (k \<le> KComplex128)"
| "payload_ok (PSizeable r) = (case r of None \<Rightarrow> True | Some n \<Rightarrow> is_int64 n)"
| "payload_ok (PValue h v x) = (heap_ok h \<and> well_typed v)"

lemma estimatePayloadSize_sound:
  assumes "payload_ok p" and "cache_sound c" and "estimatePayloadSize mx p c = (s, c')"
  shows "0 \<le> s \<and> s \<le> MaxInt64 \<and> cache_sound c'"
proof -
  have walk: "0 \<le> s \<and> s \<le> MaxInt64 \<and> cache_sound c'"
    if "heap_ok h" "well_typed v"
      and "(let ((sz, _), _, cache') = estimateValueSize mx h False v None 0 c in (sz, cache')) = (s, c')"
    for h v
    using that est_okD [OF walk_correct that(1,2) assms(2)]
    by (auto simp: Let_def split: prod.splits)
  show ?thesis
  proof (cases p)
    case (PScalar k n)
    have "well_typed (VScalar (TScalar '''' k))" using assms(1) PScalar by simp
    note w = walk [of "[]" "VScalar (TScalar '''' k)", OF _ this]
    show ?thesis
    proof (cases "in_type_switch k")
      case True
      then show ?thesis
        using assms PScalar kind_size_bounds [of k]
        by (auto simp: MaxInt64_def simp del: in_type_switch.simps)
    next
      case False
      then show ?thesis
        using assms(3) PScalar
        by (intro w) (simp_all add: heap_ok_def del: in_type_switch.simps)
    qed
  next
    case (PSizeable r)
    then show ?thesis
      using assms by (cases r) (auto simp: int64_simps)
  next
    case (PValue h v x)
    then show ?thesis using assms by (intro walk [of h v]) simp_all
  qed (use assms in \<open>auto simp: MaxInt64_def\<close>)
qed

section \<open>Maps are estimated at one tebibyte\<close>

text \<open>The walk counts \<^verbatim>\<open>1 << 40\<close> for a map, whatever it holds.\<close>

lemma cache_sound_map: "cache_sound c \<Longrightarrow> c (TMap nm) = Some s \<Longrightarrow> s = -1"
  unfolding cache_sound_def by fastforce

lemma estimate_map:
  assumes "cache_sound c" and "d \<le> 1000" and "p = None \<or> the p \<notin> set (visited_list vis)"
  shows "\<exists>vis' c'. estimateValueSize mx h ca (VMap (TMap nm) p) vis d c = ((2 ^ 40, False), vis', c')"
  using assms cache_sound_map [OF assms(1), of nm]
  by (subst estimateValueSize.simps) (auto simp: Let_def split: option.splits)

end
