(* ===== verification/MQ_Data.thy ===== *)
theory MQ_Data
  imports MQ_Payload
begin

text \<open>
  The items of the queue and the chunks that hold them (\<^verbatim>\<open>queue/data.go\<close>, \<^verbatim>\<open>queue/pool.go\<close>). A chunk
  is a 1000-slot array with two indices, \<open>head\<close> (first live item) and \<open>size\<close> (first free slot).
  The array is a function on indices; the lemmas about \<open>cn_inv\<close> keep every index the code uses
  within the 1000 slots. A pointer to a \<^verbatim>\<open>list.Element\<close> (each holds one chunk) is a number.
\<close>

section \<open>Items\<close>

record queue_event =
  ev_Timestamp :: time
  ev_QueueName :: string
  ev_EventType :: string

record queue_data =
  qd_ID :: "64 word"
  qd_Payload :: payload
  qd_EnqueueEvent :: queue_event
  qd_Created :: time
  qd_size :: int

text \<open>The zero value \<^verbatim>\<open>QueueData{}\<close>; the zero \<^verbatim>\<open>time.Time\<close> is the start of year 1.\<close>

definition zero_time :: time where
  "zero_time = - 62135596800000000000"

definition zero_queue_data :: queue_data where
  "zero_queue_data =
     \<lparr>qd_ID = 0, qd_Payload = PNil,
      qd_EnqueueEvent = \<lparr>ev_Timestamp = zero_time, ev_QueueName = '''', ev_EventType = ''''\<rparr>,
      qd_Created = zero_time, qd_size = 0\<rparr>"

text \<open>
  The new item and the new value of the global counter \<^verbatim>\<open>dataIDSequence\<close>; \<open>now\<close> is the time read.
\<close>

definition NewQueueData :: "payload \<Rightarrow> string \<Rightarrow> time \<Rightarrow> 64 word \<Rightarrow> queue_data \<times> 64 word" where
  "NewQueueData payload queueName now dataIDSequence =
     (let id = dataIDSequence + 1
      in (\<lparr>qd_ID = id, qd_Payload = payload,
           qd_EnqueueEvent =
             \<lparr>ev_Timestamp = now, ev_QueueName = queueName, ev_EventType = ''enqueue''\<rparr>,
           qd_Created = now, qd_size = 0\<rparr>,
          id))"

definition qd_SetSize :: "int \<Rightarrow> queue_data \<Rightarrow> queue_data" where
  "qd_SetSize sz qd = qd\<lparr>qd_size := sz\<rparr>"

definition qd_IsExpired :: "time \<Rightarrow> duration \<Rightarrow> queue_data \<Rightarrow> bool" where
  "qd_IsExpired now ttl qd \<longleftrightarrow> time_Since now (qd_Created qd) > ttl"

section \<open>Chunks\<close>

type_synonym elem = nat

record chunk_node =
  cn_Data :: "nat \<Rightarrow> queue_data"
  cn_size :: nat
  cn_head :: nat
  cn_NextElement :: "elem option"
  cn_pooled :: bool

definition NewChunkNode :: chunk_node where
  "NewChunkNode =
     \<lparr>cn_Data = (\<lambda>_. zero_queue_data), cn_size = 0, cn_head = 0, cn_NextElement = None,
      cn_pooled = False\<rparr>"

definition PutChunkNode :: "chunk_node \<Rightarrow> chunk_node" where
  "PutChunkNode cn = cn\<lparr>cn_pooled := True\<rparr>"

text \<open>\<^verbatim>\<open>Add\<close>: whether there was room, and the chunk afterwards.\<close>

definition cn_Add :: "queue_data \<Rightarrow> chunk_node \<Rightarrow> bool \<times> chunk_node" where
  "cn_Add data cn =
     (let currentSize = cn_size cn
      in if currentSize \<ge> 1000 then (False, cn)
         else (True, cn\<lparr>cn_Data := (cn_Data cn)(currentSize := data),
                        cn_size := currentSize + 1\<rparr>))"

definition cn_Get :: "nat \<Rightarrow> chunk_node \<Rightarrow> queue_data option" where
  "cn_Get index cn =
     (if index < cn_head cn \<or> index \<ge> cn_size cn then None else Some (cn_Data cn index))"

definition cn_IsFull :: "chunk_node \<Rightarrow> bool" where
  "cn_IsFull cn \<longleftrightarrow> cn_size cn \<ge> 1000"

definition cn_IsEmpty :: "chunk_node \<Rightarrow> bool" where
  "cn_IsEmpty cn \<longleftrightarrow> cn_head cn = cn_size cn"

text \<open>
  \<^verbatim>\<open>RemoveExpired\<close>: the loop from \<open>head\<close> zeroes the expired items and stops at the first one that
  is not expired. Each test reads the clock; \<open>k\<close> counts the readings. The result is the number
  removed, the removed items, the chunk and the number of readings so far.
\<close>

function RemoveExpired_loop ::
  "clock \<Rightarrow> duration \<Rightarrow> nat \<Rightarrow> nat \<Rightarrow> nat \<Rightarrow> nat \<Rightarrow> queue_data list \<Rightarrow> chunk_node
    \<Rightarrow> nat \<times> queue_data list \<times> chunk_node \<times> nat" where
  "RemoveExpired_loop clk ttl i sz k removed removedItems cn =
     (if i < sz then
        let data = cn_Data cn i
        in if qd_IsExpired (clk k) ttl data
           then RemoveExpired_loop clk ttl (i + 1) sz (k + 1) (removed + 1) (removedItems @ [data])
                  (cn\<lparr>cn_Data := (cn_Data cn)(i := zero_queue_data), cn_head := cn_head cn + 1\<rparr>)
           else (removed, removedItems, cn, k + 1)
      else (removed, removedItems, cn, k))"
  by pat_completeness auto
termination
  by (relation "measure (\<lambda>(clk, ttl, i, sz, k, removed, removedItems, cn). sz - i)") auto

declare RemoveExpired_loop.simps [simp del]

definition cn_RemoveExpired ::
  "clock \<Rightarrow> duration \<Rightarrow> nat \<Rightarrow> chunk_node \<Rightarrow> nat \<times> queue_data list \<times> chunk_node \<times> nat" where
  "cn_RemoveExpired clk ttl k cn =
     RemoveExpired_loop clk ttl (cn_head cn) (cn_size cn) k 0 [] cn"

definition cn_GetEarliestExpiry :: "chunk_node \<Rightarrow> time option" where
  "cn_GetEarliestExpiry cn =
     (if cn_head cn = cn_size cn then None else Some (qd_Created (cn_Data cn (cn_head cn))))"

section \<open>The invariant of a chunk and its live items\<close>

definition cn_live :: "chunk_node \<Rightarrow> queue_data list" where
  "cn_live cn = map (cn_Data cn) [cn_head cn..<cn_size cn]"

definition cn_inv :: "chunk_node \<Rightarrow> bool" where
  "cn_inv cn \<longleftrightarrow> cn_head cn \<le> cn_size cn \<and> cn_size cn \<le> 1000
     \<and> (\<forall>i. i < cn_head cn \<or> cn_size cn \<le> i \<longrightarrow> cn_Data cn i = zero_queue_data)"

lemma cn_inv_le: "cn_inv cn \<Longrightarrow> cn_head cn \<le> cn_size cn \<and> cn_size cn \<le> 1000"
  by (simp add: cn_inv_def)

lemma length_cn_live [simp]: "length (cn_live cn) = cn_size cn - cn_head cn"
  by (simp add: cn_live_def)

lemma cn_live_cong:
  "cn_Data c = cn_Data c' \<Longrightarrow> cn_head c = cn_head c' \<Longrightarrow> cn_size c = cn_size c'
    \<Longrightarrow> cn_live c = cn_live c'"
  by (simp add: cn_live_def)

lemma cn_live_PutChunkNode [simp]: "cn_live (PutChunkNode cn) = cn_live cn"
  by (simp add: PutChunkNode_def cn_live_def)

lemma cn_live_next [simp]: "cn_live (cn\<lparr>cn_NextElement := n\<rparr>) = cn_live cn"
  by (simp add: cn_live_def)

lemma cn_inv_next [simp]: "cn_inv (cn\<lparr>cn_NextElement := n\<rparr>) = cn_inv cn"
  by (simp add: cn_inv_def)

lemma cn_inv_pooled [simp]: "cn_inv (PutChunkNode cn) = cn_inv cn"
  by (simp add: cn_inv_def PutChunkNode_def)

lemma cn_IsEmpty_live: "cn_inv cn \<Longrightarrow> cn_IsEmpty cn \<longleftrightarrow> cn_live cn = []"
  by (auto simp: cn_IsEmpty_def cn_live_def cn_inv_def)

lemma NewChunkNode_simps [simp]:
  "cn_size NewChunkNode = 0" "cn_head NewChunkNode = 0" "cn_NextElement NewChunkNode = None"
  "\<not> cn_pooled NewChunkNode" "\<not> cn_IsFull NewChunkNode"
  by (simp_all add: NewChunkNode_def cn_IsFull_def)

lemma PutChunkNode_simps [simp]:
  "cn_size (PutChunkNode cn) = cn_size cn" "cn_head (PutChunkNode cn) = cn_head cn"
  "cn_NextElement (PutChunkNode cn) = cn_NextElement cn" "cn_pooled (PutChunkNode cn)"
  "cn_Data (PutChunkNode cn) = cn_Data cn"
  by (simp_all add: PutChunkNode_def)

lemma NewChunkNode_inv [simp]: "cn_inv NewChunkNode" "cn_live NewChunkNode = []"
  by (simp_all add: NewChunkNode_def cn_inv_def cn_live_def)

lemma cn_Add_full: "cn_IsFull cn \<Longrightarrow> cn_Add d cn = (False, cn)"
  by (simp add: cn_Add_def cn_IsFull_def)

lemma cn_Add_room:
  assumes "cn_inv cn" and "\<not> cn_IsFull cn"
  obtains cn' where "cn_Add d cn = (True, cn')" "cn_inv cn'" "cn_live cn' = cn_live cn @ [d]"
    "cn_size cn' = Suc (cn_size cn)" "cn_head cn' = cn_head cn"
    "cn_NextElement cn' = cn_NextElement cn" "cn_pooled cn' = cn_pooled cn" "\<not> cn_IsEmpty cn'"
proof
  let ?cn = "cn\<lparr>cn_Data := (cn_Data cn)(cn_size cn := d), cn_size := cn_size cn + 1\<rparr>"
  show "cn_Add d cn = (True, ?cn)"
    using assms by (simp add: cn_Add_def cn_IsFull_def Let_def)
  show "cn_inv ?cn" "cn_live ?cn = cn_live cn @ [d]" "\<not> cn_IsEmpty ?cn"
    using assms by (auto simp: cn_inv_def cn_IsFull_def cn_live_def cn_IsEmpty_def)
qed simp_all

lemma cn_Get_live:
  "cn_Get i cn = (if cn_head cn \<le> i \<and> i < cn_size cn then Some (cn_live cn ! (i - cn_head cn)) else None)"
  by (auto simp: cn_Get_def cn_live_def)

text \<open>How many of the items, in order, have expired when they are asked in turn.\<close>

fun expired_run :: "clock \<Rightarrow> duration \<Rightarrow> nat \<Rightarrow> queue_data list \<Rightarrow> nat" where
  "expired_run clk ttl k [] = 0"
| "expired_run clk ttl k (d # ds) =
     (if qd_IsExpired (clk k) ttl d then Suc (expired_run clk ttl (Suc k) ds) else 0)"

lemma expired_run_le: "expired_run clk ttl k ds \<le> length ds"
  by (induction ds arbitrary: k) auto

lemma expired_run_append:
  "expired_run clk ttl k (xs @ ys) =
    (if expired_run clk ttl k xs = length xs then length xs + expired_run clk ttl (k + length xs) ys
     else expired_run clk ttl k xs)"
  using expired_run_le by (induction xs arbitrary: k) auto

lemma expired_run_nth: "i < expired_run clk ttl k ds \<Longrightarrow> qd_IsExpired (clk (k + i)) ttl (ds ! i)"
proof (induction ds arbitrary: i k)
  case (Cons d ds)
  then show ?case using Cons.IH [of "i - 1" "Suc k"] by (cases i) (auto split: if_splits)
qed simp

lemma expired_run_stop:
  "expired_run clk ttl k ds < length ds
    \<Longrightarrow> \<not> qd_IsExpired (clk (k + expired_run clk ttl k ds)) ttl (ds ! expired_run clk ttl k ds)"
proof (induction ds arbitrary: k)
  case (Cons d ds)
  then show ?case using Cons.IH [of "Suc k"] by (auto split: if_splits)
qed simp

text \<open>
  At the first item that has not expired a pass looks again, with another reading of the clock
  (\<^verbatim>\<open>GetEarliestExpiry\<close> and the test after it). The two looks agree unless the TTL of this very item
  runs out in between.
\<close>

definition looks_agree :: "clock \<Rightarrow> duration \<Rightarrow> nat \<Rightarrow> queue_data list \<Rightarrow> bool" where
  "looks_agree clk ttl k ds \<longleftrightarrow>
     (let n = expired_run clk ttl k ds in n < length ds \<longrightarrow> \<not> qd_IsExpired (clk (k + n + 1)) ttl (ds ! n))"

lemma looks_agree_Nil [simp]: "looks_agree clk ttl k []"
  by (simp add: looks_agree_def)

lemma looks_agree_append:
  assumes "looks_agree clk ttl k (xs @ ys)"
  shows "expired_run clk ttl k xs = length xs \<Longrightarrow> looks_agree clk ttl (k + length xs) ys"
    and "expired_run clk ttl k xs < length xs \<Longrightarrow> looks_agree clk ttl k xs"
  using assms by (auto simp: looks_agree_def expired_run_append Let_def nth_append add.assoc)

text \<open>With a clock that stands still, these are the items of the longest expired prefix.\<close>

lemma expired_run_steady:
  "(\<And>k. clk k = now) \<Longrightarrow>
    expired_run clk ttl k ds = length (takeWhile (qd_IsExpired now ttl) ds)"
  by (induction ds arbitrary: k) auto

lemma RemoveExpired_loop_spec:
  assumes "i \<le> sz"
  shows "RemoveExpired_loop clk ttl i sz k r items cn =
    (let n = expired_run clk ttl k (map (cn_Data cn) [i..<sz])
     in (r + n, items @ map (cn_Data cn) [i..<i + n],
         cn\<lparr>cn_Data := (\<lambda>j. if i \<le> j \<and> j < i + n then zero_queue_data else cn_Data cn j),
            cn_head := cn_head cn + n\<rparr>,
         k + n + (if n < sz - i then 1 else 0)))"
  using assms
proof (induction "sz - i" arbitrary: i k r items cn)
  case 0
  moreover have "(\<lambda>j. if i \<le> j \<and> j < i then zero_queue_data else cn_Data cn j) = cn_Data cn"
    by (rule ext) auto
  ultimately show ?case
    by (cases cn) (simp add: RemoveExpired_loop.simps [of clk ttl i] cong: if_cong)
next
  case (Suc m)
  then have "i < sz" by simp
  show ?case
  proof (cases "qd_IsExpired (clk k) ttl (cn_Data cn i)")
    case True
    let ?cn = "cn\<lparr>cn_Data := (cn_Data cn)(i := zero_queue_data), cn_head := cn_head cn + 1\<rparr>"
    let ?n = "expired_run clk ttl (Suc k) (map (cn_Data cn) [Suc i..<sz])"
    have upt: "[i..<sz] = i # [Suc i..<sz]" "[i..<Suc (i + ?n)] = i # [Suc i..<Suc (i + ?n)]"
      using \<open>i < sz\<close> by (simp_all add: upt_conv_Cons del: upt_Suc)
    have fe: "(\<lambda>j. if Suc i \<le> j \<and> j < Suc i + ?n then zero_queue_data
                 else ((cn_Data cn)(i := zero_queue_data)) j)
            = (\<lambda>j. if i \<le> j \<and> j < Suc (i + ?n) then zero_queue_data else cn_Data cn j)"
      by (auto simp: fun_eq_iff)
    have "RemoveExpired_loop clk ttl i sz k r items cn
        = RemoveExpired_loop clk ttl (Suc i) sz (Suc k) (Suc r) (items @ [cn_Data cn i]) ?cn"
      using True \<open>i < sz\<close> by (subst RemoveExpired_loop.simps) (simp add: Let_def)
    also have "\<dots> = (let n = expired_run clk ttl (Suc k) (map (cn_Data ?cn) [Suc i..<sz])
       in (Suc r + n, (items @ [cn_Data cn i]) @ map (cn_Data ?cn) [Suc i..<Suc i + n],
           ?cn\<lparr>cn_Data := (\<lambda>j. if Suc i \<le> j \<and> j < Suc i + n then zero_queue_data else cn_Data ?cn j),
              cn_head := cn_head ?cn + n\<rparr>,
           Suc k + n + (if n < sz - Suc i then 1 else 0)))"
      by (rule Suc.hyps(1)) (use Suc.hyps(2) \<open>i < sz\<close> in simp_all)
    also have "\<dots> = (Suc r + ?n, (items @ [cn_Data cn i]) @ map (cn_Data cn) [Suc i..<Suc i + ?n],
         cn\<lparr>cn_Data := (\<lambda>j. if i \<le> j \<and> j < Suc (i + ?n) then zero_queue_data else cn_Data cn j),
            cn_head := cn_head cn + Suc ?n\<rparr>,
         Suc k + ?n + (if ?n < sz - Suc i then 1 else 0))"
      using fe by (simp add: Let_def cong: if_cong del: upt_Suc)
    finally show ?thesis
      using True \<open>i < sz\<close> upt by (auto simp: Let_def simp del: upt_Suc)
  next
    case False
    moreover have "(\<lambda>j. if i \<le> j \<and> j < i then zero_queue_data else cn_Data cn j) = cn_Data cn"
      by (rule ext) auto
    ultimately show ?thesis
      using \<open>i < sz\<close>
      by (cases cn) (simp add: RemoveExpired_loop.simps [of clk ttl i] Let_def upt_conv_Cons
          cong: if_cong)
  qed
qed


text \<open>
  What one call of \<^verbatim>\<open>RemoveExpired\<close> does: the first \<open>n\<close> live items are returned and their slots
  zeroed, the others stay.
\<close>

lemma cn_RemoveExpired_spec:
  assumes "cn_inv cn" and "cn_RemoveExpired clk ttl k cn = (n, removedItems, cn', k')"
  shows "n = expired_run clk ttl k (cn_live cn)" and "n \<le> length (cn_live cn)"
    and "removedItems = take n (cn_live cn)" and "cn_live cn' = drop n (cn_live cn)"
    and "cn_inv cn'" and "cn_size cn' = cn_size cn" and "cn_head cn' = cn_head cn + n"
    and "cn_NextElement cn' = cn_NextElement cn" and "cn_pooled cn' = cn_pooled cn"
    and "k' = k + n + (if n < length (cn_live cn) then 1 else 0)"
proof -
  let ?h = "cn_head cn" and ?s = "cn_size cn"
  have le: "?h \<le> ?s" "?s \<le> 1000" using cn_inv_le [OF assms(1)] by simp_all
  have eq: "n = expired_run clk ttl k (cn_live cn)"
    "removedItems = map (cn_Data cn) [?h..<?h + n]"
    "cn' = cn\<lparr>cn_Data := (\<lambda>j. if ?h \<le> j \<and> j < ?h + n then zero_queue_data else cn_Data cn j),
             cn_head := ?h + n\<rparr>"
    "k' = k + n + (if n < ?s - ?h then 1 else 0)"
    using assms(2) RemoveExpired_loop_spec [OF le(1), of clk ttl k 0 "[]" cn]
    by (auto simp: cn_RemoveExpired_def Let_def cn_live_def)
  show n: "n = expired_run clk ttl k (cn_live cn)" by (rule eq(1))
  then show len: "n \<le> length (cn_live cn)" by (simp only: expired_run_le)
  show "removedItems = take n (cn_live cn)"
    using eq(2) len le by (simp add: cn_live_def take_map)
  show "cn_size cn' = ?s" "cn_head cn' = ?h + n" "cn_NextElement cn' = cn_NextElement cn"
    "cn_pooled cn' = cn_pooled cn"
    using eq(3) by simp_all
  show "cn_live cn' = drop n (cn_live cn)"
    using eq(3) len by (simp add: cn_live_def drop_map)
  show "cn_inv cn'"
    using assms(1) eq(3) len by (auto simp: cn_inv_def)
  show "k' = k + n + (if n < length (cn_live cn) then 1 else 0)"
    using eq(4) by simp
qed

lemma cn_GetEarliestExpiry_live:
  assumes "cn_inv cn"
  shows "cn_GetEarliestExpiry cn
    = (case cn_live cn of [] \<Rightarrow> None | d # _ \<Rightarrow> Some (qd_Created d))"
  using cn_inv_le [OF assms]
  by (cases "cn_head cn < cn_size cn")
    (auto simp: cn_GetEarliestExpiry_def cn_live_def upt_conv_Cons)

lemma looks_agree_steady:
  assumes "\<And>k. clk k = now"
  shows "looks_agree clk ttl k ds"
  using nth_length_takeWhile [of "qd_IsExpired now ttl" ds]
  unfolding looks_agree_def Let_def expired_run_steady [of clk, OF assms] assms by blast

text \<open>An item with no time left in it: what a steady clock says of the first item kept.\<close>

lemma expired_run_drop_steady:
  assumes "\<And>k. clk k = now"
  shows "drop (expired_run clk ttl k ds) ds = dropWhile (qd_IsExpired now ttl) ds"
    and "take (expired_run clk ttl k ds) ds = takeWhile (qd_IsExpired now ttl) ds"
proof -
  have n: "expired_run clk ttl k ds = length (takeWhile (qd_IsExpired now ttl) ds)"
    by (rule expired_run_steady) (rule assms)
  show "drop (expired_run clk ttl k ds) ds = dropWhile (qd_IsExpired now ttl) ds"
    unfolding n by (rule dropWhile_eq_drop [symmetric])
  show "take (expired_run clk ttl k ds) ds = takeWhile (qd_IsExpired now ttl) ds"
    unfolding n by (rule takeWhile_eq_take [symmetric])
qed

end
