(* ===== verification/MQ_Errors.thy ===== *)
theory MQ_Errors
  imports MQ_Prelude
begin

text \<open>
  The error values of the package (\<^verbatim>\<open>queue/errors.go\<close>) and their messages. Every error a queue
  operation returns is a value of one datatype: the exported struct types keep their names and
  fields, an error made by \<^verbatim>\<open>fmt.Errorf\<close> is its text (with the wrapped error, where the format
  has \<^verbatim>\<open>%w\<close>), and \<^verbatim>\<open>ctx.Err()\<close> is one of the two errors of the context package.
\<close>

datatype go_error =
    QueueClosedError string
  | ConsumerNotFoundError string
  | InvalidPositionError int string
  | MemoryLimitError int int int
  | QueueFullError int
  | QueueError string
  | FilterNotSupportedError
  | Errorf string
  | ErrorfWrap string go_error
  | ContextCanceled
  | ContextDeadlineExceeded

section \<open>Decimal numerals (the verb \<open>%d\<close>)\<close>

fun show_nat :: "nat \<Rightarrow> string" where
  "show_nat n =
     (if n < 10 then [char_of (48 + n)] else show_nat (n div 10) @ [char_of (48 + n mod 10)])"

declare show_nat.simps [simp del]

definition show_int :: "int \<Rightarrow> string" where
  "show_int i = (if i < 0 then ''-'' @ show_nat (nat (- i)) else show_nat (nat i))"

text \<open>Reading a numeral back: the value of a string of digits.\<close>

definition read_nat :: "string \<Rightarrow> nat" where
  "read_nat s = foldl (\<lambda>v c. 10 * v + (of_char c - 48)) 0 s"

lemma of_char_digit: "d < 10 \<Longrightarrow> of_char (char_of (48 + d) :: char) = (48 + d :: nat)"
  by simp

lemma read_show_nat: "read_nat (show_nat n) = n"
proof (induction n rule: show_nat.induct)
  case (1 n)
  show ?case
  proof (cases "n < 10")
    case True
    then show ?thesis
      by (subst show_nat.simps) (simp add: read_nat_def of_char_digit)
  next
    case False
    with 1 have "read_nat (show_nat (n div 10)) = n div 10" by simp
    then show ?thesis
      using False by (subst show_nat.simps) (simp add: read_nat_def of_char_digit)
  qed
qed

lemma show_nat_digits: "c \<in> set (show_nat n) \<Longrightarrow> 48 \<le> (of_char c :: nat) \<and> (of_char c :: nat) < 58"
proof (induction n rule: show_nat.induct)
  case (1 n)
  show ?case
  proof (cases "n < 10")
    case True
    with "1.prems" show ?thesis
      by (subst (asm) show_nat.simps) (simp add: of_char_digit)
  next
    case False
    with "1.prems" have "c \<in> set (show_nat (n div 10)) \<or> c = char_of (48 + n mod 10)"
      by (subst (asm) show_nat.simps) auto
    then show ?thesis
    proof
      assume "c \<in> set (show_nat (n div 10))"
      with False show ?thesis by (rule "1.IH")
    next
      assume "c = char_of (48 + n mod 10)"
      then show ?thesis by (simp add: of_char_digit)
    qed
  qed
qed

lemma show_int_inject: "show_int i = show_int j \<longleftrightarrow> i = j"
proof
  assume eq: "show_int i = show_int j"
  have minus: "CHR ''-'' \<notin> set (show_nat n)" for n
    using show_nat_digits [of "CHR ''-''" n] by auto
  have hd: "''-'' @ s \<noteq> show_nat n" for s n
    using minus [of n] by (metis append_Cons list.set_intros(1))
  have inj: "show_nat m = show_nat n \<Longrightarrow> m = n" for m n
    by (metis read_show_nat)
  show "i = j"
    using eq inj [of "nat (- i)" "nat (- j)"] inj [of "nat i" "nat j"]
      hd [of "show_nat (nat (- i))" "nat j"] hd [of "show_nat (nat (- j))" "nat i"]
    by (auto simp: show_int_def split: if_splits)
qed simp

section \<open>The messages\<close>

text \<open>
  The method \<^verbatim>\<open>Error()\<close> of each type. \<^verbatim>\<open>fmt.Errorf\<close> with \<open>%w\<close> puts the wrapped error's message
  in the place of the verb, which in this program is the end of the text.
\<close>

primrec Error :: "go_error \<Rightarrow> string" where
  "Error (QueueClosedError op) =
     (if op \<noteq> '''' then ''queue closed: cannot perform '' @ op @ '' operation''
      else ''queue closed'')"
| "Error (ConsumerNotFoundError cid) = ''consumer not found: '' @ cid"
| "Error (InvalidPositionError pos reason) =
     (if reason \<noteq> '''' then ''invalid position '' @ show_int pos @ '': '' @ reason
      else ''invalid position: '' @ show_int pos)"
| "Error (MemoryLimitError current mx needed) =
     ''memory limit exceeded: current='' @ show_int current @ '', max='' @ show_int mx
       @ '', needed='' @ show_int needed"
| "Error (QueueFullError mx) = ''queue item limit reached: max='' @ show_int mx"
| "Error (QueueError msg) = msg"
| "Error FilterNotSupportedError =
     ''filtering operations are not supported for consumer groups''"
| "Error (Errorf msg) = msg"
| "Error (ErrorfWrap msg e) = msg @ Error e"
| "Error ContextCanceled = ''context canceled''"
| "Error ContextDeadlineExceeded = ''context deadline exceeded''"

definition is_memory_limit_error :: "go_error \<Rightarrow> bool" where
  "is_memory_limit_error e = (case e of MemoryLimitError _ _ _ \<Rightarrow> True | _ \<Rightarrow> False)"

lemma is_memory_limit_error_simps [simp]:
  "is_memory_limit_error (MemoryLimitError a b c)"
  "\<not> is_memory_limit_error (QueueClosedError s)"
  "\<not> is_memory_limit_error (QueueFullError n)"
  "\<not> is_memory_limit_error (QueueError s)"
  "\<not> is_memory_limit_error (Errorf s)"
  "\<not> is_memory_limit_error (ErrorfWrap s e)"
  by (simp_all add: is_memory_limit_error_def)

end
