(* ===== verification/MQ_Float.thy ===== *)
theory MQ_Float
  imports Complex_Main MQ_Errors
begin

text \<open>
  Go's \<^verbatim>\<open>float64\<close>: the binary64 numbers as rationals, with the infinities and NaN. Every operation is
  the exact one rounded to the nearest number (ties to even), as the language and IEEE 754 say. The
  two zeros are one value here; the program divides by a zero only where it is the positive one.
\<close>

section \<open>Rounding\<close>

text \<open>To an integer, ties to even.\<close>

definition round_even :: "rat \<Rightarrow> int" where
  "round_even x =
     (let m = \<lfloor>x\<rfloor>; r = x - of_int m
      in if r > 1 / 2 \<or> r = 1 / 2 \<and> odd m then m + 1 else m)"

lemma nat_floor_halved: "1 \<le> y \<Longrightarrow> nat \<lfloor>y / 2\<rfloor> < nat \<lfloor>y :: rat\<rfloor>"
proof -
  assume y: "1 \<le> y"
  have "1 \<le> \<lfloor>y\<rfloor>" using y by simp
  have "\<lfloor>y / 2\<rfloor> < \<lfloor>y\<rfloor>"
  proof -
    have "y / 2 < of_int \<lfloor>y\<rfloor>" 
    proof -
      have "y < of_int \<lfloor>y\<rfloor> + 1" by linarith
      moreover have "1 \<le> (of_int \<lfloor>y\<rfloor> :: rat)" using \<open>1 \<le> \<lfloor>y\<rfloor>\<close> by simp
      ultimately show ?thesis by linarith
    qed
    then show ?thesis by (simp add: floor_less_iff)
  qed
  then show ?thesis using \<open>1 \<le> \<lfloor>y\<rfloor>\<close> by linarith
qed

text \<open>To 53 significant bits: scaled into \<open>[2 ^ 52, 2 ^ 53)\<close>, rounded there, and scaled back.\<close>

function round_normal :: "rat \<Rightarrow> rat" where
  "round_normal x =
     (if x \<le> 0 then 0
      else if x < 4503599627370496 then round_normal (2 * x) / 2
      else if 9007199254740992 \<le> x then 2 * round_normal (x / 2)
      else of_int (round_even x))"
  by pat_completeness auto

termination
proof (relation "measure (\<lambda>x :: rat. if x < 4503599627370496 then Suc (nat \<lfloor>9007199254740992 / x\<rfloor>) + 9007199254740992
    else if 9007199254740992 \<le> x then nat \<lfloor>x\<rfloor> else 0)")
  fix x :: rat
  assume a: "\<not> x \<le> 0" "x < 4503599627370496"
  have "nat \<lfloor>9007199254740992 / x / 2\<rfloor> < nat \<lfloor>9007199254740992 / x\<rfloor>"
    by (rule nat_floor_halved) (use a in \<open>simp add: field_simps\<close>)
  then show "(2 * x, x) \<in> measure (\<lambda>x :: rat. if x < 4503599627370496 then Suc (nat \<lfloor>9007199254740992 / x\<rfloor>) + 9007199254740992
    else if 9007199254740992 \<le> x then nat \<lfloor>x\<rfloor> else 0)"
    using a by (auto simp: mult.commute)
next
  fix x :: rat
  assume a: "\<not> x \<le> 0" "\<not> x < 4503599627370496" "9007199254740992 \<le> x"
  have "nat \<lfloor>x / 2\<rfloor> < nat \<lfloor>x\<rfloor>" by (rule nat_floor_halved) (use a in simp)
  then show "(x / 2, x) \<in> measure (\<lambda>x :: rat. if x < 4503599627370496 then Suc (nat \<lfloor>9007199254740992 / x\<rfloor>) + 9007199254740992
    else if 9007199254740992 \<le> x then nat \<lfloor>x\<rfloor> else 0)"
    using a by auto
qed simp

declare round_normal.simps [simp del]

lemma round_normal_0 [simp]: "x \<le> 0 \<Longrightarrow> round_normal x = 0"
  by (simp add: round_normal.simps [of x])

lemma round_normal_double: "round_normal (2 * x) = 2 * round_normal x"
proof (cases "x < 4503599627370496")
  case True
  then show ?thesis by (cases "x \<le> 0") (simp_all add: round_normal.simps [of x])
next
  case False
  then show ?thesis using round_normal.simps [of "2 * x"] by simp
qed

lemma round_normal_scale: "round_normal (x * 2 ^ k) = round_normal x * 2 ^ k"
proof (induction k)
  case (Suc k)
  have "round_normal (x * 2 ^ Suc k) = round_normal (2 * (x * 2 ^ k))" by (simp add: ac_simps)
  also have "\<dots> = round_normal x * 2 ^ Suc k" unfolding round_normal_double Suc by simp
  finally show ?case .
qed simp

lemma round_normal_unit:
  "4503599627370496 \<le> x \<Longrightarrow> x < 9007199254740992 \<Longrightarrow> round_normal x = of_int (round_even x)"
  by (simp add: round_normal.simps [of x])

text \<open>The rounded number, when the binade is known.\<close>

lemma round_normal_below:
  assumes "4503599627370496 \<le> x * 2 ^ k" "x * 2 ^ k < 9007199254740992"
  shows "round_normal x = of_int (round_even (x * 2 ^ k)) / 2 ^ k"
  using round_normal_unit [OF assms] round_normal_scale [of x k] by (simp add: field_simps)

lemma round_normal_above:
  assumes "4503599627370496 \<le> x / 2 ^ k" "x / 2 ^ k < 9007199254740992"
  shows "round_normal x = of_int (round_even (x / 2 ^ k)) * 2 ^ k"
  using round_normal_unit [OF assms] round_normal_scale [of "x / 2 ^ k" k] by simp

lemma round_even_int [simp]: "round_even (of_int n) = n" "round_even (of_nat m) = int m"
  by (simp_all add: round_even_def)

lemma round_even_error: "of_int (round_even x) \<le> x + 1 / 2" "x - 1 / 2 \<le> of_int (round_even x)"
proof -
  have f: "of_int \<lfloor>x\<rfloor> \<le> x" "x < of_int \<lfloor>x\<rfloor> + 1" by linarith+
  have "round_even x = \<lfloor>x\<rfloor> + 1 \<and> x - of_int \<lfloor>x\<rfloor> \<ge> 1 / 2 \<or> round_even x = \<lfloor>x\<rfloor> \<and> x - of_int \<lfloor>x\<rfloor> \<le> 1 / 2"
    unfolding round_even_def Let_def by (simp add: linorder_not_less del: diff_le_eq)
  then show "of_int (round_even x) \<le> x + 1 / 2" "x - 1 / 2 \<le> of_int (round_even x)"
    using f by (elim disjE conjE; simp; linarith)+
qed

text \<open>Every positive number is in a binade; an error of one part in \<open>2 ^ 53\<close>.\<close>

lemma round_normal_error:
  assumes "0 < x"
  shows "round_normal x \<le> x * (1 + 1 / 9007199254740992)" "x * (1 - 1 / 9007199254740992) \<le> round_normal x"
proof -
  have "round_normal x \<le> x * (1 + 1 / 9007199254740992) \<and> x * (1 - 1 / 9007199254740992) \<le> round_normal x"
    using assms
  proof (induction x rule: round_normal.induct)
    case (1 x)
    consider "x < 4503599627370496" | "9007199254740992 \<le> x" | "4503599627370496 \<le> x" "x < 9007199254740992"
      by linarith
    then show ?case
    proof cases
      case 1
      then show ?thesis using "1.IH"(1) "1.prems" round_normal.simps [of x] by simp
    next
      case 2
      then show ?thesis using "1.IH"(2) "1.prems" round_normal.simps [of x] by simp
    next
      case 3
      then show ?thesis
        using round_even_error [of x] unfolding round_normal_unit [OF 3] by (simp add: field_simps)
    qed
  qed
  then show "round_normal x \<le> x * (1 + 1 / 9007199254740992)" "x * (1 - 1 / 9007199254740992) \<le> round_normal x"
    by blast+
qed

text \<open>Integers up to \<open>2 ^ 53\<close> are numbers of the format.\<close>

lemma round_normal_nat: "n \<le> 9007199254740992 \<Longrightarrow> round_normal (of_nat n) = of_nat n"
proof (cases "n = 0 \<or> n = 9007199254740992")
  case True
  have "round_normal (4503599627370496 * 2 ^ 1) = 4503599627370496 * 2 ^ 1"
    unfolding round_normal_scale using round_even_int(1) [of 4503599627370496]
    by (subst round_normal_unit) simp_all
  then show ?thesis using True by auto
next
  case False
  assume "n \<le> 9007199254740992"
  with False have n: "0 < n" "n < 9007199254740992" by simp_all
  have "\<exists>k. 4503599627370496 \<le> n * 2 ^ k \<and> n * 2 ^ k < 9007199254740992"
    using n
  proof (induction "9007199254740992 - n" arbitrary: n rule: less_induct)
    case less
    show ?case
    proof (cases "4503599627370496 \<le> n")
      case True
      then show ?thesis using less.prems by (intro exI [of _ 0]) simp
    next
      case False
      then have "9007199254740992 - 2 * n < 9007199254740992 - n" "0 < 2 * n" "2 * n < 9007199254740992"
        using less.prems by linarith+
      from less.hyps [OF this] obtain k where "4503599627370496 \<le> 2 * n * 2 ^ k \<and> 2 * n * 2 ^ k < 9007199254740992"
        by blast
      then show ?thesis by (intro exI [of _ "Suc k"]) (simp add: ac_simps)
    qed
  qed
  then obtain k where k: "4503599627370496 \<le> n * 2 ^ k" "n * 2 ^ k < 9007199254740992" by blast
  have e: "(of_nat n * 2 ^ k :: rat) = of_nat (n * 2 ^ k)" by simp
  have "round_normal (of_nat n) = of_int (round_even (of_nat (n * 2 ^ k))) / 2 ^ k"
    unfolding e [symmetric]
  proof (rule round_normal_below)
    show "4503599627370496 \<le> (of_nat n * 2 ^ k :: rat)" "(of_nat n * 2 ^ k :: rat) < 9007199254740992"
      unfolding e using k by (metis of_nat_le_iff of_nat_numeral, metis of_nat_less_iff of_nat_numeral)
  qed
  then show ?thesis unfolding round_even_int by simp
qed

section \<open>Values and operations\<close>

datatype float64 = Fin rat | PInf | NInf | NaN

text \<open>
  A rational as a \<^verbatim>\<open>float64\<close>: below \<open>2 ^ -1022\<close> the numbers are the multiples of \<open>2 ^ -1074\<close>, and what
  rounds to \<open>2 ^ 1024\<close> is an infinity.
\<close>

definition round_magnitude :: "rat \<Rightarrow> rat" where
  "round_magnitude x =
     (if x * 2 ^ 1022 < 1 then of_int (round_even (x * 2 ^ 1074)) / 2 ^ 1074 else round_normal x)"

definition float_of :: "rat \<Rightarrow> float64" where
  "float_of x =
     (if 0 \<le> x then (if round_magnitude x < 2 ^ 1024 then Fin (round_magnitude x) else PInf)
      else (if round_magnitude (- x) < 2 ^ 1024 then Fin (- round_magnitude (- x)) else NInf))"

fun f_neg :: "float64 \<Rightarrow> float64" where
  "f_neg (Fin a) = Fin (- a)"
| "f_neg PInf = NInf"
| "f_neg NInf = PInf"
| "f_neg NaN = NaN"

fun f_add :: "float64 \<Rightarrow> float64 \<Rightarrow> float64" where
  "f_add (Fin a) (Fin b) = float_of (a + b)"
| "f_add NaN _ = NaN"
| "f_add _ NaN = NaN"
| "f_add PInf NInf = NaN"
| "f_add NInf PInf = NaN"
| "f_add PInf _ = PInf"
| "f_add _ PInf = PInf"
| "f_add NInf _ = NInf"
| "f_add _ NInf = NInf"

definition f_sub :: "float64 \<Rightarrow> float64 \<Rightarrow> float64" where
  "f_sub a b = f_add a (f_neg b)"

text \<open>The infinity with the sign of a number; \<open>0 * \<infinity>\<close> is not a number.\<close>

definition inf_of_sign :: "rat \<Rightarrow> float64" where
  "inf_of_sign a = (if a = 0 then NaN else if 0 < a then PInf else NInf)"

fun f_mul :: "float64 \<Rightarrow> float64 \<Rightarrow> float64" where
  "f_mul (Fin a) (Fin b) = float_of (a * b)"
| "f_mul NaN _ = NaN"
| "f_mul _ NaN = NaN"
| "f_mul (Fin a) PInf = inf_of_sign a"
| "f_mul (Fin a) NInf = inf_of_sign (- a)"
| "f_mul PInf (Fin a) = inf_of_sign a"
| "f_mul NInf (Fin a) = inf_of_sign (- a)"
| "f_mul PInf PInf = PInf"
| "f_mul NInf NInf = PInf"
| "f_mul _ _ = NInf"

text \<open>A zero divisor is the positive zero.\<close>

fun f_div :: "float64 \<Rightarrow> float64 \<Rightarrow> float64" where
  "f_div (Fin a) (Fin b) = (if b = 0 then inf_of_sign a else float_of (a / b))"
| "f_div NaN _ = NaN"
| "f_div _ NaN = NaN"
| "f_div (Fin a) _ = Fin 0"
| "f_div PInf (Fin b) = (if 0 \<le> b then PInf else NInf)"
| "f_div NInf (Fin b) = (if 0 \<le> b then NInf else PInf)"
| "f_div _ _ = NaN"

text \<open>\<^verbatim>\<open>a < b\<close>; every comparison with NaN is false.\<close>

fun f_less :: "float64 \<Rightarrow> float64 \<Rightarrow> bool" where
  "f_less (Fin a) (Fin b) = (a < b)"
| "f_less NaN _ = False"
| "f_less _ NaN = False"
| "f_less NInf b = (b \<noteq> NInf)"
| "f_less a PInf = (a \<noteq> PInf)"
| "f_less _ _ = False"

text \<open>\<^verbatim>\<open>float64(n)\<close> of an integer.\<close>

definition float_of_int :: "int \<Rightarrow> float64" where
  "float_of_int n = float_of (of_int n)"

section \<open>Exact values\<close>

lemma round_magnitude_large: "1 / 2 ^ 1022 \<le> x \<Longrightarrow> round_magnitude x = round_normal x"
  by (simp add: round_magnitude_def field_simps)

lemma round_magnitude_0 [simp]: "round_magnitude 0 = 0"
  using round_even_int(1) [of 0] by (simp add: round_magnitude_def)

lemma float_of_pos:
  assumes "1 / 2 ^ 1022 \<le> x" "round_normal x < 2 ^ 1024"
  shows "float_of x = Fin (round_normal x)"
proof -
  have "(0 :: rat) < 1 / 2 ^ 1022" by simp
  then have "0 \<le> x" using assms(1) by linarith
  then show ?thesis using assms by (simp add: float_of_def round_magnitude_large)
qed

lemma float_of_nat:
  assumes "n \<le> 9007199254740992"
  shows "float_of (of_nat n) = Fin (of_nat n)"
proof (cases "n = 0")
  case True
  then show ?thesis by (simp add: float_of_def)
next
  case False
  have "(1 :: rat) / 2 ^ 1022 \<le> 1" by simp
  moreover have n: "(1 :: rat) \<le> of_nat n" using False by simp
  ultimately have a: "(1 :: rat) / 2 ^ 1022 \<le> of_nat n" by (rule order_trans)
  have "(of_nat n :: rat) \<le> of_nat 9007199254740992" using assms by (simp only: of_nat_le_iff)
  also have "\<dots> < 2 ^ 1024" by simp
  finally show ?thesis using float_of_pos [OF a] round_normal_nat [OF assms] by simp
qed

lemma float_of_int_exact: "0 \<le> n \<Longrightarrow> n \<le> 9007199254740992 \<Longrightarrow> float_of_int n = Fin (of_int n)"
  using float_of_nat [of "nat n"] by (simp add: float_of_int_def)

section \<open>Printing (the verbs \<open>%f\<close> and \<open>%.2f\<close>)\<close>

text \<open>Leading zeros up to a width.\<close>

definition pad_zeros :: "nat \<Rightarrow> string \<Rightarrow> string" where
  "pad_zeros w s = replicate (w - length s) CHR ''0'' @ s"

text \<open>The digits of a magnitude with \<open>prec\<close> decimals: the exact value, rounded half to even.\<close>

definition show_fixed :: "nat \<Rightarrow> rat \<Rightarrow> string" where
  "show_fixed prec x =
     (let n = nat (round_even (x * 10 ^ prec))
      in show_nat (n div 10 ^ prec) @ ''.'' @ pad_zeros prec (show_nat (n mod 10 ^ prec)))"

definition fmt_f :: "nat \<Rightarrow> float64 \<Rightarrow> string" where
  "fmt_f prec x =
     (case x of
        Fin a \<Rightarrow> if a < 0 then ''-'' @ show_fixed prec (- a) else show_fixed prec a
      | PInf \<Rightarrow> ''+Inf''
      | NInf \<Rightarrow> ''-Inf''
      | NaN \<Rightarrow> ''NaN'')"

text \<open>An integer prints as its digits and zeros.\<close>

lemma fmt_f_nat: "fmt_f prec (Fin (of_nat n)) = show_nat n @ ''.'' @ pad_zeros prec (show_nat 0)"
proof -
  have e: "(of_nat n * 10 ^ prec :: rat) = of_nat (n * 10 ^ prec)" by simp
  have "round_even (of_nat n * 10 ^ prec :: rat) = int (n * 10 ^ prec)" unfolding e by (rule round_even_int(2))
  moreover have "nat (int n * 10 ^ prec) = n * 10 ^ prec" by (simp add: nat_mult_distrib nat_power_eq)
  ultimately show ?thesis by (simp add: fmt_f_def show_fixed_def Let_def)
qed

section \<open>A percentage around ninety\<close>

text \<open>Of a quotient up to 0.9 the percentage is at most 90, of a little more it is above.\<close>

lemma round_even_ge: "of_int n - 1 / 2 < x \<Longrightarrow> n \<le> round_even x"
  using round_even_error(2) [of x] by linarith

lemma round_even_le: "x < of_int n + 1 / 2 \<Longrightarrow> round_even x \<le> n"
  using round_even_error(1) [of x] by linarith

lemma nine_tenths:
  fixes x :: rat
  assumes "0 < x"
  shows "x \<le> 9 / 10 \<Longrightarrow> round_normal (round_normal x * 100) \<le> 90"
    and "9 / 10 + 1 / (10 * 2 ^ 50) \<le> x \<Longrightarrow> 90 < round_normal (round_normal x * 100)"
proof -
  note E = round_normal_error [OF assms]
  have pos: "0 < round_normal x" using E(2) assms by (simp add: zero_less_mult_iff order_less_le_trans)
  then have p100: "0 < round_normal x * 100" by simp
  note E' = round_normal_error [OF p100]
  have unit: "round_normal x = of_int (round_even (x * 2 ^ 53)) / 2 ^ 53"
    if "1 / 2 \<le> x" "x < 1" by (rule round_normal_below) (use that in simp_all)
  have unit': "round_normal (of_int N / 2 ^ 53 * 100) = of_int (round_even (of_int N * 100 / 128)) / 2 ^ 46"
    if "5854679515581645 \<le> N" "N < 11529215046068469" for N
  proof -
    have "of_int N / 2 ^ 53 * 100 * 2 ^ 46 = (of_int N * 100 / 128 :: rat)" by simp
    moreover have "(of_int 5854679515581645 :: rat) \<le> of_int N" "(of_int N :: rat) < of_int 11529215046068469"
      using that by (simp_all only: of_int_le_iff of_int_less_iff)
    ultimately show ?thesis by (subst round_normal_below [where k = 46]) simp_all
  qed
  show "round_normal (round_normal x * 100) \<le> 90" if "x \<le> 9 / 10"
  proof (cases "x < 2 / 3")
    case True
    have "round_normal x \<le> 2 / 3 * (1 + 1 / 9007199254740992)"
      by (rule order_trans [OF E(1)]) (use True in simp)
    then show ?thesis using E'(1) by simp
  next
    case False
    let ?N = "round_even (x * 2 ^ 53)"
    have N: "?N \<le> 8106479329266893" "5854679515581645 \<le> ?N"
      using that False by (intro round_even_le round_even_ge; simp)+
    have "(of_int ?N :: rat) \<le> of_int 8106479329266893" using N by (simp only: of_int_le_iff)
    then have "round_even (of_int ?N * 100 / 128) \<le> 6333186975989760"
      by (intro round_even_le) simp
    then have "(of_int (round_even (of_int ?N * 100 / 128)) :: rat) \<le> of_int 6333186975989760"
      by (simp only: of_int_le_iff)
    moreover have y: "round_normal x = of_int ?N / 2 ^ 53" by (rule unit) (use that False in simp_all)
    moreover have z: "round_normal (of_int ?N / 2 ^ 53 * 100) = of_int (round_even (of_int ?N * 100 / 128)) / 2 ^ 46"
      by (rule unit') (use N in linarith)+
    ultimately show ?thesis unfolding y z by simp
  qed
  show "90 < round_normal (round_normal x * 100)" if "9 / 10 + 1 / (10 * 2 ^ 50) \<le> x"
  proof (cases "x < 1")
    case False
    have "1 * (1 - 1 / 9007199254740992) \<le> round_normal x"
      by (rule order_trans [OF _ E(2)]) (use False in simp)
    then show ?thesis using E'(2) by simp
  next
    case True
    let ?N = "round_even (x * 2 ^ 53)"
    have N: "8106479329266894 \<le> ?N" "?N \<le> 9007199254740992"
      using that True by (intro round_even_ge round_even_le; simp)+
    have "(of_int 8106479329266894 :: rat) \<le> of_int ?N" using N by (simp only: of_int_le_iff)
    then have "6333186975989761 \<le> round_even (of_int ?N * 100 / 128)"
      by (intro round_even_ge) simp
    then have "(of_int 6333186975989761 :: rat) \<le> of_int (round_even (of_int ?N * 100 / 128))"
      by (simp only: of_int_le_iff)
    moreover have y: "round_normal x = of_int ?N / 2 ^ 53" by (rule unit) (use that True in simp_all)
    moreover have z: "round_normal (of_int ?N / 2 ^ 53 * 100) = of_int (round_even (of_int ?N * 100 / 128)) / 2 ^ 46"
      by (rule unit') (use N in linarith)+
    ultimately show ?thesis unfolding y z by simp
  qed
qed

section \<open>Rounding does not cross a number of the format\<close>

lemma round_normal_ge_fixed: "round_normal r = r \<Longrightarrow> r \<le> x \<Longrightarrow> r \<le> round_normal x"
proof (induction x arbitrary: r rule: round_normal.induct)
  case (1 x)
  have half: "round_normal (r / 2) = r / 2" using round_normal_double [of "r / 2"] "1.prems"(1) by simp
  have double: "round_normal (2 * r) = 2 * r" using round_normal_double [of r] "1.prems"(1) by simp
  consider "x \<le> 0" | "0 < x" "x < 4503599627370496" | "9007199254740992 \<le> x" | "4503599627370496 \<le> x" "x < 9007199254740992"
    by linarith
  then show ?case
  proof cases
    case 1
    then show ?thesis using "1.prems" by simp
  next
    case 2
    then show ?thesis using "1.IH"(1) [OF _ _ double] "1.prems" round_normal.simps [of x] by simp
  next
    case 3
    then show ?thesis using "1.IH"(2) [OF _ _ _ half] "1.prems" round_normal.simps [of x] by simp
  next
    case 4
    show ?thesis
    proof (cases "4503599627370496 \<le> r")
      case True
      then have "r = of_int (round_even r)" using round_normal_unit [of r] "1.prems" 4 by simp
      then obtain n where n: "r = of_int n" by blast
      have "n \<le> round_even x" by (rule round_even_ge) (use "1.prems"(2) n in simp)
      then show ?thesis unfolding round_normal_unit [OF 4] n by simp
    next
      case False
      have "4503599627370496 \<le> round_even x" by (rule round_even_ge) (use 4 in simp)
      then have "(of_int 4503599627370496 :: rat) \<le> of_int (round_even x)" by (simp only: of_int_le_iff)
      then show ?thesis unfolding round_normal_unit [OF 4] using False by simp
    qed
  qed
qed

lemma round_normal_le_fixed: "round_normal r = r \<Longrightarrow> x \<le> r \<Longrightarrow> round_normal x \<le> r"
proof (induction x arbitrary: r rule: round_normal.induct)
  case (1 x)
  have half: "round_normal (r / 2) = r / 2" using round_normal_double [of "r / 2"] "1.prems"(1) by simp
  have double: "round_normal (2 * r) = 2 * r" using round_normal_double [of r] "1.prems"(1) by simp
  consider "x \<le> 0" | "0 < x" "x < 4503599627370496" | "9007199254740992 \<le> x" | "4503599627370496 \<le> x" "x < 9007199254740992"
    by linarith
  then show ?case
  proof cases
    case 1
    have "0 \<le> r" using "1.prems"(1) round_normal_0 [of r] by (cases "r \<le> 0") auto
    then show ?thesis using 1 by simp
  next
    case 2
    then show ?thesis using "1.IH"(1) [OF _ _ double] "1.prems" round_normal.simps [of x] by simp
  next
    case 3
    then show ?thesis using "1.IH"(2) [OF _ _ _ half] "1.prems" round_normal.simps [of x] by simp
  next
    case 4
    show ?thesis
    proof (cases "r < 9007199254740992")
      case True
      then have "r = of_int (round_even r)" using round_normal_unit [of r] "1.prems" 4 by simp
      then obtain n where n: "r = of_int n" by blast
      have "round_even x \<le> n" by (rule round_even_le) (use "1.prems"(2) n in simp)
      then show ?thesis unfolding round_normal_unit [OF 4] n by simp
    next
      case False
      have "round_even x \<le> 9007199254740992" by (rule round_even_le) (use 4 in simp)
      then have "(of_int (round_even x) :: rat) \<le> of_int 9007199254740992" by (simp only: of_int_le_iff)
      then show ?thesis unfolding round_normal_unit [OF 4] using False by simp
    qed
  qed
qed

text \<open>A number between two whole numbers stays between them.\<close>

lemma float_between:
  assumes "0 < lo" "of_nat lo \<le> x" "x \<le> of_nat hi" "hi \<le> 9007199254740992"
  shows "\<exists>y. float_of x = Fin y \<and> of_nat lo \<le> y \<and> y \<le> of_nat hi"
proof -
  have "(of_nat lo :: rat) \<le> of_nat hi" using assms by linarith
  then have lo: "lo \<le> 9007199254740992" using assms(4) by simp
  have y: "of_nat lo \<le> round_normal x" "round_normal x \<le> of_nat hi"
    by (rule round_normal_ge_fixed [OF round_normal_nat [OF lo] assms(2)],
        rule round_normal_le_fixed [OF round_normal_nat [OF assms(4)] assms(3)])
  have "(1 :: rat) \<le> of_nat lo" using assms(1) by simp
  then have x: "1 \<le> x" using assms(2) by linarith
  have "(1 :: rat) / 2 ^ 1022 \<le> 1" by simp
  then have a: "1 / 2 ^ 1022 \<le> x" using x by (rule order_trans)
  have "(of_nat hi :: rat) \<le> of_nat 9007199254740992" using assms(4) by (simp only: of_nat_le_iff)
  also have "\<dots> < 2 ^ 1024" by simp
  finally have b: "round_normal x < 2 ^ 1024" using y(2) by linarith
  show ?thesis using float_of_pos [OF a b] y by blast
qed

end
