(* ===== verification/MQ_Memory.thy ===== *)
theory MQ_Memory
  imports MQ_Data MQ_Float
begin

text \<open>
  The memory tracker (\<^verbatim>\<open>queue/memory.go\<close>): the atomic 64-bit counter of estimated bytes, its limit
  and the cache of type sizes. The struct sizes the code takes with \<^verbatim>\<open>unsafe.Sizeof\<close> are those of
  a 64-bit platform. The compare-and-swap loops succeed in their first iteration when the method
  runs alone; each is then one atomic update of the counter.
\<close>

section \<open>Constants\<close>

definition MaxQueueMemory :: int where
  "MaxQueueMemory = 1024 * 1024"

definition BaseQueueDataSize :: int where
  "BaseQueueDataSize = 112"

definition BaseQueueEventSize :: int where
  "BaseQueueEventSize = 56"

definition ChunkNodeSize :: int where
  "ChunkNodeSize = 112240"

section \<open>The tracker\<close>

record memory_tracker =
  mt_totalMemory :: int
  mt_maxMemory :: int
  mt_sizeCache :: size_cache

definition NewMemoryTracker :: "int \<Rightarrow> memory_tracker" where
  "NewMemoryTracker maxMemory =
     \<lparr>mt_totalMemory = 0,
      mt_maxMemory = (if maxMemory \<le> 0 then MaxQueueMemory else maxMemory),
      mt_sizeCache = Map.empty\<rparr>"

text \<open>
  \<^verbatim>\<open>EstimateQueueDataSize\<close> of an item pointer (\<open>None\<close> is nil): the size and the tracker, whose
  cache the estimate of the payload may extend.
\<close>

definition mt_EstimateQueueDataSize ::
  "queue_data option \<Rightarrow> memory_tracker \<Rightarrow> int \<times> memory_tracker" where
  "mt_EstimateQueueDataSize data mt =
     (case data of
        None \<Rightarrow> (0, mt)
      | Some qd \<Rightarrow>
          let (payloadSize, cache) =
                estimatePayloadSize (mt_maxMemory mt) (qd_Payload qd) (mt_sizeCache mt);
              sz = safeAdd BaseQueueDataSize payloadSize;
              sz = safeAdd sz BaseQueueEventSize;
              sz = safeAdd sz (int (length (ev_QueueName (qd_EnqueueEvent qd))));
              sz = safeAdd sz (int (length (ev_EventType (qd_EnqueueEvent qd))))
          in (sz, mt\<lparr>mt_sizeCache := cache\<rparr>))"

definition mt_CanAddData :: "queue_data \<Rightarrow> memory_tracker \<Rightarrow> bool" where
  "mt_CanAddData data mt =
     (let sz = qd_size data
      in if sz < 0 then False else mt_totalMemory mt \<le> wrap64 (mt_maxMemory mt - sz))"

definition mt_AddData :: "queue_data \<Rightarrow> memory_tracker \<Rightarrow> memory_tracker" where
  "mt_AddData data mt =
     (let sz = qd_size data
      in if sz > 0 then mt\<lparr>mt_totalMemory := wrap64 (mt_totalMemory mt + sz)\<rparr> else mt)"

definition mt_RemoveData :: "queue_data \<Rightarrow> memory_tracker \<Rightarrow> memory_tracker" where
  "mt_RemoveData data mt =
     (let sz = qd_size data
      in if sz \<le> 0 then mt
         else let newVal = wrap64 (mt_totalMemory mt - sz)
              in mt\<lparr>mt_totalMemory := (if newVal < 0 then 0 else newVal)\<rparr>)"

definition mt_AddChunk :: "memory_tracker \<Rightarrow> memory_tracker" where
  "mt_AddChunk mt = mt\<lparr>mt_totalMemory := wrap64 (mt_totalMemory mt + ChunkNodeSize)\<rparr>"

definition mt_RemoveChunk :: "memory_tracker \<Rightarrow> memory_tracker" where
  "mt_RemoveChunk mt =
     (let newVal = wrap64 (mt_totalMemory mt - ChunkNodeSize)
      in mt\<lparr>mt_totalMemory := (if newVal < 0 then 0 else newVal)\<rparr>)"

text \<open>The usage in percent, and the warning at more than 90 of them, in floating point.\<close>

definition mt_GetMemoryUsagePercent :: "memory_tracker \<Rightarrow> float64" where
  "mt_GetMemoryUsagePercent mt =
     f_mul (f_div (float_of_int (mt_totalMemory mt)) (float_of_int (mt_maxMemory mt))) (Fin 100)"

definition mt_IsNearLimit :: "memory_tracker \<Rightarrow> bool" where
  "mt_IsNearLimit mt \<longleftrightarrow> f_less (Fin 90) (mt_GetMemoryUsagePercent mt)"

section \<open>Lemmas\<close>

lemma ChunkNodeSize_pos [simp]: "0 < ChunkNodeSize"
  by (simp add: ChunkNodeSize_def)

lemma NewMemoryTracker_simps [simp]:
  "mt_totalMemory (NewMemoryTracker m) = 0"
  "mt_maxMemory (NewMemoryTracker m) = (if m \<le> 0 then MaxQueueMemory else m)"
  "mt_sizeCache (NewMemoryTracker m) = Map.empty"
  by (simp_all add: NewMemoryTracker_def)

lemma cache_sound_empty [simp]: "cache_sound Map.empty"
  by (simp add: cache_sound_def)

text \<open>Only the counter changes when data or chunks are counted.\<close>

lemma mt_frame [frame_simps, simp]:
  "mt_maxMemory (mt_AddData d mt) = mt_maxMemory mt"
  "mt_maxMemory (mt_RemoveData d mt) = mt_maxMemory mt"
  "mt_maxMemory (mt_AddChunk mt) = mt_maxMemory mt"
  "mt_maxMemory (mt_RemoveChunk mt) = mt_maxMemory mt"
  "mt_sizeCache (mt_AddData d mt) = mt_sizeCache mt"
  "mt_sizeCache (mt_RemoveData d mt) = mt_sizeCache mt"
  "mt_sizeCache (mt_AddChunk mt) = mt_sizeCache mt"
  "mt_sizeCache (mt_RemoveChunk mt) = mt_sizeCache mt"
  by (simp_all add: mt_AddData_def mt_RemoveData_def mt_AddChunk_def mt_RemoveChunk_def Let_def)

text \<open>
  As long as the true total stays in the 64-bit range, adding is exact; removing what is counted
  is exact, the clamp at zero never acts.
\<close>

lemma mt_AddData_exact:
  "0 \<le> qd_size d \<Longrightarrow> 0 \<le> mt_totalMemory mt \<Longrightarrow> mt_totalMemory mt + qd_size d \<le> MaxInt64 \<Longrightarrow>
    mt_totalMemory (mt_AddData d mt) = mt_totalMemory mt + qd_size d"
  by (auto simp: mt_AddData_def Let_def int64_simps)

lemma mt_AddChunk_exact:
  "0 \<le> mt_totalMemory mt \<Longrightarrow> mt_totalMemory mt + ChunkNodeSize \<le> MaxInt64 \<Longrightarrow>
    mt_totalMemory (mt_AddChunk mt) = mt_totalMemory mt + ChunkNodeSize"
  by (simp add: mt_AddChunk_def int64_simps ChunkNodeSize_def)

lemma mt_RemoveData_exact:
  "0 \<le> qd_size d \<Longrightarrow> qd_size d \<le> mt_totalMemory mt \<Longrightarrow> mt_totalMemory mt \<le> MaxInt64 \<Longrightarrow>
    mt_totalMemory (mt_RemoveData d mt) = mt_totalMemory mt - qd_size d"
  by (auto simp: mt_RemoveData_def Let_def int64_simps)

lemma mt_RemoveChunk_exact:
  "ChunkNodeSize \<le> mt_totalMemory mt \<Longrightarrow> mt_totalMemory mt \<le> MaxInt64 \<Longrightarrow>
    mt_totalMemory (mt_RemoveChunk mt) = mt_totalMemory mt - ChunkNodeSize"
  by (simp add: mt_RemoveChunk_def Let_def int64_simps ChunkNodeSize_def)

lemma mt_CanAddData_iff:
  assumes "0 < mt_maxMemory mt" "mt_maxMemory mt \<le> MaxInt64" "qd_size d \<le> MaxInt64"
  shows "mt_CanAddData d mt \<longleftrightarrow> 0 \<le> qd_size d \<and> mt_totalMemory mt + qd_size d \<le> mt_maxMemory mt"
  using assms by (auto simp: mt_CanAddData_def Let_def int64_simps)

text \<open>The estimate of an item: between the fixed overhead and the largest 64-bit integer.\<close>

definition item_overhead :: int where
  "item_overhead = BaseQueueDataSize + BaseQueueEventSize"

lemma EstimateQueueDataSize_bounds:
  assumes "payload_ok (qd_Payload qd)" and "cache_sound (mt_sizeCache mt)"
    and "mt_EstimateQueueDataSize (Some qd) mt = (sz, mt')"
  shows "item_overhead \<le> sz" and "sz \<le> MaxInt64" and "cache_sound (mt_sizeCache mt')"
    and "mt_totalMemory mt' = mt_totalMemory mt" and "mt_maxMemory mt' = mt_maxMemory mt"
proof -
  obtain ps c where ps: "estimatePayloadSize (mt_maxMemory mt) (qd_Payload qd) (mt_sizeCache mt) = (ps, c)"
    by fastforce
  note b = estimatePayloadSize_sound [OF assms(1,2) ps]
  let ?a = "safeAdd BaseQueueDataSize ps"
  let ?b = "safeAdd ?a BaseQueueEventSize"
  let ?c = "safeAdd ?b (int (length (ev_QueueName (qd_EnqueueEvent qd))))"
  let ?d = "safeAdd ?c (int (length (ev_EventType (qd_EnqueueEvent qd))))"
  have r: "sz = ?d" "mt' = mt\<lparr>mt_sizeCache := c\<rparr>"
    using assms(3) ps by (simp_all add: mt_EstimateQueueDataSize_def Let_def)
  have "BaseQueueDataSize \<le> ?a" "?a \<le> MaxInt64"
    using safeAdd_ge [of BaseQueueDataSize ps] safeAdd_le [of BaseQueueDataSize ps]
    by (simp_all add: BaseQueueDataSize_def MaxInt64_def)
  moreover have "item_overhead \<le> ?b" "?b \<le> MaxInt64"
    using calculation
    by (simp_all add: safeAdd_min item_overhead_def BaseQueueEventSize_def BaseQueueDataSize_def
        MaxInt64_def)
  moreover have "?b \<le> ?c" "?c \<le> MaxInt64" "?c \<le> ?d" "?d \<le> MaxInt64"
    using calculation by (simp_all add: safeAdd_ge safeAdd_le)
  ultimately show "item_overhead \<le> sz" "sz \<le> MaxInt64" using r by simp_all
  show "cache_sound (mt_sizeCache mt')" "mt_totalMemory mt' = mt_totalMemory mt"
    "mt_maxMemory mt' = mt_maxMemory mt"
    using r b by simp_all
qed

text \<open>The warning is exact, although it is computed in floating point.\<close>

lemma near_limit_iff:
  assumes "0 \<le> mt_totalMemory mt" "mt_totalMemory mt \<le> 2 ^ 53" "0 < mt_maxMemory mt" "mt_maxMemory mt \<le> 2 ^ 50"
  shows "mt_IsNearLimit mt \<longleftrightarrow> 10 * mt_totalMemory mt > 9 * mt_maxMemory mt"
proof -
  let ?u = "mt_totalMemory mt" and ?m = "mt_maxMemory mt"
  have f: "float_of_int ?u = Fin (of_int ?u)" "float_of_int ?m = Fin (of_int ?m)"
    using assms by (simp_all add: float_of_int_exact)
  show ?thesis
  proof (cases "?u = 0")
    case True
    then show ?thesis using assms f by (simp add: mt_IsNearLimit_def mt_GetMemoryUsagePercent_def float_of_def)
  next
    case False
    let ?x = "of_int ?u / of_int ?m :: rat"
    have u: "(1 :: rat) \<le> of_int ?u" "(of_int ?u :: rat) \<le> of_int (2 ^ 53)"
      using False assms by (simp, simp only: of_int_le_iff)
    have m: "(1 :: rat) \<le> of_int ?m" "(of_int ?m :: rat) \<le> of_int (2 ^ 50)"
      using assms by (simp, simp only: of_int_le_iff)
    have x: "1 / 2 ^ 50 \<le> ?x" "?x \<le> 2 ^ 53"
      using u m by (simp_all add: field_simps)
    let ?y = "round_normal ?x" and ?z = "round_normal (round_normal ?x * 100)"
    have "0 < ?x" using u m by simp
    note E = round_normal_error [OF this]
    have tiny: "(1 :: rat) / 2 ^ 1022 \<le> 1 / 2 ^ 51" by (simp add: field_simps)
    have y: "1 / 2 ^ 51 \<le> ?y" "?y \<le> 2 ^ 54"
      using E x by simp_all
    then have "0 < ?y * 100" using tiny by simp
    note E' = round_normal_error [OF this]
    have big: "(2 :: rat) ^ 62 < 2 ^ 1024" by simp
    have "(1 :: rat) / 2 ^ 51 \<le> 1 / 2 ^ 50" by simp
    note order_trans [OF this x(1)]
    then have b: "1 / 2 ^ 51 \<le> ?x" "1 / 2 ^ 51 \<le> ?y * 100" "?y < 2 ^ 62" "?z < 2 ^ 62" using x y E'(1) by simp_all
    have "float_of ?x = Fin ?y"
      by (rule float_of_pos [OF order_trans [OF tiny b(1)] less_trans [OF b(3) big]])
    moreover have "float_of (?y * 100) = Fin ?z"
      by (rule float_of_pos [OF order_trans [OF tiny b(2)] less_trans [OF b(4) big]])
    ultimately have "mt_GetMemoryUsagePercent mt = Fin ?z"
      using f m by (simp add: mt_GetMemoryUsagePercent_def)
    then have "mt_IsNearLimit mt \<longleftrightarrow> 90 < ?z" by (simp add: mt_IsNearLimit_def)
    also have "\<dots> \<longleftrightarrow> 10 * ?u > 9 * ?m"
    proof (cases "10 * ?u > 9 * ?m")
      case True
      then have "(of_int (9 * ?m + 1) :: rat) \<le> of_int (10 * ?u)" by (simp only: of_int_le_iff)
      then have "9 / 10 + 1 / (10 * 2 ^ 50) \<le> ?x"
        using m by (simp add: field_simps)
      then show ?thesis using nine_tenths(2) [OF \<open>0 < ?x\<close>] True by simp
    next
      case False
      then have "(of_int (10 * ?u) :: rat) \<le> of_int (9 * ?m)" by (simp only: of_int_le_iff)
      then have "?x \<le> 9 / 10" using m by (simp add: field_simps)
      then show ?thesis using nine_tenths(1) [OF \<open>0 < ?x\<close>] False by simp
    qed
    finally show ?thesis .
  qed
qed

end
