(* ===== verification/MQ_ChunkedList.thy ===== *)
theory MQ_ChunkedList
  imports MQ_Memory MQ_Errors
begin

text \<open>
  The chunked list (\<^verbatim>\<open>queue/chunked_list.go\<close>). Elements of the \<^verbatim>\<open>container/list\<close> are addresses: the
  list itself is \<open>cl_list\<close>, the chunk an element holds is \<open>cl_chunk\<close>, and \<open>cl_next\<close> is the next
  free address, so an element that was removed from the list keeps its chunk and whoever still
  points to it can look at it. The memory tracker is shared with the queue, which reaches it here.
\<close>

record chunked_list =
  cl_list :: "elem list"
  cl_chunk :: "elem \<Rightarrow> chunk_node"
  cl_next :: elem
  cl_memoryTracker :: memory_tracker
  cl_totalItems :: int

definition NewChunkedList :: "memory_tracker \<Rightarrow> chunked_list" where
  "NewChunkedList mt =
     \<lparr>cl_list = [], cl_chunk = (\<lambda>_. NewChunkNode), cl_next = 0, cl_memoryTracker = mt,
      cl_totalItems = 0\<rparr>"

section \<open>Adding items\<close>

text \<open>\<^verbatim>\<open>list.PushBack\<close> of a chunk: a new element at the end of the list.\<close>

definition cl_PushBack :: "chunk_node \<Rightarrow> chunked_list \<Rightarrow> elem \<times> chunked_list" where
  "cl_PushBack cn cl =
     (let e = cl_next cl
      in (e, cl\<lparr>cl_list := cl_list cl @ [e], cl_chunk := (cl_chunk cl)(e := cn), cl_next := e + 1\<rparr>))"

definition cl_track :: "(memory_tracker \<Rightarrow> memory_tracker) \<Rightarrow> chunked_list \<Rightarrow> chunked_list" where
  "cl_track f cl = cl\<lparr>cl_memoryTracker := f (cl_memoryTracker cl)\<rparr>"

definition cl_set_chunk :: "elem \<Rightarrow> chunk_node \<Rightarrow> chunked_list \<Rightarrow> chunked_list" where
  "cl_set_chunk e cn cl = cl\<lparr>cl_chunk := (cl_chunk cl)(e := cn)\<rparr>"

text \<open>Get or create the last chunk, as \<^verbatim>\<open>Enqueue\<close> and \<^verbatim>\<open>EnqueueBatch\<close> do.\<close>

definition cl_last_chunk :: "chunked_list \<Rightarrow> elem \<times> chunked_list" where
  "cl_last_chunk cl =
     (if cl_list cl = [] then
        let (e, cl) = cl_PushBack NewChunkNode cl
        in (e, cl_track mt_AddChunk cl)
      else
        let lastElement = last (cl_list cl);
            lastChunk = cl_chunk cl lastElement
        in if cn_IsFull lastChunk then
             let (newElement, cl) = cl_PushBack NewChunkNode cl;
                 cl = cl_track mt_AddChunk cl;
                 cl = cl_set_chunk lastElement (lastChunk\<lparr>cn_NextElement := Some newElement\<rparr>) cl
             in (newElement, cl)
           else (lastElement, cl))"

text \<open>Put one item into the last chunk and count it.\<close>

definition cl_append :: "queue_data \<Rightarrow> chunked_list \<Rightarrow> bool \<times> chunked_list" where
  "cl_append data cl =
     (let (e, cl) = cl_last_chunk cl;
          (ok, lastChunk) = cn_Add data (cl_chunk cl e)
      in if ok then
           let cl = cl_set_chunk e lastChunk cl;
               cl = cl_track (mt_AddData data) cl
           in (True, cl\<lparr>cl_totalItems := cl_totalItems cl + 1\<rparr>)
         else (False, cl))"

definition cl_Enqueue :: "queue_data \<Rightarrow> chunked_list \<Rightarrow> go_error option \<times> chunked_list" where
  "cl_Enqueue data cl =
     (if \<not> mt_CanAddData data (cl_memoryTracker cl) then
        let (needed, mt) = mt_EstimateQueueDataSize (Some data) (cl_memoryTracker cl)
        in (Some (MemoryLimitError (mt_totalMemory (cl_memoryTracker cl))
                    (mt_maxMemory (cl_memoryTracker cl)) needed),
            cl\<lparr>cl_memoryTracker := mt\<rparr>)
      else
        let (ok, cl) = cl_append data cl
        in if ok then (None, cl) else (Some (QueueError ''Failed to add data to chunk''), cl))"

fun cl_EnqueueBatch :: "queue_data list \<Rightarrow> chunked_list \<Rightarrow> go_error option \<times> chunked_list" where
  "cl_EnqueueBatch [] cl = (None, cl)"
| "cl_EnqueueBatch (data # dataItems) cl =
     (let (ok, cl) = cl_append data cl
      in if ok then cl_EnqueueBatch dataItems cl
         else (Some (QueueError ''Failed to add data to chunk during batch''), cl))"

section \<open>Expiring items\<close>

record chunk_removal_info =
  ri_Element :: elem
  ri_RemovedCount :: nat
  ri_OldHead :: nat
  ri_NewHead :: nat

definition cl_forget :: "queue_data \<Rightarrow> chunked_list \<Rightarrow> chunked_list" where
  "cl_forget data cl =
     (let cl = cl_track (mt_RemoveData data) cl
      in cl\<lparr>cl_totalItems := cl_totalItems cl - 1\<rparr>)"

definition cl_remove_element :: "elem \<Rightarrow> chunked_list \<Rightarrow> chunked_list" where
  "cl_remove_element e cl =
     (let cl = cl\<lparr>cl_list := remove1 e (cl_list cl)\<rparr>;
          cl = cl_track mt_RemoveChunk cl
      in cl_set_chunk e (PutChunkNode (cl_chunk cl e)) cl)"

text \<open>
  One round of the loop of \<^verbatim>\<open>RemoveExpiredData\<close>, on the element \<open>e\<close>: the items removed so far,
  the removal records so far and the list go in and out, with the number of clock readings and
  whether the chunk was left empty.
\<close>

definition cl_expire_chunk ::
  "clock \<Rightarrow> duration \<Rightarrow> nat \<Rightarrow> elem \<Rightarrow> nat \<times> chunk_removal_info list \<times> chunked_list
    \<Rightarrow> bool \<times> nat \<times> nat \<times> chunk_removal_info list \<times> chunked_list" where
  "cl_expire_chunk clk ttl k e st =
     (let (totalRemoved, removalInfo, cl) = st;
          oldHead = cn_head (cl_chunk cl e);
          (removedFromChunk, removedItems, chunk, k) = cn_RemoveExpired clk ttl k (cl_chunk cl e);
          newHead = cn_head chunk;
          cl = cl_set_chunk e chunk cl;
          (totalRemoved, removalInfo, cl) =
            (if removedFromChunk > 0
             then (totalRemoved + removedFromChunk,
                   removalInfo @ [\<lparr>ri_Element = e, ri_RemovedCount = removedFromChunk,
                                   ri_OldHead = oldHead, ri_NewHead = newHead\<rparr>],
                   fold cl_forget removedItems cl)
             else (totalRemoved, removalInfo, cl));
          isEmpty = cn_IsEmpty chunk;
          cl = (if isEmpty then cl_remove_element e cl else cl)
      in (isEmpty, k, totalRemoved, removalInfo, cl))"

text \<open>
  The loop from the front. The successor of an element is read before the element is removed, so
  the loop visits the elements the list had at its start.
\<close>

fun cl_expire_from ::
  "clock \<Rightarrow> duration \<Rightarrow> nat \<Rightarrow> elem list \<Rightarrow> nat \<times> chunk_removal_info list \<times> chunked_list
    \<Rightarrow> nat \<times> chunk_removal_info list \<times> chunked_list" where
  "cl_expire_from clk ttl k [] st = st"
| "cl_expire_from clk ttl k (e # es) st =
     (let (isEmpty, k, st) = cl_expire_chunk clk ttl k e st
      in if \<not> isEmpty then
           (case cn_GetEarliestExpiry (cl_chunk (snd (snd st)) e) of
              Some earliestExpiry \<Rightarrow>
                if time_Since (clk k) earliestExpiry \<le> ttl then st
                else cl_expire_from clk ttl (k + 1) es st
            | None \<Rightarrow> cl_expire_from clk ttl k es st)
         else cl_expire_from clk ttl k es st)"

definition cl_RemoveExpiredData ::
  "clock \<Rightarrow> duration \<Rightarrow> chunked_list \<Rightarrow> nat \<times> chunk_removal_info list \<times> chunked_list" where
  "cl_RemoveExpiredData clk ttl cl = cl_expire_from clk ttl 0 (cl_list cl) (0, [], cl)"

section \<open>Clearing, iterating, counting\<close>

definition cl_clear_chunk :: "elem \<Rightarrow> chunked_list \<Rightarrow> chunked_list" where
  "cl_clear_chunk e cl =
     (let chunk = cl_chunk cl e;
          cl = fold (\<lambda>i cl.
                 let cl = cl_track (mt_RemoveData (cn_Data (cl_chunk cl e) i)) cl
                 in cl_set_chunk e
                      (cl_chunk cl e\<lparr>cn_Data := (cn_Data (cl_chunk cl e))(i := zero_queue_data)\<rparr>) cl)
               [cn_head chunk..<cn_size chunk] cl
      in cl_remove_element e cl)"

definition cl_Clear :: "chunked_list \<Rightarrow> chunked_list" where
  "cl_Clear cl = (fold cl_clear_chunk (cl_list cl) cl)\<lparr>cl_totalItems := 0\<rparr>"

definition cl_IsEmpty :: "chunked_list \<Rightarrow> bool" where
  "cl_IsEmpty cl \<longleftrightarrow> cl_totalItems cl = 0"

definition cl_GetFirstElement :: "chunked_list \<Rightarrow> elem option" where
  "cl_GetFirstElement cl = (case cl_list cl of [] \<Rightarrow> None | e # _ \<Rightarrow> Some e)"

definition cl_GetLastElement :: "chunked_list \<Rightarrow> elem option" where
  "cl_GetLastElement cl = (if cl_list cl = [] then None else Some (last (cl_list cl)))"

definition cl_GetChunk :: "elem option \<Rightarrow> chunked_list \<Rightarrow> chunk_node option" where
  "cl_GetChunk element cl = map_option (cl_chunk cl) element"

text \<open>
  \<^verbatim>\<open>IterateFrom\<close>: the callback gets the item, its element and its index, threads a state and says
  whether to go on. The inner loop over a chunk, then the walk along \<^verbatim>\<open>NextElement\<close>, which
  \<open>None\<close> would say does not end.
\<close>

type_synonym 'a callback = "queue_data \<Rightarrow> elem \<Rightarrow> nat \<Rightarrow> 'a \<Rightarrow> bool \<times> 'a"

function iterate_chunk ::
  "'a callback \<Rightarrow> elem \<Rightarrow> chunk_node \<Rightarrow> nat \<Rightarrow> nat \<Rightarrow> 'a \<Rightarrow> bool \<times> 'a" where
  "iterate_chunk callback e chunk i chunkSize s =
     (if i < chunkSize then
        (case cn_Get i chunk of
           None \<Rightarrow> iterate_chunk callback e chunk (i + 1) chunkSize s
         | Some data \<Rightarrow>
             let (continue, s) = callback data e i s
             in if \<not> continue then (False, s)
                else iterate_chunk callback e chunk (i + 1) chunkSize s)
      else (True, s))"
  by pat_completeness auto
termination
  by (relation "measure (\<lambda>(callback, e, chunk, i, chunkSize, s). chunkSize - i)") auto

declare iterate_chunk.simps [simp del]

partial_function (option) cl_IterateFrom ::
  "'a callback \<Rightarrow> chunked_list \<Rightarrow> elem option \<Rightarrow> nat \<Rightarrow> 'a \<Rightarrow> 'a option" where
  "cl_IterateFrom callback cl element index s =
     (case element of
        None \<Rightarrow> Some s
      | Some e \<Rightarrow>
          let chunk = cl_chunk cl e;
              r = iterate_chunk callback e chunk index (cn_size chunk) s
          in if fst r then cl_IterateFrom callback cl (cn_NextElement chunk) 0 (snd r)
             else Some (snd r))"

definition cl_CountItemsFrom :: "elem option \<Rightarrow> nat \<Rightarrow> chunked_list \<Rightarrow> int option" where
  "cl_CountItemsFrom element index cl =
     cl_IterateFrom (\<lambda>data e i count. (True, count + 1)) cl element index 0"

section \<open>The content and the invariants\<close>

abbreviation cl_live :: "chunked_list \<Rightarrow> elem \<Rightarrow> queue_data list" where
  "cl_live cl e \<equiv> cn_live (cl_chunk cl e)"

definition cl_items :: "chunked_list \<Rightarrow> queue_data list" where
  "cl_items cl = concat (map (cl_live cl) (cl_list cl))"

text \<open>
  The structure: the elements of the list are distinct and allocated, their chunks are sound, not
  empty and not released; every other element ever allocated is released (\<open>pooled\<close>); the
  counter is the number of live items.
\<close>

definition cl_inv :: "chunked_list \<Rightarrow> bool" where
  "cl_inv cl \<longleftrightarrow> distinct (cl_list cl)
     \<and> (\<forall>e \<in> set (cl_list cl). e < cl_next cl \<and> cn_inv (cl_chunk cl e)
           \<and> \<not> cn_pooled (cl_chunk cl e) \<and> \<not> cn_IsEmpty (cl_chunk cl e))
     \<and> (\<forall>e < cl_next cl. e \<notin> set (cl_list cl) \<longrightarrow> cn_pooled (cl_chunk cl e))
     \<and> cl_totalItems cl = int (length (cl_items cl))"

text \<open>The links: the chunks of the list are chained in its order, all but the last are full.\<close>

fun linked :: "(elem \<Rightarrow> chunk_node) \<Rightarrow> elem list \<Rightarrow> bool" where
  "linked ch [] = True"
| "linked ch [e] = (cn_NextElement (ch e) = None)"
| "linked ch (e # e' # es) =
     (cn_NextElement (ch e) = Some e' \<and> cn_IsFull (ch e) \<and> linked ch (e' # es))"

definition cl_chained :: "chunked_list \<Rightarrow> bool" where
  "cl_chained cl \<longleftrightarrow> linked (cl_chunk cl) (cl_list cl)"

text \<open>The accounting: the tracker counts the chunks of the list and the sizes of the live items.\<close>

definition cl_bytes :: "chunked_list \<Rightarrow> int" where
  "cl_bytes cl = ChunkNodeSize * int (length (cl_list cl)) + sum_list (map qd_size (cl_items cl))"

definition cl_accounted :: "chunked_list \<Rightarrow> bool" where
  "cl_accounted cl \<longleftrightarrow> mt_totalMemory (cl_memoryTracker cl) = cl_bytes cl
     \<and> cl_bytes cl \<le> MaxInt64 \<and> (\<forall>d \<in> set (cl_items cl). 0 \<le> qd_size d)"

lemma cl_invD:
  assumes "cl_inv cl"
  shows "distinct (cl_list cl)" and "cl_totalItems cl = int (length (cl_items cl))"
    and "e \<in> set (cl_list cl) \<Longrightarrow> e < cl_next cl" and "e \<in> set (cl_list cl) \<Longrightarrow> cn_inv (cl_chunk cl e)"
    and "e \<in> set (cl_list cl) \<Longrightarrow> \<not> cn_pooled (cl_chunk cl e)"
    and "e \<in> set (cl_list cl) \<Longrightarrow> \<not> cn_IsEmpty (cl_chunk cl e)"
    and "e \<in> set (cl_list cl) \<Longrightarrow> cl_live cl e \<noteq> []"
    and "e < cl_next cl \<Longrightarrow> cn_pooled (cl_chunk cl e) \<longleftrightarrow> e \<notin> set (cl_list cl)"
  using assms by (auto simp: cl_inv_def cn_IsEmpty_live)

lemma linked_cong:
  assumes "\<And>e. e \<in> set es \<Longrightarrow> cn_NextElement (ch' e) = cn_NextElement (ch e) \<and> cn_size (ch' e) = cn_size (ch e)"
  shows "linked ch' es = linked ch es"
  using assms
proof (induction ch es rule: linked.induct)
  case (3 ch e e' es)
  then show ?case by (auto simp: cn_IsFull_def)
qed simp_all

lemma linked_suffix: "linked ch (xs @ ys) \<Longrightarrow> linked ch ys"
proof (induction xs)
  case (Cons x xs)
  then show ?case by (cases "xs @ ys") auto
qed simp

lemma linked_snoc:
  assumes "linked ch (xs @ [e])" and "cn_IsFull (ch e)" and "e' \<notin> set (xs @ [e])"
    and "ch' = ch(e := ch e\<lparr>cn_NextElement := Some e'\<rparr>, e' := cn)" and "distinct (xs @ [e])"
    and "cn_NextElement cn = None"
  shows "linked ch' (xs @ [e, e'])"
  using assms(1,3,5)
proof (induction xs)
  case Nil
  then show ?case using assms(2,4,6) by (simp add: cn_IsFull_def)
next
  case (Cons x xs)
  have "x \<noteq> e" "x \<noteq> e'" using Cons.prems by auto
  moreover have "linked ch (xs @ [e])" using Cons.prems(1) linked_suffix [of ch "[x]"] by simp
  ultimately show ?case
    using Cons assms(4) by (cases xs) (auto simp: cn_IsFull_def)
qed

lemma linked_full:
  "linked ch (xs @ e # y # ys) \<Longrightarrow> cn_IsFull (ch e) \<and> cn_NextElement (ch e) = Some y"
  using linked_suffix [of ch xs "e # y # ys"] by simp

lemma linked_last: "linked ch (xs @ [e]) \<Longrightarrow> cn_NextElement (ch e) = None"
  using linked_suffix [of ch xs "[e]"] by simp

lemma cl_track_simps [simp]:
  "cl_list (cl_track f cl) = cl_list cl" "cl_chunk (cl_track f cl) = cl_chunk cl"
  "cl_next (cl_track f cl) = cl_next cl" "cl_totalItems (cl_track f cl) = cl_totalItems cl"
  "cl_memoryTracker (cl_track f cl) = f (cl_memoryTracker cl)"
  by (simp_all add: cl_track_def)

lemma cl_set_chunk_simps [simp]:
  "cl_list (cl_set_chunk e cn cl) = cl_list cl"
  "cl_chunk (cl_set_chunk e cn cl) = (cl_chunk cl)(e := cn)"
  "cl_next (cl_set_chunk e cn cl) = cl_next cl"
  "cl_totalItems (cl_set_chunk e cn cl) = cl_totalItems cl"
  "cl_memoryTracker (cl_set_chunk e cn cl) = cl_memoryTracker cl"
  by (simp_all add: cl_set_chunk_def)

lemma concat_map_cong: "(\<And>x. x \<in> set xs \<Longrightarrow> f x = g x) \<Longrightarrow> concat (map f xs) = concat (map g xs)"
  by (metis map_cong)

section \<open>Adding an item\<close>

text \<open>
  What adding one item does, whichever chunk it goes to: \<open>new\<close> are the elements added to the list.
\<close>

definition appended :: "queue_data \<Rightarrow> chunked_list \<Rightarrow> elem list \<Rightarrow> chunked_list \<Rightarrow> bool" where
  "appended d cl new cl' \<longleftrightarrow>
     cl_inv cl' \<and> cl_items cl' = cl_items cl @ [d]
     \<and> cl_list cl' = cl_list cl @ new \<and> length new \<le> 1
     \<and> (cl_chained cl \<longrightarrow> cl_chained cl')
     \<and> (\<forall>e \<in> set (cl_list cl). cn_head (cl_chunk cl' e) = cn_head (cl_chunk cl e)
            \<and> cn_size (cl_chunk cl e) \<le> cn_size (cl_chunk cl' e)
            \<and> take (length (cl_live cl e)) (cl_live cl' e) = cl_live cl e
            \<and> (new \<noteq> [] \<or> e \<noteq> last (cl_list cl) \<longrightarrow> cl_live cl' e = cl_live cl e))
     \<and> cl_memoryTracker cl'
         = mt_AddData d ((if new = [] then id else mt_AddChunk) (cl_memoryTracker cl))"

lemma cl_append_new:
  assumes inv: "cl_inv cl" and full: "cl_list cl \<noteq> [] \<Longrightarrow> cn_IsFull (cl_chunk cl (last (cl_list cl)))"
  shows "\<exists>cl'. cl_append d cl = (True, cl') \<and> appended d cl [cl_next cl] cl'"
proof -
  let ?e = "cl_next cl"
  obtain cn where cn: "cn_Add d NewChunkNode = (True, cn)" "cn_inv cn" "cn_live cn = [d]"
    "cn_NextElement cn = None" "\<not> cn_pooled cn" "\<not> cn_IsEmpty cn"
    by (rule cn_Add_room [of NewChunkNode d]) auto
  define ch where "ch = (if cl_list cl = [] then cl_chunk cl
     else let l = last (cl_list cl) in (cl_chunk cl)(l := cl_chunk cl l\<lparr>cn_NextElement := Some ?e\<rparr>))"
  let ?cl = "\<lparr>cl_list = cl_list cl @ [?e], cl_chunk = ch(?e := cn), cl_next = ?e + 1,
     cl_memoryTracker = mt_AddData d (mt_AddChunk (cl_memoryTracker cl)),
     cl_totalItems = cl_totalItems cl + 1\<rparr>"
  have fresh: "?e \<notin> set (cl_list cl)" using cl_invD(3) [OF inv] by blast
  have ch: "cn_live (ch e) = cl_live cl e" "cn_inv (ch e) = cn_inv (cl_chunk cl e)"
    "cn_pooled (ch e) = cn_pooled (cl_chunk cl e)" "cn_IsEmpty (ch e) = cn_IsEmpty (cl_chunk cl e)"
    "cn_head (ch e) = cn_head (cl_chunk cl e)" "cn_size (ch e) = cn_size (cl_chunk cl e)" for e
    by (auto simp: ch_def Let_def cn_IsEmpty_def)
  have "cl_append d cl = (True, ?cl)"
  proof (cases "cl_list cl = []")
    case True
    then show ?thesis
      using cn by (simp add: cl_append_def cl_last_chunk_def cl_PushBack_def cl_track_def
          cl_set_chunk_def ch_def Let_def)
  next
    case False
    then have "last (cl_list cl) \<noteq> ?e" using fresh last_in_set by metis
    with False full show ?thesis
      using cn by (simp add: cl_append_def cl_last_chunk_def cl_PushBack_def cl_track_def
          cl_set_chunk_def ch_def Let_def fun_upd_twist)
  qed
  moreover have live: "cl_live ?cl e = cl_live cl e" if "e \<in> set (cl_list cl)" for e
    using that fresh ch by auto
  then have items: "cl_items ?cl = cl_items cl @ [d]"
    using cn(3) concat_map_cong [of "cl_list cl" "cl_live ?cl" "cl_live cl"]
    by (simp add: cl_items_def)
  moreover have "cl_inv ?cl"
    using inv items cn ch fresh unfolding cl_inv_def by (auto simp: less_Suc_eq)
  moreover have "cl_chained ?cl" if "cl_chained cl"
  proof (cases "cl_list cl" rule: rev_cases)
    case Nil
    then show ?thesis using cn by (simp add: cl_chained_def)
  next
    case (snoc xs l)
    have "linked (ch(?e := cn)) (xs @ [l, ?e])"
      by (rule linked_snoc [of "cl_chunk cl" xs l])
        (use that snoc fresh full cn cl_invD(1) [OF inv] in \<open>auto simp: cl_chained_def ch_def Let_def\<close>)
    then show ?thesis using snoc by (simp add: cl_chained_def)
  qed
  ultimately show ?thesis
    using live ch fresh by (intro exI [of _ ?cl]) (auto simp: appended_def)
qed


lemma cl_append_last:
  assumes inv: "cl_inv cl" and ne: "cl_list cl \<noteq> []"
    and room: "\<not> cn_IsFull (cl_chunk cl (last (cl_list cl)))"
  shows "\<exists>cl'. cl_append d cl = (True, cl') \<and> appended d cl [] cl'"
proof -
  obtain xs l where xl: "cl_list cl = xs @ [l]" using ne by (cases "cl_list cl" rule: rev_cases) auto
  then have l: "l \<in> set (cl_list cl)" "l \<notin> set xs" using cl_invD(1) [OF inv] by auto
  obtain cn where cn: "cn_Add d (cl_chunk cl l) = (True, cn)" "cn_inv cn"
    "cn_live cn = cl_live cl l @ [d]" "cn_size cn = Suc (cn_size (cl_chunk cl l))"
    "cn_head cn = cn_head (cl_chunk cl l)" "cn_NextElement cn = cn_NextElement (cl_chunk cl l)"
    "cn_pooled cn = cn_pooled (cl_chunk cl l)" "\<not> cn_IsEmpty cn"
    by (rule cn_Add_room [OF cl_invD(4) [OF inv l(1)]]) (use room xl in auto)
  let ?cl = "cl\<lparr>cl_chunk := (cl_chunk cl)(l := cn),
     cl_memoryTracker := mt_AddData d (cl_memoryTracker cl), cl_totalItems := cl_totalItems cl + 1\<rparr>"
  have "cl_append d cl = (True, ?cl)"
    using cn room xl by (simp add: cl_append_def cl_last_chunk_def cl_track_def cl_set_chunk_def Let_def)
  moreover have "concat (map (cl_live ?cl) xs) = concat (map (cl_live cl) xs)"
    by (rule concat_map_cong) (use l in auto)
  then have items: "cl_items ?cl = cl_items cl @ [d]"
    using cn(3) by (simp add: cl_items_def xl)
  moreover have "cl_inv ?cl"
    using inv items cn l unfolding cl_inv_def by auto
  moreover have "cl_chained ?cl" if "cl_chained cl"
  proof -
    have "linked ((cl_chunk cl)(l := cn)) (xs @ [l])"
      using that l cn(6) unfolding cl_chained_def xl
    proof (induction xs)
      case (Cons x xs)
      then show ?case by (cases xs) (auto simp: cn_IsFull_def)
    qed simp
    then show ?thesis by (simp add: cl_chained_def xl)
  qed
  ultimately show ?thesis
    using cn xl by (intro exI [of _ ?cl]) (auto simp: appended_def)
qed

lemma cl_append_spec:
  assumes "cl_inv cl"
  obtains new cl' where "cl_append d cl = (True, cl')" and "appended d cl new cl'"
    and "new = (if cl_list cl = [] \<or> cn_IsFull (cl_chunk cl (last (cl_list cl)))
                then [cl_next cl] else [])"
  using cl_append_new [OF assms, of d] cl_append_last [OF assms, of d]
  by (cases "cl_list cl = [] \<or> cn_IsFull (cl_chunk cl (last (cl_list cl)))") auto

text \<open>The accounting of one more item, as long as the total fits in 64 bits.\<close>

lemma appended_bytes:
  "appended d cl new cl' \<Longrightarrow> cl_bytes cl' = cl_bytes cl + ChunkNodeSize * int (length new) + qd_size d"
  by (simp add: appended_def cl_bytes_def algebra_simps)

lemma appended_accounted:
  assumes a: "appended d cl new cl'" and acc: "cl_accounted cl" and d: "0 \<le> qd_size d"
    and fits: "cl_bytes cl + ChunkNodeSize * int (length new) + qd_size d \<le> MaxInt64"
  shows "cl_accounted cl'"
proof -
  have nn: "0 \<le> cl_bytes cl"
    using acc by (auto simp: cl_accounted_def cl_bytes_def ChunkNodeSize_def intro!: add_nonneg_nonneg sum_list_nonneg)
  have len: "new = [] \<or> length new = 1" using a by (cases new) (auto simp: appended_def)
  let ?mt = "(if new = [] then id else mt_AddChunk) (cl_memoryTracker cl)"
  have total: "mt_totalMemory ?mt = cl_bytes cl + ChunkNodeSize * int (length new)"
    using acc len nn fits d mt_AddChunk_exact [of "cl_memoryTracker cl"]
    by (auto simp: cl_accounted_def)
  have "0 \<le> mt_totalMemory ?mt" using nn by (simp add: total ChunkNodeSize_def)
  then have "mt_totalMemory (mt_AddData d ?mt)
      = cl_bytes cl + ChunkNodeSize * int (length new) + qd_size d"
    using mt_AddData_exact [OF d, of ?mt] fits total by simp
  moreover have "cl_memoryTracker cl' = mt_AddData d ?mt" using a unfolding appended_def by simp
  ultimately show ?thesis
    using a acc d fits appended_bytes [OF a] by (auto simp: cl_accounted_def appended_def)
qed

section \<open>Expiring items\<close>

lemma fold_forget_simps [simp]:
  "cl_list (fold cl_forget ds cl) = cl_list cl" "cl_chunk (fold cl_forget ds cl) = cl_chunk cl"
  "cl_next (fold cl_forget ds cl) = cl_next cl"
  "cl_totalItems (fold cl_forget ds cl) = cl_totalItems cl - int (length ds)"
  "cl_memoryTracker (fold cl_forget ds cl) = fold mt_RemoveData ds (cl_memoryTracker cl)"
  by (induction ds arbitrary: cl) (simp_all add: cl_forget_def Let_def)

lemma cl_remove_element_simps [simp]:
  "cl_list (cl_remove_element e cl) = remove1 e (cl_list cl)"
  "cl_chunk (cl_remove_element e cl) = (cl_chunk cl)(e := PutChunkNode (cl_chunk cl e))"
  "cl_next (cl_remove_element e cl) = cl_next cl"
  "cl_totalItems (cl_remove_element e cl) = cl_totalItems cl"
  "cl_memoryTracker (cl_remove_element e cl) = mt_RemoveChunk (cl_memoryTracker cl)"
  by (simp_all add: cl_remove_element_def Let_def)

lemma fold_RemoveData_frame [simp]:
  "mt_maxMemory (fold mt_RemoveData ds mt) = mt_maxMemory mt"
  "mt_sizeCache (fold mt_RemoveData ds mt) = mt_sizeCache mt"
  by (induction ds arbitrary: mt) simp_all

lemma fold_RemoveData_exact:
  assumes "\<And>d. d \<in> set ds \<Longrightarrow> 0 \<le> qd_size d" and "0 \<le> x"
    and "mt_totalMemory mt = x + sum_list (map qd_size ds)" and "mt_totalMemory mt \<le> MaxInt64"
  shows "mt_totalMemory (fold mt_RemoveData ds mt) = x"
  using assms
proof (induction ds arbitrary: mt)
  case (Cons d ds)
  have d: "0 \<le> qd_size d" and s: "0 \<le> sum_list (map qd_size ds)"
    using Cons.prems(1) by (auto intro!: sum_list_nonneg)
  have r: "mt_totalMemory (mt_RemoveData d mt) = x + sum_list (map qd_size ds)"
    using mt_RemoveData_exact [of d mt] Cons.prems d s by simp
  have le: "x + sum_list (map qd_size ds) \<le> MaxInt64"
    using Cons.prems(3,4) d by simp
  show ?case
    using Cons.IH [of "mt_RemoveData d mt"] Cons.prems(1,2) r le by simp
qed simp

text \<open>What one round of the loop does to the chunk of \<open>e\<close>, whatever the clock says.\<close>

definition chunk_expired ::
  "nat \<Rightarrow> elem list \<Rightarrow> elem \<Rightarrow> elem list \<Rightarrow> chunked_list \<Rightarrow> chunked_list \<Rightarrow> bool" where
  "chunk_expired n pre e post cl cl' \<longleftrightarrow>
     cl_inv cl' \<and> n \<le> length (cl_live cl e)
     \<and> cl_list cl' = pre @ (if n = length (cl_live cl e) then [] else [e]) @ post
     \<and> (\<forall>x. x \<noteq> e \<longrightarrow> cl_chunk cl' x = cl_chunk cl x)
     \<and> cl_live cl' e = drop n (cl_live cl e)
     \<and> cn_NextElement (cl_chunk cl' e) = cn_NextElement (cl_chunk cl e)
     \<and> cn_size (cl_chunk cl' e) = cn_size (cl_chunk cl e)
     \<and> cn_head (cl_chunk cl' e) = cn_head (cl_chunk cl e) + n
     \<and> cn_pooled (cl_chunk cl' e) = (n = length (cl_live cl e))
     \<and> cl_items cl' = concat (map (cl_live cl) pre) @ drop n (cl_live cl e) @ concat (map (cl_live cl) post)
     \<and> cl_next cl' = cl_next cl
     \<and> mt_maxMemory (cl_memoryTracker cl') = mt_maxMemory (cl_memoryTracker cl)
     \<and> mt_sizeCache (cl_memoryTracker cl') = mt_sizeCache (cl_memoryTracker cl)
     \<and> (cl_accounted cl \<longrightarrow> cl_accounted cl')"

definition removal_info :: "chunked_list \<Rightarrow> elem \<Rightarrow> nat \<Rightarrow> chunk_removal_info list" where
  "removal_info cl e n =
     (if n > 0 then [\<lparr>ri_Element = e, ri_RemovedCount = n, ri_OldHead = cn_head (cl_chunk cl e),
                      ri_NewHead = cn_head (cl_chunk cl e) + n\<rparr>] else [])"

lemma items_split:
  "cl_list cl = pre @ e # post \<Longrightarrow>
    cl_items cl = concat (map (cl_live cl) pre) @ cl_live cl e @ concat (map (cl_live cl) post)"
  by (simp add: cl_items_def)

text \<open>The tracker after the items of a prefix, and maybe the chunk, are given back.\<close>

lemma expire_total:
  fixes ds rest :: "queue_data list"
  assumes "mt_totalMemory mt = ChunkNodeSize * (1 + int c) + sum_list (map qd_size (ds @ rest))"
    and "mt_totalMemory mt \<le> MaxInt64" and "\<forall>d \<in> set (ds @ rest). 0 \<le> qd_size d"
  shows "mt_totalMemory (fold mt_RemoveData ds mt)
           = ChunkNodeSize * (1 + int c) + sum_list (map qd_size rest)"
    and "mt_totalMemory (mt_RemoveChunk (fold mt_RemoveData ds mt))
           = ChunkNodeSize * int c + sum_list (map qd_size rest)"
proof -
  have r: "0 \<le> sum_list (map qd_size rest)" using assms(3) by (auto intro!: sum_list_nonneg)
  have s: "0 \<le> sum_list (map qd_size ds)" using assms(3) by (auto intro!: sum_list_nonneg)
  have c: "0 \<le> ChunkNodeSize * int c" by (simp add: ChunkNodeSize_def)
  show t: "mt_totalMemory (fold mt_RemoveData ds mt)
           = ChunkNodeSize * (1 + int c) + sum_list (map qd_size rest)"
    by (rule fold_RemoveData_exact)
      (use assms r in \<open>auto simp: ChunkNodeSize_def algebra_simps\<close>)
  have "mt_totalMemory (fold mt_RemoveData ds mt) \<le> MaxInt64"
    using t s assms(1,2) by simp
  then show "mt_totalMemory (mt_RemoveChunk (fold mt_RemoveData ds mt))
           = ChunkNodeSize * int c + sum_list (map qd_size rest)"
    using t r c by (subst mt_RemoveChunk_exact) (simp_all add: algebra_simps)
qed

lemma cl_expire_chunk_spec:
  assumes inv: "cl_inv cl" and split: "cl_list cl = pre @ e # post"
    and eq: "cl_expire_chunk clk ttl k e (tot, info, cl) = (emp, k', tot', info', cl')"
  defines "n \<equiv> expired_run clk ttl k (cl_live cl e)"
  shows "chunk_expired n pre e post cl cl'" and "emp \<longleftrightarrow> n = length (cl_live cl e)"
    and "tot' = tot + n" and "info' = info @ removal_info cl e n"
    and "k' = k + n + (if n < length (cl_live cl e) then 1 else 0)"
proof -
  let ?ds = "cl_live cl e"
  have e: "e \<in> set (cl_list cl)" "e \<notin> set pre" "e \<notin> set post"
    using split cl_invD(1) [OF inv] by auto
  obtain r items cn k1 where cr: "cn_RemoveExpired clk ttl k (cl_chunk cl e) = (r, items, cn, k1)"
    by (metis prod.exhaust)
  note R = cn_RemoveExpired_spec [OF cl_invD(4) [OF inv e(1)] cr]
  have r: "r = n" using R(1) by (simp add: n_def)
  have empty: "cn_IsEmpty cn \<longleftrightarrow> n = length ?ds"
    using cn_IsEmpty_live [OF R(5)] R(2,4) r by auto
  let ?cl1 = "cl_set_chunk e cn cl"
  let ?cl2 = "if r > 0 then fold cl_forget items ?cl1 else ?cl1"
  have cl2: "?cl2 = fold cl_forget items ?cl1" using R(3) by auto
  have out: "emp = (n = length ?ds)" "k' = k1" "tot' = tot + n" "info' = info @ removal_info cl e n"
    "cl' = (if n = length ?ds then cl_remove_element e ?cl2 else ?cl2)"
    using eq cr empty R r
    by (auto simp: cl_expire_chunk_def Let_def removal_info_def split: if_splits)
  show "emp \<longleftrightarrow> n = length ?ds" "tot' = tot + n" "info' = info @ removal_info cl e n"
    using out by simp_all
  show "k' = k + n + (if n < length ?ds then 1 else 0)"
    using out R(10) r by simp
  have list': "cl_list cl' = pre @ (if n = length ?ds then [] else [e]) @ post"
    using out(5) cl2 split e by (simp add: remove1_append)
  have live': "cl_live cl' e = drop n ?ds"
    unfolding out(5) cl2 using R(4) r by simp
  have other: "cl_chunk cl' x = cl_chunk cl x" if "x \<noteq> e" for x
    using out(5) cl2 that by auto
  have ch: "cn_NextElement (cl_chunk cl' e) = cn_NextElement (cl_chunk cl e)"
     "cn_size (cl_chunk cl' e) = cn_size (cl_chunk cl e)"
     "cn_head (cl_chunk cl' e) = cn_head (cl_chunk cl e) + n"
     "cn_pooled (cl_chunk cl' e) = (n = length ?ds)" "cn_inv (cl_chunk cl' e)"
     "n < length ?ds \<longrightarrow> \<not> cn_IsEmpty (cl_chunk cl' e)"
    using out(5) cl2 R r empty cl_invD(5) [OF inv e(1)] by auto
  have rest: "concat (map (cl_live cl') xs) = concat (map (cl_live cl) xs)" if "e \<notin> set xs" for xs
    by (rule concat_map_cong) (use other that in metis)
  have items': "cl_items cl' = concat (map (cl_live cl) pre) @ drop n ?ds @ concat (map (cl_live cl) post)"
    using list' live' rest [OF e(2)] rest [OF e(3)] by (simp add: cl_items_def)
  have next': "cl_next cl' = cl_next cl" using out(5) cl2 by simp
  have total': "cl_totalItems cl' = cl_totalItems cl - int n"
    using out(5) cl2 R(2,3) r by simp
  have inv': "cl_inv cl'"
    unfolding cl_inv_def
  proof (intro conjI ballI allI impI)
    show "distinct (cl_list cl')" using cl_invD(1) [OF inv] list' by (simp add: split)
    fix x assume x: "x \<in> set (cl_list cl')"
    then have xl: "x \<in> set (cl_list cl)" using list' split by (auto split: if_splits)
    have ne: "n < length ?ds" if "x = e"
      using x that list' e R(2) r by (cases "n = length ?ds") auto
    show "x < cl_next cl'" using cl_invD(3) [OF inv xl] next' by simp
    show "cn_inv (cl_chunk cl' x)" using cl_invD(4) [OF inv xl] other ch(5) by (cases "x = e") auto
    show "\<not> cn_pooled (cl_chunk cl' x)"
      using cl_invD(5) [OF inv xl] other ch(4) ne by (cases "x = e") auto
    show "\<not> cn_IsEmpty (cl_chunk cl' x)"
      using cl_invD(6) [OF inv xl] other ch(6) ne by (cases "x = e") auto
  next
    fix x assume "x < cl_next cl'" "x \<notin> set (cl_list cl')"
    then show "cn_pooled (cl_chunk cl' x)"
      using cl_invD(8) [OF inv, of x] next' list' split other ch(4) by (cases "x = e") (auto split: if_splits)
  next
    have "int (length (cl_items cl')) = int (length (cl_items cl)) - int n"
      using items_split [OF split] items' R(2) r by simp
    then show "cl_totalItems cl' = int (length (cl_items cl'))"
      using total' cl_invD(2) [OF inv] by simp
  qed
  have mt: "cl_memoryTracker cl'
      = (if n = length ?ds then mt_RemoveChunk else id) (fold mt_RemoveData (take n ?ds) (cl_memoryTracker cl))"
    unfolding out(5) cl2 using R(3) r by (cases "n = length ?ds") simp_all
  have acc: "cl_accounted cl'" if a: "cl_accounted cl"
  proof -
    let ?rest = "cl_items cl'"
    have ds: "take n ?ds @ drop n ?ds = ?ds" by simp
    have sum: "sum_list (map qd_size (take n ?ds @ ?rest)) = sum_list (map qd_size (cl_items cl))"
      unfolding items' items_split [OF split]
      by (subst (2) ds [symmetric]) (simp only: map_append sum_list_append ac_simps)
    have sets: "set (take n ?ds @ ?rest) = set (cl_items cl)"
      unfolding items' items_split [OF split]
      by (subst (2) ds [symmetric]) (simp only: set_append Un_ac)
    have nonneg: "\<forall>d \<in> set (take n ?ds @ ?rest). 0 \<le> qd_size d"
      using a unfolding sets by (simp add: cl_accounted_def)
    have "mt_totalMemory (cl_memoryTracker cl)
        = ChunkNodeSize * (1 + int (length pre + length post)) + sum_list (map qd_size (take n ?ds @ ?rest))"
      using a sum by (simp add: cl_accounted_def cl_bytes_def split algebra_simps)
    note T = expire_total [OF this _ nonneg]
    have "mt_totalMemory (cl_memoryTracker cl') = cl_bytes cl'"
      using T a by (auto simp: mt cl_bytes_def list' cl_accounted_def algebra_simps)
    moreover have "cl_bytes cl' \<le> cl_bytes cl"
    proof -
      have "sum_list (map qd_size ?rest) \<le> sum_list (map qd_size (cl_items cl))"
        unfolding sum [symmetric] using nonneg by (auto intro!: sum_list_nonneg)
      moreover have "ChunkNodeSize * int (length (cl_list cl')) \<le> ChunkNodeSize * int (length (cl_list cl))"
        using list' split by (simp add: ChunkNodeSize_def)
      ultimately show ?thesis unfolding cl_bytes_def by (rule add_mono [rotated])
    qed
    ultimately show ?thesis using a nonneg by (auto simp: cl_accounted_def)
  qed
  show "chunk_expired n pre e post cl cl'"
    using inv' list' live' other ch items' next' acc R(2) r mt
    by (auto simp: chunk_expired_def)
qed

text \<open>What the whole loop does: \<open>f e\<close> items of the chunk of \<open>e\<close> are removed.\<close>

definition expired_by :: "(elem \<Rightarrow> nat) \<Rightarrow> chunked_list \<Rightarrow> chunked_list \<Rightarrow> bool" where
  "expired_by f cl cl' \<longleftrightarrow>
     cl_inv cl' \<and> cl_list cl' = filter (\<lambda>e. f e < length (cl_live cl e)) (cl_list cl)
     \<and> (\<forall>e. f e \<le> length (cl_live cl e)
          \<and> (e \<notin> set (cl_list cl) \<longrightarrow> f e = 0 \<and> cl_chunk cl' e = cl_chunk cl e)
          \<and> cl_live cl' e = drop (f e) (cl_live cl e)
          \<and> cn_NextElement (cl_chunk cl' e) = cn_NextElement (cl_chunk cl e)
          \<and> cn_size (cl_chunk cl' e) = cn_size (cl_chunk cl e)
          \<and> cn_head (cl_chunk cl' e) = cn_head (cl_chunk cl e) + f e)
     \<and> cl_next cl' = cl_next cl
     \<and> mt_maxMemory (cl_memoryTracker cl') = mt_maxMemory (cl_memoryTracker cl)
     \<and> mt_sizeCache (cl_memoryTracker cl') = mt_sizeCache (cl_memoryTracker cl)
     \<and> (cl_accounted cl \<longrightarrow> cl_accounted cl')"

lemma expired_by_zero: "cl_inv cl \<Longrightarrow> expired_by (\<lambda>_. 0) cl cl"
  using cl_invD(7) by (auto simp: expired_by_def filter_id_conv simp del: length_cn_live)

lemma expired_byD:
  assumes "expired_by f cl cl'"
  shows "cl_inv cl'" "cl_list cl' = filter (\<lambda>e. f e < length (cl_live cl e)) (cl_list cl)"
  using assms unfolding expired_by_def by blast+

lemma expired_by_at:
  assumes "expired_by f cl cl'"
  shows "f e \<le> length (cl_live cl e)" "e \<notin> set (cl_list cl) \<Longrightarrow> f e = 0"
    "e \<notin> set (cl_list cl) \<Longrightarrow> cl_chunk cl' e = cl_chunk cl e"
    "cl_live cl' e = drop (f e) (cl_live cl e)"
    "cn_NextElement (cl_chunk cl' e) = cn_NextElement (cl_chunk cl e)"
    "cn_size (cl_chunk cl' e) = cn_size (cl_chunk cl e)"
    "cn_head (cl_chunk cl' e) = cn_head (cl_chunk cl e) + f e"
  using assms unfolding expired_by_def by blast+

lemma expired_by_step:
  assumes inv: "cl_inv cl" and split: "cl_list cl = pre @ e # post"
    and c: "chunk_expired n pre e post cl cl1"
    and f: "expired_by f cl1 cl'" and z: "\<And>x. x \<notin> set post \<Longrightarrow> f x = 0"
  shows "expired_by (f(e := n)) cl cl'"
proof -
  have e: "e \<notin> set pre" "e \<notin> set post" using split cl_invD(1) [OF inv] by auto
  have same: "cl_chunk cl1 x = cl_chunk cl x" if "x \<noteq> e" for x
    using c that unfolding chunk_expired_def by blast
  have "filter (\<lambda>x. f x < length (cl_live cl1 x)) (cl_list cl1)
      = filter (\<lambda>x. (f(e := n)) x < length (cl_live cl x)) (cl_list cl)"
  proof -
    have l: "cl_list cl1 = pre @ (if n = length (cl_live cl e) then [] else [e]) @ post"
      and n: "n \<le> length (cl_live cl e)" and le: "cl_live cl1 e = drop n (cl_live cl e)"
      using c unfolding chunk_expired_def by blast+
    have "filter (\<lambda>x. f x < length (cl_live cl1 x)) xs
        = filter (\<lambda>x. (f(e := n)) x < length (cl_live cl x)) xs" if "e \<notin> set xs" for xs
      by (rule filter_cong [OF refl]) (use that same in auto)
    then show ?thesis
      using l n le e z [OF e(2)] split by (auto simp del: length_cn_live)
  qed
  moreover have "(f(e := n)) x \<le> length (cl_live cl x)
      \<and> (x \<notin> set (cl_list cl) \<longrightarrow> (f(e := n)) x = 0 \<and> cl_chunk cl' x = cl_chunk cl x)
      \<and> cl_live cl' x = drop ((f(e := n)) x) (cl_live cl x)
      \<and> cn_NextElement (cl_chunk cl' x) = cn_NextElement (cl_chunk cl x)
      \<and> cn_size (cl_chunk cl' x) = cn_size (cl_chunk cl x)
      \<and> cn_head (cl_chunk cl' x) = cn_head (cl_chunk cl x) + (f(e := n)) x" for x
  proof (cases "x = e")
    case True
    have "x \<in> set (cl_list cl)" using True split by simp
    moreover have "f x = 0" using True z e(2) by simp
    ultimately show ?thesis
      using f c True unfolding expired_by_def chunk_expired_def by (simp del: length_cn_live)
  next
    case False
    have "x \<notin> set (cl_list cl1)" if "x \<notin> set (cl_list cl)"
      using that c split unfolding chunk_expired_def by auto
    then show ?thesis
      using expired_by_at [OF f, of x] same [OF False] False by (simp del: length_cn_live)
  qed
  moreover have "cl_inv cl'" "cl_next cl' = cl_next cl"
    "mt_maxMemory (cl_memoryTracker cl') = mt_maxMemory (cl_memoryTracker cl)"
    "mt_sizeCache (cl_memoryTracker cl') = mt_sizeCache (cl_memoryTracker cl)"
    "cl_accounted cl \<longrightarrow> cl_accounted cl'"
    using f c unfolding expired_by_def chunk_expired_def by simp_all
  ultimately show ?thesis
    using f unfolding expired_by_def by simp
qed

text \<open>The items that are left, and how many were removed.\<close>

lemma expired_by_items:
  assumes "expired_by f cl cl'"
  shows "cl_items cl' = concat (map (\<lambda>e. drop (f e) (cl_live cl e)) (cl_list cl))"
proof -
  have "cl_items cl' = concat (map (\<lambda>e. drop (f e) (cl_live cl e)) (cl_list cl'))"
    unfolding cl_items_def
    by (rule concat_map_cong) (use assms in \<open>simp add: expired_by_def\<close>)
  moreover have "cl_list cl' = filter (\<lambda>e. f e < length (cl_live cl e)) (cl_list cl)"
    using assms by (simp add: expired_by_def)
  moreover have "concat (map (\<lambda>e. drop (f e) (cl_live cl e)) (filter (\<lambda>e. f e < length (cl_live cl e)) xs))
      = concat (map (\<lambda>e. drop (f e) (cl_live cl e)) xs)" for xs
    by (induction xs) auto
  ultimately show ?thesis by simp
qed

text \<open>
  A pass whose looks agree: a front part of the elements loses all its items, the next element a
  part of its items, the others nothing; together as many items as are found expired in turn.
\<close>

definition prefix_run :: "clock \<Rightarrow> duration \<Rightarrow> nat \<Rightarrow> chunked_list \<Rightarrow> (elem \<Rightarrow> nat) \<Rightarrow> elem list \<Rightarrow> bool" where
  "prefix_run clk ttl k cl f es \<longleftrightarrow> (\<exists>gone rest. es = gone @ rest
          \<and> (\<forall>e \<in> set gone. f e = length (cl_live cl e)) \<and> (\<forall>e \<in> set (tl rest). f e = 0)
          \<and> (rest \<noteq> [] \<longrightarrow> f (hd rest) < length (cl_live cl (hd rest))))
     \<and> sum_list (map f es) = expired_run clk ttl k (concat (map (cl_live cl) es))"

lemma cl_expire_from_spec:
  assumes "cl_inv cl" and "cl_list cl = pre @ es"
  shows "\<exists>f cl'. cl_expire_from clk ttl k es (tot, info, cl)
       = (tot + sum_list (map f es), info @ concat (map (\<lambda>e. removal_info cl e (f e)) es), cl')
     \<and> expired_by f cl cl' \<and> (\<forall>x. x \<notin> set es \<longrightarrow> f x = 0)
     \<and> (looks_agree clk ttl k (concat (map (cl_live cl) es)) \<longrightarrow> prefix_run clk ttl k cl f es)"
  using assms
proof (induction es arbitrary: pre k tot info cl)
  case Nil
  show ?case
    by (rule exI [of _ "\<lambda>_. 0"], rule exI [of _ cl])
      (use expired_by_zero Nil.prems in \<open>auto simp: prefix_run_def\<close>)
next
  case (Cons e es)
  note inv = Cons.prems(1) and split = Cons.prems(2)
  obtain emp k1 tot1 info1 cl1 where
    st: "cl_expire_chunk clk ttl k e (tot, info, cl) = (emp, k1, tot1, info1, cl1)"
    by (metis prod.exhaust)
  define n where "n = expired_run clk ttl k (cl_live cl e)"
  note S = cl_expire_chunk_spec [OF inv split st, folded n_def]
  have inv1: "cl_inv cl1" using S(1) unfolding chunk_expired_def by blast
  let ?pre = "pre @ (if n = length (cl_live cl e) then [] else [e])"
  have list1: "cl_list cl1 = ?pre @ es" using S(1) unfolding chunk_expired_def by simp
  have e: "e \<notin> set es" using split cl_invD(1) [OF inv] by auto
  have same: "cl_chunk cl1 x = cl_chunk cl x" if "x \<noteq> e" for x
    using S(1) that unfolding chunk_expired_def by blast
  have info_eq: "map (\<lambda>x. removal_info cl1 x (g x)) es = map (\<lambda>x. removal_info cl x ((g(e := n)) x)) es" for g
    using same e by (auto simp: removal_info_def)
  have sum_eq: "map (g(e := n)) es = map g es" for g using e by auto
  let ?agree = "looks_agree clk ttl k (concat (map (cl_live cl) (e # es)))"
  have nle: "n \<le> length (cl_live cl e)" unfolding n_def by (rule expired_run_le)
  have live: "map (cl_live cl1) es = map (cl_live cl) es"
  proof (rule map_cong [OF refl])
    fix x assume "x \<in> set es"
    then have "x \<noteq> e" using e by blast
    then show "cl_live cl1 x = cl_live cl x" using same by simp
  qed
  show ?case
  proof (cases "\<exists>k2. cl_expire_from clk ttl k (e # es) (tot, info, cl) = cl_expire_from clk ttl k2 es (tot1, info1, cl1)
       \<and> (?agree \<longrightarrow> emp \<and> k2 = k + n)")
    case True
    then obtain k2 where k2: "cl_expire_from clk ttl k (e # es) (tot, info, cl)
        = cl_expire_from clk ttl k2 es (tot1, info1, cl1)" "?agree \<longrightarrow> emp \<and> k2 = k + n" by blast
    obtain g cl' where g:
      "cl_expire_from clk ttl k2 es (tot1, info1, cl1)
       = (tot1 + sum_list (map g es), info1 @ concat (map (\<lambda>e. removal_info cl1 e (g e)) es), cl')"
      "expired_by g cl1 cl'" "\<And>x. x \<notin> set es \<Longrightarrow> g x = 0"
      "looks_agree clk ttl k2 (concat (map (cl_live cl1) es)) \<longrightarrow> prefix_run clk ttl k2 cl1 g es"
      using Cons.IH [where k = k2 and tot = tot1 and info = info1, OF inv1 list1] by blast
    show ?thesis
    proof (rule exI [of _ "g(e := n)"], rule exI [of _ cl'], intro conjI allI impI)
      show "cl_expire_from clk ttl k (e # es) (tot, info, cl)
        = (tot + sum_list (map (g(e := n)) (e # es)),
           info @ concat (map (\<lambda>x. removal_info cl x ((g(e := n)) x)) (e # es)), cl')"
        unfolding k2(1) using g(1) unfolding info_eq S(3,4)
        by (simp add: sum_eq fun_upd_same del: fun_upd_apply)
      show "expired_by (g(e := n)) cl cl'"
        by (rule expired_by_step [OF inv split S(1) g(2,3)])
      show "\<And>x. x \<notin> set (e # es) \<Longrightarrow> (g(e := n)) x = 0" using g(3) by simp
    next
      assume agree: ?agree
      have full: "n = length (cl_live cl e)" and k2': "k2 = k + length (cl_live cl e)"
        using k2(2) agree S(2) by auto
      have "looks_agree clk ttl k2 (concat (map (cl_live cl1) es))"
        unfolding live k2' by (rule looks_agree_append(1)) (use agree full in \<open>simp_all add: n_def del: length_cn_live\<close>)
      then have run: "prefix_run clk ttl k2 cl1 g es" using g(4) by blast
      then obtain gone rest where dr: "es = gone @ rest"
        "\<forall>x \<in> set gone. g x = length (cl_live cl1 x)" "\<forall>x \<in> set (tl rest). g x = 0"
        "rest \<noteq> [] \<longrightarrow> g (hd rest) < length (cl_live cl1 (hd rest))"
        unfolding prefix_run_def by blast
      have "sum_list (map (g(e := n)) (e # es)) = expired_run clk ttl k (concat (map (cl_live cl) (e # es)))"
      proof -
        have "sum_list (map g es) = expired_run clk ttl (k + length (cl_live cl e)) (concat (map (cl_live cl) es))"
          using run unfolding prefix_run_def live k2' by blast
        then show ?thesis
          using full unfolding list.map(2) sum_list.Cons sum_eq
          by (simp add: expired_run_append n_def [symmetric] del: length_cn_live)
      qed
      moreover have "\<exists>gone rest. e # es = gone @ rest
          \<and> (\<forall>x \<in> set gone. (g(e := n)) x = length (cl_live cl x)) \<and> (\<forall>x \<in> set (tl rest). (g(e := n)) x = 0)
          \<and> (rest \<noteq> [] \<longrightarrow> (g(e := n)) (hd rest) < length (cl_live cl (hd rest)))"
      proof -
        have "hd rest \<noteq> e" "e \<notin> set (tl rest)" if "rest \<noteq> []"
          using that e dr(1) by (cases rest; auto)+
        moreover have "e \<notin> set gone" using e dr(1) by auto
        ultimately show ?thesis
          using dr full same
          by (intro exI [of _ "e # gone"] exI [of _ rest]) (cases "rest = []"; auto simp del: length_cn_live)
      qed
      ultimately show "prefix_run clk ttl k cl (g(e := n)) (e # es)" unfolding prefix_run_def by blast
    qed
  next
    case False
    have unf: "cl_expire_from clk ttl k (e # es) (tot, info, cl)
       = (if \<not> emp then
           (case cn_GetEarliestExpiry (cl_chunk cl1 e) of
              Some earliestExpiry \<Rightarrow>
                if time_Since (clk k1) earliestExpiry \<le> ttl then (tot1, info1, cl1)
                else cl_expire_from clk ttl (k1 + 1) es (tot1, info1, cl1)
            | None \<Rightarrow> cl_expire_from clk ttl k1 es (tot1, info1, cl1))
         else cl_expire_from clk ttl k1 es (tot1, info1, cl1))"
      by (simp add: st)
    have nemp: "\<not> emp" using False S(2,5) unfolding unf by auto
    then have lt: "n < length (cl_live cl e)" using S(2) nle by simp
    have live1: "cl_live cl1 e = drop n (cl_live cl e)" and "cn_inv (cl_chunk cl1 e)"
      using S(1) nemp S(2) cl_invD(4) [OF inv1, of e] list1 unfolding chunk_expired_def by auto
    then have ge: "cn_GetEarliestExpiry (cl_chunk cl1 e) = Some (qd_Created (cl_live cl e ! n))"
      using lt by (simp add: cn_GetEarliestExpiry_live Cons_nth_drop_Suc [symmetric] del: length_cn_live)
    have again: "time_Since (clk k1) (qd_Created (cl_live cl e ! n)) \<le> ttl" if agree: ?agree
    proof -
      have "looks_agree clk ttl k (cl_live cl e)"
        by (rule looks_agree_append(2) [of clk ttl k _ "concat (map (cl_live cl) es)"])
          (use agree lt in \<open>simp_all add: n_def del: length_cn_live\<close>)
      then show ?thesis
        using lt S(5) unfolding looks_agree_def Let_def n_def [symmetric]
        by (simp add: qd_IsExpired_def del: length_cn_live)
    qed
    have stop: "cl_expire_from clk ttl k (e # es) (tot, info, cl) = (tot1, info1, cl1)"
      using False nemp again unfolding unf ge by auto
    show ?thesis
    proof (rule exI [of _ "(\<lambda>_. 0)(e := n)"], rule exI [of _ cl1], intro conjI allI impI)
      show "cl_expire_from clk ttl k (e # es) (tot, info, cl)
        = (tot + sum_list (map ((\<lambda>_. 0)(e := n)) (e # es)),
           info @ concat (map (\<lambda>x. removal_info cl x (((\<lambda>_. 0)(e := n)) x)) (e # es)), cl1)"
        unfolding stop S(3,4) using info_eq [of "\<lambda>_. 0", symmetric] by (simp add: sum_eq removal_info_def)
      show "expired_by ((\<lambda>_. 0)(e := n)) cl cl1"
        by (rule expired_by_step [OF inv split S(1) expired_by_zero [OF inv1]]) simp
    next
      have "expired_run clk ttl k (concat (map (cl_live cl) (e # es))) = n"
        using lt by (simp add: expired_run_append n_def [symmetric] del: length_cn_live)
      then show "prefix_run clk ttl k cl ((\<lambda>_. 0)(e := n)) (e # es)"
        unfolding prefix_run_def
        using lt e sum_eq [of "\<lambda>_. 0"]
        by (intro conjI, intro exI [of _ "[]"] exI [of _ "e # es"]) (auto simp del: length_cn_live)
    qed simp
  qed
qed

lemma prefix_run_items:
  assumes inv: "cl_inv cl" and f: "expired_by f cl cl'" and run: "prefix_run clk ttl k cl f (cl_list cl)"
  shows "cl_items cl' = drop (expired_run clk ttl k (cl_items cl)) (cl_items cl)"
    and "sum_list (map f (cl_list cl)) = expired_run clk ttl k (cl_items cl)"
    and "\<exists>gone. cl_list cl = gone @ cl_list cl'"
proof -
  obtain gone rest where gr: "cl_list cl = gone @ rest"
    "\<And>e. e \<in> set gone \<Longrightarrow> f e = length (cl_live cl e)"
    "\<And>e. e \<in> set (tl rest) \<Longrightarrow> f e = 0"
    "rest \<noteq> [] \<Longrightarrow> f (hd rest) < length (cl_live cl (hd rest))"
    using run unfolding prefix_run_def by blast
  show sum: "sum_list (map f (cl_list cl)) = expired_run clk ttl k (cl_items cl)"
    using run by (simp add: prefix_run_def cl_items_def)
  have ne: "cl_live cl e \<noteq> []" if "e \<in> set rest" for e
    using cl_invD(7) [OF inv, of e] that gr(1) by simp
  have g: "concat (map (\<lambda>e. drop (f e) (cl_live cl e)) gone) = []" using gr(2) by simp
  have sg: "sum_list (map f gone) = length (concat (map (cl_live cl) gone))"
    using gr(2) by (simp add: length_concat o_def cong: map_cong)
  have fg: "filter (\<lambda>e. f e < length (cl_live cl e)) gone = []"
    using gr(2) by (simp add: filter_empty_conv)
  have R: "concat (map (\<lambda>e. drop (f e) (cl_live cl e)) rest) = drop (sum_list (map f rest)) (concat (map (cl_live cl) rest))
    \<and> filter (\<lambda>e. f e < length (cl_live cl e)) rest = rest"
  proof (cases rest)
    case (Cons r rs)
    have fr: "f r < length (cl_live cl r)" using gr(4) Cons by simp
    have z: "f e = 0" if "e \<in> set rs" for e using gr(3) Cons that by simp
    have "concat (map (\<lambda>e. drop (f e) (cl_live cl e)) rs) = concat (map (cl_live cl) rs)"
      by (rule concat_map_cong) (simp add: z)
    moreover have "sum_list (map f rs) = 0" using z by (simp cong: map_cong)
    moreover have "filter (\<lambda>e. f e < length (cl_live cl e)) rs = rs"
      using z ne Cons by (simp add: filter_id_conv del: length_cn_live)
    ultimately show ?thesis using fr Cons by (simp del: length_cn_live sum_list_eq_0_iff)
  qed simp
  show "cl_items cl' = drop (expired_run clk ttl k (cl_items cl)) (cl_items cl)"
    unfolding expired_by_items [OF f] sum [symmetric] unfolding gr(1) cl_items_def
    using g sg R by simp
  have "cl_list cl' = rest" using expired_byD(2) [OF f] R fg gr(1) by simp
  then show "\<exists>gone. cl_list cl = gone @ cl_list cl'" using gr(1) by blast
qed

lemma expired_by_linked:
  assumes "expired_by f cl cl'"
  shows "linked (cl_chunk cl') es = linked (cl_chunk cl) es"
  by (rule linked_cong) (use expired_by_at [OF assms] in simp)

text \<open>The whole of \<^verbatim>\<open>RemoveExpiredData\<close>, for any clock, and when its looks agree.\<close>

lemma cl_RemoveExpiredData_any:
  assumes inv: "cl_inv cl" and eq: "cl_RemoveExpiredData clk ttl cl = (n, info, cl')"
  obtains f where "expired_by f cl cl'" and "n = sum_list (map f (cl_list cl))"
    and "info = concat (map (\<lambda>e. removal_info cl e (f e)) (cl_list cl))"
    and "looks_agree clk ttl 0 (cl_items cl) \<Longrightarrow> prefix_run clk ttl 0 cl f (cl_list cl)"
proof -
  obtain f cl1 where f: "cl_expire_from clk ttl 0 (cl_list cl) (0, [], cl)
       = (0 + sum_list (map f (cl_list cl)), [] @ concat (map (\<lambda>e. removal_info cl e (f e)) (cl_list cl)), cl1)"
     "expired_by f cl cl1"
     "looks_agree clk ttl 0 (cl_items cl) \<longrightarrow> prefix_run clk ttl 0 cl f (cl_list cl)"
    using cl_expire_from_spec [OF inv, of "[]" "cl_list cl" clk ttl 0 0 "[]"] unfolding cl_items_def by auto
  show ?thesis
    by (rule that [of f]) (use f eq in \<open>auto simp: cl_RemoveExpiredData_def\<close>)
qed

lemma sum_removed:
  assumes "cl_inv cl" "expired_by f cl cl'"
  shows "length (cl_items cl) = sum_list (map f (cl_list cl)) + length (cl_items cl')"
proof -
  have "length (concat (map (cl_live cl) es))
      = sum_list (map f es) + length (concat (map (\<lambda>e. drop (f e) (cl_live cl e)) es))" for es
  proof (induction es)
    case (Cons e es)
    then show ?case using expired_by_at(1) [OF assms(2), of e] by simp
  qed simp
  then show ?thesis unfolding expired_by_items [OF assms(2)] by (simp add: cl_items_def)
qed

lemma cl_RemoveExpiredData_agreed:
  assumes inv: "cl_inv cl" and looks: "looks_agree clk ttl 0 (cl_items cl)"
    and eq: "cl_RemoveExpiredData clk ttl cl = (n, info, cl')"
  shows "cl_inv cl'" and "cl_items cl' = drop n (cl_items cl)"
    and "n = expired_run clk ttl 0 (cl_items cl)"
    and "cl_chained cl \<Longrightarrow> cl_chained cl'"
    and "cl_accounted cl \<Longrightarrow> cl_accounted cl'"
    and "mt_maxMemory (cl_memoryTracker cl') = mt_maxMemory (cl_memoryTracker cl)"
    and "mt_sizeCache (cl_memoryTracker cl') = mt_sizeCache (cl_memoryTracker cl)"
proof -
  obtain f where f: "expired_by f cl cl'" "n = sum_list (map f (cl_list cl))"
     "looks_agree clk ttl 0 (cl_items cl) \<Longrightarrow> prefix_run clk ttl 0 cl f (cl_list cl)"
    by (rule cl_RemoveExpiredData_any [OF inv eq]) blast
  note S = prefix_run_items [OF inv f(1) f(3) [OF looks]]
  show "cl_items cl' = drop n (cl_items cl)" "n = expired_run clk ttl 0 (cl_items cl)"
    using S f(2) by simp_all
  show "cl_inv cl'" "cl_accounted cl \<Longrightarrow> cl_accounted cl'"
    "mt_maxMemory (cl_memoryTracker cl') = mt_maxMemory (cl_memoryTracker cl)"
    "mt_sizeCache (cl_memoryTracker cl') = mt_sizeCache (cl_memoryTracker cl)"
    using f(1) unfolding expired_by_def by blast+
  show "cl_chained cl'" if "cl_chained cl"
    using that S(3) expired_by_linked [OF f(1)] linked_suffix unfolding cl_chained_def by metis
qed

section \<open>Adding a batch\<close>

text \<open>A batch never fails half-way: there is always room, in the last chunk or in a new one.\<close>

lemma cl_EnqueueBatch_spec:
  assumes "cl_inv cl"
  obtains cl' where "cl_EnqueueBatch ds cl = (None, cl')" and "cl_inv cl'"
    and "cl_items cl' = cl_items cl @ ds" and "cl_chained cl \<Longrightarrow> cl_chained cl'"
    and "length (cl_list cl) \<le> length (cl_list cl')"
    and "length (cl_list cl') \<le> length (cl_list cl) + length ds"
    and "mt_maxMemory (cl_memoryTracker cl') = mt_maxMemory (cl_memoryTracker cl)"
    and "mt_sizeCache (cl_memoryTracker cl') = mt_sizeCache (cl_memoryTracker cl)"
    and "cl_accounted cl \<Longrightarrow> \<forall>d \<in> set ds. 0 \<le> qd_size d \<Longrightarrow> cl_bytes cl' \<le> MaxInt64 \<Longrightarrow> cl_accounted cl'"
proof -
  have "\<exists>cl'. cl_EnqueueBatch ds cl = (None, cl') \<and> cl_inv cl'
     \<and> cl_items cl' = cl_items cl @ ds \<and> (cl_chained cl \<longrightarrow> cl_chained cl')
     \<and> length (cl_list cl) \<le> length (cl_list cl')
     \<and> length (cl_list cl') \<le> length (cl_list cl) + length ds
     \<and> mt_maxMemory (cl_memoryTracker cl') = mt_maxMemory (cl_memoryTracker cl)
     \<and> mt_sizeCache (cl_memoryTracker cl') = mt_sizeCache (cl_memoryTracker cl)
     \<and> ((\<forall>d \<in> set ds. 0 \<le> qd_size d) \<longrightarrow> cl_bytes cl \<le> cl_bytes cl')
     \<and> (cl_accounted cl \<longrightarrow> (\<forall>d \<in> set ds. 0 \<le> qd_size d) \<longrightarrow> cl_bytes cl' \<le> MaxInt64 \<longrightarrow> cl_accounted cl')"
    using assms
  proof (induction ds arbitrary: cl)
    case (Cons d ds)
    obtain new cl1 where a: "cl_append d cl = (True, cl1)" "appended d cl new cl1"
      by (rule cl_append_spec [OF Cons.prems, of d])
    have inv1: "cl_inv cl1" using a(2) by (simp add: appended_def)
    obtain cl' where I: "cl_EnqueueBatch ds cl1 = (None, cl')" "cl_inv cl'"
      "cl_items cl' = cl_items cl1 @ ds" "cl_chained cl1 \<longrightarrow> cl_chained cl'"
      "length (cl_list cl1) \<le> length (cl_list cl')"
      "length (cl_list cl') \<le> length (cl_list cl1) + length ds"
      "mt_maxMemory (cl_memoryTracker cl') = mt_maxMemory (cl_memoryTracker cl1)"
      "mt_sizeCache (cl_memoryTracker cl') = mt_sizeCache (cl_memoryTracker cl1)"
      "(\<forall>d \<in> set ds. 0 \<le> qd_size d) \<longrightarrow> cl_bytes cl1 \<le> cl_bytes cl'"
      "cl_accounted cl1 \<longrightarrow> (\<forall>d \<in> set ds. 0 \<le> qd_size d) \<longrightarrow> cl_bytes cl' \<le> MaxInt64 \<longrightarrow> cl_accounted cl'"
      using Cons.IH [OF inv1] by blast
    note b = appended_bytes [OF a(2)]
    have acc: "cl_accounted cl'" if "cl_accounted cl" "\<forall>d \<in> set (d # ds). 0 \<le> qd_size d" "cl_bytes cl' \<le> MaxInt64"
    proof -
      have "cl_accounted cl1"
        by (rule appended_accounted [OF a(2) that(1)]) (use that I(9) b in auto)
      then show ?thesis using I(10) that by simp
    qed
    have "cl_bytes cl \<le> cl_bytes cl1" if "0 \<le> qd_size d" using b that by (simp add: ChunkNodeSize_def)
    then show ?case
      using a I acc unfolding appended_def
      by (intro exI [of _ cl']) (auto simp: Let_def)
  qed simp
  then show ?thesis using that by blast
qed

section \<open>Clearing\<close>

lemma clear_loop:
  "fold (\<lambda>i cl.
       let cl = cl_track (mt_RemoveData (cn_Data (cl_chunk cl e) i)) cl
       in cl_set_chunk e (cl_chunk cl e\<lparr>cn_Data := (cn_Data (cl_chunk cl e))(i := zero_queue_data)\<rparr>) cl)
     [h..<s] cl
   = cl\<lparr>cl_chunk := (cl_chunk cl)(e := cl_chunk cl e
            \<lparr>cn_Data := \<lambda>i. if h \<le> i \<and> i < s then zero_queue_data else cn_Data (cl_chunk cl e) i\<rparr>),
        cl_memoryTracker := fold mt_RemoveData (map (cn_Data (cl_chunk cl e)) [h..<s]) (cl_memoryTracker cl)\<rparr>"
  (is "fold ?f [h..<s] cl = ?r cl")
proof (induction "s - h" arbitrary: h cl)
  case 0
  moreover have "(\<lambda>i. if h \<le> i \<and> i < s then zero_queue_data else cn_Data (cl_chunk cl e) i)
     = cn_Data (cl_chunk cl e)" using 0 by (intro ext) auto
  ultimately show ?case by (cases cl) simp
next
  case (Suc m)
  then have hs: "[h..<s] = h # [Suc h..<s]" by (simp add: upt_conv_Cons)
  let ?cl = "?f h cl"
  have "fold ?f [h..<s] cl = fold ?f [Suc h..<s] ?cl" unfolding hs by (simp only: fold_simps)
  also have "\<dots> = ?cl\<lparr>cl_chunk := (cl_chunk ?cl)(e := cl_chunk ?cl e
            \<lparr>cn_Data := \<lambda>i. if Suc h \<le> i \<and> i < s then zero_queue_data else cn_Data (cl_chunk ?cl e) i\<rparr>),
        cl_memoryTracker := fold mt_RemoveData (map (cn_Data (cl_chunk ?cl e)) [Suc h..<s]) (cl_memoryTracker ?cl)\<rparr>"
    by (rule Suc.hyps(1)) (use Suc.hyps(2) in simp)
  also have "\<dots> = cl\<lparr>cl_chunk := (cl_chunk cl)(e := cl_chunk cl e
            \<lparr>cn_Data := \<lambda>i. if h \<le> i \<and> i < s then zero_queue_data else cn_Data (cl_chunk cl e) i\<rparr>),
        cl_memoryTracker := fold mt_RemoveData (map (cn_Data (cl_chunk cl e)) [h..<s]) (cl_memoryTracker cl)\<rparr>"
  proof -
    have "(\<lambda>i. if Suc h \<le> i \<and> i < s then zero_queue_data else cn_Data (cl_chunk ?cl e) i)
       = (\<lambda>i. if h \<le> i \<and> i < s then zero_queue_data else cn_Data (cl_chunk cl e) i)"
      using Suc.hyps(2) by (intro ext) (auto simp: Let_def)
    moreover have "map (cn_Data (cl_chunk ?cl e)) [Suc h..<s] = map (cn_Data (cl_chunk cl e)) [Suc h..<s]"
      by (auto simp: Let_def)
    ultimately show ?thesis
      unfolding hs by (cases cl) (simp add: Let_def cl_track_def cl_set_chunk_def)
  qed
  finally show ?case .
qed

lemma cl_clear_chunk_simps:
  "cl_list (cl_clear_chunk e cl) = remove1 e (cl_list cl)"
  "cl_next (cl_clear_chunk e cl) = cl_next cl"
  "x \<noteq> e \<Longrightarrow> cl_chunk (cl_clear_chunk e cl) x = cl_chunk cl x"
  "cn_pooled (cl_chunk (cl_clear_chunk e cl) e)"
  "cn_NextElement (cl_chunk (cl_clear_chunk e cl) e) = cn_NextElement (cl_chunk cl e)"
  "cl_memoryTracker (cl_clear_chunk e cl)
     = mt_RemoveChunk (fold mt_RemoveData (cl_live cl e) (cl_memoryTracker cl))"
  unfolding cl_clear_chunk_def clear_loop by (simp_all add: Let_def cn_live_def)

lemma fold_clear:
  assumes "cl_list cl = es" and "distinct es"
    and "mt_totalMemory (cl_memoryTracker cl)
          = ChunkNodeSize * int (length es) + sum_list (map qd_size (concat (map (cl_live cl) es)))"
    and "mt_totalMemory (cl_memoryTracker cl) \<le> MaxInt64"
    and "\<forall>e \<in> set es. \<forall>d \<in> set (cl_live cl e). 0 \<le> qd_size d"
  shows "mt_totalMemory (cl_memoryTracker (fold cl_clear_chunk es cl)) = 0"
  using assms
proof (induction es arbitrary: cl)
  case (Cons e es)
  let ?cl = "cl_clear_chunk e cl"
  have other: "cl_live ?cl x = cl_live cl x" if "x \<in> set es" for x
    using that Cons.prems(2) cl_clear_chunk_simps(3) [of x e cl] by (cases "x = e") simp_all
  then have cc: "concat (map (cl_live ?cl) es) = concat (map (cl_live cl) es)"
    by (intro concat_map_cong)
  have nonneg: "\<forall>d \<in> set (cl_live cl e @ concat (map (cl_live cl) es)). 0 \<le> qd_size d"
    using Cons.prems(5) by auto
  have "mt_totalMemory (cl_memoryTracker ?cl)
      = ChunkNodeSize * int (length es) + sum_list (map qd_size (concat (map (cl_live cl) es)))"
    unfolding cl_clear_chunk_simps(6)
    by (rule expire_total(2)) (use Cons.prems nonneg in \<open>auto simp: algebra_simps\<close>)
  moreover have "\<dots> \<le> mt_totalMemory (cl_memoryTracker cl)"
    using Cons.prems(3,5) by (auto simp: ChunkNodeSize_def intro!: sum_list_nonneg add_nonneg_nonneg)
  ultimately show ?case
    using Cons.prems other cc by (auto simp: cl_clear_chunk_simps intro!: Cons.IH)
qed simp

lemma fold_clear_chunks:
  assumes "distinct es" and "set (cl_list cl) \<subseteq> set es"  and "distinct (cl_list cl)"
  shows "cl_list (fold cl_clear_chunk es cl) = []" "cl_next (fold cl_clear_chunk es cl) = cl_next cl"
    and "x \<notin> set es \<Longrightarrow> cl_chunk (fold cl_clear_chunk es cl) x = cl_chunk cl x"
    and "x \<in> set es \<Longrightarrow> cn_pooled (cl_chunk (fold cl_clear_chunk es cl) x)"
    and "mt_maxMemory (cl_memoryTracker (fold cl_clear_chunk es cl)) = mt_maxMemory (cl_memoryTracker cl)"
    and "mt_sizeCache (cl_memoryTracker (fold cl_clear_chunk es cl)) = mt_sizeCache (cl_memoryTracker cl)"
  using assms
proof (induction es arbitrary: cl)
  case (Cons e es)
  {
    case 1 then show ?case using Cons.IH(1) [of "cl_clear_chunk e cl"] by (auto simp: cl_clear_chunk_simps)
  next
    case 2 then show ?case using Cons.IH(2) [of "cl_clear_chunk e cl"] by (auto simp: cl_clear_chunk_simps)
  next
    case 3 then show ?case using Cons.IH(3) [of "cl_clear_chunk e cl"] by (auto simp: cl_clear_chunk_simps)
  next
    case 4
    then have "set (cl_list (cl_clear_chunk e cl)) \<subseteq> set es" by (auto simp: cl_clear_chunk_simps)
    then show ?case
      using Cons.IH(3,4) [of "cl_clear_chunk e cl"] 4 by (cases "x = e") (auto simp: cl_clear_chunk_simps)
  next
    case 5 then show ?case using Cons.IH(5) [of "cl_clear_chunk e cl"] by (auto simp: cl_clear_chunk_simps)
  next
    case 6 then show ?case using Cons.IH(6) [of "cl_clear_chunk e cl"] by (auto simp: cl_clear_chunk_simps)
  }
qed simp_all

lemma cl_Clear_spec:
  assumes "cl_inv cl"
  shows "cl_inv (cl_Clear cl)" and "cl_items (cl_Clear cl) = []" and "cl_list (cl_Clear cl) = []"
    and "cl_chained (cl_Clear cl)" and "cl_next (cl_Clear cl) = cl_next cl"
    and "mt_maxMemory (cl_memoryTracker (cl_Clear cl)) = mt_maxMemory (cl_memoryTracker cl)"
    and "mt_sizeCache (cl_memoryTracker (cl_Clear cl)) = mt_sizeCache (cl_memoryTracker cl)"
    and "cl_accounted cl \<Longrightarrow> cl_accounted (cl_Clear cl)"
    and "cl_accounted cl \<Longrightarrow> mt_totalMemory (cl_memoryTracker (cl_Clear cl)) = 0"
proof -
  note F = fold_clear_chunks [OF cl_invD(1) [OF assms] subset_refl cl_invD(1) [OF assms]]
  show l: "cl_list (cl_Clear cl) = []" "cl_next (cl_Clear cl) = cl_next cl"
    "mt_maxMemory (cl_memoryTracker (cl_Clear cl)) = mt_maxMemory (cl_memoryTracker cl)"
    "mt_sizeCache (cl_memoryTracker (cl_Clear cl)) = mt_sizeCache (cl_memoryTracker cl)"
    using F by (simp_all add: cl_Clear_def)
  then show i: "cl_items (cl_Clear cl) = []" "cl_chained (cl_Clear cl)"
    by (simp_all add: cl_items_def cl_chained_def)
  have "cn_pooled (cl_chunk (cl_Clear cl) e)" if "e < cl_next cl" for e
    using F(3,4) [of e] cl_invD(8) [OF assms that] by (cases "e \<in> set (cl_list cl)") (auto simp: cl_Clear_def)
  then show "cl_inv (cl_Clear cl)"
    using l i by (simp add: cl_inv_def) (simp add: cl_Clear_def)
  show z: "mt_totalMemory (cl_memoryTracker (cl_Clear cl)) = 0" if a: "cl_accounted cl"
  proof -
    have "mt_totalMemory (cl_memoryTracker (fold cl_clear_chunk (cl_list cl) cl)) = 0"
      by (rule fold_clear) (use a assms cl_invD(1) [OF assms] in
          \<open>auto simp: cl_accounted_def cl_bytes_def cl_items_def\<close>)
    then show ?thesis by (simp add: cl_Clear_def)
  qed
  show "cl_accounted (cl_Clear cl)" if "cl_accounted cl"
    using z [OF that] l i by (simp add: cl_accounted_def cl_bytes_def MaxInt64_def)
qed

section \<open>Iterating\<close>

text \<open>What a callback does on a list of cells: go on until it says stop.\<close>

fun run_callback :: "'a callback \<Rightarrow> (queue_data \<times> elem \<times> nat) list \<Rightarrow> 'a \<Rightarrow> bool \<times> 'a" where
  "run_callback cb [] s = (True, s)"
| "run_callback cb ((d, e, i) # cells) s =
     (let (continue, s) = cb d e i s in if continue then run_callback cb cells s else (False, s))"

definition chunk_cells :: "chunked_list \<Rightarrow> elem \<Rightarrow> nat \<Rightarrow> (queue_data \<times> elem \<times> nat) list" where
  "chunk_cells cl e i =
     map (\<lambda>j. (cn_Data (cl_chunk cl e) j, e, j)) [max i (cn_head (cl_chunk cl e))..<cn_size (cl_chunk cl e)]"

lemma run_callback_append:
  "run_callback cb (xs @ ys) s =
     (let (c, s) = run_callback cb xs s in if c then run_callback cb ys s else (False, s))"
  by (induction cb xs s rule: run_callback.induct) (auto split: prod.splits)

lemma iterate_chunk_cells:
  "iterate_chunk cb e (cl_chunk cl e) i (cn_size (cl_chunk cl e)) s = run_callback cb (chunk_cells cl e i) s"
proof (induction "cn_size (cl_chunk cl e) - i" arbitrary: i s)
  case 0
  then show ?case by (simp add: iterate_chunk.simps [of cb e _ i] chunk_cells_def)
next
  case (Suc m)
  let ?c = "cl_chunk cl e"
  have lt: "i < cn_size ?c" using Suc.hyps(2) by simp
  have IH: "iterate_chunk cb e ?c (Suc i) (cn_size ?c) s = run_callback cb (chunk_cells cl e (Suc i)) s" for s
    by (rule Suc.hyps(1)) (use Suc.hyps(2) in simp)
  show ?case
  proof (cases "i < cn_head ?c")
    case True
    then have "chunk_cells cl e (Suc i) = chunk_cells cl e i" by (simp add: chunk_cells_def max_def)
    then show ?thesis
      using lt True IH by (simp add: iterate_chunk.simps [of cb e _ i] cn_Get_def)
  next
    case False
    then have "chunk_cells cl e i = (cn_Data ?c i, e, i) # chunk_cells cl e (Suc i)"
      using lt by (simp add: chunk_cells_def max_def upt_conv_Cons del: upt_Suc)
    then show ?thesis
      using lt False IH
      by (simp add: iterate_chunk.simps [of cb e _ i] cn_Get_def split: prod.splits)
  qed
qed

text \<open>
  From a chunk of the list the iteration ends, and calls the callback on the cells of that chunk
  from the index on and on those of the chunks behind it.
\<close>

lemma cl_IterateFrom_cells:
  assumes "linked (cl_chunk cl) (e # post)"
  shows "cl_IterateFrom cb cl (Some e) i s
    = Some (snd (run_callback cb (chunk_cells cl e i @ concat (map (\<lambda>x. chunk_cells cl x 0) post)) s))"
  using assms
proof (induction post arbitrary: e i s)
  case Nil
  then show ?case
    by (subst cl_IterateFrom.simps)
      (simp add: iterate_chunk_cells Let_def cl_IterateFrom.simps [of cb cl None])
next
  case (Cons x post)
  then have "cn_NextElement (cl_chunk cl e) = Some x" "linked (cl_chunk cl) (x # post)" by simp_all
  then show ?case
    using Cons.IH [of x 0]
    by (subst cl_IterateFrom.simps)
      (simp add: iterate_chunk_cells Let_def run_callback_append split: prod.splits)
qed

lemma run_callback_count:
  "run_callback (\<lambda>data e i count. (True, count + 1)) cells (n :: int) = (True, n + int (length cells))"
  by (induction cells arbitrary: n) auto

end
