(* ===== verification/MQ_Cursor.thy ===== *)
theory MQ_Cursor
  imports MQ_ChunkedList
begin

text \<open>
  Positions in the chunked list: an element and an index in its chunk, or \<open>None\<close> for a reader that
  has not read yet. Consumers and groups keep one each (\<^verbatim>\<open>chunkElement\<close>, \<^verbatim>\<open>indexInChunk\<close>). The code
  on positions that both share, what a position has left to read, and how the list's operations
  change that.
\<close>

type_synonym position = "elem option \<times> nat"

section \<open>The code\<close>

text \<open>\<^verbatim>\<open>calculateExpiredCount\<close>: the loop over the removal records with the flag \<^verbatim>\<open>foundConsumerChunk\<close>.\<close>

fun count_loop :: "elem \<Rightarrow> nat \<Rightarrow> bool \<Rightarrow> nat \<Rightarrow> chunk_removal_info list \<Rightarrow> nat" where
  "count_loop chunkElement indexInChunk found expiredCount [] = expiredCount"
| "count_loop chunkElement indexInChunk found expiredCount (info # removalInfo) =
     (if found then
        count_loop chunkElement indexInChunk found (expiredCount + ri_RemovedCount info) removalInfo
      else if ri_Element info = chunkElement then
        count_loop chunkElement indexInChunk True
          (if indexInChunk < ri_NewHead info then
             if indexInChunk \<le> ri_OldHead info then expiredCount + ri_RemovedCount info
             else expiredCount + (ri_NewHead info - indexInChunk)
           else expiredCount) removalInfo
      else count_loop chunkElement indexInChunk found expiredCount removalInfo)"

definition calculateExpiredCount :: "elem option \<Rightarrow> nat \<Rightarrow> chunk_removal_info list \<Rightarrow> nat" where
  "calculateExpiredCount chunkElement indexInChunk removalInfo =
     (case chunkElement of
        None \<Rightarrow> fold (\<lambda>info total. total + ri_RemovedCount info) removalInfo 0
      | Some e \<Rightarrow> count_loop e indexInChunk False 0 removalInfo)"

text \<open>
  The body of \<^verbatim>\<open>UpdatePositionAfterExpiration\<close>, after its guards: catch up with the head of one's
  chunk, then move to the first element when the chunk was released, or to \<open>None\<close> when the list is
  empty.
\<close>

definition update_position ::
  "elem option \<Rightarrow> chunk_removal_info list \<Rightarrow> (elem \<Rightarrow> chunk_node) \<Rightarrow> position \<Rightarrow> position" where
  "update_position newFirstElement removalInfo chunks pos =
     (let (chunkElement, indexInChunk) = pos;
          indexInChunk =
            (case find (\<lambda>info. Some (ri_Element info) = chunkElement) removalInfo of
               Some info \<Rightarrow> if indexInChunk < ri_NewHead info then ri_NewHead info else indexInChunk
             | None \<Rightarrow> indexInChunk)
      in case newFirstElement of
           Some _ \<Rightarrow>
             (case chunkElement of
                Some e \<Rightarrow> if cn_pooled (chunks e) then (newFirstElement, 0) else (chunkElement, indexInChunk)
              | None \<Rightarrow> (chunkElement, indexInChunk))
         | None \<Rightarrow> (None, 0))"

section \<open>What a position has left to read\<close>

definition pos_ok :: "chunked_list \<Rightarrow> position \<Rightarrow> bool" where
  "pos_ok cl pos \<longleftrightarrow>
     (case fst pos of None \<Rightarrow> True | Some e \<Rightarrow> e \<in> set (cl_list cl) \<and> snd pos \<le> cn_size (cl_chunk cl e))"

text \<open>The number of live items in front of a position.\<close>

definition pos_rank :: "chunked_list \<Rightarrow> position \<Rightarrow> nat" where
  "pos_rank cl pos =
     (case fst pos of
        None \<Rightarrow> 0
      | Some e \<Rightarrow> length (concat (map (cl_live cl) (takeWhile (\<lambda>x. x \<noteq> e) (cl_list cl))))
                  + (snd pos - cn_head (cl_chunk cl e)))"

definition unread :: "chunked_list \<Rightarrow> position \<Rightarrow> queue_data list" where
  "unread cl pos = drop (pos_rank cl pos) (cl_items cl)"

lemma pos_ok_None [simp]: "pos_ok cl (None, i)"
  by (simp add: pos_ok_def)

lemma unread_None [simp]: "unread cl (None, i) = cl_items cl" "pos_rank cl (None, i) = 0"
  by (simp_all add: unread_def pos_rank_def)

lemma pos_rank_split:
  assumes "cl_inv cl" "cl_list cl = pre @ e # post"
  shows "pos_rank cl (Some e, i)
    = length (concat (map (cl_live cl) pre)) + (i - cn_head (cl_chunk cl e))"
proof -
  have "x \<noteq> e" if "x \<in> set pre" for x
    using that cl_invD(1) [OF assms(1)] assms(2) by auto
  then have "takeWhile (\<lambda>x. x \<noteq> e) (cl_list cl) = pre"
    unfolding assms(2) by (subst takeWhile_append2) simp_all
  then show ?thesis by (simp add: pos_rank_def)
qed

lemma unread_split:
  assumes "cl_inv cl" "cl_list cl = pre @ e # post" "i \<le> cn_size (cl_chunk cl e)"
  shows "unread cl (Some e, i)
    = drop (i - cn_head (cl_chunk cl e)) (cl_live cl e) @ concat (map (cl_live cl) post)"
  using assms(3) cn_inv_le [OF cl_invD(4) [OF assms(1), of e]] assms(2)
  by (simp add: unread_def pos_rank_split [OF assms(1,2)] items_split [OF assms(2)])

lemma pos_rank_le:
  assumes "cl_inv cl" "pos_ok cl pos"
  shows "pos_rank cl pos \<le> length (cl_items cl)"
proof (cases "fst pos")
  case (Some e)
  then obtain pre post where s: "cl_list cl = pre @ e # post" and i: "snd pos \<le> cn_size (cl_chunk cl e)"
    using assms(2) by (auto simp: pos_ok_def dest: split_list)
  then show ?thesis
    using pos_rank_split [OF assms(1) s, of "snd pos"] Some
    by (cases pos) (auto simp: items_split [OF s])
qed (cases pos, simp)

text \<open>The four moves of a reader.\<close>

lemma unread_first:
  assumes "cl_inv cl" "cl_GetFirstElement cl = Some e"
  shows "unread cl (Some e, 0) = cl_items cl" "pos_ok cl (Some e, 0)"
proof -
  obtain post where "cl_list cl = [] @ e # post"
    using assms(2) by (auto simp: cl_GetFirstElement_def split: list.splits)
  then show "unread cl (Some e, 0) = cl_items cl" "pos_ok cl (Some e, 0)"
    using pos_rank_split [OF assms(1), of "[]" e post 0] by (auto simp: unread_def pos_ok_def)
qed

lemma unread_read:
  assumes inv: "cl_inv cl" and ok: "pos_ok cl (Some e, i)" and get: "cn_Get i (cl_chunk cl e) = Some d"
  shows "unread cl (Some e, i) = d # unread cl (Some e, Suc i)" "pos_ok cl (Some e, Suc i)"
    "pos_rank cl (Some e, Suc i) = Suc (pos_rank cl (Some e, i))"
proof -
  obtain pre post where s: "cl_list cl = pre @ e # post"
    using ok by (auto simp: pos_ok_def dest: split_list)
  have i: "cn_head (cl_chunk cl e) \<le> i" "i < cn_size (cl_chunk cl e)"
    "d = cl_live cl e ! (i - cn_head (cl_chunk cl e))"
    using get by (auto simp: cn_Get_live split: if_splits)
  then have "drop (i - cn_head (cl_chunk cl e)) (cl_live cl e)
      = d # drop (Suc i - cn_head (cl_chunk cl e)) (cl_live cl e)"
    by (simp add: Cons_nth_drop_Suc [symmetric] Suc_diff_le)
  then show "unread cl (Some e, i) = d # unread cl (Some e, Suc i)"
    using unread_split [OF inv s, of i] unread_split [OF inv s, of "Suc i"] i by simp
  show "pos_ok cl (Some e, Suc i)" using ok i by (simp add: pos_ok_def)
  show "pos_rank cl (Some e, Suc i) = Suc (pos_rank cl (Some e, i))"
    using i by (simp add: pos_rank_def Suc_diff_le)
qed

lemma unread_skip:
  assumes "i \<le> j" "j \<le> cn_head (cl_chunk cl e)"
  shows "unread cl (Some e, j) = unread cl (Some e, i)" "pos_rank cl (Some e, j) = pos_rank cl (Some e, i)"
  using assms by (simp_all add: unread_def pos_rank_def)

lemma unread_next:
  assumes inv: "cl_inv cl" and ch: "cl_chained cl" and ok: "pos_ok cl (Some e, i)"
    and i: "cn_size (cl_chunk cl e) \<le> i"
  shows "cn_NextElement (cl_chunk cl e) = None \<Longrightarrow> unread cl (Some e, i) = []"
    and "cn_NextElement (cl_chunk cl e) = Some x \<Longrightarrow> unread cl (Some x, 0) = unread cl (Some e, i)"
    and "cn_NextElement (cl_chunk cl e) = Some x \<Longrightarrow> pos_ok cl (Some x, 0)"
    and "cn_NextElement (cl_chunk cl e) = Some x \<Longrightarrow>
      \<exists>pre post. cl_list cl = pre @ e # x # post"
proof -
  obtain pre post where s: "cl_list cl = pre @ e # post"
    using ok by (auto simp: pos_ok_def dest: split_list)
  have le: "i \<le> cn_size (cl_chunk cl e)" using ok by (simp add: pos_ok_def)
  have u: "unread cl (Some e, i) = concat (map (cl_live cl) post)"
    using unread_split [OF inv s le] i by simp
  have n: "cn_NextElement (cl_chunk cl e) = (case post of [] \<Rightarrow> None | x # _ \<Rightarrow> Some x)"
    using ch s linked_last [of "cl_chunk cl" pre e] linked_full [of "cl_chunk cl" pre e]
    by (auto simp: cl_chained_def split: list.split)
  show "cn_NextElement (cl_chunk cl e) = None \<Longrightarrow> unread cl (Some e, i) = []"
    using u n by (cases post) auto
  assume x: "cn_NextElement (cl_chunk cl e) = Some x"
  then obtain post' where p: "post = x # post'" using n by (cases post) auto
  then have s': "cl_list cl = (pre @ [e]) @ x # post'" using s by simp
  show "pos_ok cl (Some x, 0)" using s' by (simp add: pos_ok_def)
  show "unread cl (Some x, 0) = unread cl (Some e, i)"
    using unread_split [OF inv s', of 0] u p by simp
  show "\<exists>pre post. cl_list cl = pre @ e # x # post" using s p by blast
qed

lemma unread_stuck:
  assumes inv: "cl_inv cl" and ok: "pos_ok cl (Some e, i)" and "i < cn_size (cl_chunk cl e)"
    and "cn_head (cl_chunk cl e) \<le> i"
  shows "cn_Get i (cl_chunk cl e) \<noteq> None"
  using assms by (simp add: cn_Get_live)

section \<open>What the operations of the list do to a position\<close>

text \<open>Counting from a position counts what is unread.\<close>

lemma length_chunk_cells: "length (chunk_cells cl e i) = length (drop (i - cn_head (cl_chunk cl e)) (cl_live cl e))"
  by (simp add: chunk_cells_def)

lemma cl_CountItemsFrom_unread:
  assumes inv: "cl_inv cl" and ch: "cl_chained cl" and ok: "pos_ok cl (Some e, i)"
  shows "cl_CountItemsFrom (Some e) i cl = Some (int (length (unread cl (Some e, i))))"
proof -
  obtain pre post where s: "cl_list cl = pre @ e # post"
    using ok by (auto simp: pos_ok_def dest: split_list)
  have i: "i \<le> cn_size (cl_chunk cl e)" using ok by (simp add: pos_ok_def)
  have l: "linked (cl_chunk cl) (e # post)"
    using ch linked_suffix unfolding cl_chained_def s by blast
  have "length (concat (map (\<lambda>x. chunk_cells cl x 0) xs)) = length (concat (map (cl_live cl) xs))" for xs
    by (induction xs) (simp_all add: length_chunk_cells)
  then show ?thesis
    unfolding cl_CountItemsFrom_def cl_IterateFrom_cells [OF l]
    by (simp add: run_callback_count unread_split [OF inv s i] length_chunk_cells)
qed

text \<open>An item added to the list is added to what every position has left.\<close>

lemma appended_pos:
  assumes inv: "cl_inv cl" and a: "appended d cl new cl'" and ok: "pos_ok cl pos"
  shows "pos_ok cl' pos" "unread cl' pos = unread cl pos @ [d]" "pos_rank cl' pos = pos_rank cl pos"
proof -
  note A = a [unfolded appended_def]
  have "pos_ok cl' pos \<and> pos_rank cl' pos = pos_rank cl pos"
  proof (cases "fst pos")
    case (Some e)
    then obtain pre post where s: "cl_list cl = pre @ e # post" and i: "snd pos \<le> cn_size (cl_chunk cl e)"
      using ok by (auto simp: pos_ok_def dest: split_list)
    have s': "cl_list cl' = pre @ e # (post @ new)" using A s by simp
    have inv': "cl_inv cl'" using A by blast
    have len: "cl_live cl' x = cl_live cl x" if "x \<in> set pre" for x
    proof -
      have "x \<noteq> last (cl_list cl)"
        using that cl_invD(1) [OF inv] unfolding s by (cases post rule: rev_cases) auto
      then show ?thesis using A that s by simp
    qed
    have "concat (map (cl_live cl') pre) = concat (map (cl_live cl) pre)"
      by (rule concat_map_cong) (rule len)
    moreover have "cn_head (cl_chunk cl' e) = cn_head (cl_chunk cl e)"
       "cn_size (cl_chunk cl e) \<le> cn_size (cl_chunk cl' e)" using A s by simp_all
    ultimately show ?thesis
      using pos_rank_split [OF inv s, of "snd pos"] pos_rank_split [OF inv' s', of "snd pos"] s' Some i
      by (cases pos) (simp add: pos_ok_def)
  qed (cases pos, simp)
  then show "pos_ok cl' pos" "pos_rank cl' pos = pos_rank cl pos" by simp_all
  then show "unread cl' pos = unread cl pos @ [d]"
    using A pos_rank_le [OF inv ok] by (simp add: unread_def)
qed

lemma EnqueueBatch_pos:
  assumes "cl_inv cl" "cl_EnqueueBatch ds cl = (None, cl')" "pos_ok cl pos"
  shows "pos_ok cl' pos \<and> unread cl' pos = unread cl pos @ ds \<and> pos_rank cl' pos = pos_rank cl pos"
  using assms
proof (induction ds arbitrary: cl)
  case (Cons d ds)
  obtain new cl1 where a: "cl_append d cl = (True, cl1)" "appended d cl new cl1"
    by (rule cl_append_spec [OF Cons.prems(1), of d])
  have "cl_inv cl1" using a(2) by (simp add: appended_def)
  then show ?case
    using Cons.IH [of cl1] appended_pos [OF Cons.prems(1) a(2) Cons.prems(3)] Cons.prems(2) a(1) by simp
qed simp

section \<open>Expiration\<close>

lemma count_loop_found:
  "count_loop e i True n infos = n + sum_list (map ri_RemovedCount infos)"
  by (induction infos arbitrary: n) auto

lemma count_loop_skip:
  "(\<And>info. info \<in> set infos \<Longrightarrow> ri_Element info \<noteq> e) \<Longrightarrow>
    count_loop e i False n (infos @ rest) = count_loop e i False n rest"
  by (induction infos) auto

lemma fold_RemovedCount:
  "fold (\<lambda>info total. total + ri_RemovedCount info) infos n = n + sum_list (map ri_RemovedCount infos)"
  by (induction infos arbitrary: n) auto

text \<open>The records of a removal that takes \<open>f e\<close> items from the chunk of each \<open>e\<close>.\<close>

abbreviation removal_infos :: "chunked_list \<Rightarrow> (elem \<Rightarrow> nat) \<Rightarrow> elem list \<Rightarrow> chunk_removal_info list" where
  "removal_infos cl f es \<equiv> concat (map (\<lambda>e. removal_info cl e (f e)) es)"

lemma removal_infos_sum: "sum_list (map ri_RemovedCount (removal_infos cl f es)) = sum_list (map f es)"
  by (induction es) (auto simp: removal_info_def)

lemma removal_infos_elem: "info \<in> set (removal_infos cl f es) \<Longrightarrow> ri_Element info \<in> set es"
  by (auto simp: removal_info_def split: if_splits)

lemma removal_info_cases:
  "n > 0 \<Longrightarrow> removal_info cl e n = [\<lparr>ri_Element = e, ri_RemovedCount = n,
      ri_OldHead = cn_head (cl_chunk cl e), ri_NewHead = cn_head (cl_chunk cl e) + n\<rparr>]"
  "removal_info cl e 0 = []"
  by (simp_all add: removal_info_def)

lemma count_removal_infos:
  assumes "distinct (pre @ e # post)"
  shows "count_loop e i False 0 (removal_infos cl f (pre @ e # post))
    = (if f e > 0 then (f e - (i - cn_head (cl_chunk cl e))) + sum_list (map f post) else 0)"
proof -
  have "count_loop e i False 0 (removal_infos cl f (pre @ e # post))
      = count_loop e i False 0 (removal_info cl e (f e) @ removal_infos cl f post)"
    using assms count_loop_skip [of "removal_infos cl f pre" e i 0] removal_infos_elem by fastforce
  also have "\<dots> = (if f e > 0 then (f e - (i - cn_head (cl_chunk cl e))) + sum_list (map f post) else 0)"
  proof (cases "f e > 0")
    case True
    then show ?thesis
      by (auto simp: removal_info_cases count_loop_found removal_infos_sum)
  next
    case False
    have "count_loop e i False 0 (removal_infos cl f post @ []) = 0"
      by (subst count_loop_skip) (use assms removal_infos_elem in \<open>fastforce+\<close>)
    then show ?thesis using False by (simp add: removal_info_cases)
  qed
  finally show ?thesis .
qed

lemma find_removal_infos:
  assumes "distinct (pre @ e # post)"
  shows "find (\<lambda>info. Some (ri_Element info) = Some e) (removal_infos cl f (pre @ e # post))
    = (case removal_info cl e (f e) of [] \<Rightarrow> None | info # _ \<Rightarrow> Some info)"
proof -
  have "find (\<lambda>info. ri_Element info = e) (xs @ ys) = find (\<lambda>info. ri_Element info = e) ys"
    if "\<And>info. info \<in> set xs \<Longrightarrow> ri_Element info \<noteq> e" for xs ys :: "chunk_removal_info list"
    using that by (induction xs) auto
  then have "find (\<lambda>info. ri_Element info = e) (removal_infos cl f pre @ ys)
      = find (\<lambda>info. ri_Element info = e) ys" for ys
    using assms removal_infos_elem by fastforce
  moreover have "find (\<lambda>info. ri_Element info = e) (removal_infos cl f post) = None"
    unfolding find_None_iff using assms removal_infos_elem by fastforce
  ultimately show ?thesis by (cases "f e = 0") (simp_all add: removal_info_cases)
qed

text \<open>Where the chunk of a reader stands in a removal of a prefix.\<close>

lemma prefix_run_split:
  assumes "prefix_run clk ttl k cl f (pre @ e # post)"
  shows "(\<forall>x \<in> set pre. f x = length (cl_live cl x)) \<or> f e = 0 \<and> (\<forall>x \<in> set post. f x = 0)"
    and "f e = length (cl_live cl e) \<or> (\<forall>x \<in> set post. f x = 0)"
proof -
  obtain gone rest where gr: "pre @ e # post = gone @ rest"
    "\<And>x. x \<in> set gone \<Longrightarrow> f x = length (cl_live cl x)" "\<And>x. x \<in> set (tl rest) \<Longrightarrow> f x = 0"
    using assms unfolding prefix_run_def by blast
  from gr(1) consider us where "gone = pre @ e # us" "us @ rest = post"
    | "gone = pre" "rest = e # post"
    | u us where "pre = gone @ u # us" "rest = u # us @ e # post"
  proof -
    obtain us where "pre = gone @ us \<and> us @ e # post = rest \<or> pre @ us = gone \<and> e # post = us @ rest"
      using gr(1) unfolding append_eq_append_conv2 by blast
    then show thesis by (cases us) (use that in auto)
  qed
  then show "(\<forall>x \<in> set pre. f x = length (cl_live cl x)) \<or> f e = 0 \<and> (\<forall>x \<in> set post. f x = 0)"
    "f e = length (cl_live cl e) \<or> (\<forall>x \<in> set post. f x = 0)"
    using gr(2,3) by (cases; simp)+
qed

lemma count_arith:
  fixes P :: nat
  assumes "P = L \<or> F = 0 \<and> Q = 0" "F = E \<or> Q = 0" "P \<le> L" "x \<le> E" "F \<le> E" "0 < E"
  shows "(if F > 0 then (F - x) + Q else 0) = P + F + Q - (L + x)"
  using assms by (cases "F = 0"; cases "F = E") auto

text \<open>
  What one removal does to a reader's position: it stays valid, moves back by the number of
  removed items (those it had not read are gone), and \<^verbatim>\<open>calculateExpiredCount\<close> is the number of
  removed items it had not read.
\<close>

lemma expired_pos:
  assumes inv: "cl_inv cl" and f: "expired_by f cl cl'" and run: "prefix_run clk ttl k cl f (cl_list cl)"
    and ok: "pos_ok cl (Some e, i)"
  defines "n \<equiv> sum_list (map f (cl_list cl))" and "infos \<equiv> removal_infos cl f (cl_list cl)"
  defines "pos' \<equiv> update_position (cl_GetFirstElement cl') infos (cl_chunk cl') (Some e, i)"
  shows "pos_ok cl' pos'" and "pos_rank cl' pos' = pos_rank cl (Some e, i) - n"
    and "calculateExpiredCount (Some e) i infos = n - pos_rank cl (Some e, i)"
proof -
  obtain pre post where s: "cl_list cl = pre @ e # post" and i: "i \<le> cn_size (cl_chunk cl e)"
    using ok by (auto simp: pos_ok_def dest: split_list)
  have dist: "distinct (pre @ e # post)" using cl_invD(1) [OF inv] s by simp
  let ?h = "cn_head (cl_chunk cl e)" and ?len = "\<lambda>x. length (cl_live cl x)"
  note inv' = expired_byD(1) [OF f] and list' = expired_byD(2) [OF f] and at = expired_by_at [OF f]
  note run1 = prefix_run_split [OF run [unfolded s]]
  have le: "f x \<le> ?len x" for x by (rule at(1))
  have len_e: "?len e > 0" using cl_invD(7) [OF inv, of e] s by (simp del: length_cn_live)
  have rank: "pos_rank cl (Some e, i) = sum_list (map ?len pre) + (i - ?h)"
    by (simp add: pos_rank_split [OF inv s] length_concat o_def)
  have n: "n = sum_list (map f pre) + f e + sum_list (map f post)" by (simp add: n_def s)
  have pre_le: "sum_list (map f pre) \<le> sum_list (map ?len pre)"
    by (rule sum_list_mono) (rule le)
  have pre_eq: "sum_list (map f pre) = sum_list (map ?len pre)" if "\<forall>x \<in> set pre. f x = ?len x"
    using that by (simp cong: map_cong)
  have post0: "sum_list (map f post) = 0" if "\<forall>x \<in> set post. f x = 0"
    using that by (simp cong: map_cong)
  have A: "sum_list (map f pre) = sum_list (map ?len pre) \<or> f e = 0 \<and> sum_list (map f post) = 0"
    using run1(1) by (elim disjE conjE) (simp_all add: post0 pre_eq del: length_cn_live)
  have B: "f e = ?len e \<or> sum_list (map f post) = 0" using run1(2) by (elim disjE) (simp_all add: post0 del: length_cn_live)
  have ih: "i - ?h \<le> ?len e" using i by simp
  have "calculateExpiredCount (Some e) i infos
      = (if f e > 0 then (f e - (i - ?h)) + sum_list (map f post) else 0)"
    unfolding calculateExpiredCount_def infos_def s using count_removal_infos [OF dist] by simp
  also have "\<dots> = n - pos_rank cl (Some e, i)"
    unfolding rank n by (rule count_arith [OF A B pre_le ih le len_e])
  finally show "calculateExpiredCount (Some e) i infos = n - pos_rank cl (Some e, i)" .
  have pooled: "cn_pooled (cl_chunk cl' e) \<longleftrightarrow> e \<notin> set (cl_list cl')"
    using cl_invD(8) [OF inv', of e] cl_invD(3) [OF inv, of e] s f unfolding expired_by_def by simp
  have mem: "e \<in> set (cl_list cl') \<longleftrightarrow> f e < ?len e" using list' s by auto
  let ?i = "if f e > 0 \<and> i < ?h + f e then ?h + f e else i"
  have find: "(case find (\<lambda>info. Some (ri_Element info) = Some e) infos of
       Some info \<Rightarrow> if i < ri_NewHead info then ri_NewHead info else i | None \<Rightarrow> i) = ?i"
    unfolding infos_def s find_removal_infos [OF dist] by (simp add: removal_info_def)
  have "pos_ok cl' pos' \<and> pos_rank cl' pos' = pos_rank cl (Some e, i) - n"
  proof (cases "f e < ?len e")
    case False
    then have full: "f e = ?len e" using le [of e] by simp
    have "fst pos' = cl_GetFirstElement cl' \<and> snd pos' = 0"
      using pooled mem False by (simp add: pos'_def update_position_def Let_def split: option.split)
    then have "pos' = (cl_GetFirstElement cl', 0)" by (cases pos') simp
    moreover have "pos_rank cl' (cl_GetFirstElement cl', 0) = 0 \<and> pos_ok cl' (cl_GetFirstElement cl', 0)"
      by (cases "cl_list cl'") (simp_all add: cl_GetFirstElement_def pos_rank_def pos_ok_def)
    moreover have "pos_rank cl (Some e, i) \<le> n"
      unfolding rank n using A full len_e ih by arith
    ultimately show ?thesis by simp
  next
    case True
    have "cl_list cl' \<noteq> []" using True mem by auto
    then have "cl_GetFirstElement cl' \<noteq> None" by (cases "cl_list cl'") (simp_all add: cl_GetFirstElement_def)
    then have pos': "pos' = (Some e, ?i)"
      unfolding pos'_def update_position_def Let_def using pooled mem True find by auto
    have s': "cl_list cl' = filter (\<lambda>x. f x < ?len x) pre @ e # filter (\<lambda>x. f x < ?len x) post"
      using list' s True by (simp del: length_cn_live)
    have lens: "length (concat (map (cl_live cl') (filter (\<lambda>x. f x < ?len x) xs)))
        = sum_list (map ?len xs) - sum_list (map f xs)" for xs
    proof (induction xs)
      case (Cons x xs)
      have "sum_list (map f xs) \<le> sum_list (map ?len xs)" by (rule sum_list_mono) (rule le)
      then show ?case using Cons le [of x] at(4) [of x] by (auto simp del: length_cn_live)
    qed simp
    have Q0: "sum_list (map f post) = 0" using B True by simp
    have "pos_rank cl' (Some e, ?i)
        = sum_list (map ?len pre) - sum_list (map f pre) + (?i - (?h + f e))"
      unfolding pos_rank_split [OF inv' s'] lens using at(7) [of e] by simp
    also have "\<dots> = pos_rank cl (Some e, i) - n"
      unfolding rank n using A Q0 pre_le by (auto simp del: length_cn_live sum_list_eq_0_iff)
    finally have "pos_rank cl' (Some e, ?i) = pos_rank cl (Some e, i) - n" .
    moreover have "pos_ok cl' (Some e, ?i)"
      using mem True i at(6) [of e] by (auto simp: pos_ok_def)
    ultimately show ?thesis unfolding pos' by blast
  qed
  then show "pos_ok cl' pos'" "pos_rank cl' pos' = pos_rank cl (Some e, i) - n" by simp_all
qed

text \<open>
  The position a reader has after a removal: nothing changes for a reader without position, and
  the code calls the update only when something was removed.
\<close>

definition moved_position ::
  "nat \<Rightarrow> elem option \<Rightarrow> chunk_removal_info list \<Rightarrow> (elem \<Rightarrow> chunk_node) \<Rightarrow> position \<Rightarrow> position" where
  "moved_position n newFirstElement removalInfo chunks pos =
     (if fst pos = None \<or> n = 0 then pos else update_position newFirstElement removalInfo chunks pos)"

lemma diff_add_swap: "a - n + n = n - a + (a :: nat)"
  by arith

lemma RemoveExpiredData_pos:
  assumes inv: "cl_inv cl" and looks: "looks_agree clk ttl 0 (cl_items cl)"
    and eq: "cl_RemoveExpiredData clk ttl cl = (n, infos, cl')" and ok: "pos_ok cl pos"
  defines "pos' \<equiv> moved_position n (cl_GetFirstElement cl') infos (cl_chunk cl') pos"
  shows "pos_ok cl' pos'" and "pos_rank cl' pos' = pos_rank cl pos - n"
    and "calculateExpiredCount (fst pos) (snd pos) infos = n - pos_rank cl pos"
    and "unread cl' pos' = drop (n - pos_rank cl pos) (unread cl pos)"
proof -
  obtain f where f: "expired_by f cl cl'" "n = sum_list (map f (cl_list cl))"
     "infos = removal_infos cl f (cl_list cl)" "prefix_run clk ttl 0 cl f (cl_list cl)"
    by (rule cl_RemoveExpiredData_any [OF inv eq]) (use looks in blast)
  have items: "cl_items cl' = drop n (cl_items cl)"
    by (rule cl_RemoveExpiredData_agreed(2) [OF inv looks eq])
  have "pos_ok cl' pos' \<and> pos_rank cl' pos' = pos_rank cl pos - n
    \<and> calculateExpiredCount (fst pos) (snd pos) infos = n - pos_rank cl pos"
  proof (cases "fst pos")
    case None
    then obtain i where "pos = (None, i)" by (cases pos) auto
    then show ?thesis
      by (simp add: pos'_def moved_position_def calculateExpiredCount_def fold_RemovedCount f(2,3)
          removal_infos_sum)
  next
    case (Some e)
    then obtain i where p: "pos = (Some e, i)" by (cases pos) auto
    note E = expired_pos [OF inv f(1,4) ok [unfolded p], folded f(2,3)]
    show ?thesis
    proof (cases "n = 0")
      case False
      then show ?thesis using E p by (simp add: pos'_def moved_position_def)
    next
      case True
      then have z: "\<forall>x \<in> set (cl_list cl). f x = 0" using f(2) by simp
      have "infos = []" using z by (simp add: f(3) removal_info_def)
      moreover have "cl_list cl' = cl_list cl"
        using expired_byD(2) [OF f(1)] z cl_invD(7) [OF inv]
        by (simp add: filter_id_conv del: length_cn_live)
      moreover have "e \<in> set (cl_list cl)" using ok p by (simp add: pos_ok_def)
      ultimately have "update_position (cl_GetFirstElement cl') infos (cl_chunk cl') (Some e, i) = pos"
        using cl_invD(5) [OF expired_byD(1) [OF f(1)], of e] p
        by (cases "cl_list cl") (auto simp: update_position_def cl_GetFirstElement_def)
      then show ?thesis using E p True by (simp add: pos'_def moved_position_def)
    qed
  qed
  then show "pos_ok cl' pos'" "pos_rank cl' pos' = pos_rank cl pos - n"
    "calculateExpiredCount (fst pos) (snd pos) infos = n - pos_rank cl pos"
    by simp_all
  then show "unread cl' pos' = drop (n - pos_rank cl pos) (unread cl pos)"
    using diff_add_swap [of "pos_rank cl pos" n] by (simp add: unread_def items)
qed

end
