(* ===== verification/MQ_Reader.thy ===== *)
theory MQ_Reader
  imports MQ_Cursor
begin

text \<open>
  The reading loop that consumers and groups share in shape (the \<^verbatim>\<open>for\<close> of \<^verbatim>\<open>Consumer.TryRead\<close> and of
  \<^verbatim>\<open>ConsumerGroup.TryRead\<close>), as an interface: what one round of the loop does to a reader's
  position, and, from these laws alone, that the loop ends and delivers the first unread item.
  \<^verbatim>\<open>MQ_Group\<close> and \<^verbatim>\<open>MQ_Consumer\<close> interpret it with the rounds translated from the code.
\<close>

lemma has_more_unread:
  assumes inv: "cl_inv cl" and ch: "cl_chained cl" and ok: "pos_ok cl (el, i)"
  shows "(case el of
      None \<Rightarrow> \<not> cl_IsEmpty cl
    | Some e \<Rightarrow> i < cn_size (cl_chunk cl e) \<or> cn_NextElement (cl_chunk cl e) \<noteq> None)
    \<longleftrightarrow> unread cl (el, i) \<noteq> []"
proof (cases el)
  case None
  then show ?thesis using cl_invD(2) [OF inv] by (simp add: cl_IsEmpty_def)
next
  case (Some e)
  then obtain pre post where s: "cl_list cl = pre @ e # post" and i: "i \<le> cn_size (cl_chunk cl e)"
    using ok by (auto simp: pos_ok_def dest: split_list)
  have e: "e \<in> set (cl_list cl)" using s by simp
  have lt: "cn_head (cl_chunk cl e) < cn_size (cl_chunk cl e)"
    using cl_invD(7) [OF inv e] by (metis length_cn_live length_greater_0_conv zero_less_diff)
  show ?thesis
  proof (cases "i < cn_size (cl_chunk cl e)")
    case True
    then show ?thesis using Some unread_split [OF inv s i] lt by auto
  next
    case False
    then have u: "unread cl (Some e, i) = concat (map (cl_live cl) post)"
      using unread_split [OF inv s i] lt i by simp
    show ?thesis
    proof (cases post)
      case Nil
      then show ?thesis
        using False Some u s ch linked_last [of "cl_chunk cl" pre e] by (simp add: cl_chained_def)
    next
      case (Cons x xs)
      then have "cl_live cl x \<noteq> []" using cl_invD(7) [OF inv, of x] s by simp
      then show ?thesis
        using False Some u s ch Cons linked_full [of "cl_chunk cl" pre e x xs]
        by (auto simp: cl_chained_def)
    qed
  qed
qed

text \<open>A round of a loop returns a result or goes on.\<close>

datatype ('r, 's) round = Return 'r 's | Continue 's

partial_function (option) run_rounds :: "('s \<Rightarrow> ('r, 's) round) \<Rightarrow> 's \<Rightarrow> ('r \<times> 's) option" where
  "run_rounds step s = (case step s of Return r s' \<Rightarrow> Some (r, s') | Continue s' \<Rightarrow> run_rounds step s')"

locale reader =
  fixes position_of :: "'s \<Rightarrow> position"
    and set_position :: "position \<Rightarrow> 's \<Rightarrow> 's"
    and deliver :: "queue_data \<Rightarrow> 's \<Rightarrow> 's"
    and step :: "chunked_list \<Rightarrow> 's \<Rightarrow> (queue_data option, 's) round"
  assumes get_set: "position_of (set_position p s) = p"
    and set_set: "set_position p (set_position p' s) = set_position p s"
    and set_get: "set_position (position_of s) s = s"
    and step_none: "position_of s = (None, i) \<Longrightarrow> step cl s = Return None s"
    and step_read: "position_of s = (Some e, i) \<Longrightarrow> \<not> cn_pooled (cl_chunk cl e) \<Longrightarrow>
      cn_Get i (cl_chunk cl e) = Some d \<Longrightarrow>
      step cl s = Return (Some d) (deliver d (set_position (Some e, Suc i) s))"
    and step_skip: "position_of s = (Some e, i) \<Longrightarrow> \<not> cn_pooled (cl_chunk cl e) \<Longrightarrow>
      i < cn_size (cl_chunk cl e) \<Longrightarrow> i < cn_head (cl_chunk cl e) \<Longrightarrow>
      \<exists>j. i < j \<and> j \<le> cn_head (cl_chunk cl e) \<and> step cl s = Continue (set_position (Some e, j) s)"
    and step_last: "position_of s = (Some e, i) \<Longrightarrow> \<not> cn_pooled (cl_chunk cl e) \<Longrightarrow>
      cn_size (cl_chunk cl e) \<le> i \<Longrightarrow> cn_NextElement (cl_chunk cl e) = None \<Longrightarrow> step cl s = Return None s"
    and step_next: "position_of s = (Some e, i) \<Longrightarrow> \<not> cn_pooled (cl_chunk cl e) \<Longrightarrow>
      cn_size (cl_chunk cl e) \<le> i \<Longrightarrow> cn_NextElement (cl_chunk cl e) = Some x \<Longrightarrow>
      step cl s = Continue (set_position (Some x, 0) s)"
    and step_pooled: "position_of s = (Some e, i) \<Longrightarrow> cn_pooled (cl_chunk cl e) \<Longrightarrow>
      step cl s = Return None (set_position (None, 0) s)"
begin

definition delivered :: "queue_data list \<Rightarrow> 's \<Rightarrow> queue_data option \<times> 's" where
  "delivered us s = (case us of [] \<Rightarrow> (None, s) | d # _ \<Rightarrow> (Some d, deliver d s))"

text \<open>
  In a sound, chained list the loop ends. With nothing unread it returns nil at a position with
  nothing unread; otherwise it returns the first unread item and the position behind it.
\<close>

lemma run_from:
  assumes inv: "cl_inv cl" and ch: "cl_chained cl"
    and "position_of s = (Some e, i)" and "pos_ok cl (Some e, i)" and "cl_list cl = pre @ e # post"
  shows "\<exists>p. pos_ok cl p \<and> unread cl p = tl (unread cl (Some e, i))
    \<and> run_rounds (step cl) s = Some (delivered (unread cl (Some e, i)) (set_position p s))"
  using assms(3-5)
proof (induction "length post * 2000 + (1000 - i)" arbitrary: s e i pre post rule: less_induct)
  case less
  note pos = less.prems(1) and ok = less.prems(2) and s = less.prems(3)
  have e: "e \<in> set (cl_list cl)" using s by simp
  note np = cl_invD(5) [OF inv e] and cn = cn_inv_le [OF cl_invD(4) [OF inv e]]
  let ?c = "cl_chunk cl e"
  have self: "set_position (Some e, i) s = s" using set_get [of s] pos by simp
  consider d where "cn_Get i ?c = Some d" | "i < cn_size ?c" "i < cn_head ?c"
    | "cn_size ?c \<le> i" "cn_NextElement ?c = None" | x where "cn_size ?c \<le> i" "cn_NextElement ?c = Some x"
    using unread_stuck [OF inv ok] by (cases "cn_NextElement ?c") (force simp: not_less)+
  then show ?case
  proof cases
    case (1 d)
    then show ?thesis
      using unread_read [OF inv ok 1] step_read [OF pos np 1]
      by (intro exI [of _ "(Some e, Suc i)"]) (simp add: run_rounds.simps [of _ s] delivered_def)
  next
    case 2
    then obtain j where j: "i < j" "j \<le> cn_head ?c" "step cl s = Continue (set_position (Some e, j) s)"
      using step_skip [OF pos np] by blast
    have m: "length post * 2000 + (1000 - j) < length post * 2000 + (1000 - i)"
      using j cn 2 by arith
    have okj: "pos_ok cl (Some e, j)" using ok j cn by (simp add: pos_ok_def)
    show ?thesis
      using less.hyps [OF m get_set okj s, of s] unread_skip(1) [of i j cl e] j
      by (simp add: run_rounds.simps [of _ s] set_set)
  next
    case 3
    then show ?thesis
      using unread_next(1) [OF inv ch ok 3] step_last [OF pos np 3] ok self
      by (intro exI [of _ "(Some e, i)"]) (simp add: run_rounds.simps [of _ s] delivered_def)
  next
    case (4 x)
    note N = unread_next(2-4) [OF inv ch ok 4]
    obtain pre' post' where "cl_list cl = pre' @ e # x # post'" using N(3) by blast
    then have p: "post = x # post'"
      using distinct_split_unique [of pre e post pre' "x # post'"] cl_invD(1) [OF inv] s by simp
    then have s': "cl_list cl = (pre @ [e]) @ x # post'" using s by simp
    have m: "length post' * 2000 + (1000 - 0) < length post * 2000 + (1000 - i)"
      using p by simp
    show ?thesis
      using less.hyps [OF m get_set N(2) s', of s] N(1) step_next [OF pos np 4]
      by (simp add: run_rounds.simps [of _ s] set_set)
  qed
qed

text \<open>The same for the whole operation, which starts at the first element when there is no position.\<close>

definition read_from :: "chunked_list \<Rightarrow> 's \<Rightarrow> (queue_data option \<times> 's) option" where
  "read_from cl s =
     (if fst (position_of s) = None then
        case cl_GetFirstElement cl of
          None \<Rightarrow> Some (None, s)
        | Some firstElement \<Rightarrow> run_rounds (step cl) (set_position (Some firstElement, 0) s)
      else run_rounds (step cl) s)"

lemma read_from_unread:
  assumes inv: "cl_inv cl" and ch: "cl_chained cl" and ok: "pos_ok cl (position_of s)"
  shows "\<exists>p. pos_ok cl p \<and> unread cl p = tl (unread cl (position_of s))
    \<and> read_from cl s = Some (delivered (unread cl (position_of s)) (set_position p s))"
proof (cases "position_of s")
  case (Pair el i)
  show ?thesis
  proof (cases el)
    case (Some e)
    then obtain pre post where "cl_list cl = pre @ e # post"
      using ok Pair by (auto simp: pos_ok_def dest: split_list)
    moreover have "read_from cl s = run_rounds (step cl) s"
      using Pair Some by (simp add: read_from_def)
    ultimately show ?thesis
      using run_from [OF inv ch, of s e i pre post] ok Pair Some by simp
  next
    case None
    show ?thesis
    proof (cases "cl_GetFirstElement cl")
      case N: None
      then have "cl_items cl = []" by (auto simp: cl_GetFirstElement_def cl_items_def split: list.splits)
      then show ?thesis
        using Pair None N set_get [of s]
        by (intro exI [of _ "(None, i)"]) (simp add: read_from_def delivered_def)
    next
      case S: (Some e)
      then obtain post where s: "cl_list cl = [] @ e # post"
        by (auto simp: cl_GetFirstElement_def split: list.splits)
      note F = unread_first [OF inv S]
      have "read_from cl s = run_rounds (step cl) (set_position (Some e, 0) s)"
        using Pair None S by (simp add: read_from_def)
      then show ?thesis
        using run_from [OF inv ch get_set F(2) s, of s] F(1) Pair None by (simp add: set_set)
    qed
  qed
qed

end

end
