(* ===== verification/MQ_Group.thy ===== *)
theory MQ_Group
  imports MQ_Reader
begin

text \<open>
  Consumer groups (\<^verbatim>\<open>queue/consumer_group.go\<close>): one shared position per group. Each method is
  modelled as it runs alone, holding what its mutexes protect; what the code looks up again under
  the lock (the position read before) is looked up again here. The queue reaches a method through
  what it reads of it: its \<open>closed\<close> flag and its list.
\<close>

record consumer_group =
  cg_name :: string
  cg_chunkElement :: "elem option"
  cg_indexInChunk :: nat
  cg_notificationCh :: "nat chan"
  cg_closed :: bool

definition NewConsumerGroup :: "string \<Rightarrow> consumer_group" where
  "NewConsumerGroup name =
     \<lparr>cg_name = name, cg_chunkElement = None, cg_indexInChunk = 0,
      cg_notificationCh = make_chan 100, cg_closed = False\<rparr>"

definition cg_getPosition :: "consumer_group \<Rightarrow> position" where
  "cg_getPosition cg = (cg_chunkElement cg, cg_indexInChunk cg)"

text \<open>\<^verbatim>\<open>NotifyExpiredItems\<close>; \<open>None\<close> is the panic of a send on a closed channel.\<close>

definition cg_NotifyExpiredItems :: "nat \<Rightarrow> consumer_group \<Rightarrow> consumer_group option" where
  "cg_NotifyExpiredItems cnt cg =
     (if cg_closed cg then Some cg
      else map_option (\<lambda>ch. cg\<lparr>cg_notificationCh := ch\<rparr>) (chan_try_send cnt (cg_notificationCh cg)))"

text \<open>One round of the loop of \<^verbatim>\<open>TryRead\<close>.\<close>

definition cg_round :: "chunked_list \<Rightarrow> consumer_group \<Rightarrow> (queue_data option, consumer_group) round" where
  "cg_round cl cg =
     (let currentElement = cg_chunkElement cg;
          currentIndex = cg_indexInChunk cg
      in case currentElement of
           None \<Rightarrow> Return None cg
         | Some e \<Rightarrow>
             let chunk = cl_chunk cl e
             in if cn_pooled chunk then
                  Return None (if cg_chunkElement cg = currentElement
                               then cg\<lparr>cg_chunkElement := None, cg_indexInChunk := 0\<rparr> else cg)
                else if currentIndex < cn_size chunk then
                  (case cn_Get currentIndex chunk of
                     Some data \<Rightarrow>
                       if cg_chunkElement cg = currentElement \<and> cg_indexInChunk cg = currentIndex
                       then Return (Some data) (cg\<lparr>cg_indexInChunk := cg_indexInChunk cg + 1\<rparr>)
                       else Continue cg
                   | None \<Rightarrow>
                       if currentIndex < cn_head chunk then
                         Continue (if cg_chunkElement cg = currentElement \<and> cg_indexInChunk cg = currentIndex
                                   then cg\<lparr>cg_indexInChunk := cg_indexInChunk cg + 1\<rparr> else cg)
                       else Return None cg)
                else
                  let nextElement = cn_NextElement chunk;
                      cg = (if cg_chunkElement cg = currentElement \<and> cg_indexInChunk cg = currentIndex
                               \<and> nextElement \<noteq> None
                            then cg\<lparr>cg_chunkElement := nextElement, cg_indexInChunk := 0\<rparr> else cg)
                  in if nextElement = None then Return None cg else Continue cg)"

definition cg_TryRead ::
  "bool \<Rightarrow> chunked_list \<Rightarrow> consumer_group \<Rightarrow> (queue_data option \<times> consumer_group) option" where
  "cg_TryRead queue_closed cl cg =
     (if queue_closed \<or> cg_closed cg then Some (None, cg)
      else if cg_chunkElement cg = None then
        (case cl_GetFirstElement cl of
           None \<Rightarrow> Some (None, cg)
         | Some firstElement \<Rightarrow>
             let cg = (if cg_chunkElement cg = None
                       then cg\<lparr>cg_chunkElement := Some firstElement, cg_indexInChunk := 0\<rparr> else cg)
             in run_rounds (cg_round cl) cg)
      else run_rounds (cg_round cl) cg)"

definition cg_UpdatePositionAfterExpiration ::
  "nat \<Rightarrow> elem option \<Rightarrow> chunk_removal_info list \<Rightarrow> (elem \<Rightarrow> chunk_node) \<Rightarrow> consumer_group
    \<Rightarrow> consumer_group" where
  "cg_UpdatePositionAfterExpiration expiredCount newFirstElement removalInfo chunks cg =
     (if cg_closed cg \<or> cg_chunkElement cg = None \<or> expiredCount = 0 then cg
      else
        let (el, i) = update_position newFirstElement removalInfo chunks
                        (cg_chunkElement cg, cg_indexInChunk cg)
        in cg\<lparr>cg_chunkElement := el, cg_indexInChunk := i\<rparr>)"

definition cg_TryReadWhere ::
  "(queue_data \<Rightarrow> bool) \<Rightarrow> consumer_group \<Rightarrow> queue_data option \<times> go_error option" where
  "cg_TryReadWhere predicate cg = (None, Some FilterNotSupportedError)"

definition cg_HasMoreData :: "bool \<Rightarrow> chunked_list \<Rightarrow> consumer_group \<Rightarrow> bool" where
  "cg_HasMoreData queue_closed cl cg =
     (if queue_closed \<or> cg_closed cg then False
      else case cg_chunkElement cg of
             None \<Rightarrow> \<not> cl_IsEmpty cl
           | Some e \<Rightarrow>
               let chunk = cl_chunk cl e
               in if cg_indexInChunk cg < cn_size chunk then True else cn_NextElement chunk \<noteq> None)"

definition cg_Close :: "consumer_group \<Rightarrow> consumer_group option" where
  "cg_Close cg =
     (if cg_closed cg then Some cg
      else let cg = cg\<lparr>cg_closed := True\<rparr>
           in map_option (\<lambda>ch. cg\<lparr>cg_notificationCh := ch\<rparr>) (chan_close (cg_notificationCh cg)))"

text \<open>\<^verbatim>\<open>GetUnreadCount\<close>; \<open>None\<close> would be an iteration that does not end.\<close>

definition cg_GetUnreadCount :: "bool \<Rightarrow> chunked_list \<Rightarrow> consumer_group \<Rightarrow> int option" where
  "cg_GetUnreadCount queue_closed cl cg =
     (if queue_closed \<or> cg_closed cg then Some 0
      else if cg_chunkElement cg = None then Some (cl_totalItems cl)
      else cl_CountItemsFrom (cg_chunkElement cg) (cg_indexInChunk cg) cl)"

section \<open>The position of a group\<close>

definition cg_set_position :: "position \<Rightarrow> consumer_group \<Rightarrow> consumer_group" where
  "cg_set_position p cg = cg\<lparr>cg_chunkElement := fst p, cg_indexInChunk := snd p\<rparr>"

interpretation gr: reader cg_getPosition cg_set_position "\<lambda>d. id" cg_round
proof
  show "cg_getPosition (cg_set_position p s) = p" for p s
    by (simp add: cg_getPosition_def cg_set_position_def)
  show "cg_set_position p (cg_set_position p' s) = cg_set_position p s" for p p' s
    by (simp add: cg_set_position_def)
  show "cg_set_position (cg_getPosition s) s = s" for s
    by (simp add: cg_getPosition_def cg_set_position_def)
next
  fix cl :: chunked_list and s :: consumer_group and e :: elem and i :: nat and d x
  assume pos: "cg_getPosition s = (Some e, i)"
  note simps = cg_round_def cg_getPosition_def cg_set_position_def Let_def
  have p: "cg_chunkElement s = Some e" "cg_indexInChunk s = i" using pos by (simp_all add: cg_getPosition_def)
  let ?c = "cl_chunk cl e"
  {
    assume "cn_pooled ?c"
    then show "cg_round cl s = Return None (cg_set_position (None, 0) s)" using p by (simp add: simps)
  }
  assume np: "\<not> cn_pooled ?c"
  {
    assume g: "cn_Get i ?c = Some d"
    then have "i < cn_size ?c" by (simp add: cn_Get_def split: if_splits)
    with g show "cg_round cl s = Return (Some d) (id (cg_set_position (Some e, Suc i) s))"
      using p np by (simp add: simps)
  next
    assume l: "i < cn_size ?c" "i < cn_head ?c"
    then have "cn_Get i ?c = None" by (simp add: cn_Get_def)
    with l have "cg_round cl s = Continue (cg_set_position (Some e, Suc i) s)" using p np by (simp add: simps)
    then show "\<exists>j>i. j \<le> cn_head ?c \<and> cg_round cl s = Continue (cg_set_position (Some e, j) s)"
      using l by (intro exI [of _ "Suc i"]) simp
  next
    assume "cn_size ?c \<le> i" "cn_NextElement ?c = None"
    then show "cg_round cl s = Return None s" using p np by (simp add: simps)
  next
    assume "cn_size ?c \<le> i" "cn_NextElement ?c = Some x"
    then show "cg_round cl s = Continue (cg_set_position (Some x, 0) s)" using p np by (simp add: simps)
  }
next
  show "cg_getPosition s = (None, i) \<Longrightarrow> cg_round cl s = Return None s" for s i cl
    by (simp add: cg_round_def cg_getPosition_def Let_def)
qed

lemma cg_set_position_frame [simp]:
  "cg_name (cg_set_position p cg) = cg_name cg" "cg_closed (cg_set_position p cg) = cg_closed cg"
  "cg_notificationCh (cg_set_position p cg) = cg_notificationCh cg"
  "cg_getPosition (cg_set_position p cg) = p"
  by (simp_all add: cg_set_position_def cg_getPosition_def)

text \<open>
  \<^verbatim>\<open>TryRead\<close> of an open group in an open queue ends, returns the first unread item of the shared
  position, if there is one, and moves the position behind it.
\<close>

lemma cg_TryRead_unread:
  assumes "cl_inv cl" "cl_chained cl" "pos_ok cl (cg_getPosition cg)" "\<not> cg_closed cg"
  obtains p where "pos_ok cl p" "unread cl p = tl (unread cl (cg_getPosition cg))"
    "cg_TryRead False cl cg
       = Some (if unread cl (cg_getPosition cg) = [] then None else Some (hd (unread cl (cg_getPosition cg))),
               cg_set_position p cg)"
proof -
  have "cg_TryRead False cl cg = gr.read_from cl cg"
    using assms(4)
    by (simp add: cg_TryRead_def gr.read_from_def cg_getPosition_def cg_set_position_def split: option.split)
  then show ?thesis
    using gr.read_from_unread [OF assms(1-3)] that
    by (cases "unread cl (cg_getPosition cg)") (auto simp: gr.delivered_def)
qed

lemma cg_TryRead_closed: "queue_closed \<or> cg_closed cg \<Longrightarrow> cg_TryRead queue_closed cl cg = Some (None, cg)"
  by (auto simp: cg_TryRead_def)

lemma cg_HasMoreData_unread:
  assumes "cl_inv cl" "cl_chained cl" "pos_ok cl (cg_getPosition cg)" "\<not> cg_closed cg"
  shows "cg_HasMoreData False cl cg \<longleftrightarrow> unread cl (cg_getPosition cg) \<noteq> []"
  using has_more_unread [OF assms(1,2) assms(3) [unfolded cg_getPosition_def]] assms(4)
  by (cases "cg_chunkElement cg") (auto simp: cg_HasMoreData_def cg_getPosition_def Let_def)

lemma cg_GetUnreadCount_unread:
  assumes "cl_inv cl" "cl_chained cl" "pos_ok cl (cg_getPosition cg)" "\<not> cg_closed cg"
  shows "cg_GetUnreadCount False cl cg = Some (int (length (unread cl (cg_getPosition cg))))"
  using assms cl_CountItemsFrom_unread [OF assms(1,2)] cl_invD(2) [OF assms(1)]
  by (cases "cg_chunkElement cg") (simp_all add: cg_GetUnreadCount_def cg_getPosition_def)

lemma cg_UpdatePosition_moved:
  "\<not> cg_closed cg \<Longrightarrow>
    cg_UpdatePositionAfterExpiration n newFirst infos chunks cg
      = cg_set_position (moved_position n newFirst infos chunks (cg_getPosition cg)) cg"
  by (simp add: cg_UpdatePositionAfterExpiration_def moved_position_def cg_set_position_def
      cg_getPosition_def split: prod.split)

text \<open>A group closes its channel exactly once; no operation sends on it afterwards.\<close>

definition cg_wf :: "consumer_group \<Rightarrow> bool" where
  "cg_wf cg \<longleftrightarrow> (ch_closed (cg_notificationCh cg) \<longleftrightarrow> cg_closed cg)
     \<and> length (ch_buf (cg_notificationCh cg)) \<le> ch_cap (cg_notificationCh cg)"

lemma NewConsumerGroup_wf [simp]: "cg_wf (NewConsumerGroup name)"
  by (simp add: cg_wf_def NewConsumerGroup_def)

lemma cg_set_position_wf [simp]: "cg_wf (cg_set_position p cg) = cg_wf cg"
  by (simp add: cg_wf_def)

lemma cg_NotifyExpiredItems_wf:
  assumes "cg_wf cg"
  obtains cg' where "cg_NotifyExpiredItems n cg = Some cg'" "cg_wf cg'"
    "cg_getPosition cg' = cg_getPosition cg" "cg_closed cg' = cg_closed cg" "cg_name cg' = cg_name cg"
    "ch_buf (cg_notificationCh cg') = ch_buf (cg_notificationCh cg) @
       (if \<not> cg_closed cg \<and> length (ch_buf (cg_notificationCh cg)) < ch_cap (cg_notificationCh cg)
        then [n] else [])"
proof (cases "cg_closed cg \<or> \<not> length (ch_buf (cg_notificationCh cg)) < ch_cap (cg_notificationCh cg)")
  case True
  show ?thesis
    by (rule that [of cg])
      (use assms True in \<open>auto simp: cg_NotifyExpiredItems_def chan_try_send_def cg_wf_def\<close>)
next
  case False
  let ?cg = "cg\<lparr>cg_notificationCh := (cg_notificationCh cg)\<lparr>ch_buf := ch_buf (cg_notificationCh cg) @ [n]\<rparr>\<rparr>"
  show ?thesis
    by (rule that [of ?cg])
      (use assms False in \<open>simp_all add: cg_NotifyExpiredItems_def chan_try_send_def cg_wf_def cg_getPosition_def\<close>)
qed

lemma cg_Close_wf:
  assumes "cg_wf cg"
  obtains cg' where "cg_Close cg = Some cg'" "cg_wf cg'" "cg_closed cg'" "cg_name cg' = cg_name cg"
    "cg_getPosition cg' = cg_getPosition cg"
proof (cases "cg_closed cg")
  case True
  show ?thesis by (rule that [of cg]) (use assms True in \<open>simp_all add: cg_Close_def\<close>)
next
  case False
  let ?cg = "cg\<lparr>cg_closed := True, cg_notificationCh := (cg_notificationCh cg)\<lparr>ch_closed := True\<rparr>\<rparr>"
  show ?thesis
    by (rule that [of ?cg])
      (use assms False in \<open>simp_all add: cg_Close_def chan_close_def cg_wf_def cg_getPosition_def Let_def\<close>)
qed

end
