(* ===== verification/MQ_Consumer.thy ===== *)
theory MQ_Consumer
  imports MQ_Group
begin

text \<open>
  Consumers (the first part of \<^verbatim>\<open>queue/consumer.go\<close>). A consumer of a group names it by its address
  in the store of groups, which the methods get and return. Each method is modelled as it runs
  alone; a successful read takes two clock readings, \<open>clk k\<close> for the history and \<open>clk (k + 1)\<close>
  for \<^verbatim>\<open>lastReadTime\<close>.
\<close>

type_synonym gptr = nat

record dequeue_record =
  dr_DataID :: "64 word"
  dr_Timestamp :: time

record consumer =
  c_id :: string
  c_chunkElement :: "elem option"
  c_indexInChunk :: nat
  c_notificationCh :: "nat chan"
  c_totalItemsRead :: int
  c_lastReadTime :: time
  c_dequeueHistory :: "dequeue_record list"
  c_maxHistory :: nat
  c_closed :: bool
  c_group :: "gptr option"

text \<open>\<^verbatim>\<open>NewConsumer\<close>: the fresh identifier \<open>uuid\<close> and the time \<open>now\<close> are given.\<close>

definition DefaultMaxConsumerHistory :: nat where
  "DefaultMaxConsumerHistory = 1000"

definition NewConsumer :: "string \<Rightarrow> nat option \<Rightarrow> time \<Rightarrow> consumer" where
  "NewConsumer uuid queue_maxConsumerHistory now =
     \<lparr>c_id = uuid, c_chunkElement = None, c_indexInChunk = 0, c_notificationCh = make_chan 100,
      c_totalItemsRead = 0, c_lastReadTime = now, c_dequeueHistory = [],
      c_maxHistory = (case queue_maxConsumerHistory of None \<Rightarrow> DefaultMaxConsumerHistory | Some m \<Rightarrow> m),
      c_closed = False, c_group = None\<rparr>"

definition addToHistoryUnsafe :: "64 word \<Rightarrow> time \<Rightarrow> consumer \<Rightarrow> consumer" where
  "addToHistoryUnsafe dataID now c =
     (let history = c_dequeueHistory c @ [\<lparr>dr_DataID = dataID, dr_Timestamp = now\<rparr>]
      in if length history > c_maxHistory c then
           let excess = length history - c_maxHistory c
           in c\<lparr>c_dequeueHistory := drop excess history\<rparr>
         else c\<lparr>c_dequeueHistory := history\<rparr>)"

definition c_GetPosition :: "(gptr \<Rightarrow> consumer_group) \<Rightarrow> consumer \<Rightarrow> position" where
  "c_GetPosition groups c =
     (case c_group c of
        Some g \<Rightarrow> cg_getPosition (groups g)
      | None \<Rightarrow> (c_chunkElement c, c_indexInChunk c))"

definition c_SetPosition :: "elem option \<Rightarrow> nat \<Rightarrow> consumer \<Rightarrow> consumer" where
  "c_SetPosition element index c = c\<lparr>c_chunkElement := element, c_indexInChunk := index\<rparr>"

section \<open>Reading\<close>

text \<open>What a successful read records.\<close>

definition c_record :: "time \<Rightarrow> time \<Rightarrow> queue_data \<Rightarrow> consumer \<Rightarrow> consumer" where
  "c_record now1 now2 data c =
     (let c = addToHistoryUnsafe (qd_ID data) now1 c
      in c\<lparr>c_lastReadTime := now2, c_totalItemsRead := c_totalItemsRead c + 1\<rparr>)"

text \<open>One round of the loop of \<^verbatim>\<open>TryRead\<close> of a consumer without group.\<close>

definition c_round ::
  "time \<Rightarrow> time \<Rightarrow> chunked_list \<Rightarrow> consumer \<Rightarrow> (queue_data option, consumer) round" where
  "c_round now1 now2 cl c =
     (let currentElement = c_chunkElement c;
          currentIndex = c_indexInChunk c
      in case currentElement of
           None \<Rightarrow> Return None c
         | Some e \<Rightarrow>
             let chunk = cl_chunk cl e
             in if cn_pooled chunk then
                  Return None (if c_chunkElement c = currentElement
                               then c\<lparr>c_chunkElement := None, c_indexInChunk := 0\<rparr> else c)
                else if currentIndex < cn_size chunk then
                  (case cn_Get currentIndex chunk of
                     Some data \<Rightarrow>
                       if c_chunkElement c = currentElement \<and> c_indexInChunk c = currentIndex
                       then Return (Some data)
                              (c_record now1 now2 data (c\<lparr>c_indexInChunk := c_indexInChunk c + 1\<rparr>))
                       else Continue c
                   | None \<Rightarrow>
                       let head = cn_head chunk
                       in if currentIndex < head then
                            Continue (if c_chunkElement c = currentElement \<and> c_indexInChunk c = currentIndex
                                      then c\<lparr>c_indexInChunk := head\<rparr> else c)
                          else Return None c)
                else
                  let nextElement = cn_NextElement chunk;
                      c = (if c_chunkElement c = currentElement \<and> c_indexInChunk c = currentIndex
                              \<and> nextElement \<noteq> None
                           then c\<lparr>c_chunkElement := nextElement, c_indexInChunk := 0\<rparr> else c)
                  in if nextElement = None then Return None c else Continue c)"

text \<open>The part of \<^verbatim>\<open>TryRead\<close> for a consumer without group.\<close>

definition c_TryReadOwn ::
  "time \<Rightarrow> time \<Rightarrow> chunked_list \<Rightarrow> consumer \<Rightarrow> (queue_data option \<times> consumer) option" where
  "c_TryReadOwn now1 now2 cl c =
     (if c_chunkElement c = None then
        (case cl_GetFirstElement cl of
           None \<Rightarrow> Some (None, c)
         | Some firstElement \<Rightarrow>
             run_rounds (c_round now1 now2 cl)
               (c\<lparr>c_chunkElement := Some firstElement, c_indexInChunk := 0\<rparr>))
      else run_rounds (c_round now1 now2 cl) c)"

text \<open>\<^verbatim>\<open>TryRead\<close>: the item, the consumer and the groups afterwards.\<close>

type_synonym reading = "consumer \<times> (gptr \<Rightarrow> consumer_group)"

definition c_TryRead ::
  "clock \<Rightarrow> nat \<Rightarrow> bool \<Rightarrow> chunked_list \<Rightarrow> reading \<Rightarrow> (queue_data option \<times> reading) option" where
  "c_TryRead clk k queue_closed cl cgs =
     (let (c, groups) = cgs
      in if c_closed c then Some (None, c, groups)
         else case c_group c of
           Some g \<Rightarrow>
             (case cg_TryRead queue_closed cl (groups g) of
                None \<Rightarrow> None
              | Some (data, cg) \<Rightarrow>
                  Some (data,
                        (case data of
                           None \<Rightarrow> c
                         | Some d \<Rightarrow> c_record (clk k) (clk (k + 1)) d c),
                        groups(g := cg)))
         | None \<Rightarrow>
             map_option (\<lambda>(data, c). (data, c, groups)) (c_TryReadOwn (clk k) (clk (k + 1)) cl c))"

text \<open>The loop of the batch reads, until \<open>n\<close> more items are there or nothing is left.\<close>

fun c_read_more ::
  "clock \<Rightarrow> nat \<Rightarrow> bool \<Rightarrow> chunked_list \<Rightarrow> nat \<Rightarrow> queue_data list \<Rightarrow> reading
    \<Rightarrow> (queue_data list \<times> reading) option" where
  "c_read_more clk k queue_closed cl 0 batch cgs = Some (batch, cgs)"
| "c_read_more clk k queue_closed cl (Suc n) batch cgs =
     (case c_TryRead clk k queue_closed cl cgs of
        None \<Rightarrow> None
      | Some (None, cgs) \<Rightarrow> Some (batch, cgs)
      | Some (Some data, cgs) \<Rightarrow> c_read_more clk (k + 2) queue_closed cl n (batch @ [data]) cgs)"

definition c_TryReadBatch ::
  "clock \<Rightarrow> nat \<Rightarrow> bool \<Rightarrow> chunked_list \<Rightarrow> int \<Rightarrow> reading \<Rightarrow> (queue_data list \<times> reading) option" where
  "c_TryReadBatch clk k queue_closed cl limit cgs =
     (if limit \<le> 0 then Some ([], cgs)
      else c_read_more clk k queue_closed cl (nat limit) [] cgs)"

text \<open>\<^verbatim>\<open>TryReadWhere\<close>; a nil predicate is \<open>None\<close>. The loop reads until the predicate holds.\<close>

partial_function (option) c_read_until ::
  "(queue_data \<Rightarrow> bool) \<Rightarrow> clock \<Rightarrow> nat \<Rightarrow> bool \<Rightarrow> chunked_list \<Rightarrow> reading
    \<Rightarrow> (queue_data option \<times> reading) option" where
  "c_read_until predicate clk k queue_closed cl cgs =
     (case c_TryRead clk k queue_closed cl cgs of
        None \<Rightarrow> None
      | Some r \<Rightarrow>
          (case fst r of
             None \<Rightarrow> Some (None, snd r)
           | Some data \<Rightarrow>
               if predicate data then Some (Some data, snd r)
               else c_read_until predicate clk (k + 2) queue_closed cl (snd r)))"

definition c_TryReadWhere ::
  "(queue_data \<Rightarrow> bool) option \<Rightarrow> clock \<Rightarrow> nat \<Rightarrow> bool \<Rightarrow> chunked_list \<Rightarrow> reading
    \<Rightarrow> ((queue_data option \<times> go_error option) \<times> reading) option" where
  "c_TryReadWhere predicate clk k queue_closed cl cgs =
     (if c_group (fst cgs) \<noteq> None then Some ((None, Some FilterNotSupportedError), cgs)
      else case predicate of
             None \<Rightarrow> Some ((None, None), cgs)
           | Some p \<Rightarrow>
               map_option (\<lambda>(data, cgs). ((data, None), cgs)) (c_read_until p clk k queue_closed cl cgs))"

section \<open>Looking ahead\<close>

definition c_HasMoreData :: "bool \<Rightarrow> chunked_list \<Rightarrow> reading \<Rightarrow> bool" where
  "c_HasMoreData queue_closed cl cgs =
     (let (c, groups) = cgs
      in if c_closed c then False
         else case c_group c of
           Some g \<Rightarrow> cg_HasMoreData queue_closed cl (groups g)
         | None \<Rightarrow>
             (case c_chunkElement c of
                None \<Rightarrow> \<not> cl_IsEmpty cl
              | Some e \<Rightarrow>
                  let chunk = cl_chunk cl e
                  in if c_indexInChunk c < cn_size chunk then True else cn_NextElement chunk \<noteq> None))"

definition c_GetUnreadCount :: "bool \<Rightarrow> chunked_list \<Rightarrow> reading \<Rightarrow> int option" where
  "c_GetUnreadCount queue_closed cl cgs =
     (let (c, groups) = cgs
      in if c_closed c then Some 0
         else case c_group c of
           Some g \<Rightarrow> cg_GetUnreadCount queue_closed cl (groups g)
         | None \<Rightarrow>
             if c_chunkElement c = None then Some (cl_totalItems cl)
             else cl_CountItemsFrom (c_chunkElement c) (c_indexInChunk c) cl)"

record consumer_stats =
  cs_ID :: string
  cs_TotalItemsRead :: int
  cs_UnreadItems :: int
  cs_LastReadTime :: time

definition c_GetStats :: "bool \<Rightarrow> chunked_list \<Rightarrow> reading \<Rightarrow> consumer_stats option" where
  "c_GetStats queue_closed cl cgs =
     (let (c, groups) = cgs;
          unreadCount =
            (case c_group c of
               Some g \<Rightarrow> cg_GetUnreadCount queue_closed cl (groups g)
             | None \<Rightarrow>
                 if c_chunkElement c = None then Some (cl_totalItems cl)
                 else cl_CountItemsFrom (c_chunkElement c) (c_indexInChunk c) cl)
      in map_option (\<lambda>n. \<lparr>cs_ID = c_id c, cs_TotalItemsRead = c_totalItemsRead c,
                          cs_UnreadItems = n, cs_LastReadTime = c_lastReadTime c\<rparr>) unreadCount)"

section \<open>Expiration and closing\<close>

definition c_NotifyExpiredItems :: "nat \<Rightarrow> consumer \<Rightarrow> consumer option" where
  "c_NotifyExpiredItems cnt c =
     (if c_closed c then Some c
      else map_option (\<lambda>ch. c\<lparr>c_notificationCh := ch\<rparr>) (chan_try_send cnt (c_notificationCh c)))"

definition c_UpdatePositionAfterExpiration ::
  "nat \<Rightarrow> elem option \<Rightarrow> chunk_removal_info list \<Rightarrow> (elem \<Rightarrow> chunk_node) \<Rightarrow> consumer \<Rightarrow> consumer" where
  "c_UpdatePositionAfterExpiration expiredCount newFirstElement removalInfo chunks c =
     (if c_group c \<noteq> None then c
      else if c_chunkElement c = None \<or> expiredCount = 0 then c
      else
        let (el, i) = update_position newFirstElement removalInfo chunks
                        (c_chunkElement c, c_indexInChunk c)
        in c\<lparr>c_chunkElement := el, c_indexInChunk := i\<rparr>)"

definition c_Close :: "consumer \<Rightarrow> consumer option" where
  "c_Close c =
     (if c_closed c then Some c
      else let c = c\<lparr>c_closed := True\<rparr>
           in map_option (\<lambda>ch. c\<lparr>c_notificationCh := ch\<rparr>) (chan_close (c_notificationCh c)))"

section \<open>The position of a consumer\<close>

definition c_position :: "consumer \<Rightarrow> position" where
  "c_position c = (c_chunkElement c, c_indexInChunk c)"

definition c_set_position :: "position \<Rightarrow> consumer \<Rightarrow> consumer" where
  "c_set_position p c = c\<lparr>c_chunkElement := fst p, c_indexInChunk := snd p\<rparr>"

interpretation cr: reader c_position c_set_position "c_record now1 now2" "c_round now1 now2"
  for now1 now2
proof
  show "c_position (c_set_position p s) = p" for p s
    by (simp add: c_position_def c_set_position_def)
  show "c_set_position p (c_set_position p' s) = c_set_position p s" for p p' s
    by (simp add: c_set_position_def)
  show "c_set_position (c_position s) s = s" for s
    by (simp add: c_position_def c_set_position_def)
  show "c_position s = (None, i) \<Longrightarrow> c_round now1 now2 cl s = Return None s" for s i cl
    by (simp add: c_round_def c_position_def Let_def)
next
  fix cl :: chunked_list and s :: consumer and e :: elem and i :: nat and d x
  assume pos: "c_position s = (Some e, i)"
  note simps = c_round_def c_position_def c_set_position_def Let_def
  have p: "c_chunkElement s = Some e" "c_indexInChunk s = i" using pos by (simp_all add: c_position_def)
  let ?c = "cl_chunk cl e" and ?r = "c_round now1 now2 cl s"
  {
    assume "cn_pooled ?c"
    then show "?r = Return None (c_set_position (None, 0) s)" using p by (simp add: simps)
  }
  assume np: "\<not> cn_pooled ?c"
  {
    assume g: "cn_Get i ?c = Some d"
    then have "i < cn_size ?c" by (simp add: cn_Get_def split: if_splits)
    then show "?r = Return (Some d) (c_record now1 now2 d (c_set_position (Some e, Suc i) s))"
      using p np g by (cases s) (simp add: simps)
  next
    assume l: "i < cn_size ?c" "i < cn_head ?c"
    then have "cn_Get i ?c = None" by (simp add: cn_Get_def)
    then have "?r = Continue (c_set_position (Some e, cn_head ?c) s)"
      using p np l by (cases s) (simp add: simps)
    then show "\<exists>j>i. j \<le> cn_head ?c \<and> ?r = Continue (c_set_position (Some e, j) s)"
      using l by blast
  next
    assume "cn_size ?c \<le> i" "cn_NextElement ?c = None"
    then show "?r = Return None s" using p np by (simp add: simps)
  next
    assume "cn_size ?c \<le> i" "cn_NextElement ?c = Some x"
    then show "?r = Continue (c_set_position (Some x, 0) s)" using p np by (simp add: simps)
  }
qed

section \<open>What reading does\<close>

text \<open>The history keeps the last entries.\<close>

definition keep_last :: "nat \<Rightarrow> 'a list \<Rightarrow> 'a list" where
  "keep_last m xs = drop (length xs - m) xs"

lemma keep_last_short [simp]: "length xs \<le> m \<Longrightarrow> keep_last m xs = xs"
  by (simp add: keep_last_def)

lemma length_keep_last [simp]: "length (keep_last m xs) = min m (length xs)"
  by (auto simp: keep_last_def)

lemma keep_last_append: "keep_last m (keep_last m xs @ ys) = keep_last m (xs @ ys)"
proof (cases "length xs \<le> m")
  case False
  then have "length xs + length ys - m = (length xs - m) + length ys" by simp
  then show ?thesis using False by (simp add: keep_last_def add.commute)
qed simp

lemma map_keep_last: "map f (keep_last m xs) = keep_last m (map f xs)"
  by (simp add: keep_last_def drop_map)

lemma addToHistoryUnsafe_keep:
  "addToHistoryUnsafe d now c
    = c\<lparr>c_dequeueHistory := keep_last (c_maxHistory c) (c_dequeueHistory c @ [\<lparr>dr_DataID = d, dr_Timestamp = now\<rparr>])\<rparr>"
  by (auto simp: addToHistoryUnsafe_def keep_last_def Let_def)

text \<open>
  A reader in order: neither the consumer nor its group is closed, the position is one of the
  list, and the history is within its bound. What has happened when it has read \<open>ds\<close>.
\<close>

definition reader_ok :: "chunked_list \<Rightarrow> reading \<Rightarrow> bool" where
  "reader_ok cl cgs \<longleftrightarrow>
     (let (c, groups) = cgs
      in \<not> c_closed c \<and> length (c_dequeueHistory c) \<le> c_maxHistory c
         \<and> pos_ok cl (c_GetPosition groups c)
         \<and> (\<forall>g. c_group c = Some g \<longrightarrow> \<not> cg_closed (groups g)))"

definition left_to_read :: "chunked_list \<Rightarrow> reading \<Rightarrow> queue_data list" where
  "left_to_read cl cgs = unread cl (c_GetPosition (snd cgs) (fst cgs))"

definition has_read :: "queue_data list \<Rightarrow> reading \<Rightarrow> reading \<Rightarrow> bool" where
  "has_read ds cgs cgs' \<longleftrightarrow>
     (let (c, groups) = cgs; (c', groups') = cgs'
      in c_id c' = c_id c \<and> c_closed c' = c_closed c \<and> c_group c' = c_group c
         \<and> c_maxHistory c' = c_maxHistory c \<and> c_notificationCh c' = c_notificationCh c
         \<and> c_totalItemsRead c' = c_totalItemsRead c + int (length ds)
         \<and> map dr_DataID (c_dequeueHistory c')
             = keep_last (c_maxHistory c) (map dr_DataID (c_dequeueHistory c) @ map qd_ID ds)
         \<and> (ds = [] \<longrightarrow> c_lastReadTime c' = c_lastReadTime c)
         \<and> (\<forall>g. cg_name (groups' g) = cg_name (groups g) \<and> cg_closed (groups' g) = cg_closed (groups g)
               \<and> cg_notificationCh (groups' g) = cg_notificationCh (groups g)
               \<and> (c_group c \<noteq> Some g \<longrightarrow> groups' g = groups g)))"

lemma has_read_trans:
  "has_read ds cgs cgs' \<Longrightarrow> has_read ds' cgs' cgs'' \<Longrightarrow> has_read (ds @ ds') cgs cgs''"
  by (cases cgs; cases cgs'; cases cgs'')
    (auto simp: has_read_def keep_last_append keep_last_append [of _ _ "map qd_ID ds'"] append_assoc [symmetric]
      simp del: append_assoc)

lemma c_record_simps [simp]:
  "c_id (c_record n1 n2 d c) = c_id c" "c_closed (c_record n1 n2 d c) = c_closed c"
  "c_group (c_record n1 n2 d c) = c_group c" "c_maxHistory (c_record n1 n2 d c) = c_maxHistory c"
  "c_notificationCh (c_record n1 n2 d c) = c_notificationCh c"
  "c_chunkElement (c_record n1 n2 d c) = c_chunkElement c"
  "c_indexInChunk (c_record n1 n2 d c) = c_indexInChunk c"
  "c_totalItemsRead (c_record n1 n2 d c) = c_totalItemsRead c + 1"
  "c_lastReadTime (c_record n1 n2 d c) = n2"
  "c_dequeueHistory (c_record n1 n2 d c)
    = keep_last (c_maxHistory c) (c_dequeueHistory c @ [\<lparr>dr_DataID = qd_ID d, dr_Timestamp = n1\<rparr>])"
  by (simp_all add: c_record_def addToHistoryUnsafe_keep Let_def)

lemma c_set_position_simps [simp]:
  "c_id (c_set_position p c) = c_id c" "c_closed (c_set_position p c) = c_closed c"
  "c_group (c_set_position p c) = c_group c" "c_maxHistory (c_set_position p c) = c_maxHistory c"
  "c_notificationCh (c_set_position p c) = c_notificationCh c"
  "c_totalItemsRead (c_set_position p c) = c_totalItemsRead c"
  "c_lastReadTime (c_set_position p c) = c_lastReadTime c"
  "c_dequeueHistory (c_set_position p c) = c_dequeueHistory c"
  "c_chunkElement (c_set_position p c) = fst p" "c_indexInChunk (c_set_position p c) = snd p"
  by (simp_all add: c_set_position_def)

lemma take_1: "take 1 us = (if us = [] then [] else [hd us])"
  by (cases us) simp_all

text \<open>
  \<^verbatim>\<open>TryRead\<close> ends, returns the first item the reader has left, when there is one, and leaves it the
  others.
\<close>

lemma c_TryRead_left:
  assumes inv: "cl_inv cl" and ch: "cl_chained cl" and ok: "reader_ok cl cgs"
  obtains cgs' where
    "c_TryRead clk k False cl cgs
       = Some (if left_to_read cl cgs = [] then None else Some (hd (left_to_read cl cgs)), cgs')"
    and "reader_ok cl cgs'" and "left_to_read cl cgs' = tl (left_to_read cl cgs)"
    and "has_read (take 1 (left_to_read cl cgs)) cgs cgs'"
proof -
  obtain c groups where cgs: "cgs = (c, groups)" by fastforce
  note ok' = ok [unfolded reader_ok_def cgs Let_def split_conv]
  show ?thesis
  proof (cases "c_group c")
    case (Some g)
    then have us: "left_to_read cl cgs = unread cl (cg_getPosition (groups g))"
      by (simp add: left_to_read_def cgs c_GetPosition_def)
    obtain p where p: "pos_ok cl p" "unread cl p = tl (unread cl (cg_getPosition (groups g)))"
      "cg_TryRead False cl (groups g) = Some (if unread cl (cg_getPosition (groups g)) = [] then None
          else Some (hd (unread cl (cg_getPosition (groups g)))), cg_set_position p (groups g))"
      using cg_TryRead_unread [OF inv ch, of "groups g"] ok' Some by (auto simp: c_GetPosition_def)
    show ?thesis
      using p ok' Some us cgs
      by (intro that [of "(if left_to_read cl cgs = [] then c
             else c_record (clk k) (clk (k + 1)) (hd (left_to_read cl cgs)) c,
             groups(g := cg_set_position p (groups g)))"])
        (auto simp: c_TryRead_def reader_ok_def left_to_read_def c_GetPosition_def has_read_def
          map_keep_last take_1 simp del: One_nat_def)
  next
    case None
    then have us: "left_to_read cl cgs = unread cl (c_position c)"
      by (simp add: left_to_read_def cgs c_GetPosition_def c_position_def)
    have pok: "pos_ok cl (c_position c)" using ok' None by (simp add: c_GetPosition_def c_position_def)
    have "c_TryReadOwn n1 n2 cl c = cr.read_from n1 n2 cl c" for n1 n2
      by (simp add: c_TryReadOwn_def cr.read_from_def c_position_def c_set_position_def split: option.split)
    then obtain p where p: "pos_ok cl p" "unread cl p = tl (unread cl (c_position c))"
      "c_TryReadOwn (clk k) (clk (k + 1)) cl c
        = Some (cr.delivered (clk k) (clk (k + 1)) (unread cl (c_position c)) (c_set_position p c))"
      using cr.read_from_unread [OF inv ch pok, of "clk k" "clk (k + 1)"] by auto
    show ?thesis
      using p ok' None us cgs
      by (intro that [of "(if left_to_read cl cgs = [] then c_set_position p c
             else c_record (clk k) (clk (k + 1)) (hd (left_to_read cl cgs)) (c_set_position p c), groups)"])
        (auto simp: c_TryRead_def reader_ok_def left_to_read_def c_GetPosition_def has_read_def
          map_keep_last take_1 cr.delivered_def split: list.splits simp del: One_nat_def)
  qed
qed

text \<open>The batch reads take as many as are asked for and are there.\<close>

lemma has_read_Nil:
  "reader_ok cl cgs \<Longrightarrow> has_read [] cgs cgs"
  by (cases cgs) (simp add: has_read_def reader_ok_def)

lemma c_read_more_left:
  assumes inv: "cl_inv cl" and ch: "cl_chained cl" and ok: "reader_ok cl cgs"
  obtains cgs' where
    "c_read_more clk k False cl n batch cgs = Some (batch @ take n (left_to_read cl cgs), cgs')"
    and "reader_ok cl cgs'" and "left_to_read cl cgs' = drop n (left_to_read cl cgs)"
    and "has_read (take n (left_to_read cl cgs)) cgs cgs'"
proof -
  have "\<exists>cgs'. c_read_more clk k False cl n batch cgs = Some (batch @ take n (left_to_read cl cgs), cgs')
      \<and> reader_ok cl cgs' \<and> left_to_read cl cgs' = drop n (left_to_read cl cgs)
      \<and> has_read (take n (left_to_read cl cgs)) cgs cgs'"
    using ok
  proof (induction n arbitrary: k batch cgs)
    case 0
    then show ?case using has_read_Nil by simp
  next
    case (Suc n)
    obtain cgs1 where c1: "c_TryRead clk k False cl cgs
       = Some (if left_to_read cl cgs = [] then None else Some (hd (left_to_read cl cgs)), cgs1)"
       "reader_ok cl cgs1" "left_to_read cl cgs1 = tl (left_to_read cl cgs)"
       "has_read (take 1 (left_to_read cl cgs)) cgs cgs1"
      by (rule c_TryRead_left [OF inv ch Suc.prems])
    show ?case
    proof (cases "left_to_read cl cgs")
      case Nil
      then show ?thesis using c1 by simp
    next
      case (Cons d ds)
      obtain cgs' where I: "c_read_more clk (k + 2) False cl n (batch @ [d]) cgs1
            = Some ((batch @ [d]) @ take n ds, cgs')" "reader_ok cl cgs'"
          "left_to_read cl cgs' = drop n ds" "has_read (take n ds) cgs1 cgs'"
        using Suc.IH [OF c1(2), of "k + 2" "batch @ [d]"] c1(3) Cons by auto
      have "has_read ([d] @ take n ds) cgs cgs'"
        by (rule has_read_trans [OF _ I(4)]) (use c1(4) Cons in simp)
      then show ?thesis using c1(1) I Cons by simp
    qed
  qed
  then show ?thesis using that by blast
qed

text \<open>\<^verbatim>\<open>TryReadWhere\<close> reads up to the first item the predicate holds for, or everything.\<close>

lemma c_read_until_left:
  assumes inv: "cl_inv cl" and ch: "cl_chained cl" and ok: "reader_ok cl cgs"
  obtains cgs' where
    "c_read_until P clk k False cl cgs = Some (find P (left_to_read cl cgs), cgs')"
    and "reader_ok cl cgs'" and "left_to_read cl cgs' = tl (dropWhile (\<lambda>d. \<not> P d) (left_to_read cl cgs))"
    and "has_read (take (Suc (length (takeWhile (\<lambda>d. \<not> P d) (left_to_read cl cgs)))) (left_to_read cl cgs)) cgs cgs'"
proof -
  have "\<exists>cgs'. c_read_until P clk k False cl cgs = Some (find P (left_to_read cl cgs), cgs')
      \<and> reader_ok cl cgs' \<and> left_to_read cl cgs' = tl (dropWhile (\<lambda>d. \<not> P d) (left_to_read cl cgs))
      \<and> has_read (take (Suc (length (takeWhile (\<lambda>d. \<not> P d) (left_to_read cl cgs)))) (left_to_read cl cgs)) cgs cgs'"
    using ok
  proof (induction "left_to_read cl cgs" arbitrary: k cgs)
    case Nil
    obtain cgs1 where c1: "c_TryRead clk k False cl cgs = Some (None, cgs1)"
       "reader_ok cl cgs1" "left_to_read cl cgs1 = []" "has_read [] cgs cgs1"
      using c_TryRead_left [OF inv ch Nil.prems, of clk k] Nil.hyps [symmetric] by auto
    then show ?case
      using Nil.hyps [symmetric] by (subst c_read_until.simps) simp
  next
    case (Cons d ds)
    obtain cgs1 where c1: "c_TryRead clk k False cl cgs = Some (Some d, cgs1)"
       "reader_ok cl cgs1" "left_to_read cl cgs1 = ds" "has_read [d] cgs cgs1"
      using c_TryRead_left [OF inv ch Cons.prems, of clk k] Cons.hyps(2) [symmetric] by auto
    show ?case
    proof (cases "P d")
      case True
      then show ?thesis
        using c1 Cons.hyps(2) [symmetric] by (subst c_read_until.simps) simp
    next
      case False
      let ?n = "Suc (length (takeWhile (\<lambda>d. \<not> P d) ds))"
      obtain cgs' where I: "c_read_until P clk (k + 2) False cl cgs1 = Some (find P ds, cgs')"
          "reader_ok cl cgs'" "left_to_read cl cgs' = tl (dropWhile (\<lambda>d. \<not> P d) ds)"
          "has_read (take ?n ds) cgs1 cgs'"
        using Cons.hyps(1) [OF c1(3) [symmetric] c1(2), of "k + 2"] c1(3) by auto
      have "has_read ([d] @ take ?n ds) cgs cgs'" by (rule has_read_trans [OF c1(4) I(4)])
      then show ?thesis
        using c1(1) I False Cons.hyps(2) [symmetric] by (subst c_read_until.simps) simp
    qed
  qed
  then show ?thesis using that by blast
qed

text \<open>Looking ahead is exact.\<close>

lemma c_HasMoreData_left:
  assumes "cl_inv cl" "cl_chained cl" "reader_ok cl cgs"
  shows "c_HasMoreData False cl cgs \<longleftrightarrow> left_to_read cl cgs \<noteq> []"
proof -
  obtain c groups where cgs: "cgs = (c, groups)" by fastforce
  note ok = assms(3) [unfolded reader_ok_def cgs Let_def split_conv]
  show ?thesis
  proof (cases "c_group c")
    case (Some g)
    then show ?thesis
      using cg_HasMoreData_unread [OF assms(1,2), of "groups g"] ok
      by (simp add: cgs c_HasMoreData_def left_to_read_def c_GetPosition_def)
  next
    case None
    have "pos_ok cl (c_chunkElement c, c_indexInChunk c)" using ok None by (simp add: c_GetPosition_def)
    then show ?thesis
      using has_more_unread [OF assms(1,2), of "c_chunkElement c" "c_indexInChunk c"] ok None
      by (cases "c_chunkElement c") (auto simp: cgs c_HasMoreData_def left_to_read_def c_GetPosition_def Let_def)
  qed
qed

lemma c_GetUnreadCount_left:
  assumes "cl_inv cl" "cl_chained cl" "reader_ok cl cgs"
  shows "c_GetUnreadCount False cl cgs = Some (int (length (left_to_read cl cgs)))"
proof -
  obtain c groups where cgs: "cgs = (c, groups)" by fastforce
  note ok = assms(3) [unfolded reader_ok_def cgs Let_def split_conv]
  show ?thesis
  proof (cases "c_group c")
    case (Some g)
    then show ?thesis
      using cg_GetUnreadCount_unread [OF assms(1,2), of "groups g"] ok
      by (simp add: cgs c_GetUnreadCount_def left_to_read_def c_GetPosition_def)
  next
    case None
    then show ?thesis
      using cl_CountItemsFrom_unread [OF assms(1,2)] cl_invD(2) [OF assms(1)] ok
      by (cases "c_chunkElement c") (auto simp: cgs c_GetUnreadCount_def left_to_read_def c_GetPosition_def)
  qed
qed

lemma c_GetStats_left:
  assumes "cl_inv cl" "cl_chained cl" "reader_ok cl (c, groups)"
  shows "c_GetStats False cl (c, groups)
    = Some \<lparr>cs_ID = c_id c, cs_TotalItemsRead = c_totalItemsRead c,
            cs_UnreadItems = int (length (left_to_read cl (c, groups))),
            cs_LastReadTime = c_lastReadTime c\<rparr>"
  using c_GetUnreadCount_left [OF assms] assms(3)
  by (simp add: c_GetStats_def c_GetUnreadCount_def reader_ok_def Let_def)

lemma c_UpdatePosition_moved:
  "c_group c = None \<Longrightarrow>
    c_UpdatePositionAfterExpiration n newFirst infos chunks c
      = c_set_position (moved_position n newFirst infos chunks (c_position c)) c"
  by (simp add: c_UpdatePositionAfterExpiration_def moved_position_def c_set_position_def
      c_position_def split: prod.split)

section \<open>Channels are closed once\<close>

definition c_wf :: "consumer \<Rightarrow> bool" where
  "c_wf c \<longleftrightarrow> (ch_closed (c_notificationCh c) \<longleftrightarrow> c_closed c)
     \<and> length (ch_buf (c_notificationCh c)) \<le> ch_cap (c_notificationCh c)"

lemma NewConsumer_wf [simp]: "c_wf (NewConsumer uuid m now)"
  by (simp add: c_wf_def NewConsumer_def)

lemma c_set_position_wf [simp]: "c_wf (c_set_position p c) = c_wf c"
  by (simp add: c_wf_def)

lemma c_NotifyExpiredItems_wf:
  assumes "c_wf c"
  obtains c' where "c_NotifyExpiredItems n c = Some c'" "c_wf c'"
    "c' = c\<lparr>c_notificationCh := c_notificationCh c'\<rparr>"
    "ch_buf (c_notificationCh c') = ch_buf (c_notificationCh c) @
       (if \<not> c_closed c \<and> length (ch_buf (c_notificationCh c)) < ch_cap (c_notificationCh c)
        then [n] else [])"
proof (cases "c_closed c \<or> \<not> length (ch_buf (c_notificationCh c)) < ch_cap (c_notificationCh c)")
  case True
  show ?thesis
    by (rule that [of c]) (use assms True in \<open>auto simp: c_NotifyExpiredItems_def chan_try_send_def c_wf_def\<close>)
next
  case False
  let ?c = "c\<lparr>c_notificationCh := (c_notificationCh c)\<lparr>ch_buf := ch_buf (c_notificationCh c) @ [n]\<rparr>\<rparr>"
  show ?thesis
    by (rule that [of ?c])
      (use assms False in \<open>simp_all add: c_NotifyExpiredItems_def chan_try_send_def c_wf_def\<close>)
qed

lemma c_Close_wf:
  assumes "c_wf c"
  obtains c' where "c_Close c = Some c'" "c_wf c'" "c_closed c'"
    "c' = c\<lparr>c_closed := True, c_notificationCh := c_notificationCh c'\<rparr>"
proof (cases "c_closed c")
  case True
  show ?thesis by (rule that [of c]) (use assms True in \<open>simp_all add: c_Close_def\<close>)
next
  case False
  let ?c = "c\<lparr>c_closed := True, c_notificationCh := (c_notificationCh c)\<lparr>ch_closed := True\<rparr>\<rparr>"
  show ?thesis
    by (rule that [of ?c])
      (use assms False in \<open>simp_all add: c_Close_def chan_close_def c_wf_def Let_def\<close>)
qed

end
