(* ===== verification/MQ_Manager.thy ===== *)
theory MQ_Manager
  imports MQ_Consumer
begin

text \<open>
  The consumer manager (the last part of \<^verbatim>\<open>queue/consumer.go\<close>). Consumers and groups live in two
  stores and are known by their addresses, as the code shares them by pointer; the two maps are
  association lists, whose order stands for the order in which Go happens to range over the map.
  An operation that closes or sends on a channel returns an option, \<open>None\<close> being a panic.
\<close>

type_synonym cptr = nat

record consumer_manager =
  cm_consumers :: "(string \<times> cptr) list"
  cm_groups :: "(string \<times> gptr) list"
  cm_activeConsumers :: "cptr list"
  cm_cstore :: "cptr \<Rightarrow> consumer"
  cm_cnext :: cptr
  cm_gstore :: "gptr \<Rightarrow> consumer_group"
  cm_gnext :: gptr

definition NewConsumerManager :: consumer_manager where
  "NewConsumerManager =
     \<lparr>cm_consumers = [], cm_groups = [], cm_activeConsumers = [],
      cm_cstore = (\<lambda>_. NewConsumer '''' None 0), cm_cnext = 0,
      cm_gstore = (\<lambda>_. NewConsumerGroup ''''), cm_gnext = 0\<rparr>"

definition updateActiveConsumers :: "consumer_manager \<Rightarrow> consumer_manager" where
  "updateActiveConsumers cm = cm\<lparr>cm_activeConsumers := map snd (cm_consumers cm)\<rparr>"

text \<open>Enter a new consumer into the store and the map.\<close>

definition cm_register :: "consumer \<Rightarrow> consumer_manager \<Rightarrow> cptr \<times> consumer_manager" where
  "cm_register c cm =
     (let p = cm_cnext cm;
          cm = cm\<lparr>cm_cstore := (cm_cstore cm)(p := c), cm_cnext := p + 1,
                  cm_consumers := AList.update (c_id c) p (cm_consumers cm)\<rparr>
      in (p, updateActiveConsumers cm))"

definition cm_AddConsumerToGroup ::
  "string \<Rightarrow> nat \<Rightarrow> time \<Rightarrow> gptr \<Rightarrow> consumer_manager \<Rightarrow> cptr \<times> consumer_manager" where
  "cm_AddConsumerToGroup uuid maxHistory now g cm =
     cm_register ((NewConsumer uuid (Some maxHistory) now)\<lparr>c_group := Some g\<rparr>) cm"

definition cm_AddConsumer ::
  "string \<Rightarrow> nat \<Rightarrow> time \<Rightarrow> chunked_list \<Rightarrow> consumer_manager \<Rightarrow> cptr \<times> consumer_manager" where
  "cm_AddConsumer uuid maxHistory now cl cm =
     (let consumer = NewConsumer uuid (Some maxHistory) now;
          consumer = (case cl_GetFirstElement cl of
                        Some firstElement \<Rightarrow> c_SetPosition (Some firstElement) 0 consumer
                      | None \<Rightarrow> consumer)
      in cm_register consumer cm)"

definition cm_AddGroup :: "string \<Rightarrow> consumer_manager \<Rightarrow> gptr \<times> consumer_manager" where
  "cm_AddGroup name cm =
     (case map_of (cm_groups cm) name of
        Some grp \<Rightarrow> (grp, cm)
      | None \<Rightarrow>
          let g = cm_gnext cm
          in (g, cm\<lparr>cm_gstore := (cm_gstore cm)(g := NewConsumerGroup name), cm_gnext := g + 1,
                    cm_groups := AList.update name g (cm_groups cm)\<rparr>))"

text \<open>\<^verbatim>\<open>ConsumerGroup.AddConsumer\<close>: \<open>None\<close> is the nil of a closed group.\<close>

definition cg_AddConsumer ::
  "string \<Rightarrow> nat \<Rightarrow> time \<Rightarrow> gptr \<Rightarrow> consumer_manager \<Rightarrow> cptr option \<times> consumer_manager" where
  "cg_AddConsumer uuid maxHistory now g cm =
     (if cg_closed (cm_gstore cm g) then (None, cm)
      else let (p, cm) = cm_AddConsumerToGroup uuid maxHistory now g cm in (Some p, cm))"

section \<open>Removing\<close>

text \<open>Run a method that may panic on the consumer, or the group, at an address.\<close>

definition on_consumer ::
  "(consumer \<Rightarrow> consumer option) \<Rightarrow> cptr \<Rightarrow> consumer_manager \<Rightarrow> consumer_manager option" where
  "on_consumer f p cm =
     map_option (\<lambda>c. cm\<lparr>cm_cstore := (cm_cstore cm)(p := c)\<rparr>) (f (cm_cstore cm p))"

definition on_group ::
  "(consumer_group \<Rightarrow> consumer_group option) \<Rightarrow> gptr \<Rightarrow> consumer_manager \<Rightarrow> consumer_manager option" where
  "on_group f g cm =
     map_option (\<lambda>cg. cm\<lparr>cm_gstore := (cm_gstore cm)(g := cg)\<rparr>) (f (cm_gstore cm g))"

text \<open>Close a consumer, or a group, and delete it from its map.\<close>

definition cm_drop_consumer :: "string \<times> cptr \<Rightarrow> consumer_manager \<Rightarrow> consumer_manager option" where
  "cm_drop_consumer idp cm =
     map_option (\<lambda>cm. cm\<lparr>cm_consumers := AList.delete (fst idp) (cm_consumers cm)\<rparr>)
       (on_consumer c_Close (snd idp) cm)"

definition cm_drop_group :: "string \<times> gptr \<Rightarrow> consumer_manager \<Rightarrow> consumer_manager option" where
  "cm_drop_group ng cm =
     map_option (\<lambda>cm. cm\<lparr>cm_groups := AList.delete (fst ng) (cm_groups cm)\<rparr>)
       (on_group cg_Close (snd ng) cm)"

definition cm_RemoveConsumer :: "string \<Rightarrow> consumer_manager \<Rightarrow> (bool \<times> consumer_manager) option" where
  "cm_RemoveConsumer consumerID cm =
     (case map_of (cm_consumers cm) consumerID of
        None \<Rightarrow> Some (False, cm)
      | Some p \<Rightarrow>
          map_option (\<lambda>cm. (True, updateActiveConsumers cm)) (cm_drop_consumer (consumerID, p) cm))"

definition cm_RemoveGroup :: "string \<Rightarrow> consumer_manager \<Rightarrow> (bool \<times> consumer_manager) option" where
  "cm_RemoveGroup name cm =
     (case map_of (cm_groups cm) name of
        None \<Rightarrow> Some (False, cm)
      | Some g \<Rightarrow>
          Option.bind
            (fold_opt (\<lambda>(id, p) cm.
                if c_group (cm_cstore cm p) = Some g then cm_drop_consumer (id, p) cm else Some cm)
              (cm_consumers cm) cm)
            (\<lambda>cm. map_option (\<lambda>cm. (True, updateActiveConsumers cm)) (cm_drop_group (name, g) cm)))"

text \<open>
  \<^verbatim>\<open>CleanInactive\<close>: first the consumers that have not read for longer than \<open>timeout\<close>, then the groups
  no remaining consumer belongs to; \<open>now\<close> is read once. The count is of the consumers.
\<close>

definition cm_CleanInactive ::
  "duration \<Rightarrow> time \<Rightarrow> consumer_manager \<Rightarrow> (nat \<times> consumer_manager) option" where
  "cm_CleanInactive timeout now cm =
     Option.bind
       (fold_opt (\<lambda>(id, p) (removed, cm).
           if time_Since now (c_lastReadTime (cm_cstore cm p)) > timeout
           then map_option (\<lambda>cm. (removed + 1, cm)) (cm_drop_consumer (id, p) cm)
           else Some (removed, cm))
         (cm_consumers cm) (0, cm))
       (\<lambda>(removed, cm).
          map_option
            (\<lambda>cm. (removed, if removed > 0 then updateActiveConsumers cm else cm))
            (fold_opt (\<lambda>(name, g) cm.
                let hasConsumers = (\<exists>(id, p) \<in> set (cm_consumers cm). c_group (cm_cstore cm p) = Some g)
                in if \<not> hasConsumers then cm_drop_group (name, g) cm else Some cm)
              (cm_groups cm) cm))"

definition cm_GetConsumer :: "string \<Rightarrow> consumer_manager \<Rightarrow> cptr option" where
  "cm_GetConsumer consumerID cm = map_of (cm_consumers cm) consumerID"

definition cm_GetAllConsumers :: "consumer_manager \<Rightarrow> cptr list" where
  "cm_GetAllConsumers cm = cm_activeConsumers cm"

definition cm_GetConsumerCount :: "consumer_manager \<Rightarrow> nat" where
  "cm_GetConsumerCount cm = length (cm_consumers cm)"

definition cm_GetConsumerStats ::
  "bool \<Rightarrow> chunked_list \<Rightarrow> consumer_manager \<Rightarrow> consumer_stats list option" where
  "cm_GetConsumerStats queue_closed cl cm =
     those (map (\<lambda>p. c_GetStats queue_closed cl (cm_cstore cm p, cm_gstore cm)) (cm_GetAllConsumers cm))"

section \<open>Expiration\<close>

text \<open>What the two loops of \<^verbatim>\<open>NotifyAllConsumersOfExpiration\<close> do to one consumer and to one group.\<close>

definition notify_consumer ::
  "elem option \<Rightarrow> chunk_removal_info list \<Rightarrow> (elem \<Rightarrow> chunk_node) \<Rightarrow> nat \<Rightarrow> consumer \<Rightarrow> consumer option" where
  "notify_consumer newFirstElement removalInfo chunks totalExpired consumer =
     (if c_group consumer \<noteq> None then Some consumer
      else
        let expiredCount =
              calculateExpiredCount (c_chunkElement consumer) (c_indexInChunk consumer) removalInfo
        in map_option
             (\<lambda>consumer.
                if totalExpired > 0
                then c_UpdatePositionAfterExpiration totalExpired newFirstElement removalInfo chunks consumer
                else consumer)
             (if expiredCount > 0 then c_NotifyExpiredItems expiredCount consumer else Some consumer))"

definition notify_group ::
  "elem option \<Rightarrow> chunk_removal_info list \<Rightarrow> (elem \<Rightarrow> chunk_node) \<Rightarrow> nat \<Rightarrow> consumer_group
    \<Rightarrow> consumer_group option" where
  "notify_group newFirstElement removalInfo chunks totalExpired cg =
     (let expiredCount =
            calculateExpiredCount (cg_chunkElement cg) (cg_indexInChunk cg) removalInfo
      in map_option
           (\<lambda>cg.
              if totalExpired > 0
              then cg_UpdatePositionAfterExpiration totalExpired newFirstElement removalInfo chunks cg
              else cg)
           (if expiredCount > 0 then cg_NotifyExpiredItems expiredCount cg else Some cg))"

definition cm_NotifyAllConsumersOfExpiration ::
  "elem option \<Rightarrow> chunk_removal_info list \<Rightarrow> (elem \<Rightarrow> chunk_node) \<Rightarrow> consumer_manager
    \<Rightarrow> consumer_manager option" where
  "cm_NotifyAllConsumersOfExpiration newFirstElement removalInfo chunks cm =
     (let totalExpired = fold (\<lambda>info total. total + ri_RemovedCount info) removalInfo 0
      in Option.bind
           (fold_opt (\<lambda>(id, p). on_consumer (notify_consumer newFirstElement removalInfo chunks totalExpired) p)
             (cm_consumers cm) cm)
           (\<lambda>cm.
              if totalExpired > 0 \<or> removalInfo \<noteq> [] then
                fold_opt (\<lambda>(name, g). on_group (notify_group newFirstElement removalInfo chunks totalExpired) g)
                  (cm_groups cm) cm
              else Some cm))"

section \<open>The invariant\<close>

text \<open>
  Names and addresses are unique and allocated, the snapshot is the map, the channels of everything
  in the stores are closed exactly when their owner is, histories are within their bound, and a
  group that is not in the map any more is closed.
\<close>

definition cm_wf :: "consumer_manager \<Rightarrow> bool" where
  "cm_wf cm \<longleftrightarrow>
     distinct (map fst (cm_consumers cm)) \<and> distinct (map snd (cm_consumers cm))
     \<and> distinct (map fst (cm_groups cm)) \<and> distinct (map snd (cm_groups cm))
     \<and> (\<forall>(uid, p) \<in> set (cm_consumers cm). p < cm_cnext cm \<and> c_id (cm_cstore cm p) = uid
           \<and> (\<forall>g. c_group (cm_cstore cm p) = Some g \<longrightarrow> g < cm_gnext cm))
     \<and> (\<forall>(name, g) \<in> set (cm_groups cm). g < cm_gnext cm \<and> cg_name (cm_gstore cm g) = name)
     \<and> cm_activeConsumers cm = map snd (cm_consumers cm)
     \<and> (\<forall>p. c_wf (cm_cstore cm p)
           \<and> length (c_dequeueHistory (cm_cstore cm p)) \<le> c_maxHistory (cm_cstore cm p))
     \<and> (\<forall>g. cg_wf (cm_gstore cm g))
     \<and> (\<forall>g < cm_gnext cm. g \<notin> snd ` set (cm_groups cm) \<longrightarrow> cg_closed (cm_gstore cm g))"

lemma cm_wfD:
  assumes "cm_wf cm"
  shows "distinct (map fst (cm_consumers cm))" "distinct (map snd (cm_consumers cm))"
    "distinct (map fst (cm_groups cm))" "distinct (map snd (cm_groups cm))"
    "(uid, p) \<in> set (cm_consumers cm) \<Longrightarrow> p < cm_cnext cm"
    "(uid, p) \<in> set (cm_consumers cm) \<Longrightarrow> c_id (cm_cstore cm p) = uid"
    "(uid, p) \<in> set (cm_consumers cm) \<Longrightarrow> c_group (cm_cstore cm p) = Some g \<Longrightarrow> g < cm_gnext cm"
    "(name, g) \<in> set (cm_groups cm) \<Longrightarrow> g < cm_gnext cm"
    "(name, g) \<in> set (cm_groups cm) \<Longrightarrow> cg_name (cm_gstore cm g) = name"
    "cm_activeConsumers cm = map snd (cm_consumers cm)"
    "c_wf (cm_cstore cm p)" "cg_wf (cm_gstore cm g)"
    "length (c_dequeueHistory (cm_cstore cm p)) \<le> c_maxHistory (cm_cstore cm p)"
    "g < cm_gnext cm \<Longrightarrow> g \<notin> snd ` set (cm_groups cm) \<Longrightarrow> cg_closed (cm_gstore cm g)"
  using assms unfolding cm_wf_def by fastforce+

text \<open>The positions of the readers are positions of the list.\<close>

definition cm_positions :: "chunked_list \<Rightarrow> consumer_manager \<Rightarrow> bool" where
  "cm_positions cl cm \<longleftrightarrow>
     (\<forall>(uid, p) \<in> set (cm_consumers cm).
        c_group (cm_cstore cm p) = None \<longrightarrow> pos_ok cl (c_position (cm_cstore cm p)))
     \<and> (\<forall>(name, g) \<in> set (cm_groups cm).
        \<not> cg_closed (cm_gstore cm g) \<longrightarrow> pos_ok cl (cg_getPosition (cm_gstore cm g)))"

lemma cm_positionsD:
  assumes "cm_positions cl cm"
  shows "(uid, p) \<in> set (cm_consumers cm) \<Longrightarrow> c_group (cm_cstore cm p) = None \<Longrightarrow>
      pos_ok cl (c_position (cm_cstore cm p))"
    "(name, g) \<in> set (cm_groups cm) \<Longrightarrow> \<not> cg_closed (cm_gstore cm g) \<Longrightarrow>
      pos_ok cl (cg_getPosition (cm_gstore cm g))"
  using assms unfolding cm_positions_def by fastforce+

text \<open>
  So a consumer of the map that is not closed, and whose group is not closed, is a reader in order.
\<close>

lemma cm_reader_ok:
  assumes wf: "cm_wf cm" and pos: "cm_positions cl cm" and m: "(uid, p) \<in> set (cm_consumers cm)"
    and open_c: "\<not> c_closed (cm_cstore cm p)"
    and open_g: "\<And>g. c_group (cm_cstore cm p) = Some g \<Longrightarrow> \<not> cg_closed (cm_gstore cm g)"
  shows "reader_ok cl (cm_cstore cm p, cm_gstore cm)"
proof (cases "c_group (cm_cstore cm p)")
  case None
  then show ?thesis
    using cm_positionsD(1) [OF pos m] open_c cm_wfD(13) [OF wf]
    by (simp add: reader_ok_def c_GetPosition_def c_position_def)
next
  case (Some g)
  then obtain name where "(name, g) \<in> set (cm_groups cm)"
    using cm_wfD(14) [OF wf cm_wfD(7) [OF wf m Some]] open_g by fastforce
  then show ?thesis
    using cm_positionsD(2) [OF pos] open_c open_g [OF Some] cm_wfD(13) [OF wf] Some
    by (simp add: reader_ok_def c_GetPosition_def)
qed

section \<open>Loops over the maps\<close>

lemma fold_on_consumer:
  assumes "distinct (map snd xs)" and "\<And>uid p. (uid, p) \<in> set xs \<Longrightarrow> f (cm_cstore cm p) = Some (h (cm_cstore cm p))"
  shows "fold_opt (\<lambda>(uid, p). on_consumer f p) xs cm
    = Some (cm\<lparr>cm_cstore := \<lambda>p. if p \<in> snd ` set xs then h (cm_cstore cm p) else cm_cstore cm p\<rparr>)"
  using assms
proof (induction xs arbitrary: cm)
  case (Cons x xs)
  obtain uid p where x: "x = (uid, p)" by fastforce
  let ?cm = "cm\<lparr>cm_cstore := (cm_cstore cm)(p := h (cm_cstore cm p))\<rparr>"
  have "on_consumer f p cm = Some ?cm" using Cons.prems(2) [of uid p] x by (simp add: on_consumer_def)
  moreover have "fold_opt (\<lambda>(uid, p). on_consumer f p) xs ?cm
      = Some (?cm\<lparr>cm_cstore := \<lambda>q. if q \<in> snd ` set xs then h (cm_cstore ?cm q) else cm_cstore ?cm q\<rparr>)"
  proof (rule Cons.IH)
    show "distinct (map snd xs)" using Cons.prems(1) by simp
    show "f (cm_cstore ?cm q) = Some (h (cm_cstore ?cm q))" if "(i, q) \<in> set xs" for i q
    proof -
      have "q \<noteq> p" using that Cons.prems(1) x by force
      then show ?thesis using Cons.prems(2) [of i q] that by simp
    qed
  qed
  moreover have "(\<lambda>q. if q \<in> snd ` set xs then h (cm_cstore ?cm q) else cm_cstore ?cm q)
      = (\<lambda>q. if q \<in> snd ` set (x # xs) then h (cm_cstore cm q) else cm_cstore cm q)"
    using Cons.prems(1) x by (intro ext) auto
  ultimately show ?case using x by simp
qed simp

lemma fold_on_group:
  assumes "distinct (map snd xs)" and "\<And>name g. (name, g) \<in> set xs \<Longrightarrow> f (cm_gstore cm g) = Some (h (cm_gstore cm g))"
  shows "fold_opt (\<lambda>(name, g). on_group f g) xs cm
    = Some (cm\<lparr>cm_gstore := \<lambda>g. if g \<in> snd ` set xs then h (cm_gstore cm g) else cm_gstore cm g\<rparr>)"
  using assms
proof (induction xs arbitrary: cm)
  case (Cons x xs)
  obtain name g where x: "x = (name, g)" by fastforce
  let ?cm = "cm\<lparr>cm_gstore := (cm_gstore cm)(g := h (cm_gstore cm g))\<rparr>"
  have "on_group f g cm = Some ?cm" using Cons.prems(2) [of name g] x by (simp add: on_group_def)
  moreover have "fold_opt (\<lambda>(name, g). on_group f g) xs ?cm
      = Some (?cm\<lparr>cm_gstore := \<lambda>q. if q \<in> snd ` set xs then h (cm_gstore ?cm q) else cm_gstore ?cm q\<rparr>)"
  proof (rule Cons.IH)
    show "distinct (map snd xs)" using Cons.prems(1) by simp
    show "f (cm_gstore ?cm q) = Some (h (cm_gstore ?cm q))" if "(i, q) \<in> set xs" for i q
    proof -
      have "q \<noteq> g" using that Cons.prems(1) x by force
      then show ?thesis using Cons.prems(2) [of i q] that by simp
    qed
  qed
  moreover have "(\<lambda>q. if q \<in> snd ` set xs then h (cm_gstore ?cm q) else cm_gstore ?cm q)
      = (\<lambda>q. if q \<in> snd ` set (x # xs) then h (cm_gstore cm q) else cm_gstore cm q)"
    using Cons.prems(1) x by (intro ext) auto
  ultimately show ?case using x by simp
qed simp

section \<open>Notification of expired items\<close>

text \<open>One consumer: its position moves, and its channel gets the count, when there is one and room.\<close>

definition channel_after :: "nat \<Rightarrow> bool \<Rightarrow> nat chan \<Rightarrow> nat chan" where
  "channel_after cnt is_closed ch =
     (if cnt > 0 \<and> \<not> is_closed \<and> length (ch_buf ch) < ch_cap ch then ch\<lparr>ch_buf := ch_buf ch @ [cnt]\<rparr> else ch)"

lemma notify_consumer_own:
  assumes "c_wf c" and "c_group c = None"
  shows "notify_consumer newFirst infos chunks n c
    = Some (c_set_position (moved_position n newFirst infos chunks (c_position c))
        (c\<lparr>c_notificationCh := channel_after
              (calculateExpiredCount (c_chunkElement c) (c_indexInChunk c) infos) (c_closed c)
              (c_notificationCh c)\<rparr>))"
proof -
  let ?cnt = "calculateExpiredCount (c_chunkElement c) (c_indexInChunk c) infos"
  let ?c = "c\<lparr>c_notificationCh := channel_after ?cnt (c_closed c) (c_notificationCh c)\<rparr>"
  have "(if ?cnt > 0 then c_NotifyExpiredItems ?cnt c else Some c) = Some ?c"
    using assms(1) by (auto simp: c_NotifyExpiredItems_def chan_try_send_def channel_after_def c_wf_def)
  moreover have "(if n > 0 then c_UpdatePositionAfterExpiration n newFirst infos chunks ?c else ?c)
      = c_set_position (moved_position n newFirst infos chunks (c_position ?c)) ?c"
    using c_UpdatePosition_moved [of ?c n newFirst infos chunks] assms(2)
    by (cases "n > 0") (simp_all add: moved_position_def c_set_position_def c_position_def)
  ultimately show ?thesis
    using assms(2) by (simp add: notify_consumer_def Let_def c_position_def)
qed

lemma notify_group_open:
  assumes "cg_wf cg" and "\<not> cg_closed cg"
  shows "notify_group newFirst infos chunks n cg
    = Some (cg_set_position (moved_position n newFirst infos chunks (cg_getPosition cg))
        (cg\<lparr>cg_notificationCh := channel_after
              (calculateExpiredCount (cg_chunkElement cg) (cg_indexInChunk cg) infos) False
              (cg_notificationCh cg)\<rparr>))"
proof -
  let ?cnt = "calculateExpiredCount (cg_chunkElement cg) (cg_indexInChunk cg) infos"
  let ?c = "cg\<lparr>cg_notificationCh := channel_after ?cnt False (cg_notificationCh cg)\<rparr>"
  have "(if ?cnt > 0 then cg_NotifyExpiredItems ?cnt cg else Some cg) = Some ?c"
    using assms by (auto simp: cg_NotifyExpiredItems_def chan_try_send_def channel_after_def cg_wf_def)
  moreover have "(if n > 0 then cg_UpdatePositionAfterExpiration n newFirst infos chunks ?c else ?c)
      = cg_set_position (moved_position n newFirst infos chunks (cg_getPosition ?c)) ?c"
    using cg_UpdatePosition_moved [of ?c n newFirst infos chunks] assms(2)
    by (cases "n > 0") (simp_all add: moved_position_def cg_set_position_def cg_getPosition_def)
  ultimately show ?thesis
    by (simp add: notify_group_def Let_def cg_getPosition_def)
qed

lemma notify_group_closed: "cg_closed cg \<Longrightarrow> notify_group newFirst infos chunks n cg = Some cg"
  by (simp add: notify_group_def cg_NotifyExpiredItems_def cg_UpdatePositionAfterExpiration_def Let_def)

text \<open>What the whole call does to the stores.\<close>

definition consumer_after ::
  "nat \<Rightarrow> elem option \<Rightarrow> chunk_removal_info list \<Rightarrow> (elem \<Rightarrow> chunk_node) \<Rightarrow> consumer \<Rightarrow> consumer" where
  "consumer_after n newFirst infos chunks c =
     (if c_group c \<noteq> None then c
      else c_set_position (moved_position n newFirst infos chunks (c_position c))
        (c\<lparr>c_notificationCh := channel_after
              (calculateExpiredCount (c_chunkElement c) (c_indexInChunk c) infos) (c_closed c)
              (c_notificationCh c)\<rparr>))"

definition group_after ::
  "nat \<Rightarrow> elem option \<Rightarrow> chunk_removal_info list \<Rightarrow> (elem \<Rightarrow> chunk_node) \<Rightarrow> consumer_group \<Rightarrow> consumer_group" where
  "group_after n newFirst infos chunks cg =
     (if cg_closed cg then cg
      else cg_set_position (moved_position n newFirst infos chunks (cg_getPosition cg))
        (cg\<lparr>cg_notificationCh := channel_after
              (calculateExpiredCount (cg_chunkElement cg) (cg_indexInChunk cg) infos) False
              (cg_notificationCh cg)\<rparr>))"

lemma cm_Notify_spec:
  assumes wf: "cm_wf cm" and "0 < sum_list (map ri_RemovedCount infos)"
  defines "n \<equiv> sum_list (map ri_RemovedCount infos)"
  shows "cm_NotifyAllConsumersOfExpiration newFirst infos chunks cm
    = Some (cm\<lparr>cm_cstore := \<lambda>p. if p \<in> snd ` set (cm_consumers cm)
                   then consumer_after n newFirst infos chunks (cm_cstore cm p) else cm_cstore cm p,
               cm_gstore := \<lambda>g. if g \<in> snd ` set (cm_groups cm)
                   then group_after n newFirst infos chunks (cm_gstore cm g) else cm_gstore cm g\<rparr>)"
proof -
  have n: "fold (\<lambda>info total. total + ri_RemovedCount info) infos 0 = n"
    by (simp add: n_def fold_RemovedCount)
  have c: "notify_consumer newFirst infos chunks n (cm_cstore cm p)
      = Some (consumer_after n newFirst infos chunks (cm_cstore cm p))" for p
    using notify_consumer_own [OF cm_wfD(11) [OF wf]]
    by (cases "c_group (cm_cstore cm p)") (simp_all add: consumer_after_def notify_consumer_def)
  have g: "notify_group newFirst infos chunks n (cm_gstore cm g)
      = Some (group_after n newFirst infos chunks (cm_gstore cm g))" for g
    using notify_group_open [OF cm_wfD(12) [OF wf]] notify_group_closed
    by (cases "cg_closed (cm_gstore cm g)") (simp_all add: group_after_def)
  let ?cm = "cm\<lparr>cm_cstore := \<lambda>p. if p \<in> snd ` set (cm_consumers cm)
      then consumer_after n newFirst infos chunks (cm_cstore cm p) else cm_cstore cm p\<rparr>"
  have "fold_opt (\<lambda>(uid, p). on_consumer (notify_consumer newFirst infos chunks n) p) (cm_consumers cm) cm = Some ?cm"
    by (rule fold_on_consumer [OF cm_wfD(2) [OF wf]]) (rule c)
  moreover have "fold_opt (\<lambda>(name, g). on_group (notify_group newFirst infos chunks n) g) (cm_groups ?cm) ?cm
      = Some (?cm\<lparr>cm_gstore := \<lambda>g. if g \<in> snd ` set (cm_groups ?cm)
            then group_after n newFirst infos chunks (cm_gstore ?cm g) else cm_gstore ?cm g\<rparr>)"
    by (rule fold_on_group) (use cm_wfD(4) [OF wf] g in simp_all)
  moreover have "0 < n" using assms(2) by (simp add: n_def)
  ultimately show ?thesis
    unfolding cm_NotifyAllConsumersOfExpiration_def Let_def n by (simp cong: if_cong)
qed

lemma channel_after_wf:
  "length (ch_buf ch) \<le> ch_cap ch \<Longrightarrow> length (ch_buf (channel_after n cl ch)) \<le> ch_cap (channel_after n cl ch)"
  "ch_closed (channel_after n cl ch) = ch_closed ch"
  by (auto simp: channel_after_def)

lemma consumer_after_simps [simp]:
  "c_id (consumer_after n e i ch c) = c_id c" "c_closed (consumer_after n e i ch c) = c_closed c"
  "c_group (consumer_after n e i ch c) = c_group c"
  "c_maxHistory (consumer_after n e i ch c) = c_maxHistory c"
  "c_dequeueHistory (consumer_after n e i ch c) = c_dequeueHistory c"
  "c_totalItemsRead (consumer_after n e i ch c) = c_totalItemsRead c"
  "c_lastReadTime (consumer_after n e i ch c) = c_lastReadTime c"
  by (simp_all add: consumer_after_def)

lemma group_after_simps [simp]:
  "cg_name (group_after n e i ch cg) = cg_name cg" "cg_closed (group_after n e i ch cg) = cg_closed cg"
  by (simp_all add: group_after_def)

lemma consumer_after_wf: "c_wf c \<Longrightarrow> c_wf (consumer_after n e i ch c)"
  by (auto simp: consumer_after_def c_wf_def channel_after_wf)

lemma group_after_wf: "cg_wf cg \<Longrightarrow> cg_wf (group_after n e i ch cg)"
  by (auto simp: group_after_def cg_wf_def channel_after_wf)

text \<open>
  The removal of expired items followed by the notification: every reader's position stays valid,
  every reader has left what it had left without the removed items, and its channel gets the
  number of those.
\<close>

lemma cm_expiry:
  assumes inv: "cl_inv cl" and looks: "looks_agree clk ttl 0 (cl_items cl)"
    and eq: "cl_RemoveExpiredData clk ttl cl = (n, infos, cl')" and pos_n: "0 < n"
    and wf: "cm_wf cm" and pos: "cm_positions cl cm"
  obtains cm' where
    "cm_NotifyAllConsumersOfExpiration (cl_GetFirstElement cl') infos (cl_chunk cl') cm = Some cm'"
    and "cm_wf cm'" and "cm_positions cl' cm'"
    and "cm_consumers cm' = cm_consumers cm" and "cm_groups cm' = cm_groups cm"
    and "cm_cnext cm' = cm_cnext cm" and "cm_gnext cm' = cm_gnext cm"
    and "\<And>uid p. (uid, p) \<in> set (cm_consumers cm) \<Longrightarrow> c_group (cm_cstore cm p) = None \<Longrightarrow>
      c_notificationCh (cm_cstore cm' p) = channel_after (n - pos_rank cl (c_position (cm_cstore cm p)))
        (c_closed (cm_cstore cm p)) (c_notificationCh (cm_cstore cm p))"
    and "\<And>name g. (name, g) \<in> set (cm_groups cm) \<Longrightarrow> \<not> cg_closed (cm_gstore cm g) \<Longrightarrow>
      cg_notificationCh (cm_gstore cm' g) = channel_after (n - pos_rank cl (cg_getPosition (cm_gstore cm g)))
        False (cg_notificationCh (cm_gstore cm g))"
    and "\<And>uid p. (uid, p) \<in> set (cm_consumers cm) \<Longrightarrow> reader_ok cl (cm_cstore cm p, cm_gstore cm) \<Longrightarrow>
      reader_ok cl' (cm_cstore cm' p, cm_gstore cm')
      \<and> left_to_read cl' (cm_cstore cm' p, cm_gstore cm')
        = drop (n - pos_rank cl (c_GetPosition (cm_gstore cm) (cm_cstore cm p)))
            (left_to_read cl (cm_cstore cm p, cm_gstore cm))"
proof -
  let ?nf = "cl_GetFirstElement cl'" and ?ch = "cl_chunk cl'"
  obtain f where f: "n = sum_list (map f (cl_list cl))" "infos = removal_infos cl f (cl_list cl)"
    by (rule cl_RemoveExpiredData_any [OF inv eq]) blast
  have n: "sum_list (map ri_RemovedCount infos) = n" unfolding f by (rule removal_infos_sum)
  define cm' where "cm' = cm\<lparr>cm_cstore := \<lambda>p. if p \<in> snd ` set (cm_consumers cm)
                   then consumer_after n ?nf infos ?ch (cm_cstore cm p) else cm_cstore cm p,
               cm_gstore := \<lambda>g. if g \<in> snd ` set (cm_groups cm)
                   then group_after n ?nf infos ?ch (cm_gstore cm g) else cm_gstore cm g\<rparr>"
  note R = RemoveExpiredData_pos [OF inv looks eq]
  have c': "cm_cstore cm' p = consumer_after n ?nf infos ?ch (cm_cstore cm p)"
    if "(uid, p) \<in> set (cm_consumers cm)" for uid p
    using that by (force simp: cm'_def)
  have g': "cm_gstore cm' g = group_after n ?nf infos ?ch (cm_gstore cm g)"
    if "(name, g) \<in> set (cm_groups cm)" for name g
    using that by (force simp: cm'_def)
  have wf': "cm_wf cm'"
    using wf consumer_after_wf group_after_wf unfolding cm_wf_def cm'_def by (simp cong: if_cong)
  have own: "c_position (cm_cstore cm' p) = moved_position n ?nf infos ?ch (c_position (cm_cstore cm p))"
    if "(uid, p) \<in> set (cm_consumers cm)" "c_group (cm_cstore cm p) = None" for uid p
    using c' [OF that(1)] that(2) by (simp add: consumer_after_def c_position_def)
  have grp: "cg_getPosition (cm_gstore cm' g) = moved_position n ?nf infos ?ch (cg_getPosition (cm_gstore cm g))"
    if "(name, g) \<in> set (cm_groups cm)" "\<not> cg_closed (cm_gstore cm g)" for name g
    using g' [OF that(1)] that(2) by (simp add: group_after_def)
  have pos': "cm_positions cl' cm'"
    unfolding cm_positions_def
  proof (safe, goal_cases)
    case (1 uid p)
    then have m: "(uid, p) \<in> set (cm_consumers cm)" "c_group (cm_cstore cm p) = None"
      using c' by (simp_all add: cm'_def split: if_splits)
    show ?case unfolding own [OF m] by (rule R(1) [OF cm_positionsD(1) [OF pos m]])
  next
    case (2 name g)
    then have m: "(name, g) \<in> set (cm_groups cm)" "\<not> cg_closed (cm_gstore cm g)"
      using g' by (simp_all add: cm'_def split: if_splits)
    show ?case unfolding grp [OF m] by (rule R(1) [OF cm_positionsD(2) [OF pos m]])
  qed
  show ?thesis
  proof (rule that [OF _ wf' pos'])
    show "cm_NotifyAllConsumersOfExpiration ?nf infos ?ch cm = Some cm'"
      unfolding cm'_def using cm_Notify_spec [OF wf, of infos ?nf ?ch, unfolded n] pos_n by simp
    show "cm_consumers cm' = cm_consumers cm" "cm_groups cm' = cm_groups cm"
      "cm_cnext cm' = cm_cnext cm" "cm_gnext cm' = cm_gnext cm" by (simp_all add: cm'_def)
    fix uid p assume m: "(uid, p) \<in> set (cm_consumers cm)"
    {
      assume o: "c_group (cm_cstore cm p) = None"
      show "c_notificationCh (cm_cstore cm' p) = channel_after (n - pos_rank cl (c_position (cm_cstore cm p)))
        (c_closed (cm_cstore cm p)) (c_notificationCh (cm_cstore cm p))"
        using R(3) [OF cm_positionsD(1) [OF pos m o]] c' [OF m] o
        by (simp add: consumer_after_def c_position_def)
    next
      assume ok: "reader_ok cl (cm_cstore cm p, cm_gstore cm)"
      note ok' = ok [unfolded reader_ok_def Let_def split_conv]
      have "c_GetPosition (cm_gstore cm') (cm_cstore cm' p)
          = moved_position n ?nf infos ?ch (c_GetPosition (cm_gstore cm) (cm_cstore cm p))
        \<and> (\<forall>g. c_group (cm_cstore cm p) = Some g \<longrightarrow> \<not> cg_closed (cm_gstore cm' g))"
      proof (cases "c_group (cm_cstore cm p)")
        case None
        then show ?thesis
          using own [OF m None] c' [OF m] by (simp add: c_GetPosition_def c_position_def)
      next
        case (Some g)
        then obtain name where ng: "(name, g) \<in> set (cm_groups cm)"
          using cm_wfD(14) [OF wf cm_wfD(7) [OF wf m Some]] ok' by fastforce
        then show ?thesis
          using grp [OF ng] g' [OF ng] c' [OF m] Some ok' by (simp add: c_GetPosition_def)
      qed
      then show "reader_ok cl' (cm_cstore cm' p, cm_gstore cm')
        \<and> left_to_read cl' (cm_cstore cm' p, cm_gstore cm')
          = drop (n - pos_rank cl (c_GetPosition (cm_gstore cm) (cm_cstore cm p)))
              (left_to_read cl (cm_cstore cm p, cm_gstore cm))"
        using ok' c' [OF m] R(1,4) [of "c_GetPosition (cm_gstore cm) (cm_cstore cm p)"]
        by (simp add: reader_ok_def left_to_read_def)
    }
  next
    fix name g assume m: "(name, g) \<in> set (cm_groups cm)" and o: "\<not> cg_closed (cm_gstore cm g)"
    show "cg_notificationCh (cm_gstore cm' g) = channel_after (n - pos_rank cl (cg_getPosition (cm_gstore cm g)))
        False (cg_notificationCh (cm_gstore cm g))"
      using R(3) [OF cm_positionsD(2) [OF pos m o]] g' [OF m] o
      by (simp add: group_after_def cg_getPosition_def)
  qed
qed

section \<open>Adding readers\<close>

lemma NewConsumerManager_wf: "cm_wf NewConsumerManager" "cm_positions cl NewConsumerManager"
  by (simp_all add: cm_wf_def cm_positions_def NewConsumerManager_def) (simp add: NewConsumer_def)

lemma cm_positions_mono:
  assumes "cm_positions cl cm" and "\<And>p. pos_ok cl p \<Longrightarrow> pos_ok cl' p"
  shows "cm_positions cl' cm"
  using assms unfolding cm_positions_def by fast

lemma AList_update_new: "k \<notin> fst ` set xs \<Longrightarrow> AList.update k v xs = xs @ [(k, v)]"
  by (induction xs) auto

text \<open>A consumer with a new identifier, of no group or of one that is there or closed.\<close>

lemma cm_register_spec:
  assumes wf: "cm_wf cm" and pos: "cm_positions cl cm"
    and c: "c_wf c" "length (c_dequeueHistory c) \<le> c_maxHistory c"
    and fresh: "c_id c \<notin> fst ` set (cm_consumers cm)"
    and g: "\<And>g. c_group c = Some g \<Longrightarrow> g < cm_gnext cm"
    and own: "c_group c = None \<Longrightarrow> pos_ok cl (c_position c)"
    and eq: "cm_register c cm = (p, cm')"
  shows "cm_wf cm'" and "cm_positions cl cm'" and "(c_id c, p) \<in> set (cm_consumers cm')"
    and "cm_cstore cm' = (cm_cstore cm)(p := c)" and "cm_gstore cm' = cm_gstore cm"
    and "cm_consumers cm' = cm_consumers cm @ [(c_id c, p)]" and "cm_groups cm' = cm_groups cm"
    and "p \<notin> snd ` set (cm_consumers cm)"
proof -
  have eqs: "p = cm_cnext cm" "cm' = updateActiveConsumers
     (cm\<lparr>cm_cstore := (cm_cstore cm)(p := c), cm_cnext := p + 1, cm_consumers := cm_consumers cm @ [(c_id c, p)]\<rparr>)"
    using eq by (auto simp: cm_register_def Let_def AList_update_new [OF fresh])
  show new: "p \<notin> snd ` set (cm_consumers cm)"
    using cm_wfD(5) [OF wf] eqs(1) by force
  have old: "q \<noteq> p" if "(u, q) \<in> set (cm_consumers cm)" for u q using new that by force
  show "cm_wf cm'"
    unfolding cm_wf_def
  proof (intro conjI allI impI)
    show "\<forall>(uid, p) \<in> set (cm_consumers cm'). p < cm_cnext cm' \<and> c_id (cm_cstore cm' p) = uid
           \<and> (\<forall>g. c_group (cm_cstore cm' p) = Some g \<longrightarrow> g < cm_gnext cm')"
      using cm_wfD(5-7) [OF wf] eqs g old by (fastforce simp: less_Suc_eq updateActiveConsumers_def)
    show "cg_closed (cm_gstore cm' g')" if "g' < cm_gnext cm'" "g' \<notin> snd ` set (cm_groups cm')" for g'
      using cm_wfD(14) [OF wf, of g'] eqs that by (auto simp: updateActiveConsumers_def)
  qed (use cm_wfD [OF wf] eqs new fresh c in \<open>auto simp: updateActiveConsumers_def\<close>)
  show "cm_positions cl cm'"
    using cm_positionsD [OF pos] own old unfolding cm_positions_def eqs(2)
    by (auto simp: updateActiveConsumers_def)
qed (use eq in \<open>auto simp: cm_register_def Let_def updateActiveConsumers_def AList_update_new [OF fresh]\<close>)

text \<open>A new independent consumer reads the whole list from its first item.\<close>

lemma cm_AddConsumer_spec:
  assumes inv: "cl_inv cl" and wf: "cm_wf cm" and pos: "cm_positions cl cm"
    and fresh: "uuid \<notin> fst ` set (cm_consumers cm)"
    and eq: "cm_AddConsumer uuid maxHistory now cl cm = (p, cm')"
  shows "cm_wf cm'" and "cm_positions cl cm'"
    and "cm_consumers cm' = cm_consumers cm @ [(uuid, p)]" and "cm_groups cm' = cm_groups cm"
    and "reader_ok cl (cm_cstore cm' p, cm_gstore cm')"
    and "left_to_read cl (cm_cstore cm' p, cm_gstore cm') = cl_items cl"
    and "q \<noteq> p \<Longrightarrow> cm_cstore cm' q = cm_cstore cm q" and "cm_gstore cm' = cm_gstore cm"
    and "p \<notin> snd ` set (cm_consumers cm)"
proof -
  let ?n = "NewConsumer uuid (Some maxHistory) now"
  let ?c = "case cl_GetFirstElement cl of Some e \<Rightarrow> c_SetPosition (Some e) 0 ?n | None \<Rightarrow> ?n"
  have c: "c_wf ?c" "c_id ?c = uuid" "c_group ?c = None" "\<not> c_closed ?c" "c_dequeueHistory ?c = []"
    by (auto simp: c_wf_def NewConsumer_def c_SetPosition_def split: option.split)
  have u: "pos_ok cl (c_position ?c) \<and> unread cl (c_position ?c) = cl_items cl"
    using unread_first [OF inv]
    by (auto simp: c_position_def c_SetPosition_def NewConsumer_def split: option.split)
  have reg: "cm_register ?c cm = (p, cm')" using eq by (simp add: cm_AddConsumer_def Let_def)
  note R = cm_register_spec [OF wf pos c(1) _ _ _ _ reg]
  have h: "length (c_dequeueHistory ?c) \<le> c_maxHistory ?c" using c(5) by simp
  have fr: "c_id ?c \<notin> fst ` set (cm_consumers cm)" using fresh c(2) by simp
  have gr: "c_group ?c = Some g \<Longrightarrow> g < cm_gnext cm" for g using c(3) by simp
  have ow: "c_group ?c = None \<Longrightarrow> pos_ok cl (c_position ?c)" using u by simp
  note R = R [OF h fr gr ow]
  show "cm_wf cm'" "cm_positions cl cm'" "cm_gstore cm' = cm_gstore cm"
    "cm_groups cm' = cm_groups cm" "p \<notin> snd ` set (cm_consumers cm)"
    using R by blast+
  show "cm_consumers cm' = cm_consumers cm @ [(uuid, p)]" using R(6) c(2) by simp
  show "reader_ok cl (cm_cstore cm' p, cm_gstore cm')"
    "left_to_read cl (cm_cstore cm' p, cm_gstore cm') = cl_items cl"
    using R(4) c u by (simp_all add: reader_ok_def left_to_read_def c_GetPosition_def c_position_def)
  show "q \<noteq> p \<Longrightarrow> cm_cstore cm' q = cm_cstore cm q" using R(4) by simp
qed

lemma cm_AddGroup_spec:
  assumes wf: "cm_wf cm" and pos: "cm_positions cl cm" and eq: "cm_AddGroup name cm = (g, cm')"
  shows "cm_wf cm'" and "cm_positions cl cm'" and "(name, g) \<in> set (cm_groups cm')"
    and "cm_consumers cm' = cm_consumers cm" and "cm_cstore cm' = cm_cstore cm"
    and "g < cm_gnext cm'"
    and "map_of (cm_groups cm) name = None \<Longrightarrow>
      cg_getPosition (cm_gstore cm' g) = (None, 0) \<and> \<not> cg_closed (cm_gstore cm' g)"
    and "g' < cm_gnext cm \<Longrightarrow> cm_gstore cm' g' = cm_gstore cm g'"
proof -
  consider "map_of (cm_groups cm) name = Some g" "cm' = cm"
    | "map_of (cm_groups cm) name = None" "g = cm_gnext cm"
      "cm' = cm\<lparr>cm_gstore := (cm_gstore cm)(g := NewConsumerGroup name), cm_gnext := g + 1,
                cm_groups := cm_groups cm @ [(name, g)]\<rparr>"
  proof (cases "map_of (cm_groups cm) name")
    case (Some h)
    then have "g = h" "cm' = cm" using eq by (auto simp: cm_AddGroup_def)
    then show ?thesis using Some by (intro that(1)) simp_all
  next
    case None
    then have "name \<notin> fst ` set (cm_groups cm)" by (simp add: map_of_eq_None_iff)
    then have "g = cm_gnext cm" "cm' = cm\<lparr>cm_gstore := (cm_gstore cm)(cm_gnext cm := NewConsumerGroup name),
        cm_gnext := cm_gnext cm + 1, cm_groups := cm_groups cm @ [(name, cm_gnext cm)]\<rparr>"
      using eq None by (auto simp: cm_AddGroup_def Let_def AList_update_new)
    then show ?thesis using None by (intro that(2)) simp_all
  qed
  then have "cm_wf cm' \<and> cm_positions cl cm' \<and> (name, g) \<in> set (cm_groups cm')
    \<and> cm_consumers cm' = cm_consumers cm \<and> cm_cstore cm' = cm_cstore cm \<and> g < cm_gnext cm'
    \<and> (map_of (cm_groups cm) name = None \<longrightarrow>
      cg_getPosition (cm_gstore cm' g) = (None, 0) \<and> \<not> cg_closed (cm_gstore cm' g))
    \<and> (g' < cm_gnext cm \<longrightarrow> cm_gstore cm' g' = cm_gstore cm g')"
  proof cases
    case 1
    then show ?thesis using wf pos cm_wfD(8) [OF wf] map_of_SomeD by fastforce
  next
    case 2
    have new: "g \<notin> snd ` set (cm_groups cm)" using cm_wfD(8) [OF wf] 2(2) by force
    have name: "name \<notin> fst ` set (cm_groups cm)" using 2(1) by (simp add: map_of_eq_None_iff)
    have old: "g' \<noteq> g" if "(name', g') \<in> set (cm_groups cm)" for name' g' using new that by force
    have nm: "cg_name (NewConsumerGroup name) = name" by (simp add: NewConsumerGroup_def)
    have "cm_wf cm'"
      unfolding cm_wf_def
    proof (intro conjI allI impI)
      show "\<forall>(uid, p) \<in> set (cm_consumers cm'). p < cm_cnext cm' \<and> c_id (cm_cstore cm' p) = uid
           \<and> (\<forall>g. c_group (cm_cstore cm' p) = Some g \<longrightarrow> g < cm_gnext cm')"
        using cm_wfD(5-7) [OF wf] unfolding 2(2,3) by (auto intro: less_SucI)
      show "\<forall>(name, g) \<in> set (cm_groups cm'). g < cm_gnext cm' \<and> cg_name (cm_gstore cm' g) = name"
        using cm_wfD(8,9) [OF wf] 2(2,3) old nm by (auto simp: less_Suc_eq)
      show "cg_closed (cm_gstore cm' g')" if "g' < cm_gnext cm'" "g' \<notin> snd ` set (cm_groups cm')" for g'
        using cm_wfD(14) [OF wf, of g'] 2(2,3) that by (auto simp: less_Suc_eq)
    qed (use cm_wfD [OF wf] 2 new name in \<open>auto\<close>)
    moreover have "cm_positions cl cm'"
      using cm_positionsD [OF pos] 2(3) old unfolding cm_positions_def
      by (auto simp: NewConsumerGroup_def cg_getPosition_def)
    ultimately show ?thesis
      using 2 by (simp add: NewConsumerGroup_def cg_getPosition_def)
  qed
  then show "cm_wf cm'" and "cm_positions cl cm'" and "(name, g) \<in> set (cm_groups cm')"
    and "cm_consumers cm' = cm_consumers cm" and "cm_cstore cm' = cm_cstore cm" and "g < cm_gnext cm'"
    and "map_of (cm_groups cm) name = None \<Longrightarrow>
      cg_getPosition (cm_gstore cm' g) = (None, 0) \<and> \<not> cg_closed (cm_gstore cm' g)"
    and "g' < cm_gnext cm \<Longrightarrow> cm_gstore cm' g' = cm_gstore cm g'"
    by blast+
qed

text \<open>A new member of a group shares the group's position.\<close>

lemma cm_AddConsumerToGroup_spec:
  assumes wf: "cm_wf cm" and pos: "cm_positions cl cm"
    and fresh: "uuid \<notin> fst ` set (cm_consumers cm)" and g: "g < cm_gnext cm"
    and eq: "cm_AddConsumerToGroup uuid maxHistory now g cm = (p, cm')"
  shows "cm_wf cm'" and "cm_positions cl cm'"
    and "cm_consumers cm' = cm_consumers cm @ [(uuid, p)]"
    and "cm_groups cm' = cm_groups cm" and "cm_gstore cm' = cm_gstore cm"
    and "left_to_read cl (cm_cstore cm' p, cm_gstore cm') = unread cl (cg_getPosition (cm_gstore cm g))"
proof -
  let ?c = "(NewConsumer uuid (Some maxHistory) now)\<lparr>c_group := Some g\<rparr>"
  have c: "c_wf ?c" "c_id ?c = uuid" "length (c_dequeueHistory ?c) \<le> c_maxHistory ?c"
    by (auto simp: c_wf_def NewConsumer_def)
  have reg: "cm_register ?c cm = (p, cm')" using eq by (simp add: cm_AddConsumerToGroup_def)
  have fr: "c_id ?c \<notin> fst ` set (cm_consumers cm)" using fresh c(2) by simp
  note R = cm_register_spec [OF wf pos c(1,3) fr _ _ reg, simplified]
  show "cm_wf cm'" "cm_positions cl cm'" "cm_groups cm' = cm_groups cm" "cm_gstore cm' = cm_gstore cm"
    using R g by blast+
  show "cm_consumers cm' = cm_consumers cm @ [(uuid, p)]" using R(6) g c(2) by simp
  show "left_to_read cl (cm_cstore cm' p, cm_gstore cm') = unread cl (cg_getPosition (cm_gstore cm g))"
    using R(4,5) g by (simp add: left_to_read_def c_GetPosition_def)
qed

section \<open>Removing readers\<close>

text \<open>While a removal runs the snapshot is stale: the invariant without it.\<close>

abbreviation cm_core :: "consumer_manager \<Rightarrow> bool" where
  "cm_core cm \<equiv> cm_wf (updateActiveConsumers cm)"

lemma updateActiveConsumers_simps [simp]:
  "cm_consumers (updateActiveConsumers cm) = cm_consumers cm" "cm_groups (updateActiveConsumers cm) = cm_groups cm"
  "cm_cstore (updateActiveConsumers cm) = cm_cstore cm" "cm_gstore (updateActiveConsumers cm) = cm_gstore cm"
  "cm_cnext (updateActiveConsumers cm) = cm_cnext cm" "cm_gnext (updateActiveConsumers cm) = cm_gnext cm"
  "cm_activeConsumers (updateActiveConsumers cm) = map snd (cm_consumers cm)"
  by (simp_all add: updateActiveConsumers_def)

lemma cm_wf_core: "cm_wf cm \<longleftrightarrow> cm_core cm \<and> cm_activeConsumers cm = map snd (cm_consumers cm)"
  by (auto simp: cm_wf_def)

lemma AList_delete_pair:
  "distinct (map fst xs) \<Longrightarrow> (k, v) \<in> set xs \<Longrightarrow> AList.delete k xs = filter (\<lambda>x. x \<noteq> (k, v)) xs"
  unfolding AList.delete_eq by (rule filter_cong) (auto dest: eq_key_imp_eq_value)

lemma cm_drop_consumer_spec:
  assumes core: "cm_core cm" and m: "(uid, p) \<in> set (cm_consumers cm)"
  obtains c' where "cm_drop_consumer (uid, p) cm = Some (cm\<lparr>cm_cstore := (cm_cstore cm)(p := c'),
      cm_consumers := filter (\<lambda>x. x \<noteq> (uid, p)) (cm_consumers cm)\<rparr>)"
    and "c_closed c'" and "c' = (cm_cstore cm p)\<lparr>c_closed := True, c_notificationCh := c_notificationCh c'\<rparr>"
    and "cm_core (cm\<lparr>cm_cstore := (cm_cstore cm)(p := c'),
      cm_consumers := filter (\<lambda>x. x \<noteq> (uid, p)) (cm_consumers cm)\<rparr>)"
proof -
  note W = cm_wfD [OF core, simplified]
  obtain c' where c': "c_Close (cm_cstore cm p) = Some c'" "c_wf c'" "c_closed c'"
    "c' = (cm_cstore cm p)\<lparr>c_closed := True, c_notificationCh := c_notificationCh c'\<rparr>"
    by (rule c_Close_wf [OF W(11) [of p]])
  let ?cm = "cm\<lparr>cm_cstore := (cm_cstore cm)(p := c'),
      cm_consumers := filter (\<lambda>x. x \<noteq> (uid, p)) (cm_consumers cm)\<rparr>"
  have same: "c_id c' = c_id (cm_cstore cm p)" "c_group c' = c_group (cm_cstore cm p)"
    "c_dequeueHistory c' = c_dequeueHistory (cm_cstore cm p)" "c_maxHistory c' = c_maxHistory (cm_cstore cm p)"
    by (subst c'(4), simp)+
  have "cm_core ?cm"
    unfolding cm_wf_def
  proof (intro conjI allI impI)
    show "\<forall>(uid, p) \<in> set (cm_consumers (updateActiveConsumers ?cm)). p < cm_cnext (updateActiveConsumers ?cm)
         \<and> c_id (cm_cstore (updateActiveConsumers ?cm) p) = uid
         \<and> (\<forall>g. c_group (cm_cstore (updateActiveConsumers ?cm) p) = Some g
              \<longrightarrow> g < cm_gnext (updateActiveConsumers ?cm))"
      using W(5-7) same by auto
    show "distinct (map fst (cm_consumers (updateActiveConsumers ?cm)))"
      "distinct (map snd (cm_consumers (updateActiveConsumers ?cm)))"
      using W(1,2) by (simp_all add: distinct_map_filter)
  qed (use W(3,4,8-14) c'(2) same in \<open>auto\<close>)
  then show ?thesis
    using that [of c'] c' m W(1) by (simp add: cm_drop_consumer_def on_consumer_def AList_delete_pair)
qed

text \<open>A loop that closes and deletes the consumers that satisfy \<open>P\<close>, and counts them.\<close>

lemma fold_drop_consumers:
  assumes "cm_core cm" and "distinct xs" and "set xs \<subseteq> set (cm_consumers cm)"
  shows "\<exists>cm'. fold_opt (\<lambda>(uid, p) (removed, cm).
           if P (cm_cstore cm p) then map_option (\<lambda>cm. (removed + 1, cm)) (cm_drop_consumer (uid, p) cm)
           else Some (removed, cm)) xs (r :: nat, cm)
       = Some (r + length (filter (\<lambda>x. P (cm_cstore cm (snd x))) xs), cm')
     \<and> cm_core cm' \<and> cm_consumers cm' = filter (\<lambda>x. x \<notin> set xs \<or> \<not> P (cm_cstore cm (snd x))) (cm_consumers cm)
     \<and> (\<forall>p. (\<exists>u. (u, p) \<in> set xs) \<and> P (cm_cstore cm p) \<longrightarrow> c_closed (cm_cstore cm' p))
     \<and> (\<forall>p. \<not> ((\<exists>u. (u, p) \<in> set xs) \<and> P (cm_cstore cm p)) \<longrightarrow> cm_cstore cm' p = cm_cstore cm p)
     \<and> cm_groups cm' = cm_groups cm \<and> cm_gstore cm' = cm_gstore cm \<and> cm_gnext cm' = cm_gnext cm
     \<and> cm_cnext cm' = cm_cnext cm \<and> cm_activeConsumers cm' = cm_activeConsumers cm"
  (is "\<exists>cm'. fold_opt ?f xs (r, cm) = _ \<and> _")
  using assms
proof (induction xs arbitrary: r cm)
  case (Cons x xs)
  obtain uid p where x: "x = (uid, p)" by fastforce
  have m: "(uid, p) \<in> set (cm_consumers cm)" using Cons.prems(3) x by simp
  note W = cm_wfD [OF Cons.prems(1), simplified]
  have p: "(u, p) \<notin> set xs" for u
    using Cons.prems(2,3) x m eq_key_imp_eq_value W(2)
    by (metis (no_types, lifting) distinct.simps(2) inj_on_eq_iff distinct_map list.set_intros(2) snd_conv subsetD)
  show ?case
  proof (cases "P (cm_cstore cm p)")
    case False
    then have f: "?f x (r, cm) = Some (r, cm)" using x by simp
    obtain cm' where I: "fold_opt ?f xs (r, cm)
         = Some (r + length (filter (\<lambda>x. P (cm_cstore cm (snd x))) xs), cm')"
       "cm_core cm'" "cm_consumers cm' = filter (\<lambda>x. x \<notin> set xs \<or> \<not> P (cm_cstore cm (snd x))) (cm_consumers cm)"
       "\<And>p. (\<exists>u. (u, p) \<in> set xs) \<and> P (cm_cstore cm p) \<Longrightarrow> c_closed (cm_cstore cm' p)"
       "\<And>p. \<not> ((\<exists>u. (u, p) \<in> set xs) \<and> P (cm_cstore cm p)) \<Longrightarrow> cm_cstore cm' p = cm_cstore cm p"
       "cm_groups cm' = cm_groups cm" "cm_gstore cm' = cm_gstore cm" "cm_gnext cm' = cm_gnext cm"
       "cm_cnext cm' = cm_cnext cm" "cm_activeConsumers cm' = cm_activeConsumers cm"
    proof -
      have "distinct xs" "set xs \<subseteq> set (cm_consumers cm)" using Cons.prems(2,3) by simp_all
      from Cons.IH [OF Cons.prems(1) this, of r] show ?thesis using that by blast
    qed
    have "cm_consumers cm' = filter (\<lambda>y. y \<notin> set (x # xs) \<or> \<not> P (cm_cstore cm (snd y))) (cm_consumers cm)"
      unfolding I(3) using False x by (auto intro!: filter_cong)
    moreover have "c_closed (cm_cstore cm' q)" if "(\<exists>u. (u, q) \<in> set (x # xs)) \<and> P (cm_cstore cm q)" for q
      using that I(4) [of q] False x by auto
    moreover have "cm_cstore cm' q = cm_cstore cm q" if "\<not> ((\<exists>u. (u, q) \<in> set (x # xs)) \<and> P (cm_cstore cm q))" for q
      using that I(5) [of q] x False by auto
    ultimately show ?thesis
      using f I(1,2,6-10) False x by (intro exI [of _ cm']) simp
  next
    case True
    obtain c' where c': "cm_drop_consumer (uid, p) cm = Some (cm\<lparr>cm_cstore := (cm_cstore cm)(p := c'),
      cm_consumers := filter (\<lambda>x. x \<noteq> (uid, p)) (cm_consumers cm)\<rparr>)"
      "c_closed c'"
      "cm_core (cm\<lparr>cm_cstore := (cm_cstore cm)(p := c'),
          cm_consumers := filter (\<lambda>x. x \<noteq> (uid, p)) (cm_consumers cm)\<rparr>)"
      by (rule cm_drop_consumer_spec [OF Cons.prems(1) m]) blast
    let ?cm = "cm\<lparr>cm_cstore := (cm_cstore cm)(p := c'),
          cm_consumers := filter (\<lambda>x. x \<noteq> (uid, p)) (cm_consumers cm)\<rparr>"
    have f: "?f x (r, cm) = Some (r + 1, ?cm)" using x True c'(1) by simp
    have sub: "set xs \<subseteq> set (cm_consumers ?cm)" using Cons.prems(2,3) x by auto
    have P': "P (cm_cstore ?cm (snd y)) = P (cm_cstore cm (snd y))" if "y \<in> set xs" for y
      using that p [of "fst y"] by (cases "snd y = p") (metis prod.collapse, simp)
    obtain cm' where I: "fold_opt ?f xs (r + 1, ?cm)
         = Some (r + 1 + length (filter (\<lambda>x. P (cm_cstore ?cm (snd x))) xs), cm')"
       "cm_core cm'" "cm_consumers cm' = filter (\<lambda>x. x \<notin> set xs \<or> \<not> P (cm_cstore ?cm (snd x))) (cm_consumers ?cm)"
       "\<And>p. (\<exists>u. (u, p) \<in> set xs) \<and> P (cm_cstore ?cm p) \<Longrightarrow> c_closed (cm_cstore cm' p)"
       "\<And>p. \<not> ((\<exists>u. (u, p) \<in> set xs) \<and> P (cm_cstore ?cm p)) \<Longrightarrow> cm_cstore cm' p = cm_cstore ?cm p"
       "cm_groups cm' = cm_groups ?cm" "cm_gstore cm' = cm_gstore ?cm" "cm_gnext cm' = cm_gnext ?cm"
       "cm_cnext cm' = cm_cnext ?cm" "cm_activeConsumers cm' = cm_activeConsumers ?cm"
    proof -
      have "distinct xs" using Cons.prems(2) by simp
      from Cons.IH [OF c'(3) this sub, of "r + 1"] show ?thesis using that by blast
    qed
    have "filter (\<lambda>x. P (cm_cstore ?cm (snd x))) xs = filter (\<lambda>x. P (cm_cstore cm (snd x))) xs"
      by (rule filter_cong) (use P' in auto)
    moreover have "cm_consumers cm' = filter (\<lambda>y. y \<notin> set (x # xs) \<or> \<not> P (cm_cstore cm (snd y))) (cm_consumers cm)"
      unfolding I(3) using True x P' by (auto intro!: filter_cong)
    moreover have "c_closed (cm_cstore cm' q)" if "(\<exists>u. (u, q) \<in> set (x # xs)) \<and> P (cm_cstore cm q)" for q
      using that I(4,5) [of q] c'(2) x p by (cases "q = p") auto
    moreover have "cm_cstore cm' q = cm_cstore cm q" if "\<not> ((\<exists>u. (u, q) \<in> set (x # xs)) \<and> P (cm_cstore cm q))" for q
      using that I(5) [of q] x True by (cases "q = p") auto
    ultimately show ?thesis
      using f I(1,2,6-10) True x by (intro exI [of _ cm']) simp
  qed
qed simp

lemma fold_opt_count:
  "fold_opt (\<lambda>(uid, p) cm. if P (cm_cstore cm p) then cm_drop_consumer (uid, p) cm else Some cm) xs cm
   = map_option snd (fold_opt (\<lambda>(uid, p) (removed, cm).
       if P (cm_cstore cm p) then map_option (\<lambda>cm. (removed + 1, cm)) (cm_drop_consumer (uid, p) cm)
       else Some (removed, cm)) xs (r :: nat, cm))"
proof (induction xs arbitrary: cm r)
  case (Cons x xs)
  obtain uid p where x: "x = (uid, p)" by fastforce
  show ?case
    using Cons.IH [of cm r] Cons.IH [of _ "r + 1"] x
    by (cases "cm_drop_consumer (uid, p) cm") auto
qed simp

lemma cm_drop_group_spec:
  assumes core: "cm_core cm" and m: "(name, g) \<in> set (cm_groups cm)"
  obtains cg' where "cm_drop_group (name, g) cm = Some (cm\<lparr>cm_gstore := (cm_gstore cm)(g := cg'),
      cm_groups := filter (\<lambda>x. x \<noteq> (name, g)) (cm_groups cm)\<rparr>)"
    and "cg_closed cg'"
    and "cm_core (cm\<lparr>cm_gstore := (cm_gstore cm)(g := cg'),
      cm_groups := filter (\<lambda>x. x \<noteq> (name, g)) (cm_groups cm)\<rparr>)"
proof -
  note W = cm_wfD [OF core, simplified]
  obtain cg' where c': "cg_Close (cm_gstore cm g) = Some cg'" "cg_wf cg'" "cg_closed cg'"
    "cg_name cg' = cg_name (cm_gstore cm g)"
    by (rule cg_Close_wf [OF W(12) [of g]])
  let ?cm = "cm\<lparr>cm_gstore := (cm_gstore cm)(g := cg'),
      cm_groups := filter (\<lambda>x. x \<noteq> (name, g)) (cm_groups cm)\<rparr>"
  have "cm_core ?cm"
    unfolding cm_wf_def
  proof (intro conjI allI impI)
    show "\<forall>(name, g) \<in> set (cm_groups (updateActiveConsumers ?cm)). g < cm_gnext (updateActiveConsumers ?cm)
        \<and> cg_name (cm_gstore (updateActiveConsumers ?cm) g) = name"
      using W(8,9) c'(4) by auto
    show "distinct (map fst (cm_groups (updateActiveConsumers ?cm)))"
      "distinct (map snd (cm_groups (updateActiveConsumers ?cm)))"
      using W(3,4) by (simp_all add: distinct_map_filter)
    show "cg_closed (cm_gstore (updateActiveConsumers ?cm) h)"
      if "h < cm_gnext (updateActiveConsumers ?cm)" "h \<notin> snd ` set (cm_groups (updateActiveConsumers ?cm))" for h
    proof (cases "h = g")
      case False
      then have "h \<notin> snd ` set (cm_groups cm)" using that(2) by force
      then show ?thesis using W(14) [of h] that(1) False by simp
    qed (use c'(3) in simp)
  qed (use W(1,2,5-7,10-13) c'(2) in \<open>auto\<close>)
  then show ?thesis
    using that [of cg'] c' m W(3) by (simp add: cm_drop_group_def on_group_def AList_delete_pair)
qed

text \<open>A loop that closes and deletes the groups that satisfy \<open>Q\<close>, which looks at consumers only.\<close>

lemma fold_drop_groups:
  assumes "cm_core cm" and "distinct xs" and "set xs \<subseteq> set (cm_groups cm)"
    and Q: "\<And>cm' g. cm_consumers cm' = cm_consumers cm \<Longrightarrow> cm_cstore cm' = cm_cstore cm \<Longrightarrow> Q cm' g = R g"
  shows "\<exists>cm'. fold_opt (\<lambda>(name, g) cm. if Q cm g then cm_drop_group (name, g) cm else Some cm) xs cm = Some cm'
     \<and> cm_core cm' \<and> cm_groups cm' = filter (\<lambda>x. x \<notin> set xs \<or> \<not> R (snd x)) (cm_groups cm)
     \<and> (\<forall>g. (\<exists>u. (u, g) \<in> set xs) \<and> R g \<longrightarrow> cg_closed (cm_gstore cm' g))
     \<and> (\<forall>g. \<not> ((\<exists>u. (u, g) \<in> set xs) \<and> R g) \<longrightarrow> cm_gstore cm' g = cm_gstore cm g)
     \<and> cm_consumers cm' = cm_consumers cm \<and> cm_cstore cm' = cm_cstore cm \<and> cm_gnext cm' = cm_gnext cm
     \<and> cm_cnext cm' = cm_cnext cm \<and> cm_activeConsumers cm' = cm_activeConsumers cm"
  (is "\<exists>cm'. fold_opt ?f xs cm = _ \<and> _")
  using assms
proof (induction xs arbitrary: cm)
  case (Cons x xs)
  obtain name g where x: "x = (name, g)" by fastforce
  have m: "(name, g) \<in> set (cm_groups cm)" using Cons.prems(3) x by simp
  note W = cm_wfD [OF Cons.prems(1), simplified] and Q = Cons.prems(4)
  have g: "(u, g) \<notin> set xs" for u
    using Cons.prems(2,3) x m eq_key_imp_eq_value W(4)
    by (metis (no_types, lifting) distinct.simps(2) inj_on_eq_iff distinct_map list.set_intros(2) snd_conv subsetD)
  have step: "\<exists>cm1. ?f x cm = Some cm1 \<and> cm_core cm1
      \<and> cm_groups cm1 = filter (\<lambda>y. y \<noteq> x \<or> \<not> R g) (cm_groups cm)
      \<and> (R g \<longrightarrow> cg_closed (cm_gstore cm1 g)) \<and> (\<forall>h. h \<noteq> g \<or> \<not> R g \<longrightarrow> cm_gstore cm1 h = cm_gstore cm h)
      \<and> cm_consumers cm1 = cm_consumers cm \<and> cm_cstore cm1 = cm_cstore cm \<and> cm_gnext cm1 = cm_gnext cm
      \<and> cm_cnext cm1 = cm_cnext cm \<and> cm_activeConsumers cm1 = cm_activeConsumers cm"
  proof (cases "R g")
    case False
    then show ?thesis using Q [of cm g] x Cons.prems(1) by (intro exI [of _ cm]) simp
  next
    case True
    obtain cg' where c': "cm_drop_group (name, g) cm = Some (cm\<lparr>cm_gstore := (cm_gstore cm)(g := cg'),
        cm_groups := filter (\<lambda>x. x \<noteq> (name, g)) (cm_groups cm)\<rparr>)" "cg_closed cg'"
      "cm_core (cm\<lparr>cm_gstore := (cm_gstore cm)(g := cg'),
        cm_groups := filter (\<lambda>x. x \<noteq> (name, g)) (cm_groups cm)\<rparr>)"
      by (rule cm_drop_group_spec [OF Cons.prems(1) m]) blast
    then show ?thesis
      using Q [of cm g] x True
      by (intro exI [of _ "cm\<lparr>cm_gstore := (cm_gstore cm)(g := cg'),
        cm_groups := filter (\<lambda>x. x \<noteq> (name, g)) (cm_groups cm)\<rparr>"]) simp
  qed
  then obtain cm1 where s: "?f x cm = Some cm1" "cm_core cm1"
      "cm_groups cm1 = filter (\<lambda>y. y \<noteq> x \<or> \<not> R g) (cm_groups cm)"
      "R g \<Longrightarrow> cg_closed (cm_gstore cm1 g)" "\<And>h. h \<noteq> g \<or> \<not> R g \<Longrightarrow> cm_gstore cm1 h = cm_gstore cm h"
      "cm_consumers cm1 = cm_consumers cm" "cm_cstore cm1 = cm_cstore cm" "cm_gnext cm1 = cm_gnext cm"
      "cm_cnext cm1 = cm_cnext cm" "cm_activeConsumers cm1 = cm_activeConsumers cm"
    by blast
  have sub: "distinct xs" "set xs \<subseteq> set (cm_groups cm1)" using Cons.prems(2,3) s(3) by auto
  obtain cm' where I: "fold_opt ?f xs cm1 = Some cm'" "cm_core cm'"
      "cm_groups cm' = filter (\<lambda>x. x \<notin> set xs \<or> \<not> R (snd x)) (cm_groups cm1)"
      "\<And>g. (\<exists>u. (u, g) \<in> set xs) \<and> R g \<Longrightarrow> cg_closed (cm_gstore cm' g)"
      "\<And>g. \<not> ((\<exists>u. (u, g) \<in> set xs) \<and> R g) \<Longrightarrow> cm_gstore cm' g = cm_gstore cm1 g"
      "cm_consumers cm' = cm_consumers cm1" "cm_cstore cm' = cm_cstore cm1" "cm_gnext cm' = cm_gnext cm1"
      "cm_cnext cm' = cm_cnext cm1" "cm_activeConsumers cm' = cm_activeConsumers cm1"
    using Cons.IH [OF s(2) sub] Q s(6,7) by (metis (no_types, lifting))
  have "cm_groups cm' = filter (\<lambda>y. y \<notin> set (x # xs) \<or> \<not> R (snd y)) (cm_groups cm)"
    unfolding I(3) s(3) using x by (auto intro!: filter_cong)
  moreover have "cg_closed (cm_gstore cm' h)" if "(\<exists>u. (u, h) \<in> set (x # xs)) \<and> R h" for h
    using that I(4,5) [of h] s(4) x g by (cases "h = g") auto
  moreover have "cm_gstore cm' h = cm_gstore cm h" if "\<not> ((\<exists>u. (u, h) \<in> set (x # xs)) \<and> R h)" for h
    using that I(5) [of h] s(5) [of h] x by (cases "h = g") auto
  ultimately show ?case
    using s(1,6-10) I(1,2,6-10) by (intro exI [of _ cm']) simp
qed simp

text \<open>The three removals. None panics; what is removed is closed; the positions that stay are valid.\<close>

lemma cm_positions_sub:
  assumes "cm_positions cl cm" and "set (cm_consumers cm') \<subseteq> set (cm_consumers cm)"
    and "set (cm_groups cm') \<subseteq> set (cm_groups cm)"
    and "\<And>uid p. (uid, p) \<in> set (cm_consumers cm') \<Longrightarrow> cm_cstore cm' p = cm_cstore cm p"
    and "\<And>name g. (name, g) \<in> set (cm_groups cm') \<Longrightarrow> cm_gstore cm' g = cm_gstore cm g"
  shows "cm_positions cl cm'"
  unfolding cm_positions_def
proof (safe, goal_cases)
  case (1 uid p)
  then show ?case using cm_positionsD(1) [OF assms(1), of uid p] assms(2,4) by auto
next
  case (2 name g)
  then show ?case using cm_positionsD(2) [OF assms(1), of name g] assms(3,5) by auto
qed

lemma cm_RemoveConsumer_spec:
  assumes wf: "cm_wf cm" and pos: "cm_positions cl cm"
  obtains cm' where
    "cm_RemoveConsumer uid cm = Some (uid \<in> fst ` set (cm_consumers cm), cm')"
    and "cm_wf cm'" and "cm_positions cl cm'"
    and "cm_consumers cm' = filter (\<lambda>x. fst x \<noteq> uid) (cm_consumers cm)"
    and "cm_groups cm' = cm_groups cm"
    and "\<And>p. (uid, p) \<in> set (cm_consumers cm) \<Longrightarrow> c_closed (cm_cstore cm' p)"
    and "\<And>p. (uid, p) \<notin> set (cm_consumers cm) \<Longrightarrow> cm_cstore cm' p = cm_cstore cm p"
    and "cm_gstore cm' = cm_gstore cm"
proof (cases "map_of (cm_consumers cm) uid")
  case None
  then have n: "uid \<notin> fst ` set (cm_consumers cm)" by (simp add: map_of_eq_None_iff)
  then have "filter (\<lambda>x. fst x \<noteq> uid) (cm_consumers cm) = cm_consumers cm"
    by (auto simp: filter_id_conv)
  then show ?thesis
    using None n wf pos by (intro that [of cm]) (auto simp: cm_RemoveConsumer_def image_iff)
next
  case (Some p)
  then have m: "(uid, p) \<in> set (cm_consumers cm)" by (rule map_of_SomeD)
  have core: "cm_core cm" by (rule cm_wf_core [THEN iffD1, THEN conjunct1, OF wf])
  note W = cm_wfD [OF wf]
  obtain c' where c': "cm_drop_consumer (uid, p) cm = Some (cm\<lparr>cm_cstore := (cm_cstore cm)(p := c'),
      cm_consumers := filter (\<lambda>x. x \<noteq> (uid, p)) (cm_consumers cm)\<rparr>)" "c_closed c'"
    "cm_core (cm\<lparr>cm_cstore := (cm_cstore cm)(p := c'),
      cm_consumers := filter (\<lambda>x. x \<noteq> (uid, p)) (cm_consumers cm)\<rparr>)"
    by (rule cm_drop_consumer_spec [OF core m]) blast
  let ?cm = "updateActiveConsumers (cm\<lparr>cm_cstore := (cm_cstore cm)(p := c'),
      cm_consumers := filter (\<lambda>x. x \<noteq> (uid, p)) (cm_consumers cm)\<rparr>)"
  have uniq: "q = p" if "(uid, q) \<in> set (cm_consumers cm)" for q
    using that m eq_key_imp_eq_value [OF W(1)] by blast
  have other: "q \<noteq> p" if "(u, q) \<in> set (cm_consumers cm)" "u \<noteq> uid" for u q
    using that m W(6) by blast
  have fl: "filter (\<lambda>x. x \<noteq> (uid, p)) (cm_consumers cm) = filter (\<lambda>x. fst x \<noteq> uid) (cm_consumers cm)"
  proof (rule filter_cong [OF refl])
    fix x assume "x \<in> set (cm_consumers cm)"
    then show "(x \<noteq> (uid, p)) = (fst x \<noteq> uid)" using uniq [of "snd x"] m by (cases x) auto
  qed
  show ?thesis
  proof (rule that [of ?cm])
    show "cm_positions cl ?cm"
      by (rule cm_positions_sub [OF pos]) (use other uniq in auto)
    show "cm_RemoveConsumer uid cm = Some (uid \<in> fst ` set (cm_consumers cm), ?cm)"
      using Some c'(1) m by (force simp: cm_RemoveConsumer_def)
    show "cm_wf ?cm" by (rule c'(3))
    show "cm_consumers ?cm = filter (\<lambda>x. fst x \<noteq> uid) (cm_consumers cm)" using fl by simp
    show "c_closed (cm_cstore ?cm q)" if "(uid, q) \<in> set (cm_consumers cm)" for q
      using uniq [OF that] c'(2) by simp
    show "cm_cstore ?cm q = cm_cstore cm q" if "(uid, q) \<notin> set (cm_consumers cm)" for q
      using that m by (cases "q = p") simp_all
  qed simp_all
qed

lemma cm_RemoveGroup_spec:
  assumes wf: "cm_wf cm" and pos: "cm_positions cl cm" and m: "(name, g) \<in> set (cm_groups cm)"
  obtains cm' where
    "cm_RemoveGroup name cm = Some (True, cm')" and "cm_wf cm'" and "cm_positions cl cm'"
    and "cm_consumers cm' = filter (\<lambda>x. c_group (cm_cstore cm (snd x)) \<noteq> Some g) (cm_consumers cm)"
    and "cm_groups cm' = filter (\<lambda>x. x \<noteq> (name, g)) (cm_groups cm)"
    and "cg_closed (cm_gstore cm' g)"
    and "\<And>uid p. (uid, p) \<in> set (cm_consumers cm) \<Longrightarrow> c_group (cm_cstore cm p) = Some g \<Longrightarrow>
          c_closed (cm_cstore cm' p)"
    and "\<And>p. c_group (cm_cstore cm p) \<noteq> Some g \<Longrightarrow> cm_cstore cm' p = cm_cstore cm p"
proof -
  have core: "cm_core cm" by (rule cm_wf_core [THEN iffD1, THEN conjunct1, OF wf])
  note W = cm_wfD [OF wf]
  have g: "map_of (cm_groups cm) name = Some g" using m W(3) by simp
  have d: "distinct (cm_consumers cm)" using W(1) by (simp add: distinct_map)
  obtain cm1 where F: "fold_opt (\<lambda>(uid, p) (removed, cm).
           if c_group (cm_cstore cm p) = Some g
           then map_option (\<lambda>cm. (removed + 1, cm)) (cm_drop_consumer (uid, p) cm)
           else Some (removed, cm)) (cm_consumers cm) (0, cm)
       = Some (0 + length (filter (\<lambda>x. c_group (cm_cstore cm (snd x)) = Some g) (cm_consumers cm)), cm1)"
     "cm_core cm1" "cm_consumers cm1 = filter (\<lambda>x. x \<notin> set (cm_consumers cm)
         \<or> c_group (cm_cstore cm (snd x)) \<noteq> Some g) (cm_consumers cm)"
     "\<And>p. (\<exists>u. (u, p) \<in> set (cm_consumers cm)) \<and> c_group (cm_cstore cm p) = Some g \<Longrightarrow> c_closed (cm_cstore cm1 p)"
     "\<And>p. \<not> ((\<exists>u. (u, p) \<in> set (cm_consumers cm)) \<and> c_group (cm_cstore cm p) = Some g) \<Longrightarrow>
        cm_cstore cm1 p = cm_cstore cm p"
     "cm_groups cm1 = cm_groups cm" "cm_gstore cm1 = cm_gstore cm" "cm_gnext cm1 = cm_gnext cm"
     "cm_cnext cm1 = cm_cnext cm" "cm_activeConsumers cm1 = cm_activeConsumers cm"
    using fold_drop_consumers [OF core d subset_refl, of "\<lambda>c. c_group c = Some g" 0] by blast
  have loop: "fold_opt (\<lambda>(uid, p) cm. if c_group (cm_cstore cm p) = Some g
      then cm_drop_consumer (uid, p) cm else Some cm) (cm_consumers cm) cm = Some cm1"
    using fold_opt_count [of "\<lambda>c. c_group c = Some g" "cm_consumers cm" cm 0] F(1) by simp
  have m1: "(name, g) \<in> set (cm_groups cm1)" using m F(6) by simp
  obtain cg' where c': "cm_drop_group (name, g) cm1 = Some (cm1\<lparr>cm_gstore := (cm_gstore cm1)(g := cg'),
      cm_groups := filter (\<lambda>x. x \<noteq> (name, g)) (cm_groups cm1)\<rparr>)" "cg_closed cg'"
    "cm_core (cm1\<lparr>cm_gstore := (cm_gstore cm1)(g := cg'),
      cm_groups := filter (\<lambda>x. x \<noteq> (name, g)) (cm_groups cm1)\<rparr>)"
    by (rule cm_drop_group_spec [OF F(2) m1]) blast
  let ?cm = "updateActiveConsumers (cm1\<lparr>cm_gstore := (cm_gstore cm1)(g := cg'),
      cm_groups := filter (\<lambda>x. x \<noteq> (name, g)) (cm_groups cm1)\<rparr>)"
  have other: "h \<noteq> g" if "(n, h) \<in> set (cm_groups cm)" "(n, h) \<noteq> (name, g)" for n h
    using that m W(9) by blast
  show ?thesis
  proof (rule that [of ?cm])
    show "cm_RemoveGroup name cm = Some (True, ?cm)"
      using g loop c'(1) by (simp add: cm_RemoveGroup_def)
    show "cm_positions cl ?cm"
      by (rule cm_positions_sub [OF pos]) (use F(3,5,6,7) other in auto)
    show "cm_consumers ?cm = filter (\<lambda>x. c_group (cm_cstore cm (snd x)) \<noteq> Some g) (cm_consumers cm)"
      using F(3) by (auto intro!: filter_cong)
  qed (use c' F in auto)
qed

text \<open>
  \<^verbatim>\<open>CleanInactive\<close> closes and removes exactly the consumers whose last read is too long ago, of a
  group or not, and every group that is left without a consumer, also one that never had any.
\<close>

lemma cm_CleanInactive_spec:
  fixes now :: time and timeout :: duration
  assumes wf: "cm_wf cm" and pos: "cm_positions cl cm"
  defines "idle \<equiv> \<lambda>p. time_Since now (c_lastReadTime (cm_cstore cm p)) > timeout"
  obtains cm' where
    "cm_CleanInactive timeout now cm = Some (length (filter (\<lambda>x. idle (snd x)) (cm_consumers cm)), cm')"
    and "cm_wf cm'" and "cm_positions cl cm'"
    and "cm_consumers cm' = filter (\<lambda>x. \<not> idle (snd x)) (cm_consumers cm)"
    and "cm_groups cm' = filter (\<lambda>x. \<exists>(uid, p) \<in> set (cm_consumers cm').
           c_group (cm_cstore cm p) = Some (snd x)) (cm_groups cm)"
    and "\<And>uid p. (uid, p) \<in> set (cm_consumers cm) \<Longrightarrow> idle p \<Longrightarrow> c_closed (cm_cstore cm' p)"
    and "\<And>name g. (name, g) \<in> set (cm_groups cm) \<Longrightarrow> (name, g) \<notin> set (cm_groups cm') \<Longrightarrow>
           cg_closed (cm_gstore cm' g)"
    and "\<And>uid p. (uid, p) \<in> set (cm_consumers cm') \<Longrightarrow> cm_cstore cm' p = cm_cstore cm p"
    and "\<And>name g. (name, g) \<in> set (cm_groups cm') \<Longrightarrow> cm_gstore cm' g = cm_gstore cm g"
proof -
  have core: "cm_core cm" by (rule cm_wf_core [THEN iffD1, THEN conjunct1, OF wf])
  note W = cm_wfD [OF wf]
  have idle: "idle p \<longleftrightarrow> time_Since now (c_lastReadTime (cm_cstore cm p)) > timeout" for p
    by (simp add: idle_def)
  have d: "distinct (cm_consumers cm)" using W(1) by (simp add: distinct_map)
  obtain cm1 where F: "fold_opt (\<lambda>(uid, p) (removed, cm).
           if time_Since now (c_lastReadTime (cm_cstore cm p)) > timeout
           then map_option (\<lambda>cm. (removed + 1, cm)) (cm_drop_consumer (uid, p) cm)
           else Some (removed, cm)) (cm_consumers cm) (0, cm)
       = Some (0 + length (filter (\<lambda>x. idle (snd x)) (cm_consumers cm)), cm1)"
     "cm_core cm1" "cm_consumers cm1 = filter (\<lambda>x. x \<notin> set (cm_consumers cm) \<or> \<not> idle (snd x)) (cm_consumers cm)"
     "\<And>p. (\<exists>u. (u, p) \<in> set (cm_consumers cm)) \<and> idle p \<Longrightarrow> c_closed (cm_cstore cm1 p)"
     "\<And>p. \<not> ((\<exists>u. (u, p) \<in> set (cm_consumers cm)) \<and> idle p) \<Longrightarrow> cm_cstore cm1 p = cm_cstore cm p"
     "cm_groups cm1 = cm_groups cm" "cm_gstore cm1 = cm_gstore cm" "cm_gnext cm1 = cm_gnext cm"
     "cm_cnext cm1 = cm_cnext cm" "cm_activeConsumers cm1 = cm_activeConsumers cm"
    using fold_drop_consumers [OF core d subset_refl,
        of "\<lambda>c. time_Since now (c_lastReadTime c) > timeout" 0] unfolding idle by blast
  have cons1: "cm_consumers cm1 = filter (\<lambda>x. \<not> idle (snd x)) (cm_consumers cm)"
    unfolding F(3) by (auto intro!: filter_cong)
  let ?R = "\<lambda>g. \<not> (\<exists>(uid, p) \<in> set (cm_consumers cm1). c_group (cm_cstore cm1 p) = Some g)"
  let ?f = "\<lambda>(name, g) cm. let hasConsumers = (\<exists>(uid, p) \<in> set (cm_consumers cm). c_group (cm_cstore cm p) = Some g)
                in if \<not> hasConsumers then cm_drop_group (name, g) cm else Some cm"
  have dg: "distinct (cm_groups cm1)" using W(3) F(6) by (simp add: distinct_map)
  obtain cm2 where G: "fold_opt ?f (cm_groups cm1) cm1 = Some cm2"
     "cm_core cm2" "cm_groups cm2 = filter (\<lambda>x. x \<notin> set (cm_groups cm1) \<or> \<not> ?R (snd x)) (cm_groups cm1)"
     "\<And>g. (\<exists>u. (u, g) \<in> set (cm_groups cm1)) \<and> ?R g \<Longrightarrow> cg_closed (cm_gstore cm2 g)"
     "\<And>g. \<not> ((\<exists>u. (u, g) \<in> set (cm_groups cm1)) \<and> ?R g) \<Longrightarrow> cm_gstore cm2 g = cm_gstore cm1 g"
     "cm_consumers cm2 = cm_consumers cm1" "cm_cstore cm2 = cm_cstore cm1" "cm_gnext cm2 = cm_gnext cm1"
     "cm_cnext cm2 = cm_cnext cm1" "cm_activeConsumers cm2 = cm_activeConsumers cm1"
  proof -
    let ?Q = "\<lambda>cm g. \<not> (\<exists>(uid, p) \<in> set (cm_consumers cm). c_group (cm_cstore cm p) = Some g)"
    have "?Q cm' g = ?R g" if "cm_consumers cm' = cm_consumers cm1" "cm_cstore cm' = cm_cstore cm1" for cm' g
      using that by simp
    from fold_drop_groups [OF F(2) dg subset_refl, of ?Q ?R, OF this] show ?thesis
      using that unfolding Let_def by blast
  qed
  have keep: "cm_cstore cm1 p = cm_cstore cm p" if "(uid, p) \<in> set (cm_consumers cm1)" for uid p
    using that F(5) [of p] by (auto simp: cons1)
  have grp: "cm_groups cm2 = filter (\<lambda>x. \<exists>(uid, p) \<in> set (cm_consumers cm1).
           c_group (cm_cstore cm p) = Some (snd x)) (cm_groups cm)"
    unfolding G(3) F(6) by (rule filter_cong) (use keep in \<open>force+\<close>)
  let ?n = "length (filter (\<lambda>x. idle (snd x)) (cm_consumers cm))"
  let ?cm = "if ?n > 0 then updateActiveConsumers cm2 else cm2"
  have same: "cm_consumers ?cm = cm_consumers cm2" "cm_groups ?cm = cm_groups cm2"
     "cm_cstore ?cm = cm_cstore cm2" "cm_gstore ?cm = cm_gstore cm2" by simp_all
  have act: "cm_wf ?cm"
  proof (cases "?n > 0")
    case True
    then show ?thesis using G(2) by simp
  next
    case False
    then have same1: "cm_consumers cm1 = cm_consumers cm"
      unfolding cons1 by (simp add: filter_empty_conv filter_id_conv)
    have "cm_wf cm2"
      by (rule cm_wf_core [THEN iffD2, OF conjI]) (use G(2,6,10) F(10) W(10) same1 in simp_all)
    then show ?thesis using False by simp
  qed
  have gsame: "cm_gstore cm2 g = cm_gstore cm g" if "(name, g) \<in> set (cm_groups cm2)" for name g
    using that G(5) [of g] F(7) unfolding G(3) by auto
  have csame: "cm_cstore cm2 p = cm_cstore cm p" if "(uid, p) \<in> set (cm_consumers cm2)" for uid p
    using keep that G(6,7) by simp
  have sub: "set (cm_consumers cm2) \<subseteq> set (cm_consumers cm)" "set (cm_groups cm2) \<subseteq> set (cm_groups cm)"
    unfolding G(6) cons1 grp by auto
  show ?thesis
  proof (rule that [of ?cm])
    show "cm_CleanInactive timeout now cm = Some (?n, ?cm)"
      unfolding cm_CleanInactive_def using F(1) G(1) F(6) by simp
    show "cm_positions cl ?cm"
      by (rule cm_positions_sub [OF pos]; unfold same) (use gsame csame sub in blast)+
    show "cg_closed (cm_gstore ?cm g)" if "(name, g) \<in> set (cm_groups cm)" "(name, g) \<notin> set (cm_groups ?cm)" for name g
      using that G(4) [of g] unfolding same G(3) F(6) by auto
    show "cm_gstore ?cm g = cm_gstore cm g" if "(name, g) \<in> set (cm_groups ?cm)" for name g
      using that gsame unfolding same by blast
    show "cm_cstore ?cm p = cm_cstore cm p" if "(uid, p) \<in> set (cm_consumers ?cm)" for uid p
      using that csame unfolding same by blast
    show "c_closed (cm_cstore ?cm p)" if "(uid, p) \<in> set (cm_consumers cm)" "idle p" for uid p
      using that F(4) [of p] G(7) unfolding same by auto
    show "cm_consumers ?cm = filter (\<lambda>x. \<not> idle (snd x)) (cm_consumers cm)"
      unfolding same G(6) by (rule cons1)
    show "cm_groups ?cm = filter (\<lambda>x. \<exists>(uid, p) \<in> set (cm_consumers ?cm).
           c_group (cm_cstore cm p) = Some (snd x)) (cm_groups cm)"
      unfolding same G(6) by (rule grp)
  qed (rule act)
qed

end
