(* ===== verification/MQ_Text.thy ===== *)
theory MQ_Text
  imports MQ_Float
begin

text \<open>
  The standard library's text functions that the program uses: \<^verbatim>\<open>Duration.String\<close>, \<^verbatim>\<open>strings.Fields\<close>
  and \<^verbatim>\<open>strings.Join\<close>, \<^verbatim>\<open>strconv.Atoi\<close> and the padding of \<^verbatim>\<open>fmt\<close>. Strings are bytes; the white space
  is that of ASCII.
\<close>

section \<open>Durations\<close>

text \<open>The fraction \<open>v / 10 ^ prec\<close> without trailing zeros, and the whole part.\<close>

definition fmtFrac :: "nat \<Rightarrow> nat \<Rightarrow> string \<times> nat" where
  "fmtFrac prec v =
     (let ds = rev (dropWhile (\<lambda>c. c = CHR ''0'') (rev (pad_zeros prec (show_nat (v mod 10 ^ prec)))))
      in (if ds = [] then [] else ''.'' @ ds, v div 10 ^ prec))"

text \<open>The micro sign is two bytes in UTF-8.\<close>

definition show_duration :: "duration \<Rightarrow> string" where
  "show_duration d =
     (let u = nat \<bar>d\<bar>;
          text =
            if u = 0 then ''0s''
            else if u < 1000 then show_nat u @ ''ns''
            else if u < 1000000 then let (f, w) = fmtFrac 3 u in show_nat w @ f @ [char_of (194 :: nat), char_of (181 :: nat)] @ ''s''
            else if u < 1000000000 then let (f, w) = fmtFrac 6 u in show_nat w @ f @ ''ms''
            else
              let (f, w) = fmtFrac 9 u;
                  seconds = show_nat (w mod 60) @ f @ ''s'';
                  minutes = show_nat (w div 60 mod 60) @ ''m''
              in if w div 60 = 0 then seconds
                 else if w div 3600 = 0 then minutes @ seconds
                 else show_nat (w div 3600) @ ''h'' @ minutes @ seconds
      in if d < 0 then ''-'' @ text else text)"

text \<open>\<^verbatim>\<open>Duration.Seconds\<close>: whole seconds and the rest are divided, then added, in floating point.\<close>

definition duration_Seconds :: "duration \<Rightarrow> float64" where
  "duration_Seconds d =
     (let sec = sgn d * (\<bar>d\<bar> div 1000000000);
          nsec = sgn d * (\<bar>d\<bar> mod 1000000000)
      in f_add (float_of_int sec) (f_div (float_of_int nsec) (Fin 1000000000)))"

section \<open>Words\<close>

definition is_space :: "char \<Rightarrow> bool" where
  "is_space c \<longleftrightarrow> c \<in> {CHR '' '', CHR 0x09, CHR 0x0A, CHR 0x0B, CHR 0x0C, CHR 0x0D}"

function strings_Fields :: "string \<Rightarrow> string list" where
  "strings_Fields s =
     (let s' = dropWhile is_space s
      in if s' = [] then []
         else takeWhile (\<lambda>c. \<not> is_space c) s' # strings_Fields (dropWhile (\<lambda>c. \<not> is_space c) s'))"
  by pat_completeness auto
termination
proof (relation "measure length")
  fix s s' :: string
  assume s': "s' = dropWhile is_space s" "s' \<noteq> []"
  then have "\<not> is_space (hd s')" using hd_dropWhile by metis
  then have "length (dropWhile (\<lambda>c. \<not> is_space c) s') < length s'"
    using s'(2) by (cases s') (simp_all add: length_dropWhile_le less_Suc_eq_le)
  also have "\<dots> \<le> length s" unfolding s'(1) by (rule length_dropWhile_le)
  finally show "(dropWhile (\<lambda>c. \<not> is_space c) s', s) \<in> measure length" by simp
qed simp

declare strings_Fields.simps [simp del]

fun strings_Join :: "string list \<Rightarrow> string \<Rightarrow> string" where
  "strings_Join [] sep = []"
| "strings_Join [w] sep = w"
| "strings_Join (w # w' # ws) sep = w @ sep @ strings_Join (w' # ws) sep"

text \<open>A word: not empty, and without white space.\<close>

definition is_word :: "string \<Rightarrow> bool" where
  "is_word w \<longleftrightarrow> w \<noteq> [] \<and> (\<forall>c \<in> set w. \<not> is_space c)"

lemma is_space_blank [simp]: "is_space CHR '' ''"
  by (simp add: is_space_def)

lemma Fields_Nil [simp]: "strings_Fields [] = []"
  by (simp add: strings_Fields.simps [of "[]"])

lemma Fields_blank: "strings_Fields (CHR '' '' # s) = strings_Fields s"
  by (subst (1 2) strings_Fields.simps) simp

lemma Fields_word:
  assumes "is_word w" "s = [] \<or> is_space (hd s)"
  shows "strings_Fields (w @ s) = w # strings_Fields s"
proof -
  have w: "w \<noteq> []" "\<And>c. c \<in> set w \<Longrightarrow> \<not> is_space c" using assms(1) by (simp_all add: is_word_def)
  have "dropWhile is_space (w @ s) = w @ s" using w by (cases w) auto
  moreover have "takeWhile (\<lambda>c. \<not> is_space c) (w @ s) = w" using w assms(2) by (cases s) (auto simp: takeWhile_append2)
  moreover have "dropWhile (\<lambda>c. \<not> is_space c) (w @ s) = s" using w assms(2) by (cases s) (auto simp: dropWhile_append2)
  ultimately show ?thesis using w(1) by (subst strings_Fields.simps) simp
qed

text \<open>Splitting what was joined with blanks gives the words back.\<close>

lemma Fields_Join: "\<forall>w \<in> set ws. is_word w \<Longrightarrow> strings_Fields (strings_Join ws '' '') = ws"
proof (induction ws rule: induct_list012)
  case (2 w)
  then show ?case using Fields_word [of w "[]"] by simp
next
  case (3 w w' ws)
  then show ?case using Fields_word [of w "CHR '' '' # strings_Join (w' # ws) '' ''"] by (simp add: Fields_blank)
qed simp

text \<open>What splitting gives are words.\<close>

lemma Fields_words: "w \<in> set (strings_Fields s) \<Longrightarrow> is_word w"
proof (induction s rule: strings_Fields.induct)
  case (1 s)
  let ?s = "dropWhile is_space s"
  show ?case
  proof (cases "?s = []")
    case True
    then show ?thesis using "1.prems" by (subst (asm) strings_Fields.simps) simp
  next
    case False
    have "\<not> is_space (hd ?s)" using False hd_dropWhile by metis
    then have "is_word (takeWhile (\<lambda>c. \<not> is_space c) ?s)"
      using False by (cases ?s) (auto simp: is_word_def dest: set_takeWhileD)
    then show ?thesis
      using "1.prems" "1.IH" [OF refl False] False
      by (subst (asm) strings_Fields.simps) (auto simp: Let_def simp del: dropWhile_eq_Nil_conv)
  qed
qed

section \<open>Numbers\<close>

definition is_digit :: "char \<Rightarrow> bool" where
  "is_digit c \<longleftrightarrow> 48 \<le> (of_char c :: nat) \<and> (of_char c :: nat) < 58"

text \<open>\<^verbatim>\<open>strconv.Atoi\<close>, \<open>None\<close> for its errors (no number, or not an \<^verbatim>\<open>int\<close>).\<close>

definition strconv_Atoi :: "string \<Rightarrow> int option" where
  "strconv_Atoi s =
     (let neg = (s \<noteq> [] \<and> hd s = CHR ''-'');
          ds = (if s \<noteq> [] \<and> hd s \<in> {CHR ''-'', CHR ''+''} then tl s else s);
          n = (if neg then - int (read_nat ds) else int (read_nat ds))
      in if ds \<noteq> [] \<and> list_all is_digit ds \<and> is_int64 n then Some n else None)"

lemma Atoi_show_nat: "int n \<le> MaxInt64 \<Longrightarrow> strconv_Atoi (show_nat n) = Some (int n)"
proof -
  assume n: "int n \<le> MaxInt64"
  have d: "list_all is_digit (show_nat n)" using show_nat_digits by (auto simp: list_all_iff is_digit_def)
  have ne: "show_nat n \<noteq> []" by (subst show_nat.simps) simp
  have "is_digit (hd (show_nat n))" using d ne by (simp add: list_all_iff)
  then have "hd (show_nat n) \<noteq> CHR ''-''" "hd (show_nat n) \<noteq> CHR ''+''" by (auto simp: is_digit_def)
  then show ?thesis using d ne n by (simp add: strconv_Atoi_def read_show_nat int64_simps)
qed

end
