(* ===== verification/MQ_Queue.thy ===== *)
theory MQ_Queue
  imports MQ_Manager MQ_Text
begin

text \<open>
  The queue (\<^verbatim>\<open>queue/queue.go\<close>, \<^verbatim>\<open>queue/notify.go\<close>). The state is one record; the memory tracker is
  reached through the list that shares it, and the global counter \<^verbatim>\<open>dataIDSequence\<close> is a field. What
  an operation does while it holds the mutex is one step. \<open>None\<close> as the result of an operation is a
  panic (or, for a read, a loop that does not end).
\<close>

record queue =
  q_name :: string
  q_data :: chunked_list
  q_consumers :: consumer_manager
  q_closed :: bool
  q_ttl :: duration
  q_stopChan :: "unit chan"
  q_expirationEnabled :: bool
  q_createdAt :: time
  q_enqueueNotify :: "unit chan"
  q_dequeueNotify :: "unit chan"
  q_maxConsumerHistory :: nat
  q_maxItems :: int
  q_expirationCheckInterval :: duration
  q_consumerEvictionTimeout :: duration
  q_dataIDSequence :: "64 word"

abbreviation q_memoryTracker :: "queue \<Rightarrow> memory_tracker" where
  "q_memoryTracker q \<equiv> cl_memoryTracker (q_data q)"

record queue_config =
  cfg_TTL :: duration
  cfg_MaxMemory :: int
  cfg_MaxItems :: int
  cfg_MaxConsumerHistory :: int
  cfg_ExpirationCheckInterval :: duration
  cfg_ConsumerEvictionTimeout :: duration

definition DefaultTTL :: duration where
  "DefaultTTL = 10 * 60 * 1000000000"

definition DefaultExpirationCheckInterval :: duration where
  "DefaultExpirationCheckInterval = 30 * 1000000000"

definition NewQueueWithConfig :: "string \<Rightarrow> queue_config \<Rightarrow> time \<Rightarrow> 64 word \<Rightarrow> queue" where
  "NewQueueWithConfig name config now dataIDSequence =
     (let memoryTracker = NewMemoryTracker (cfg_MaxMemory config);
          interval = (if cfg_ExpirationCheckInterval config \<le> 0 then DefaultExpirationCheckInterval
                      else cfg_ExpirationCheckInterval config);
          config = (if cfg_MaxConsumerHistory config < 0
                    then config\<lparr>cfg_MaxConsumerHistory := 0\<rparr> else config)
      in \<lparr>q_name = name, q_data = NewChunkedList memoryTracker, q_consumers = NewConsumerManager,
          q_closed = False, q_ttl = cfg_TTL config, q_stopChan = make_chan 0,
          q_expirationEnabled = (cfg_TTL config > 0), q_createdAt = now,
          q_enqueueNotify = make_chan 100, q_dequeueNotify = make_chan 100,
          q_maxConsumerHistory = nat (cfg_MaxConsumerHistory config),
          q_maxItems = cfg_MaxItems config, q_expirationCheckInterval = interval,
          q_consumerEvictionTimeout = cfg_ConsumerEvictionTimeout config,
          q_dataIDSequence = dataIDSequence\<rparr>)"

definition NewQueueWithTTL :: "string \<Rightarrow> duration \<Rightarrow> time \<Rightarrow> 64 word \<Rightarrow> queue" where
  "NewQueueWithTTL name ttl =
     NewQueueWithConfig name
       \<lparr>cfg_TTL = ttl, cfg_MaxMemory = MaxQueueMemory, cfg_MaxItems = 0,
        cfg_MaxConsumerHistory = int DefaultMaxConsumerHistory,
        cfg_ExpirationCheckInterval = DefaultExpirationCheckInterval,
        cfg_ConsumerEvictionTimeout = 0\<rparr>"

definition NewQueue :: "string \<Rightarrow> time \<Rightarrow> 64 word \<Rightarrow> queue" where
  "NewQueue name = NewQueueWithTTL name DefaultTTL"

section \<open>Waking readers\<close>

definition chan_full :: "'a chan \<Rightarrow> bool" where
  "chan_full ch \<longleftrightarrow> \<not> ch_closed ch \<and> ch_cap ch \<le> length (ch_buf ch)"

text \<open>The loop of non-blocking sends that stops at a full channel.\<close>

fun send_signals :: "nat \<Rightarrow> unit chan \<Rightarrow> unit chan option" where
  "send_signals 0 ch = Some ch"
| "send_signals (Suc n) ch =
     (if chan_full ch then Some ch
      else case chan_try_send () ch of None \<Rightarrow> None | Some ch \<Rightarrow> send_signals n ch)"

definition notifyWaitingConsumers :: "queue \<Rightarrow> queue option" where
  "notifyWaitingConsumers q =
     (let consumerCount = length (cm_GetAllConsumers (q_consumers q))
      in if consumerCount = 0 then Some q
         else
           let queueDepth = cl_totalItems (q_data q);
               signals = (if queueDepth > int consumerCount then int consumerCount else queueDepth);
               signals = (if signals < 1 \<and> queueDepth > 0 then 1 else signals)
           in map_option (\<lambda>ch. q\<lparr>q_enqueueNotify := ch\<rparr>) (send_signals (nat signals) (q_enqueueNotify q)))"

section \<open>Adding one item\<close>

text \<open>What \<^verbatim>\<open>TryEnqueue\<close> and \<^verbatim>\<open>Enqueue\<close> do before they lock: the item with its size.\<close>

definition q_new_data :: "payload \<Rightarrow> time \<Rightarrow> queue \<Rightarrow> queue_data \<times> queue" where
  "q_new_data payload now q =
     (let (data, sequence) = NewQueueData payload (q_name q) now (q_dataIDSequence q);
          (sz, mt) = mt_EstimateQueueDataSize (Some data) (q_memoryTracker q)
      in (qd_SetSize sz data,
          q\<lparr>q_data := (q_data q)\<lparr>cl_memoryTracker := mt\<rparr>, q_dataIDSequence := sequence\<rparr>))"

definition q_TryEnqueue :: "payload \<Rightarrow> time \<Rightarrow> queue \<Rightarrow> (go_error option \<times> queue) option" where
  "q_TryEnqueue payload now q =
     (if q_closed q then Some (Some (QueueClosedError ''enqueue''), q)
      else
        let (data, q) = q_new_data payload now q
        in if q_closed q then Some (Some (QueueClosedError ''enqueue''), q)
           else if q_maxItems q > 0 \<and> cl_totalItems (q_data q) \<ge> q_maxItems q
           then Some (Some (QueueFullError (q_maxItems q)), q)
           else
             let (err, cl) = cl_Enqueue data (q_data q);
                 q = q\<lparr>q_data := cl\<rparr>
             in if err = None then map_option (\<lambda>q. (None, q)) (notifyWaitingConsumers q)
                else Some (err, q))"

text \<open>
  A blocking operation is a loop of attempts; between two of them it waits in a \<^verbatim>\<open>select\<close>. What
  happens there is given from outside: what the rest of the program did to the queue meanwhile, and
  which case of the \<^verbatim>\<open>select\<close> fired. With the end of that list the operation is still blocked.
\<close>

datatype wake = Notified | Stopped | CtxDone go_error

datatype ('e, 'q) attempt = Done 'e 'q | Wait 'q

datatype 'e outcome = Returned 'e | Blocked

type_synonym world = "(wake \<times> (queue \<Rightarrow> queue)) list"

definition take_token :: "'a chan \<Rightarrow> 'a chan" where
  "take_token ch = ch\<lparr>ch_buf := tl (ch_buf ch)\<rparr>"

text \<open>One round of \<^verbatim>\<open>Enqueue\<close>, from \<^verbatim>\<open>Lock\<close> to \<^verbatim>\<open>Unlock\<close> and the notification.\<close>

definition q_enqueue_round :: "(go_error \<Rightarrow> go_error) \<Rightarrow> queue_data \<Rightarrow> queue
    \<Rightarrow> (go_error option, queue) attempt option" where
  "q_enqueue_round wrap data q =
     (if q_closed q then Some (Done (Some (QueueClosedError ''enqueue'')) q)
      else if q_maxItems q > 0 \<and> cl_totalItems (q_data q) \<ge> q_maxItems q then Some (Wait q)
      else
        let (err, cl) = cl_Enqueue data (q_data q);
            q = q\<lparr>q_data := cl\<rparr>
        in case err of
             None \<Rightarrow> map_option (Done None) (notifyWaitingConsumers q)
           | Some e \<Rightarrow>
               (case e of
                  MemoryLimitError current mx needed \<Rightarrow>
                    if needed > mx then Some (Done (Some (wrap e)) q) else Some (Wait q)
                | _ \<Rightarrow> Some (Done (Some (wrap e)) q)))"

fun q_enqueue_loop :: "queue_data \<Rightarrow> world \<Rightarrow> queue \<Rightarrow> (go_error option outcome \<times> queue) option" where
  "q_enqueue_loop data env q =
     (case q_enqueue_round (\<lambda>e. e) data q of
        None \<Rightarrow> None
      | Some (Done err q) \<Rightarrow> Some (Returned err, q)
      | Some (Wait q) \<Rightarrow>
          (case env of
             [] \<Rightarrow> Some (Blocked, q)
           | (w, others) # env \<Rightarrow>
               (case w of
                  Notified \<Rightarrow>
                    q_enqueue_loop data env
                      ((others q)\<lparr>q_dequeueNotify := take_token (q_dequeueNotify (others q))\<rparr>)
                | _ \<Rightarrow> Some (Returned (Some (QueueClosedError ''enqueue'')), others q))))"

declare q_enqueue_loop.simps [simp del]

definition q_Enqueue ::
  "payload \<Rightarrow> time \<Rightarrow> world \<Rightarrow> queue \<Rightarrow> (go_error option outcome \<times> queue) option" where
  "q_Enqueue payload now env q =
     (if q_closed q then Some (Returned (Some (QueueClosedError ''enqueue'')), q)
      else
        let (data, q) = q_new_data payload now q
        in if qd_size data > mt_maxMemory (q_memoryTracker q)
           then Some (Returned (Some (MemoryLimitError (mt_totalMemory (q_memoryTracker q))
                        (mt_maxMemory (q_memoryTracker q)) (qd_size data))), q)
           else q_enqueue_loop data env q)"

text \<open>
  With a context, a round begins with a look at the context, whose answer is given with each round.
\<close>

type_synonym ctx_world = "(go_error option \<times> wake \<times> (queue \<Rightarrow> queue)) list"

fun q_enqueue_ctx_loop ::
  "queue_data \<Rightarrow> go_error option \<Rightarrow> ctx_world \<Rightarrow> queue \<Rightarrow> (go_error option outcome \<times> queue) option" where
  "q_enqueue_ctx_loop data ctx env q =
     (if ctx \<noteq> None then Some (Returned ctx, q)
      else case q_enqueue_round (ErrorfWrap ''enqueue failed: '') data q of
        None \<Rightarrow> None
      | Some (Done err q) \<Rightarrow> Some (Returned err, q)
      | Some (Wait q) \<Rightarrow>
          (case env of
             [] \<Rightarrow> Some (Blocked, q)
           | (ctx, w, others) # env \<Rightarrow>
               (case w of
                  Notified \<Rightarrow>
                    q_enqueue_ctx_loop data ctx env
                      ((others q)\<lparr>q_dequeueNotify := take_token (q_dequeueNotify (others q))\<rparr>)
                | Stopped \<Rightarrow> Some (Returned (Some (QueueClosedError ''enqueue'')), others q)
                | CtxDone err \<Rightarrow> Some (Returned (Some err), others q))))"

declare q_enqueue_ctx_loop.simps [simp del]

definition q_EnqueueWithContext ::
  "payload \<Rightarrow> time \<Rightarrow> go_error option \<Rightarrow> ctx_world \<Rightarrow> queue \<Rightarrow> (go_error option outcome \<times> queue) option" where
  "q_EnqueueWithContext payload now ctx env q =
     (if q_closed q then Some (Returned (Some (QueueClosedError ''enqueue'')), q)
      else
        let (data, q) = q_new_data payload now q
        in if qd_size data > mt_maxMemory (q_memoryTracker q)
           then Some (Returned (Some (MemoryLimitError (mt_totalMemory (q_memoryTracker q))
                        (mt_maxMemory (q_memoryTracker q)) (qd_size data))), q)
           else q_enqueue_ctx_loop data ctx env q)"

section \<open>Adding a batch\<close>

text \<open>
  The loop that makes the items of a batch and adds up their sizes: \<open>None\<close> for the overflow error.
  Each item reads the clock; the counter and the tracker's cache go through.
\<close>

fun make_items ::
  "string \<Rightarrow> clock \<Rightarrow> nat \<Rightarrow> payload list \<Rightarrow> queue_data list \<Rightarrow> int \<Rightarrow> 64 word \<Rightarrow> memory_tracker
    \<Rightarrow> (queue_data list \<times> int) option \<times> 64 word \<times> memory_tracker" where
  "make_items name clk k [] dataItems totalSize sequence mt = (Some (dataItems, totalSize), sequence, mt)"
| "make_items name clk k (payload # payloads) dataItems totalSize sequence mt =
     (let (data, sequence) = NewQueueData payload name (clk k) sequence;
          (sz, mt) = mt_EstimateQueueDataSize (Some data) mt;
          data = qd_SetSize sz data
      in if MaxInt64 - totalSize < sz then (None, sequence, mt)
         else make_items name clk (k + 1) payloads (dataItems @ [data]) (totalSize + sz) sequence mt)"

definition q_make_items ::
  "payload list \<Rightarrow> clock \<Rightarrow> queue \<Rightarrow> (queue_data list \<times> int) option \<times> queue" where
  "q_make_items payloads clk q =
     (let (items, sequence, mt) =
            make_items (q_name q) clk 0 payloads [] 0 (q_dataIDSequence q) (q_memoryTracker q)
      in (items, q\<lparr>q_data := (q_data q)\<lparr>cl_memoryTracker := mt\<rparr>, q_dataIDSequence := sequence\<rparr>))"

definition batch_overflow :: go_error where
  "batch_overflow = Errorf ''integer overflow in batch memory calculation''"

definition q_TryEnqueueBatch ::
  "payload list \<Rightarrow> clock \<Rightarrow> queue \<Rightarrow> (go_error option \<times> queue) option" where
  "q_TryEnqueueBatch payloads clk q =
     (if q_closed q then Some (Some (QueueClosedError ''enqueue batch''), q)
      else if payloads = [] then Some (None, q)
      else if q_closed q then Some (Some (QueueClosedError ''enqueue batch''), q)
      else if q_maxItems q > 0 \<and> cl_totalItems (q_data q) + int (length payloads) > q_maxItems q
      then Some (Some (QueueFullError (q_maxItems q)), q)
      else
        let (items, q) = q_make_items payloads clk q;
            mt = q_memoryTracker q
        in case items of
             None \<Rightarrow> Some (Some batch_overflow, q)
           | Some (dataItems, totalBatchSize) \<Rightarrow>
               if totalBatchSize > wrap64 (mt_maxMemory mt - mt_totalMemory mt)
               then Some (Some (MemoryLimitError (mt_totalMemory mt) (mt_maxMemory mt) totalBatchSize), q)
               else
                 let (err, cl) = cl_EnqueueBatch dataItems (q_data q);
                     q = q\<lparr>q_data := cl\<rparr>
                 in if err \<noteq> None then Some (err, q)
                    else map_option (\<lambda>q. (None, q)) (notifyWaitingConsumers q))"

text \<open>One round of \<^verbatim>\<open>EnqueueBatch\<close>, the same with a context.\<close>

definition q_batch_round ::
  "queue_data list \<Rightarrow> int \<Rightarrow> queue \<Rightarrow> (go_error option, queue) attempt option" where
  "q_batch_round dataItems totalBatchSize q =
     (if q_closed q then Some (Done (Some (QueueClosedError ''enqueue batch'')) q)
      else if q_maxItems q > 0 \<and> int (length dataItems) > q_maxItems q
      then Some (Done (Some (QueueFullError (q_maxItems q))) q)
      else if q_maxItems q > 0 \<and> cl_totalItems (q_data q) + int (length dataItems) > q_maxItems q
      then Some (Wait q)
      else
        let mt = q_memoryTracker q
        in if totalBatchSize > mt_maxMemory mt
           then Some (Done (Some (MemoryLimitError (mt_totalMemory mt) (mt_maxMemory mt) totalBatchSize)) q)
           else if wrap64 (mt_maxMemory mt - mt_totalMemory mt) \<ge> totalBatchSize then
             let (err, cl) = cl_EnqueueBatch dataItems (q_data q);
                 q = q\<lparr>q_data := cl\<rparr>
             in if err \<noteq> None then Some (Done err q)
                else map_option (Done None) (notifyWaitingConsumers q)
           else Some (Wait q))"

fun q_batch_loop ::
  "queue_data list \<Rightarrow> int \<Rightarrow> world \<Rightarrow> queue \<Rightarrow> (go_error option outcome \<times> queue) option" where
  "q_batch_loop dataItems totalSize env q =
     (case q_batch_round dataItems totalSize q of
        None \<Rightarrow> None
      | Some (Done err q) \<Rightarrow> Some (Returned err, q)
      | Some (Wait q) \<Rightarrow>
          (case env of
             [] \<Rightarrow> Some (Blocked, q)
           | (w, others) # env \<Rightarrow>
               (case w of
                  Notified \<Rightarrow>
                    q_batch_loop dataItems totalSize env
                      ((others q)\<lparr>q_dequeueNotify := take_token (q_dequeueNotify (others q))\<rparr>)
                | _ \<Rightarrow> Some (Returned (Some (QueueClosedError ''enqueue batch'')), others q))))"

declare q_batch_loop.simps [simp del]

definition q_EnqueueBatch ::
  "payload list \<Rightarrow> clock \<Rightarrow> world \<Rightarrow> queue \<Rightarrow> (go_error option outcome \<times> queue) option" where
  "q_EnqueueBatch payloads clk env q =
     (if q_closed q then Some (Returned (Some (QueueClosedError ''enqueue batch'')), q)
      else if payloads = [] then Some (Returned None, q)
      else
        let (items, q) = q_make_items payloads clk q
        in case items of
             None \<Rightarrow> Some (Returned (Some batch_overflow), q)
           | Some (dataItems, totalSize) \<Rightarrow> q_batch_loop dataItems totalSize env q)"

fun q_batch_ctx_loop ::
  "queue_data list \<Rightarrow> int \<Rightarrow> go_error option \<Rightarrow> ctx_world \<Rightarrow> queue
    \<Rightarrow> (go_error option outcome \<times> queue) option" where
  "q_batch_ctx_loop dataItems totalSize ctx env q =
     (if ctx \<noteq> None then Some (Returned ctx, q)
      else case q_batch_round dataItems totalSize q of
        None \<Rightarrow> None
      | Some (Done err q) \<Rightarrow> Some (Returned err, q)
      | Some (Wait q) \<Rightarrow>
          (case env of
             [] \<Rightarrow> Some (Blocked, q)
           | (ctx, w, others) # env \<Rightarrow>
               (case w of
                  Notified \<Rightarrow>
                    q_batch_ctx_loop dataItems totalSize ctx env
                      ((others q)\<lparr>q_dequeueNotify := take_token (q_dequeueNotify (others q))\<rparr>)
                | Stopped \<Rightarrow> Some (Returned (Some (QueueClosedError ''enqueue batch'')), others q)
                | CtxDone err \<Rightarrow> Some (Returned (Some err), others q))))"

declare q_batch_ctx_loop.simps [simp del]

definition q_EnqueueBatchWithContext ::
  "payload list \<Rightarrow> clock \<Rightarrow> go_error option \<Rightarrow> ctx_world \<Rightarrow> queue
    \<Rightarrow> (go_error option outcome \<times> queue) option" where
  "q_EnqueueBatchWithContext payloads clk ctx env q =
     (if q_closed q then Some (Returned (Some (QueueClosedError ''enqueue batch'')), q)
      else if payloads = [] then Some (Returned None, q)
      else
        let (items, q) = q_make_items payloads clk q
        in case items of
             None \<Rightarrow> Some (Returned (Some batch_overflow), q)
           | Some (dataItems, totalSize) \<Rightarrow> q_batch_ctx_loop dataItems totalSize ctx env q)"

section \<open>Expiration and closing\<close>

text \<open>The loop that fills \<^verbatim>\<open>dequeueNotify\<close>.\<close>

function fill_signals :: "unit chan \<Rightarrow> unit chan option" where
  "fill_signals ch =
     (if chan_full ch then Some ch
      else case chan_try_send () ch of None \<Rightarrow> None | Some ch \<Rightarrow> fill_signals ch)"
  by pat_completeness auto
termination
  by (relation "measure (\<lambda>ch. ch_cap ch - length (ch_buf ch))")
    (auto simp: chan_full_def chan_try_send_def split: if_splits)

declare fill_signals.simps [simp del]

definition cleanupExpiredItems :: "clock \<Rightarrow> queue \<Rightarrow> (nat \<times> queue) option" where
  "cleanupExpiredItems clk q =
     (if \<not> q_expirationEnabled q then Some (0, q)
      else
        let (expiredCount, removalInfo, cl) = cl_RemoveExpiredData clk (q_ttl q) (q_data q);
            q = q\<lparr>q_data := cl\<rparr>
        in if expiredCount > 0 then
             Option.bind
               (cm_NotifyAllConsumersOfExpiration (cl_GetFirstElement cl) removalInfo (cl_chunk cl)
                 (q_consumers q))
               (\<lambda>cm. map_option (\<lambda>ch. (expiredCount, q\<lparr>q_consumers := cm, q_dequeueNotify := ch\<rparr>))
                       (fill_signals (q_dequeueNotify q)))
           else Some (expiredCount, q))"

definition q_ForceExpiration :: "clock \<Rightarrow> queue \<Rightarrow> (nat \<times> queue) option" where
  "q_ForceExpiration clk q = cleanupExpiredItems clk q"

definition q_CleanInactiveConsumers :: "duration \<Rightarrow> time \<Rightarrow> queue \<Rightarrow> (nat \<times> queue) option" where
  "q_CleanInactiveConsumers timeout now q =
     map_option (\<lambda>(n, cm). (n, q\<lparr>q_consumers := cm\<rparr>)) (cm_CleanInactive timeout now (q_consumers q))"

text \<open>What \<^verbatim>\<open>expirationWorker\<close> does at a tick.\<close>

definition q_worker_tick :: "clock \<Rightarrow> time \<Rightarrow> queue \<Rightarrow> queue option" where
  "q_worker_tick clk now q =
     Option.bind (if q_expirationEnabled q then map_option snd (cleanupExpiredItems clk q) else Some q)
       (\<lambda>q. if q_consumerEvictionTimeout q > 0
             then map_option snd (q_CleanInactiveConsumers (q_consumerEvictionTimeout q) now q)
             else Some q)"

text \<open>\<^verbatim>\<open>Close\<close>; it waits for the worker between closing \<^verbatim>\<open>stopChan\<close> and closing the consumers.\<close>

definition q_Close :: "queue \<Rightarrow> queue option" where
  "q_Close q =
     (if q_closed q then Some q
      else
        let q = q\<lparr>q_closed := True\<rparr>
        in Option.bind (chan_close (q_stopChan q))
             (\<lambda>ch. let q = q\<lparr>q_stopChan := ch\<rparr>
                   in Option.bind
                        (fold_opt (on_consumer c_Close) (cm_GetAllConsumers (q_consumers q)) (q_consumers q))
                        (\<lambda>cm. Some (q\<lparr>q_consumers := cm, q_data := cl_Clear (q_data q)\<rparr>))))"

section \<open>Readers\<close>

definition q_reading :: "cptr \<Rightarrow> queue \<Rightarrow> reading" where
  "q_reading p q = (cm_cstore (q_consumers q) p, cm_gstore (q_consumers q))"

definition q_set_reading :: "cptr \<Rightarrow> reading \<Rightarrow> queue \<Rightarrow> queue" where
  "q_set_reading p cgs q =
     q\<lparr>q_consumers := (q_consumers q)\<lparr>cm_cstore := (cm_cstore (q_consumers q))(p := fst cgs),
                                    cm_gstore := snd cgs\<rparr>\<rparr>"

definition q_TryRead :: "clock \<Rightarrow> nat \<Rightarrow> cptr \<Rightarrow> queue \<Rightarrow> (queue_data option \<times> queue) option" where
  "q_TryRead clk k p q =
     map_option (\<lambda>(data, cgs). (data, q_set_reading p cgs q))
       (c_TryRead clk k (q_closed q) (q_data q) (q_reading p q))"

definition q_TryReadBatch ::
  "clock \<Rightarrow> nat \<Rightarrow> int \<Rightarrow> cptr \<Rightarrow> queue \<Rightarrow> (queue_data list \<times> queue) option" where
  "q_TryReadBatch clk k limit p q =
     map_option (\<lambda>(batch, cgs). (batch, q_set_reading p cgs q))
       (c_TryReadBatch clk k (q_closed q) (q_data q) limit (q_reading p q))"

text \<open>
  \<^verbatim>\<open>Read\<close> and the reads built on it: attempts with waits on \<^verbatim>\<open>enqueueNotify\<close> and \<^verbatim>\<open>stopChan\<close>. The clock
  of the attempt with \<open>n\<close> rounds still to come is \<open>clk n\<close>.
\<close>

fun c_Read ::
  "(nat \<Rightarrow> clock) \<Rightarrow> cptr \<Rightarrow> world \<Rightarrow> queue \<Rightarrow> (queue_data option outcome \<times> queue) option" where
  "c_Read clk p env q =
     (case q_TryRead (clk (length env)) 0 p q of
        None \<Rightarrow> None
      | Some (Some data, q) \<Rightarrow> Some (Returned (Some data), q)
      | Some (None, q) \<Rightarrow>
          (case env of
             [] \<Rightarrow> Some (Blocked, q)
           | (w, others) # env \<Rightarrow>
               (case w of
                  Notified \<Rightarrow>
                    c_Read clk p env
                      ((others q)\<lparr>q_enqueueNotify := take_token (q_enqueueNotify (others q))\<rparr>)
                | _ \<Rightarrow> Some (Returned None, others q))))"

declare c_Read.simps [simp del]

fun c_ReadWithContext ::
  "(nat \<Rightarrow> clock) \<Rightarrow> cptr \<Rightarrow> go_error option \<Rightarrow> ctx_world \<Rightarrow> queue
    \<Rightarrow> ((queue_data option \<times> go_error option) outcome \<times> queue) option" where
  "c_ReadWithContext clk p ctx env q =
     (if ctx \<noteq> None then Some (Returned (None, ctx), q)
      else case q_TryRead (clk (length env)) 0 p q of
        None \<Rightarrow> None
      | Some (Some data, q) \<Rightarrow> Some (Returned (Some data, None), q)
      | Some (None, q) \<Rightarrow>
          (case env of
             [] \<Rightarrow> Some (Blocked, q)
           | (ctx, w, others) # env \<Rightarrow>
               (case w of
                  Notified \<Rightarrow>
                    c_ReadWithContext clk p ctx env
                      ((others q)\<lparr>q_enqueueNotify := take_token (q_enqueueNotify (others q))\<rparr>)
                | Stopped \<Rightarrow> Some (Returned (None, None), others q)
                | CtxDone err \<Rightarrow> Some (Returned (None, Some err), others q))))"

declare c_ReadWithContext.simps [simp del]

text \<open>\<^verbatim>\<open>ReadBatch\<close>: one blocking read, then as many as are there; \<open>clk'\<close> is the clock of these.\<close>

definition c_ReadBatch ::
  "(nat \<Rightarrow> clock) \<Rightarrow> clock \<Rightarrow> cptr \<Rightarrow> int \<Rightarrow> world \<Rightarrow> queue
    \<Rightarrow> (queue_data list outcome \<times> queue) option" where
  "c_ReadBatch clk clk' p limit env q =
     (if limit \<le> 0 then Some (Returned [], q)
      else case c_Read clk p env q of
        None \<Rightarrow> None
      | Some (Blocked, q) \<Rightarrow> Some (Blocked, q)
      | Some (Returned None, q) \<Rightarrow> Some (Returned [], q)
      | Some (Returned (Some firstItem), q) \<Rightarrow>
          map_option (\<lambda>(batch, cgs). (Returned batch, q_set_reading p cgs q))
            (c_read_more clk' 0 (q_closed q) (q_data q) (nat limit - 1) [firstItem] (q_reading p q)))"

text \<open>
  \<^verbatim>\<open>ReadBatchWithContext\<close>: before each further read it looks at the context; \<open>ctx' n\<close> is the answer
  when \<open>n\<close> more items may follow.
\<close>

fun c_read_more_ctx ::
  "(nat \<Rightarrow> go_error option) \<Rightarrow> clock \<Rightarrow> nat \<Rightarrow> bool \<Rightarrow> chunked_list \<Rightarrow> nat \<Rightarrow> queue_data list \<Rightarrow> reading
    \<Rightarrow> ((queue_data list \<times> go_error option) \<times> reading) option" where
  "c_read_more_ctx ctx clk k queue_closed cl 0 batch cgs = Some ((batch, None), cgs)"
| "c_read_more_ctx ctx clk k queue_closed cl (Suc n) batch cgs =
     (if ctx n \<noteq> None then Some ((batch, ctx n), cgs)
      else case c_TryRead clk k queue_closed cl cgs of
        None \<Rightarrow> None
      | Some (None, cgs) \<Rightarrow> Some ((batch, None), cgs)
      | Some (Some data, cgs) \<Rightarrow> c_read_more_ctx ctx clk (k + 2) queue_closed cl n (batch @ [data]) cgs)"

definition c_ReadBatchWithContext ::
  "(nat \<Rightarrow> clock) \<Rightarrow> clock \<Rightarrow> cptr \<Rightarrow> int \<Rightarrow> go_error option \<Rightarrow> ctx_world \<Rightarrow> (nat \<Rightarrow> go_error option) \<Rightarrow> queue
    \<Rightarrow> ((queue_data list \<times> go_error option) outcome \<times> queue) option" where
  "c_ReadBatchWithContext clk clk' p limit ctx env ctx' q =
     (if limit \<le> 0 then Some (Returned ([], None), q)
      else case c_ReadWithContext clk p ctx env q of
        None \<Rightarrow> None
      | Some (Blocked, q) \<Rightarrow> Some (Blocked, q)
      | Some (Returned (firstItem, err), q) \<Rightarrow>
          if err \<noteq> None then Some (Returned ([], err), q)
          else case firstItem of
                 None \<Rightarrow> Some (Returned ([], None), q)
               | Some firstItem \<Rightarrow>
                   map_option (\<lambda>(r, cgs). (Returned r, q_set_reading p cgs q))
                     (c_read_more_ctx ctx' clk' 0 (q_closed q) (q_data q) (nat limit - 1) [firstItem]
                       (q_reading p q)))"

text \<open>\<^verbatim>\<open>ReadWhere\<close> of a consumer without group (a member of a group gets the error at once).\<close>

fun c_read_where_loop ::
  "(queue_data \<Rightarrow> bool) \<Rightarrow> (nat \<Rightarrow> clock) \<Rightarrow> cptr \<Rightarrow> world \<Rightarrow> queue
    \<Rightarrow> ((queue_data option \<times> go_error option) outcome \<times> queue) option" where
  "c_read_where_loop predicate clk p env q =
     (case c_TryReadWhere (Some predicate) (clk (length env)) 0 (q_closed q) (q_data q) (q_reading p q) of
        None \<Rightarrow> None
      | Some ((data, err), cgs) \<Rightarrow>
          let q = q_set_reading p cgs q
          in if err \<noteq> None then Some (Returned (None, err), q)
             else if data \<noteq> None then Some (Returned (data, None), q)
             else (case env of
                     [] \<Rightarrow> Some (Blocked, q)
                   | (w, others) # env \<Rightarrow>
                       (case w of
                          Notified \<Rightarrow>
                            c_read_where_loop predicate clk p env
                              ((others q)\<lparr>q_enqueueNotify := take_token (q_enqueueNotify (others q))\<rparr>)
                        | _ \<Rightarrow> Some (Returned (None, None), others q))))"

declare c_read_where_loop.simps [simp del]

definition c_ReadWhere ::
  "(queue_data \<Rightarrow> bool) option \<Rightarrow> (nat \<Rightarrow> clock) \<Rightarrow> cptr \<Rightarrow> world \<Rightarrow> queue
    \<Rightarrow> ((queue_data option \<times> go_error option) outcome \<times> queue) option" where
  "c_ReadWhere predicate clk p env q =
     (case predicate of
        None \<Rightarrow> Some (Returned (None, None), q)
      | Some f \<Rightarrow>
          if c_group (fst (q_reading p q)) \<noteq> None
          then Some (Returned (None, Some FilterNotSupportedError), q)
          else c_read_where_loop f clk p env q)"

fun c_read_where_ctx_loop ::
  "(queue_data \<Rightarrow> bool) \<Rightarrow> (nat \<Rightarrow> clock) \<Rightarrow> cptr \<Rightarrow> go_error option \<Rightarrow> ctx_world \<Rightarrow> queue
    \<Rightarrow> ((queue_data option \<times> go_error option) outcome \<times> queue) option" where
  "c_read_where_ctx_loop predicate clk p ctx env q =
     (if ctx \<noteq> None then Some (Returned (None, ctx), q)
      else case c_TryReadWhere (Some predicate) (clk (length env)) 0 (q_closed q) (q_data q) (q_reading p q) of
        None \<Rightarrow> None
      | Some ((data, err), cgs) \<Rightarrow>
          let q = q_set_reading p cgs q
          in if err \<noteq> None then Some (Returned (None, err), q)
             else if data \<noteq> None then Some (Returned (data, None), q)
             else (case env of
                     [] \<Rightarrow> Some (Blocked, q)
                   | (ctx, w, others) # env \<Rightarrow>
                       (case w of
                          Notified \<Rightarrow>
                            c_read_where_ctx_loop predicate clk p ctx env
                              ((others q)\<lparr>q_enqueueNotify := take_token (q_enqueueNotify (others q))\<rparr>)
                        | Stopped \<Rightarrow> Some (Returned (None, None), others q)
                        | CtxDone err \<Rightarrow> Some (Returned (None, Some err), others q))))"

declare c_read_where_ctx_loop.simps [simp del]

definition c_ReadWhereWithContext ::
  "(queue_data \<Rightarrow> bool) option \<Rightarrow> (nat \<Rightarrow> clock) \<Rightarrow> cptr \<Rightarrow> go_error option \<Rightarrow> ctx_world \<Rightarrow> queue
    \<Rightarrow> ((queue_data option \<times> go_error option) outcome \<times> queue) option" where
  "c_ReadWhereWithContext predicate clk p ctx env q =
     (case predicate of
        None \<Rightarrow> Some (Returned (None, None), q)
      | Some f \<Rightarrow>
          if c_group (fst (q_reading p q)) \<noteq> None
          then Some (Returned (None, Some FilterNotSupportedError), q)
          else c_read_where_ctx_loop f clk p ctx env q)"

section \<open>Settings and statistics\<close>

definition q_SetTTL :: "duration \<Rightarrow> queue \<Rightarrow> queue" where
  "q_SetTTL ttl q = q\<lparr>q_ttl := ttl\<rparr>"

definition q_EnableExpiration :: "queue \<Rightarrow> queue" where
  "q_EnableExpiration q = q\<lparr>q_expirationEnabled := True\<rparr>"

definition q_DisableExpiration :: "queue \<Rightarrow> queue" where
  "q_DisableExpiration q = q\<lparr>q_expirationEnabled := False\<rparr>"

definition q_AddConsumer :: "string \<Rightarrow> time \<Rightarrow> queue \<Rightarrow> cptr \<times> queue" where
  "q_AddConsumer uuid now q =
     (let (p, cm) = cm_AddConsumer uuid (q_maxConsumerHistory q) now (q_data q) (q_consumers q)
      in (p, q\<lparr>q_consumers := cm\<rparr>))"

definition q_AddConsumerGroup :: "string \<Rightarrow> queue \<Rightarrow> gptr \<times> queue" where
  "q_AddConsumerGroup name q =
     (let (g, cm) = cm_AddGroup name (q_consumers q) in (g, q\<lparr>q_consumers := cm\<rparr>))"

definition q_RemoveConsumer :: "string \<Rightarrow> queue \<Rightarrow> (bool \<times> queue) option" where
  "q_RemoveConsumer uid q =
     map_option (\<lambda>(b, cm). (b, q\<lparr>q_consumers := cm\<rparr>)) (cm_RemoveConsumer uid (q_consumers q))"

definition q_RemoveConsumerGroup :: "string \<Rightarrow> queue \<Rightarrow> (bool \<times> queue) option" where
  "q_RemoveConsumerGroup name q =
     map_option (\<lambda>(b, cm). (b, q\<lparr>q_consumers := cm\<rparr>)) (cm_RemoveGroup name (q_consumers q))"

text \<open>\<^verbatim>\<open>QueueStats\<close>, its values and its text.\<close>

record queue_stats =
  qs_Name :: string
  qs_TotalItems :: int
  qs_MemoryUsage :: int
  qs_MemoryPercent :: float64
  qs_ConsumerCount :: nat
  qs_CreatedAt :: time
  qs_TTL :: duration

definition q_GetQueueStats :: "queue \<Rightarrow> queue_stats" where
  "q_GetQueueStats q =
     \<lparr>qs_Name = q_name q, qs_TotalItems = cl_totalItems (q_data q),
      qs_MemoryUsage = mt_totalMemory (q_memoryTracker q),
      qs_MemoryPercent = mt_GetMemoryUsagePercent (q_memoryTracker q),
      qs_ConsumerCount = cm_GetConsumerCount (q_consumers q),
      qs_CreatedAt = q_createdAt q, qs_TTL = q_ttl q\<rparr>"

definition qs_String :: "queue_stats \<Rightarrow> string" where
  "qs_String qs =
     ''Queue['' @ qs_Name qs @ '']: items='' @ show_int (qs_TotalItems qs) @ '', memory='' @
     show_int (qs_MemoryUsage qs) @ '' bytes ('' @ fmt_f 1 (qs_MemoryPercent qs) @ ''%), consumers='' @
     show_nat (qs_ConsumerCount qs) @ '', ttl='' @ show_duration (qs_TTL qs)"

definition q_GetConsumerStats :: "queue \<Rightarrow> consumer_stats list option" where
  "q_GetConsumerStats q = cm_GetConsumerStats (q_closed q) (q_data q) (q_consumers q)"

definition q_IsEmpty :: "queue \<Rightarrow> bool" where
  "q_IsEmpty q = cl_IsEmpty (q_data q)"

end
