(* ===== verification/MQ_QueueInv.thy ===== *)
theory MQ_QueueInv
  imports MQ_Queue
begin

text \<open>
  The invariant of the queue, and for each operation: it keeps the invariant, never panics, and
  what it does to the items, to what every reader has left, to the memory count and to the
  notification channels.
\<close>

section \<open>The invariant\<close>

text \<open>
  The limit is at most \<open>2 ^ 50\<close> bytes: up to there the count cannot leave the 64-bit range, also when
  an operation overshoots the limit by the chunks it adds (at worst one for each item of a batch).
\<close>

definition mt_ok :: "memory_tracker \<Rightarrow> bool" where
  "mt_ok mt \<longleftrightarrow> 0 < mt_maxMemory mt \<and> mt_maxMemory mt \<le> 2 ^ 50 \<and> cache_sound (mt_sizeCache mt)"

definition signals_ok :: "unit chan \<Rightarrow> bool" where
  "signals_ok ch \<longleftrightarrow> \<not> ch_closed ch \<and> ch_cap ch = 100 \<and> length (ch_buf ch) \<le> 100"

definition data_ok :: "chunked_list \<Rightarrow> bool" where
  "data_ok cl \<longleftrightarrow> cl_inv cl \<and> cl_chained cl \<and> cl_accounted cl \<and> mt_ok (cl_memoryTracker cl)"

definition q_inv :: "queue \<Rightarrow> bool" where
  "q_inv q \<longleftrightarrow> data_ok (q_data q) \<and> cm_wf (q_consumers q)
     \<and> signals_ok (q_enqueueNotify q) \<and> signals_ok (q_dequeueNotify q)
     \<and> (ch_closed (q_stopChan q) \<longleftrightarrow> q_closed q)
     \<and> (\<not> q_closed q \<longrightarrow> cm_positions (q_data q) (q_consumers q))
     \<and> (q_closed q \<longrightarrow> cl_list (q_data q) = []
          \<and> (\<forall>(uid, p) \<in> set (cm_consumers (q_consumers q)).
               let c = cm_cstore (q_consumers q) p
               in c_closed c \<or> c_group c \<noteq> None \<or> c_chunkElement c = None))"

definition q_items :: "queue \<Rightarrow> queue_data list" where
  "q_items q = cl_items (q_data q)"

text \<open>A reader of the queue: a registered consumer, open, of no group or of an open one.\<close>

definition q_reader :: "cptr \<Rightarrow> queue \<Rightarrow> bool" where
  "q_reader p q \<longleftrightarrow> p \<in> snd ` set (cm_consumers (q_consumers q))
     \<and> \<not> c_closed (cm_cstore (q_consumers q) p)
     \<and> (\<forall>g. c_group (cm_cstore (q_consumers q) p) = Some g \<longrightarrow> \<not> cg_closed (cm_gstore (q_consumers q) g))"

definition q_left :: "cptr \<Rightarrow> queue \<Rightarrow> queue_data list" where
  "q_left p q = left_to_read (q_data q) (q_reading p q)"

lemma q_invD:
  assumes "q_inv q"
  shows "cl_inv (q_data q)" "cl_chained (q_data q)" "cl_accounted (q_data q)" "mt_ok (q_memoryTracker q)"
    "cm_wf (q_consumers q)" "signals_ok (q_enqueueNotify q)" "signals_ok (q_dequeueNotify q)"
    "ch_closed (q_stopChan q) \<longleftrightarrow> q_closed q"
    "\<not> q_closed q \<Longrightarrow> cm_positions (q_data q) (q_consumers q)"
    "q_closed q \<Longrightarrow> cl_list (q_data q) = []"
  using assms unfolding q_inv_def data_ok_def by blast+

lemma q_reader_ok:
  assumes "q_inv q" "\<not> q_closed q" "q_reader p q"
  shows "reader_ok (q_data q) (q_reading p q)"
proof -
  obtain uid where "(uid, p) \<in> set (cm_consumers (q_consumers q))"
    using assms(3) by (auto simp: q_reader_def)
  then show ?thesis
    unfolding q_reading_def
    by (rule cm_reader_ok [OF q_invD(5) [OF assms(1)] q_invD(9) [OF assms(1,2)]])
      (use assms(3) in \<open>auto simp: q_reader_def\<close>)
qed

text \<open>The tracker of a list does not matter for its structure.\<close>

lemma cl_tracker_frame [simp]:
  "cl_items (cl\<lparr>cl_memoryTracker := mt\<rparr>) = cl_items cl"
  "cl_inv (cl\<lparr>cl_memoryTracker := mt\<rparr>) = cl_inv cl"
  "cl_chained (cl\<lparr>cl_memoryTracker := mt\<rparr>) = cl_chained cl"
  "cl_bytes (cl\<lparr>cl_memoryTracker := mt\<rparr>) = cl_bytes cl"
  by (simp_all add: cl_items_def cl_inv_def cl_chained_def cl_bytes_def)

lemma pos_tracker_frame [simp]:
  "pos_ok (cl\<lparr>cl_memoryTracker := mt\<rparr>) = pos_ok cl"
  "pos_rank (cl\<lparr>cl_memoryTracker := mt\<rparr>) = pos_rank cl"
  by (rule ext; simp add: pos_ok_def pos_rank_def cong: option.case_cong)+

lemma unread_tracker_frame [simp]:
  "unread (cl\<lparr>cl_memoryTracker := mt\<rparr>) = unread cl"
  "cm_positions (cl\<lparr>cl_memoryTracker := mt\<rparr>) = cm_positions cl"
  "left_to_read (cl\<lparr>cl_memoryTracker := mt\<rparr>) = left_to_read cl"
  by (rule ext; simp add: unread_def cm_positions_def left_to_read_def)+

lemma data_ok_tracker:
  assumes "data_ok cl" "mt_totalMemory mt = mt_totalMemory (cl_memoryTracker cl)"
    "mt_maxMemory mt = mt_maxMemory (cl_memoryTracker cl)" "cache_sound (mt_sizeCache mt)"
  shows "data_ok (cl\<lparr>cl_memoryTracker := mt\<rparr>)"
  using assms by (simp add: data_ok_def mt_ok_def cl_accounted_def)

lemma cl_bytes_nonneg: "cl_accounted cl \<Longrightarrow> 0 \<le> cl_bytes cl"
  by (auto simp: cl_accounted_def cl_bytes_def ChunkNodeSize_def intro!: add_nonneg_nonneg sum_list_nonneg)

section \<open>The channels\<close>

lemma send_signals_open:
  "\<not> ch_closed ch \<Longrightarrow> send_signals n ch
    = Some (ch\<lparr>ch_buf := ch_buf ch @ replicate (min n (ch_cap ch - length (ch_buf ch))) ()\<rparr>)"
proof (induction n arbitrary: ch)
  case (Suc n)
  show ?case
  proof (cases "chan_full ch")
    case True
    then show ?thesis using Suc.prems by (simp add: chan_full_def)
  next
    case False
    let ?ch = "ch\<lparr>ch_buf := ch_buf ch @ [()]\<rparr>"
    have lt: "length (ch_buf ch) < ch_cap ch" using False Suc.prems by (simp add: chan_full_def)
    then have m: "min (Suc n) (ch_cap ch - length (ch_buf ch))
        = Suc (min n (ch_cap ch - Suc (length (ch_buf ch))))" by simp
    have "chan_try_send () ch = Some ?ch" using lt Suc.prems by (simp add: chan_try_send_def)
    then show ?thesis
      using False Suc.IH [of ?ch] Suc.prems unfolding m by simp
  qed
qed simp

lemma fill_signals_open:
  "\<not> ch_closed ch \<Longrightarrow> fill_signals ch
    = Some (ch\<lparr>ch_buf := ch_buf ch @ replicate (ch_cap ch - length (ch_buf ch)) ()\<rparr>)"
proof (induction ch rule: fill_signals.induct)
  case (1 ch)
  show ?case
  proof (cases "chan_full ch")
    case True
    then show ?thesis using "1.prems" by (simp add: fill_signals.simps [of ch] chan_full_def)
  next
    case False
    let ?ch = "ch\<lparr>ch_buf := ch_buf ch @ [()]\<rparr>"
    have lt: "length (ch_buf ch) < ch_cap ch" using False "1.prems" by (simp add: chan_full_def)
    have s: "chan_try_send () ch = Some ?ch" using lt "1.prems" by (simp add: chan_try_send_def)
    have m: "ch_cap ch - length (ch_buf ch) = Suc (ch_cap ch - Suc (length (ch_buf ch)))" using lt by simp
    show ?thesis
      using False s "1.IH" [OF False s] "1.prems" unfolding m by (simp add: fill_signals.simps [of ch])
  qed
qed

text \<open>Tokens sent to waiting readers: the smaller of readers and depth, as far as there is room.\<close>

definition wake_tokens :: "queue \<Rightarrow> nat" where
  "wake_tokens q =
     min (min (length (cm_consumers (q_consumers q))) (length (q_items q)))
         (100 - length (ch_buf (q_enqueueNotify q)))"

lemma notifyWaitingConsumers_spec:
  assumes inv: "cl_inv (q_data q)" and wf: "cm_wf (q_consumers q)" and ch: "signals_ok (q_enqueueNotify q)"
  shows "notifyWaitingConsumers q = Some (q\<lparr>q_enqueueNotify := (q_enqueueNotify q)
      \<lparr>ch_buf := ch_buf (q_enqueueNotify q) @ replicate (wake_tokens q) ()\<rparr>\<rparr>)"
proof -
  have n: "length (cm_GetAllConsumers (q_consumers q)) = length (cm_consumers (q_consumers q))"
    using cm_wfD(10) [OF wf] by (simp add: cm_GetAllConsumers_def)
  let ?n = "length (cm_consumers (q_consumers q))" and ?d = "cl_totalItems (q_data q)"
  have d: "?d = int (length (q_items q))" using cl_invD(2) [OF inv] by (simp add: q_items_def)
  let ?s1 = "if ?d > int ?n then int ?n else ?d"
  have s: "nat (if ?s1 < 1 \<and> ?d > 0 then 1 else ?s1) = min ?n (length (q_items q))" if "?n \<noteq> 0"
    using that d by auto
  have open_ch: "\<not> ch_closed (q_enqueueNotify q)" "ch_cap (q_enqueueNotify q) = 100"
    using ch by (simp_all add: signals_ok_def)
  show ?thesis
    using s send_signals_open [OF open_ch(1)] open_ch(2) n
    by (cases "?n = 0") (simp_all add: notifyWaitingConsumers_def Let_def wake_tokens_def cong: if_cong)
qed

lemma wake_tokens_room: "signals_ok (q_enqueueNotify q) \<Longrightarrow>
    length (ch_buf (q_enqueueNotify q)) + wake_tokens q \<le> 100"
  by (auto simp: wake_tokens_def signals_ok_def min_def)

section \<open>Adding items\<close>

text \<open>A list that has grown by the items \<open>ds\<close>: what that means for the items and for positions.\<close>

definition grown :: "queue_data list \<Rightarrow> chunked_list \<Rightarrow> chunked_list \<Rightarrow> bool" where
  "grown ds cl cl' \<longleftrightarrow> data_ok cl' \<and> cl_items cl' = cl_items cl @ ds
     \<and> (\<forall>pos. pos_ok cl pos \<longrightarrow> pos_ok cl' pos \<and> unread cl' pos = unread cl pos @ ds)
     \<and> mt_maxMemory (cl_memoryTracker cl') = mt_maxMemory (cl_memoryTracker cl)"

text \<open>\<^verbatim>\<open>Enqueue\<close> of the list: the limit decides, on the count before and the size of the item.\<close>

lemma cl_Enqueue_fits:
  assumes ok: "data_ok cl" and d: "0 \<le> qd_size d" "qd_size d \<le> MaxInt64"
    and fits: "mt_totalMemory (cl_memoryTracker cl) + qd_size d \<le> mt_maxMemory (cl_memoryTracker cl)"
  obtains cl' where "cl_Enqueue d cl = (None, cl')" "grown [d] cl cl'"
    "mt_totalMemory (cl_memoryTracker cl')
       \<le> mt_totalMemory (cl_memoryTracker cl) + qd_size d + ChunkNodeSize"
proof -
  have inv: "cl_inv cl" and acc: "cl_accounted cl" and mt: "mt_ok (cl_memoryTracker cl)"
    and ch: "cl_chained cl" using ok by (auto simp: data_ok_def)
  obtain new cl' where a: "cl_append d cl = (True, cl')" "appended d cl new cl'"
    by (rule cl_append_spec [OF inv, of d])
  note A = a(2) [unfolded appended_def]
  have can: "mt_CanAddData d (cl_memoryTracker cl)"
    using mt_CanAddData_iff [of "cl_memoryTracker cl" d] mt d fits by (simp add: mt_ok_def MaxInt64_def)
  have len: "ChunkNodeSize * int (length new) \<le> ChunkNodeSize"
    using A by (simp add: ChunkNodeSize_def)
  have tot: "mt_totalMemory (cl_memoryTracker cl) = cl_bytes cl" using acc by (simp add: cl_accounted_def)
  have "cl_bytes cl + ChunkNodeSize * int (length new) + qd_size d \<le> MaxInt64"
    using fits mt len by (simp add: tot mt_ok_def MaxInt64_def ChunkNodeSize_def)
  then have acc': "cl_accounted cl'" by (rule appended_accounted [OF a(2) acc d(1)])
  have "mt_ok (cl_memoryTracker cl')" using A mt by (simp add: mt_ok_def)
  then have ok': "data_ok cl'" using A ch acc' by (simp add: data_ok_def)
  show ?thesis
  proof
    show "cl_Enqueue d cl = (None, cl')" using can a(1) by (simp add: cl_Enqueue_def)
    show "grown [d] cl cl'"
      using ok' A appended_pos [OF inv a(2)] unfolding grown_def by simp
    show "mt_totalMemory (cl_memoryTracker cl')
       \<le> mt_totalMemory (cl_memoryTracker cl) + qd_size d + ChunkNodeSize"
      using acc' appended_bytes [OF a(2)] len tot by (simp add: cl_accounted_def)
  qed
qed

lemma cl_Enqueue_over:
  assumes ok: "data_ok cl" and d: "0 \<le> qd_size d" "qd_size d \<le> MaxInt64" "payload_ok (qd_Payload d)"
    and over: "mt_maxMemory (cl_memoryTracker cl) < mt_totalMemory (cl_memoryTracker cl) + qd_size d"
  obtains needed cl' where
    "cl_Enqueue d cl = (Some (MemoryLimitError (mt_totalMemory (cl_memoryTracker cl))
        (mt_maxMemory (cl_memoryTracker cl)) needed), cl')"
    "data_ok cl'" "cl' = cl\<lparr>cl_memoryTracker := cl_memoryTracker cl'\<rparr>"
    "mt_totalMemory (cl_memoryTracker cl') = mt_totalMemory (cl_memoryTracker cl)"
    "mt_maxMemory (cl_memoryTracker cl') = mt_maxMemory (cl_memoryTracker cl)"
proof -
  have mt: "mt_ok (cl_memoryTracker cl)" using ok by (auto simp: data_ok_def)
  have can: "\<not> mt_CanAddData d (cl_memoryTracker cl)"
    using mt_CanAddData_iff [of "cl_memoryTracker cl" d] mt d over by (simp add: mt_ok_def MaxInt64_def)
  obtain needed mt' where e: "mt_EstimateQueueDataSize (Some d) (cl_memoryTracker cl) = (needed, mt')"
    by fastforce
  note E = EstimateQueueDataSize_bounds(3-5) [OF d(3) _ e]
  have c: "cache_sound (mt_sizeCache (cl_memoryTracker cl))" using mt by (simp add: mt_ok_def)
  show ?thesis
    using can e E [OF c] data_ok_tracker [OF ok, of mt']
    by (intro that [of needed "cl\<lparr>cl_memoryTracker := mt'\<rparr>"]) (simp_all add: cl_Enqueue_def)
qed

text \<open>The new item of an enqueue.\<close>

definition new_item :: "payload \<Rightarrow> queue \<Rightarrow> time \<Rightarrow> queue_data \<Rightarrow> bool" where
  "new_item payload q now d \<longleftrightarrow>
     qd_ID d = q_dataIDSequence q + 1 \<and> qd_Payload d = payload \<and> qd_Created d = now
     \<and> qd_EnqueueEvent d = \<lparr>ev_Timestamp = now, ev_QueueName = q_name q, ev_EventType = ''enqueue''\<rparr>
     \<and> item_overhead \<le> qd_size d \<and> qd_size d \<le> MaxInt64"

text \<open>What stays the same when only the tracker's cache and the counter of items move.\<close>

definition same_queue :: "queue \<Rightarrow> queue \<Rightarrow> bool" where
  "same_queue q q' \<longleftrightarrow> (\<exists>mt sequence. q' = q\<lparr>q_data := (q_data q)\<lparr>cl_memoryTracker := mt\<rparr>, q_dataIDSequence := sequence\<rparr>
     \<and> mt_totalMemory mt = mt_totalMemory (q_memoryTracker q)
     \<and> mt_maxMemory mt = mt_maxMemory (q_memoryTracker q)
     \<and> (cache_sound (mt_sizeCache (q_memoryTracker q)) \<longrightarrow> cache_sound (mt_sizeCache mt)))"

lemma same_queueD:
  assumes "same_queue q q'"
  shows "q_items q' = q_items q" "q_left p q' = q_left p q" "q_reader p q' = q_reader p q"
    "q_closed q' = q_closed q" "q_maxItems q' = q_maxItems q" "q_consumers q' = q_consumers q"
    "mt_totalMemory (q_memoryTracker q') = mt_totalMemory (q_memoryTracker q)"
    "mt_maxMemory (q_memoryTracker q') = mt_maxMemory (q_memoryTracker q)"
    "q_enqueueNotify q' = q_enqueueNotify q" "q_dequeueNotify q' = q_dequeueNotify q"
    "cl_totalItems (q_data q') = cl_totalItems (q_data q)"
  using assms unfolding same_queue_def
  by (auto simp: q_items_def q_left_def q_reader_def q_reading_def)

lemma same_queue_refl: "same_queue q q"
  unfolding same_queue_def
  by (intro exI [of _ "q_memoryTracker q"] exI [of _ "q_dataIDSequence q"]) simp

lemma same_queue_trans: "same_queue q q' \<Longrightarrow> same_queue q' q'' \<Longrightarrow> same_queue q q''"
  unfolding same_queue_def by fastforce

lemma same_queue_inv:
  assumes "same_queue q q'" "q_inv q"
  shows "q_inv q'"
proof -
  obtain mt sq where q': "q' = q\<lparr>q_data := (q_data q)\<lparr>cl_memoryTracker := mt\<rparr>, q_dataIDSequence := sq\<rparr>"
    and mt: "mt_totalMemory mt = mt_totalMemory (q_memoryTracker q)"
      "mt_maxMemory mt = mt_maxMemory (q_memoryTracker q)"
      "cache_sound (mt_sizeCache (q_memoryTracker q)) \<Longrightarrow> cache_sound (mt_sizeCache mt)"
    using assms(1) unfolding same_queue_def by blast
  have ok: "data_ok (q_data q)" using assms(2) by (simp add: q_inv_def)
  then have "cache_sound (mt_sizeCache mt)" using mt(3) by (simp add: data_ok_def mt_ok_def)
  then have "data_ok ((q_data q)\<lparr>cl_memoryTracker := mt\<rparr>)"
    by (rule data_ok_tracker [OF ok mt(1,2)])
  then show ?thesis using assms(2) unfolding q' q_inv_def by simp
qed

lemma q_new_data_spec:
  assumes inv: "q_inv q" and p: "payload_ok payload"
  obtains d q' where "q_new_data payload now q = (d, q')" "new_item payload q now d" "same_queue q q'"
proof -
  obtain d0 sq where d0: "NewQueueData payload (q_name q) now (q_dataIDSequence q) = (d0, sq)" by fastforce
  obtain sz mt where e: "mt_EstimateQueueDataSize (Some d0) (q_memoryTracker q) = (sz, mt)" by fastforce
  have c: "cache_sound (mt_sizeCache (q_memoryTracker q))"
    using q_invD(4) [OF inv] by (simp add: mt_ok_def)
  have pl: "payload_ok (qd_Payload d0)" using d0 p by (auto simp: NewQueueData_def Let_def)
  note E = EstimateQueueDataSize_bounds [OF pl c e]
  show ?thesis
  proof
    show "q_new_data payload now q = (qd_SetSize sz d0,
        q\<lparr>q_data := (q_data q)\<lparr>cl_memoryTracker := mt\<rparr>, q_dataIDSequence := sq\<rparr>)"
      by (simp add: q_new_data_def d0 e)
    show "new_item payload q now (qd_SetSize sz d0)"
      using d0 E by (auto simp: new_item_def NewQueueData_def qd_SetSize_def Let_def)
    show "same_queue q (q\<lparr>q_data := (q_data q)\<lparr>cl_memoryTracker := mt\<rparr>, q_dataIDSequence := sq\<rparr>)"
      unfolding same_queue_def using E by (intro exI [of _ mt] exI [of _ sq]) simp
  qed
qed

text \<open>
  The end of every successful enqueue: the grown list is in place and the readers are notified.
\<close>

definition stored :: "queue_data list \<Rightarrow> queue \<Rightarrow> queue \<Rightarrow> bool" where
  "stored ds q q' \<longleftrightarrow> q_inv q' \<and> \<not> q_closed q' \<and> q_items q' = q_items q @ ds
     \<and> (\<forall>p. q_reader p q \<longrightarrow> q_reader p q' \<and> q_left p q' = q_left p q @ ds)
     \<and> q_consumers q' = q_consumers q
     \<and> mt_maxMemory (q_memoryTracker q') = mt_maxMemory (q_memoryTracker q)
     \<and> length (ch_buf (q_enqueueNotify q'))
         = length (ch_buf (q_enqueueNotify q))
           + min (min (length (cm_consumers (q_consumers q))) (length (q_items q')))
                 (100 - length (ch_buf (q_enqueueNotify q)))"

lemma stored_same:
  assumes "same_queue q q1" "stored ds q1 q'"
  shows "stored ds q q'"
  using assms(2) same_queueD [OF assms(1)] unfolding stored_def by simp

lemma q_store:
  assumes inv: "q_inv q" and opn: "\<not> q_closed q" and g: "grown ds (q_data q) cl'"
  obtains q' where "notifyWaitingConsumers (q\<lparr>q_data := cl'\<rparr>) = Some q'" "stored ds q q'" "q_data q' = cl'"
proof -
  let ?q = "q\<lparr>q_data := cl'\<rparr>"
  let ?q' = "?q\<lparr>q_enqueueNotify := (q_enqueueNotify ?q)
      \<lparr>ch_buf := ch_buf (q_enqueueNotify ?q) @ replicate (wake_tokens ?q) ()\<rparr>\<rparr>"
  note G = g [unfolded grown_def]
  have n: "notifyWaitingConsumers ?q = Some ?q'"
    by (rule notifyWaitingConsumers_spec) (use G q_invD [OF inv] in \<open>simp_all add: data_ok_def\<close>)
  have pos: "cm_positions cl' (q_consumers q)"
    by (rule cm_positions_mono [OF q_invD(9) [OF inv opn]]) (use G in blast)
  have sig: "signals_ok (q_enqueueNotify ?q')"
    using wake_tokens_room [of ?q] q_invD(6) [OF inv] by (simp add: signals_ok_def)
  have inv': "q_inv ?q'"
    using inv opn pos G sig unfolding q_inv_def by simp
  have left: "q_left p ?q' = q_left p q @ ds" if "q_reader p q" for p
  proof -
    have "pos_ok (q_data q) (c_GetPosition (snd (q_reading p q)) (fst (q_reading p q)))"
      using q_reader_ok [OF inv opn that] by (simp add: reader_ok_def split: prod.splits)
    then have "unread cl' (c_GetPosition (snd (q_reading p q)) (fst (q_reading p q)))
        = unread (q_data q) (c_GetPosition (snd (q_reading p q)) (fst (q_reading p q))) @ ds"
      using G by blast
    then show ?thesis by (simp add: q_left_def left_to_read_def q_reading_def)
  qed
  have "stored ds q ?q'"
    unfolding stored_def using inv' opn G left
    by (simp add: q_items_def q_reader_def wake_tokens_def)
  then show ?thesis using n by (intro that [of ?q']) simp_all
qed

text \<open>
  \<^verbatim>\<open>TryEnqueue\<close>, on every branch: on a closed queue nothing happens; at the item limit or over the
  memory limit the error says so and the items stay; otherwise the new item is at the end.
\<close>

definition q_at_limit :: "queue \<Rightarrow> bool" where
  "q_at_limit q \<longleftrightarrow> q_maxItems q > 0 \<and> int (length (q_items q)) \<ge> q_maxItems q"

definition q_room :: "int \<Rightarrow> queue \<Rightarrow> bool" where
  "q_room n q \<longleftrightarrow> mt_totalMemory (q_memoryTracker q) + n \<le> mt_maxMemory (q_memoryTracker q)"

lemma q_total_items: "q_inv q \<Longrightarrow> cl_totalItems (q_data q) = int (length (q_items q))"
  using cl_invD(2) [OF q_invD(1)] by (simp add: q_items_def)

lemma q_TryEnqueue_closed:
  "q_closed q \<Longrightarrow> q_TryEnqueue payload now q = Some (Some (QueueClosedError ''enqueue''), q)"
  by (simp add: q_TryEnqueue_def)

lemma q_TryEnqueue_open:
  assumes inv: "q_inv q" and opn: "\<not> q_closed q" and p: "payload_ok payload"
  obtains d err q' where "q_TryEnqueue payload now q = Some (err, q')" "new_item payload q now d"
    "q_inv q'"
    "q_at_limit q \<Longrightarrow> err = Some (QueueFullError (q_maxItems q)) \<and> same_queue q q'"
    "\<not> q_at_limit q \<Longrightarrow> \<not> q_room (qd_size d) q \<Longrightarrow>
       (\<exists>needed. err = Some (MemoryLimitError (mt_totalMemory (q_memoryTracker q))
           (mt_maxMemory (q_memoryTracker q)) needed)) \<and> same_queue q q'"
    "\<not> q_at_limit q \<Longrightarrow> q_room (qd_size d) q \<Longrightarrow>
       err = None \<and> stored [d] q q' \<and> mt_totalMemory (q_memoryTracker q')
         \<le> mt_totalMemory (q_memoryTracker q) + qd_size d + ChunkNodeSize"
proof -
  obtain d q1 where n: "q_new_data payload now q = (d, q1)" "new_item payload q now d" "same_queue q q1"
    by (rule q_new_data_spec [OF inv p])
  note S = same_queueD [OF n(3)] and inv1 = same_queue_inv [OF n(3) inv]
  have lim: "q_maxItems q1 > 0 \<and> cl_totalItems (q_data q1) \<ge> q_maxItems q1 \<longleftrightarrow> q_at_limit q"
    using S q_total_items [OF inv] by (simp add: q_at_limit_def)
  have sz: "0 \<le> qd_size d" "qd_size d \<le> MaxInt64" "payload_ok (qd_Payload d)"
    using n(2) p by (auto simp: new_item_def item_overhead_def BaseQueueDataSize_def BaseQueueEventSize_def)
  have ok1: "data_ok (q_data q1)" using inv1 by (simp add: q_inv_def)
  have opn1: "\<not> q_closed q1" using opn S by simp
  consider "q_at_limit q" | "\<not> q_at_limit q" "\<not> q_room (qd_size d) q" | "\<not> q_at_limit q" "q_room (qd_size d) q"
    by blast
  then show ?thesis
  proof cases
    case 1
    then show ?thesis
      using n opn S lim inv1
      by (intro that [of "Some (QueueFullError (q_maxItems q))" q1 d]) (simp_all add: q_TryEnqueue_def)
  next
    case 2
    have over: "mt_maxMemory (q_memoryTracker q1) < mt_totalMemory (q_memoryTracker q1) + qd_size d"
      using 2 S by (simp add: q_room_def)
    obtain needed cl' where c: "cl_Enqueue d (q_data q1) = (Some (MemoryLimitError
          (mt_totalMemory (q_memoryTracker q1)) (mt_maxMemory (q_memoryTracker q1)) needed), cl')"
        "data_ok cl'" "cl' = (q_data q1)\<lparr>cl_memoryTracker := cl_memoryTracker cl'\<rparr>"
        "mt_totalMemory (cl_memoryTracker cl') = mt_totalMemory (q_memoryTracker q1)"
        "mt_maxMemory (cl_memoryTracker cl') = mt_maxMemory (q_memoryTracker q1)"
      by (rule cl_Enqueue_over [OF ok1 sz over])
    have sq: "same_queue q1 (q1\<lparr>q_data := cl'\<rparr>)"
      unfolding same_queue_def
      by (intro exI [of _ "cl_memoryTracker cl'"] exI [of _ "q_dataIDSequence q1"])
        (use c in \<open>simp add: data_ok_def mt_ok_def\<close>)
    show ?thesis
    proof (rule that [of "Some (MemoryLimitError (mt_totalMemory (q_memoryTracker q))
           (mt_maxMemory (q_memoryTracker q)) needed)" "q1\<lparr>q_data := cl'\<rparr>" d])
      show "q_TryEnqueue payload now q = Some (Some (MemoryLimitError (mt_totalMemory (q_memoryTracker q))
           (mt_maxMemory (q_memoryTracker q)) needed), q1\<lparr>q_data := cl'\<rparr>)"
        unfolding q_TryEnqueue_def using n(1) opn opn1 lim 2(1) c(1) S by simp
      show "q_inv (q1\<lparr>q_data := cl'\<rparr>)" by (rule same_queue_inv [OF sq inv1])
    qed (use 2 n(2) same_queue_trans [OF n(3) sq] in simp_all)
  next
    case 3
    have fits: "mt_totalMemory (q_memoryTracker q1) + qd_size d \<le> mt_maxMemory (q_memoryTracker q1)"
      using 3 S by (simp add: q_room_def)
    obtain cl' where c: "cl_Enqueue d (q_data q1) = (None, cl')" "grown [d] (q_data q1) cl'"
      "mt_totalMemory (cl_memoryTracker cl')
         \<le> mt_totalMemory (q_memoryTracker q1) + qd_size d + ChunkNodeSize"
      by (rule cl_Enqueue_fits [OF ok1 sz(1,2) fits])
    obtain q2 where q2: "notifyWaitingConsumers (q1\<lparr>q_data := cl'\<rparr>) = Some q2" "stored [d] q1 q2" "q_data q2 = cl'"
      by (rule q_store [OF inv1 opn1 c(2)])
    show ?thesis
    proof (rule that [of None q2 d])
      show "q_TryEnqueue payload now q = Some (None, q2)"
        unfolding q_TryEnqueue_def using n(1) opn opn1 lim 3(1) c(1) q2(1) by simp
      show "q_inv q2" using q2(2) by (simp add: stored_def)
    qed (use 3 n(2) stored_same [OF n(3) q2(2)] q2(3) c(3) S in simp_all)
  qed
qed

section \<open>Adding a batch\<close>

text \<open>The items a batch is made of.\<close>

definition batch_items ::
  "string \<Rightarrow> clock \<Rightarrow> nat \<Rightarrow> 64 word \<Rightarrow> payload list \<Rightarrow> queue_data list \<Rightarrow> bool" where
  "batch_items name clk k sequence payloads ds \<longleftrightarrow>
     map qd_Payload ds = payloads
     \<and> (\<forall>i < length ds. qd_ID (ds ! i) = sequence + 1 + of_nat i \<and> qd_Created (ds ! i) = clk (k + i)
          \<and> item_overhead \<le> qd_size (ds ! i) \<and> qd_size (ds ! i) \<le> MaxInt64)"

lemma batch_items_Cons:
  assumes "batch_items name clk (k + 1) (sequence + 1) ps ds"
    and "qd_Payload d = p" "qd_ID d = sequence + 1" "qd_Created d = clk k"
    and "item_overhead \<le> qd_size d" "qd_size d \<le> MaxInt64"
  shows "batch_items name clk k sequence (p # ps) (d # ds)"
  using assms unfolding batch_items_def by (auto simp: nth_Cons add.assoc split: nat.split)

lemma make_items_spec:
  assumes "\<forall>p \<in> set payloads. payload_ok p" and "cache_sound (mt_sizeCache mt)"
    and "0 \<le> totalSize" "totalSize \<le> MaxInt64"
  shows "\<exists>ds sequence' mt'. make_items name clk k payloads acc totalSize sequence mt
      = (if totalSize + sum_list (map qd_size ds) \<le> MaxInt64 \<and> length ds = length payloads
         then Some (acc @ ds, totalSize + sum_list (map qd_size ds)) else None, sequence', mt')
    \<and> (length ds = length payloads \<longrightarrow> batch_items name clk k sequence payloads ds)
    \<and> (length ds \<noteq> length payloads \<longrightarrow> totalSize + sum_list (map qd_size ds) > MaxInt64)
    \<and> mt_totalMemory mt' = mt_totalMemory mt \<and> mt_maxMemory mt' = mt_maxMemory mt
    \<and> cache_sound (mt_sizeCache mt')"
  using assms
proof (induction payloads arbitrary: k acc totalSize sequence mt)
  case Nil
  then show ?case by (intro exI [of _ "[]"]) (simp add: batch_items_def)
next
  case (Cons p ps)
  obtain d0 where d0: "NewQueueData p name (clk k) sequence = (d0, sequence + 1)"
    by (simp add: NewQueueData_def Let_def)
  obtain sz mt1 where e: "mt_EstimateQueueDataSize (Some d0) mt = (sz, mt1)" by fastforce
  have pl: "payload_ok (qd_Payload d0)" using d0 Cons.prems(1) by (auto simp: NewQueueData_def Let_def)
  note E = EstimateQueueDataSize_bounds [OF pl Cons.prems(2) e]
  let ?d = "qd_SetSize sz d0"
  have d: "qd_Payload ?d = p" "qd_ID ?d = sequence + 1" "qd_Created ?d = clk k" "qd_size ?d = sz"
    using d0 by (auto simp: NewQueueData_def qd_SetSize_def Let_def)
  show ?case
  proof (cases "MaxInt64 - totalSize < sz")
    case True
    have ne: "length [?d] \<noteq> length (p # ps) \<or> ps = []" by (cases ps) simp_all
    have "make_items name clk k (p # ps) acc totalSize sequence mt = (None, sequence + 1, mt1)"
      using True by (simp add: d0 e)
    then show ?thesis
      using True E d batch_items_Cons [of name clk k sequence "[]" "[]" ?d p]
      by (intro exI [of _ "[?d]"] exI [of _ "sequence + 1"] exI [of _ mt1])
        (cases ps; simp add: batch_items_def)
  next
    case False
    have sz0: "0 \<le> sz" using E(1) by (simp add: item_overhead_def BaseQueueDataSize_def BaseQueueEventSize_def)
    have ok: "\<forall>p \<in> set ps. payload_ok p" using Cons.prems(1) by simp
    have t: "0 \<le> totalSize + sz" "totalSize + sz \<le> MaxInt64" using Cons.prems(3) sz0 False by simp_all
    obtain ds sequence' mt' where I:
      "make_items name clk (k + 1) ps (acc @ [?d]) (totalSize + sz) (sequence + 1) mt1
      = (if totalSize + sz + sum_list (map qd_size ds) \<le> MaxInt64 \<and> length ds = length ps
         then Some ((acc @ [?d]) @ ds, totalSize + sz + sum_list (map qd_size ds)) else None, sequence', mt')"
      "length ds = length ps \<longrightarrow> batch_items name clk (k + 1) (sequence + 1) ps ds"
      "length ds \<noteq> length ps \<longrightarrow> totalSize + sz + sum_list (map qd_size ds) > MaxInt64"
      "mt_totalMemory mt' = mt_totalMemory mt1" "mt_maxMemory mt' = mt_maxMemory mt1"
      "cache_sound (mt_sizeCache mt')"
      using Cons.IH [OF ok E(3) t, of "k + 1" "acc @ [?d]" "sequence + 1"] by blast
    have "batch_items name clk k sequence (p # ps) (?d # ds)" if "length ds = length ps"
      by (rule batch_items_Cons) (use I(2) that d E in auto)
    moreover have "make_items name clk k (p # ps) acc totalSize sequence mt
      = (if totalSize + sum_list (map qd_size (?d # ds)) \<le> MaxInt64 \<and> length (?d # ds) = length (p # ps)
         then Some (acc @ ?d # ds, totalSize + sum_list (map qd_size (?d # ds))) else None, sequence', mt')"
      using False I(1) d by (simp add: d0 e add.assoc)
    ultimately show ?thesis
      using I(3-6) E d
      by (intro exI [of _ "?d # ds"] exI [of _ sequence'] exI [of _ mt']) (simp add: add.assoc)
  qed
qed

lemma q_make_items_spec:
  assumes inv: "q_inv q" and p: "\<forall>p \<in> set payloads. payload_ok p"
  obtains items q' where "q_make_items payloads clk q = (items, q')" "same_queue q q'"
    "\<And>ds totalSize. items = Some (ds, totalSize) \<Longrightarrow>
       batch_items (q_name q) clk 0 (q_dataIDSequence q) payloads ds
       \<and> totalSize = sum_list (map qd_size ds) \<and> totalSize \<le> MaxInt64"
proof -
  have c: "cache_sound (mt_sizeCache (q_memoryTracker q))"
    using q_invD(4) [OF inv] by (simp add: mt_ok_def)
  obtain ds sq mt where M: "make_items (q_name q) clk 0 payloads [] 0 (q_dataIDSequence q) (q_memoryTracker q)
      = (if 0 + sum_list (map qd_size ds) \<le> MaxInt64 \<and> length ds = length payloads
         then Some ([] @ ds, 0 + sum_list (map qd_size ds)) else None, sq, mt)"
    "length ds = length payloads \<longrightarrow> batch_items (q_name q) clk 0 (q_dataIDSequence q) payloads ds"
    "mt_totalMemory mt = mt_totalMemory (q_memoryTracker q)" "mt_maxMemory mt = mt_maxMemory (q_memoryTracker q)"
    "cache_sound (mt_sizeCache mt)"
    using make_items_spec [OF p c, of 0 "q_name q" clk 0 "[]" "q_dataIDSequence q"]
    by (auto simp: MaxInt64_def)
  let ?q = "q\<lparr>q_data := (q_data q)\<lparr>cl_memoryTracker := mt\<rparr>, q_dataIDSequence := sq\<rparr>"
  have "same_queue q ?q"
    unfolding same_queue_def using M(3-5) by (intro exI [of _ mt] exI [of _ sq]) simp
  then show ?thesis
    using M(1,2) by (intro that [of _ ?q]) (auto simp: q_make_items_def split: if_splits)
qed

lemma batch_items_size:
  assumes "batch_items name clk k sequence payloads ds"
  shows "length ds = length payloads" "\<forall>d \<in> set ds. 0 \<le> qd_size d"
    and "item_overhead * int (length ds) \<le> sum_list (map qd_size ds)"
proof -
  show "length ds = length payloads" using assms by (auto simp: batch_items_def dest: map_eq_imp_length_eq)
  have s: "item_overhead \<le> qd_size d" if "d \<in> set ds" for d
    using assms that by (auto simp: batch_items_def in_set_conv_nth)
  then show "\<forall>d \<in> set ds. 0 \<le> qd_size d"
    by (force simp: item_overhead_def BaseQueueDataSize_def BaseQueueEventSize_def)
  show "item_overhead * int (length ds) \<le> sum_list (map qd_size ds)"
    using s by (induction ds) (auto simp: algebra_simps intro: add_mono)
qed

lemma cl_EnqueueBatch_fits:
  assumes ok: "data_ok cl" and pos: "\<forall>d \<in> set ds. 0 \<le> qd_size d"
    and len: "item_overhead * int (length ds) \<le> sum_list (map qd_size ds)"
    and fits: "mt_totalMemory (cl_memoryTracker cl) + sum_list (map qd_size ds) \<le> mt_maxMemory (cl_memoryTracker cl)"
  obtains cl' where "cl_EnqueueBatch ds cl = (None, cl')" "grown ds cl cl'"
proof -
  have inv: "cl_inv cl" and acc: "cl_accounted cl" and mt: "mt_ok (cl_memoryTracker cl)"
    and ch: "cl_chained cl" using ok by (auto simp: data_ok_def)
  obtain cl' where E: "cl_EnqueueBatch ds cl = (None, cl')" "cl_inv cl'" "cl_items cl' = cl_items cl @ ds"
    "cl_chained cl \<Longrightarrow> cl_chained cl'" "length (cl_list cl) \<le> length (cl_list cl')"
    "length (cl_list cl') \<le> length (cl_list cl) + length ds"
    "mt_maxMemory (cl_memoryTracker cl') = mt_maxMemory (cl_memoryTracker cl)"
    "mt_sizeCache (cl_memoryTracker cl') = mt_sizeCache (cl_memoryTracker cl)"
    "cl_accounted cl \<Longrightarrow> \<forall>d \<in> set ds. 0 \<le> qd_size d \<Longrightarrow> cl_bytes cl' \<le> MaxInt64 \<Longrightarrow> cl_accounted cl'"
    by (rule cl_EnqueueBatch_spec [OF inv, of ds]) blast
  let ?S = "sum_list (map qd_size ds)"
  have tot: "mt_totalMemory (cl_memoryTracker cl) = cl_bytes cl" using acc by (simp add: cl_accounted_def)
  have fits': "cl_bytes cl + ?S \<le> 2 ^ 50" using fits mt unfolding tot by (simp add: mt_ok_def)
  have "168 * int (length ds) \<le> ?S"
    using len by (simp add: item_overhead_def BaseQueueDataSize_def BaseQueueEventSize_def)
  moreover have "cl_bytes cl' \<le> cl_bytes cl + ChunkNodeSize * int (length ds) + ?S"
    using E(3,6) by (simp add: cl_bytes_def ChunkNodeSize_def)
  ultimately have "cl_bytes cl' \<le> MaxInt64"
    using fits' cl_bytes_nonneg [OF acc] by (simp add: ChunkNodeSize_def MaxInt64_def)
  then have acc': "cl_accounted cl'" by (rule E(9) [OF acc pos])
  have "data_ok cl'" using E acc' ch mt by (simp add: data_ok_def mt_ok_def)
  then have "grown ds cl cl'"
    using E EnqueueBatch_pos [OF inv E(1)] unfolding grown_def by simp
  then show ?thesis using E(1) that by blast
qed

lemma wrap64_room:
  assumes "mt_ok mt" "0 \<le> mt_totalMemory mt" "mt_totalMemory mt \<le> MaxInt64"
  shows "wrap64 (mt_maxMemory mt - mt_totalMemory mt) = mt_maxMemory mt - mt_totalMemory mt"
  by (rule wrap64_id) (use assms in \<open>simp add: mt_ok_def is_int64_def MaxInt64_def MinInt64_def\<close>)

lemma q_memory_range:
  assumes "q_inv q"
  shows "0 \<le> mt_totalMemory (q_memoryTracker q)" "mt_totalMemory (q_memoryTracker q) \<le> MaxInt64"
  using q_invD(3) [OF assms] cl_bytes_nonneg [OF q_invD(3) [OF assms]] by (simp_all add: cl_accounted_def)

text \<open>\<^verbatim>\<open>TryEnqueueBatch\<close>: all items in order at the end, or none and an error.\<close>

lemma q_TryEnqueueBatch_closed:
  "q_closed q \<Longrightarrow> q_TryEnqueueBatch payloads clk q = Some (Some (QueueClosedError ''enqueue batch''), q)"
  by (simp add: q_TryEnqueueBatch_def)

lemma q_TryEnqueueBatch_open:
  assumes inv: "q_inv q" and opn: "\<not> q_closed q" and p: "\<forall>p \<in> set payloads. payload_ok p"
    and ne: "payloads \<noteq> []"
  obtains err q' where "q_TryEnqueueBatch payloads clk q = Some (err, q')" "q_inv q'"
    "err \<noteq> None \<Longrightarrow> same_queue q q'"
    "err = None \<Longrightarrow> \<exists>ds. batch_items (q_name q) clk 0 (q_dataIDSequence q) payloads ds
        \<and> q_room (sum_list (map qd_size ds)) q
        \<and> (q_maxItems q > 0 \<longrightarrow> int (length (q_items q) + length payloads) \<le> q_maxItems q)
        \<and> stored ds q q'"
proof (cases "q_maxItems q > 0 \<and> cl_totalItems (q_data q) + int (length payloads) > q_maxItems q")
  case True
  then show ?thesis
    using opn ne inv same_queue_refl
    by (intro that [of "Some (QueueFullError (q_maxItems q))" q]) (simp_all add: q_TryEnqueueBatch_def)
next
  case False
  obtain items q1 where M: "q_make_items payloads clk q = (items, q1)" "same_queue q q1"
    "\<And>ds totalSize. items = Some (ds, totalSize) \<Longrightarrow>
       batch_items (q_name q) clk 0 (q_dataIDSequence q) payloads ds
       \<and> totalSize = sum_list (map qd_size ds) \<and> totalSize \<le> MaxInt64"
    by (rule q_make_items_spec [OF inv p, of clk]) blast
  note S = same_queueD [OF M(2)] and inv1 = same_queue_inv [OF M(2) inv]
  have opn1: "\<not> q_closed q1" using opn S by simp
  note unf = q_TryEnqueueBatch_def [of payloads clk q] M(1)
  have W: "wrap64 (mt_maxMemory (q_memoryTracker q1) - mt_totalMemory (q_memoryTracker q1))
      = mt_maxMemory (q_memoryTracker q1) - mt_totalMemory (q_memoryTracker q1)"
    by (rule wrap64_room [OF q_invD(4) [OF inv1] q_memory_range [OF inv1]])
  show ?thesis
  proof (cases items)
    case None
    then show ?thesis
      using opn ne False inv1 M(2) by (intro that [of "Some batch_overflow" q1]) (auto simp: unf)
  next
    case (Some dt)
    then obtain ds totalSize where it: "items = Some (ds, totalSize)" by (cases dt) auto
    note B = M(3) [OF it]
    show ?thesis
    proof (cases "q_room (sum_list (map qd_size ds)) q")
      case False2: False
      then show ?thesis
        using opn ne False inv1 M(2) it B W S
        by (intro that [of "Some (MemoryLimitError (mt_totalMemory (q_memoryTracker q1))
              (mt_maxMemory (q_memoryTracker q1)) totalSize)" q1])
          (auto simp: unf q_room_def)
    next
      case True
      have fits: "mt_totalMemory (q_memoryTracker q1) + sum_list (map qd_size ds) \<le> mt_maxMemory (q_memoryTracker q1)"
        using True S by (simp add: q_room_def)
      have ok1: "data_ok (q_data q1)" using inv1 by (simp add: q_inv_def)
      obtain cl' where c: "cl_EnqueueBatch ds (q_data q1) = (None, cl')" "grown ds (q_data q1) cl'"
        by (rule cl_EnqueueBatch_fits [OF ok1 batch_items_size(2,3) [OF conjunct1 [OF B]] fits])
      obtain q2 where q2: "notifyWaitingConsumers (q1\<lparr>q_data := cl'\<rparr>) = Some q2" "stored ds q1 q2"
        by (rule q_store [OF inv1 opn1 c(2)])
      show ?thesis
      proof (rule that [of None q2])
        show "q_TryEnqueueBatch payloads clk q = Some (None, q2)"
          using opn ne False it B W True S c(1) q2(1) by (auto simp: unf q_room_def)
        show "\<exists>ds. batch_items (q_name q) clk 0 (q_dataIDSequence q) payloads ds
            \<and> q_room (sum_list (map qd_size ds)) q
            \<and> (q_maxItems q > 0 \<longrightarrow> int (length (q_items q) + length payloads) \<le> q_maxItems q)
            \<and> stored ds q q2"
          using B True False q_total_items [OF inv] stored_same [OF M(2) q2(2)]
          by (intro exI [of _ ds]) auto
      qed (use q2(2) in \<open>simp_all add: stored_def\<close>)
    qed
  qed
qed

end
