(* ===== verification/MQ_QueueOps.thy ===== *)
theory MQ_QueueOps
  imports MQ_QueueInv
begin

text \<open>
  One attempt of the blocking enqueue, the reads through the queue, the expiration pass and
  \<^verbatim>\<open>Close\<close>.
\<close>

section \<open>One attempt of the blocking enqueue\<close>

lemma take_token_ok: "signals_ok ch \<Longrightarrow> signals_ok (take_token ch)"
  by (auto simp: signals_ok_def take_token_def)

lemma q_inv_take_tokens:
  "q_inv q \<Longrightarrow> q_inv (q\<lparr>q_dequeueNotify := take_token (q_dequeueNotify q)\<rparr>)"
  "q_inv q \<Longrightarrow> q_inv (q\<lparr>q_enqueueNotify := take_token (q_enqueueNotify q)\<rparr>)"
  by (simp_all add: q_inv_def take_token_ok)

text \<open>One round: it stores the item exactly when the queue is open and there is room.\<close>

lemma q_enqueue_round_spec:
  assumes inv: "q_inv q" and d: "0 \<le> qd_size d" "qd_size d \<le> MaxInt64" "payload_ok (qd_Payload d)"
  obtains "q_closed q" "q_enqueue_round wrap d q = Some (Done (Some (QueueClosedError ''enqueue'')) q)"
    | q' where "\<not> q_closed q" "\<not> q_at_limit q" "q_room (qd_size d) q"
        "q_enqueue_round wrap d q = Some (Done None q')" "stored [d] q q'"
    | q' where "\<not> q_closed q" "q_at_limit q \<or> \<not> q_room (qd_size d) q"
        "q_enqueue_round wrap d q = Some (Wait q')" "same_queue q q'"
    | q' n where "\<not> q_closed q" "\<not> q_room (qd_size d) q" "n > mt_maxMemory (q_memoryTracker q)"
        "q_enqueue_round wrap d q = Some (Done (Some (wrap (MemoryLimitError
            (mt_totalMemory (q_memoryTracker q)) (mt_maxMemory (q_memoryTracker q)) n))) q')"
        "same_queue q q'"
proof -
  have lim: "q_maxItems q > 0 \<and> cl_totalItems (q_data q) \<ge> q_maxItems q \<longleftrightarrow> q_at_limit q"
    using q_total_items [OF inv] by (simp add: q_at_limit_def)
  have ok: "data_ok (q_data q)" using inv by (simp add: q_inv_def)
  note unf = q_enqueue_round_def [of wrap d q, unfolded lim]
  consider "q_closed q" | "\<not> q_closed q" "q_at_limit q" | "\<not> q_closed q" "\<not> q_at_limit q" "\<not> q_room (qd_size d) q"
    | "\<not> q_closed q" "\<not> q_at_limit q" "q_room (qd_size d) q" by blast
  then show ?thesis
  proof cases
    case 1
    then show ?thesis by (intro that(1)) (simp_all add: unf)
  next
    case 2
    then show ?thesis using same_queue_refl by (intro that(3) [of q]) (simp_all add: unf)
  next
    case 3
    have over: "mt_maxMemory (q_memoryTracker q) < mt_totalMemory (q_memoryTracker q) + qd_size d"
      using 3 by (simp add: q_room_def)
    obtain needed cl' where c: "cl_Enqueue d (q_data q) = (Some (MemoryLimitError
          (mt_totalMemory (q_memoryTracker q)) (mt_maxMemory (q_memoryTracker q)) needed), cl')"
        "data_ok cl'" "cl' = (q_data q)\<lparr>cl_memoryTracker := cl_memoryTracker cl'\<rparr>"
        "mt_totalMemory (cl_memoryTracker cl') = mt_totalMemory (q_memoryTracker q)"
        "mt_maxMemory (cl_memoryTracker cl') = mt_maxMemory (q_memoryTracker q)"
      by (rule cl_Enqueue_over [OF ok d over])
    have sq: "same_queue q (q\<lparr>q_data := cl'\<rparr>)"
      unfolding same_queue_def
      by (intro exI [of _ "cl_memoryTracker cl'"] exI [of _ "q_dataIDSequence q"])
        (use c in \<open>simp add: data_ok_def mt_ok_def\<close>)
    show ?thesis
    proof (cases "needed > mt_maxMemory (q_memoryTracker q)")
      case True
      then show ?thesis
        using 3 c(1) sq by (intro that(4) [of needed "q\<lparr>q_data := cl'\<rparr>"]) (simp_all add: unf)
    next
      case False
      then show ?thesis
        using 3 c(1) sq by (intro that(3) [of "q\<lparr>q_data := cl'\<rparr>"]) (simp_all add: unf)
    qed
  next
    case 4
    have fits: "mt_totalMemory (q_memoryTracker q) + qd_size d \<le> mt_maxMemory (q_memoryTracker q)"
      using 4 by (simp add: q_room_def)
    obtain cl' where c: "cl_Enqueue d (q_data q) = (None, cl')" "grown [d] (q_data q) cl'"
      by (rule cl_Enqueue_fits [OF ok d(1,2) fits])
    obtain q2 where q2: "notifyWaitingConsumers (q\<lparr>q_data := cl'\<rparr>) = Some q2" "stored [d] q q2"
      by (rule q_store [OF inv 4(1) c(2)])
    show ?thesis
      using 4 c(1) q2 by (intro that(2) [of q2]) (simp_all add: unf)
  qed
qed

section \<open>Reading\<close>

text \<open>Two consumers share a cursor when they are the same or of the same group.\<close>

definition same_cursor :: "queue \<Rightarrow> cptr \<Rightarrow> cptr \<Rightarrow> bool" where
  "same_cursor q p p' \<longleftrightarrow> p = p' \<or>
     (c_group (cm_cstore (q_consumers q) p) \<noteq> None
      \<and> c_group (cm_cstore (q_consumers q) p) = c_group (cm_cstore (q_consumers q) p'))"

lemma q_set_reading_spec:
  assumes inv: "q_inv q" and opn: "\<not> q_closed q" and r: "q_reader p q"
    and ok: "reader_ok (q_data q) cgs" and h: "has_read ds (q_reading p q) cgs"
  shows "q_inv (q_set_reading p cgs q)" and "q_items (q_set_reading p cgs q) = q_items q"
    and "q_left p (q_set_reading p cgs q) = left_to_read (q_data q) cgs"
    and "\<not> same_cursor q p p' \<Longrightarrow> q_left p' (q_set_reading p cgs q) = q_left p' q"
    and "same_cursor q p p' \<Longrightarrow> q_left p' (q_set_reading p cgs q) = left_to_read (q_data q) cgs"
    and "q_reader p' (q_set_reading p cgs q) = q_reader p' q"
proof -
  obtain c gs where cgs: "cgs = (c, gs)" by fastforce
  let ?cm = "q_consumers q" and ?q = "q_set_reading p cgs q"
  let ?cm' = "?cm\<lparr>cm_cstore := (cm_cstore ?cm)(p := c), cm_gstore := gs\<rparr>"
  have q': "q_consumers ?q = ?cm'" "q_data ?q = q_data q" "q_closed ?q = q_closed q"
    "q_enqueueNotify ?q = q_enqueueNotify q" "q_dequeueNotify ?q = q_dequeueNotify q"
    "q_stopChan ?q = q_stopChan q"
    by (simp_all add: q_set_reading_def cgs)
  note H = h [unfolded has_read_def q_reading_def cgs Let_def split_conv]
  note O = ok [unfolded reader_ok_def cgs Let_def split_conv]
  note W = cm_wfD [OF q_invD(5) [OF inv]] and P = cm_positionsD [OF q_invD(9) [OF inv opn]]
  have same: "c_id c = c_id (cm_cstore ?cm p)" "c_group c = c_group (cm_cstore ?cm p)"
    "c_closed c = c_closed (cm_cstore ?cm p)" "c_wf c"
    using H W(11) [of p] by (auto simp: c_wf_def)
  have gsame: "cg_name (gs g) = cg_name (cm_gstore ?cm g)" "cg_closed (gs g) = cg_closed (cm_gstore ?cm g)"
    "cg_wf (gs g)" for g
    using H W(12) [of g] by (auto simp: cg_wf_def)
  have gother: "gs g = cm_gstore ?cm g" if "c_group (cm_cstore ?cm p) \<noteq> Some g" for g
    using H that by auto
  have wf': "cm_wf ?cm'"
    unfolding cm_wf_def
  proof (intro conjI allI impI)
    show "\<forall>(uid, p) \<in> set (cm_consumers ?cm'). p < cm_cnext ?cm' \<and> c_id (cm_cstore ?cm' p) = uid
           \<and> (\<forall>g. c_group (cm_cstore ?cm' p) = Some g \<longrightarrow> g < cm_gnext ?cm')"
      using W(5-7) same by auto
    show "\<forall>(name, g) \<in> set (cm_groups ?cm'). g < cm_gnext ?cm' \<and> cg_name (cm_gstore ?cm' g) = name"
      using W(8,9) gsame by auto
  qed (use W(1-4,10,11,13,14) same gsame O in auto)
  have pos': "cm_positions (q_data q) ?cm'"
    unfolding cm_positions_def
  proof (safe, goal_cases)
    case (1 uid x)
    then show ?case
      using P(1) [of uid x] O by (cases "x = p") (simp_all add: c_GetPosition_def c_position_def)
  next
    case (2 name g)
    then show ?case
      using P(2) [of name g] O gother [of g] gsame [of g] same
      by (cases "c_group (cm_cstore ?cm p) = Some g") (simp_all add: c_GetPosition_def)
  qed
  show "q_inv ?q" using inv opn wf' pos' unfolding q_inv_def q' by simp
  show "q_items ?q = q_items q" by (simp add: q_items_def q')
  show left: "q_left p ?q = left_to_read (q_data q) cgs"
    unfolding q_left_def q_reading_def q' by (simp add: cgs)
  show "q_left p' ?q = q_left p' q" if "\<not> same_cursor q p p'"
    using that gother unfolding q_left_def q_reading_def q'
    by (auto simp: left_to_read_def same_cursor_def c_GetPosition_def split: option.split)
  show "q_left p' ?q = left_to_read (q_data q) cgs" if "same_cursor q p p'"
    using that left same unfolding q_left_def q_reading_def q'
    by (auto simp: left_to_read_def same_cursor_def c_GetPosition_def cgs split: option.split)
  show "q_reader p' ?q = q_reader p' q"
    using same gsame unfolding q_reader_def q' by auto
qed

lemma q_TryRead_spec:
  assumes inv: "q_inv q" and opn: "\<not> q_closed q" and r: "q_reader p q"
  obtains q' where
    "q_TryRead clk k p q = Some (if q_left p q = [] then None else Some (hd (q_left p q)), q')"
    "q_inv q'" "q_items q' = q_items q"
    "\<And>p'. q_left p' q' = (if same_cursor q p p' then tl (q_left p q) else q_left p' q)"
    "\<And>p'. q_reader p' q' = q_reader p' q"
    "has_read (take 1 (q_left p q)) (q_reading p q) (q_reading p q')"
    "q_closed q' = q_closed q" "q_data q' = q_data q"
proof -
  note ok = q_reader_ok [OF inv opn r]
  obtain cgs where T: "c_TryRead clk k False (q_data q) (q_reading p q)
       = Some (if q_left p q = [] then None else Some (hd (q_left p q)), cgs)"
    "reader_ok (q_data q) cgs" "left_to_read (q_data q) cgs = tl (q_left p q)"
    "has_read (take 1 (q_left p q)) (q_reading p q) cgs"
    unfolding q_left_def by (rule c_TryRead_left [OF q_invD(1,2) [OF inv] ok])
  note S = q_set_reading_spec [OF inv opn r T(2,4)]
  show ?thesis
  proof (rule that [of "q_set_reading p cgs q"])
    show "q_TryRead clk k p q = Some (if q_left p q = [] then None else Some (hd (q_left p q)), q_set_reading p cgs q)"
      using T(1) opn by (simp add: q_TryRead_def)
    show "q_left p' (q_set_reading p cgs q) = (if same_cursor q p p' then tl (q_left p q) else q_left p' q)" for p'
      using S(4,5) [of p'] T(3) by simp
    show "has_read (take 1 (q_left p q)) (q_reading p q) (q_reading p (q_set_reading p cgs q))"
      using T(4) by (simp add: q_reading_def q_set_reading_def)
  qed (use S in \<open>simp_all add: q_set_reading_def\<close>)
qed

text \<open>How many of the live items a reader has read: the others are what it has left.\<close>

lemma q_rank:
  assumes "q_inv q" "\<not> q_closed q" "q_reader p q"
  shows "pos_rank (q_data q) (c_GetPosition (cm_gstore (q_consumers q)) (cm_cstore (q_consumers q) p))
      = length (q_items q) - length (q_left p q)"
    and "q_left p q = drop (length (q_items q) - length (q_left p q)) (q_items q)"
proof -
  let ?pos = "c_GetPosition (cm_gstore (q_consumers q)) (cm_cstore (q_consumers q) p)"
  have "pos_ok (q_data q) ?pos"
    using q_reader_ok [OF assms] by (simp add: reader_ok_def q_reading_def)
  then have le: "pos_rank (q_data q) ?pos \<le> length (q_items q)"
    unfolding q_items_def by (rule pos_rank_le [OF q_invD(1) [OF assms(1)]])
  have left: "q_left p q = drop (pos_rank (q_data q) ?pos) (q_items q)"
    by (simp add: q_left_def left_to_read_def q_reading_def unread_def q_items_def)
  then show r: "pos_rank (q_data q) ?pos = length (q_items q) - length (q_left p q)" using le by simp
  show "q_left p q = drop (length (q_items q) - length (q_left p q)) (q_items q)"
    unfolding r [symmetric] by (rule left)
qed

section \<open>Expiration\<close>

lemma cl_RemoveExpiredData_empty: "cl_list cl = [] \<Longrightarrow> cl_RemoveExpiredData clk ttl cl = (0, [], cl)"
  by (simp add: cl_RemoveExpiredData_def)

lemma cleanup_disabled: "\<not> q_expirationEnabled q \<Longrightarrow> cleanupExpiredItems clk q = Some (0, q)"
  by (simp add: cleanupExpiredItems_def)

text \<open>
  When the looks of the pass agree, the items found expired in turn go, a prefix. Every reader loses
  exactly the removed items it had not read, and an independent one is told how many these are.
\<close>

lemma cleanup_spec:
  assumes inv: "q_inv q" and looks: "looks_agree clk (q_ttl q) 0 (q_items q)" and en: "q_expirationEnabled q"
  defines "n \<equiv> expired_run clk (q_ttl q) 0 (q_items q)"
  obtains q' where "cleanupExpiredItems clk q = Some (n, q')" "q_inv q'"
    "q_items q' = drop n (q_items q)"
    "q_closed q' = q_closed q"
    "mt_maxMemory (q_memoryTracker q') = mt_maxMemory (q_memoryTracker q)"
    "cm_consumers (q_consumers q') = cm_consumers (q_consumers q)"
    "\<And>p. \<not> q_closed q \<Longrightarrow> q_reader p q \<Longrightarrow> q_reader p q' \<and>
        q_left p q' = drop (n - (length (q_items q) - length (q_left p q))) (q_left p q)"
    "\<And>p. \<not> q_closed q \<Longrightarrow> q_reader p q \<Longrightarrow> c_group (cm_cstore (q_consumers q) p) = None \<Longrightarrow>
        c_notificationCh (cm_cstore (q_consumers q') p)
          = channel_after (n - (length (q_items q) - length (q_left p q))) False
              (c_notificationCh (cm_cstore (q_consumers q) p))"
    "n > 0 \<Longrightarrow> length (ch_buf (q_dequeueNotify q')) = 100"
proof -
  obtain m infos cl' where R: "cl_RemoveExpiredData clk (q_ttl q) (q_data q) = (m, infos, cl')"
    by (metis prod.exhaust)
  note ci = q_invD(1) [OF inv]
  have agree: "looks_agree clk (q_ttl q) 0 (cl_items (q_data q))" using looks by (simp add: q_items_def)
  note E = cl_RemoveExpiredData_agreed [OF ci agree R]
  have m: "m = n" using E(3) by (simp add: n_def q_items_def)
  have ok': "data_ok cl'"
    using E q_invD(2-4) [OF inv] by (simp add: data_ok_def mt_ok_def)
  let ?q1 = "q\<lparr>q_data := cl'\<rparr>"
  show ?thesis
  proof (cases "n > 0")
    case False
    have z: "n = 0" using False by simp
    have items: "q_items ?q1 = drop n (q_items q)"
      "q_items ?q1 = q_items q"
      using E(2) m z by (auto simp: q_items_def)
    show ?thesis
    proof (cases "q_closed q")
      case True
      then have "cl' = q_data q" using R cl_RemoveExpiredData_empty [OF q_invD(10) [OF inv True]] by simp
      then have "?q1 = q" by simp
      then show ?thesis
        using R m z True inv items en
        by (intro that [of q]) (simp_all add: cleanupExpiredItems_def)
    next
      case opn: False
      have P: "pos_ok cl' pos \<and> unread cl' pos = unread (q_data q) pos" if "pos_ok (q_data q) pos" for pos
        using RemoveExpiredData_pos [OF ci agree R that] m z by (simp add: moved_position_def)
      have pos': "cm_positions cl' (q_consumers q)"
        by (rule cm_positions_mono [OF q_invD(9) [OF inv opn]]) (use P in blast)
      have inv': "q_inv ?q1" using inv opn pos' ok' unfolding q_inv_def by simp
      have left: "q_left p ?q1 = q_left p q" if "q_reader p q" for p
        using P q_reader_ok [OF inv opn that]
        by (simp add: q_left_def left_to_read_def q_reading_def reader_ok_def)
      show ?thesis
        using R m z inv' items en left opn E(6)
        by (intro that [of ?q1]) (simp_all add: cleanupExpiredItems_def q_reader_def channel_after_def)
    qed
  next
    case True
    have opn: "\<not> q_closed q"
      using True q_invD(10) [OF inv] by (auto simp: n_def q_items_def cl_items_def)
    have mp: "0 < m" using True m by simp
    obtain cm' where C:
      "cm_NotifyAllConsumersOfExpiration (cl_GetFirstElement cl') infos (cl_chunk cl') (q_consumers q) = Some cm'"
      "cm_wf cm'" "cm_positions cl' cm'" "cm_consumers cm' = cm_consumers (q_consumers q)"
      "\<And>uid p. (uid, p) \<in> set (cm_consumers (q_consumers q)) \<Longrightarrow> c_group (cm_cstore (q_consumers q) p) = None \<Longrightarrow>
        c_notificationCh (cm_cstore cm' p)
          = channel_after (m - pos_rank (q_data q) (c_position (cm_cstore (q_consumers q) p)))
          (c_closed (cm_cstore (q_consumers q) p)) (c_notificationCh (cm_cstore (q_consumers q) p))"
      "\<And>uid p. (uid, p) \<in> set (cm_consumers (q_consumers q)) \<Longrightarrow>
        reader_ok (q_data q) (cm_cstore (q_consumers q) p, cm_gstore (q_consumers q)) \<Longrightarrow>
        reader_ok cl' (cm_cstore cm' p, cm_gstore cm')
        \<and> left_to_read cl' (cm_cstore cm' p, cm_gstore cm')
          = drop (m - pos_rank (q_data q) (c_GetPosition (cm_gstore (q_consumers q)) (cm_cstore (q_consumers q) p)))
              (left_to_read (q_data q) (cm_cstore (q_consumers q) p, cm_gstore (q_consumers q)))"
      by (rule cm_expiry [OF ci agree R mp q_invD(5) [OF inv] q_invD(9) [OF inv opn]]) blast
    let ?ch = "(q_dequeueNotify q)\<lparr>ch_buf := ch_buf (q_dequeueNotify q)
        @ replicate (ch_cap (q_dequeueNotify q) - length (ch_buf (q_dequeueNotify q))) ()\<rparr>"
    have sig: "\<not> ch_closed (q_dequeueNotify q)" "ch_cap (q_dequeueNotify q) = 100"
      "length (ch_buf (q_dequeueNotify q)) \<le> 100"
      using q_invD(7) [OF inv] by (simp_all add: signals_ok_def)
    let ?q' = "?q1\<lparr>q_consumers := cm', q_dequeueNotify := ?ch\<rparr>"
    have inv': "q_inv ?q'"
      using inv opn ok' C(2,3) sig unfolding q_inv_def by (simp add: signals_ok_def)
    have mem: "\<exists>uid. (uid, p) \<in> set (cm_consumers (q_consumers q))" if "q_reader p q" for p
      using that by (auto simp: q_reader_def)
    have reader: "q_reader p ?q' \<and> q_left p ?q'
        = drop (n - (length (q_items q) - length (q_left p q))) (q_left p q)" if r: "q_reader p q" for p
    proof -
      obtain uid where u: "(uid, p) \<in> set (cm_consumers (q_consumers q))" using mem [OF r] by blast
      note D = C(6) [OF u q_reader_ok [OF inv opn r, unfolded q_reading_def]]
      have "q_left p ?q' = drop (n - (length (q_items q) - length (q_left p q))) (q_left p q)"
        using conjunct2 [OF D] unfolding q_rank(1) [OF inv opn r] m by (simp add: q_left_def q_reading_def)
      moreover have "q_reader p ?q'"
        using conjunct1 [OF D] u C(4) by (force simp: q_reader_def reader_ok_def)
      ultimately show ?thesis by blast
    qed
    have told: "c_notificationCh (cm_cstore cm' p)
          = channel_after (n - (length (q_items q) - length (q_left p q))) False
              (c_notificationCh (cm_cstore (q_consumers q) p))"
      if r: "q_reader p q" and o: "c_group (cm_cstore (q_consumers q) p) = None" for p
    proof -
      obtain uid where u: "(uid, p) \<in> set (cm_consumers (q_consumers q))" using mem [OF r] by blast
      have c: "c_position (cm_cstore (q_consumers q) p)
          = c_GetPosition (cm_gstore (q_consumers q)) (cm_cstore (q_consumers q) p)"
        using o by (simp add: c_position_def c_GetPosition_def)
      show ?thesis
        using C(5) [OF u o] r unfolding c q_rank(1) [OF inv opn r] m by (simp add: q_reader_def)
    qed
    show ?thesis
    proof (rule that [of ?q'])
      show "cleanupExpiredItems clk q = Some (n, ?q')"
        using en R C(1) mp m fill_signals_open [OF sig(1)] by (simp add: cleanupExpiredItems_def)
      show "q_items ?q' = drop n (q_items q)"
        using E(2) m by (simp add: q_items_def)
    qed (use inv' E(6) C(4) reader told sig in simp_all)
  qed
qed

text \<open>With a clock that stands still this is the longest expired prefix.\<close>

lemma cleanup_steady:
  assumes inv: "q_inv q" and now: "\<And>k. clk k = now" and en: "q_expirationEnabled q"
  defines "n \<equiv> length (takeWhile (qd_IsExpired now (q_ttl q)) (q_items q))"
  obtains q' where "cleanupExpiredItems clk q = Some (n, q')" "q_inv q'"
    "q_items q' = dropWhile (qd_IsExpired now (q_ttl q)) (q_items q)"
    "q_closed q' = q_closed q"
    "mt_maxMemory (q_memoryTracker q') = mt_maxMemory (q_memoryTracker q)"
    "cm_consumers (q_consumers q') = cm_consumers (q_consumers q)"
    "\<And>p. \<not> q_closed q \<Longrightarrow> q_reader p q \<Longrightarrow> q_reader p q' \<and>
        q_left p q' = drop (n - (length (q_items q) - length (q_left p q))) (q_left p q)"
    "\<And>p. \<not> q_closed q \<Longrightarrow> q_reader p q \<Longrightarrow> c_group (cm_cstore (q_consumers q) p) = None \<Longrightarrow>
        c_notificationCh (cm_cstore (q_consumers q') p)
          = channel_after (n - (length (q_items q) - length (q_left p q))) False
              (c_notificationCh (cm_cstore (q_consumers q) p))"
    "n > 0 \<Longrightarrow> length (ch_buf (q_dequeueNotify q')) = 100"
proof -
  have n: "expired_run clk (q_ttl q) 0 (q_items q) = n" unfolding n_def by (rule expired_run_steady [OF now])
  have d: "dropWhile (qd_IsExpired now (q_ttl q)) (q_items q) = drop n (q_items q)" by (simp add: n_def dropWhile_eq_drop)
  have looks: "looks_agree clk (q_ttl q) 0 (q_items q)" by (rule looks_agree_steady [OF now])
  show ?thesis
  proof (rule cleanup_spec [OF inv looks en, unfolded n], goal_cases)
    case (1 q')
    show ?case by (rule that [of q', unfolded d]) (fact 1)+
  qed
qed

section \<open>Closing\<close>

lemma fold_opt_map: "fold_opt f (map g xs) s = fold_opt (\<lambda>x. f (g x)) xs s"
proof (induction xs arbitrary: s)
  case (Cons x xs)
  then show ?case by (cases "f (g x) s") simp_all
qed simp

text \<open>\<^verbatim>\<open>Close\<close> never panics, also when it is called again; the queue is empty and stays closed.\<close>

lemma q_Close_spec:
  assumes inv: "q_inv q"
  obtains q' where "q_Close q = Some q'" "q_inv q'" "q_closed q'" "q_items q' = []"
    "q_closed q \<Longrightarrow> q' = q"
    "\<not> q_closed q \<Longrightarrow> mt_totalMemory (q_memoryTracker q') = 0"
    "\<And>uid p. \<not> q_closed q \<Longrightarrow> (uid, p) \<in> set (cm_consumers (q_consumers q)) \<Longrightarrow>
        c_closed (cm_cstore (q_consumers q') p)"
    "cm_consumers (q_consumers q') = cm_consumers (q_consumers q)"
proof (cases "q_closed q")
  case True
  then show ?thesis
    using inv q_invD(10) [OF inv] by (intro that [of q]) (simp_all add: q_Close_def q_items_def cl_items_def)
next
  case False
  let ?cm = "q_consumers q"
  note W = cm_wfD [OF q_invD(5) [OF inv]]
  have "\<forall>p. \<exists>c'. c_Close (cm_cstore ?cm p) = Some c' \<and> c_wf c' \<and> c_closed c'
      \<and> c' = (cm_cstore ?cm p)\<lparr>c_closed := True, c_notificationCh := c_notificationCh c'\<rparr>"
    using c_Close_wf [OF W(11)] by metis
  then obtain h where h: "c_Close (cm_cstore ?cm p) = Some (h p)" "c_wf (h p)" "c_closed (h p)"
    "h p = (cm_cstore ?cm p)\<lparr>c_closed := True, c_notificationCh := c_notificationCh (h p)\<rparr>" for p
    by metis
  let ?close = "\<lambda>c. the (c_Close c)"
  let ?cm' = "?cm\<lparr>cm_cstore := \<lambda>p. if p \<in> snd ` set (cm_consumers ?cm)
      then ?close (cm_cstore ?cm p) else cm_cstore ?cm p\<rparr>"
  have loop: "fold_opt (on_consumer c_Close) (cm_GetAllConsumers ?cm) ?cm = Some ?cm'"
    using fold_on_consumer [where f = c_Close and h = ?close, OF W(2)] h(1)
    by (simp add: cm_GetAllConsumers_def W(10) fold_opt_map case_prod_beta')
  have st: "cm_cstore ?cm' p = (if p \<in> snd ` set (cm_consumers ?cm) then h p else cm_cstore ?cm p)" for p
    using h(1) by simp
  have same: "c_id (cm_cstore ?cm' p) = c_id (cm_cstore ?cm p)" "c_group (cm_cstore ?cm' p) = c_group (cm_cstore ?cm p)"
    "c_dequeueHistory (cm_cstore ?cm' p) = c_dequeueHistory (cm_cstore ?cm p)"
    "c_maxHistory (cm_cstore ?cm' p) = c_maxHistory (cm_cstore ?cm p)" "c_wf (cm_cstore ?cm' p)" for p
  proof -
    have "c_id (h p) = c_id (cm_cstore ?cm p)" "c_group (h p) = c_group (cm_cstore ?cm p)"
      "c_dequeueHistory (h p) = c_dequeueHistory (cm_cstore ?cm p)"
      "c_maxHistory (h p) = c_maxHistory (cm_cstore ?cm p)"
      by (subst h(4), simp)+
    then show "c_id (cm_cstore ?cm' p) = c_id (cm_cstore ?cm p)" "c_group (cm_cstore ?cm' p) = c_group (cm_cstore ?cm p)"
      "c_dequeueHistory (cm_cstore ?cm' p) = c_dequeueHistory (cm_cstore ?cm p)"
      "c_maxHistory (cm_cstore ?cm' p) = c_maxHistory (cm_cstore ?cm p)" "c_wf (cm_cstore ?cm' p)"
      unfolding st using h(2) [of p] W(11) [of p] by auto
  qed
  have wf': "cm_wf ?cm'"
    unfolding cm_wf_def
  proof (intro conjI allI impI)
    show "\<forall>(uid, p) \<in> set (cm_consumers ?cm'). p < cm_cnext ?cm' \<and> c_id (cm_cstore ?cm' p) = uid
           \<and> (\<forall>g. c_group (cm_cstore ?cm' p) = Some g \<longrightarrow> g < cm_gnext ?cm')"
      using W(5-7) unfolding same by auto
    show "c_wf (cm_cstore ?cm' p)" for p by (rule same(5))
    show "length (c_dequeueHistory (cm_cstore ?cm' p)) \<le> c_maxHistory (cm_cstore ?cm' p)" for p
      unfolding same by (rule W(13))
  qed (use W(1-4,8-10,12,14) in auto)
  note CL = cl_Clear_spec [OF q_invD(1) [OF inv]]
  have ch: "chan_close (q_stopChan q) = Some ((q_stopChan q)\<lparr>ch_closed := True\<rparr>)"
    using q_invD(8) [OF inv] False by (simp add: chan_close_def)
  let ?q' = "q\<lparr>q_closed := True, q_stopChan := (q_stopChan q)\<lparr>ch_closed := True\<rparr>,
      q_consumers := ?cm', q_data := cl_Clear (q_data q)\<rparr>"
  have ok': "data_ok (cl_Clear (q_data q))"
    using CL q_invD(3,4) [OF inv] by (simp add: data_ok_def mt_ok_def)
  have closed: "c_closed (cm_cstore ?cm' p)" if "(uid, p) \<in> set (cm_consumers ?cm)" for uid p
    unfolding st using that h(3) by force
  have inv': "q_inv ?q'"
  proof -
    have q': "q_consumers ?q' = ?cm'" by simp
    have k: "cm_consumers ?cm' = cm_consumers ?cm" by simp
    have "\<forall>(uid, p) \<in> set (cm_consumers (q_consumers ?q')).
        let c = cm_cstore (q_consumers ?q') p in c_closed c \<or> c_group c \<noteq> None \<or> c_chunkElement c = None"
      unfolding q' k
    proof (intro ballI)
      fix x assume "x \<in> set (cm_consumers ?cm)"
      then have "c_closed (cm_cstore ?cm' (snd x))"
        using closed [of "fst x" "snd x"] by (simp only: prod.collapse)
      then show "case x of (uid, p) \<Rightarrow> let c = cm_cstore ?cm' p
          in c_closed c \<or> c_group c \<noteq> None \<or> c_chunkElement c = None"
        by (cases x) (simp only: Let_def split_conv snd_conv simp_thms)
    qed
    then show ?thesis
      unfolding q_inv_def using ok' wf' q_invD(6,7) [OF inv] CL(3) by simp
  qed
  show ?thesis
  proof (rule that [of ?q'])
    show "q_Close q = Some ?q'" using False ch loop by (simp add: q_Close_def)
    show "\<And>uid p. \<not> q_closed q \<Longrightarrow> (uid, p) \<in> set (cm_consumers (q_consumers q)) \<Longrightarrow>
        c_closed (cm_cstore (q_consumers ?q') p)"
      using closed by simp
  qed (use inv' CL q_invD(3) [OF inv] False in \<open>simp_all add: q_items_def\<close>)
qed

end
