(* ===== verification/MQ_Members.thy ===== *)
theory MQ_Members
  imports MQ_QueueOps
begin

text \<open>
  Joining and leaving through the queue: adding consumers and groups, removing them, and the
  eviction of idle ones. Each keeps the invariant, the items, and what every other reader has left.
\<close>

section \<open>Operations of the membership\<close>

text \<open>A reader that can read: the queue is open too.\<close>

definition q_live :: "cptr \<Rightarrow> queue \<Rightarrow> bool" where
  "q_live p q \<longleftrightarrow> \<not> q_closed q \<and> q_reader p q"

text \<open>\<^verbatim>\<open>ConsumerGroup.AddConsumer\<close>, on the queue of the group.\<close>

definition q_AddGroupConsumer :: "string \<Rightarrow> time \<Rightarrow> gptr \<Rightarrow> queue \<Rightarrow> cptr option \<times> queue" where
  "q_AddGroupConsumer uuid now g q =
     (let (p, cm) = cg_AddConsumer uuid (q_maxConsumerHistory q) now g (q_consumers q)
      in (p, q\<lparr>q_consumers := cm\<rparr>))"

text \<open>
  What such an operation leaves alone: the items, and what a reader that can still read has left.
\<close>

definition undisturbed :: "queue \<Rightarrow> queue \<Rightarrow> bool" where
  "undisturbed q q' \<longleftrightarrow> q_inv q' \<and> q_items q' = q_items q \<and> q_closed q' = q_closed q
     \<and> (\<forall>p. q_live p q \<and> q_live p q' \<longrightarrow> q_left p q' = q_left p q
           \<and> c_group (cm_cstore (q_consumers q') p) = c_group (cm_cstore (q_consumers q) p))"

definition unread_none :: "consumer_manager \<Rightarrow> bool" where
  "unread_none cm \<longleftrightarrow> (\<forall>(uid, p) \<in> set (cm_consumers cm).
      let c = cm_cstore cm p in c_closed c \<or> c_group c \<noteq> None \<or> c_chunkElement c = None)"

lemma q_inv_members:
  assumes "q_inv q" "cm_wf cm'" "\<not> q_closed q \<Longrightarrow> cm_positions (q_data q) cm'"
    "q_closed q \<Longrightarrow> unread_none (q_consumers q) \<Longrightarrow> unread_none cm'"
  shows "q_inv (q\<lparr>q_consumers := cm'\<rparr>)"
  using assms unfolding q_inv_def unread_none_def by (simp del: Let_def)

text \<open>
  The lemmas on the manager ask for positions of a list; after \<^verbatim>\<open>Close\<close> the list is empty, but the
  positions are positions of some list.
\<close>

lemma finite_bound: "\<exists>m :: nat. \<forall>x \<in> set xs. f x \<le> m"
  by (intro exI [of _ "Max (f ` set xs \<union> {0})"] ballI Max_ge) auto

lemma cm_positions_some: "\<exists>cl. cm_positions cl cm"
proof -
  define P where "P = map (\<lambda>x. c_position (cm_cstore cm (snd x))) (cm_consumers cm)
    @ map (\<lambda>x. cg_getPosition (cm_gstore cm (snd x))) (cm_groups cm)"
  obtain m where m: "\<forall>x \<in> set P. snd x \<le> m" using finite_bound [of P snd] by blast
  let ?cl = "\<lparr>cl_list = concat (map (\<lambda>x. case fst x of None \<Rightarrow> [] | Some e \<Rightarrow> [e]) P),
    cl_chunk = (\<lambda>_. NewChunkNode\<lparr>cn_size := m\<rparr>), cl_next = 0, cl_memoryTracker = undefined, cl_totalItems = 0\<rparr>"
  have ok: "pos_ok ?cl pos" if "pos \<in> set P" for pos
  proof (cases "fst pos")
    case (Some e)
    then have "e \<in> set (cl_list ?cl)" using that by (auto intro!: bexI [of _ pos] split: option.split)
    then show ?thesis using Some m that by (simp add: pos_ok_def)
  qed (simp add: pos_ok_def)
  have "(uid, p) \<in> set (cm_consumers cm) \<Longrightarrow> c_position (cm_cstore cm p) \<in> set P"
    "(name, g) \<in> set (cm_groups cm) \<Longrightarrow> cg_getPosition (cm_gstore cm g) \<in> set P" for uid p name g
    by (force simp: P_def)+
  then have "cm_positions ?cl cm"
    unfolding cm_positions_def by (auto intro!: ok)
  then show ?thesis by blast
qed

lemma q_positions:
  assumes "q_inv q"
  obtains cl where "cm_positions cl (q_consumers q)" "\<not> q_closed q \<Longrightarrow> cl = q_data q"
  using q_invD(9) [OF assms] cm_positions_some by (cases "q_closed q") blast+

lemma q_left_members:
  "q_left p (q\<lparr>q_consumers := cm'\<rparr>) = left_to_read (q_data q) (cm_cstore cm' p, cm_gstore cm')"
  by (simp add: q_left_def q_reading_def)

text \<open>A reader keeps what it has left when its object and that of its group stay.\<close>

lemma left_members:
  assumes "cm_cstore cm' p = cm_cstore cm p"
    and "\<And>g. c_group (cm_cstore cm p) = Some g \<Longrightarrow> cm_gstore cm' g = cm_gstore cm g"
  shows "left_to_read cl (cm_cstore cm' p, cm_gstore cm') = left_to_read cl (cm_cstore cm p, cm_gstore cm)"
  using assms by (simp add: left_to_read_def c_GetPosition_def split: option.split)

lemma undisturbedI:
  assumes inv': "q_inv (q\<lparr>q_consumers := cm'\<rparr>)"
    and same: "\<And>p. q_live p q \<Longrightarrow> q_live p (q\<lparr>q_consumers := cm'\<rparr>) \<Longrightarrow> cm_cstore cm' p = cm_cstore (q_consumers q) p"
    and group: "\<And>p g. q_live p q \<Longrightarrow> q_live p (q\<lparr>q_consumers := cm'\<rparr>) \<Longrightarrow>
      c_group (cm_cstore (q_consumers q) p) = Some g \<Longrightarrow> cm_gstore cm' g = cm_gstore (q_consumers q) g"
  shows "undisturbed q (q\<lparr>q_consumers := cm'\<rparr>)"
proof -
  have "q_left p (q\<lparr>q_consumers := cm'\<rparr>) = q_left p q" if "q_live p q" "q_live p (q\<lparr>q_consumers := cm'\<rparr>)" for p
    using left_members [OF same [OF that] group [OF that]] by (simp add: q_left_def q_reading_def)
  then show ?thesis
    using inv' same unfolding undisturbed_def by (simp add: q_items_def)
qed

text \<open>The group of a reader is registered.\<close>

lemma live_group:
  assumes inv: "q_inv q" and r: "q_live p q" and g: "c_group (cm_cstore (q_consumers q) p) = Some g"
  shows "g < cm_gnext (q_consumers q)" "\<exists>name. (name, g) \<in> set (cm_groups (q_consumers q))"
proof -
  note W = cm_wfD [OF q_invD(5) [OF inv]]
  show lt: "g < cm_gnext (q_consumers q)" using W(7) r g by (fastforce simp: q_live_def q_reader_def)
  have "\<not> cg_closed (cm_gstore (q_consumers q) g)" using r g by (simp add: q_live_def q_reader_def)
  then show "\<exists>name. (name, g) \<in> set (cm_groups (q_consumers q))" using W(14) [OF lt] by force
qed

lemma live_new:
  assumes "cm_consumers cm' = cm_consumers cm @ [(uid, p)]" "p \<notin> snd ` set (cm_consumers cm)"
    "q_live p' (q\<lparr>q_consumers := cm\<rparr>)"
  shows "p' \<noteq> p"
  using assms by (auto simp: q_live_def q_reader_def)

section \<open>Joining\<close>

lemma q_AddConsumer_spec:
  assumes inv: "q_inv q" and fresh: "uuid \<notin> fst ` set (cm_consumers (q_consumers q))"
    and eq: "q_AddConsumer uuid now q = (p, q')"
  shows "undisturbed q q'" "p \<notin> snd ` set (cm_consumers (q_consumers q))"
    "\<And>p'. q_live p' q \<Longrightarrow> q_live p' q'"
    "\<not> q_closed q \<Longrightarrow> q_live p q' \<and> q_left p q' = q_items q"
    "cm_consumers (q_consumers q') = cm_consumers (q_consumers q) @ [(uuid, p)]"
proof -
  let ?cm = "q_consumers q"
  let ?n = "NewConsumer uuid (Some (q_maxConsumerHistory q)) now"
  let ?c = "case cl_GetFirstElement (q_data q) of Some e \<Rightarrow> c_SetPosition (Some e) 0 ?n | None \<Rightarrow> ?n"
  obtain cm' where cm': "cm_AddConsumer uuid (q_maxConsumerHistory q) now (q_data q) ?cm = (p, cm')"
    and q': "q' = q\<lparr>q_consumers := cm'\<rparr>"
    using eq by (auto simp: q_AddConsumer_def split: prod.splits)
  have reg: "cm_register ?c ?cm = (p, cm')" using cm' by (simp add: cm_AddConsumer_def Let_def)
  have c: "c_wf ?c" "c_id ?c = uuid" "c_group ?c = None" "\<not> c_closed ?c" "c_dequeueHistory ?c = []"
    by (auto simp: NewConsumer_def c_SetPosition_def c_wf_def split: option.split)
  obtain cl where cl: "cm_positions cl ?cm" "\<not> q_closed q \<Longrightarrow> cl = q_data q" by (rule q_positions [OF inv]) blast
  have first: "cl_GetFirstElement (q_data q) = (case cl_list (q_data q) of [] \<Rightarrow> None | e # es \<Rightarrow> Some e)"
    by (simp add: cl_GetFirstElement_def split: list.split)
  have own: "pos_ok cl (c_position ?c)"
  proof (cases "cl_list (q_data q)")
    case Nil
    then show ?thesis using first by (simp add: NewConsumer_def c_position_def)
  next
    case (Cons e es)
    then have "\<not> q_closed q" using q_invD(10) [OF inv] by auto
    then show ?thesis
      using Cons first cl(2) by (simp add: NewConsumer_def c_position_def c_SetPosition_def pos_ok_def)
  qed
  note R = cm_register_spec [OF q_invD(5) [OF inv] cl(1) c(1) _ _ _ _ reg, unfolded c(2,5), simplified, OF fresh]
  have R': "cm_wf cm'" "cm_positions cl cm'" "cm_cstore cm' = (cm_cstore ?cm)(p := ?c)"
    "cm_gstore cm' = cm_gstore ?cm" "cm_consumers cm' = cm_consumers ?cm @ [(uuid, p)]"
    "p \<notin> snd ` set (cm_consumers ?cm)"
    using R own c(3) by auto
  show "p \<notin> snd ` set (cm_consumers ?cm)" by (rule R'(6))
  have inv': "q_inv (q\<lparr>q_consumers := cm'\<rparr>)"
  proof (rule q_inv_members [OF inv R'(1)])
    assume cls: "q_closed q" and none: "unread_none ?cm"
    then have "cl_GetFirstElement (q_data q) = None" using q_invD(10) [OF inv] first by simp
    then have "c_chunkElement ?c = None" by (simp add: NewConsumer_def)
    then show "unread_none cm'" using none R'(3,5,6) by (force simp: unread_none_def)
  qed (use R'(2) cl(2) in auto)
  show "undisturbed q q'"
    unfolding q'
  proof (rule undisturbedI [OF inv'])
    show "cm_cstore cm' p' = cm_cstore ?cm p'" if "q_live p' q" for p'
      using that R'(3,6) by (auto simp: q_live_def q_reader_def)
  qed (use R'(4) in simp)
  show "q_live p' q'" if "q_live p' q" for p'
    using that R'(3-6) unfolding q' q_live_def q_reader_def by auto
  show "q_live p q' \<and> q_left p q' = q_items q" if "\<not> q_closed q"
  proof
    show "q_live p q'" using that c R'(3-5) unfolding q' q_live_def q_reader_def by auto
    note A = cm_AddConsumer_spec(6) [OF q_invD(1,5) [OF inv] q_invD(9) [OF inv that] fresh cm']
    then show "q_left p q' = q_items q" unfolding q' q_left_members by (simp add: q_items_def)
  qed
  show "cm_consumers (q_consumers q') = cm_consumers ?cm @ [(uuid, p)]" using R'(5) q' by simp
qed

lemma q_AddConsumerGroup_spec:
  assumes inv: "q_inv q" and eq: "q_AddConsumerGroup name q = (g, q')"
  shows "undisturbed q q'" "(name, g) \<in> set (cm_groups (q_consumers q'))"
    "\<And>p. q_live p q \<Longrightarrow> q_live p q'"
    "cm_consumers (q_consumers q') = cm_consumers (q_consumers q)"
proof -
  let ?cm = "q_consumers q"
  obtain cm' where cm': "cm_AddGroup name ?cm = (g, cm')" and q': "q' = q\<lparr>q_consumers := cm'\<rparr>"
    using eq by (auto simp: q_AddConsumerGroup_def split: prod.splits)
  obtain cl where cl: "cm_positions cl ?cm" "\<not> q_closed q \<Longrightarrow> cl = q_data q" by (rule q_positions [OF inv]) blast
  note R = cm_AddGroup_spec [OF q_invD(5) [OF inv] cl(1) cm']
  have inv': "q_inv (q\<lparr>q_consumers := cm'\<rparr>)"
    by (rule q_inv_members [OF inv R(1)]) (use R cl(2) in \<open>auto simp: unread_none_def\<close>)
  have gr: "cm_gstore cm' g' = cm_gstore ?cm g'"
    if "q_live p q" "c_group (cm_cstore ?cm p) = Some g'" for p g'
    by (rule R(8) [OF live_group(1) [OF inv that]])
  show "undisturbed q q'"
    unfolding q' by (rule undisturbedI [OF inv']) (use R gr in auto)
  show "(name, g) \<in> set (cm_groups (q_consumers q'))" using R(3) q' by simp
  show "q_live p q'" if "q_live p q" for p
    using that gr [OF that] R unfolding q' q_live_def q_reader_def by auto
  show "cm_consumers (q_consumers q') = cm_consumers ?cm" using R(4) q' by simp
qed

lemma q_AddGroupConsumer_spec:
  assumes inv: "q_inv q" and fresh: "uuid \<notin> fst ` set (cm_consumers (q_consumers q))"
    and g: "g < cm_gnext (q_consumers q)" and eq: "q_AddGroupConsumer uuid now g q = (r, q')"
  shows "undisturbed q q'" "\<And>p. q_live p q \<Longrightarrow> q_live p q'"
    "r = None \<longleftrightarrow> cg_closed (cm_gstore (q_consumers q) g)"
    "\<And>p. r = Some p \<Longrightarrow> \<not> q_closed q \<Longrightarrow> q_live p q'
       \<and> c_group (cm_cstore (q_consumers q') p) = Some g
       \<and> q_left p q' = unread (q_data q) (cg_getPosition (cm_gstore (q_consumers q) g))"
proof -
  let ?cm = "q_consumers q"
  let ?c = "(NewConsumer uuid (Some (q_maxConsumerHistory q)) now)\<lparr>c_group := Some g\<rparr>"
  have "undisturbed q q' \<and> (\<forall>p. q_live p q \<longrightarrow> q_live p q')
    \<and> (r = None \<longleftrightarrow> cg_closed (cm_gstore ?cm g))
    \<and> (\<forall>p. r = Some p \<longrightarrow> \<not> q_closed q \<longrightarrow> q_live p q'
       \<and> c_group (cm_cstore (q_consumers q') p) = Some g
       \<and> q_left p q' = unread (q_data q) (cg_getPosition (cm_gstore ?cm g)))"
  proof (cases "cg_closed (cm_gstore ?cm g)")
    case True
    then show ?thesis using eq inv by (auto simp: q_AddGroupConsumer_def cg_AddConsumer_def undisturbed_def)
  next
    case False
    obtain p cm' where cm': "cm_AddConsumerToGroup uuid (q_maxConsumerHistory q) now g ?cm = (p, cm')"
      and q': "q' = q\<lparr>q_consumers := cm'\<rparr>" and r: "r = Some p"
      using eq False by (auto simp: q_AddGroupConsumer_def cg_AddConsumer_def split: prod.splits)
    have reg: "cm_register ?c ?cm = (p, cm')" using cm' by (simp add: cm_AddConsumerToGroup_def)
    have c: "c_wf ?c" "c_id ?c = uuid" "c_group ?c = Some g" "\<not> c_closed ?c" "c_dequeueHistory ?c = []"
      by (auto simp: NewConsumer_def c_wf_def)
    obtain cl where cl: "cm_positions cl ?cm" "\<not> q_closed q \<Longrightarrow> cl = q_data q" by (rule q_positions [OF inv]) blast
    note R = cm_register_spec [OF q_invD(5) [OF inv] cl(1) c(1) _ _ _ _ reg, unfolded c(2,3,5), simplified, OF fresh g]
    have inv': "q_inv (q\<lparr>q_consumers := cm'\<rparr>)"
    proof (rule q_inv_members [OF inv R(1)])
      show "unread_none cm'" if "unread_none ?cm" using that R c by (force simp: unread_none_def)
    qed (use R(2) cl(2) in auto)
    have "undisturbed q q'"
      unfolding q'
    proof (rule undisturbedI [OF inv'])
      show "cm_cstore cm' p' = cm_cstore ?cm p'" if "q_live p' q" for p'
        using that R by (auto simp: q_live_def q_reader_def)
    qed (use R in simp)
    moreover have "q_live p' q'" if "q_live p' q" for p'
      using that R unfolding q' q_live_def q_reader_def by auto
    moreover have "q_live p q' \<and> c_group (cm_cstore (q_consumers q') p) = Some g
       \<and> q_left p q' = unread (q_data q) (cg_getPosition (cm_gstore ?cm g))" if "\<not> q_closed q"
    proof (intro conjI)
      show "q_live p q'" using that c R False unfolding q' q_live_def q_reader_def by auto
      show "c_group (cm_cstore (q_consumers q') p) = Some g" using R c q' by simp
      show "q_left p q' = unread (q_data q) (cg_getPosition (cm_gstore ?cm g))"
        unfolding q' q_left_members using R c by (simp add: left_to_read_def c_GetPosition_def)
    qed
    ultimately show ?thesis using r False by simp
  qed
  then show "undisturbed q q'" "\<And>p. q_live p q \<Longrightarrow> q_live p q'"
    "r = None \<longleftrightarrow> cg_closed (cm_gstore ?cm g)"
    "\<And>p. r = Some p \<Longrightarrow> \<not> q_closed q \<Longrightarrow> q_live p q'
       \<and> c_group (cm_cstore (q_consumers q') p) = Some g
       \<and> q_left p q' = unread (q_data q) (cg_getPosition (cm_gstore ?cm g))"
    by blast+
qed

section \<open>Leaving\<close>

lemma q_RemoveConsumer_spec:
  assumes inv: "q_inv q"
  obtains q' where "q_RemoveConsumer uid q = Some (uid \<in> fst ` set (cm_consumers (q_consumers q)), q')"
    "undisturbed q q'"
    "\<And>p. q_live p q \<Longrightarrow> q_live p q' \<longleftrightarrow> (uid, p) \<notin> set (cm_consumers (q_consumers q))"
    "cm_consumers (q_consumers q') = filter (\<lambda>x. fst x \<noteq> uid) (cm_consumers (q_consumers q))"
    "\<And>p. (uid, p) \<in> set (cm_consumers (q_consumers q)) \<Longrightarrow> c_closed (cm_cstore (q_consumers q') p)"
proof -
  let ?cm = "q_consumers q"
  obtain cl where cl: "cm_positions cl ?cm" "\<not> q_closed q \<Longrightarrow> cl = q_data q"
    by (rule q_positions [OF inv]) blast
  obtain cm' where R: "cm_RemoveConsumer uid ?cm = Some (uid \<in> fst ` set (cm_consumers ?cm), cm')"
    "cm_wf cm'" "cm_positions cl cm'" "cm_consumers cm' = filter (\<lambda>x. fst x \<noteq> uid) (cm_consumers ?cm)"
    "cm_groups cm' = cm_groups ?cm" "\<And>p. (uid, p) \<in> set (cm_consumers ?cm) \<Longrightarrow> c_closed (cm_cstore cm' p)"
    "\<And>p. (uid, p) \<notin> set (cm_consumers ?cm) \<Longrightarrow> cm_cstore cm' p = cm_cstore ?cm p"
    "cm_gstore cm' = cm_gstore ?cm"
    by (rule cm_RemoveConsumer_spec [OF q_invD(5) [OF inv] cl(1), of uid]) blast
  note W = cm_wfD [OF q_invD(5) [OF inv]]
  let ?q' = "q\<lparr>q_consumers := cm'\<rparr>"
  have inv': "q_inv ?q'"
  proof (rule q_inv_members [OF inv R(2)])
    show "unread_none cm'" if "unread_none ?cm"
    proof -
      have "cm_cstore cm' p = cm_cstore ?cm p" if "(uid', p) \<in> set (cm_consumers cm')" for uid' p
        by (rule R(7)) (use that R(4) W(2) in \<open>fastforce simp: distinct_map inj_on_def\<close>)
      then show ?thesis using that R(4) by (fastforce simp: unread_none_def)
    qed
  qed (use R(3) cl(2) in auto)
  have live: "q_live p ?q' \<longleftrightarrow> (uid, p) \<notin> set (cm_consumers ?cm)" if l: "q_live p q" for p
  proof
    assume "(uid, p) \<notin> set (cm_consumers ?cm)"
    then have "cm_cstore cm' p = cm_cstore ?cm p" "p \<in> snd ` set (cm_consumers cm')"
      using R(7) l R(4) by (force simp: q_live_def q_reader_def)+
    then show "q_live p ?q'" using l R(8) by (simp add: q_live_def q_reader_def)
  qed (use R(6) in \<open>auto simp: q_live_def q_reader_def\<close>)
  show ?thesis
  proof (rule that [of ?q'])
    show "q_RemoveConsumer uid q = Some (uid \<in> fst ` set (cm_consumers ?cm), ?q')"
      using R(1) by (simp add: q_RemoveConsumer_def)
    show "undisturbed q ?q'"
      by (rule undisturbedI [OF inv']) (use live R(7,8) in auto)
  qed (use live R in auto)
qed

lemma cm_RemoveGroup_frame:
  assumes "cm_RemoveGroup name cm = Some (b, cm')" "map_of (cm_groups cm) name = Some g" "g' \<noteq> g"
  shows "cm_gstore cm' g' = cm_gstore cm g'"
proof -
  have frame: "fold_opt (\<lambda>(id, p) cm. if c_group (cm_cstore cm p) = Some g then cm_drop_consumer (id, p) cm else Some cm) xs cm
      = Some cm1 \<Longrightarrow> cm_gstore cm1 = cm_gstore cm" for xs cm cm1
    by (induction xs arbitrary: cm)
      (force simp: cm_drop_consumer_def on_consumer_def split: Option.bind_splits if_splits)+
  show ?thesis
    using assms frame
    by (force simp: cm_RemoveGroup_def cm_drop_group_def on_group_def split: Option.bind_splits)
qed

lemma q_RemoveConsumerGroup_spec:
  assumes inv: "q_inv q"
  obtains q' where "q_RemoveConsumerGroup name q = Some (name \<in> fst ` set (cm_groups (q_consumers q)), q')"
    "undisturbed q q'"
    "\<And>p. q_live p q \<Longrightarrow> q_live p q' \<longleftrightarrow>
       (\<forall>g. (name, g) \<in> set (cm_groups (q_consumers q)) \<longrightarrow> c_group (cm_cstore (q_consumers q) p) \<noteq> Some g)"
proof (cases "map_of (cm_groups (q_consumers q)) name")
  case None
  then have "name \<notin> fst ` set (cm_groups (q_consumers q))" by (simp add: map_of_eq_None_iff)
  moreover from this have "(name, g) \<notin> set (cm_groups (q_consumers q))" for g by force
  ultimately show ?thesis
    using inv None by (intro that [of q])
      (simp_all add: q_RemoveConsumerGroup_def cm_RemoveGroup_def undisturbed_def)
next
  case (Some g)
  let ?cm = "q_consumers q"
  have m: "(name, g) \<in> set (cm_groups ?cm)" using Some by (rule map_of_SomeD)
  note W = cm_wfD [OF q_invD(5) [OF inv]]
  have uniq: "g' = g" if "(name, g') \<in> set (cm_groups ?cm)" for g'
    using that m W(3) by (auto dest: eq_key_imp_eq_value)
  obtain cl where cl: "cm_positions cl ?cm" "\<not> q_closed q \<Longrightarrow> cl = q_data q"
    by (rule q_positions [OF inv]) blast
  obtain cm' where R: "cm_RemoveGroup name ?cm = Some (True, cm')" "cm_wf cm'" "cm_positions cl cm'"
    "cm_consumers cm' = filter (\<lambda>x. c_group (cm_cstore ?cm (snd x)) \<noteq> Some g) (cm_consumers ?cm)"
    "cg_closed (cm_gstore cm' g)"
    "\<And>p. c_group (cm_cstore ?cm p) \<noteq> Some g \<Longrightarrow> cm_cstore cm' p = cm_cstore ?cm p"
    by (rule cm_RemoveGroup_spec [OF q_invD(5) [OF inv] cl(1) m]) blast
  note F = cm_RemoveGroup_frame [OF R(1) Some]
  let ?q' = "q\<lparr>q_consumers := cm'\<rparr>"
  have inv': "q_inv ?q'"
  proof (rule q_inv_members [OF inv R(2)])
    show "unread_none cm'" if "unread_none ?cm"
      using that R(4,6) by (fastforce simp: unread_none_def)
  qed (use R(3) cl(2) in auto)
  have live: "q_live p ?q' \<longleftrightarrow> c_group (cm_cstore ?cm p) \<noteq> Some g" if l: "q_live p q" for p
  proof
    show "c_group (cm_cstore ?cm p) \<noteq> Some g" if "q_live p ?q'"
    proof
      assume gp: "c_group (cm_cstore ?cm p) = Some g"
      have "p \<in> snd ` set (cm_consumers cm')" using that by (simp add: q_live_def q_reader_def)
      then show False using gp R(4) by auto
    qed
    assume n: "c_group (cm_cstore ?cm p) \<noteq> Some g"
    have "p \<in> snd ` set (cm_consumers cm')" using l n R(4) by (force simp: q_live_def q_reader_def)
    moreover have "cm_gstore cm' g' = cm_gstore ?cm g'" if "c_group (cm_cstore ?cm p) = Some g'" for g'
      using F that n by auto
    ultimately show "q_live p ?q'" using l R(6) [OF n] by (simp add: q_live_def q_reader_def)
  qed
  show ?thesis
  proof (rule that [of ?q'])
    show "q_RemoveConsumerGroup name q = Some (name \<in> fst ` set (cm_groups ?cm), ?q')"
      using R(1) m by (force simp: q_RemoveConsumerGroup_def)
    show "undisturbed q ?q'"
    proof (rule undisturbedI [OF inv'])
      show "cm_gstore cm' g' = cm_gstore ?cm g'"
        if "q_live p q" "q_live p ?q'" "c_group (cm_cstore ?cm p) = Some g'" for p g'
        using F live [OF that(1)] that by auto
    qed (use live R(6) in auto)
    show "q_live p ?q' \<longleftrightarrow>
       (\<forall>g. (name, g) \<in> set (cm_groups ?cm) \<longrightarrow> c_group (cm_cstore ?cm p) \<noteq> Some g)" if "q_live p q" for p
      unfolding live [OF that] using m uniq by blast
  qed
qed

lemma q_CleanInactive_spec:
  fixes now :: time and timeout :: duration and q :: queue
  assumes inv: "q_inv q"
  defines "idle \<equiv> \<lambda>p. time_Since now (c_lastReadTime (cm_cstore (q_consumers q) p)) > timeout"
  obtains q' where "q_CleanInactiveConsumers timeout now q
      = Some (length (filter (\<lambda>x. idle (snd x)) (cm_consumers (q_consumers q))), q')"
    "undisturbed q q'" "\<And>p. q_live p q \<Longrightarrow> q_live p q' \<longleftrightarrow> \<not> idle p"
    "cm_consumers (q_consumers q') = filter (\<lambda>x. \<not> idle (snd x)) (cm_consumers (q_consumers q))"
    "cm_groups (q_consumers q') = filter (\<lambda>x. \<exists>(uid, p) \<in> set (cm_consumers (q_consumers q')).
       c_group (cm_cstore (q_consumers q) p) = Some (snd x)) (cm_groups (q_consumers q))"
    "\<And>name g. (name, g) \<in> set (cm_groups (q_consumers q)) \<Longrightarrow>
       (name, g) \<notin> set (cm_groups (q_consumers q')) \<Longrightarrow> cg_closed (cm_gstore (q_consumers q') g)"
proof -
  let ?cm = "q_consumers q"
  obtain cl where cl: "cm_positions cl ?cm" "\<not> q_closed q \<Longrightarrow> cl = q_data q"
    by (rule q_positions [OF inv]) blast
  obtain cm' where R: "cm_CleanInactive timeout now ?cm
      = Some (length (filter (\<lambda>x. idle (snd x)) (cm_consumers ?cm)), cm')"
    "cm_wf cm'" "cm_positions cl cm'" "cm_consumers cm' = filter (\<lambda>x. \<not> idle (snd x)) (cm_consumers ?cm)"
    "cm_groups cm' = filter (\<lambda>x. \<exists>(uid, p) \<in> set (cm_consumers cm').
           c_group (cm_cstore ?cm p) = Some (snd x)) (cm_groups ?cm)"
    "\<And>uid p. (uid, p) \<in> set (cm_consumers ?cm) \<Longrightarrow> idle p \<Longrightarrow> c_closed (cm_cstore cm' p)"
    "\<And>name g. (name, g) \<in> set (cm_groups ?cm) \<Longrightarrow> (name, g) \<notin> set (cm_groups cm') \<Longrightarrow> cg_closed (cm_gstore cm' g)"
    "\<And>uid p. (uid, p) \<in> set (cm_consumers cm') \<Longrightarrow> cm_cstore cm' p = cm_cstore ?cm p"
    "\<And>name g. (name, g) \<in> set (cm_groups cm') \<Longrightarrow> cm_gstore cm' g = cm_gstore ?cm g"
    unfolding idle_def
    by (rule cm_CleanInactive_spec [OF q_invD(5) [OF inv] cl(1), of timeout now]) blast
  let ?q' = "q\<lparr>q_consumers := cm'\<rparr>"
  have inv': "q_inv ?q'"
  proof (rule q_inv_members [OF inv R(2)])
    show "unread_none cm'" if "unread_none ?cm"
      using that R(4,8) by (fastforce simp: unread_none_def)
  qed (use R(3) cl(2) in auto)
  have group: "cm_gstore cm' g = cm_gstore ?cm g"
    if l: "q_live p q" and n: "\<not> idle p" and g: "c_group (cm_cstore ?cm p) = Some g" for p g
  proof -
    obtain name where "(name, g) \<in> set (cm_groups ?cm)" using live_group [OF inv l g] by blast
    then have "(name, g) \<in> set (cm_groups cm')"
      using l n g R(4,5) by (fastforce simp: q_live_def q_reader_def)
    then show ?thesis by (rule R(9))
  qed
  have live: "q_live p ?q' \<longleftrightarrow> \<not> idle p" if l: "q_live p q" for p
  proof
    assume n: "\<not> idle p"
    then obtain uid where "(uid, p) \<in> set (cm_consumers cm')"
      using l R(4) by (force simp: q_live_def q_reader_def)
    then show "q_live p ?q'" using l R(8) group [OF l n] by (force simp: q_live_def q_reader_def)
  qed (use R(4) in \<open>auto simp: q_live_def q_reader_def\<close>)
  show ?thesis
  proof (rule that [of ?q'])
    show "q_CleanInactiveConsumers timeout now q
        = Some (length (filter (\<lambda>x. idle (snd x)) (cm_consumers ?cm)), ?q')"
      using R(1) by (simp add: q_CleanInactiveConsumers_def)
    show "undisturbed q ?q'"
    proof (rule undisturbedI [OF inv'])
      show "cm_cstore cm' p = cm_cstore ?cm p" if "q_live p q" "q_live p ?q'" for p
        using that R(8) by (force simp: q_live_def q_reader_def)
    qed (use live group in blast)
  qed (use live R in auto)
qed

end
