(* ===== verification/MQ_Waiting.thy ===== *)
theory MQ_Waiting
  imports MQ_Members
begin

text \<open>
  The operations that block: \<^verbatim>\<open>Enqueue\<close>, \<^verbatim>\<open>EnqueueBatch\<close>, \<^verbatim>\<open>Read\<close> and \<^verbatim>\<open>ReadWhere\<close>, each also with a
  context. All are loops of attempts with a \<^verbatim>\<open>select\<close> in between, in a world that may do anything to
  the queue that keeps it in order. The interface \<open>rounds\<close> states what one attempt promises, the
  interfaces \<open>waiting\<close> and \<open>ctx_waiting\<close> the shape of the loop; what the loops do is proved once.
\<close>

section \<open>The interface of an attempt\<close>

definition world_keeps :: "(queue \<Rightarrow> bool) \<Rightarrow> (queue \<Rightarrow> queue) list \<Rightarrow> bool" where
  "world_keeps ok fs \<longleftrightarrow> (\<forall>f \<in> set fs. \<forall>q. ok q \<longrightarrow> ok (f q))"

lemma world_keeps_simps [simp]:
  "world_keeps ok []" "world_keeps ok (f # fs) \<longleftrightarrow> (\<forall>q. ok q \<longrightarrow> ok (f q)) \<and> world_keeps ok fs"
  by (auto simp: world_keeps_def)

text \<open>
  The result of a blocking operation: either a case of the \<^verbatim>\<open>select\<close> ended it, or an attempt did, or
  it is still blocked and the last attempt had to wait.
\<close>

definition waited :: "(queue \<Rightarrow> bool) \<Rightarrow> (queue \<Rightarrow> 'e \<Rightarrow> queue \<Rightarrow> bool) \<Rightarrow> (queue \<Rightarrow> queue \<Rightarrow> bool)
    \<Rightarrow> ('e \<Rightarrow> bool) \<Rightarrow> 'e outcome \<Rightarrow> queue \<Rightarrow> bool" where
  "waited ok finish stall quit out q' \<longleftrightarrow> ok q' \<and>
     (case out of
        Returned e \<Rightarrow> quit e \<or> (\<exists>q0. ok q0 \<and> finish q0 e q')
      | Blocked \<Rightarrow> \<exists>q0. ok q0 \<and> stall q0 q')"

lemma waited_simps [simp]:
  "waited ok finish stall quit (Returned e) q' \<longleftrightarrow> ok q' \<and> (quit e \<or> (\<exists>q0. ok q0 \<and> finish q0 e q'))"
  "waited ok finish stall quit Blocked q' \<longleftrightarrow> ok q' \<and> (\<exists>q0. ok q0 \<and> stall q0 q')"
  by (simp_all add: waited_def)

locale rounds =
  fixes ok :: "queue \<Rightarrow> bool"
    and attempt :: "nat \<Rightarrow> queue \<Rightarrow> ('e, queue) attempt option"
    and took :: "queue \<Rightarrow> queue"
    and finish :: "queue \<Rightarrow> 'e \<Rightarrow> queue \<Rightarrow> bool"
    and stall :: "queue \<Rightarrow> queue \<Rightarrow> bool"
  assumes attempt_ok: "ok q \<Longrightarrow>
      (\<exists>e q'. attempt n q = Some (Done e q') \<and> ok q' \<and> finish q e q')
      \<or> (\<exists>q'. attempt n q = Some (Wait q') \<and> ok q' \<and> stall q q')"
    and took_ok: "ok q \<Longrightarrow> ok (took q)"

locale waiting = rounds ok attempt took finish stall
  for ok attempt took and finish :: "queue \<Rightarrow> 'e \<Rightarrow> queue \<Rightarrow> bool" and stall +
  fixes loop :: "world \<Rightarrow> queue \<Rightarrow> ('e outcome \<times> queue) option"
    and stopped :: 'e
  assumes loop_eq: "loop env q =
      (case attempt (length env) q of
         None \<Rightarrow> None
       | Some (Done e q) \<Rightarrow> Some (Returned e, q)
       | Some (Wait q) \<Rightarrow>
           (case env of
              [] \<Rightarrow> Some (Blocked, q)
            | (w, others) # env \<Rightarrow>
                (case w of
                   Notified \<Rightarrow> loop env (took (others q))
                 | _ \<Rightarrow> Some (Returned stopped, others q))))"
begin

text \<open>Whatever happens outside: the loop neither panics nor breaks the queue.\<close>

lemma loop_result:
  "ok q \<Longrightarrow> world_keeps ok (map snd env) \<Longrightarrow>
    \<exists>out q'. loop env q = Some (out, q') \<and> waited ok finish stall (\<lambda>e. e = stopped) out q'"
proof (induction env arbitrary: q)
  case Nil
  from attempt_ok [OF Nil.prems(1), of "length ([] :: world)"] show ?case
    using Nil.prems(1) by (auto simp: loop_eq [of "[]"])
next
  case (Cons x env)
  obtain w f where x: "x = (w, f)" by fastforce
  from attempt_ok [OF Cons.prems(1), of "length (x # env)"] show ?case
  proof (elim disjE exE conjE)
    fix e q' assume "attempt (length (x # env)) q = Some (Done e q')" "ok q'" "finish q e q'"
    then show ?case using Cons.prems(1) by (subst loop_eq) auto
  next
    fix q' assume a: "attempt (length (x # env)) q = Some (Wait q')" "ok q'" "stall q q'"
    have f: "ok (f q')" "world_keeps ok (map snd env)" using Cons.prems(2) a(2) x by simp_all
    show ?case
      using a f(1) Cons.IH [OF took_ok [OF f(1)] f(2)] x
      by (subst loop_eq, cases w) (auto simp: loop_eq [of "x # env"])
  qed
qed

text \<open>A waiter that is told of a queue where the attempt succeeds returns with the result.\<close>

lemma loop_woken:
  assumes "attempt (Suc 0) q = Some (Wait q')" "attempt 0 (took (f q')) = Some (Done e q'')"
  shows "loop [(Notified, f)] q = Some (Returned e, q'')"
  using assms by (subst loop_eq, simp, subst loop_eq, simp)

end

locale ctx_waiting = rounds ok attempt took finish stall
  for ok attempt took and finish :: "queue \<Rightarrow> 'e \<Rightarrow> queue \<Rightarrow> bool" and stall +
  fixes loop :: "go_error option \<Rightarrow> ctx_world \<Rightarrow> queue \<Rightarrow> ('e outcome \<times> queue) option"
    and stopped :: 'e and cancelled :: "go_error \<Rightarrow> 'e"
  assumes loop_eq: "loop ctx env q =
      (case ctx of Some err \<Rightarrow> Some (Returned (cancelled err), q)
       | None \<Rightarrow>
      (case attempt (length env) q of
         None \<Rightarrow> None
       | Some (Done e q) \<Rightarrow> Some (Returned e, q)
       | Some (Wait q) \<Rightarrow>
           (case env of
              [] \<Rightarrow> Some (Blocked, q)
            | (ctx, w, others) # env \<Rightarrow>
                (case w of
                   Notified \<Rightarrow> loop ctx env (took (others q))
                 | Stopped \<Rightarrow> Some (Returned stopped, others q)
                 | CtxDone err \<Rightarrow> Some (Returned (cancelled err), others q)))))"
begin

lemma loop_result:
  "ok q \<Longrightarrow> world_keeps ok (map (\<lambda>x. snd (snd x)) env) \<Longrightarrow>
    \<exists>out q'. loop ctx env q = Some (out, q') \<and> waited ok finish stall (\<lambda>e. e = stopped \<or> (\<exists>err. e = cancelled err)) out q'"
proof (induction env arbitrary: q ctx)
  case Nil
  from attempt_ok [OF Nil.prems(1), of "length ([] :: ctx_world)"] show ?case
    using Nil.prems(1) by (subst loop_eq, cases ctx) (auto simp: loop_eq [of _ "[]"])
next
  case (Cons x env)
  obtain ctx' w f where x: "x = (ctx', w, f)" by (cases x) auto
  show ?case
  proof (cases ctx)
    case (Some err)
    then show ?thesis using Cons.prems(1) by (subst loop_eq) auto
  next
    case None
    from attempt_ok [OF Cons.prems(1), of "length (x # env)"] show ?thesis
    proof (elim disjE exE conjE)
      fix e q' assume "attempt (length (x # env)) q = Some (Done e q')" "ok q'" "finish q e q'"
      then show ?thesis using Cons.prems(1) None by (subst loop_eq) auto
    next
      fix q' assume a: "attempt (length (x # env)) q = Some (Wait q')" "ok q'" "stall q q'"
      have f: "ok (f q')" "world_keeps ok (map (\<lambda>x. snd (snd x)) env)" using Cons.prems(2) a(2) x by simp_all
      show ?thesis
        using a f(1) Cons.IH [OF took_ok [OF f(1)] f(2), of ctx'] x None
        by (subst loop_eq, cases w) (auto simp: loop_eq [of _ "x # env"])
    qed
  qed
qed

text \<open>A context that is done before the call: nothing is attempted.\<close>

lemma loop_cancelled: "loop (Some err) env q = Some (Returned (cancelled err), q)"
  by (subst loop_eq) simp

end

section \<open>Enqueue\<close>

text \<open>An item as the code makes it, and the two ways an attempt to store it can end.\<close>

definition item_ok :: "queue_data \<Rightarrow> bool" where
  "item_ok d \<longleftrightarrow> item_overhead \<le> qd_size d \<and> qd_size d \<le> MaxInt64 \<and> payload_ok (qd_Payload d)"

definition enqueue_done ::
  "(go_error \<Rightarrow> go_error) \<Rightarrow> queue_data \<Rightarrow> queue \<Rightarrow> go_error option \<Rightarrow> queue \<Rightarrow> bool" where
  "enqueue_done wrap d q e q' \<longleftrightarrow>
     (case e of
        None \<Rightarrow> \<not> q_closed q \<and> \<not> q_at_limit q \<and> q_room (qd_size d) q \<and> stored [d] q q'
      | Some err \<Rightarrow> same_queue q q' \<and>
          (q_closed q \<and> err = QueueClosedError ''enqueue''
           \<or> \<not> q_closed q \<and> \<not> q_room (qd_size d) q \<and> (\<exists>c m n. err = wrap (MemoryLimitError c m n) \<and> n > m)))"

definition enqueue_stall :: "queue_data \<Rightarrow> queue \<Rightarrow> queue \<Rightarrow> bool" where
  "enqueue_stall d q q' \<longleftrightarrow> same_queue q q' \<and> \<not> q_closed q \<and> (q_at_limit q \<or> \<not> q_room (qd_size d) q)"

definition took_dequeue :: "queue \<Rightarrow> queue" where
  "took_dequeue q = q\<lparr>q_dequeueNotify := take_token (q_dequeueNotify q)\<rparr>"

definition took_enqueue :: "queue \<Rightarrow> queue" where
  "took_enqueue q = q\<lparr>q_enqueueNotify := take_token (q_enqueueNotify q)\<rparr>"

lemma item_overhead_pos: "0 \<le> item_overhead"
  by (simp add: item_overhead_def BaseQueueDataSize_def BaseQueueEventSize_def)

lemma new_item_ok: "new_item payload q now d \<Longrightarrow> payload_ok payload \<Longrightarrow> item_ok d"
  by (simp add: new_item_def item_ok_def)

lemma enqueue_attempt:
  assumes "q_inv q \<and> item_ok d"
  shows "(\<exists>e q'. q_enqueue_round wrap d q = Some (Done e q') \<and> (q_inv q' \<and> item_ok d) \<and> enqueue_done wrap d q e q')
    \<or> (\<exists>q'. q_enqueue_round wrap d q = Some (Wait q') \<and> (q_inv q' \<and> item_ok d) \<and> enqueue_stall d q q')"
proof -
  have d: "0 \<le> qd_size d" "qd_size d \<le> MaxInt64" "payload_ok (qd_Payload d)"
    using assms item_overhead_pos by (simp_all add: item_ok_def)
  show ?thesis
    by (rule q_enqueue_round_spec [OF conjunct1 [OF assms] d, of wrap])
      (use assms same_queue_inv same_queue_refl in
        \<open>auto simp: enqueue_done_def enqueue_stall_def stored_def cong: option.case_cong\<close>)
qed

lemma took_inv: "q_inv q \<Longrightarrow> q_inv (took_dequeue q)" "q_inv q \<Longrightarrow> q_inv (took_enqueue q)"
  by (simp_all add: took_dequeue_def took_enqueue_def q_inv_take_tokens)

interpretation enq: waiting "\<lambda>q. q_inv q \<and> item_ok d" "\<lambda>n. q_enqueue_round (\<lambda>e. e) d" took_dequeue
    "enqueue_done (\<lambda>e. e) d" "enqueue_stall d" "q_enqueue_loop d" "Some (QueueClosedError ''enqueue'')"
  for d
proof
  show "q_enqueue_loop d env q =
      (case q_enqueue_round (\<lambda>e. e) d q of
         None \<Rightarrow> None
       | Some (Done e q) \<Rightarrow> Some (Returned e, q)
       | Some (Wait q) \<Rightarrow>
           (case env of
              [] \<Rightarrow> Some (Blocked, q)
            | (w, others) # env \<Rightarrow>
                (case w of
                   Notified \<Rightarrow> q_enqueue_loop d env (took_dequeue (others q))
                 | _ \<Rightarrow> Some (Returned (Some (QueueClosedError ''enqueue'')), others q))))" for env q
    unfolding took_dequeue_def by (rule q_enqueue_loop.simps)
qed (use enqueue_attempt took_inv in blast)+

interpretation enqc: ctx_waiting "\<lambda>q. q_inv q \<and> item_ok d"
    "\<lambda>n. q_enqueue_round (ErrorfWrap ''enqueue failed: '') d" took_dequeue
    "enqueue_done (ErrorfWrap ''enqueue failed: '') d" "enqueue_stall d" "q_enqueue_ctx_loop d"
    "Some (QueueClosedError ''enqueue'')" Some
  for d
proof
  show "q_enqueue_ctx_loop d ctx env q =
      (case ctx of Some err \<Rightarrow> Some (Returned (Some err), q)
       | None \<Rightarrow>
      (case q_enqueue_round (ErrorfWrap ''enqueue failed: '') d q of
         None \<Rightarrow> None
       | Some (Done e q) \<Rightarrow> Some (Returned e, q)
       | Some (Wait q) \<Rightarrow>
           (case env of
              [] \<Rightarrow> Some (Blocked, q)
            | (ctx, w, others) # env \<Rightarrow>
                (case w of
                   Notified \<Rightarrow> q_enqueue_ctx_loop d ctx env (took_dequeue (others q))
                 | Stopped \<Rightarrow> Some (Returned (Some (QueueClosedError ''enqueue'')), others q)
                 | CtxDone err \<Rightarrow> Some (Returned (Some err), others q)))))" for ctx env q
    unfolding took_dequeue_def
    by (subst q_enqueue_ctx_loop.simps, cases ctx) (simp_all only: option.simps simp_thms if_True if_False)
qed (use enqueue_attempt took_inv in blast)+

section \<open>EnqueueBatch\<close>

text \<open>The items of a batch as the code makes them, and whether there is room for all of them.\<close>

definition batch_ok :: "queue_data list \<Rightarrow> bool" where
  "batch_ok ds \<longleftrightarrow> (\<forall>d \<in> set ds. item_overhead \<le> qd_size d) \<and> sum_list (map qd_size ds) \<le> MaxInt64"

definition q_batch_fits :: "queue_data list \<Rightarrow> queue \<Rightarrow> bool" where
  "q_batch_fits ds q \<longleftrightarrow>
     (q_maxItems q > 0 \<longrightarrow> int (length (q_items q) + length ds) \<le> q_maxItems q)
     \<and> q_room (sum_list (map qd_size ds)) q"

text \<open>A batch that no empty queue would have room for.\<close>

definition q_batch_never :: "queue_data list \<Rightarrow> queue \<Rightarrow> bool" where
  "q_batch_never ds q \<longleftrightarrow> q_maxItems q > 0 \<and> int (length ds) > q_maxItems q
     \<or> sum_list (map qd_size ds) > mt_maxMemory (q_memoryTracker q)"

definition batch_done :: "queue_data list \<Rightarrow> queue \<Rightarrow> go_error option \<Rightarrow> queue \<Rightarrow> bool" where
  "batch_done ds q e q' \<longleftrightarrow>
     (case e of
        None \<Rightarrow> \<not> q_closed q \<and> q_batch_fits ds q \<and> stored ds q q'
      | Some err \<Rightarrow> q' = q \<and>
          (q_closed q \<and> err = QueueClosedError ''enqueue batch''
           \<or> \<not> q_closed q \<and> q_batch_never ds q
             \<and> (err = QueueFullError (q_maxItems q)
                \<or> err = MemoryLimitError (mt_totalMemory (q_memoryTracker q))
                    (mt_maxMemory (q_memoryTracker q)) (sum_list (map qd_size ds)))))"

definition batch_stall :: "queue_data list \<Rightarrow> queue \<Rightarrow> queue \<Rightarrow> bool" where
  "batch_stall ds q q' \<longleftrightarrow> q' = q \<and> \<not> q_closed q \<and> \<not> q_batch_fits ds q"

lemma batch_okD:
  assumes "batch_ok ds"
  shows "\<forall>d \<in> set ds. 0 \<le> qd_size d" "item_overhead * int (length ds) \<le> sum_list (map qd_size ds)"
proof -
  have s: "item_overhead \<le> qd_size d" if "d \<in> set ds" for d using assms that by (simp add: batch_ok_def)
  then show "\<forall>d \<in> set ds. 0 \<le> qd_size d" using item_overhead_pos by force
  show "item_overhead * int (length ds) \<le> sum_list (map qd_size ds)"
    using s by (induction ds) (auto simp: algebra_simps intro: add_mono)
qed

lemma batch_attempt:
  assumes ok: "q_inv q \<and> batch_ok ds"
  shows "(\<exists>e q'. q_batch_round ds (sum_list (map qd_size ds)) q = Some (Done e q')
       \<and> (q_inv q' \<and> batch_ok ds) \<and> batch_done ds q e q')
    \<or> (\<exists>q'. q_batch_round ds (sum_list (map qd_size ds)) q = Some (Wait q')
       \<and> (q_inv q' \<and> batch_ok ds) \<and> batch_stall ds q q')"
proof -
  have inv: "q_inv q" and b: "batch_ok ds" using ok by auto
  let ?S = "sum_list (map qd_size ds)" and ?mt = "q_memoryTracker q"
  have W: "wrap64 (mt_maxMemory ?mt - mt_totalMemory ?mt) = mt_maxMemory ?mt - mt_totalMemory ?mt"
    by (rule wrap64_room [OF q_invD(4) [OF inv] q_memory_range [OF inv]])
  note T = q_total_items [OF inv]
  consider "q_closed q" | "\<not> q_closed q" "q_maxItems q > 0" "int (length ds) > q_maxItems q"
    | "\<not> q_closed q" "q_maxItems q > 0" "\<not> int (length ds) > q_maxItems q"
      "int (length (q_items q) + length ds) > q_maxItems q"
    | "\<not> q_closed q" "q_maxItems q > 0 \<longrightarrow> int (length (q_items q) + length ds) \<le> q_maxItems q"
      "?S > mt_maxMemory ?mt"
    | "\<not> q_closed q" "q_maxItems q > 0 \<longrightarrow> int (length (q_items q) + length ds) \<le> q_maxItems q"
      "\<not> ?S > mt_maxMemory ?mt" "\<not> q_room ?S q"
    | "\<not> q_closed q" "q_maxItems q > 0 \<longrightarrow> int (length (q_items q) + length ds) \<le> q_maxItems q"
      "\<not> ?S > mt_maxMemory ?mt" "q_room ?S q"
    by fastforce
  then show ?thesis
  proof cases
    case 1
    then have "q_batch_round ds ?S q = Some (Done (Some (QueueClosedError ''enqueue batch'')) q)"
      by (simp add: q_batch_round_def)
    moreover have "batch_done ds q (Some (QueueClosedError ''enqueue batch'')) q" using 1 by (simp add: batch_done_def)
    ultimately show ?thesis using inv b by blast
  next
    case 2
    then have "q_batch_round ds ?S q = Some (Done (Some (QueueFullError (q_maxItems q))) q)"
      by (simp add: q_batch_round_def)
    moreover have "batch_done ds q (Some (QueueFullError (q_maxItems q))) q"
      using 2 by (simp add: batch_done_def q_batch_never_def)
    ultimately show ?thesis using inv b by blast
  next
    case 3
    then have "q_batch_round ds ?S q = Some (Wait q)" using T by (simp add: q_batch_round_def)
    moreover have "batch_stall ds q q" using 3 by (simp add: batch_stall_def q_batch_fits_def)
    ultimately show ?thesis using inv b by blast
  next
    case 4
    let ?e = "MemoryLimitError (mt_totalMemory ?mt) (mt_maxMemory ?mt) ?S"
    have "q_batch_round ds ?S q = Some (Done (Some ?e) q)" using 4 T by (auto simp: q_batch_round_def Let_def)
    moreover have "batch_done ds q (Some ?e) q" using 4 by (simp add: batch_done_def q_batch_never_def)
    ultimately show ?thesis using inv b by blast
  next
    case 5
    have "q_batch_round ds ?S q = Some (Wait q)"
      using 5 T W by (auto simp: q_batch_round_def Let_def q_room_def)
    moreover have "batch_stall ds q q" using 5 by (simp add: batch_stall_def q_batch_fits_def)
    ultimately show ?thesis using inv b by blast
  next
    case 6
    have okd: "data_ok (q_data q)" using inv by (simp add: q_inv_def)
    have fits: "mt_totalMemory ?mt + ?S \<le> mt_maxMemory ?mt" using 6(4) by (simp add: q_room_def)
    obtain cl' where c: "cl_EnqueueBatch ds (q_data q) = (None, cl')" "grown ds (q_data q) cl'"
      by (rule cl_EnqueueBatch_fits [OF okd batch_okD [OF b] fits])
    obtain q2 where q2: "notifyWaitingConsumers (q\<lparr>q_data := cl'\<rparr>) = Some q2" "stored ds q q2"
      by (rule q_store [OF inv 6(1) c(2)])
    have lim: "\<not> (q_maxItems q > 0 \<and> int (length ds) > q_maxItems q)"
      "\<not> (q_maxItems q > 0 \<and> cl_totalItems (q_data q) + int (length ds) > q_maxItems q)"
      using 6(2) T by auto
    have "q_batch_round ds ?S q = Some (Done None q2)"
      using 6 lim W fits c(1) q2(1) by (simp add: q_batch_round_def)
    moreover have "batch_done ds q None q2" using 6 q2(2) by (simp add: batch_done_def q_batch_fits_def)
    ultimately show ?thesis using q2(2) b by (auto simp: stored_def)
  qed
qed

interpretation bat: waiting "\<lambda>q. q_inv q \<and> batch_ok ds"
    "\<lambda>n. q_batch_round ds (sum_list (map qd_size ds))" took_dequeue "batch_done ds" "batch_stall ds"
    "q_batch_loop ds (sum_list (map qd_size ds))" "Some (QueueClosedError ''enqueue batch'')"
  for ds
proof
  show "q_batch_loop ds (sum_list (map qd_size ds)) env q =
      (case q_batch_round ds (sum_list (map qd_size ds)) q of
         None \<Rightarrow> None
       | Some (Done e q) \<Rightarrow> Some (Returned e, q)
       | Some (Wait q) \<Rightarrow>
           (case env of
              [] \<Rightarrow> Some (Blocked, q)
            | (w, others) # env \<Rightarrow>
                (case w of
                   Notified \<Rightarrow> q_batch_loop ds (sum_list (map qd_size ds)) env (took_dequeue (others q))
                 | _ \<Rightarrow> Some (Returned (Some (QueueClosedError ''enqueue batch'')), others q))))" for env q
    unfolding took_dequeue_def by (rule q_batch_loop.simps)
qed (use batch_attempt took_inv in blast)+

interpretation batc: ctx_waiting "\<lambda>q. q_inv q \<and> batch_ok ds"
    "\<lambda>n. q_batch_round ds (sum_list (map qd_size ds))" took_dequeue "batch_done ds" "batch_stall ds"
    "q_batch_ctx_loop ds (sum_list (map qd_size ds))" "Some (QueueClosedError ''enqueue batch'')" Some
  for ds
proof
  show "q_batch_ctx_loop ds (sum_list (map qd_size ds)) ctx env q =
      (case ctx of Some err \<Rightarrow> Some (Returned (Some err), q)
       | None \<Rightarrow>
      (case q_batch_round ds (sum_list (map qd_size ds)) q of
         None \<Rightarrow> None
       | Some (Done e q) \<Rightarrow> Some (Returned e, q)
       | Some (Wait q) \<Rightarrow>
           (case env of
              [] \<Rightarrow> Some (Blocked, q)
            | (ctx, w, others) # env \<Rightarrow>
                (case w of
                   Notified \<Rightarrow> q_batch_ctx_loop ds (sum_list (map qd_size ds)) ctx env (took_dequeue (others q))
                 | Stopped \<Rightarrow> Some (Returned (Some (QueueClosedError ''enqueue batch'')), others q)
                 | CtxDone err \<Rightarrow> Some (Returned (Some err), others q)))))" for ctx env q
    unfolding took_dequeue_def
    by (subst q_batch_ctx_loop.simps, cases ctx) (simp_all only: option.simps simp_thms if_True if_False)
qed

section \<open>Read\<close>

text \<open>A consumer its owner may still call: it is registered, or it was closed when it was removed.\<close>

definition q_known :: "cptr \<Rightarrow> queue \<Rightarrow> bool" where
  "q_known p q \<longleftrightarrow> p \<in> snd ` set (cm_consumers (q_consumers q)) \<or> c_closed (cm_cstore (q_consumers q) p)"

lemma q_set_reading_id [simp]: "q_set_reading p (q_reading p q) q = q"
  by (simp add: q_set_reading_def q_reading_def)

text \<open>A read on a closed queue, of a closed consumer or in a closed group: nil, and nothing changes.\<close>

lemma c_TryRead_dead:
  assumes inv: "q_inv q" and k: "q_known p q" and dead: "\<not> q_live p q"
  shows "c_TryRead clk k (q_closed q) (q_data q) (q_reading p q) = Some (None, q_reading p q)"
proof -
  let ?c = "cm_cstore (q_consumers q) p" and ?gs = "cm_gstore (q_consumers q)"
  consider "c_closed ?c" | "\<not> c_closed ?c" "c_group ?c = None"
    | g where "\<not> c_closed ?c" "c_group ?c = Some g" by blast
  then show ?thesis
  proof cases
    case 1
    then show ?thesis by (simp add: c_TryRead_def q_reading_def)
  next
    case 2
    then have reg: "p \<in> snd ` set (cm_consumers (q_consumers q))" using k by (simp add: q_known_def)
    then have cls: "q_closed q" using 2 dead by (simp add: q_live_def q_reader_def)
    then have "c_chunkElement ?c = None" using inv 2 reg by (fastforce simp: q_inv_def Let_def)
    moreover have "cl_GetFirstElement (q_data q) = None"
      using q_invD(10) [OF inv cls] by (simp add: cl_GetFirstElement_def)
    ultimately show ?thesis using 2 by (simp add: c_TryRead_def c_TryReadOwn_def q_reading_def)
  next
    case 3
    then have "p \<in> snd ` set (cm_consumers (q_consumers q))" using k by (simp add: q_known_def)
    then have "q_closed q \<or> cg_closed (?gs g)" using 3 dead by (auto simp: q_live_def q_reader_def)
    then show ?thesis using 3 by (simp add: c_TryRead_def q_reading_def cg_TryRead_closed)
  qed
qed

lemma q_TryRead_dead:
  assumes "q_inv q" "q_known p q" "\<not> q_live p q"
  shows "q_TryRead clk k p q = Some (None, q)"
  by (simp add: q_TryRead_def c_TryRead_dead [OF assms])

lemma q_known_read:
  assumes "has_read ds (q_reading p q) cgs"
  shows "q_known p (q_set_reading p cgs q) = q_known p q"
    and "c_group (cm_cstore (q_consumers (q_set_reading p cgs q)) p) = c_group (cm_cstore (q_consumers q) p)"
  using assms by (auto simp: q_known_def q_set_reading_def has_read_def q_reading_def split: prod.splits)

text \<open>What a read of the items \<open>ds\<close> does to the readers.\<close>

definition consumed :: "cptr \<Rightarrow> queue_data list \<Rightarrow> queue_data list \<Rightarrow> queue \<Rightarrow> queue \<Rightarrow> bool" where
  "consumed p ds rest q q' \<longleftrightarrow> q_inv q' \<and> q_live p q \<and> q_left p q = ds @ rest \<and> q_items q' = q_items q
     \<and> q_data q' = q_data q \<and> q_closed q' = q_closed q
     \<and> (\<forall>p'. q_left p' q' = (if same_cursor q p p' then rest else q_left p' q))
     \<and> (\<forall>p'. q_live p' q' = q_live p' q)
     \<and> (\<forall>p'. c_group (cm_cstore (q_consumers q') p') = c_group (cm_cstore (q_consumers q) p'))
     \<and> has_read ds (q_reading p q) (q_reading p q')"

lemma consumed_reading:
  assumes inv: "q_inv q" and live: "q_live p q" and ok: "reader_ok (q_data q) cgs"
    and h: "has_read ds (q_reading p q) cgs" and l: "q_left p q = ds @ left_to_read (q_data q) cgs"
  shows "consumed p ds (left_to_read (q_data q) cgs) q (q_set_reading p cgs q)"
proof -
  have opn: "\<not> q_closed q" and r: "q_reader p q" using live by (simp_all add: q_live_def)
  note S = q_set_reading_spec [OF inv opn r ok h]
  have "c_group (fst cgs) = c_group (cm_cstore (q_consumers q) p)"
    using h by (auto simp: has_read_def q_reading_def split: prod.splits)
  then show ?thesis
    using S live l h unfolding consumed_def
    by (auto simp: q_live_def q_set_reading_def q_reading_def)
qed

definition read_ok :: "cptr \<Rightarrow> queue \<Rightarrow> bool" where
  "read_ok p q \<longleftrightarrow> q_inv q \<and> q_known p q"

definition read_attempt ::
  "(nat \<Rightarrow> clock) \<Rightarrow> cptr \<Rightarrow> nat \<Rightarrow> queue \<Rightarrow> (queue_data option, queue) attempt option" where
  "read_attempt clk p n q =
     (case q_TryRead (clk n) 0 p q of
        None \<Rightarrow> None
      | Some (Some data, q) \<Rightarrow> Some (Done (Some data) q)
      | Some (None, q) \<Rightarrow> Some (Wait q))"

definition read_done :: "cptr \<Rightarrow> queue \<Rightarrow> queue_data option \<Rightarrow> queue \<Rightarrow> bool" where
  "read_done p q e q' \<longleftrightarrow> (\<exists>d rest. e = Some d \<and> consumed p [d] rest q q')"

definition read_stall :: "cptr \<Rightarrow> queue \<Rightarrow> queue \<Rightarrow> bool" where
  "read_stall p q q' \<longleftrightarrow> q_items q' = q_items q \<and> (\<not> q_live p q \<and> q' = q \<or> q_live p q \<and> q_left p q = [])"

lemma q_TryRead_consumed:
  assumes inv: "q_inv q" and live: "q_live p q"
  obtains q' where "q_TryRead clk k p q = Some (if q_left p q = [] then None else Some (hd (q_left p q)), q')"
    "consumed p (take 1 (q_left p q)) (tl (q_left p q)) q q'" "q_known p q' = q_known p q"
proof -
  have opn: "\<not> q_closed q" and r: "q_reader p q" using live by (simp_all add: q_live_def)
  obtain cgs where T: "c_TryRead clk k False (q_data q) (q_reading p q)
       = Some (if q_left p q = [] then None else Some (hd (q_left p q)), cgs)"
    "reader_ok (q_data q) cgs" "left_to_read (q_data q) cgs = tl (q_left p q)"
    "has_read (take 1 (q_left p q)) (q_reading p q) cgs"
    unfolding q_left_def by (rule c_TryRead_left [OF q_invD(1,2) [OF inv] q_reader_ok [OF inv opn r]])
  have split: "q_left p q = take 1 (q_left p q) @ tl (q_left p q)" by (cases "q_left p q") simp_all
  have "consumed p (take 1 (q_left p q)) (tl (q_left p q)) q (q_set_reading p cgs q)"
    using consumed_reading [OF inv live T(2,4)] split unfolding T(3) by simp
  then show ?thesis
    using T(1) opn q_known_read(1) [OF T(4)] by (intro that [of "q_set_reading p cgs q"]) (simp_all add: q_TryRead_def)
qed

lemma read_attempt_ok:
  assumes "read_ok p q"
  shows "(\<exists>e q'. read_attempt clk p n q = Some (Done e q') \<and> read_ok p q' \<and> read_done p q e q')
    \<or> (\<exists>q'. read_attempt clk p n q = Some (Wait q') \<and> read_ok p q' \<and> read_stall p q q')"
proof -
  have inv: "q_inv q" and k: "q_known p q" using assms by (simp_all add: read_ok_def)
  show ?thesis
  proof (cases "q_live p q")
    case False
    then show ?thesis
      using q_TryRead_dead [OF inv k False] assms by (simp add: read_attempt_def read_stall_def)
  next
    case live: True
    obtain q' where q': "q_TryRead (clk n) 0 p q = Some (if q_left p q = [] then None else Some (hd (q_left p q)), q')"
      "consumed p (take 1 (q_left p q)) (tl (q_left p q)) q q'" "q_known p q' = q_known p q"
      by (rule q_TryRead_consumed [OF inv live])
    have ok': "read_ok p q'" using q'(2,3) k by (simp add: read_ok_def consumed_def)
    show ?thesis
    proof (cases "q_left p q")
      case Nil
      then show ?thesis
        using q' ok' live by (simp add: read_attempt_def read_stall_def consumed_def)
    next
      case (Cons d rest)
      then show ?thesis using q' ok' by (auto simp: read_attempt_def read_done_def)
    qed
  qed
qed

lemma took_known: "read_ok p q \<Longrightarrow> read_ok p (took_enqueue q)"
  using took_inv(2) by (simp add: read_ok_def q_known_def took_enqueue_def)

interpretation rd: waiting "read_ok p" "read_attempt clk p" took_enqueue "read_done p" "read_stall p"
    "c_Read clk p" None
  for clk p
proof
  show "c_Read clk p env q =
      (case read_attempt clk p (length env) q of
         None \<Rightarrow> None
       | Some (Done e q) \<Rightarrow> Some (Returned e, q)
       | Some (Wait q) \<Rightarrow>
           (case env of
              [] \<Rightarrow> Some (Blocked, q)
            | (w, others) # env \<Rightarrow>
                (case w of
                   Notified \<Rightarrow> c_Read clk p env (took_enqueue (others q))
                 | _ \<Rightarrow> Some (Returned None, others q))))" for env q
  proof (cases "q_TryRead (clk (length env)) 0 p q")
    case None
    then show ?thesis by (subst c_Read.simps) (simp add: read_attempt_def)
  next
    case (Some r)
    then show ?thesis
      unfolding took_enqueue_def
      by (subst c_Read.simps, cases r, cases "fst r") (simp_all add: read_attempt_def)
  qed
qed (use read_attempt_ok took_known in blast)+

definition ctx_read_attempt ::
  "(nat \<Rightarrow> clock) \<Rightarrow> cptr \<Rightarrow> nat \<Rightarrow> queue \<Rightarrow> (queue_data option \<times> go_error option, queue) attempt option" where
  "ctx_read_attempt clk p n q =
     (case q_TryRead (clk n) 0 p q of
        None \<Rightarrow> None
      | Some (Some data, q) \<Rightarrow> Some (Done (Some data, None) q)
      | Some (None, q) \<Rightarrow> Some (Wait q))"

definition ctx_read_done :: "cptr \<Rightarrow> queue \<Rightarrow> queue_data option \<times> go_error option \<Rightarrow> queue \<Rightarrow> bool" where
  "ctx_read_done p q r q' \<longleftrightarrow> snd r = None \<and> read_done p q (fst r) q'"

interpretation rdc: ctx_waiting "read_ok p" "ctx_read_attempt clk p" took_enqueue "ctx_read_done p" "read_stall p"
    "c_ReadWithContext clk p" "(None, None)" "\<lambda>err. (None, Some err)"
  for clk p
proof
  have split: "ctx_read_attempt clk p n q = (case read_attempt clk p n q of None \<Rightarrow> None
      | Some (Done e q) \<Rightarrow> Some (Done (e, None) q) | Some (Wait q) \<Rightarrow> Some (Wait q))" for n q
    by (simp add: ctx_read_attempt_def read_attempt_def split: option.split)
  show "(\<exists>e q'. ctx_read_attempt clk p n q = Some (Done e q') \<and> read_ok p q' \<and> ctx_read_done p q e q')
    \<or> (\<exists>q'. ctx_read_attempt clk p n q = Some (Wait q') \<and> read_ok p q' \<and> read_stall p q q')"
    if "read_ok p q" for n q
    using read_attempt_ok [OF that, of clk n] unfolding split ctx_read_done_def by auto
  show "c_ReadWithContext clk p ctx env q =
      (case ctx of Some err \<Rightarrow> Some (Returned (None, Some err), q)
       | None \<Rightarrow>
      (case ctx_read_attempt clk p (length env) q of
         None \<Rightarrow> None
       | Some (Done e q) \<Rightarrow> Some (Returned e, q)
       | Some (Wait q) \<Rightarrow>
           (case env of
              [] \<Rightarrow> Some (Blocked, q)
            | (ctx, w, others) # env \<Rightarrow>
                (case w of
                   Notified \<Rightarrow> c_ReadWithContext clk p ctx env (took_enqueue (others q))
                 | Stopped \<Rightarrow> Some (Returned (None, None), others q)
                 | CtxDone err \<Rightarrow> Some (Returned (None, Some err), others q)))))" for ctx env q
  proof (cases "q_TryRead (clk (length env)) 0 p q")
    case None
    then show ?thesis by (subst c_ReadWithContext.simps) (simp add: ctx_read_attempt_def split: option.split)
  next
    case (Some r)
    then show ?thesis
      unfolding took_enqueue_def
      by (subst c_ReadWithContext.simps, cases ctx, cases r, cases "fst r") (simp_all add: ctx_read_attempt_def)
  qed
qed (rule took_known)

section \<open>ReadWhere\<close>

definition where_ok :: "cptr \<Rightarrow> queue \<Rightarrow> bool" where
  "where_ok p q \<longleftrightarrow> read_ok p q \<and> c_group (cm_cstore (q_consumers q) p) = None"

definition where_attempt ::
  "(queue_data \<Rightarrow> bool) \<Rightarrow> (nat \<Rightarrow> clock) \<Rightarrow> cptr \<Rightarrow> nat \<Rightarrow> queue
    \<Rightarrow> (queue_data option \<times> go_error option, queue) attempt option" where
  "where_attempt P clk p n q =
     (case c_TryReadWhere (Some P) (clk n) 0 (q_closed q) (q_data q) (q_reading p q) of
        None \<Rightarrow> None
      | Some ((data, err), cgs) \<Rightarrow>
          Some (if err \<noteq> None then Done (None, err) (q_set_reading p cgs q)
                else if data \<noteq> None then Done (data, None) (q_set_reading p cgs q)
                else Wait (q_set_reading p cgs q)))"

text \<open>The items in front of the match are read past; without a match all that was left is.\<close>

definition where_done ::
  "(queue_data \<Rightarrow> bool) \<Rightarrow> cptr \<Rightarrow> queue \<Rightarrow> queue_data option \<times> go_error option \<Rightarrow> queue \<Rightarrow> bool" where
  "where_done P p q r q' \<longleftrightarrow> (\<exists>skipped d rest. r = (Some d, None) \<and> P d \<and> (\<forall>x \<in> set skipped. \<not> P x)
     \<and> consumed p (skipped @ [d]) rest q q')"

definition where_stall :: "(queue_data \<Rightarrow> bool) \<Rightarrow> cptr \<Rightarrow> queue \<Rightarrow> queue \<Rightarrow> bool" where
  "where_stall P p q q' \<longleftrightarrow> \<not> q_live p q \<and> q' = q
     \<or> (\<forall>x \<in> set (q_left p q). \<not> P x) \<and> consumed p (q_left p q) [] q q'"

lemma find_split:
  "case find P xs of
     None \<Rightarrow> (\<forall>x \<in> set xs. \<not> P x) \<and> take (Suc (length (takeWhile (\<lambda>x. \<not> P x) xs))) xs = xs
       \<and> tl (dropWhile (\<lambda>x. \<not> P x) xs) = []
   | Some d \<Rightarrow> P d \<and> (\<forall>x \<in> set (takeWhile (\<lambda>x. \<not> P x) xs). \<not> P x)
       \<and> take (Suc (length (takeWhile (\<lambda>x. \<not> P x) xs))) xs = takeWhile (\<lambda>x. \<not> P x) xs @ [d]
       \<and> xs = (takeWhile (\<lambda>x. \<not> P x) xs @ [d]) @ tl (dropWhile (\<lambda>x. \<not> P x) xs)"
  by (induction xs) (auto split: option.splits dest: set_takeWhileD)

lemma c_read_until_dead:
  assumes "q_inv q" "q_known p q" "\<not> q_live p q"
  shows "c_read_until P clk k (q_closed q) (q_data q) (q_reading p q) = Some (None, q_reading p q)"
  by (subst c_read_until.simps) (simp add: c_TryRead_dead [OF assms])

lemma where_attempt_ok:
  assumes "where_ok p q"
  shows "(\<exists>e q'. where_attempt P clk p n q = Some (Done e q') \<and> where_ok p q' \<and> where_done P p q e q')
    \<or> (\<exists>q'. where_attempt P clk p n q = Some (Wait q') \<and> where_ok p q' \<and> where_stall P p q q')"
proof -
  have inv: "q_inv q" and k: "q_known p q" and own: "c_group (fst (q_reading p q)) = None"
    using assms by (simp_all add: where_ok_def read_ok_def q_reading_def)
  note unf = where_attempt_def c_TryReadWhere_def
  show ?thesis
  proof (cases "q_live p q")
    case False
    then show ?thesis
      using c_read_until_dead [OF inv k False] own assms by (simp add: unf where_stall_def)
  next
    case live: True
    have opn: "\<not> q_closed q" and r: "q_reader p q" using live by (simp_all add: q_live_def)
    let ?l = "q_left p q"
    obtain cgs where T: "c_read_until P (clk n) 0 False (q_data q) (q_reading p q) = Some (find P ?l, cgs)"
      "reader_ok (q_data q) cgs" "left_to_read (q_data q) cgs = tl (dropWhile (\<lambda>d. \<not> P d) ?l)"
      "has_read (take (Suc (length (takeWhile (\<lambda>d. \<not> P d) ?l))) ?l) (q_reading p q) cgs"
      unfolding q_left_def by (rule c_read_until_left [OF q_invD(1,2) [OF inv] q_reader_ok [OF inv opn r]])
    let ?q' = "q_set_reading p cgs q"
    have ok': "where_ok p ?q'" if "q_inv ?q'"
      using that q_known_read [OF T(4)] k assms by (simp add: where_ok_def read_ok_def)
    note F = find_split [of ?l P] and C = consumed_reading [OF inv live T(2,4)]
    show ?thesis
    proof (cases "find P ?l")
      case None
      then have c: "consumed p ?l [] q ?q'" using F C T(3) by simp
      then have "where_stall P p q ?q'" using F None by (simp add: where_stall_def)
      then show ?thesis
        using T(1) None own opn c ok' by (simp add: unf consumed_def)
    next
      case (Some d)
      then have f: "P d" "\<forall>x \<in> set (takeWhile (\<lambda>x. \<not> P x) ?l). \<not> P x"
        "take (Suc (length (takeWhile (\<lambda>x. \<not> P x) ?l))) ?l = takeWhile (\<lambda>x. \<not> P x) ?l @ [d]"
        "?l = (takeWhile (\<lambda>x. \<not> P x) ?l @ [d]) @ tl (dropWhile (\<lambda>x. \<not> P x) ?l)"
        using F by simp_all
      have c: "consumed p (takeWhile (\<lambda>x. \<not> P x) ?l @ [d]) (tl (dropWhile (\<lambda>x. \<not> P x) ?l)) q ?q'"
        using C f(4) unfolding f(3) T(3) by simp
      then have "where_done P p q (Some d, None) ?q'" using f(1,2) unfolding where_done_def by blast
      then show ?thesis
        using T(1) Some own opn c ok' by (simp add: unf consumed_def)
    qed
  qed
qed

lemma took_where: "where_ok p q \<Longrightarrow> where_ok p (took_enqueue q)"
  using took_known [of p q] by (simp add: where_ok_def) (simp add: took_enqueue_def)

interpretation rw: waiting "where_ok p" "where_attempt P clk p" took_enqueue "where_done P p" "where_stall P p"
    "c_read_where_loop P clk p" "(None, None)"
  for P clk p
proof
  show "c_read_where_loop P clk p env q =
      (case where_attempt P clk p (length env) q of
         None \<Rightarrow> None
       | Some (Done e q) \<Rightarrow> Some (Returned e, q)
       | Some (Wait q) \<Rightarrow>
           (case env of
              [] \<Rightarrow> Some (Blocked, q)
            | (w, others) # env \<Rightarrow>
                (case w of
                   Notified \<Rightarrow> c_read_where_loop P clk p env (took_enqueue (others q))
                 | _ \<Rightarrow> Some (Returned (None, None), others q))))" for env q
  proof (cases "c_TryReadWhere (Some P) (clk (length env)) 0 (q_closed q) (q_data q) (q_reading p q)")
    case None
    then show ?thesis by (subst c_read_where_loop.simps) (simp add: where_attempt_def)
  next
    case (Some r)
    then show ?thesis
      unfolding took_enqueue_def
      by (subst c_read_where_loop.simps, cases r, cases "fst r") (simp_all add: where_attempt_def Let_def)
  qed
qed (use where_attempt_ok took_where in blast)+

interpretation rwc: ctx_waiting "where_ok p" "where_attempt P clk p" took_enqueue "where_done P p" "where_stall P p"
    "c_read_where_ctx_loop P clk p" "(None, None)" "\<lambda>err. (None, Some err)"
  for P clk p
proof
  show "c_read_where_ctx_loop P clk p ctx env q =
      (case ctx of Some err \<Rightarrow> Some (Returned (None, Some err), q)
       | None \<Rightarrow>
      (case where_attempt P clk p (length env) q of
         None \<Rightarrow> None
       | Some (Done e q) \<Rightarrow> Some (Returned e, q)
       | Some (Wait q) \<Rightarrow>
           (case env of
              [] \<Rightarrow> Some (Blocked, q)
            | (ctx, w, others) # env \<Rightarrow>
                (case w of
                   Notified \<Rightarrow> c_read_where_ctx_loop P clk p ctx env (took_enqueue (others q))
                 | Stopped \<Rightarrow> Some (Returned (None, None), others q)
                 | CtxDone err \<Rightarrow> Some (Returned (None, Some err), others q)))))" for ctx env q
  proof (cases "c_TryReadWhere (Some P) (clk (length env)) 0 (q_closed q) (q_data q) (q_reading p q)")
    case None
    then show ?thesis by (subst c_read_where_ctx_loop.simps) (simp add: where_attempt_def split: option.split)
  next
    case (Some r)
    then show ?thesis
      unfolding took_enqueue_def
      by (subst c_read_where_ctx_loop.simps, cases ctx, cases r, cases "fst r") (simp_all add: where_attempt_def Let_def)
  qed
qed

end
