(* ===== verification/MQ_Run.thy ===== *)
theory MQ_Run
  imports MQ_Waiting
begin

text \<open>
  The queue as a state machine: every critical section of every operation is a step, in any order,
  so a blocked operation is a sequence of steps with those of others in between. Each step is
  labelled with what it does to the items and to the readers; the labels of a run are its history.
\<close>

section \<open>The step relation\<close>

datatype event =
    Put "queue_data list"
  | Got cptr "gptr option" "queue_data list"
  | Expired nat
  | Gone "cptr set"
  | Quiet

definition added :: "queue \<Rightarrow> queue \<Rightarrow> event" where
  "added q q' = Put (drop (length (q_items q)) (q_items q'))"

definition got :: "cptr \<Rightarrow> queue \<Rightarrow> queue_data list \<Rightarrow> event" where
  "got p q ds = Got p (c_group (cm_cstore (q_consumers q) p)) ds"

definition gone :: "queue \<Rightarrow> queue \<Rightarrow> event" where
  "gone q q' = Gone {p. q_live p q \<and> \<not> q_live p q'}"

definition settled :: "('e, queue) attempt \<Rightarrow> queue" where
  "settled a = (case a of Done e q \<Rightarrow> q | Wait q \<Rightarrow> q)"

lemma settled_simps [simp]: "settled (Done e q) = q" "settled (Wait q) = q"
  by (simp_all add: settled_def)

text \<open>
  Adding: a whole \<^verbatim>\<open>TryEnqueue\<close> or \<^verbatim>\<open>TryEnqueueBatch\<close>, one attempt of a blocking one, the preparation of
  its items, and the receipt of a token. Reading: one \<^verbatim>\<open>TryRead\<close> or one search (the batch reads are
  sequences of these). Expiry, with any clock of which the pass's looks agree: no item's TTL runs out
  between its two looks at it (\<^verbatim>\<open>MQ_TornPass\<close> shows what happens otherwise); the operations on members,
  the settings, \<^verbatim>\<open>Close\<close>; and another queue of the program drawing from the counter of identifiers, which all queues share.
\<close>

inductive q_step :: "queue \<Rightarrow> event \<Rightarrow> queue \<Rightarrow> bool" where
  try_enqueue: "payload_ok payload \<Longrightarrow> q_TryEnqueue payload now q = Some (err, q') \<Longrightarrow> q_step q (added q q') q'"
| try_batch: "\<forall>p \<in> set payloads. payload_ok p \<Longrightarrow> q_TryEnqueueBatch payloads clk q = Some (err, q')
    \<Longrightarrow> q_step q (added q q') q'"
| prepare: "payload_ok payload \<Longrightarrow> q_new_data payload now q = (d, q') \<Longrightarrow> q_step q Quiet q'"
| prepare_batch: "\<forall>p \<in> set payloads. payload_ok p \<Longrightarrow> q_make_items payloads clk q = (items, q') \<Longrightarrow> q_step q Quiet q'"
| enqueue: "item_ok d \<Longrightarrow> q_enqueue_round wrap d q = Some a \<Longrightarrow> q_step q (added q (settled a)) (settled a)"
| batch: "batch_ok ds \<Longrightarrow> q_batch_round ds (sum_list (map qd_size ds)) q = Some a
    \<Longrightarrow> q_step q (added q (settled a)) (settled a)"
| space: "q_step q Quiet (took_dequeue q)"
| news: "q_step q Quiet (took_enqueue q)"
| read: "q_known p q \<Longrightarrow> q_TryRead clk k p q = Some (r, q')
    \<Longrightarrow> q_step q (got p q (case r of None \<Rightarrow> [] | Some d \<Rightarrow> [d])) q'"
| expire: "cleanupExpiredItems clk q = Some (n, q') \<Longrightarrow> looks_agree clk (q_ttl q) 0 (q_items q) \<Longrightarrow> q_step q (Expired n) q'"
| join: "uuid \<notin> fst ` set (cm_consumers (q_consumers q)) \<Longrightarrow> q_AddConsumer uuid now q = (p, q') \<Longrightarrow> q_step q Quiet q'"
| new_group: "q_AddConsumerGroup name q = (g, q') \<Longrightarrow> q_step q Quiet q'"
| join_group: "uuid \<notin> fst ` set (cm_consumers (q_consumers q)) \<Longrightarrow> g < cm_gnext (q_consumers q) \<Longrightarrow>
    q_AddGroupConsumer uuid now g q = (r, q') \<Longrightarrow> q_step q Quiet q'"
| remove: "q_RemoveConsumer uid q = Some (b, q') \<Longrightarrow> q_step q (gone q q') q'"
| remove_group: "q_RemoveConsumerGroup name q = Some (b, q') \<Longrightarrow> q_step q (gone q q') q'"
| evict: "q_CleanInactiveConsumers timeout now q = Some (n, q') \<Longrightarrow> q_step q (gone q q') q'"
| set_ttl: "q_step q Quiet (q_SetTTL ttl q)"
| enable: "q_step q Quiet (q_EnableExpiration q)"
| disable: "q_step q Quiet (q_DisableExpiration q)"
| close: "q_Close q = Some q' \<Longrightarrow> q_step q (gone q q') q'"
| elsewhere: "q_step q Quiet (q\<lparr>q_dataIDSequence := sequence\<rparr>)"

inductive_cases q_stepE: "q_step q ev q'"

inductive q_run :: "queue \<Rightarrow> event list \<Rightarrow> queue \<Rightarrow> bool" where
  stop: "q_run q [] q"
| go: "q_step q ev q1 \<Longrightarrow> q_run q1 evs q' \<Longrightarrow> q_run q (ev # evs) q'"

inductive_simps q_run_Nil [simp]: "q_run q [] q'"
inductive_simps q_run_Cons: "q_run q (ev # evs) q'"

section \<open>What a step means\<close>

text \<open>
  The abstract queue: the items in it, and for each reader those it has still to read. An event
  changes both; a reader of a group is served by every read of a member of the group.
\<close>

fun items_after :: "event \<Rightarrow> queue_data list \<Rightarrow> queue_data list" where
  "items_after (Put ds) xs = xs @ ds"
| "items_after (Expired n) xs = drop n xs"
| "items_after _ xs = xs"

definition served :: "cptr \<Rightarrow> gptr option \<Rightarrow> cptr \<Rightarrow> gptr option \<Rightarrow> bool" where
  "served p g p' g' \<longleftrightarrow> p = p' \<or> (g \<noteq> None \<and> g = g')"

fun left_after :: "cptr \<Rightarrow> gptr option \<Rightarrow> nat \<Rightarrow> event \<Rightarrow> queue_data list \<Rightarrow> queue_data list" where
  "left_after p g n (Put ds) xs = xs @ ds"
| "left_after p g n (Got p' g' ds) xs = (if served p g p' g' then drop (length ds) xs else xs)"
| "left_after p g n (Expired m) xs = drop (m - (n - length xs)) xs"
| "left_after p g n _ xs = xs"

text \<open>
  A step implements its event: the invariant holds again, the items change as the event says while
  the queue is open, and a reader that is not gone has the rest the event leaves it. A read returns
  what its reader has to read first.
\<close>

definition implements :: "event \<Rightarrow> queue \<Rightarrow> queue \<Rightarrow> bool" where
  "implements ev q q' \<longleftrightarrow> q_inv q'
     \<and> (\<not> q_closed q' \<longrightarrow> \<not> q_closed q \<and> q_items q' = items_after ev (q_items q))
     \<and> (\<forall>p. q_live p q \<longrightarrow> (\<forall>K. ev = Gone K \<longrightarrow> p \<notin> K) \<longrightarrow>
           q_live p q' \<and> c_group (cm_cstore (q_consumers q') p) = c_group (cm_cstore (q_consumers q) p)
           \<and> q_left p q' = left_after p (c_group (cm_cstore (q_consumers q) p)) (length (q_items q)) ev (q_left p q))
     \<and> (\<forall>p g ds. ev = Got p g ds \<longrightarrow> ds \<noteq> [] \<longrightarrow>
           q_live p q \<and> g = c_group (cm_cstore (q_consumers q) p) \<and> prefix ds (q_left p q))
     \<and> (\<forall>n. ev = Expired n \<longrightarrow> n \<le> length (q_items q))"

section \<open>Every step implements its event\<close>

lemma q_live_cong: "q_consumers q' = q_consumers q \<Longrightarrow> q_closed q' = q_closed q \<Longrightarrow> q_live p q' = q_live p q"
  by (simp add: q_live_def q_reader_def)

lemma implements_stored:
  assumes "stored ds q q'" "\<not> q_closed q"
  shows "implements (added q q') q q'"
  using assms unfolding implements_def stored_def added_def q_live_def by simp

lemma implements_none:
  assumes "q_inv q'" "q_items q' = q_items q" "q_closed q' = q_closed q"
    and "\<And>p. q_live p q \<Longrightarrow> q_live p q' \<and> q_left p q' = q_left p q
      \<and> c_group (cm_cstore (q_consumers q') p) = c_group (cm_cstore (q_consumers q) p)"
  shows "implements Quiet q q'" "implements (added q q') q q'"
  using assms unfolding implements_def added_def by simp_all

lemma implements_same:
  assumes "same_queue q q'" "q_inv q"
  shows "implements Quiet q q'" "implements (added q q') q q'"
proof -
  note S = same_queueD [OF assms(1)]
  show "implements Quiet q q'" "implements (added q q') q q'"
    by (rule implements_none [OF same_queue_inv [OF assms]];
        use S in \<open>simp add: q_live_def\<close>)+
qed

lemma implements_undisturbed:
  assumes "undisturbed q q'"
  shows "implements (gone q q') q q'" "(\<And>p. q_live p q \<Longrightarrow> q_live p q') \<Longrightarrow> implements Quiet q q'"
  using assms unfolding implements_def undisturbed_def gone_def by simp_all

lemma implements_setting:
  assumes "q_inv q'" "q_data q' = q_data q" "q_consumers q' = q_consumers q" "q_closed q' = q_closed q"
  shows "implements Quiet q q'"
  by (rule implements_none)
    (use assms q_live_cong [OF assms(3,4)] in \<open>simp_all add: q_items_def q_left_def q_reading_def\<close>)

lemma implements_attempt_enqueue:
  assumes inv: "q_inv q" and d: "item_ok d" and eq: "q_enqueue_round wrap d q = Some a"
  shows "implements (added q (settled a)) q (settled a)"
  using enqueue_attempt [of q d wrap] inv d eq implements_stored implements_same [of q "settled a"]
  by (auto simp: enqueue_done_def enqueue_stall_def split: option.splits)

lemma implements_attempt_batch:
  assumes inv: "q_inv q" and d: "batch_ok ds" and eq: "q_batch_round ds (sum_list (map qd_size ds)) q = Some a"
  shows "implements (added q (settled a)) q (settled a)"
  using batch_attempt [of q ds] inv d eq implements_stored implements_same [OF same_queue_refl]
  by (auto simp: batch_done_def batch_stall_def split: option.splits)

lemma implements_try_enqueue:
  assumes inv: "q_inv q" and p: "payload_ok payload" and eq: "q_TryEnqueue payload now q = Some (err, q')"
  shows "implements (added q q') q q'"
proof (cases "q_closed q")
  case True
  then have "q' = q" using eq q_TryEnqueue_closed by simp
  then show ?thesis using implements_same(2) [OF same_queue_refl inv] by simp
next
  case opn: False
  obtain d err' q'' where T: "q_TryEnqueue payload now q = Some (err', q'')" "new_item payload q now d"
    "q_at_limit q \<Longrightarrow> err' = Some (QueueFullError (q_maxItems q)) \<and> same_queue q q''"
    "\<not> q_at_limit q \<Longrightarrow> \<not> q_room (qd_size d) q \<Longrightarrow> same_queue q q''"
    "\<not> q_at_limit q \<Longrightarrow> q_room (qd_size d) q \<Longrightarrow> stored [d] q q''"
    by (rule q_TryEnqueue_open [OF inv opn p, of now]) blast
  then have "same_queue q q' \<or> stored [d] q q'" using eq by (cases "q_at_limit q"; cases "q_room (qd_size d) q") auto
  then show ?thesis using implements_same(2) [OF _ inv] implements_stored opn by blast
qed

lemma implements_try_batch:
  assumes inv: "q_inv q" and p: "\<forall>p \<in> set payloads. payload_ok p"
    and eq: "q_TryEnqueueBatch payloads clk q = Some (err, q')"
  shows "implements (added q q') q q'"
proof (cases "q_closed q \<or> payloads = []")
  case True
  then have "q' = q" using eq q_TryEnqueueBatch_closed by (auto simp: q_TryEnqueueBatch_def split: if_splits)
  then show ?thesis using implements_same(2) [OF same_queue_refl inv] by simp
next
  case False
  then have opn: "\<not> q_closed q" and ne: "payloads \<noteq> []" by auto
  obtain err' q'' where T: "q_TryEnqueueBatch payloads clk q = Some (err', q'')"
    "err' \<noteq> None \<Longrightarrow> same_queue q q''" "err' = None \<Longrightarrow> \<exists>ds. stored ds q q''"
    by (rule q_TryEnqueueBatch_open [OF inv opn p ne, of clk]) blast
  then have "same_queue q q' \<or> (\<exists>ds. stored ds q q')" using eq by (cases err) auto
  then show ?thesis using implements_same(2) [OF _ inv] implements_stored opn by blast
qed

lemma implements_read:
  assumes inv: "q_inv q" and k: "q_known p q" and eq: "q_TryRead clk k p q = Some (r, q')"
  shows "implements (got p q (case r of None \<Rightarrow> [] | Some d \<Rightarrow> [d])) q q'"
proof (cases "q_live p q")
  case False
  then have "r = None" "q' = q" using q_TryRead_dead [OF inv k False, of clk] eq by simp_all
  then show ?thesis using inv by (simp add: implements_def got_def)
next
  case True
  obtain q'' where T: "q_TryRead clk k p q = Some (if q_left p q = [] then None else Some (hd (q_left p q)), q'')"
    "consumed p (take 1 (q_left p q)) (tl (q_left p q)) q q''" "q_known p q'' = q_known p q"
    by (rule q_TryRead_consumed [OF inv True])
  note C = T(2) [unfolded consumed_def]
  have r: "(case r of None \<Rightarrow> [] | Some d \<Rightarrow> [d]) = take 1 (q_left p q)" "q'' = q'"
    using eq T(1) by (auto simp: take_Suc split: if_splits)
  have tl: "drop (length (take 1 (q_left p q))) (q_left p q) = tl (q_left p q)" by (cases "q_left p q") simp_all
  have shared: "same_cursor q p p' \<Longrightarrow> q_left p' q = q_left p q" for p'
    by (auto simp: same_cursor_def q_left_def left_to_read_def q_reading_def c_GetPosition_def split: option.splits)
  have "served p' (c_group (cm_cstore (q_consumers q) p')) p (c_group (cm_cstore (q_consumers q) p))
      = same_cursor q p p'" for p'
    unfolding served_def same_cursor_def by metis
  then show ?thesis
    using C True shared tl unfolding r implements_def got_def
    by (auto simp: take_is_prefix simp del: length_take One_nat_def)
qed

lemma cleanup_frame:
  assumes inv: "q_inv q" and eq: "cleanupExpiredItems clk q = Some (n, q')"
  shows "q_closed q' = q_closed q"
    and "c_group (cm_cstore (q_consumers q') p) = c_group (cm_cstore (q_consumers q) p)"
proof -
  obtain m infos cl' where R: "cl_RemoveExpiredData clk (q_ttl q) (q_data q) = (m, infos, cl')"
    by (metis prod.exhaust)
  obtain f where "m = sum_list (map f (cl_list (q_data q)))" "infos = removal_infos (q_data q) f (cl_list (q_data q))"
    by (rule cl_RemoveExpiredData_any [OF q_invD(1) [OF inv] R]) blast
  then have m: "sum_list (map ri_RemovedCount infos) = m" using removal_infos_sum by simp
  have "c_group (cm_cstore cm' p) = c_group (cm_cstore (q_consumers q) p)"
    if "cm_NotifyAllConsumersOfExpiration first infos chunks (q_consumers q) = Some cm'" "0 < m" for first chunks cm'
    using that cm_Notify_spec [OF q_invD(5) [OF inv], of infos first chunks] m
    by (auto simp: consumer_after_def c_set_position_def)
  then show "q_closed q' = q_closed q"
    and "c_group (cm_cstore (q_consumers q') p) = c_group (cm_cstore (q_consumers q) p)"
    using eq R by (auto simp: cleanupExpiredItems_def Let_def split: if_splits Option.bind_splits)
qed

lemma implements_expire:
  assumes inv: "q_inv q" and eq: "cleanupExpiredItems clk q = Some (n, q')"
    and looks: "looks_agree clk (q_ttl q) 0 (q_items q)"
  shows "implements (Expired n) q q'"
proof (cases "q_expirationEnabled q")
  case False
  then have "n = 0" "q' = q" using eq cleanup_disabled by simp_all
  then show ?thesis using inv by (simp add: implements_def)
next
  case True
  let ?n = "expired_run clk (q_ttl q) 0 (q_items q)"
  obtain q'' where C: "cleanupExpiredItems clk q = Some (?n, q'')" "q_inv q''"
    "q_items q'' = drop ?n (q_items q)"
    "\<And>p. \<not> q_closed q \<Longrightarrow> q_reader p q \<Longrightarrow> q_reader p q'' \<and>
        q_left p q'' = drop (?n - (length (q_items q) - length (q_left p q))) (q_left p q)"
    by (rule cleanup_spec [OF inv looks True]) simp_all
  have e: "n = ?n" "q' = q''" using eq C(1) by simp_all
  show ?thesis
    unfolding implements_def
    using C cleanup_frame [OF inv eq] by (simp add: e q_live_def expired_run_le)
qed

lemma implements_close:
  assumes inv: "q_inv q" and eq: "q_Close q = Some q'"
  shows "implements (gone q q') q q'"
proof -
  obtain q'' where C: "q_Close q = Some q''" "q_inv q''" "q_closed q''"
    by (rule q_Close_spec [OF inv]) blast
  then show ?thesis using eq by (simp add: implements_def gone_def q_live_def)
qed

theorem q_step_implements: "q_step q ev q' \<Longrightarrow> q_inv q \<Longrightarrow> implements ev q q'"
proof (induction rule: q_step.induct)
  case (prepare payload now q d q')
  then show ?case
    using q_new_data_spec [OF prepare.prems prepare.hyps(1), of now] implements_same(1) [OF _ prepare.prems] by auto
next
  case (prepare_batch payloads clk q items q')
  then show ?case
    using q_make_items_spec [OF prepare_batch.prems prepare_batch.hyps(1), of clk]
      implements_same(1) [OF _ prepare_batch.prems] by (metis prod.inject)
next
  case (space q)
  then show ?case
    by (intro implements_setting took_inv) (simp_all add: took_dequeue_def)
next
  case (news q)
  then show ?case
    by (intro implements_setting took_inv) (simp_all add: took_enqueue_def)
next
  case (join uuid q now p q')
  note A = q_AddConsumer_spec [OF join.prems join.hyps]
  show ?case by (rule implements_undisturbed(2) [OF A(1,3)])
next
  case (new_group name q g q')
  note A = q_AddConsumerGroup_spec [OF new_group.prems new_group.hyps]
  show ?case by (rule implements_undisturbed(2) [OF A(1,3)])
next
  case (join_group uuid q g now r q')
  note A = q_AddGroupConsumer_spec [OF join_group.prems join_group.hyps]
  show ?case by (rule implements_undisturbed(2) [OF A(1,2)])
next
  case (remove uid q b q')
  obtain q'' where "q_RemoveConsumer uid q = Some (uid \<in> fst ` set (cm_consumers (q_consumers q)), q'')"
    "undisturbed q q''" by (rule q_RemoveConsumer_spec [OF remove.prems])
  then show ?case using remove.hyps implements_undisturbed(1) by simp
next
  case (remove_group name q b q')
  obtain q'' where "q_RemoveConsumerGroup name q = Some (name \<in> fst ` set (cm_groups (q_consumers q)), q'')"
    "undisturbed q q''" by (rule q_RemoveConsumerGroup_spec [OF remove_group.prems])
  then show ?case using remove_group.hyps implements_undisturbed(1) by simp
next
  case (evict timeout now q n q')
  obtain m q'' where "q_CleanInactiveConsumers timeout now q = Some (m, q'')" "undisturbed q q''"
    by (rule q_CleanInactive_spec [OF evict.prems]) blast
  then show ?case using evict.hyps implements_undisturbed(1) by simp
next
  case (set_ttl q ttl)
  then show ?case by (intro implements_setting) (simp_all add: q_SetTTL_def q_inv_def)
next
  case (enable q)
  then show ?case by (intro implements_setting) (simp_all add: q_EnableExpiration_def q_inv_def)
next
  case (disable q)
  then show ?case by (intro implements_setting) (simp_all add: q_DisableExpiration_def q_inv_def)
next
  case (elsewhere q sequence)
  then show ?case by (intro implements_setting) (simp_all add: q_inv_def)
qed (blast intro: implements_try_enqueue implements_try_batch implements_attempt_enqueue
  implements_attempt_batch implements_read implements_expire implements_close)+

lemma q_step_inv: "q_step q ev q' \<Longrightarrow> q_inv q \<Longrightarrow> q_inv q'"
  using q_step_implements unfolding implements_def by blast

lemma q_run_inv: "q_run q evs q' \<Longrightarrow> q_inv q \<Longrightarrow> q_inv q'"
  by (induction rule: q_run.induct) (blast intro: q_step_inv)+

section \<open>Histories\<close>

text \<open>
  What a history says: the items that came in, how many were removed, what a reader (and, in a
  group, its fellow members) was given, and whether it stayed.
\<close>

fun puts :: "event list \<Rightarrow> queue_data list" where
  "puts [] = []"
| "puts (Put ds # evs) = ds @ puts evs"
| "puts (_ # evs) = puts evs"

fun removed :: "event list \<Rightarrow> nat" where
  "removed [] = 0"
| "removed (Expired n # evs) = n + removed evs"
| "removed (_ # evs) = removed evs"

fun given :: "cptr \<Rightarrow> gptr option \<Rightarrow> event list \<Rightarrow> queue_data list" where
  "given p g [] = []"
| "given p g (Got p' g' ds # evs) = (if served p g p' g' then ds else []) @ given p g evs"
| "given p g (_ # evs) = given p g evs"

definition stays :: "cptr \<Rightarrow> event list \<Rightarrow> bool" where
  "stays p evs \<longleftrightarrow> (\<forall>K. Gone K \<in> set evs \<longrightarrow> p \<notin> K)"

lemma stays_Nil [simp]: "stays p []"
  by (simp add: stays_def)

lemma stays_Cons [simp]: "stays p (ev # evs) \<longleftrightarrow> (\<forall>K. ev = Gone K \<longrightarrow> p \<notin> K) \<and> stays p evs"
  by (auto simp: stays_def)

lemma given_append: "given p g (evs @ evs') = given p g evs @ given p g evs'"
  by (induction p g evs rule: given.induct) simp_all

lemma puts_append: "puts (evs @ evs') = puts evs @ puts evs'"
  by (induction evs rule: puts.induct) simp_all

lemma removed_append: "removed (evs @ evs') = removed evs + removed evs'"
  by (induction evs rule: removed.induct) simp_all

lemma stays_append: "stays p (evs @ evs') \<longleftrightarrow> stays p evs \<and> stays p evs'"
  by (auto simp: stays_def)

lemma q_left_served:
  "served p (c_group (cm_cstore (q_consumers q) p)) p' (c_group (cm_cstore (q_consumers q) p')) \<Longrightarrow>
    q_left p q = q_left p' q"
  by (auto simp: served_def q_left_def left_to_read_def q_reading_def c_GetPosition_def split: option.splits)

text \<open>One step, seen by one reader: what it is given and what it has left is a part of what it had.\<close>

lemma step_reader:
  assumes step: "q_step q ev q'" and inv: "q_inv q" and live: "q_live p q" and stay: "stays p [ev]"
  defines "g \<equiv> c_group (cm_cstore (q_consumers q) p)"
  shows "q_live p q'" "c_group (cm_cstore (q_consumers q') p) = g"
    and "subseq (given p g [ev] @ q_left p q') (q_left p q @ puts [ev])"
    and "removed [ev] = 0 \<Longrightarrow> given p g [ev] @ q_left p q' = q_left p q @ puts [ev]"
proof -
  note I = q_step_implements [OF step inv, unfolded implements_def]
  have p: "\<forall>K. ev = Gone K \<longrightarrow> p \<notin> K" using stay by simp
  have left: "q_left p q' = left_after p g (length (q_items q)) ev (q_left p q)"
    and g': "c_group (cm_cstore (q_consumers q') p) = g" and live': "q_live p q'"
    using I live p unfolding g_def by blast+
  then show "q_live p q'" "c_group (cm_cstore (q_consumers q') p) = g" by simp_all
  have "subseq (given p g [ev] @ q_left p q') (q_left p q @ puts [ev])
    \<and> (removed [ev] = 0 \<longrightarrow> given p g [ev] @ q_left p q' = q_left p q @ puts [ev])"
  proof (cases ev)
    case (Got p' g' ds)
    show ?thesis
    proof (cases "served p g p' g' \<and> ds \<noteq> []")
      case True
      then have "prefix ds (q_left p' q)" "g' = c_group (cm_cstore (q_consumers q) p')" using I Got by auto
      then have "prefix ds (q_left p q)" using True q_left_served [of p q p'] by (simp add: g_def)
      then have "ds @ q_left p q' = q_left p q" using True left Got by (auto simp: prefix_def)
      then show ?thesis using True Got by simp
    qed (use Got left in auto)
  next
    case (Expired n)
    then show ?thesis using left by (simp add: suffix_imp_subseq suffix_drop)
  qed (use left in simp_all)
  then show "subseq (given p g [ev] @ q_left p q') (q_left p q @ puts [ev])"
    and "removed [ev] = 0 \<Longrightarrow> given p g [ev] @ q_left p q' = q_left p q @ puts [ev]" by blast+
qed

lemma history_Cons:
  "puts (ev # evs) = puts [ev] @ puts evs" "removed (ev # evs) = removed [ev] + removed evs"
  "given p g (ev # evs) = given p g [ev] @ given p g evs"
  by (cases ev; simp)+

lemma run_reader:
  assumes "q_run q evs q'" "q_inv q" "q_live p q" "stays p evs" "c_group (cm_cstore (q_consumers q) p) = g"
  shows "q_live p q' \<and> c_group (cm_cstore (q_consumers q') p) = g
    \<and> subseq (given p g evs @ q_left p q') (q_left p q @ puts evs)
    \<and> (removed evs = 0 \<longrightarrow> given p g evs @ q_left p q' = q_left p q @ puts evs)"
  using assms
proof (induction rule: q_run.induct)
  case (go q ev q1 evs q')
  have st: "stays p [ev]" "stays p evs" using go.prems(3) by simp_all
  note S = step_reader [OF go.hyps(1) go.prems(1,2) st(1), unfolded go.prems(4)]
  note I = go.IH [OF q_step_inv [OF go.hyps(1) go.prems(1)] S(1) st(2) S(2)]
  have "subseq ((given p g [ev] @ given p g evs) @ q_left p q') (given p g [ev] @ (q_left p q1 @ puts evs))"
    using I by (simp add: list_emb_append_mono)
  moreover have "subseq ((given p g [ev] @ q_left p q1) @ puts evs) ((q_left p q @ puts [ev]) @ puts evs)"
    by (rule list_emb_append_mono [OF S(3)]) simp
  ultimately have "subseq (given p g (ev # evs) @ q_left p q') (q_left p q @ puts (ev # evs))"
    unfolding history_Cons(1,3) [where ev = ev and evs = evs]
    by (metis append.assoc subseq_order.trans)
  moreover have "given p g (ev # evs) @ q_left p q' = q_left p q @ puts (ev # evs)" if "removed (ev # evs) = 0"
  proof -
    have z: "removed [ev] = 0" "removed evs = 0" using that unfolding history_Cons(2) [where ev = ev and evs = evs] by simp_all
    have "given p g [ev] @ (given p g evs @ q_left p q') = (q_left p q @ puts [ev]) @ puts evs"
      using I z(2) S(4) [OF z(1)] by (metis append.assoc)
    then show ?thesis unfolding history_Cons(1,3) [where ev = ev and evs = evs] by simp
  qed
  ultimately show ?case using I by blast
qed simp

text \<open>The content of the queue: what came in, less a prefix that expired.\<close>

lemma run_items:
  assumes "q_run q evs q'" "q_inv q" "\<not> q_closed q'"
  shows "\<not> q_closed q \<and> removed evs \<le> length (q_items q @ puts evs)
    \<and> q_items q' = drop (removed evs) (q_items q @ puts evs)"
  using assms
proof (induction rule: q_run.induct)
  case (go q ev q1 evs q')
  note I = q_step_implements [OF go.hyps(1) go.prems(1), unfolded implements_def]
  note H = go.IH [OF q_step_inv [OF go.hyps(1) go.prems(1)] go.prems(2)]
  have items: "\<not> q_closed q" "q_items q1 = items_after ev (q_items q)" using I H by blast+
  then show ?case using H I by (cases ev) (auto simp: add.commute)
qed simp

section \<open>New queues\<close>

lemma q_inv_new:
  assumes "cfg_MaxMemory config \<le> 2 ^ 50"
  shows "q_inv (NewQueueWithConfig name config now sequence)"
    and "q_items (NewQueueWithConfig name config now sequence) = []"
    and "\<not> q_closed (NewQueueWithConfig name config now sequence)"
proof -
  let ?q = "NewQueueWithConfig name config now sequence"
  have d: "q_data ?q = NewChunkedList (NewMemoryTracker (cfg_MaxMemory config))"
    "q_consumers ?q = NewConsumerManager" "\<not> q_closed ?q" "q_stopChan ?q = make_chan 0"
    "q_enqueueNotify ?q = make_chan 100" "q_dequeueNotify ?q = make_chan 100"
    by (simp_all add: NewQueueWithConfig_def Let_def)
  have ok: "data_ok (q_data ?q)"
    using assms unfolding d
    by (simp add: data_ok_def mt_ok_def NewChunkedList_def cl_inv_def cl_chained_def cl_accounted_def
        cl_items_def cl_bytes_def MaxInt64_def MaxQueueMemory_def)
  have wf: "cm_wf NewConsumerManager" "cm_positions cl NewConsumerManager" for cl
    by (simp_all add: cm_wf_def cm_positions_def NewConsumerManager_def NewConsumer_def NewConsumerGroup_def
        c_wf_def cg_wf_def)
  show "q_inv ?q" using ok wf d by (simp add: q_inv_def signals_ok_def)
  show "q_items ?q = []" by (simp add: q_items_def d NewChunkedList_def cl_items_def)
  show "\<not> q_closed ?q" by (rule d(3))
qed

text \<open>The queues a program can get to.\<close>

definition q_reached :: "event list \<Rightarrow> queue \<Rightarrow> bool" where
  "q_reached evs q \<longleftrightarrow> (\<exists>name config now sequence. cfg_MaxMemory config \<le> 2 ^ 50
     \<and> q_run (NewQueueWithConfig name config now sequence) evs q)"

lemma q_reached_inv: "q_reached evs q \<Longrightarrow> q_inv q"
  unfolding q_reached_def using q_run_inv q_inv_new(1) by blast

lemma q_run_trans: "q_run q evs q1 \<Longrightarrow> q_run q1 evs' q' \<Longrightarrow> q_run q (evs @ evs') q'"
  by (induction rule: q_run.induct) (auto intro: q_run.go)

end
