(* ===== verification/MQ_Example.thy ===== *)
theory MQ_Example
  imports MQ_Run
begin

text \<open>
  A small concrete queue, on which the properties are applied: a consumer joins, an item is stored,
  it is read; and next to the consumer a group with two members.
\<close>

section \<open>The states\<close>

definition ex_config :: queue_config where
  "ex_config = \<lparr>cfg_TTL = 60, cfg_MaxMemory = MaxQueueMemory, cfg_MaxItems = 3, cfg_MaxConsumerHistory = 2,
     cfg_ExpirationCheckInterval = 0, cfg_ConsumerEvictionTimeout = 0\<rparr>"

definition ex_new :: queue where
  "ex_new = NewQueueWithConfig ''jobs'' ex_config 0 0"

definition ex_joined :: queue where
  "ex_joined = snd (q_AddConsumer ''c1'' 0 ex_new)"

definition ex_stored :: queue where
  "ex_stored = snd (the (q_TryEnqueue (PString ''x'') 5 ex_joined))"

definition ex_read :: queue where
  "ex_read = snd (the (q_TryRead (\<lambda>_. 7) 0 0 ex_stored))"

definition ex_group :: queue where
  "ex_group = snd (q_AddConsumerGroup ''g'' ex_stored)"

definition ex_member :: queue where
  "ex_member = snd (q_AddGroupConsumer ''c2'' 6 0 ex_group)"

definition ex_members :: queue where
  "ex_members = snd (q_AddGroupConsumer ''c3'' 6 0 ex_member)"

definition ex_item :: queue_data where
  "ex_item = hd (q_items ex_stored)"

section \<open>What holds of them\<close>

lemma ex_payload [simp]: "payload_ok (PString ''x'')"
  by (simp add: MaxInt64_def)

lemma ex_new_inv: "q_inv ex_new" "q_items ex_new = []" "\<not> q_closed ex_new" "cm_consumers (q_consumers ex_new) = []"
proof -
  have c: "cfg_MaxMemory ex_config \<le> 2 ^ 50" by (simp add: ex_config_def MaxQueueMemory_def)
  show "q_inv ex_new" "q_items ex_new = []" "\<not> q_closed ex_new"
    using q_inv_new [OF c] by (simp_all add: ex_new_def)
  show "cm_consumers (q_consumers ex_new) = []" by code_simp
qed

lemma ex_joined_eq: "q_AddConsumer ''c1'' 0 ex_new = (0, ex_joined)"
proof -
  have "fst (q_AddConsumer ''c1'' 0 ex_new) = 0" by code_simp
  then show ?thesis by (simp add: ex_joined_def prod_eq_iff)
qed

lemma ex_joined_inv: "q_inv ex_joined" "q_live 0 ex_joined" "q_left 0 ex_joined = []" "q_items ex_joined = []"
  "\<not> q_closed ex_joined"
  using q_AddConsumer_spec [OF ex_new_inv(1) _ ex_joined_eq] ex_new_inv
  by (simp_all add: undisturbed_def)

lemma ex_stored_eq: "q_TryEnqueue (PString ''x'') 5 ex_joined = Some (None, ex_stored)"
  and ex_stored_item: "q_items ex_stored = [ex_item]"
  and ex_stored_inv: "q_inv ex_stored" "q_live 0 ex_stored" "q_left 0 ex_stored = [ex_item]" "\<not> q_closed ex_stored"
proof -
  obtain d err q' where T: "q_TryEnqueue (PString ''x'') 5 ex_joined = Some (err, q')"
    "q_at_limit ex_joined \<Longrightarrow> err = Some (QueueFullError (q_maxItems ex_joined))"
    "\<not> q_at_limit ex_joined \<Longrightarrow> \<not> q_room (qd_size d) ex_joined \<Longrightarrow>
       \<exists>needed. err = Some (MemoryLimitError (mt_totalMemory (q_memoryTracker ex_joined))
           (mt_maxMemory (q_memoryTracker ex_joined)) needed)"
    "\<not> q_at_limit ex_joined \<Longrightarrow> q_room (qd_size d) ex_joined \<Longrightarrow> err = None \<and> stored [d] ex_joined q'"
    by (rule q_TryEnqueue_open [OF ex_joined_inv(1,5) ex_payload, of 5]) blast
  have "fst (the (q_TryEnqueue (PString ''x'') 5 ex_joined)) = None" by code_simp
  then have err: "err = None" using T(1) by simp
  have q': "q' = ex_stored" using T(1) by (simp add: ex_stored_def)
  show "q_TryEnqueue (PString ''x'') 5 ex_joined = Some (None, ex_stored)" using T(1) err q' by simp
  have "stored [d] ex_joined ex_stored" using T(2-4) err q' by auto
  then show "q_items ex_stored = [ex_item]" "q_inv ex_stored" "q_live 0 ex_stored"
    "q_left 0 ex_stored = [ex_item]" "\<not> q_closed ex_stored"
    using ex_joined_inv by (auto simp: stored_def q_live_def ex_item_def)
qed

lemma ex_item_ok: "item_ok ex_item" "qd_size ex_item = 180" "qd_Payload ex_item = PString ''x''"
proof -
  show "qd_size ex_item = 180" by code_simp
  show p: "qd_Payload ex_item = PString ''x''" by code_simp
  show "item_ok ex_item" using \<open>qd_size ex_item = 180\<close> p
    by (simp add: item_ok_def item_overhead_def BaseQueueDataSize_def BaseQueueEventSize_def MaxInt64_def)
qed

lemma ex_read_eq: "q_TryRead (\<lambda>_. 7) 0 0 ex_stored = Some (Some ex_item, ex_read)"
  and ex_read_inv: "q_inv ex_read" "q_live 0 ex_read" "q_left 0 ex_read = []" "q_items ex_read = [ex_item]"
    "q_data ex_read = q_data ex_stored"
proof -
  obtain q' where q': "q_TryRead (\<lambda>_. 7) 0 0 ex_stored
      = Some (if q_left 0 ex_stored = [] then None else Some (hd (q_left 0 ex_stored)), q')"
    "consumed 0 (take 1 (q_left 0 ex_stored)) (tl (q_left 0 ex_stored)) ex_stored q'"
    by (rule q_TryRead_consumed [OF ex_stored_inv(1,2)])
  then have e: "q' = ex_read" by (simp add: ex_read_def)
  show "q_TryRead (\<lambda>_. 7) 0 0 ex_stored = Some (Some ex_item, ex_read)"
    using q'(1) e by (simp add: ex_stored_inv)
  show "q_inv ex_read" "q_live 0 ex_read" "q_left 0 ex_read = []" "q_items ex_read = [ex_item]"
    "q_data ex_read = q_data ex_stored"
    using q'(2) unfolding consumed_def e by (simp_all add: ex_stored_inv ex_stored_item same_cursor_def)
qed

lemma ex_group_eq: "q_AddConsumerGroup ''g'' ex_stored = (0, ex_group)"
proof -
  have "fst (q_AddConsumerGroup ''g'' ex_stored) = 0" by code_simp
  then show ?thesis by (simp add: ex_group_def prod_eq_iff)
qed

lemma ex_group_inv: "q_inv ex_group" "q_live 0 ex_group" "\<not> q_closed ex_group" "q_left 0 ex_group = [ex_item]"
  using q_AddConsumerGroup_spec(1,3) [OF ex_stored_inv(1) ex_group_eq] ex_stored_inv
  by (auto simp: undisturbed_def)

lemma ex_member_eq: "q_AddGroupConsumer ''c2'' 6 0 ex_group = (Some 1, ex_member)"
proof -
  have "fst (q_AddGroupConsumer ''c2'' 6 0 ex_group) = Some 1" by code_simp
  then show ?thesis by (simp add: ex_member_def prod_eq_iff)
qed

lemma ex_member_pre: "''c2'' \<notin> fst ` set (cm_consumers (q_consumers ex_group))" "0 < cm_gnext (q_consumers ex_group)"
  by code_simp+

lemma ex_member_inv: "q_inv ex_member" "q_live 0 ex_member" "q_live 1 ex_member" "\<not> q_closed ex_member"
  "q_left 0 ex_member = [ex_item]" "c_group (cm_cstore (q_consumers ex_member) 1) = Some 0"
  using q_AddGroupConsumer_spec [OF ex_group_inv(1) ex_member_pre ex_member_eq] ex_group_inv
  by (auto simp: undisturbed_def)

lemma ex_members_eq: "q_AddGroupConsumer ''c3'' 6 0 ex_member = (Some 2, ex_members)"
proof -
  have "fst (q_AddGroupConsumer ''c3'' 6 0 ex_member) = Some 2" by code_simp
  then show ?thesis by (simp add: ex_members_def prod_eq_iff)
qed

lemma ex_members_pre: "''c3'' \<notin> fst ` set (cm_consumers (q_consumers ex_member))" "0 < cm_gnext (q_consumers ex_member)"
  by code_simp+

lemma ex_members_inv: "q_inv ex_members" "q_live 0 ex_members" "q_live 1 ex_members" "q_live 2 ex_members"
  "\<not> q_closed ex_members" "q_left 0 ex_members = [ex_item]"
  "c_group (cm_cstore (q_consumers ex_members) 1) = Some 0" "c_group (cm_cstore (q_consumers ex_members) 2) = Some 0"
  using q_AddGroupConsumer_spec [OF ex_member_inv(1) ex_members_pre ex_members_eq] ex_member_inv
  by (auto simp: undisturbed_def)

text \<open>A run: the consumer joins, the item is stored and read.\<close>

lemma ex_steps:
  "q_step ex_new Quiet ex_joined" "q_step ex_joined (Put [ex_item]) ex_stored"
  "q_step ex_stored (Got 0 None [ex_item]) ex_read"
proof -
  have g: "c_group (cm_cstore (q_consumers ex_stored) 0) = None" by code_simp
  show "q_step ex_new Quiet ex_joined"
    by (rule q_step.join [OF _ ex_joined_eq]) (simp add: ex_new_inv)
  have "q_step ex_joined (added ex_joined ex_stored) ex_stored"
    by (rule q_step.try_enqueue [OF ex_payload ex_stored_eq])
  then show "q_step ex_joined (Put [ex_item]) ex_stored"
    by (simp add: added_def ex_joined_inv ex_stored_item)
  have k: "q_known 0 ex_stored" using ex_stored_inv(2) by (simp add: q_live_def q_reader_def q_known_def)
  show "q_step ex_stored (Got 0 None [ex_item]) ex_read"
    using q_step.read [OF k ex_read_eq] by (simp add: got_def g)
qed

lemma ex_run: "q_run ex_joined [Put [ex_item], Got 0 None [ex_item]] ex_read"
  using ex_steps by (auto intro: q_run.intros)

lemma ex_reachedI: "q_run ex_new evs q \<Longrightarrow> q_reached evs q"
  unfolding q_reached_def
  by (rule exI [of _ "''jobs''"], rule exI [of _ ex_config], rule exI [of _ 0], rule exI [of _ 0])
    (simp add: ex_new_def ex_config_def MaxQueueMemory_def)

lemma ex_reached:
  "q_reached [] ex_new" "q_reached [Quiet] ex_joined" "q_reached [Quiet, Put [ex_item]] ex_stored"
  "q_reached [Quiet, Put [ex_item], Got 0 None [ex_item]] ex_read"
  using ex_steps by (auto intro!: ex_reachedI intro: q_run.intros)

lemma ex_own: "c_group (cm_cstore (q_consumers ex_joined) 0) = None" "c_group (cm_cstore (q_consumers ex_stored) 0) = None"
  by code_simp+

lemma ex_known: "q_known 0 ex_stored" "q_known 0 ex_read"
  using ex_stored_inv(2) ex_read_inv(2) by (simp_all add: q_live_def q_reader_def q_known_def)

lemma ex_room: "\<not> q_at_limit ex_stored" "mt_totalMemory (q_memoryTracker ex_stored) = 112420"
  "mt_maxMemory (q_memoryTracker ex_stored) = 1048576" "length (cl_list (q_data ex_stored)) = 1"
proof -
  show "mt_totalMemory (q_memoryTracker ex_stored) = 112420"
    "mt_maxMemory (q_memoryTracker ex_stored) = 1048576" "length (cl_list (q_data ex_stored)) = 1"
    by code_simp+
  have "q_maxItems ex_stored = 3" by code_simp
  then show "\<not> q_at_limit ex_stored" by (simp add: q_at_limit_def ex_stored_item)
qed

end
