(* ===== verification/MQ_Metrics.thy ===== *)
theory MQ_Metrics
  imports MQ_Queue
begin

text \<open>
  The metrics of a queue (\<^verbatim>\<open>queue/metrics.go\<close>): counters, two ring buffers of the last 1000
  latencies, the averages and percentiles of a snapshot, and the text for Prometheus. The counters and
  the sum of an average are 64-bit; the index of the percentile is computed in floating point.
\<close>

section \<open>State and recording\<close>

record metrics =
  m_totalEnqueued :: int
  m_totalDequeued :: int
  m_totalExpired :: int
  m_enqueueErrors :: int
  m_memoryLimitHits :: int
  m_enqueueLatency :: "duration list"
  m_enqueueLatencyIdx :: nat
  m_enqueueLatencyCount :: nat
  m_dequeueLatency :: "duration list"
  m_dequeueLatencyIdx :: nat
  m_dequeueLatencyCount :: nat
  m_maxLatencySamples :: nat

definition NewMetrics :: metrics where
  "NewMetrics =
     \<lparr>m_totalEnqueued = 0, m_totalDequeued = 0, m_totalExpired = 0, m_enqueueErrors = 0,
      m_memoryLimitHits = 0,
      m_enqueueLatency = replicate 1000 0, m_enqueueLatencyIdx = 0, m_enqueueLatencyCount = 0,
      m_dequeueLatency = replicate 1000 0, m_dequeueLatencyIdx = 0, m_dequeueLatencyCount = 0,
      m_maxLatencySamples = 1000\<rparr>"

text \<open>The three statements that put a latency into a ring: the slice, its index and its count.\<close>

definition ring_put :: "nat \<Rightarrow> duration \<Rightarrow> duration list \<times> nat \<times> nat \<Rightarrow> duration list \<times> nat \<times> nat" where
  "ring_put maxSamples d ring =
     (let (buf, idx, cnt) = ring
      in (buf[idx := d], (idx + 1) mod maxSamples, if cnt < maxSamples then cnt + 1 else cnt))"

definition m_RecordEnqueue :: "duration \<Rightarrow> go_error option \<Rightarrow> metrics \<Rightarrow> metrics" where
  "m_RecordEnqueue d err m =
     (let m = m\<lparr>m_totalEnqueued := wrap64 (m_totalEnqueued m + 1)\<rparr>;
          m = (case err of
                 None \<Rightarrow> m
               | Some e \<Rightarrow>
                   let m = m\<lparr>m_enqueueErrors := wrap64 (m_enqueueErrors m + 1)\<rparr>
                   in if is_memory_limit_error e
                      then m\<lparr>m_memoryLimitHits := wrap64 (m_memoryLimitHits m + 1)\<rparr> else m);
          (buf, idx, cnt) = ring_put (m_maxLatencySamples m) d
            (m_enqueueLatency m, m_enqueueLatencyIdx m, m_enqueueLatencyCount m)
      in m\<lparr>m_enqueueLatency := buf, m_enqueueLatencyIdx := idx, m_enqueueLatencyCount := cnt\<rparr>)"

definition m_RecordDequeue :: "duration \<Rightarrow> metrics \<Rightarrow> metrics" where
  "m_RecordDequeue d m =
     (let m = m\<lparr>m_totalDequeued := wrap64 (m_totalDequeued m + 1)\<rparr>;
          (buf, idx, cnt) = ring_put (m_maxLatencySamples m) d
            (m_dequeueLatency m, m_dequeueLatencyIdx m, m_dequeueLatencyCount m)
      in m\<lparr>m_dequeueLatency := buf, m_dequeueLatencyIdx := idx, m_dequeueLatencyCount := cnt\<rparr>)"

definition m_RecordExpired :: "int \<Rightarrow> metrics \<Rightarrow> metrics" where
  "m_RecordExpired n m = m\<lparr>m_totalExpired := wrap64 (m_totalExpired m + n)\<rparr>"

definition m_Reset :: "metrics \<Rightarrow> metrics" where
  "m_Reset m =
     m\<lparr>m_totalEnqueued := 0, m_totalDequeued := 0, m_totalExpired := 0, m_enqueueErrors := 0,
       m_memoryLimitHits := 0, m_enqueueLatencyIdx := 0, m_enqueueLatencyCount := 0,
       m_dequeueLatencyIdx := 0, m_dequeueLatencyCount := 0\<rparr>"

section \<open>Averages and percentiles\<close>

text \<open>Go's integer division truncates towards zero.\<close>

definition div_trunc :: "int \<Rightarrow> int \<Rightarrow> int" where
  "div_trunc a b = sgn a * sgn b * (\<bar>a\<bar> div \<bar>b\<bar>)"

definition calculateAvg :: "duration list \<Rightarrow> duration" where
  "calculateAvg durations =
     (if durations = [] then 0
      else let total = foldl (\<lambda>total d. wrap64 (total + d)) 0 durations
           in div_trunc total (int (length durations)))"

text \<open>
  A product of binary64 numbers below \<open>2 ^ 63\<close>, in units of \<open>2 ^ -53\<close>: rounded to 53 bits, half to even.
\<close>

function extra_bits :: "nat \<Rightarrow> nat" where
  "extra_bits x = (if x < 9007199254740992 then 0 else Suc (extra_bits (x div 2)))"
  by pat_completeness auto
termination by (relation "measure (\<lambda>x. x)") auto

declare extra_bits.simps [simp del]

definition round53 :: "nat \<Rightarrow> nat" where
  "round53 x =
     (let u = 2 ^ extra_bits x;
          m = x div u;
          r = x mod u
      in (if 2 * r > u \<or> 2 * r = u \<and> odd m then m + 1 else m) * u)"

text \<open>\<^verbatim>\<open>int(float64(n) * 0.95)\<close>; the constant is the binary64 number nearest to 0.95.\<close>

definition p95_index :: "nat \<Rightarrow> nat" where
  "p95_index n = round53 (n * 8556839292003942) div 9007199254740992"

definition calculateP95 :: "duration list \<Rightarrow> duration" where
  "calculateP95 durations =
     (if durations = [] then 0
      else let sorted = sort durations;
               index = p95_index (length sorted);
               index = (if index \<ge> length sorted then length sorted - 1 else index)
           in sorted ! index)"

section \<open>Snapshots\<close>

text \<open>\<^verbatim>\<open>MetricsSnapshot\<close>.\<close>

record metrics_snapshot =
  ms_QueueName :: string
  ms_TotalItems :: int
  ms_MemoryUsage :: int
  ms_MemoryPercent :: float64
  ms_ConsumerCount :: nat
  ms_TotalEnqueued :: int
  ms_TotalDequeued :: int
  ms_TotalExpired :: int
  ms_EnqueueErrors :: int
  ms_MemoryLimitHits :: int
  ms_AvgEnqueueLatency :: duration
  ms_P95EnqueueLatency :: duration
  ms_AvgDequeueLatency :: duration
  ms_P95DequeueLatency :: duration
  ms_Timestamp :: time

text \<open>The queue is read after the metrics' lock is given back; \<open>q\<close> is the queue then.\<close>

definition m_GetSnapshot :: "metrics \<Rightarrow> string \<Rightarrow> time \<Rightarrow> queue \<Rightarrow> metrics_snapshot" where
  "m_GetSnapshot m name now q =
     (let enq = take (m_enqueueLatencyCount m) (m_enqueueLatency m);
          deq = take (m_dequeueLatencyCount m) (m_dequeueLatency m);
          stats = q_GetQueueStats q
      in \<lparr>ms_QueueName = name, ms_TotalItems = qs_TotalItems stats, ms_MemoryUsage = qs_MemoryUsage stats,
          ms_MemoryPercent = qs_MemoryPercent stats,
          ms_ConsumerCount = qs_ConsumerCount stats,
          ms_TotalEnqueued = m_totalEnqueued m, ms_TotalDequeued = m_totalDequeued m,
          ms_TotalExpired = m_totalExpired m, ms_EnqueueErrors = m_enqueueErrors m,
          ms_MemoryLimitHits = m_memoryLimitHits m,
          ms_AvgEnqueueLatency = (if length enq > 0 then calculateAvg enq else 0),
          ms_P95EnqueueLatency = (if length enq > 0 then calculateP95 enq else 0),
          ms_AvgDequeueLatency = (if length deq > 0 then calculateAvg deq else 0),
          ms_P95DequeueLatency = (if length deq > 0 then calculateP95 deq else 0),
          ms_Timestamp = now\<rparr>)"

section \<open>The Prometheus text format\<close>

definition formatPrometheusMetric :: "string \<Rightarrow> string \<Rightarrow> float64 \<Rightarrow> string" where
  "formatPrometheusMetric name queueName value =
     name @ ''{queue='' @ [CHR 0x22] @ queueName @ [CHR 0x22] @ ''} '' @ fmt_f 6 value @ [CHR 0x0A]"

definition m_GetPrometheusMetrics :: "metrics \<Rightarrow> string \<Rightarrow> time \<Rightarrow> queue \<Rightarrow> string" where
  "m_GetPrometheusMetrics m name now q =
     (let snapshot = m_GetSnapshot m name now q;
          line = (\<lambda>metric value. formatPrometheusMetric metric (ms_QueueName snapshot) value)
      in line ''mpmc_queue_depth'' (float_of_int (ms_TotalItems snapshot)) @
         line ''mpmc_queue_memory_bytes'' (float_of_int (ms_MemoryUsage snapshot)) @
         line ''mpmc_queue_memory_percent'' (ms_MemoryPercent snapshot) @
         line ''mpmc_queue_consumers'' (float_of_int (int (ms_ConsumerCount snapshot))) @
         line ''mpmc_queue_enqueued_total'' (float_of_int (ms_TotalEnqueued snapshot)) @
         line ''mpmc_queue_dequeued_total'' (float_of_int (ms_TotalDequeued snapshot)) @
         line ''mpmc_queue_expired_total'' (float_of_int (ms_TotalExpired snapshot)) @
         line ''mpmc_queue_enqueue_errors_total'' (float_of_int (ms_EnqueueErrors snapshot)) @
         line ''mpmc_queue_memory_limit_hits_total'' (float_of_int (ms_MemoryLimitHits snapshot)) @
         (if ms_AvgEnqueueLatency snapshot > 0
          then line ''mpmc_queue_enqueue_latency_avg_seconds'' (duration_Seconds (ms_AvgEnqueueLatency snapshot)) @
               line ''mpmc_queue_enqueue_latency_p95_seconds'' (duration_Seconds (ms_P95EnqueueLatency snapshot))
          else []) @
         (if ms_AvgDequeueLatency snapshot > 0
          then line ''mpmc_queue_dequeue_latency_avg_seconds'' (duration_Seconds (ms_AvgDequeueLatency snapshot)) @
               line ''mpmc_queue_dequeue_latency_p95_seconds'' (duration_Seconds (ms_P95DequeueLatency snapshot))
          else []))"

section \<open>The ring holds the last samples\<close>

text \<open>What a ring holds, oldest first.\<close>

definition ring_ok :: "nat \<Rightarrow> duration list \<times> nat \<times> nat \<Rightarrow> bool" where
  "ring_ok M ring \<longleftrightarrow> (let (buf, idx, cnt) = ring
     in length buf = M \<and> idx < M \<and> cnt \<le> M \<and> (cnt < M \<longrightarrow> idx = cnt))"

definition ring_content :: "nat \<Rightarrow> duration list \<times> nat \<times> nat \<Rightarrow> duration list" where
  "ring_content M ring = (let (buf, idx, cnt) = ring
     in if cnt < M then take cnt buf else drop idx buf @ take idx buf)"

lemma ring_put_spec:
  assumes "ring_ok M ring"
  shows "ring_ok M (ring_put M d ring)"
    and "ring_content M (ring_put M d ring) = keep_last M (ring_content M ring @ [d])"
proof -
  obtain buf idx cnt where r: "ring = (buf, idx, cnt)" by (cases ring) auto
  have R: "length buf = M" "idx < M" "cnt \<le> M" "cnt < M \<Longrightarrow> idx = cnt"
    using assms r by (simp_all add: ring_ok_def)
  show "ring_ok M (ring_put M d ring)" using R r by (auto simp: ring_ok_def ring_put_def mod_less)
  have upd: "take (Suc idx) (buf[idx := d]) = take idx buf @ [d]"
    "drop (Suc idx) (buf[idx := d]) = drop (Suc idx) buf"
    using R by (simp_all add: take_Suc_conv_app_nth drop_update_cancel)
  have hd: "drop idx buf = buf ! idx # drop (Suc idx) buf" using R by (simp add: Cons_nth_drop_Suc)
  show "ring_content M (ring_put M d ring) = keep_last M (ring_content M ring @ [d])"
  proof (cases "Suc idx = M")
    case True
    then show ?thesis
      using R r upd hd by (cases "cnt < M") (auto simp: ring_content_def ring_put_def keep_last_def)
  next
    case False
    then have "(idx + 1) mod M = Suc idx" using R by simp
    then show ?thesis
      using R r upd hd False by (cases "cnt < M") (auto simp: ring_content_def ring_put_def keep_last_def)
  qed
qed

lemma ring_fold:
  assumes "ring_ok M ring"
  shows "ring_ok M (fold (ring_put M) ds ring)
    \<and> ring_content M (fold (ring_put M) ds ring) = keep_last M (ring_content M ring @ ds)"
  using assms
proof (induction ds arbitrary: ring)
  case Nil
  then show ?case
    by (auto simp: ring_ok_def ring_content_def Let_def split: prod.splits)
next
  case (Cons d ds)
  note P = ring_put_spec [OF Cons.prems, of d]
  have "keep_last M (keep_last M (ring_content M ring @ [d]) @ ds) = keep_last M ((ring_content M ring @ [d]) @ ds)"
    by (rule keep_last_append)
  then show ?case using Cons.IH [OF P(1)] P(2) by simp
qed

text \<open>The samples a snapshot looks at are those the ring holds, in some order.\<close>

lemma ring_mset: "ring_ok M (buf, idx, cnt) \<Longrightarrow> mset (take cnt buf) = mset (ring_content M (buf, idx, cnt))"
proof -
  assume ok: "ring_ok M (buf, idx, cnt)"
  have "mset (drop idx buf @ take idx buf) = mset (take idx buf @ drop idx buf)"
    unfolding mset_append by (rule union_commute)
  also have "take idx buf @ drop idx buf = buf" by (rule append_take_drop_id)
  finally have m: "mset (drop idx buf @ take idx buf) = mset buf" .
  show ?thesis
  proof (cases "cnt < M")
    case False
    then have "take cnt buf = buf" using ok by (simp add: ring_ok_def)
    then show ?thesis unfolding ring_content_def Let_def split_conv if_not_P [OF False] m by (rule arg_cong)
  qed (simp add: ring_content_def)
qed

section \<open>The average and the percentile depend only on the samples\<close>

lemma wrap64_add_wrap [simp]: "wrap64 (wrap64 a + b) = wrap64 (a + b)"
  by (simp add: wrap64_sint)

lemma wrapped_sum: "foldl (\<lambda>total d. wrap64 (total + d)) (wrap64 a) ds = wrap64 (a + sum_list ds)"
  by (induction ds arbitrary: a) (simp_all add: add.assoc)

lemma calculateAvg_sum: "calculateAvg ds = (if ds = [] then 0 else div_trunc (wrap64 (sum_list ds)) (int (length ds)))"
  using wrapped_sum [of 0 ds] by (simp add: calculateAvg_def int64_simps)

lemma calculateAvg_mset: "mset xs = mset ys \<Longrightarrow> calculateAvg xs = calculateAvg ys"
  unfolding calculateAvg_sum by (metis mset_eq_length mset_zero_iff sum_mset_sum_list)

lemma calculateP95_mset: "mset xs = mset ys \<Longrightarrow> calculateP95 xs = calculateP95 ys"
  unfolding calculateP95_def by (metis mset_zero_iff sorted_list_of_multiset_mset)

section \<open>The index of the percentile\<close>

lemma extra_bits_le: "x < 9007199254740992 * 2 ^ k \<Longrightarrow> extra_bits x \<le> k"
proof (induction k arbitrary: x)
  case 0
  then show ?case by (simp add: extra_bits.simps [of x])
next
  case (Suc k)
  then have "x div 2 < 9007199254740992 * 2 ^ k" by simp
  then show ?case using Suc.IH by (subst extra_bits.simps) simp
qed

lemma round53_error:
  assumes "x < 9007199254740992 * 2 ^ 10"
  shows "x \<le> round53 x + 512" and "round53 x \<le> x + 512"
proof -
  let ?u = "2 ^ extra_bits x :: nat"
  have "?u \<le> 2 ^ 10" by (rule power_increasing) (use extra_bits_le [OF assms] in simp_all)
  then have u: "?u \<le> 1024" by simp
  have r: "x mod ?u < ?u" by simp
  have x: "x = x div ?u * ?u + x mod ?u" by (rule div_mult_mod_eq [symmetric])
  have s: "(x div ?u + 1) * ?u = x div ?u * ?u + ?u" by (simp add: algebra_simps)
  have "round53 x = x div ?u * ?u \<and> 2 * (x mod ?u) \<le> ?u
      \<or> round53 x = x div ?u * ?u + ?u \<and> 2 * (x mod ?u) \<ge> ?u"
    unfolding round53_def Let_def using s by auto
  then show "x \<le> round53 x + 512" "round53 x \<le> x + 512" using u r x by linarith+
qed

lemma p95_index_multiple: "m < 51 \<Longrightarrow> p95_index (20 * m) = 19 * m"
proof -
  have "list_all (\<lambda>m. p95_index (20 * m) = 19 * m) [0..<51]"
    by (simp add: upt_rec del: upt_Suc, simp add: p95_index_def round53_def extra_bits.simps)
  then show "m < 51 \<Longrightarrow> p95_index (20 * m) = 19 * m" by (simp add: list_all_iff)
qed

lemma p95_index_exact:
  assumes "n \<le> 1000"
  shows "p95_index n = 95 * n div 100"
proof (cases "n mod 20 = 0")
  case True
  then obtain m where m: "n = 20 * m" by auto
  then have "p95_index (20 * m) = 19 * m" using p95_index_multiple assms by simp
  then show ?thesis using m by simp
next
  case False
  let ?x = "n * 8556839292003942" and ?k = "95 * n div 100" and ?r = "95 * n mod 100"
  have k: "95 * n = 100 * ?k + ?r" by (metis mult_div_mod_eq)
  have r: "5 \<le> ?r" "?r \<le> 95"
  proof -
    have "?r = 5 * (19 * n mod 20)" using mult_mod_right [of 5 "19 * n" 20] by simp
    moreover have "19 * n mod 20 \<noteq> 0"
    proof
      assume "19 * n mod 20 = 0"
      then have "n mod 20 = 0" by presburger
      then show False using False by simp
    qed
    moreover have "19 * n mod 20 < 20" by simp
    ultimately show "5 \<le> ?r" "?r \<le> 95" by linarith+
  qed
  have "?x < 9007199254740992 * 2 ^ 10" using assms by simp
  note E = round53_error [OF this]
  have bounds: "9007199254740992 * k \<le> y \<and> y < 9007199254740992 * k + 9007199254740992"
    if "95 * n = 100 * k + r" "5 \<le> r" "r \<le> 95" "n * 8556839292003942 \<le> y + 512" "y \<le> n * 8556839292003942 + 512"
    for k r y :: nat
    using that assms by linarith
  have "9007199254740992 * ?k \<le> round53 ?x \<and> round53 ?x < 9007199254740992 * ?k + 9007199254740992"
    by (rule bounds [OF k r E])
  then show ?thesis
    unfolding p95_index_def by (intro div_nat_eqI) (simp_all add: mult.commute)
qed

section \<open>What Prometheus reads\<close>

text \<open>A counter up to \<open>2 ^ 53\<close> is printed exactly.\<close>

lemma prometheus_counter:
  assumes "0 \<le> n" "n \<le> 9007199254740992"
  shows "formatPrometheusMetric metric name (float_of_int n)
    = metric @ ''{queue='' @ [CHR 0x22] @ name @ [CHR 0x22] @ ''} '' @ show_int n @ ''.000000'' @ [CHR 0x0A]"
proof -
  have e: "(of_int n :: rat) = of_nat (nat n)" using assms(1) by simp
  have "fmt_f 6 (float_of_int n) = show_nat (nat n) @ ''.'' @ pad_zeros 6 (show_nat 0)"
    unfolding float_of_int_exact [OF assms] e by (rule fmt_f_nat)
  moreover have "pad_zeros 6 (show_nat 0) = ''000000''" by code_simp
  ultimately show ?thesis using assms(1) by (simp add: formatPrometheusMetric_def show_int_def)
qed

text \<open>The queue's name goes into the text as it is: a name can close the label and add a line of its own.\<close>

lemma prometheus_injected:
  "formatPrometheusMetric metric (a @ [CHR 0x22] @ ''} '' @ fmt_f 6 x @ [CHR 0x0A] @ metric' @ ''{queue='' @ [CHR 0x22] @ b) v
    = formatPrometheusMetric metric a x @ formatPrometheusMetric metric' b v"
  by (simp add: formatPrometheusMetric_def)

end
