(* ===== verification/MQ_Components.thy ===== *)
theory MQ_Components
  imports MQ_Example MQ_Metrics
begin

text \<open>
  Properties of the components below the queue, each stated over the component's own state: the
  payload estimate and the memory tracker, the chunked list, the readers' positions, the metrics
  and the error messages.
\<close>

section \<open>Payloads and memory\<close>

text \<open>The estimate of a payload always ends, also for cyclic values, and is a non-negative 64-bit
  number; the cache of type sizes it may extend stays sound.\<close>

theorem payload_estimate:
  assumes "payload_ok p" and "cache_sound c"
  shows "\<exists>s c'. estimatePayloadSize mx p c = (s, c') \<and> 0 \<le> s \<and> s \<le> MaxInt64 \<and> cache_sound c'"
  using estimatePayloadSize_sound [OF assms] by (metis prod.exhaust)

text \<open>A pointer to itself.\<close>

theorem payload_estimate_witness:
  "\<exists>s c'. estimatePayloadSize 1000 (PValue [(0, [VPointer (TPointer ''T'') (Some 0)])] (VPointer (TPointer ''T'') (Some 0)) CNil)
      Map.empty = (s, c') \<and> 0 \<le> s \<and> s \<le> MaxInt64"
proof -
  have "payload_ok (PValue [(0, [VPointer (TPointer ''T'') (Some 0)])] (VPointer (TPointer ''T'') (Some 0)) CNil)"
    by (simp add: heap_ok_def)
  then show ?thesis using payload_estimate [OF _ cache_sound_empty] by blast
qed

text \<open>Counting and discounting are inverse: removing an item, or a chunk, right after it was added
  gives the tracker back, as long as the sum is a 64-bit number.\<close>

theorem tracker_roundtrip:
  assumes "0 \<le> qd_size d" and "0 \<le> mt_totalMemory mt" and "mt_totalMemory mt + qd_size d + ChunkNodeSize \<le> MaxInt64"
  shows "mt_RemoveData d (mt_AddData d mt) = mt \<and> mt_RemoveChunk (mt_AddChunk mt) = mt"
proof
  have le: "mt_totalMemory mt + qd_size d \<le> MaxInt64" "mt_totalMemory mt + ChunkNodeSize \<le> MaxInt64"
    using assms ChunkNodeSize_pos by linarith+
  show "mt_RemoveData d (mt_AddData d mt) = mt" and "mt_RemoveChunk (mt_AddChunk mt) = mt"
    using le assms mt_AddData_exact [of d mt] mt_RemoveData_exact [of d "mt_AddData d mt"]
      mt_AddChunk_exact [of mt] mt_RemoveChunk_exact [of "mt_AddChunk mt"]
    by (auto intro!: memory_tracker.equality)
qed

theorem tracker_roundtrip_witness:
  "mt_RemoveData ex_item (mt_AddData ex_item (NewMemoryTracker 0)) = NewMemoryTracker 0
   \<and> mt_RemoveChunk (mt_AddChunk (NewMemoryTracker 0)) = NewMemoryTracker 0"
  by (rule tracker_roundtrip) (simp_all add: ex_item_ok ChunkNodeSize_def MaxInt64_def)

section \<open>The chunked list\<close>

text \<open>The chunked list is a FIFO sequence: a batch is appended in order, whatever chunks it needs,
  and the structure (distinct live chunks, linked in order, all but the last full, an exact counter)
  is kept; at most one chunk for each item is new.\<close>

theorem list_appends:
  assumes "cl_inv cl" and "cl_chained cl"
  shows "\<exists>cl'. cl_EnqueueBatch ds cl = (None, cl') \<and> cl_inv cl' \<and> cl_chained cl'
    \<and> cl_items cl' = cl_items cl @ ds \<and> cl_totalItems cl' = cl_totalItems cl + int (length ds)
    \<and> length (cl_list cl') \<le> length (cl_list cl) + length ds"
proof -
  obtain cl' where "cl_EnqueueBatch ds cl = (None, cl')" "cl_inv cl'" "cl_items cl' = cl_items cl @ ds"
    "cl_chained cl \<Longrightarrow> cl_chained cl'" "length (cl_list cl') \<le> length (cl_list cl) + length ds"
    by (rule cl_EnqueueBatch_spec [OF assms(1), of ds]) blast
  then show ?thesis using assms cl_invD(2) by auto
qed

theorem list_appends_witness:
  "\<exists>cl'. cl_EnqueueBatch [ex_item, ex_item] (q_data ex_stored) = (None, cl') \<and> cl_items cl' = [ex_item, ex_item, ex_item]"
  using list_appends [OF q_invD(1,2) [OF ex_stored_inv(1)], of "[ex_item, ex_item]"] ex_stored_item
  by (auto simp: q_items_def)

text \<open>Expiry of the list, when the two looks at the item it stops at agree: the items found expired in
  turn are removed, chunk by chunk, and their number returned; the structure is kept, emptied chunks
  go, and the memory count is again exactly what is left.\<close>

theorem list_expires:
  assumes "cl_inv cl" and "cl_chained cl" and "cl_accounted cl" and "looks_agree clk ttl 0 (cl_items cl)"
    and "cl_RemoveExpiredData clk ttl cl = (n, infos, cl')"
  shows "cl_items cl' = drop n (cl_items cl) \<and> n = expired_run clk ttl 0 (cl_items cl)
    \<and> cl_inv cl' \<and> cl_chained cl' \<and> mt_totalMemory (cl_memoryTracker cl') = cl_bytes cl'"
  using cl_RemoveExpiredData_agreed [OF assms(1,4,5)] assms(2,3) by (simp add: cl_accounted_def)

theorem list_expires_witness:
  "\<exists>infos cl'. cl_RemoveExpiredData (\<lambda>_. 100) 60 (q_data ex_stored) = (1, infos, cl') \<and> cl_items cl' = []"
proof -
  obtain n infos cl' where r: "cl_RemoveExpiredData (\<lambda>_. 100) 60 (q_data ex_stored) = (n, infos, cl')"
    by (metis prod.exhaust)
  have e: "qd_IsExpired 100 60 ex_item" by code_simp
  have "cl_items (q_data ex_stored) = [ex_item]" using ex_stored_item by (simp add: q_items_def)
  then show ?thesis
    using list_expires [OF q_invD(1-3) [OF ex_stored_inv(1)] looks_agree_steady r] e r by simp
qed

text \<open>A reader's position survives expiry: \<^verbatim>\<open>calculateExpiredCount\<close> is the number of removed items
  the reader had not read, and the moved position is one of the new list, with exactly the unread
  items that were not removed left.\<close>

theorem position_survives:
  assumes "cl_inv cl" and "looks_agree clk ttl 0 (cl_items cl)" and "cl_RemoveExpiredData clk ttl cl = (n, infos, cl')"
    and "pos_ok cl pos"
  shows "calculateExpiredCount (fst pos) (snd pos) infos = n - pos_rank cl pos
    \<and> pos_ok cl' (moved_position n (cl_GetFirstElement cl') infos (cl_chunk cl') pos)
    \<and> unread cl' (moved_position n (cl_GetFirstElement cl') infos (cl_chunk cl') pos)
        = drop (n - pos_rank cl pos) (unread cl pos)"
  using RemoveExpiredData_pos [OF assms] by blast

theorem position_survives_witness:
  "\<exists>n infos cl'. cl_RemoveExpiredData (\<lambda>_. 100) 60 (q_data ex_stored) = (n, infos, cl')
     \<and> calculateExpiredCount None 0 infos = n"
proof -
  obtain n infos cl' where r: "cl_RemoveExpiredData (\<lambda>_. 100) 60 (q_data ex_stored) = (n, infos, cl')"
    by (metis prod.exhaust)
  show ?thesis
    using position_survives [OF q_invD(1) [OF ex_stored_inv(1)] looks_agree_steady r, of 100 "(None, 0)"] r by auto
qed

section \<open>Metrics\<close>

text \<open>A sequence of recorded enqueues, and the ring of its latencies.\<close>

definition m_record_all :: "(duration \<times> go_error option) list \<Rightarrow> metrics \<Rightarrow> metrics" where
  "m_record_all rs m = fold (\<lambda>(d, err). m_RecordEnqueue d err) rs m"

definition m_enqueue_ring :: "metrics \<Rightarrow> duration list \<times> nat \<times> nat" where
  "m_enqueue_ring m = (m_enqueueLatency m, m_enqueueLatencyIdx m, m_enqueueLatencyCount m)"

lemma m_RecordEnqueue_ring:
  "m_enqueue_ring (m_RecordEnqueue d err m) = ring_put (m_maxLatencySamples m) d (m_enqueue_ring m)"
  "m_maxLatencySamples (m_RecordEnqueue d err m) = m_maxLatencySamples m"
  "m_dequeueLatency (m_RecordEnqueue d err m) = m_dequeueLatency m"
  by (auto simp: m_RecordEnqueue_def m_enqueue_ring_def Let_def split: option.split prod.splits)

lemma m_record_all_ring:
  "m_enqueue_ring (m_record_all rs m) = fold (ring_put (m_maxLatencySamples m)) (map fst rs) (m_enqueue_ring m)
   \<and> m_maxLatencySamples (m_record_all rs m) = m_maxLatencySamples m"
  by (induction rs arbitrary: m) (auto simp: m_record_all_def m_RecordEnqueue_ring)

text \<open>The latencies of a snapshot are those of the last 1000 enqueues: after any sequence of
  recordings the average and the 95th percentile are computed from exactly these samples, however
  the ring has turned.\<close>

theorem snapshot_of_last:
  "ms_AvgEnqueueLatency (m_GetSnapshot (m_record_all rs NewMetrics) name now q) = calculateAvg (keep_last 1000 (map fst rs))
   \<and> ms_P95EnqueueLatency (m_GetSnapshot (m_record_all rs NewMetrics) name now q) = calculateP95 (keep_last 1000 (map fst rs))"
proof -
  let ?m = "m_record_all rs NewMetrics"
  have new: "ring_ok 1000 (m_enqueue_ring NewMetrics)" "ring_content 1000 (m_enqueue_ring NewMetrics) = []"
    "m_maxLatencySamples NewMetrics = 1000"
    by (simp_all add: NewMetrics_def m_enqueue_ring_def ring_ok_def ring_content_def)
  note F = ring_fold [OF new(1), of "map fst rs"]
  have r: "m_enqueue_ring ?m = fold (ring_put 1000) (map fst rs) (m_enqueue_ring NewMetrics)"
    using m_record_all_ring [of rs NewMetrics] new(3) by simp
  let ?s = "take (m_enqueueLatencyCount ?m) (m_enqueueLatency ?m)"
  have "mset ?s = mset (keep_last 1000 (map fst rs))"
    using F ring_mset [of 1000 "m_enqueueLatency ?m" "m_enqueueLatencyIdx ?m" "m_enqueueLatencyCount ?m"] new(2)
    unfolding r [symmetric] by (simp add: m_enqueue_ring_def)
  then have "calculateAvg ?s = calculateAvg (keep_last 1000 (map fst rs))"
    "calculateP95 ?s = calculateP95 (keep_last 1000 (map fst rs))"
    by (rule calculateAvg_mset, rule calculateP95_mset)
  moreover have "calculateAvg [] = 0" "calculateP95 [] = 0" by (simp_all add: calculateAvg_def calculateP95_def)
  ultimately show ?thesis by (auto simp: m_GetSnapshot_def Let_def)
qed

text \<open>The percentile is exact although its index is computed in floating point: for up to 1000
  samples it is the sorted sample at position \<open>95 n div 100\<close>, so it is one of the samples and at
  least that many others are not above it.\<close>

theorem p95_exact:
  assumes "durations \<noteq> []" and "length durations \<le> 1000"
  shows "calculateP95 durations = sort durations ! (95 * length durations div 100)
    \<and> calculateP95 durations \<in> set durations
    \<and> 95 * length durations div 100 < length (filter (\<lambda>d. d \<le> calculateP95 durations) durations)"
proof -
  let ?n = "length durations" and ?s = "sort durations"
  let ?i = "95 * ?n div 100"
  have i: "?i < ?n" using assms(1) by (cases durations) auto
  then have v: "calculateP95 durations = ?s ! ?i"
    using assms by (simp add: calculateP95_def p95_index_exact Let_def)
  have "?s ! ?i \<in> set durations" using i by (metis length_sort nth_mem set_sort)
  moreover have "?i < length (filter (\<lambda>d. d \<le> ?s ! ?i) durations)"
  proof -
    have "\<forall>x \<in> set (take (Suc ?i) ?s). x \<le> ?s ! ?i"
      using i by (auto simp: in_set_conv_nth intro!: sorted_nth_mono)
    then have "filter (\<lambda>d. d \<le> ?s ! ?i) (take (Suc ?i) ?s) = take (Suc ?i) ?s" by (simp add: filter_id_conv)
    then have "length (filter (\<lambda>d. d \<le> ?s ! ?i) (take (Suc ?i) ?s)) = Suc ?i" using i by simp
    then have "Suc ?i \<le> length (filter (\<lambda>d. d \<le> ?s ! ?i) (take (Suc ?i) ?s @ drop (Suc ?i) ?s))"
      unfolding filter_append length_append by linarith
    then have "Suc ?i \<le> length (filter (\<lambda>d. d \<le> ?s ! ?i) ?s)" by (simp only: append_take_drop_id)
    moreover have "length (filter (\<lambda>d. d \<le> ?s ! ?i) ?s) = length (filter (\<lambda>d. d \<le> ?s ! ?i) durations)"
      by (metis mset_filter mset_sort size_mset)
    ultimately show ?thesis by simp
  qed
  ultimately show ?thesis unfolding v by blast
qed

theorem p95_exact_witness: "calculateP95 [5, 1, 3] = 5"
  using p95_exact [of "[5, 1, 3]"] by simp

text \<open>The average of latencies that are not negative lies between zero and the largest, as long as
  their sum is a 64-bit number.\<close>

lemma avg_bounds:
  assumes "\<forall>d \<in> set durations. 0 \<le> d \<and> d \<le> b" and "sum_list durations \<le> MaxInt64" and "durations \<noteq> []"
  shows "0 \<le> calculateAvg durations \<and> calculateAvg durations \<le> b"
proof -
  have s: "0 \<le> sum_list durations" "sum_list durations \<le> b * int (length durations)"
    using assms(1) by (induction durations) (auto simp: algebra_simps)
  have n: "0 < int (length durations)" using assms(3) by simp
  have "wrap64 (sum_list durations) = sum_list durations"
    using s(1) assms(2) by (intro wrap64_id) (simp add: int64_simps)
  then have "calculateAvg durations = sum_list durations div int (length durations)"
    using s(1) n by (auto simp: calculateAvg_sum div_trunc_def sgn_if)
  moreover have "sum_list durations div int (length durations) \<le> b"
    using zdiv_mono1 [OF s(2) n] n by simp
  ultimately show ?thesis using s(1) n by (simp add: pos_imp_zdiv_nonneg_iff)
qed

section \<open>Errors\<close>

text \<open>A text is split in one way at a comma when no comma is in the parts before it; numbers have none.\<close>

lemma comma_split:
  assumes "a @ CHR '','' # x = b @ CHR '','' # y" "CHR '','' \<notin> set a" "CHR '','' \<notin> set b"
  shows "a = b \<and> x = y"
  using assms
proof (induction a arbitrary: b)
  case Nil
  then show ?case by (cases b) auto
next
  case (Cons c a)
  then show ?case by (cases b) auto
qed

lemma show_int_no_comma: "CHR '','' \<notin> set (show_int i)"
  using show_nat_digits [of "CHR '',''"] by (auto simp: show_int_def)

text \<open>The message of a memory error tells its three numbers: two such errors with the same text are
  the same error.\<close>

lemma memory_error_text:
  "Error (MemoryLimitError a b c) = Error (MemoryLimitError a' b' c') \<longleftrightarrow> a = a' \<and> b = b' \<and> c = c'"
proof
  assume "Error (MemoryLimitError a b c) = Error (MemoryLimitError a' b' c')"
  then have "show_int a @ '', max='' @ show_int b @ '', needed='' @ show_int c
      = show_int a' @ '', max='' @ show_int b' @ '', needed='' @ show_int c'" by simp
  then have 1: "show_int a = show_int a' \<and>
      show_int b @ '', needed='' @ show_int c = show_int b' @ '', needed='' @ show_int c'"
    using comma_split [of "show_int a" _ "show_int a'"] show_int_no_comma by auto
  then have "show_int b = show_int b' \<and> show_int c = show_int c'"
    using comma_split [of "show_int b" _ "show_int b'"] show_int_no_comma by auto
  then show "a = a' \<and> b = b' \<and> c = c'" using 1 by (simp add: show_int_inject)
qed simp

end
