(* ===== verification/MQ_Race.thy ===== *)
theory MQ_Race
  imports MQ_Example
begin

text \<open>
  Reads that interfere. \<^verbatim>\<open>TryRead\<close> takes and leaves the locks several times, and looks at a chunk's
  size, head and successor without any; between two such accesses other goroutines go on. Here a
  \<^verbatim>\<open>TryRead\<close> is a sequence of atomic steps with a program counter. Run alone, the steps are the
  \<^verbatim>\<open>TryRead\<close> of \<^verbatim>\<open>MQ_Group\<close> and \<^verbatim>\<open>MQ_Consumer\<close>; interleaved, they show what the double checks of
  the position achieve, and what they do not.
\<close>

section \<open>The atomic steps of a read\<close>

text \<open>
  Where a goroutine is in the code: each constructor is the next access to shared state, with the
  local variables the goroutine holds. \<open>Finished\<close> has the result.
\<close>

datatype pc =
    Idle
  | CheckInit
  | GetFirst
  | SetFirst elem
  | Look
  | CheckPooled elem nat
  | Forget elem
  | GetSize elem nat
  | GetData elem nat
  | Commit elem nat queue_data
  | LoadHead elem nat
  | SkipTo elem nat nat
  | LoadNext elem nat
  | Advance elem nat "elem option"
  | Finished "queue_data option"

text \<open>A step of \<^verbatim>\<open>ConsumerGroup.TryRead\<close>; several goroutines run it on one group.\<close>

fun cg_micro :: "chunked_list \<Rightarrow> pc \<Rightarrow> consumer_group \<Rightarrow> pc \<times> consumer_group" where
  "cg_micro cl CheckInit cg = (if cg_chunkElement cg = None then GetFirst else Look, cg)"
| "cg_micro cl GetFirst cg =
     (case cl_GetFirstElement cl of None \<Rightarrow> Finished None | Some firstElement \<Rightarrow> SetFirst firstElement, cg)"
| "cg_micro cl (SetFirst firstElement) cg =
     (Look, if cg_chunkElement cg = None
            then cg\<lparr>cg_chunkElement := Some firstElement, cg_indexInChunk := 0\<rparr> else cg)"
| "cg_micro cl Look cg =
     (case cg_chunkElement cg of None \<Rightarrow> Finished None | Some e \<Rightarrow> CheckPooled e (cg_indexInChunk cg), cg)"
| "cg_micro cl (CheckPooled e i) cg = (if cn_pooled (cl_chunk cl e) then Forget e else GetSize e i, cg)"
| "cg_micro cl (Forget e) cg =
     (Finished None, if cg_chunkElement cg = Some e
                     then cg\<lparr>cg_chunkElement := None, cg_indexInChunk := 0\<rparr> else cg)"
| "cg_micro cl (GetSize e i) cg = (if i < cn_size (cl_chunk cl e) then GetData e i else LoadNext e i, cg)"
| "cg_micro cl (GetData e i) cg =
     (case cn_Get i (cl_chunk cl e) of Some d \<Rightarrow> Commit e i d | None \<Rightarrow> LoadHead e i, cg)"
| "cg_micro cl (Commit e i d) cg =
     (if cg_chunkElement cg = Some e \<and> cg_indexInChunk cg = i
      then (Finished (Some d), cg\<lparr>cg_indexInChunk := cg_indexInChunk cg + 1\<rparr>) else (Look, cg))"
| "cg_micro cl (LoadHead e i) cg =
     (if i < cn_head (cl_chunk cl e) then SkipTo e i (i + 1) else Finished None, cg)"
| "cg_micro cl (SkipTo e i j) cg =
     (Look, if cg_chunkElement cg = Some e \<and> cg_indexInChunk cg = i
            then cg\<lparr>cg_indexInChunk := j\<rparr> else cg)"
| "cg_micro cl (LoadNext e i) cg = (Advance e i (cn_NextElement (cl_chunk cl e)), cg)"
| "cg_micro cl (Advance e i nextElement) cg =
     (if nextElement = None then Finished None else Look,
      if cg_chunkElement cg = Some e \<and> cg_indexInChunk cg = i \<and> nextElement \<noteq> None
      then cg\<lparr>cg_chunkElement := nextElement, cg_indexInChunk := 0\<rparr> else cg)"
| "cg_micro cl Idle cg = (Idle, cg)"
| "cg_micro cl (Finished r) cg = (Finished r, cg)"

text \<open>A step of \<^verbatim>\<open>Consumer.TryRead\<close> of a consumer without group; it has no double check at \<open>SetFirst\<close>.\<close>

fun c_micro :: "time \<Rightarrow> time \<Rightarrow> chunked_list \<Rightarrow> pc \<Rightarrow> consumer \<Rightarrow> pc \<times> consumer" where
  "c_micro now1 now2 cl CheckInit c = (if c_chunkElement c = None then GetFirst else Look, c)"
| "c_micro now1 now2 cl GetFirst c =
     (case cl_GetFirstElement cl of None \<Rightarrow> Finished None | Some firstElement \<Rightarrow> SetFirst firstElement, c)"
| "c_micro now1 now2 cl (SetFirst firstElement) c =
     (Look, c\<lparr>c_chunkElement := Some firstElement, c_indexInChunk := 0\<rparr>)"
| "c_micro now1 now2 cl Look c =
     (case c_chunkElement c of None \<Rightarrow> Finished None | Some e \<Rightarrow> CheckPooled e (c_indexInChunk c), c)"
| "c_micro now1 now2 cl (CheckPooled e i) c = (if cn_pooled (cl_chunk cl e) then Forget e else GetSize e i, c)"
| "c_micro now1 now2 cl (Forget e) c =
     (Finished None, if c_chunkElement c = Some e then c\<lparr>c_chunkElement := None, c_indexInChunk := 0\<rparr> else c)"
| "c_micro now1 now2 cl (GetSize e i) c =
     (if i < cn_size (cl_chunk cl e) then GetData e i else LoadNext e i, c)"
| "c_micro now1 now2 cl (GetData e i) c =
     (case cn_Get i (cl_chunk cl e) of Some d \<Rightarrow> Commit e i d | None \<Rightarrow> LoadHead e i, c)"
| "c_micro now1 now2 cl (Commit e i d) c =
     (if c_chunkElement c = Some e \<and> c_indexInChunk c = i
      then (Finished (Some d), c_record now1 now2 d (c\<lparr>c_indexInChunk := c_indexInChunk c + 1\<rparr>)) else (Look, c))"
| "c_micro now1 now2 cl (LoadHead e i) c =
     (if i < cn_head (cl_chunk cl e) then SkipTo e i (cn_head (cl_chunk cl e)) else Finished None, c)"
| "c_micro now1 now2 cl (SkipTo e i j) c =
     (Look, if c_chunkElement c = Some e \<and> c_indexInChunk c = i then c\<lparr>c_indexInChunk := j\<rparr> else c)"
| "c_micro now1 now2 cl (LoadNext e i) c = (Advance e i (cn_NextElement (cl_chunk cl e)), c)"
| "c_micro now1 now2 cl (Advance e i nextElement) c =
     (if nextElement = None then Finished None else Look,
      if c_chunkElement c = Some e \<and> c_indexInChunk c = i \<and> nextElement \<noteq> None
      then c\<lparr>c_chunkElement := nextElement, c_indexInChunk := 0\<rparr> else c)"
| "c_micro now1 now2 cl Idle c = (Idle, c)"
| "c_micro now1 now2 cl (Finished r) c = (Finished r, c)"

section \<open>Run alone, the steps are the operation\<close>

text \<open>What \<open>n\<close> steps without interference do.\<close>

fun alone :: "(pc \<Rightarrow> 's \<Rightarrow> pc \<times> 's) \<Rightarrow> nat \<Rightarrow> pc \<times> 's \<Rightarrow> pc \<times> 's" where
  "alone f 0 ps = ps"
| "alone f (Suc n) ps = alone f n (f (fst ps) (snd ps))"

lemma alone_add: "alone f (m + n) ps = alone f n (alone f m ps)"
  by (induction m arbitrary: ps) simp_all

definition round_pc :: "(queue_data option, 's) round \<Rightarrow> pc \<times> 's" where
  "round_pc r = (case r of Return d s \<Rightarrow> (Finished d, s) | Continue s \<Rightarrow> (Look, s))"

lemma alone_run_rounds:
  assumes "run_rounds step s = Some rs" and "\<And>s. \<exists>n. alone f n (Look, s) = round_pc (step s)"
  shows "\<exists>n. alone f n (Look, s) = (Finished (fst rs), snd rs)"
  using assms
proof (induction step s rs rule: run_rounds.raw_induct [rotated 1, consumes 1, case_names step])
  case (step run step s rs)
  obtain n where n: "alone f n (Look, s) = round_pc (step s)" using step.prems by blast
  show ?case
  proof (cases "step s")
    case (Return d t)
    then show ?thesis using step.hyps n by (auto simp: round_pc_def)
  next
    case (Continue t)
    then have "run step t = Some rs" using step.hyps by simp
    then obtain m where "alone f m (Look, t) = (Finished (fst rs), snd rs)"
      using step.IH step.prems by blast
    then have "alone f (n + m) (Look, s) = (Finished (fst rs), snd rs)"
      using n Continue by (simp add: alone_add round_pc_def)
    then show ?thesis by blast
  qed
qed

lemma numeral_alone [simp]: "alone f (numeral k) ps = alone f (pred_numeral k) (f (fst ps) (snd ps))"
  by (simp add: numeral_eq_Suc)

text \<open>A round of the loop is at most five steps from its first look at the position.\<close>

lemma cg_round_alone: "\<exists>n. alone (cg_micro cl) n (Look, cg) = round_pc (cg_round cl cg)"
proof (cases "cg_chunkElement cg")
  case None
  then show ?thesis by (intro exI [of _ 1]) (simp add: cg_round_def round_pc_def)
next
  case (Some e)
  let ?c = "cl_chunk cl e" and ?i = "cg_indexInChunk cg"
  consider "cn_pooled ?c" | "\<not> cn_pooled ?c" "cn_size ?c \<le> ?i"
    | d where "\<not> cn_pooled ?c" "?i < cn_size ?c" "cn_Get ?i ?c = Some d"
    | "\<not> cn_pooled ?c" "?i < cn_size ?c" "cn_Get ?i ?c = None" "?i < cn_head ?c"
    | "\<not> cn_pooled ?c" "?i < cn_size ?c" "cn_Get ?i ?c = None" "\<not> ?i < cn_head ?c"
    by (metis not_less option.exhaust)
  then show ?thesis
  proof cases
    case 1
    then show ?thesis using Some by (intro exI [of _ 3]) (simp add: cg_round_def round_pc_def)
  next
    case 5
    then show ?thesis using Some by (intro exI [of _ 5]) (simp add: cg_round_def round_pc_def)
  next
    case 4
    then show ?thesis using Some by (intro exI [of _ 6]) (simp add: cg_round_def round_pc_def)
  qed (use Some in \<open>intro exI [of _ 5]; auto simp: cg_round_def round_pc_def Let_def\<close>)+
qed

lemma c_round_alone: "\<exists>n. alone (c_micro now1 now2 cl) n (Look, c) = round_pc (c_round now1 now2 cl c)"
proof (cases "c_chunkElement c")
  case None
  then show ?thesis by (intro exI [of _ 1]) (simp add: c_round_def round_pc_def)
next
  case (Some e)
  let ?c = "cl_chunk cl e" and ?i = "c_indexInChunk c"
  consider "cn_pooled ?c" | "\<not> cn_pooled ?c" "cn_size ?c \<le> ?i"
    | d where "\<not> cn_pooled ?c" "?i < cn_size ?c" "cn_Get ?i ?c = Some d"
    | "\<not> cn_pooled ?c" "?i < cn_size ?c" "cn_Get ?i ?c = None" "?i < cn_head ?c"
    | "\<not> cn_pooled ?c" "?i < cn_size ?c" "cn_Get ?i ?c = None" "\<not> ?i < cn_head ?c"
    by (metis not_less option.exhaust)
  then show ?thesis
  proof cases
    case 1
    then show ?thesis using Some by (intro exI [of _ 3]) (simp add: c_round_def round_pc_def)
  next
    case 5
    then show ?thesis using Some by (intro exI [of _ 5]) (simp add: c_round_def round_pc_def)
  next
    case 4
    then show ?thesis using Some by (intro exI [of _ 6]) (simp add: c_round_def round_pc_def)
  qed (use Some in \<open>intro exI [of _ 5]; auto simp: c_round_def round_pc_def Let_def\<close>)+
qed

lemma cg_TryRead_alone:
  assumes "cg_TryRead False cl cg = Some (r, cg')" and "\<not> cg_closed cg"
  shows "\<exists>n. alone (cg_micro cl) n (CheckInit, cg) = (Finished r, cg')"
proof -
  have run: "\<exists>n. alone (cg_micro cl) n (Look, cg1) = (Finished r, cg')"
    if "run_rounds (cg_round cl) cg1 = Some (r, cg')" for cg1
    using alone_run_rounds [OF that, of "cg_micro cl"] cg_round_alone by simp
  show ?thesis
  proof (cases "cg_chunkElement cg")
    case None
    show ?thesis
    proof (cases "cl_GetFirstElement cl")
      case N: None
      then show ?thesis using assms None by (intro exI [of _ 2]) (simp add: cg_TryRead_def)
    next
      case (Some f)
      then obtain n where "alone (cg_micro cl) n (Look, cg\<lparr>cg_chunkElement := Some f, cg_indexInChunk := 0\<rparr>)
          = (Finished r, cg')"
        using run assms None by (auto simp: cg_TryRead_def Let_def)
      then show ?thesis
        using None Some by (intro exI [of _ "Suc (Suc (Suc n))"]) simp
    qed
  next
    case (Some e)
    then obtain n where "alone (cg_micro cl) n (Look, cg) = (Finished r, cg')"
      using run assms by (auto simp: cg_TryRead_def)
    then show ?thesis using Some by (intro exI [of _ "Suc n"]) simp
  qed
qed

lemma c_TryReadOwn_alone:
  assumes "c_TryReadOwn now1 now2 cl c = Some (r, c')"
  shows "\<exists>n. alone (c_micro now1 now2 cl) n (CheckInit, c) = (Finished r, c')"
proof -
  have run: "\<exists>n. alone (c_micro now1 now2 cl) n (Look, c1) = (Finished r, c')"
    if "run_rounds (c_round now1 now2 cl) c1 = Some (r, c')" for c1
    using alone_run_rounds [OF that, of "c_micro now1 now2 cl"] c_round_alone by simp
  show ?thesis
  proof (cases "c_chunkElement c")
    case None
    show ?thesis
    proof (cases "cl_GetFirstElement cl")
      case N: None
      then show ?thesis using assms None by (intro exI [of _ 2]) (simp add: c_TryReadOwn_def)
    next
      case (Some f)
      then obtain n where "alone (c_micro now1 now2 cl) n (Look, c\<lparr>c_chunkElement := Some f, c_indexInChunk := 0\<rparr>)
          = (Finished r, c')"
        using run assms None by (auto simp: c_TryReadOwn_def Let_def)
      then show ?thesis
        using None Some by (intro exI [of _ "Suc (Suc (Suc n))"]) simp
    qed
  next
    case (Some e)
    then obtain n where "alone (c_micro now1 now2 cl) n (Look, c) = (Finished r, c')"
      using run assms by (auto simp: c_TryReadOwn_def)
    then show ?thesis using Some by (intro exI [of _ "Suc n"]) simp
  qed
qed

end
