(* ===== verification/MQ_GroupRace.thy ===== *)
theory MQ_GroupRace
  imports MQ_Race
begin

text \<open>
  Any number of goroutines read through the members of one group while items are put and expire.
  The state is the list, the group, where each goroutine is, and what was observed: the items put
  and the items given, in order, and for each goroutine whether the group had nothing left at some
  moment of its current call. The critical sections of \<^verbatim>\<open>Queue.mutex\<close> (putting items, an expiration
  pass) are single steps.
\<close>

section \<open>The machine\<close>

record race =
  ra_list :: chunked_list
  ra_group :: consumer_group
  ra_pcs :: "nat \<Rightarrow> pc"
  ra_put :: "queue_data list"
  ra_given :: "queue_data list"
  ra_dry :: "nat \<Rightarrow> bool"

datatype act = Begin nat | Go nat | Store queue_data | StoreBatch "queue_data list" | Expire clock duration

definition ra_left :: "race \<Rightarrow> queue_data list" where
  "ra_left r = unread (ra_list r) (cg_getPosition (ra_group r))"

definition is_ready :: "pc \<Rightarrow> bool" where
  "is_ready pc = (case pc of Idle \<Rightarrow> True | Finished _ \<Rightarrow> True | _ \<Rightarrow> False)"

text \<open>The item a step gives: only \<open>Commit\<close> finishes with one.\<close>

definition given_by :: "pc \<Rightarrow> pc \<Rightarrow> queue_data list" where
  "given_by pc pc' = (case (pc, pc') of (Commit _ _ _, Finished (Some d)) \<Rightarrow> [d] | _ \<Rightarrow> [])"

fun race_move :: "act \<Rightarrow> race \<Rightarrow> race" where
  "race_move (Begin t) r =
     (if is_ready (ra_pcs r t)
      then r\<lparr>ra_pcs := (ra_pcs r)(t := if cg_closed (ra_group r) then Finished None else CheckInit),
             ra_dry := (ra_dry r)(t := False)\<rparr>
      else r)"
| "race_move (Go t) r =
     (let (pc, cg) = cg_micro (ra_list r) (ra_pcs r t) (ra_group r)
      in r\<lparr>ra_group := cg, ra_pcs := (ra_pcs r)(t := pc),
           ra_given := ra_given r @ given_by (ra_pcs r t) pc\<rparr>)"
| "race_move (Store d) r =
     (let (err, cl) = cl_Enqueue d (ra_list r)
      in r\<lparr>ra_list := cl, ra_put := ra_put r @ (if err = None then [d] else [])\<rparr>)"
| "race_move (StoreBatch ds) r =
     (let (err, cl) = cl_EnqueueBatch ds (ra_list r)
      in r\<lparr>ra_list := cl, ra_put := ra_put r @ (if err = None then ds else [])\<rparr>)"
| "race_move (Expire clk ttl) r =
     (let (n, removalInfo, cl) = cl_RemoveExpiredData clk ttl (ra_list r)
      in case (if n > 0
               then notify_group (cl_GetFirstElement cl) removalInfo (cl_chunk cl)
                      (fold (\<lambda>info total. total + ri_RemovedCount info) removalInfo 0) (ra_group r)
               else Some (ra_group r)) of
           None \<Rightarrow> r
         | Some cg \<Rightarrow> r\<lparr>ra_list := cl, ra_group := cg\<rparr>)"

text \<open>After every step it is observed whether anything is left.\<close>

definition race_step :: "act \<Rightarrow> race \<Rightarrow> race" where
  "race_step a r =
     (let r = race_move a r in r\<lparr>ra_dry := (\<lambda>t. ra_dry r t \<or> ra_left r = [])\<rparr>)"

definition race_run :: "act list \<Rightarrow> race \<Rightarrow> race" where
  "race_run as r = fold race_step as r"

definition race_start :: "chunked_list \<Rightarrow> consumer_group \<Rightarrow> race" where
  "race_start cl cg = \<lparr>ra_list = cl, ra_group = cg, ra_pcs = (\<lambda>_. Idle), ra_put = [], ra_given = [],
     ra_dry = (\<lambda>_. False)\<rparr>"

text \<open>
  A step is calm when nothing is stored while a goroutine is between its looks at the size of a chunk
  and at the chunk's successor.
\<close>

definition no_expiry :: "act \<Rightarrow> bool" where
  "no_expiry a = (case a of Expire _ _ \<Rightarrow> False | _ \<Rightarrow> True)"

definition stores :: "act \<Rightarrow> bool" where
  "stores a = (case a of Store _ \<Rightarrow> True | StoreBatch _ \<Rightarrow> True | _ \<Rightarrow> False)"

definition between_looks :: "pc \<Rightarrow> bool" where
  "between_looks pc = (case pc of LoadNext _ _ \<Rightarrow> True | _ \<Rightarrow> False)"

definition calm_step :: "act \<Rightarrow> race \<Rightarrow> bool" where
  "calm_step a r \<longleftrightarrow> (stores a \<longrightarrow> (\<forall>t. \<not> between_looks (ra_pcs r t)))"

fun calm_run :: "act list \<Rightarrow> race \<Rightarrow> bool" where
  "calm_run [] r = True"
| "calm_run (a # as) r = (calm_step a r \<and> calm_run as (race_step a r))"

section \<open>What each goroutine knows\<close>

text \<open>
  The group has got at least as far as a place the goroutine saw: what is left is a suffix of what
  was left there.
\<close>

definition passed :: "chunked_list \<Rightarrow> position \<Rightarrow> elem \<Rightarrow> nat \<Rightarrow> bool" where
  "passed cl pos e i \<longleftrightarrow> pos_ok cl (Some e, i) \<and> suffix (unread cl pos) (unread cl (Some e, i))"

text \<open>Once a goroutine is in the loop, the group has a position.\<close>

definition settled :: "pc \<Rightarrow> bool" where
  "settled pc = (case pc of Idle \<Rightarrow> False | CheckInit \<Rightarrow> False | GetFirst \<Rightarrow> False | SetFirst _ \<Rightarrow> False
     | Finished _ \<Rightarrow> False | _ \<Rightarrow> True)"

fun pc_ok :: "bool \<Rightarrow> chunked_list \<Rightarrow> position \<Rightarrow> bool \<Rightarrow> pc \<Rightarrow> bool" where
  "pc_ok calm cl pos dry (SetFirst f) = (cl_GetFirstElement cl = Some f)"
| "pc_ok calm cl pos dry (CheckPooled e i) = passed cl pos e i"
| "pc_ok calm cl pos dry (Forget e) = False"
| "pc_ok calm cl pos dry (GetSize e i) = passed cl pos e i"
| "pc_ok calm cl pos dry (GetData e i) = (pos_ok cl (Some e, i) \<and> i < cn_size (cl_chunk cl e))"
| "pc_ok calm cl pos dry (Commit e i d) = (pos_ok cl (Some e, i) \<and> cn_Get i (cl_chunk cl e) = Some d)"
| "pc_ok calm cl pos dry (LoadHead e i) = (pos_ok cl (Some e, i) \<and> i < cn_head (cl_chunk cl e))"
| "pc_ok calm cl pos dry (SkipTo e i j) = (pos_ok cl (Some e, i) \<and> i < j \<and> j \<le> cn_head (cl_chunk cl e))"
| "pc_ok calm cl pos dry (LoadNext e i) =
     (pos_ok cl (Some e, i) \<and> (cn_NextElement (cl_chunk cl e) = None \<longrightarrow> dry)
      \<and> (calm \<longrightarrow> cn_size (cl_chunk cl e) \<le> i))"
| "pc_ok calm cl pos dry (Advance e i None) = dry"
| "pc_ok calm cl pos dry (Advance e i (Some x)) =
     (pos_ok cl (Some e, i) \<and> cn_NextElement (cl_chunk cl e) = Some x
      \<and> (calm \<longrightarrow> cn_size (cl_chunk cl e) \<le> i))"
| "pc_ok calm cl pos dry (Finished None) = dry"
| "pc_ok calm cl pos dry pc = True"

definition race_inv :: "bool \<Rightarrow> race \<Rightarrow> bool" where
  "race_inv calm r \<longleftrightarrow> cl_inv (ra_list r) \<and> cl_chained (ra_list r)
     \<and> pos_ok (ra_list r) (cg_getPosition (ra_group r)) \<and> \<not> cg_closed (ra_group r)
     \<and> (\<forall>t. pc_ok calm (ra_list r) (cg_getPosition (ra_group r)) (ra_dry r t) (ra_pcs r t)
           \<and> (settled (ra_pcs r t) \<longrightarrow> fst (cg_getPosition (ra_group r)) \<noteq> None))"

text \<open>The successor of a full chunk, whether or not its reader was at its end.\<close>

lemma unread_successor:
  assumes inv: "cl_inv cl" and ch: "cl_chained cl" and ok: "pos_ok cl (Some e, i)"
    and x: "cn_NextElement (cl_chunk cl e) = Some x"
  shows "pos_ok cl (Some x, 0)" and "suffix (unread cl (Some x, 0)) (unread cl (Some e, i))"
    and "cn_size (cl_chunk cl e) = 1000"
    and "unread cl (Some e, i) = drop (i - cn_head (cl_chunk cl e)) (cl_live cl e) @ unread cl (Some x, 0)"
proof -
  obtain pre post where s: "cl_list cl = pre @ e # post" and i: "i \<le> cn_size (cl_chunk cl e)"
    using ok by (auto simp: pos_ok_def dest: split_list)
  obtain post' where p: "post = x # post'"
    using ch s x linked_last [of "cl_chunk cl" pre e] linked_full [of "cl_chunk cl" pre e]
    by (cases post) (auto simp: cl_chained_def)
  have s': "cl_list cl = (pre @ [e]) @ x # post'" using s p by simp
  show "pos_ok cl (Some x, 0)" using s' by (simp add: pos_ok_def)
  show u: "unread cl (Some e, i) = drop (i - cn_head (cl_chunk cl e)) (cl_live cl e) @ unread cl (Some x, 0)"
    using unread_split [OF inv s i] unread_split [OF inv s', of 0] p by simp
  show "suffix (unread cl (Some x, 0)) (unread cl (Some e, i))" unfolding u by (simp add: suffixI)
  have "cn_IsFull (cl_chunk cl e)"
    using ch s p linked_full [of "cl_chunk cl" pre e x post'] by (simp add: cl_chained_def)
  then show "cn_size (cl_chunk cl e) = 1000"
    using cn_inv_le [OF cl_invD(4) [OF inv, of e]] s by (simp add: cn_IsFull_def)
qed

lemma unread_at_end:
  assumes "cl_inv cl" "cl_chained cl" "pos_ok cl (Some e, i)" "cn_size (cl_chunk cl e) \<le> i"
  shows "cn_NextElement (cl_chunk cl e) = None \<longleftrightarrow> unread cl (Some e, i) = []"
proof (cases "cn_NextElement (cl_chunk cl e)")
  case None
  then show ?thesis using unread_next(1) [OF assms] by simp
next
  case (Some x)
  have x: "x \<in> set (cl_list cl)" using unread_next(4) [OF assms Some] by auto
  then obtain pre post where s: "cl_list cl = pre @ x # post" by (auto dest: split_list)
  have "unread cl (Some x, 0) \<noteq> []"
    using unread_split [OF assms(1) s, of 0] cl_invD(7) [OF assms(1) x] by simp
  then show ?thesis using Some unread_next(2) [OF assms Some] by simp
qed

section \<open>One step\<close>

text \<open>
  What a step of a goroutine does, when what it knows is true: the group moves on or stays, what was
  given was the first item left, and unless a chunk is skipped nothing else is lost.
\<close>

definition moved :: "bool \<Rightarrow> chunked_list \<Rightarrow> consumer_group \<Rightarrow> pc \<Rightarrow> bool \<Rightarrow> pc \<Rightarrow> consumer_group \<Rightarrow> bool" where
  "moved calm cl cg pc dry pc' cg' \<longleftrightarrow>
     (let pos = cg_getPosition cg; pos' = cg_getPosition cg'
      in pos_ok cl pos' \<and> cg_closed cg' = cg_closed cg \<and> (fst pos \<noteq> None \<longrightarrow> fst pos' \<noteq> None)
         \<and> suffix (given_by pc pc' @ unread cl pos') (unread cl pos)
         \<and> (calm \<longrightarrow> given_by pc pc' @ unread cl pos' = unread cl pos)
         \<and> pc_ok calm cl pos' (dry \<or> unread cl pos' = []) pc'
         \<and> (settled pc' \<longrightarrow> fst pos' \<noteq> None))"

lemma given_by_Look [simp]: "given_by pc Look = []" "given_by pc (Finished None) = []"
  by (auto simp: given_by_def split: pc.split)

lemma given_by_other: "(\<And>e i d. pc \<noteq> Commit e i d) \<Longrightarrow> given_by pc pc' = []"
  by (auto simp: given_by_def split: pc.split)

text \<open>A step that leaves the group alone.\<close>

lemma moved_same:
  assumes "pos_ok cl (cg_getPosition cg)" and "given_by pc pc' = []"
    and "settled pc' \<Longrightarrow> fst (cg_getPosition cg) \<noteq> None"
    and "pc_ok calm cl (cg_getPosition cg) (dry \<or> unread cl (cg_getPosition cg) = []) pc'"
  shows "moved calm cl cg pc dry pc' cg"
  using assms by (simp add: moved_def)

text \<open>A step to another position, where the loop begins again.\<close>

lemma moved_look:
  assumes "cg' = cg_set_position (Some e, i) cg" and "pos_ok cl (Some e, i)"
    and "suffix (unread cl (Some e, i)) (unread cl (cg_getPosition cg))"
    and "calm \<Longrightarrow> unread cl (Some e, i) = unread cl (cg_getPosition cg)"
  shows "moved calm cl cg pc dry Look cg'"
  using assms by (simp add: moved_def cg_getPosition_def cg_set_position_def)

lemma cg_micro_moved:
  assumes inv: "cl_inv cl" and ch: "cl_chained cl" and pos: "pos_ok cl (cg_getPosition cg)"
    and know: "pc_ok calm cl (cg_getPosition cg) dry pc"
    and loc: "settled pc \<Longrightarrow> fst (cg_getPosition cg) \<noteq> None" and step: "cg_micro cl pc cg = (pc', cg')"
  shows "moved calm cl cg pc dry pc' cg'"
proof -
  note set_pos = cg_set_position_def cg_getPosition_def
  have here: "cg_getPosition cg = (Some e, i)" if "cg_chunkElement cg = Some e" "cg_indexInChunk cg = i" for e i
    using that by (simp add: cg_getPosition_def)
  have stay: ?thesis if "cg' = cg" "given_by pc pc' = []" "settled pc' \<longrightarrow> settled pc"
    "pc_ok calm cl (cg_getPosition cg) (dry \<or> unread cl (cg_getPosition cg) = []) pc'"
    using moved_same [OF pos, of pc pc' calm dry] that loc by blast
  show ?thesis
  proof (cases pc)
    case Idle
    then show ?thesis using step know by (intro stay) (auto simp: given_by_other settled_def)
  next
    case CheckInit
    then have "cg' = cg" "pc' = (if cg_chunkElement cg = None then GetFirst else Look)" using step by auto
    then show ?thesis
      using moved_same [OF pos, of pc pc' calm dry] CheckInit
      by (auto simp: given_by_other settled_def cg_getPosition_def split: if_splits)
  next
    case (Finished r)
    then show ?thesis using step know by (intro stay; cases r) (auto simp: given_by_other settled_def)
  next
    case (Forget e)
    then show ?thesis using know by simp
  next
    case GetFirst
    have "unread cl (cg_getPosition cg) = []" if "cl_GetFirstElement cl = None"
    proof -
      have "cl_items cl = []" using that by (auto simp: cl_GetFirstElement_def cl_items_def split: list.splits)
      then show ?thesis by (simp add: unread_def)
    qed
    then show ?thesis
      using GetFirst step by (intro stay) (auto simp: given_by_other settled_def split: option.splits)
  next
    case (SetFirst f)
    note F = unread_first [OF inv, of f]
    show ?thesis
    proof (cases "cg_chunkElement cg")
      case None
      then have "cg' = cg_set_position (Some f, 0) cg" "pc' = Look"
        using SetFirst step by (auto simp: cg_set_position_def)
      then show ?thesis
        using F know SetFirst None by (auto intro!: moved_look simp: cg_getPosition_def)
    next
      case (Some e)
      then have "cg' = cg" "pc' = Look" using SetFirst step by auto
      then show ?thesis using Some by (auto intro!: moved_same [OF pos] simp: cg_getPosition_def)
    qed
  next
    case Look
    then obtain e i where p: "cg_getPosition cg = (Some e, i)"
      using loc by (cases "cg_getPosition cg") (auto simp: settled_def)
    then have "pc' = CheckPooled e i" "cg' = cg" using Look step by (auto simp: cg_getPosition_def)
    then show ?thesis using pos p Look by (intro stay) (auto simp: passed_def given_by_other settled_def)
  next
    case (CheckPooled e i)
    then have "e \<in> set (cl_list cl)" using know by (simp add: passed_def pos_ok_def)
    then show ?thesis
      using CheckPooled step know cl_invD(5) [OF inv] by (intro stay) (auto simp: given_by_other settled_def)
  next
    case (GetSize e i)
    then have k: "pos_ok cl (Some e, i)" "suffix (unread cl (cg_getPosition cg)) (unread cl (Some e, i))"
      using know by (simp_all add: passed_def)
    have "cn_NextElement (cl_chunk cl e) = None \<Longrightarrow> unread cl (cg_getPosition cg) = []"
      if "\<not> i < cn_size (cl_chunk cl e)"
      using unread_at_end [OF inv ch k(1)] k(2) that by simp
    then show ?thesis
      using GetSize step k by (intro stay) (auto simp: given_by_other settled_def split: if_splits)
  next
    case (GetData e i)
    have "i < cn_head (cl_chunk cl e)" if "cn_Get i (cl_chunk cl e) = None"
      using know GetData that by (simp add: cn_Get_def split: if_splits)
    then show ?thesis
      using GetData step know by (intro stay) (auto simp: given_by_other settled_def split: option.splits)
  next
    case (Commit e i d)
    show ?thesis
    proof (cases "cg_chunkElement cg = Some e \<and> cg_indexInChunk cg = i")
      case True
      then have p: "pc' = Finished (Some d)" "cg_getPosition cg' = (Some e, Suc i)" "cg_closed cg' = cg_closed cg"
        using Commit step by (auto simp: cg_getPosition_def)
      note U = unread_read [OF inv, of e i d]
      show ?thesis
        using U know Commit p here [of e i] True by (simp add: moved_def given_by_def settled_def)
    next
      case False
      then show ?thesis using Commit step by (intro stay) (auto simp: settled_def)
    qed
  next
    case (LoadHead e i)
    then show ?thesis using step know by (intro stay) (auto simp: given_by_other settled_def)
  next
    case (SkipTo e i j)
    then have k: "pos_ok cl (Some e, i)" "i < j" "j \<le> cn_head (cl_chunk cl e)" using know by simp_all
    show ?thesis
    proof (cases "cg_chunkElement cg = Some e \<and> cg_indexInChunk cg = i")
      case True
      then have "cg' = cg_set_position (Some e, j) cg" "pc' = Look"
        using SkipTo step by (auto simp: cg_set_position_def)
      moreover have "pos_ok cl (Some e, j)"
        using k cn_inv_le [OF cl_invD(4) [OF inv, of e]] by (simp add: pos_ok_def)
      ultimately show ?thesis
        using True here [of e i] unread_skip(1) [of i j cl e] k by (auto intro!: moved_look)
    qed (use SkipTo step in \<open>intro stay; auto simp: settled_def\<close>)
  next
    case (LoadNext e i)
    then show ?thesis
      using step know by (intro stay; cases "cn_NextElement (cl_chunk cl e)") (auto simp: given_by_other settled_def)
  next
    case (Advance e i n)
    show ?thesis
    proof (cases n)
      case (Some x)
      then have k: "pos_ok cl (Some e, i)" "cn_NextElement (cl_chunk cl e) = Some x"
        "calm \<longrightarrow> cn_size (cl_chunk cl e) \<le> i" using know Advance by simp_all
      show ?thesis
      proof (cases "cg_chunkElement cg = Some e \<and> cg_indexInChunk cg = i")
        case True
        then have "cg' = cg_set_position (Some x, 0) cg" "pc' = Look"
          using Advance Some step by (auto simp: cg_set_position_def)
        then show ?thesis
          using True here [of e i] unread_successor [OF inv ch k(1,2)] unread_next(2) [OF inv ch k(1) _ k(2)] k(3)
          by (auto intro!: moved_look)
      qed (use Advance Some step in \<open>intro stay; auto simp: settled_def\<close>)
    qed (use Advance step know in \<open>intro stay; auto simp: settled_def given_by_other\<close>)
  qed
qed

section \<open>Storing does not disturb what a goroutine knows\<close>

lemma appended_cells:
  assumes inv: "cl_inv cl" and ch: "cl_chained cl" and a: "appended d cl new cl'" and e: "e \<in> set (cl_list cl)"
  shows "cn_head (cl_chunk cl' e) = cn_head (cl_chunk cl e)"
    and "cn_size (cl_chunk cl e) \<le> cn_size (cl_chunk cl' e)"
    and "cn_Get i (cl_chunk cl e) = Some x \<Longrightarrow> cn_Get i (cl_chunk cl' e) = Some x"
    and "cn_NextElement (cl_chunk cl e) = Some y \<Longrightarrow> cn_NextElement (cl_chunk cl' e) = Some y"
proof -
  note A = a [unfolded appended_def]
  show h: "cn_head (cl_chunk cl' e) = cn_head (cl_chunk cl e)"
    and s: "cn_size (cl_chunk cl e) \<le> cn_size (cl_chunk cl' e)" using A e by simp_all
  show "cn_Get i (cl_chunk cl' e) = Some x" if g: "cn_Get i (cl_chunk cl e) = Some x"
  proof -
    let ?k = "i - cn_head (cl_chunk cl e)"
    have i: "cn_head (cl_chunk cl e) \<le> i" "i < cn_size (cl_chunk cl e)" "x = cl_live cl e ! ?k"
      using g by (auto simp: cn_Get_live split: if_splits)
    have "take (length (cl_live cl e)) (cl_live cl' e) = cl_live cl e" using A e by simp
    then have "cl_live cl e ! ?k = cl_live cl' e ! ?k"
      by (metis i(1,2) diff_less_mono length_cn_live nth_take)
    then show ?thesis using i h s by (simp add: cn_Get_live)
  qed
  show "cn_NextElement (cl_chunk cl' e) = Some y" if n: "cn_NextElement (cl_chunk cl e) = Some y"
  proof -
    obtain pre post where l: "cl_list cl = pre @ e # post" using e by (auto dest: split_list)
    obtain z post' where p: "post = z # post'"
      using ch l n linked_last [of "cl_chunk cl" pre e] by (cases post) (auto simp: cl_chained_def)
    have "linked (cl_chunk cl) (pre @ e # z # post')" using ch l p by (simp add: cl_chained_def)
    then have "y = z" using n linked_full by fastforce
    have "cl_list cl' = pre @ e # z # (post' @ new)" "cl_chained cl'" using A ch l p by simp_all
    then have "linked (cl_chunk cl') (pre @ e # z # (post' @ new))" by (simp add: cl_chained_def)
    then show ?thesis using \<open>y = z\<close> linked_full by blast
  qed
qed

lemma pc_ok_dry: "pc_ok calm cl pos dry pc \<Longrightarrow> (dry \<Longrightarrow> dry') \<Longrightarrow> pc_ok calm cl pos dry' pc"
  by (induction calm cl pos dry pc rule: pc_ok.induct) auto

lemma pc_ok_appended:
  assumes inv: "cl_inv cl" and ch: "cl_chained cl" and a: "appended d cl new cl'" and pos: "pos_ok cl pos"
    and know: "pc_ok calm cl pos dry pc" and calm: "calm \<Longrightarrow> \<not> between_looks pc"
  shows "pc_ok calm cl' pos dry pc"
proof -
  have inv': "cl_inv cl'" using a by (simp add: appended_def)
  have ok: "pos_ok cl' (Some e, i)" "e \<in> set (cl_list cl)" if "pos_ok cl (Some e, i)" for e i
    using appended_pos(1) [OF inv a that] that by (simp_all add: pos_ok_def)
  have passed: "passed cl' pos e i" if "passed cl pos e i" for e i
    using that appended_pos [OF inv a pos] appended_pos [OF inv a, of "(Some e, i)"]
    by (auto simp: passed_def suffix_def)
  note cells = appended_cells [OF inv ch a]
  show ?thesis
  proof (cases pc)
    case (SetFirst f)
    then show ?thesis using know a by (auto simp: cl_GetFirstElement_def appended_def split: list.splits)
  next
    case (CheckPooled e i)
    then show ?thesis using know passed by simp
  next
    case (GetSize e i)
    then show ?thesis using know passed by simp
  next
    case (GetData e i)
    then show ?thesis using know ok [of e i] cells(2) [of e] by fastforce
  next
    case (Commit e i d)
    then show ?thesis using know ok [of e i] cells(3) [of e i d] by simp
  next
    case (LoadHead e i)
    then show ?thesis using know ok [of e i] cells(1) [of e] by simp
  next
    case (SkipTo e i j)
    then show ?thesis using know ok [of e i] cells(1) [of e] by simp
  next
    case (LoadNext e i)
    then have "\<not> calm" using calm by (auto simp: between_looks_def)
    then show ?thesis using LoadNext know ok [of e i] cells(4) [of e] by (cases "cn_NextElement (cl_chunk cl e)") auto
  next
    case (Advance e i n)
    show ?thesis
    proof (cases n)
      case (Some x)
      then have k: "pos_ok cl (Some e, i)" "cn_NextElement (cl_chunk cl e) = Some x" using know Advance by simp_all
      note k' = ok [OF k(1)]
      have "cn_size (cl_chunk cl' e) \<le> 1000"
        using cn_inv_le [OF cl_invD(4) [OF inv', of e]] k'(1) by (simp add: pos_ok_def)
      then show ?thesis
        using unread_successor(3) [OF inv ch k] cells(4) [OF k'(2) k(2)] k' know Advance Some by auto
    qed (use Advance know in simp)
  qed (use know in \<open>auto elim: pc_ok.elims\<close>)
qed

text \<open>What storing keeps, for every goroutine at once.\<close>

definition kept :: "queue_data list \<Rightarrow> chunked_list \<Rightarrow> chunked_list \<Rightarrow> bool" where
  "kept ds cl cl' \<longleftrightarrow> cl_inv cl' \<and> cl_chained cl'
     \<and> (\<forall>e \<in> set (cl_list cl). e \<in> set (cl_list cl') \<and> cn_head (cl_chunk cl' e) = cn_head (cl_chunk cl e))
     \<and> (\<forall>pos. pos_ok cl pos \<longrightarrow> pos_ok cl' pos \<and> unread cl' pos = unread cl pos @ ds
          \<and> (\<forall>calm dry pc. pc_ok calm cl pos dry pc \<and> (calm \<longrightarrow> \<not> between_looks pc) \<longrightarrow> pc_ok calm cl' pos dry pc))"

lemma kept_refl: "cl_inv cl \<Longrightarrow> cl_chained cl \<Longrightarrow> kept [] cl cl"
  by (simp add: kept_def)

lemma kept_append:
  assumes inv: "cl_inv cl" "cl_chained cl" and a: "appended d cl new cl1" and k: "kept ds cl1 cl'"
  shows "kept (d # ds) cl cl'"
proof -
  have "pos_ok cl' pos \<and> unread cl' pos = unread cl pos @ d # ds
      \<and> (\<forall>calm dry pc. pc_ok calm cl pos dry pc \<and> (calm \<longrightarrow> \<not> between_looks pc) \<longrightarrow> pc_ok calm cl' pos dry pc)"
    if ok: "pos_ok cl pos" for pos
  proof -
    note P = appended_pos [OF inv(1) a ok]
    have "pc_ok calm cl1 pos dry pc" if "pc_ok calm cl pos dry pc" "calm \<longrightarrow> \<not> between_looks pc" for calm dry pc
      using pc_ok_appended [OF inv a ok that(1)] that(2) by blast
    moreover have "pos_ok cl' pos \<and> unread cl' pos = unread cl1 pos @ ds
        \<and> (\<forall>calm dry pc. pc_ok calm cl1 pos dry pc \<and> (calm \<longrightarrow> \<not> between_looks pc) \<longrightarrow> pc_ok calm cl' pos dry pc)"
      using k P(1) unfolding kept_def by blast
    ultimately show ?thesis using P(2) by simp
  qed
  moreover have "e \<in> set (cl_list cl') \<and> cn_head (cl_chunk cl' e) = cn_head (cl_chunk cl e)"
    if e: "e \<in> set (cl_list cl)" for e
  proof -
    have "e \<in> set (cl_list cl1)" using a e by (simp add: appended_def)
    then show ?thesis using appended_cells(1) [OF inv a e] k unfolding kept_def by simp
  qed
  ultimately show ?thesis using k unfolding kept_def by blast
qed

lemma cl_EnqueueBatch_kept:
  assumes "cl_inv cl" "cl_chained cl"
  obtains cl' where "cl_EnqueueBatch ds cl = (None, cl')" "kept ds cl cl'"
proof -
  have "\<exists>cl'. cl_EnqueueBatch ds cl = (None, cl') \<and> kept ds cl cl'"
    using assms
  proof (induction ds arbitrary: cl)
    case Nil
    then show ?case by (simp add: kept_refl)
  next
    case (Cons d ds)
    obtain new cl1 where a: "cl_append d cl = (True, cl1)" "appended d cl new cl1"
      by (rule cl_append_spec [OF Cons.prems(1), of d])
    then have "cl_inv cl1" "cl_chained cl1" using Cons.prems by (simp_all add: appended_def)
    then obtain cl' where "cl_EnqueueBatch ds cl1 = (None, cl')" "kept ds cl1 cl'" using Cons.IH by blast
    then show ?case using a kept_append [OF Cons.prems a(2)] by auto
  qed
  then show ?thesis using that by blast
qed

lemma pc_ok_tracker [simp]: "pc_ok calm (cl\<lparr>cl_memoryTracker := mt\<rparr>) pos dry pc = pc_ok calm cl pos dry pc"
  by (induction calm cl pos dry pc rule: pc_ok.induct)
    (simp_all add: passed_def cl_GetFirstElement_def)

lemma cl_Enqueue_kept:
  assumes "cl_inv cl" "cl_chained cl"
  obtains err cl' where "cl_Enqueue d cl = (err, cl')" "kept (if err = None then [d] else []) cl cl'"
proof -
  obtain new cl1 where a: "cl_append d cl = (True, cl1)" "appended d cl new cl1"
    by (rule cl_append_spec [OF assms(1), of d])
  have k: "kept [d] cl cl1"
    by (rule kept_append [OF assms a(2) kept_refl]) (use a(2) assms(2) in \<open>simp_all add: appended_def\<close>)
  have t: "kept [] cl (cl\<lparr>cl_memoryTracker := mt\<rparr>)" for mt
    using assms by (simp add: kept_def cl_chained_def)
  show ?thesis
  proof (cases "mt_CanAddData d (cl_memoryTracker cl)")
    case True
    then show ?thesis using a(1) k that [of None cl1] by (simp add: cl_Enqueue_def)
  next
    case False
    obtain needed mt where "mt_EstimateQueueDataSize (Some d) (cl_memoryTracker cl) = (needed, mt)" by fastforce
    with False obtain e where "cl_Enqueue d cl = (Some e, cl\<lparr>cl_memoryTracker := mt\<rparr>)"
      by (simp add: cl_Enqueue_def)
    then show ?thesis using t that by force
  qed
qed

section \<open>Runs\<close>

text \<open>Between two states: what was given and put, and that no more was lost than a suffix leaves out.\<close>

definition race_link :: "bool \<Rightarrow> race \<Rightarrow> race \<Rightarrow> bool" where
  "race_link calm r r' \<longleftrightarrow> (\<exists>gs ds. ra_given r' = ra_given r @ gs \<and> ra_put r' = ra_put r @ ds
     \<and> subseq (gs @ ra_left r') (ra_left r @ ds) \<and> (calm \<longrightarrow> gs @ ra_left r' = ra_left r @ ds))"

lemma race_link_refl: "race_link calm r r"
  by (simp add: race_link_def)

lemma race_link_trans:
  assumes "race_link calm r r1" "race_link calm r1 r2"
  shows "race_link calm r r2"
proof -
  obtain gs1 ds1 gs2 ds2 where
    1: "ra_given r1 = ra_given r @ gs1" "ra_put r1 = ra_put r @ ds1" "subseq (gs1 @ ra_left r1) (ra_left r @ ds1)"
      "calm \<longrightarrow> gs1 @ ra_left r1 = ra_left r @ ds1"
    and 2: "ra_given r2 = ra_given r1 @ gs2" "ra_put r2 = ra_put r1 @ ds2" "subseq (gs2 @ ra_left r2) (ra_left r1 @ ds2)"
      "calm \<longrightarrow> gs2 @ ra_left r2 = ra_left r1 @ ds2"
    using assms unfolding race_link_def by blast
  have "subseq (gs1 @ gs2 @ ra_left r2) (gs1 @ ra_left r1 @ ds2)" 
    by (rule list_emb_append_mono [OF _ 2(3)]) simp
  moreover have "subseq ((gs1 @ ra_left r1) @ ds2) ((ra_left r @ ds1) @ ds2)"
    by (rule list_emb_append_mono [OF 1(3)]) simp
  ultimately have "subseq (gs1 @ gs2 @ ra_left r2) (ra_left r @ ds1 @ ds2)"
    by (metis append_assoc subseq_order.trans)
  moreover have "calm \<longrightarrow> gs1 @ gs2 @ ra_left r2 = ra_left r @ ds1 @ ds2" using 1(4) 2(4) by (metis append_assoc)
  ultimately show ?thesis using 1(1,2) 2(1,2) unfolding race_link_def by fastforce
qed

lemma race_step_dry:
  assumes "pos_ok (ra_list r) (cg_getPosition (ra_group r))"
    and "\<forall>t. pc_ok calm (ra_list r) (cg_getPosition (ra_group r)) (dry t) (ra_pcs r t)"
    and "\<And>t. dry t \<Longrightarrow> dry' t"
  shows "\<forall>t. pc_ok calm (ra_list r) (cg_getPosition (ra_group r)) (dry' t) (ra_pcs r t)"
  using assms pc_ok_dry by blast

lemma race_begin:
  assumes "race_inv calm r"
  shows "race_inv calm (race_step (Begin t) r)" "race_link calm r (race_step (Begin t) r)"
proof -
  have "pc_ok calm (ra_list r) (cg_getPosition (ra_group r)) (ra_dry r u \<or> b) (ra_pcs r u)" for u b
    using assms unfolding race_inv_def by (blast intro: pc_ok_dry)
  then show "race_inv calm (race_step (Begin t) r)" "race_link calm r (race_step (Begin t) r)"
    using assms by (auto simp: race_inv_def race_step_def race_link_def ra_left_def settled_def Let_def)
qed

lemma race_store:
  assumes inv: "race_inv calm r" and calm: "calm \<Longrightarrow> \<forall>t. \<not> between_looks (ra_pcs r t)"
    and k: "kept ds (ra_list r) cl"
    and r': "r' = (let r = r\<lparr>ra_list := cl, ra_put := ra_put r @ ds\<rparr> in r\<lparr>ra_dry := (\<lambda>t. ra_dry r t \<or> ra_left r = [])\<rparr>)"
  shows "race_inv calm r'" "race_link calm r r'"
proof -
  have P: "pos_ok cl (cg_getPosition (ra_group r))"
    "unread cl (cg_getPosition (ra_group r)) = ra_left r @ ds"
    using k inv unfolding kept_def race_inv_def ra_left_def by blast+
  have "pc_ok calm cl (cg_getPosition (ra_group r)) (ra_dry r t \<or> b) (ra_pcs r t)" for t b
  proof -
    have "pc_ok calm cl (cg_getPosition (ra_group r)) (ra_dry r t) (ra_pcs r t)"
      using k inv calm unfolding kept_def race_inv_def by blast
    then show ?thesis by (blast intro: pc_ok_dry)
  qed
  then show "race_inv calm r'" using inv k P(1) unfolding r' by (simp add: race_inv_def kept_def Let_def)
  show "race_link calm r r'" unfolding r' by (simp add: race_link_def ra_left_def P(2) [unfolded ra_left_def] Let_def)
qed

lemma race_go:
  assumes inv: "race_inv calm r"
  shows "race_inv calm (race_step (Go t) r)" "race_link calm r (race_step (Go t) r)"
proof -
  let ?cl = "ra_list r"
  have I: "cl_inv ?cl" "cl_chained ?cl" "pos_ok ?cl (cg_getPosition (ra_group r))" "\<not> cg_closed (ra_group r)"
    and know: "pc_ok calm ?cl (cg_getPosition (ra_group r)) (ra_dry r u) (ra_pcs r u)"
    and loc: "settled (ra_pcs r u) \<Longrightarrow> fst (cg_getPosition (ra_group r)) \<noteq> None" for u
    using inv unfolding race_inv_def by blast+
  obtain pc cg where g: "cg_micro ?cl (ra_pcs r t) (ra_group r) = (pc, cg)" by fastforce
  let ?gs = "given_by (ra_pcs r t) pc" and ?us = "unread ?cl (cg_getPosition cg)"
  have M: "pos_ok ?cl (cg_getPosition cg)" "cg_closed cg = cg_closed (ra_group r)"
    "fst (cg_getPosition (ra_group r)) \<noteq> None \<longrightarrow> fst (cg_getPosition cg) \<noteq> None"
    "suffix (?gs @ ?us) (ra_left r)" "calm \<longrightarrow> ?gs @ ?us = ra_left r"
    "pc_ok calm ?cl (cg_getPosition cg) (ra_dry r t \<or> ?us = []) pc"
    "settled pc \<longrightarrow> fst (cg_getPosition cg) \<noteq> None"
    using cg_micro_moved [OF I(1-3) know [of t] loc [of t] g] by (simp_all add: moved_def ra_left_def Let_def)
  have others: "pc_ok calm ?cl (cg_getPosition cg) (ra_dry r u \<or> ?us = []) (ra_pcs r u)" for u
  proof -
    have "suffix ?us (ra_left r)" using M(4) suffix_appendD by blast
    then have "passed ?cl (cg_getPosition cg) e i" if "passed ?cl (cg_getPosition (ra_group r)) e i" for e i
      using that suffix_order.trans unfolding passed_def ra_left_def by blast
    then have "pc_ok calm ?cl (cg_getPosition cg) (ra_dry r u) (ra_pcs r u)"
      using know [of u] by (cases "(calm, ?cl, cg_getPosition (ra_group r), ra_dry r u, ra_pcs r u)" rule: pc_ok.cases) auto
    then show ?thesis by (blast intro: pc_ok_dry)
  qed
  have r': "race_step (Go t) r = r\<lparr>ra_group := cg, ra_pcs := (ra_pcs r)(t := pc), ra_given := ra_given r @ ?gs,
      ra_dry := (\<lambda>u. ra_dry r u \<or> ?us = [])\<rparr>"
    by (simp add: race_step_def g ra_left_def Let_def)
  show "race_inv calm (race_step (Go t) r)"
    unfolding r' race_inv_def using I M others loc by auto
  show "race_link calm r (race_step (Go t) r)"
    unfolding r' race_link_def using M(4,5) by (auto simp: ra_left_def suffix_imp_subseq)
qed

lemma race_step_inv:
  assumes inv: "race_inv calm r" and "no_expiry a" and "calm \<Longrightarrow> calm_step a r"
  shows "race_inv calm (race_step a r) \<and> race_link calm r (race_step a r)"
proof (cases a)
  case (Store d)
  obtain err cl where e: "cl_Enqueue d (ra_list r) = (err, cl)" "kept (if err = None then [d] else []) (ra_list r) cl"
    using cl_Enqueue_kept [of "ra_list r" d] inv unfolding race_inv_def by blast
  show ?thesis
    using race_store [OF inv _ e(2), of "race_step a r"] assms(3) e(1) Store
    by (simp add: race_step_def calm_step_def stores_def Let_def)
next
  case (StoreBatch ds)
  obtain cl where e: "cl_EnqueueBatch ds (ra_list r) = (None, cl)" "kept ds (ra_list r) cl"
    using cl_EnqueueBatch_kept [of "ra_list r" ds] inv unfolding race_inv_def by blast
  show ?thesis
    using race_store [OF inv _ e(2), of "race_step a r"] assms(3) e(1) StoreBatch
    by (simp add: race_step_def calm_step_def stores_def Let_def)
next
  case (Expire clk ttl)
  then show ?thesis using assms(2) by (simp add: no_expiry_def)
qed (use race_begin [OF inv] race_go [OF inv] in auto)

lemma race_run_inv:
  assumes "race_inv calm r" and "\<forall>a \<in> set as. no_expiry a" and "calm \<Longrightarrow> calm_run as r"
  shows "race_inv calm (race_run as r) \<and> race_link calm r (race_run as r)"
  using assms
proof (induction as arbitrary: r)
  case Nil
  then show ?case by (simp add: race_run_def race_link_refl)
next
  case (Cons a as)
  have S: "race_inv calm (race_step a r)" "race_link calm r (race_step a r)"
    using race_step_inv [OF Cons.prems(1)] Cons.prems(2,3) by auto
  then show ?case
    using Cons.IH [OF S(1)] Cons.prems(2,3) race_link_trans [OF S(2)] by (simp add: race_run_def)
qed

lemma race_start_inv:
  assumes "cl_inv cl" "cl_chained cl" "pos_ok cl (cg_getPosition cg)" "\<not> cg_closed cg"
  shows "race_inv calm (race_start cl cg)"
  using assms by (simp add: race_inv_def race_start_def settled_def)

text \<open>The observation of dryness does not influence the run.\<close>

definition undry :: "race \<Rightarrow> race" where
  "undry r = r\<lparr>ra_dry := (\<lambda>_. False)\<rparr>"

lemma undry_simps [simp]:
  "ra_list (undry r) = ra_list r" "ra_group (undry r) = ra_group r" "ra_pcs (undry r) = ra_pcs r"
  "ra_put (undry r) = ra_put r" "ra_given (undry r) = ra_given r" "ra_left (undry r) = ra_left r"
  by (simp_all add: undry_def ra_left_def)

lemma undry_step: "undry (race_step a r) = undry (race_move a (undry r))"
  by (cases a) (auto simp: race_step_def undry_def Let_def split: prod.splits option.splits)

lemma undry_run: "undry (race_run as r) = fold (\<lambda>a r. undry (race_move a r)) as (undry r)"
  by (induction as arbitrary: r) (simp_all add: race_run_def undry_step)

lemma race_run_plain:
  "ra_given (race_run as r) = ra_given (fold (\<lambda>a r. undry (race_move a r)) as (undry r))"
  "ra_put (race_run as r) = ra_put (fold (\<lambda>a r. undry (race_move a r)) as (undry r))"
  "ra_left (race_run as r) = ra_left (fold (\<lambda>a r. undry (race_move a r)) as (undry r))"
  using undry_run [of as r] undry_simps by (metis, metis, metis)

end
