(* ===== verification/MQ_ConsumerRace.thy ===== *)
theory MQ_ConsumerRace
  imports MQ_Race
begin

text \<open>
  One consumer without group, while items are put and expire. The expiration pass is not one step
  here: it holds \<^verbatim>\<open>Queue.mutex\<close> from the removal to the end, but it takes the consumer's own lock
  three times (to read the position, to notify, to move the position), and the consumer's reads
  go on in between, except for those accesses that need \<^verbatim>\<open>Queue.mutex\<close>.
\<close>

section \<open>The machine\<close>

text \<open>Where the pass is: the next thing it does to this consumer.\<close>

datatype phase =
    Unlocked
  | Counting "chunk_removal_info list"
  | Telling nat "chunk_removal_info list"
  | Moving "chunk_removal_info list"

type_synonym cell = "(elem \<times> nat) \<times> queue_data"

record crace =
  cr_list :: chunked_list
  cr_consumer :: consumer
  cr_pcs :: "nat \<Rightarrow> pc"
  cr_phase :: phase
  cr_cells :: "cell list"
  cr_taken :: "cell list"

datatype cact = CBegin nat | CGo nat time time | CStore queue_data | CRemove clock duration | CPass

definition needs_queue_lock :: "pc \<Rightarrow> bool" where
  "needs_queue_lock pc = (case pc of GetFirst \<Rightarrow> True | GetData _ _ \<Rightarrow> True | _ \<Rightarrow> False)"

text \<open>The cell the last item of the list is in.\<close>

definition last_cell :: "chunked_list \<Rightarrow> elem \<times> nat" where
  "last_cell cl = (let e = last (cl_list cl) in (e, cn_size (cl_chunk cl e) - 1))"

definition taken_by :: "pc \<Rightarrow> pc \<Rightarrow> cell list" where
  "taken_by pc pc' = (case (pc, pc') of (Commit e i _, Finished (Some d)) \<Rightarrow> [((e, i), d)] | _ \<Rightarrow> [])"

fun cr_step :: "cact \<Rightarrow> crace \<Rightarrow> crace" where
  "cr_step (CBegin t) r =
     (case cr_pcs r t of
        Idle \<Rightarrow> r\<lparr>cr_pcs := (cr_pcs r)(t := if c_closed (cr_consumer r) then Finished None else CheckInit)\<rparr>
      | Finished _ \<Rightarrow> r\<lparr>cr_pcs := (cr_pcs r)(t := if c_closed (cr_consumer r) then Finished None else CheckInit)\<rparr>
      | _ \<Rightarrow> r)"
| "cr_step (CGo t now1 now2) r =
     (if cr_phase r \<noteq> Unlocked \<and> needs_queue_lock (cr_pcs r t) then r
      else let (pc, c) = c_micro now1 now2 (cr_list r) (cr_pcs r t) (cr_consumer r)
           in r\<lparr>cr_consumer := c, cr_pcs := (cr_pcs r)(t := pc),
                cr_taken := cr_taken r @ taken_by (cr_pcs r t) pc\<rparr>)"
| "cr_step (CStore d) r =
     (if cr_phase r \<noteq> Unlocked then r
      else let (err, cl) = cl_Enqueue d (cr_list r)
           in r\<lparr>cr_list := cl, cr_cells := cr_cells r @ (if err = None then [(last_cell cl, d)] else [])\<rparr>)"
| "cr_step (CRemove clk ttl) r =
     (if cr_phase r \<noteq> Unlocked then r
      else let (n, removalInfo, cl) = cl_RemoveExpiredData clk ttl (cr_list r)
           in r\<lparr>cr_list := cl, cr_phase := if n > 0 then Counting removalInfo else Unlocked\<rparr>)"
| "cr_step CPass r =
     (case cr_phase r of
        Unlocked \<Rightarrow> r
      | Counting removalInfo \<Rightarrow>
          r\<lparr>cr_phase := Telling (calculateExpiredCount (c_chunkElement (cr_consumer r))
                                  (c_indexInChunk (cr_consumer r)) removalInfo) removalInfo\<rparr>
      | Telling expiredCount removalInfo \<Rightarrow>
          r\<lparr>cr_phase := Moving removalInfo,
            cr_consumer := (if expiredCount > 0
              then (case c_NotifyExpiredItems expiredCount (cr_consumer r) of
                      None \<Rightarrow> cr_consumer r | Some c \<Rightarrow> c)
              else cr_consumer r)\<rparr>
      | Moving removalInfo \<Rightarrow>
          r\<lparr>cr_phase := Unlocked,
            cr_consumer := c_UpdatePositionAfterExpiration
              (fold (\<lambda>info total. total + ri_RemovedCount info) removalInfo 0)
              (cl_GetFirstElement (cr_list r)) removalInfo (cl_chunk (cr_list r)) (cr_consumer r)\<rparr>)"

definition cr_run :: "cact list \<Rightarrow> crace \<Rightarrow> crace" where
  "cr_run as r = fold cr_step as r"

definition cr_start :: "int \<Rightarrow> consumer \<Rightarrow> crace" where
  "cr_start maxMemory c = \<lparr>cr_list = NewChunkedList (NewMemoryTracker maxMemory), cr_consumer = c,
     cr_pcs = (\<lambda>_. Idle), cr_phase = Unlocked, cr_cells = [], cr_taken = []\<rparr>"

text \<open>A step in which the looks of an expiration pass agree, and a run of such steps.\<close>

definition agreed :: "cact \<Rightarrow> crace \<Rightarrow> bool" where
  "agreed a r = (case a of
     CRemove clk ttl \<Rightarrow> cr_phase r = Unlocked \<longrightarrow> looks_agree clk ttl 0 (cl_items (cr_list r)) | _ \<Rightarrow> True)"

fun agreed_run :: "cact list \<Rightarrow> crace \<Rightarrow> bool" where
  "agreed_run [] r = True"
| "agreed_run (a # as) r = (agreed a r \<and> agreed_run as (cr_step a r))"

text \<open>Only the goroutine \<open>0\<close> reads.\<close>

definition solo :: "cact \<Rightarrow> bool" where
  "solo a = (case a of CBegin t \<Rightarrow> t = 0 | CGo t _ _ \<Rightarrow> t = 0 | _ \<Rightarrow> True)"

section \<open>Cells in order\<close>

definition before :: "elem \<times> nat \<Rightarrow> elem \<times> nat \<Rightarrow> bool" where
  "before c c' \<longleftrightarrow> fst c < fst c' \<or> fst c = fst c' \<and> snd c < snd c'"

lemma before_irrefl: "\<not> before c c"
  by (simp add: before_def)

lemma before_trans: "before a b \<Longrightarrow> before b c \<Longrightarrow> before a c"
  by (auto simp: before_def)

definition in_order :: "cell list \<Rightarrow> bool" where
  "in_order cs = sorted_wrt (\<lambda>c c'. before (fst c) (fst c')) cs"

lemma in_order_Nil [simp]: "in_order []"
  by (simp add: in_order_def)

lemma in_order_snoc: "in_order (cs @ [c]) \<longleftrightarrow> in_order cs \<and> (\<forall>c' \<in> set cs. before (fst c') (fst c))"
  by (auto simp: in_order_def sorted_wrt_append)

text \<open>Ordered cells out of ordered cells are a subsequence of these.\<close>

lemma in_order_subseq:
  assumes "in_order xs" "in_order ys" "set xs \<subseteq> set ys"
  shows "subseq xs ys"
  using assms
proof (induction ys arbitrary: xs)
  case (Cons y ys)
  show ?case
  proof (cases xs)
    case (Cons x xs')
    have x: "\<forall>z \<in> set xs'. before (fst x) (fst z)" and y: "\<forall>z \<in> set ys. before (fst y) (fst z)"
      and o: "in_order xs'" "in_order ys"
      using Cons.prems(1,2) Cons by (auto simp: in_order_def)
    show ?thesis
    proof (cases "x = y")
      case True
      then have "y \<notin> set xs'" using x before_irrefl by blast
      then have "subseq xs' ys" using Cons.IH [OF o] Cons.prems(3) Cons by auto
      then show ?thesis using Cons True by simp
    next
      case False
      then have yx: "before (fst y) (fst x)" using Cons.prems(3) Cons y by auto
      have xy: "before (fst x) (fst y)" if "y \<in> set xs" using that False x Cons by auto
      have "y \<notin> set xs"
      proof
        assume "y \<in> set xs"
        then show False using before_trans [OF yx xy] before_irrefl [of "fst y"] by simp
      qed
      then have "set xs \<subseteq> set ys" using Cons.prems(3) by auto
      then have "subseq xs ys" by (rule Cons.IH [OF Cons.prems(1) o(2)])
      then show ?thesis by (rule list_emb_Cons)
    qed
  qed simp
qed simp

section \<open>The list over time\<close>

text \<open>
  Addresses of chunks are given out in order, and the list is always the last so many of them: the
  chunks in front of its first element are released, none behind it is.
\<close>

definition frontier :: "chunked_list \<Rightarrow> elem" where
  "frontier cl = (case cl_list cl of [] \<Rightarrow> cl_next cl | e # _ \<Rightarrow> e)"

definition list_ok :: "chunked_list \<Rightarrow> cell list \<Rightarrow> bool" where
  "list_ok cl cells \<longleftrightarrow> cl_inv cl \<and> cl_chained cl \<and> cl_list cl = [frontier cl..<cl_next cl]
     \<and> (\<forall>e x. cn_NextElement (cl_chunk cl e) = Some x \<longrightarrow> x = Suc e)
     \<and> (\<forall>e. cn_pooled (cl_chunk cl e) \<longrightarrow> e < frontier cl)
     \<and> (\<forall>e i d. cn_Get i (cl_chunk cl e) = Some d \<longrightarrow> ((e, i), d) \<in> set cells)
     \<and> (\<forall>((e, i), d) \<in> set cells. e < cl_next cl \<and> i < cn_size (cl_chunk cl e))
     \<and> in_order cells"

lemma frontier_le: "cl_list cl = [frontier cl..<cl_next cl] \<Longrightarrow> frontier cl \<le> cl_next cl"
proof (rule ccontr)
  assume l: "cl_list cl = [frontier cl..<cl_next cl]" and n: "\<not> frontier cl \<le> cl_next cl"
  then have "cl_list cl = []" by simp
  then show False using n by (simp add: frontier_def)
qed

text \<open>Storing an item fills the next cell.\<close>

lemma list_ok_store:
  assumes ok: "list_ok cl cells" and st: "cl_append d cl = (True, cl')" and a: "appended d cl new cl'"
    and new: "new = (if cl_list cl = [] \<or> cn_IsFull (cl_chunk cl (last (cl_list cl))) then [cl_next cl] else [])"
  shows "list_ok cl' (cells @ [(last_cell cl', d)])" and "frontier cl' = frontier cl"
proof -
  have inv: "cl_inv cl" "cl_chained cl" and l: "cl_list cl = [frontier cl..<cl_next cl]"
    and nx: "\<And>e x. cn_NextElement (cl_chunk cl e) = Some x \<Longrightarrow> x = Suc e"
    and po: "\<And>e. cn_pooled (cl_chunk cl e) \<Longrightarrow> e < frontier cl"
    and ge: "\<And>e i d. cn_Get i (cl_chunk cl e) = Some d \<Longrightarrow> ((e, i), d) \<in> set cells"
    and ce: "\<And>e i d. ((e, i), d) \<in> set cells \<Longrightarrow> e < cl_next cl \<and> i < cn_size (cl_chunk cl e)"
    and io: "in_order cells"
    using ok by (auto simp: list_ok_def)
  have a': "cl_inv cl'" "cl_chained cl'" "cl_list cl' = cl_list cl @ new" using a inv(2) by (auto simp: appended_def)
  have le: "frontier cl \<le> cl_next cl" by (rule frontier_le [OF l])
  have fr: "frontier cl' = frontier cl"
    using a'(3) new by (auto simp: frontier_def split: list.splits)
  then show "frontier cl' = frontier cl" .
  show "list_ok cl' (cells @ [(last_cell cl', d)])"
  proof (cases "new = []")
    case True
    then have ne: "cl_list cl \<noteq> []" and room: "\<not> cn_IsFull (cl_chunk cl (last (cl_list cl)))"
      using new by (auto split: if_splits)
    let ?e = "last (cl_list cl)" and ?c = "cl_chunk cl (last (cl_list cl))"
    have e: "Suc ?e = cl_next cl" using l ne by (metis Suc_pred' last_upt less_imp_le_nat upt_conv_Nil not_less zero_less_iff_neq_zero)
    have cl': "cl_chunk cl' = (cl_chunk cl)(?e := ?c\<lparr>cn_Data := (cn_Data ?c)(cn_size ?c := d), cn_size := cn_size ?c + 1\<rparr>)"
      "cl_next cl' = cl_next cl"
      using st ne room by (auto simp: cl_append_def cl_last_chunk_def cn_Add_def cn_IsFull_def Let_def)
    have lc: "last_cell cl' = (?e, cn_size ?c)"
      using a'(3) True by (simp add: last_cell_def cl' Let_def)
    have h: "cn_head ?c \<le> cn_size ?c"
      using cn_inv_le [OF cl_invD(4) [OF inv(1), of ?e]] ne by simp
    have "before (fst c) (?e, cn_size ?c)" if "c \<in> set cells" for c
    proof -
      have c: "fst (fst c) < cl_next cl" "snd (fst c) < cn_size (cl_chunk cl (fst (fst c)))"
        using ce [of "fst (fst c)" "snd (fst c)" "snd c"] that by simp_all
      then consider "fst (fst c) < ?e" | "fst (fst c) = ?e" using e by linarith
      then show ?thesis using c by cases (auto simp: before_def)
    qed
    moreover have "\<forall>e i x. cn_Get i (cl_chunk cl' e) = Some x \<longrightarrow> ((e, i), x) \<in> set (cells @ [(last_cell cl', d)])"
      using ge h by (auto simp: cl' lc cn_Get_def split: if_splits)
    moreover have "\<forall>((e, i), x) \<in> set (cells @ [(last_cell cl', d)]). e < cl_next cl' \<and> i < cn_size (cl_chunk cl' e)"
      using ce e by (force simp: cl' lc)
    ultimately show ?thesis
      using a' True l fr nx po io cl' lc unfolding list_ok_def in_order_snoc by auto
  next
    case False
    then have n: "new = [cl_next cl]" and full: "cl_list cl = [] \<or> cn_IsFull (cl_chunk cl (last (cl_list cl)))"
      using new by (auto split: if_splits)
    let ?x = "cl_next cl"
    define ch where "ch = (if cl_list cl = [] then cl_chunk cl
      else (cl_chunk cl)(last (cl_list cl) := cl_chunk cl (last (cl_list cl))\<lparr>cn_NextElement := Some ?x\<rparr>))"
    have le': "last (cl_list cl) < ?x" if "cl_list cl \<noteq> []"
      using that cl_invD(3) [OF inv(1)] by simp
    have cl': "cl_chunk cl' = ch(?x := NewChunkNode\<lparr>cn_Data := (cn_Data NewChunkNode)(0 := d), cn_size := 1\<rparr>)"
      "cl_next cl' = Suc ?x"
      using st full le' by (auto simp: cl_append_def cl_last_chunk_def cn_Add_def cl_PushBack_def ch_def Let_def split: if_splits)
    have lc: "last_cell cl' = (?x, 0)"
      using a'(3) n by (simp add: last_cell_def cl' Let_def)
    have chs: "cn_Get i (ch e) = cn_Get i (cl_chunk cl e)" "cn_size (ch e) = cn_size (cl_chunk cl e)"
      "cn_pooled (ch e) = cn_pooled (cl_chunk cl e)" for e i
      by (auto simp: ch_def cn_Get_def)
    have "Suc (last (cl_list cl)) = ?x" if "cl_list cl \<noteq> []"
      using l that by (metis Suc_pred' last_upt less_imp_le_nat upt_conv_Nil not_less zero_less_iff_neq_zero)
    then have chn: "y = Suc e" if "cn_NextElement (ch e) = Some y" for e y
      using that nx by (auto simp: ch_def split: if_splits)
    have "before (fst c) (?x, 0)" if "c \<in> set cells" for c
      using ce [of "fst (fst c)" "snd (fst c)" "snd c"] that by (auto simp: before_def)
    moreover have "\<forall>e i x. cn_Get i (cl_chunk cl' e) = Some x \<longrightarrow> ((e, i), x) \<in> set (cells @ [(last_cell cl', d)])"
      using ge by (auto simp: cl' lc chs cn_Get_def [of _ "NewChunkNode\<lparr>cn_Data := c, cn_size := s\<rparr>" for c s] split: if_splits)
    moreover have "\<forall>((e, i), x) \<in> set (cells @ [(last_cell cl', d)]). e < cl_next cl' \<and> i < cn_size (cl_chunk cl' e)"
      using ce by (force simp: cl' lc chs)
    moreover have "cl_list cl' = [frontier cl'..<cl_next cl']" using a'(3) n l le fr by (simp add: cl')
    moreover have "\<forall>e y. cn_NextElement (cl_chunk cl' e) = Some y \<longrightarrow> y = Suc e" using chn by (simp add: cl')
    moreover have "\<forall>e. cn_pooled (cl_chunk cl' e) \<longrightarrow> e < frontier cl'" using po fr by (simp add: cl' chs)
    ultimately show ?thesis using a' io lc unfolding list_ok_def in_order_snoc by auto
  qed
qed

text \<open>Expiration moves the frontier and gives no cell a new content.\<close>

lemma list_ok_expire:
  assumes ok: "list_ok cl cells" and looks: "looks_agree clk ttl 0 (cl_items cl)"
    and ex: "cl_RemoveExpiredData clk ttl cl = (n, removalInfo, cl')"
  shows "list_ok cl' cells" and "frontier cl \<le> frontier cl'"
proof -
  have inv: "cl_inv cl" "cl_chained cl" and l: "cl_list cl = [frontier cl..<cl_next cl]"
    and po: "\<And>e. cn_pooled (cl_chunk cl e) \<Longrightarrow> e < frontier cl"
    and ge: "\<And>e i d. cn_Get i (cl_chunk cl e) = Some d \<Longrightarrow> ((e, i), d) \<in> set cells"
    using ok by (auto simp: list_ok_def)
  obtain f where f: "expired_by f cl cl'" "prefix_run clk ttl 0 cl f (cl_list cl)"
    by (rule cl_RemoveExpiredData_any [OF inv(1) ex]) (use looks in blast)
  have inv': "cl_inv cl'" "cl_chained cl'"
    using cl_RemoveExpiredData_agreed(1,4) [OF inv(1) looks ex] inv(2) by blast+
  have same: "cn_NextElement (cl_chunk cl' e) = cn_NextElement (cl_chunk cl e)"
    "cn_size (cl_chunk cl' e) = cn_size (cl_chunk cl e)" "cl_next cl' = cl_next cl"
    "cn_head (cl_chunk cl' e) = cn_head (cl_chunk cl e) + f e" "cl_live cl' e = drop (f e) (cl_live cl e)"
    "f e \<le> length (cl_live cl e)" "e \<notin> set (cl_list cl) \<Longrightarrow> cl_chunk cl' e = cl_chunk cl e" for e
    using f(1) unfolding expired_by_def by blast+
  obtain gone rest where g: "cl_list cl = gone @ rest" "\<forall>e \<in> set gone. f e = length (cl_live cl e)"
    "\<forall>e \<in> set (tl rest). f e = 0" "rest \<noteq> [] \<longrightarrow> f (hd rest) < length (cl_live cl (hd rest))"
    using f(2) unfolding prefix_run_def by blast
  have "f e < length (cl_live cl e)" if e: "e \<in> set rest" for e
  proof (cases "e = hd rest")
    case True
    then show ?thesis using g(4) e by auto
  next
    case False
    then have "f e = 0" using g(3) e by (cases rest) auto
    moreover have "cl_live cl e \<noteq> []" by (rule cl_invD(7) [OF inv(1)]) (use g(1) e in simp)
    ultimately show ?thesis by (simp del: length_cn_live)
  qed
  then have l': "cl_list cl' = rest"
    using expired_byD(2) [OF f(1)] g(1,2) by (simp add: filter_id_conv filter_empty_conv)
  have r: "rest = [frontier cl + length gone..<cl_next cl]"
    using g(1) l by (metis append_eq_conv_conj drop_upt)
  show fr: "frontier cl \<le> frontier cl'"
  proof (cases "rest = []")
    case True
    then show ?thesis using l' same(3) frontier_le [OF l] by (simp add: frontier_def [of cl'])
  next
    case False
    then have "hd rest = frontier cl + length gone" using r by (metis hd_upt upt_conv_Nil leI)
    then show ?thesis using False l' by (cases rest) (auto simp: frontier_def [of cl'])
  qed
  have l2: "cl_list cl' = [frontier cl'..<cl_next cl']"
  proof (cases "rest = []")
    case True
    then show ?thesis using l' by (simp add: frontier_def)
  next
    case False
    then have "hd rest = frontier cl + length gone" using r by (metis hd_upt upt_conv_Nil leI)
    moreover have "frontier cl' = hd rest" using False l' by (cases rest) (auto simp: frontier_def [of cl'])
    ultimately show ?thesis using l' r same(3) by simp
  qed
  have "((e, i), d) \<in> set cells" if g: "cn_Get i (cl_chunk cl' e) = Some d" for e i d
  proof (rule ge)
    have "cn_head (cl_chunk cl e) + f e \<le> i" "i < cn_size (cl_chunk cl e)"
      "d = drop (f e) (cl_live cl e) ! (i - (cn_head (cl_chunk cl e) + f e))"
      using g same by (auto simp: cn_Get_live split: if_splits)
    then show "cn_Get i (cl_chunk cl e) = Some d" using same(6) [of e] by (simp add: cn_Get_live)
  qed
  moreover have "e < frontier cl'" if p: "cn_pooled (cl_chunk cl' e)" for e
  proof (cases "e \<in> set (cl_list cl)")
    case True
    then have "e < cl_next cl'" using l same(3) by simp
    moreover have "e \<notin> set (cl_list cl')" using cl_invD(5) [OF inv'(1)] p by blast
    ultimately show ?thesis using l2 by simp
  next
    case False
    then show ?thesis using p po [of e] same(7) fr by simp
  qed
  ultimately show "list_ok cl' cells" using ok inv' l2 same unfolding list_ok_def by auto
qed

section \<open>The consumer over time\<close>

text \<open>Whether a cell is behind a position, so that it cannot be read from there again.\<close>

definition behind :: "chunked_list \<Rightarrow> position \<Rightarrow> elem \<times> nat \<Rightarrow> bool" where
  "behind cl pos c = (case fst pos of None \<Rightarrow> fst c < frontier cl | Some e \<Rightarrow> before c (e, snd pos))"

definition bounded :: "chunked_list \<Rightarrow> position \<Rightarrow> cell list \<Rightarrow> bool" where
  "bounded cl pos taken \<longleftrightarrow> (\<forall>c \<in> set taken. behind cl pos (fst c))"

fun cpc_ok :: "chunked_list \<Rightarrow> cell list \<Rightarrow> cell list \<Rightarrow> position \<Rightarrow> pc \<Rightarrow> bool" where
  "cpc_ok cl cells taken pos GetFirst = (fst pos = None)"
| "cpc_ok cl cells taken pos (SetFirst f) = (fst pos = None \<and> (\<forall>c \<in> set taken. fst (fst c) < f))"
| "cpc_ok cl cells taken pos (Forget e) = (e < frontier cl)"
| "cpc_ok cl cells taken pos (Commit e i d) = (((e, i), d) \<in> set cells)"
| "cpc_ok cl cells taken pos (SkipTo e i j) = (i < j)"
| "cpc_ok cl cells taken pos (Advance e i (Some x)) = (x = Suc e)"
| "cpc_ok cl cells taken pos pc = True"

definition cr_inv :: "crace \<Rightarrow> bool" where
  "cr_inv r \<longleftrightarrow> list_ok (cr_list r) (cr_cells r)
     \<and> in_order (cr_taken r) \<and> set (cr_taken r) \<subseteq> set (cr_cells r)
     \<and> bounded (cr_list r) (c_position (cr_consumer r)) (cr_taken r)
     \<and> c_group (cr_consumer r) = None
     \<and> cpc_ok (cr_list r) (cr_cells r) (cr_taken r) (c_position (cr_consumer r)) (cr_pcs r 0)"

lemma behind_frontier: "behind cl pos c \<Longrightarrow> frontier cl \<le> frontier cl' \<Longrightarrow> behind cl' pos c"
  by (auto simp: behind_def split: option.splits)

lemma cpc_ok_later:
  "cpc_ok cl cells taken pos pc \<Longrightarrow> frontier cl \<le> frontier cl' \<Longrightarrow> cpc_ok cl' (cells @ cs) taken pos pc"
  by (induction cl cells taken pos pc rule: cpc_ok.induct) auto

text \<open>A position that does not go back keeps everything behind it.\<close>

lemma bounded_forward:
  assumes "bounded cl (Some e, i) taken" and "e < e' \<or> e = e' \<and> i \<le> i'"
  shows "bounded cl (Some e', i') taken"
  using assms by (auto simp: bounded_def behind_def before_def)

lemma bounded_forget:
  assumes "bounded cl (Some e, i) taken" and "e < frontier cl"
  shows "bounded cl (None, j) taken"
  using assms by (fastforce simp: bounded_def behind_def before_def)

lemma bounded_first:
  assumes "\<forall>c \<in> set taken. fst (fst c) < f"
  shows "bounded cl (Some f, i) taken"
  using assms by (auto simp: bounded_def behind_def before_def)

lemma GetFirst_frontier: "cl_GetFirstElement cl = Some f \<Longrightarrow> f = frontier cl"
  by (auto simp: cl_GetFirstElement_def frontier_def split: list.splits)

text \<open>What a step of the only reader does.\<close>

lemma c_micro_bounded:
  assumes ok: "list_ok cl cells" and b: "bounded cl (c_position c) taken"
    and know: "cpc_ok cl cells taken (c_position c) pc" and step: "c_micro now1 now2 cl pc c = (pc', c')"
    and ord: "in_order taken"
  shows "bounded cl (c_position c') (taken @ taken_by pc pc') \<and> in_order (taken @ taken_by pc pc')
    \<and> set (taken_by pc pc') \<subseteq> set cells \<and> c_group c' = c_group c
    \<and> cpc_ok cl cells (taken @ taken_by pc pc') (c_position c') pc'"
proof -
  have nx: "\<And>e x. cn_NextElement (cl_chunk cl e) = Some x \<Longrightarrow> x = Suc e"
    and po: "\<And>e. cn_pooled (cl_chunk cl e) \<Longrightarrow> e < frontier cl"
    and ge: "\<And>e i d. cn_Get i (cl_chunk cl e) = Some d \<Longrightarrow> ((e, i), d) \<in> set cells"
    using ok by (auto simp: list_ok_def)
  have here: "c_position c = (Some e, i)" if "c_chunkElement c = Some e" "c_indexInChunk c = i" for e i
    using that by (simp add: c_position_def)
  have stay: ?thesis if "c' = c" "taken_by pc pc' = []" "cpc_ok cl cells taken (c_position c) pc'"
    using that b ord by simp
  have look: ?thesis if "c' = c_set_position pos c" "pc' = Look \<or> pc' = Finished None" "bounded cl pos taken" for pos
    using that ord by (auto simp: taken_by_def c_position_def c_set_position_def split: pc.splits)
  show ?thesis
  proof (cases pc)
    case CheckInit
    then show ?thesis using step by (intro stay) (auto simp: taken_by_def c_position_def split: if_splits)
  next
    case GetFirst
    have "\<forall>c \<in> set taken. fst (fst c) < f" if "cl_GetFirstElement cl = Some f" for f
      using GetFirst_frontier [OF that] b know GetFirst by (auto simp: bounded_def behind_def)
    then show ?thesis using GetFirst step know by (intro stay) (auto simp: taken_by_def split: option.splits)
  next
    case (SetFirst f)
    then show ?thesis
      using step know by (intro look [of "(Some f, 0)"]) (auto simp: c_set_position_def bounded_first)
  next
    case Look
    then show ?thesis using step by (intro stay) (auto simp: taken_by_def split: option.splits)
  next
    case (CheckPooled e i)
    then show ?thesis using step po by (intro stay) (auto simp: taken_by_def split: if_splits)
  next
    case (Forget e)
    show ?thesis
    proof (cases "c_chunkElement c = Some e")
      case True
      then show ?thesis
        using Forget step know bounded_forget [OF b [unfolded here [OF True refl]]]
        by (intro look [of "(None, 0)"]) (auto simp: c_set_position_def)
    qed (use Forget step in \<open>intro stay; auto simp: taken_by_def\<close>)
  next
    case (GetSize e i)
    then show ?thesis using step by (intro stay) (auto simp: taken_by_def split: if_splits)
  next
    case (GetData e i)
    then show ?thesis using step ge by (intro stay) (auto simp: taken_by_def split: option.splits)
  next
    case (Commit e i d)
    show ?thesis
    proof (cases "c_chunkElement c = Some e \<and> c_indexInChunk c = i")
      case True
      then have p: "pc' = Finished (Some d)" "c_position c' = (Some e, Suc i)" "c_group c' = c_group c"
        using Commit step by (auto simp: c_position_def)
      have t: "taken_by pc pc' = [((e, i), d)]" using Commit p by (simp add: taken_by_def)
      have "bounded cl (Some e, i) taken" using b here True by simp
      then have "in_order (taken @ [((e, i), d)])" "bounded cl (Some e, Suc i) (taken @ [((e, i), d)])"
        using ord bounded_forward [of cl e i taken e "Suc i"]
        by (auto simp: in_order_snoc bounded_def behind_def before_def)
      then show ?thesis using t p know Commit by simp
    qed (use Commit step in \<open>intro stay; auto simp: taken_by_def\<close>)
  next
    case (LoadHead e i)
    then show ?thesis using step by (intro stay) (auto simp: taken_by_def split: if_splits)
  next
    case (SkipTo e i j)
    show ?thesis
    proof (cases "c_chunkElement c = Some e \<and> c_indexInChunk c = i")
      case True
      then show ?thesis
        using SkipTo step know bounded_forward [of cl e i taken e j] b here [of e i]
        by (intro look [of "(Some e, j)"]) (auto simp: c_set_position_def)
    qed (use SkipTo step in \<open>intro stay; auto simp: taken_by_def\<close>)
  next
    case (LoadNext e i)
    then show ?thesis using step nx [of e]
      by (intro stay; cases "cn_NextElement (cl_chunk cl e)") (auto simp: taken_by_def)
  next
    case (Advance e i n)
    show ?thesis
    proof (cases "n \<noteq> None \<and> c_chunkElement c = Some e \<and> c_indexInChunk c = i")
      case True
      then obtain x where "n = Some x" "x = Suc e" using know Advance by auto
      then show ?thesis
        using True Advance step bounded_forward [of cl e i taken x 0] b here [of e i]
        by (intro look [of "(Some x, 0)"]) (auto simp: c_set_position_def)
    qed (use Advance step in \<open>intro stay; auto simp: taken_by_def\<close>)
  qed (use step in \<open>intro stay; auto simp: taken_by_def\<close>)+
qed

text \<open>What the last part of the pass does to the position.\<close>

lemma c_Update_bounded:
  assumes ok: "list_ok cl cells" and b: "bounded cl (c_position c) taken" and sub: "set taken \<subseteq> set cells"
    and c': "c' = c_UpdatePositionAfterExpiration n (cl_GetFirstElement cl) removalInfo (cl_chunk cl) c"
  shows "bounded cl (c_position c') taken" and "c_group c' = c_group c"
    and "c_chunkElement c = None \<Longrightarrow> c' = c"
proof -
  have po: "\<And>e. cn_pooled (cl_chunk cl e) \<Longrightarrow> e < frontier cl" and l: "cl_list cl = [frontier cl..<cl_next cl]"
    and ce: "\<And>e i d. ((e, i), d) \<in> set cells \<Longrightarrow> e < cl_next cl" using ok by (auto simp: list_ok_def)
  show "c_group c' = c_group c" "c_chunkElement c = None \<Longrightarrow> c' = c"
    using c' by (auto simp: c_UpdatePositionAfterExpiration_def split: prod.splits)
  show "bounded cl (c_position c') taken"
  proof (cases "c_group c \<noteq> None \<or> c_chunkElement c = None \<or> n = 0")
    case True
    then have "c' = c" using c' by (auto simp: c_UpdatePositionAfterExpiration_def)
    then show ?thesis using b by simp
  next
    case False
    then obtain e where e: "c_chunkElement c = Some e" by auto
    let ?i = "c_indexInChunk c"
    have be: "bounded cl (Some e, ?i) taken" using b e by (simp add: c_position_def)
    have p: "c_position c' = update_position (cl_GetFirstElement cl) removalInfo (cl_chunk cl) (Some e, ?i)"
      using False c' e by (simp add: c_UpdatePositionAfterExpiration_def c_position_def split: prod.split)
    define j where "j = (case find (\<lambda>info. Some (ri_Element info) = Some e) removalInfo of
        Some info \<Rightarrow> if ?i < ri_NewHead info then ri_NewHead info else ?i | None \<Rightarrow> ?i)"
    have j: "?i \<le> j" "c_position c' = (case cl_GetFirstElement cl of
        Some f \<Rightarrow> if cn_pooled (cl_chunk cl e) then (Some f, 0) else (Some e, j) | None \<Rightarrow> (None, 0))"
      unfolding p update_position_def j_def by (simp_all add: Let_def split: option.splits)
    show ?thesis
    proof (cases "cl_GetFirstElement cl")
      case None
      then have "cl_list cl = []" by (auto simp: cl_GetFirstElement_def split: list.splits)
      then have "frontier cl = cl_next cl" by (simp add: frontier_def)
      then have "bounded cl (None, 0) taken" using sub ce by (fastforce simp: bounded_def behind_def)
      then show ?thesis using j None by simp
    next
      case (Some f)
      then have "f = frontier cl" by (rule GetFirst_frontier)
      then show ?thesis
        using j Some be bounded_forward [OF be, of f 0] bounded_forward [OF be, of e j] po [of e] by auto
    qed
  qed
qed

lemma c_Notify_position:
  "c_NotifyExpiredItems n c = Some c' \<Longrightarrow> c_position c' = c_position c \<and> c_group c' = c_group c"
  by (auto simp: c_NotifyExpiredItems_def c_position_def split: if_splits)

lemma cpc_ok_moved:
  assumes "cpc_ok cl cells taken pos pc" and "fst pos = None \<Longrightarrow> pos' = pos"
  shows "cpc_ok cl cells taken pos' pc"
  using assms by (induction cl cells taken pos pc rule: cpc_ok.induct) auto

lemma cr_step_inv:
  assumes inv: "cr_inv r" and solo: "solo a" and agree: "agreed a r"
  shows "cr_inv (cr_step a r)"
proof -
  have ok: "list_ok (cr_list r) (cr_cells r)" and o: "in_order (cr_taken r)" and sub: "set (cr_taken r) \<subseteq> set (cr_cells r)"
    and b: "bounded (cr_list r) (c_position (cr_consumer r)) (cr_taken r)" and g: "c_group (cr_consumer r) = None"
    and k: "cpc_ok (cr_list r) (cr_cells r) (cr_taken r) (c_position (cr_consumer r)) (cr_pcs r 0)"
    using inv by (simp_all add: cr_inv_def)
  have later: "bounded cl (c_position (cr_consumer r)) (cr_taken r)" if "frontier (cr_list r) \<le> frontier cl" for cl
    using b behind_frontier [OF _ that] unfolding bounded_def by blast
  show ?thesis
  proof (cases a)
    case (CBegin t)
    then have "t = 0" using solo by (simp add: solo_def)
    then show ?thesis using inv CBegin by (cases "cr_pcs r 0") (simp_all add: cr_inv_def)
  next
    case (CGo t now1 now2)
    then have t: "t = 0" using solo by (simp add: solo_def)
    obtain pc c where s: "c_micro now1 now2 (cr_list r) (cr_pcs r 0) (cr_consumer r) = (pc, c)" by fastforce
    show ?thesis
      using c_micro_bounded [OF ok b k s o] ok sub g inv CGo t s by (auto simp: cr_inv_def Let_def)
  next
    case (CStore d)
    show ?thesis
    proof (cases "cr_phase r = Unlocked")
      case True
      obtain new cl1 where ap: "cl_append d (cr_list r) = (True, cl1)" "appended d (cr_list r) new cl1"
        "new = (if cl_list (cr_list r) = [] \<or> cn_IsFull (cl_chunk (cr_list r) (last (cl_list (cr_list r))))
                then [cl_next (cr_list r)] else [])"
        by (rule cl_append_spec [of "cr_list r" d]) (use ok in \<open>auto simp: list_ok_def\<close>)
      note S = list_ok_store [OF ok ap]
      show ?thesis
      proof (cases "mt_CanAddData d (cl_memoryTracker (cr_list r))")
        case can: True
        then have "cl_Enqueue d (cr_list r) = (None, cl1)" using ap(1) by (simp add: cl_Enqueue_def)
        then show ?thesis
          using CStore True S o sub g later [of cl1] cpc_ok_later [OF k, of cl1] by (auto simp: cr_inv_def)
      next
        case False
        obtain needed mt where e: "mt_EstimateQueueDataSize (Some d) (cl_memoryTracker (cr_list r)) = (needed, mt)"
          by fastforce
        have fr: "frontier (cr_list r\<lparr>cl_memoryTracker := mt\<rparr>) = frontier (cr_list r)"
          by (simp add: frontier_def split: list.split)
        have ok': "list_ok (cr_list r\<lparr>cl_memoryTracker := mt\<rparr>) (cr_cells r)"
        proof -
          have "cl_chained (cr_list r)" using ok unfolding list_ok_def by blast
          then have "cl_chained (cr_list r\<lparr>cl_memoryTracker := mt\<rparr>)" by (simp add: cl_chained_def)
          then show ?thesis using ok unfolding list_ok_def fr by simp
        qed
        show ?thesis
          using CStore True False e ok' o sub g later [of "cr_list r\<lparr>cl_memoryTracker := mt\<rparr>"]
            cpc_ok_later [OF k, of "cr_list r\<lparr>cl_memoryTracker := mt\<rparr>" "[]"]
          by (simp add: cr_inv_def cl_Enqueue_def fr)
      qed
    qed (use CStore inv in simp)
  next
    case (CRemove clk ttl)
    show ?thesis
    proof (cases "cr_phase r = Unlocked")
      case True
      obtain n infos cl where x: "cl_RemoveExpiredData clk ttl (cr_list r) = (n, infos, cl)"
        by (metis prod.exhaust)
      have "looks_agree clk ttl 0 (cl_items (cr_list r))" using agree CRemove True by (simp add: agreed_def)
      note E = list_ok_expire [OF ok this x]
      show ?thesis
        using CRemove True x E o sub g later [OF E(2)] cpc_ok_later [OF k E(2), of "[]"]
        by (simp add: cr_inv_def)
    qed (use CRemove inv in simp)
  next
    case CPass
    show ?thesis
    proof (cases "cr_phase r")
      case (Telling n infos)
      let ?c = "if n > 0 then (case c_NotifyExpiredItems n (cr_consumer r) of None \<Rightarrow> cr_consumer r | Some c \<Rightarrow> c)
        else cr_consumer r"
      have "c_position ?c = c_position (cr_consumer r) \<and> c_group ?c = c_group (cr_consumer r)"
        using c_Notify_position by (auto split: option.split)
      then show ?thesis using CPass Telling inv by (simp add: cr_inv_def)
    next
      case (Moving infos)
      let ?c = "c_UpdatePositionAfterExpiration (fold (\<lambda>info total. total + ri_RemovedCount info) infos 0)
        (cl_GetFirstElement (cr_list r)) infos (cl_chunk (cr_list r)) (cr_consumer r)"
      note U = c_Update_bounded [OF ok b sub refl, of "fold (\<lambda>info total. total + ri_RemovedCount info) infos 0" infos]
      have "c_position ?c = c_position (cr_consumer r)" if "fst (c_position (cr_consumer r)) = None"
        using U(3) that by (simp add: c_position_def)
      then have "cpc_ok (cr_list r) (cr_cells r) (cr_taken r) (c_position ?c) (cr_pcs r 0)"
        by (rule cpc_ok_moved [OF k])
      then show ?thesis using CPass Moving U(1,2) ok o sub g by (simp add: cr_inv_def)
    qed (use CPass inv in \<open>simp_all add: cr_inv_def\<close>)
  qed
qed

lemma cr_start_inv:
  assumes "c_chunkElement c = None" and "c_group c = None"
  shows "cr_inv (cr_start maxMemory c)"
  using assms
  by (simp add: cr_inv_def cr_start_def list_ok_def NewChunkedList_def cl_inv_def cl_items_def cl_chained_def
      frontier_def cn_Get_def bounded_def)

lemma cr_run_inv:
  assumes "cr_inv r" and "\<forall>a \<in> set as. solo a" and "agreed_run as r"
  shows "cr_inv (cr_run as r)"
  using assms by (induction as arbitrary: r) (simp_all add: cr_run_def cr_step_inv)

end
