(* ===== verification/MQ_Interleavings.thy ===== *)
theory MQ_Interleavings
  imports MQ_GroupRace MQ_ConsumerRace
begin

text \<open>
  Properties of reads that interfere with each other, with storing and with expiration: what every
  interleaving keeps, and three schedules that the checks in the code do not catch.
\<close>

section \<open>Every interleaving\<close>

text \<open>C7. Run alone, the atomic steps are the operation: from its start, the steps of a group's and of a
  consumer's \<^verbatim>\<open>TryRead\<close> end, with the result and the state of the operation as a whole.\<close>

theorem steps_alone:
  assumes "cl_inv cl" and "cl_chained cl" and "pos_ok cl (cg_getPosition cg)" and "\<not> cg_closed cg"
    and "pos_ok cl (c_position c)"
  shows "(\<exists>n r cg'. cg_TryRead False cl cg = Some (r, cg')
         \<and> alone (cg_micro cl) n (CheckInit, cg) = (Finished r, cg'))
    \<and> (\<exists>n r c'. c_TryReadOwn now1 now2 cl c = Some (r, c')
         \<and> alone (c_micro now1 now2 cl) n (CheckInit, c) = (Finished r, c'))"
proof
  obtain r cg' where g: "cg_TryRead False cl cg = Some (r, cg')"
    by (rule cg_TryRead_unread [OF assms(1-4)])
  then show "\<exists>n r cg'. cg_TryRead False cl cg = Some (r, cg')
      \<and> alone (cg_micro cl) n (CheckInit, cg) = (Finished r, cg')"
    using cg_TryRead_alone [OF g assms(4)] by blast
  have "c_TryReadOwn now1 now2 cl c = cr.read_from now1 now2 cl c"
    by (simp add: c_TryReadOwn_def cr.read_from_def c_position_def c_set_position_def split: option.split)
  then obtain r c' where o: "c_TryReadOwn now1 now2 cl c = Some (r, c')"
    using cr.read_from_unread [OF assms(1,2,5), of now1 now2] by (metis prod.exhaust)
  then show "\<exists>n r c'. c_TryReadOwn now1 now2 cl c = Some (r, c')
      \<and> alone (c_micro now1 now2 cl) n (CheckInit, c) = (Finished r, c')"
    using c_TryReadOwn_alone [OF o] by blast
qed

text \<open>The list of the witnesses: one item in one chunk; a new group; a new consumer.\<close>

lemma ex_race_inv: "cl_inv (q_data ex_stored)" "cl_chained (q_data ex_stored)" "cl_items (q_data ex_stored) = [ex_item]"
  "pos_ok (q_data ex_stored) (cg_getPosition (NewConsumerGroup name))" "\<not> cg_closed (NewConsumerGroup name)"
  "unread (q_data ex_stored) (cg_getPosition (NewConsumerGroup name)) = [ex_item]"
  using q_invD(1,2) [OF ex_stored_inv(1)] ex_stored_item
  by (simp_all add: q_items_def NewConsumerGroup_def cg_getPosition_def)

theorem steps_alone_witness:
  "\<exists>n r cg'. cg_TryRead False (q_data ex_stored) (NewConsumerGroup ''g'') = Some (r, cg')
     \<and> alone (cg_micro (q_data ex_stored)) n (CheckInit, NewConsumerGroup ''g'') = (Finished r, cg')"
  using steps_alone [OF ex_race_inv(1,2,4,5), of "NewConsumer ''c'' None 0" "''g''" 0 0]
  by (simp add: c_position_def NewConsumer_def)

text \<open>C8. Members of a group that read at the same time, in any number and any interleaving with storing:
  as long as nothing expires, no item is given twice, out of order or out of nothing. What was
  given, in the order of the commits, and what is left form a subsequence of what was left at the
  start and what was put.\<close>

theorem interleaved_at_most_once:
  assumes "cl_inv cl" and "cl_chained cl" and "pos_ok cl (cg_getPosition cg)" and "\<not> cg_closed cg"
    and "\<forall>a \<in> set as. no_expiry a"
  shows "subseq (ra_given (race_run as (race_start cl cg)) @ ra_left (race_run as (race_start cl cg)))
    (unread cl (cg_getPosition cg) @ ra_put (race_run as (race_start cl cg)))"
  using race_run_inv [OF race_start_inv [OF assms(1-4), of False] assms(5)]
  by (auto simp: race_link_def race_start_def ra_left_def)

theorem interleaved_at_most_once_witness:
  "subseq (ra_given (race_run [Begin 0, Go 0, Begin 1, Go 1, StoreBatch [ex_item], Go 0, Go 1]
        (race_start (q_data ex_stored) (NewConsumerGroup ''g'')))
      @ ra_left (race_run [Begin 0, Go 0, Begin 1, Go 1, StoreBatch [ex_item], Go 0, Go 1]
        (race_start (q_data ex_stored) (NewConsumerGroup ''g''))))
    (unread (q_data ex_stored) (cg_getPosition (NewConsumerGroup ''g''))
      @ ra_put (race_run [Begin 0, Go 0, Begin 1, Go 1, StoreBatch [ex_item], Go 0, Go 1]
        (race_start (q_data ex_stored) (NewConsumerGroup ''g''))))"
  by (rule interleaved_at_most_once [OF ex_race_inv(1,2,4,5)]) (simp add: no_expiry_def)

text \<open>C9. If moreover nothing is stored while a goroutine is between its looks at a chunk's size and at
  the chunk's successor, then nothing is lost either: what was given and what is left are exactly
  what was left at the start and what was put. And a read that returned nil was right at some
  moment of its call: the group had nothing left then.\<close>

theorem interleaved_exactly_once:
  assumes "cl_inv cl" and "cl_chained cl" and "pos_ok cl (cg_getPosition cg)" and "\<not> cg_closed cg"
    and "\<forall>a \<in> set as. no_expiry a" and "calm_run as (race_start cl cg)"
  shows "ra_given (race_run as (race_start cl cg)) @ ra_left (race_run as (race_start cl cg))
      = unread cl (cg_getPosition cg) @ ra_put (race_run as (race_start cl cg))
    \<and> (\<forall>t. ra_pcs (race_run as (race_start cl cg)) t = Finished None \<longrightarrow> ra_dry (race_run as (race_start cl cg)) t)"
proof -
  let ?r = "race_run as (race_start cl cg)"
  have R: "race_inv True ?r" "race_link True (race_start cl cg) ?r"
    using race_run_inv [OF race_start_inv [OF assms(1-4), of True] assms(5)] assms(6) by blast+
  have "ra_dry ?r t" if "ra_pcs ?r t = Finished None" for t
    proof -
    have "pc_ok True (ra_list ?r) (cg_getPosition (ra_group ?r)) (ra_dry ?r t) (ra_pcs ?r t)"
      using R(1) unfolding race_inv_def by blast
    then show ?thesis using that by simp
  qed
  then show ?thesis using R(2) by (auto simp: race_link_def race_start_def ra_left_def)
qed

theorem interleaved_exactly_once_witness:
  "ra_given (race_run [StoreBatch [ex_item], Begin 0, Go 0, Go 0, Begin 1, Go 1]
        (race_start (q_data ex_stored) (NewConsumerGroup ''g'')))
      @ ra_left (race_run [StoreBatch [ex_item], Begin 0, Go 0, Go 0, Begin 1, Go 1]
        (race_start (q_data ex_stored) (NewConsumerGroup ''g'')))
    = unread (q_data ex_stored) (cg_getPosition (NewConsumerGroup ''g''))
      @ ra_put (race_run [StoreBatch [ex_item], Begin 0, Go 0, Go 0, Begin 1, Go 1]
        (race_start (q_data ex_stored) (NewConsumerGroup ''g'')))"
proof -
  have "calm_run [StoreBatch [ex_item], Begin 0, Go 0, Go 0, Begin 1, Go 1]
      (race_start (q_data ex_stored) (NewConsumerGroup ''g''))"
    by (simp add: calm_step_def stores_def race_start_def between_looks_def)
  then show ?thesis
    using interleaved_exactly_once [OF ex_race_inv(1,2,4,5), of "[StoreBatch [ex_item], Begin 0, Go 0, Go 0, Begin 1, Go 1]" "''g''"]
    by (simp add: no_expiry_def)
qed

text \<open>C10. A consumer that is read by one goroutine, in any interleaving of its steps with storing and with
  expiration passes that stop at the consumer's lock in the middle, as long as in each pass the two
  looks at the item it stops at agree: the items it takes are a subsequence of those stored, so none
  twice and none out of order.\<close>

theorem consumer_at_most_once:
  assumes "c_chunkElement c = None" and "c_group c = None" and "\<forall>a \<in> set as. solo a"
    and "agreed_run as (cr_start maxMemory c)"
  shows "subseq (map snd (cr_taken (cr_run as (cr_start maxMemory c))))
    (map snd (cr_cells (cr_run as (cr_start maxMemory c))))"
proof -
  have "cr_inv (cr_run as (cr_start maxMemory c))"
    by (rule cr_run_inv [OF cr_start_inv [OF assms(1,2)] assms(3,4)])
  then have "subseq (cr_taken (cr_run as (cr_start maxMemory c))) (cr_cells (cr_run as (cr_start maxMemory c)))"
    by (auto simp: cr_inv_def list_ok_def intro: in_order_subseq)
  then show ?thesis by (rule subseq_map)
qed

theorem consumer_at_most_once_witness:
  "subseq (map snd (cr_taken (cr_run [CStore ex_item, CBegin 0, CGo 0 6 6, CRemove (\<lambda>_. 100) 60, CGo 0 7 7, CPass]
        (cr_start 0 (NewConsumer ''c'' None 0)))))
    (map snd (cr_cells (cr_run [CStore ex_item, CBegin 0, CGo 0 6 6, CRemove (\<lambda>_. 100) 60, CGo 0 7 7, CPass]
        (cr_start 0 (NewConsumer ''c'' None 0)))))"
  by (rule consumer_at_most_once) (simp_all add: NewConsumer_def solo_def agreed_def looks_agree_steady)

section \<open>What the checks do not catch\<close>

text \<open>C11. Items can be lost: a reader that has read all of a chunk looks at the chunk's size and, without
  a lock, at its successor. If in between a batch fills the chunk and begins the next one, the
  reader moves on to the next chunk, and the items that filled the rest of its chunk are never
  given to it (for a chunk with \<open>i\<close> items these are \<open>1000 - i\<close>).\<close>

theorem full_chunk_skipped:
  assumes "cl_inv cl" and "cl_chained cl" and "cg_getPosition cg = (Some e, i)" and "pos_ok cl (Some e, i)"
    and "\<not> cg_closed cg" and "unread cl (Some e, i) = []" and "1000 - i < length ds"
    and "r = race_run [Begin 0, Go 0, Go 0, Go 0, Go 0, StoreBatch ds, Go 0, Go 0] (race_start cl cg)"
  shows "ra_given r = [] \<and> ra_put r = ds \<and> ra_left r = drop (1000 - i) ds"
proof -
  have e: "e \<in> set (cl_list cl)" and i: "i \<le> cn_size (cl_chunk cl e)" using assms(4) by (simp_all add: pos_ok_def)
  note np = cl_invD(5) [OF assms(1) e] and cn = cn_inv_le [OF cl_invD(4) [OF assms(1) e]]
  have full: "\<not> i < cn_size (cl_chunk cl e)"
  proof
    assume "i < cn_size (cl_chunk cl e)"
    moreover obtain pre post where s: "cl_list cl = pre @ e # post" using e by (auto dest: split_list)
    ultimately show False using unread_split [OF assms(1) s i] assms(6) cn cl_invD(6) [OF assms(1) e]
      by (auto simp: cn_IsEmpty_def)
  qed
  obtain cl' where b: "cl_EnqueueBatch ds cl = (None, cl')" "kept ds cl cl'"
    by (rule cl_EnqueueBatch_kept [OF assms(1,2)])
  have I: "cl_inv cl'" "cl_chained cl'" "pos_ok cl' (Some e, i)" "unread cl' (Some e, i) = ds"
    using b(2) assms(4,6) unfolding kept_def by fastforce+
  obtain pre post where s: "cl_list cl' = pre @ e # post" and i': "i \<le> cn_size (cl_chunk cl' e)"
    using I(3) by (auto simp: pos_ok_def dest: split_list)
  then have cn': "cn_head (cl_chunk cl' e) \<le> cn_size (cl_chunk cl' e) \<and> cn_size (cl_chunk cl' e) \<le> 1000"
    using cn_inv_le [OF cl_invD(4) [OF I(1), of e]] by simp
  have h: "cn_head (cl_chunk cl' e) \<le> i"
    using b(2) e cn full unfolding kept_def by (metis leI order.trans)
  have len: "length (drop (i - cn_head (cl_chunk cl' e)) (cl_live cl' e)) = cn_size (cl_chunk cl' e) - i"
    using h i' by simp
  have "cn_NextElement (cl_chunk cl' e) \<noteq> None"
  proof
    assume "cn_NextElement (cl_chunk cl' e) = None"
    then have "post = []"
      using I(2) s linked_full [of "cl_chunk cl'" pre e] by (cases post) (auto simp: cl_chained_def)
    then have "length ds = cn_size (cl_chunk cl' e) - i"
      using unread_split [OF I(1) s i'] I(4) len by simp
    then show False using assms(7) cn' by arith
  qed
  then obtain x where x: "cn_NextElement (cl_chunk cl' e) = Some x" by blast
  note S = unread_successor(3,4) [OF I(1,2,3) x]
  have "drop (1000 - i) ds = unread cl' (Some x, 0)"
    using S len I(4) by (metis append_eq_conv_conj)
  then show ?thesis
    using assms(3,5,8) np full b(1) x
    by (simp add: race_run_def race_step_def race_start_def ra_left_def is_ready_def given_by_def
        cg_getPosition_def Let_def)
qed

text \<open>A list with a single item, and the same after the item has expired.\<close>

definition one_chunk :: "queue_data \<Rightarrow> chunk_node" where
  "one_chunk d = NewChunkNode\<lparr>cn_Data := (cn_Data NewChunkNode)(0 := d), cn_size := 1\<rparr>"

lemma one_chunk_simps [simp]:
  "cn_size (one_chunk d) = 1" "cn_head (one_chunk d) = 0" "\<not> cn_pooled (one_chunk d)"
  "cn_NextElement (one_chunk d) = None" "cn_Data (one_chunk d) 0 = d" "cn_Get 0 (one_chunk d) = Some d"
  by (simp_all add: one_chunk_def cn_Get_def)

lemma one_item:
  obtains cl1 where "cl_EnqueueBatch [d] (NewChunkedList mt) = (None, cl1)" "cl_list cl1 = [0]"
    "cl_chunk cl1 0 = one_chunk d" "cl_GetFirstElement cl1 = Some 0"
proof -
  have "\<exists>cl1. cl_EnqueueBatch [d] (NewChunkedList mt) = (None, cl1) \<and> cl_list cl1 = [0] \<and> cl_chunk cl1 0 = one_chunk d"
    by (simp add: NewChunkedList_def cl_append_def cl_last_chunk_def cl_PushBack_def cl_track_def cl_set_chunk_def
        cn_Add_def one_chunk_def Let_def)
  then show ?thesis using that by (auto simp: cl_GetFirstElement_def)
qed

lemma one_item_expires:
  assumes "cl_list cl1 = [0]" "cl_chunk cl1 0 = one_chunk d" "qd_IsExpired (clk 0) ttl d"
  obtains cl2 where "cl_RemoveExpiredData clk ttl cl1
      = (1, [\<lparr>ri_Element = 0, ri_RemovedCount = 1, ri_OldHead = 0, ri_NewHead = 1\<rparr>], cl2)"
    "cl_list cl2 = []"
proof -
  let ?cn = "one_chunk d\<lparr>cn_Data := (cn_Data (one_chunk d))(0 := zero_queue_data), cn_head := 1\<rparr>"
  have "cn_RemoveExpired clk ttl 0 (one_chunk d) = (1, [d], ?cn, 1)"
    using assms(3) by (simp add: cn_RemoveExpired_def RemoveExpired_loop.simps)
  then have "\<exists>cl2. cl_RemoveExpiredData clk ttl cl1
      = (1, [\<lparr>ri_Element = 0, ri_RemovedCount = 1, ri_OldHead = 0, ri_NewHead = 1\<rparr>], cl2) \<and> cl_list cl2 = []"
    using assms(1,2) by (simp add: cl_RemoveExpiredData_def cl_expire_chunk_def cn_IsEmpty_def cl_forget_def Let_def)
  then show ?thesis using that by blast
qed

text \<open>A batch of 1000 after a single item that was read: 999 of them are lost.\<close>

definition ex_one :: chunked_list where
  "ex_one = snd (cl_EnqueueBatch [ex_item] (NewChunkedList (NewMemoryTracker 0)))"

theorem full_chunk_skipped_witness:
  "\<exists>r. r = race_run [Begin 0, Go 0, Go 0, Go 0, Go 0, StoreBatch (replicate 1000 ex_item), Go 0, Go 0]
        (race_start ex_one ((NewConsumerGroup ''g'')\<lparr>cg_chunkElement := Some 0, cg_indexInChunk := 1\<rparr>))
     \<and> ra_given r = [] \<and> length (ra_put r) = 1000 \<and> ra_left r = [ex_item]"
proof -
  let ?cg = "(NewConsumerGroup ''g'')\<lparr>cg_chunkElement := Some 0, cg_indexInChunk := 1\<rparr>"
  have new: "cl_inv (NewChunkedList mt)" "cl_chained (NewChunkedList mt)" "cl_items (NewChunkedList mt) = []" for mt
    by (simp_all add: NewChunkedList_def cl_inv_def cl_items_def cl_chained_def)
  obtain cl1 where c: "cl_EnqueueBatch [ex_item] (NewChunkedList (NewMemoryTracker 0)) = (None, cl1)"
    "cl_list cl1 = [0]" "cl_chunk cl1 0 = one_chunk ex_item" by (rule one_item)
  obtain cl2 where k: "cl_EnqueueBatch [ex_item] (NewChunkedList (NewMemoryTracker 0)) = (None, cl2)"
    "kept [ex_item] (NewChunkedList (NewMemoryTracker 0)) cl2"
    by (rule cl_EnqueueBatch_kept [OF new(1,2)])
  have one: "cl1 = ex_one" "cl2 = ex_one" using c(1) k(1) by (simp_all add: ex_one_def)
  have inv: "cl_inv ex_one" "cl_chained ex_one" using k(2) one by (simp_all add: kept_def)
  have ok: "pos_ok ex_one (Some 0, 1)" using c(2,3) one by (simp add: pos_ok_def)
  have left: "unread ex_one (Some 0, 1) = []"
    using unread_split [OF inv(1), of "[]" 0 "[]" 1] c(2,3) one by simp
  have p: "cg_getPosition ?cg = (Some 0, 1)" "\<not> cg_closed ?cg" by (simp_all add: cg_getPosition_def NewConsumerGroup_def)
  show ?thesis
    using full_chunk_skipped [OF inv p(1) ok p(2) left _ refl, of "replicate 1000 ex_item"] by simp
qed

text \<open>An item can be given twice to a group when goroutines are held up: one before it sets the first
  position of the group, another before it commits the item it has fetched. In between a third
  reads the item, it expires, the list becomes empty and the position is reset; the first goroutine
  then sets the stale position, at which the second finds its check confirmed.\<close>

theorem stalled_members_repeat:
  assumes "qd_IsExpired (clk 0) ttl d"
    and "r = race_run [StoreBatch [d], Begin 0, Go 0, Go 0, Begin 1, Go 1, Go 1, Go 1,
      Begin 2, Go 2, Go 2, Go 2, Go 2, Go 2, Go 1, Go 1, Go 1, Go 1, Go 1, Expire clk ttl, Go 0, Go 2]
      (race_start (NewChunkedList (NewMemoryTracker 0)) (NewConsumerGroup ''g''))"
  shows "ra_put r = [d] \<and> ra_given r = [d, d]"
proof -
  obtain cl1 where cl1: "cl_EnqueueBatch [d] (NewChunkedList (NewMemoryTracker 0)) = (None, cl1)" "cl_list cl1 = [0]"
    "cl_chunk cl1 0 = one_chunk d" "cl_GetFirstElement cl1 = Some 0" by (rule one_item)
  obtain cl2 where cl2: "cl_RemoveExpiredData clk ttl cl1
      = (1, [\<lparr>ri_Element = 0, ri_RemovedCount = 1, ri_OldHead = 0, ri_NewHead = 1\<rparr>], cl2)"
    "cl_list cl2 = []" by (rule one_item_expires [where clk = clk and ttl = ttl, OF cl1(2,3) assms(1)])
  then have "cl_GetFirstElement cl2 = None" by (simp add: cl_GetFirstElement_def)
  then show ?thesis
    unfolding assms(2) race_run_plain using cl1 cl2
    by (simp add: race_start_def undry_def is_ready_def given_by_def NewConsumerGroup_def
        notify_group_def cg_UpdatePositionAfterExpiration_def update_position_def calculateExpiredCount_def Let_def
        del: cl_EnqueueBatch.simps)
qed

theorem stalled_members_repeat_witness:
  "\<exists>r. r = race_run [StoreBatch [ex_item], Begin 0, Go 0, Go 0, Begin 1, Go 1, Go 1, Go 1,
      Begin 2, Go 2, Go 2, Go 2, Go 2, Go 2, Go 1, Go 1, Go 1, Go 1, Go 1, Expire (\<lambda>_. 100) 60, Go 0, Go 2]
      (race_start (NewChunkedList (NewMemoryTracker 0)) (NewConsumerGroup ''g''))
     \<and> ra_put r = [ex_item] \<and> ra_given r = [ex_item, ex_item]"
proof -
  have "qd_IsExpired 100 60 ex_item" by code_simp
  then show ?thesis using stalled_members_repeat [OF _ refl, of "\<lambda>_. 100"] by blast
qed

text \<open>Two goroutines that make the first reads of one consumer can both get its first item: the second
  sets the position after the first has already read, since this is not checked again under the lock
  (in a group it is).\<close>

theorem first_reads_repeat:
  assumes "mt_CanAddData d (NewMemoryTracker maxMemory)" and "c_chunkElement c = None" and "\<not> c_closed c"
    and "r = cr_run [CStore d, CBegin 0, CGo 0 t t, CGo 0 t t,
        CBegin 1, CGo 1 t t, CGo 1 t t, CGo 1 t t, CGo 1 t t, CGo 1 t t, CGo 1 t t, CGo 1 t t, CGo 1 t t,
        CGo 0 t t, CGo 0 t t, CGo 0 t t, CGo 0 t t, CGo 0 t t, CGo 0 t t] (cr_start maxMemory c)"
  shows "map snd (cr_cells r) = [d] \<and> map snd (cr_taken r) = [d, d]
    \<and> cr_pcs r 0 = Finished (Some d) \<and> cr_pcs r 1 = Finished (Some d)"
proof -
  obtain cl1 where cl1: "cl_EnqueueBatch [d] (NewChunkedList (NewMemoryTracker maxMemory)) = (None, cl1)"
    "cl_list cl1 = [0]" "cl_chunk cl1 0 = one_chunk d" "cl_GetFirstElement cl1 = Some 0" by (rule one_item)
  have "cl_Enqueue d (NewChunkedList (NewMemoryTracker maxMemory)) = (None, cl1)"
    using cl1(1) assms(1) by (auto simp: cl_Enqueue_def NewChunkedList_def split: prod.splits if_splits)
  then show ?thesis
    unfolding assms(4) using cl1 assms(2,3)
    by (simp add: cr_run_def cr_start_def needs_queue_lock_def taken_by_def)
qed

theorem first_reads_repeat_witness:
  "\<exists>r. r = cr_run [CStore ex_item, CBegin 0, CGo 0 6 6, CGo 0 6 6,
        CBegin 1, CGo 1 6 6, CGo 1 6 6, CGo 1 6 6, CGo 1 6 6, CGo 1 6 6, CGo 1 6 6, CGo 1 6 6, CGo 1 6 6,
        CGo 0 6 6, CGo 0 6 6, CGo 0 6 6, CGo 0 6 6, CGo 0 6 6, CGo 0 6 6] (cr_start 0 (NewConsumer ''c'' None 0))
     \<and> map snd (cr_cells r) = [ex_item] \<and> map snd (cr_taken r) = [ex_item, ex_item]"
proof -
  have m: "mt_CanAddData ex_item (NewMemoryTracker 0)" by code_simp
  have c: "c_chunkElement (NewConsumer ''c'' None 0) = None" "\<not> c_closed (NewConsumer ''c'' None 0)"
    by (simp_all add: NewConsumer_def)
  show ?thesis using first_reads_repeat [OF m c refl] by blast
qed

end
