(* ===== verification/MQ_Shell.thy ===== *)
theory MQ_Shell
  imports MQ_Run MQ_Text
begin

text \<open>
  The command line tool \<^verbatim>\<open>qctl\<close> (\<^verbatim>\<open>cmd/qctl/main.go\<close>): a map of queues, one command for each line, and
  for each subscription a goroutine that prints what it reads. Each handler returns what it prints
  and the new state. The steps interleave the lines typed, the goroutines and the expiration workers
  of the queues.
\<close>

section \<open>State\<close>

text \<open>
  A goroutine of \<^verbatim>\<open>handleSub\<close>: it is about to try a read, waits in the \<^verbatim>\<open>select\<close> of \<^verbatim>\<open>Read\<close>, or is over.
\<close>

datatype sub_state = Trying | Waiting | Over

record subscriber =
  sb_id :: string
  sb_queue :: string
  sb_consumer :: cptr
  sb_state :: sub_state

text \<open>
  The two maps of the program, with the consumers as the queue's name and the address there; the
  goroutines started; and the package's counter of identifiers, which all queues share.
\<close>

record shell =
  sh_queues :: "(string \<times> queue) list"
  sh_consumers :: "(string \<times> string \<times> cptr) list"
  sh_subs :: "subscriber list"
  sh_sequence :: "64 word"

definition sh_start :: shell where
  "sh_start = \<lparr>sh_queues = [], sh_consumers = [], sh_subs = [], sh_sequence = 0\<rparr>"

definition sh_queue :: "string \<Rightarrow> shell \<Rightarrow> queue option" where
  "sh_queue name sh =
     map_option (\<lambda>q. q\<lparr>q_dataIDSequence := sh_sequence sh\<rparr>) (map_of (sh_queues sh) name)"

definition sh_put :: "string \<Rightarrow> queue \<Rightarrow> shell \<Rightarrow> shell" where
  "sh_put name q sh =
     sh\<lparr>sh_queues := AList.update name q (sh_queues sh), sh_sequence := q_dataIDSequence q\<rparr>"

text \<open>
  What a command takes from outside: the time, a new consumer's identifier, and the order in which
  the loop over the map of queues goes.
\<close>

record outside =
  io_now :: time
  io_uuid :: string
  io_order :: "string list"

section \<open>The handlers\<close>

definition println :: "string \<Rightarrow> string" where
  "println s = s @ [CHR 0x0A]"

definition quoted :: "string \<Rightarrow> string" where
  "quoted s = [CHR 0x27] @ s @ [CHR 0x27]"

definition not_found :: "string \<Rightarrow> string" where
  "not_found name = println (''Queue '' @ quoted name @ '' not found'')"

definition handleHelp :: string where
  "handleHelp =
     println '''' @
     println ''Commands:'' @
     println ''  create <name> [ttl_sec]  Create a new queue (default 1MB limit)'' @
     println ''  list                     List all active queues'' @
     println ''  stats <name>             Show stats for a queue'' @
     println ''  pub <name> <data...>     Enqueue a string message'' @
     println ''  sub <name>               Create a background consumer that prints messages'' @
     println ''  exit                     Exit the shell''"

text \<open>The TTL of \<^verbatim>\<open>create\<close>: \<^verbatim>\<open>time.Duration(sec) * time.Second\<close> wraps around.\<close>

definition create_ttl :: "string list \<Rightarrow> duration" where
  "create_ttl args =
     (let ttl = 10 * 60 * 1000000000
      in if length args > 1
         then (case strconv_Atoi (args ! 1) of None \<Rightarrow> ttl | Some sec \<Rightarrow> wrap64 (sec * 1000000000))
         else ttl)"

definition handleCreate :: "outside \<Rightarrow> string list \<Rightarrow> shell \<Rightarrow> string \<times> shell" where
  "handleCreate io args sh =
     (if length args < 1 then (println ''Usage: create <name> [ttl_sec]'', sh)
      else
        let name = args ! 0
        in case sh_queue name sh of
             Some _ \<Rightarrow> (println (''Queue '' @ quoted name @ '' already exists''), sh)
           | None \<Rightarrow>
               let ttl = create_ttl args;
                   q = NewQueueWithTTL name ttl (io_now io) (sh_sequence sh)
               in (println (''Created queue '' @ quoted name @ '' with TTL '' @ show_duration ttl), sh_put name q sh))"

definition handleList :: "outside \<Rightarrow> shell \<Rightarrow> string" where
  "handleList io sh =
     (if length (sh_queues sh) = 0 then println ''No queues.''
      else concat (map (\<lambda>name.
             case sh_queue name sh of
               None \<Rightarrow> []
             | Some q \<Rightarrow>
                 let stats = q_GetQueueStats q
                 in println (''- '' @ name @ '': '' @ show_int (qs_TotalItems stats) @ '' items, ''
                      @ show_nat (qs_ConsumerCount stats) @ '' consumers'')) (io_order io)))"

definition handleStats :: "outside \<Rightarrow> string list \<Rightarrow> shell \<Rightarrow> string" where
  "handleStats io args sh =
     (if length args < 1 then println ''Usage: stats <name>''
      else
        let name = args ! 0
        in case sh_queue name sh of
             None \<Rightarrow> not_found name
           | Some q \<Rightarrow>
               let stats = q_GetQueueStats q
               in println (''=== Stats: '' @ qs_Name stats @ '' ==='') @
                  println (''Items:       '' @ show_int (qs_TotalItems stats)) @
                  println (''Memory:      '' @ show_int (qs_MemoryUsage stats) @ '' bytes (''
                    @ fmt_f 2 (qs_MemoryPercent stats) @ ''%)'') @
                  println (''Consumers:   '' @ show_nat (qs_ConsumerCount stats)) @
                  println (''TTL:         '' @ show_duration (qs_TTL stats)) @
                  println (''Age:         '' @ show_duration (time_Since (io_now io) (qs_CreatedAt stats))))"

definition handlePub :: "outside \<Rightarrow> string list \<Rightarrow> shell \<Rightarrow> (string \<times> shell) option" where
  "handlePub io args sh =
     (if length args < 2 then Some (println ''Usage: pub <name> <message...>'', sh)
      else
        let name = args ! 0;
            msg = strings_Join (tl args) '' ''
        in case sh_queue name sh of
             None \<Rightarrow> Some (not_found name, sh)
           | Some q \<Rightarrow>
               map_option
                 (\<lambda>(err, q). (case err of Some e \<Rightarrow> println (''Enqueue failed: '' @ Error e)
                                       | None \<Rightarrow> println ''Message enqueued.'', sh_put name q sh))
                 (q_TryEnqueue (PString msg) (io_now io) q))"

definition handleSub :: "outside \<Rightarrow> string list \<Rightarrow> shell \<Rightarrow> string \<times> shell" where
  "handleSub io args sh =
     (if length args < 1 then (println ''Usage: sub <name>'', sh)
      else
        let name = args ! 0
        in case sh_queue name sh of
             None \<Rightarrow> (not_found name, sh)
           | Some q \<Rightarrow>
               let (p, q) = q_AddConsumer (io_uuid io) (io_now io) q;
                   id = io_uuid io;
                   sh = sh_put name q sh
               in (println (''Started consumer '' @ take 8 id @ ''. Messages will appear below...''),
                   sh\<lparr>sh_consumers := AList.update id (name, p) (sh_consumers sh),
                      sh_subs := sh_subs sh @
                        [\<lparr>sb_id = id, sb_queue = name, sb_consumer = p, sb_state = Trying\<rparr>]\<rparr>))"

text \<open>The \<^verbatim>\<open>switch\<close> of \<^verbatim>\<open>main\<close>: what is printed, the new state, and whether the shell ends.\<close>

definition qctl_command ::
  "outside \<Rightarrow> string \<Rightarrow> string list \<Rightarrow> shell \<Rightarrow> (string \<times> shell \<times> bool) option" where
  "qctl_command io cmd args sh =
     (if cmd = ''create'' then let (out, sh) = handleCreate io args sh in Some (out, sh, False)
      else if cmd = ''list'' then Some (handleList io sh, sh, False)
      else if cmd = ''stats'' then Some (handleStats io args sh, sh, False)
      else if cmd = ''pub'' then map_option (\<lambda>(out, sh). (out, sh, False)) (handlePub io args sh)
      else if cmd = ''sub'' then let (out, sh) = handleSub io args sh in Some (out, sh, False)
      else if cmd = ''help'' then Some (handleHelp, sh, False)
      else if cmd = ''exit'' \<or> cmd = ''quit'' then Some (println ''Bye!'', sh, True)
      else Some (println (''Unknown command. Type '' @ quoted ''help'' @ ''.''), sh, False))"

text \<open>
  One round of its loop. The scanner gives up at a line of 64 KiB, which ends the loop like the end of
  the input.
\<close>

definition qctl_line :: "outside \<Rightarrow> string \<Rightarrow> shell \<Rightarrow> (string \<times> shell \<times> bool) option" where
  "qctl_line io line sh =
     (if int (length line) \<ge> 65536 then Some ([], sh, True)
      else
        let parts = strings_Fields line
        in if parts = [] then Some ([], sh, False)
           else qctl_command io (hd parts) (tl parts) sh)"

section \<open>The goroutines\<close>

text \<open>The text of a message with the verb \<open>%v\<close>; the shell stores strings only.\<close>

definition message_text :: "queue_data \<Rightarrow> string" where
  "message_text d = (case qd_Payload d of PString s \<Rightarrow> s | _ \<Rightarrow> [])"

definition sub_line :: "subscriber \<Rightarrow> queue_data \<Rightarrow> string" where
  "sub_line sb d = println (''[Consumer '' @ take 8 (sb_id sb) @ '' read from '' @ sb_queue sb @ '']: '' @ message_text d) @ ''> ''"

definition sh_set_sub :: "nat \<Rightarrow> sub_state \<Rightarrow> shell \<Rightarrow> shell" where
  "sh_set_sub i st sh = sh\<lparr>sh_subs := (sh_subs sh)[i := (sh_subs sh ! i)\<lparr>sb_state := st\<rparr>]\<rparr>"

text \<open>
  The goroutine \<open>i\<close> tries to read: the message it prints, when there is one; otherwise it waits. A token
  on \<^verbatim>\<open>enqueueNotify\<close> makes it try again, a closed \<^verbatim>\<open>stopChan\<close> ends it.
\<close>

definition sub_try :: "clock \<Rightarrow> nat \<Rightarrow> shell \<Rightarrow> (queue_data option \<times> shell) option" where
  "sub_try clk i sh =
     (let sb = sh_subs sh ! i
      in case sh_queue (sb_queue sb) sh of
           None \<Rightarrow> None
         | Some q \<Rightarrow>
             map_option
               (\<lambda>(data, q). (data, sh_set_sub i (case data of None \<Rightarrow> Waiting | Some _ \<Rightarrow> Trying)
                                  (sh_put (sb_queue sb) q sh)))
               (q_TryRead clk 0 (sb_consumer sb) q))"

definition sub_token :: "nat \<Rightarrow> shell \<Rightarrow> bool" where
  "sub_token i sh \<longleftrightarrow> (case sh_queue (sb_queue (sh_subs sh ! i)) sh of
     None \<Rightarrow> False | Some q \<Rightarrow> ch_buf (q_enqueueNotify q) \<noteq> [])"

definition sub_stopped :: "nat \<Rightarrow> shell \<Rightarrow> bool" where
  "sub_stopped i sh \<longleftrightarrow> (case sh_queue (sb_queue (sh_subs sh ! i)) sh of
     None \<Rightarrow> False | Some q \<Rightarrow> ch_closed (q_stopChan q))"

definition sub_wake :: "nat \<Rightarrow> shell \<Rightarrow> shell" where
  "sub_wake i sh =
     (let name = sb_queue (sh_subs sh ! i)
      in case sh_queue name sh of
           None \<Rightarrow> sh
         | Some q \<Rightarrow> sh_set_sub i Trying (sh_put name (took_enqueue q) sh))"

section \<open>Steps\<close>

text \<open>A line with what was answered, a message printed by a subscriber, an expiration, or nothing to see.\<close>

datatype sh_event = Typed string string | Showed string string | Aged string nat | Silent

inductive sh_step :: "shell \<Rightarrow> sh_event \<Rightarrow> shell \<Rightarrow> bool" where
  typed: "io_uuid io \<notin> fst ` set (sh_consumers sh) \<Longrightarrow> qctl_line io line sh = Some (out, sh', stop)
    \<Longrightarrow> sh_step sh (Typed line out) sh'"
| reads: "i < length (sh_subs sh) \<Longrightarrow> sb_state (sh_subs sh ! i) = Trying \<Longrightarrow> sub_try clk i sh = Some (Some d, sh')
    \<Longrightarrow> sh_step sh (Showed (sb_id (sh_subs sh ! i)) (message_text d)) sh'"
| idles: "i < length (sh_subs sh) \<Longrightarrow> sb_state (sh_subs sh ! i) = Trying \<Longrightarrow> sub_try clk i sh = Some (None, sh')
    \<Longrightarrow> sh_step sh Silent sh'"
| wakes: "i < length (sh_subs sh) \<Longrightarrow> sb_state (sh_subs sh ! i) = Waiting \<Longrightarrow> sub_token i sh
    \<Longrightarrow> sh_step sh Silent (sub_wake i sh)"
| ends: "i < length (sh_subs sh) \<Longrightarrow> sb_state (sh_subs sh ! i) = Waiting \<Longrightarrow> sub_stopped i sh
    \<Longrightarrow> sh_step sh Silent (sh_set_sub i Over sh)"
| ticks: "sh_queue name sh = Some q \<Longrightarrow> q_worker_tick clk now q = Some q'
    \<Longrightarrow> looks_agree clk (q_ttl q) 0 (q_items q)
    \<Longrightarrow> sh_step sh (Aged name (length (q_items q) - length (q_items q'))) (sh_put name q' sh)"

inductive sh_run :: "shell \<Rightarrow> sh_event list \<Rightarrow> shell \<Rightarrow> bool" where
  stop: "sh_run sh [] sh"
| go: "sh_step sh ev sh1 \<Longrightarrow> sh_run sh1 evs sh' \<Longrightarrow> sh_run sh (ev # evs) sh'"

text \<open>What a run shows from outside: the messages accepted for a queue, and those a subscriber printed.\<close>

definition accepted :: "string \<Rightarrow> sh_event \<Rightarrow> string list" where
  "accepted name ev =
     (case ev of
        Typed line out \<Rightarrow>
          (case strings_Fields line of
             cmd # name' # ws \<Rightarrow>
               if cmd = ''pub'' \<and> name' = name \<and> out = println ''Message enqueued.''
               then [strings_Join ws '' ''] else []
           | _ \<Rightarrow> [])
      | _ \<Rightarrow> [])"

definition printed :: "string \<Rightarrow> sh_event \<Rightarrow> string list" where
  "printed uid ev = (case ev of Showed uid' msg \<Rightarrow> if uid' = uid then [msg] else [] | _ \<Rightarrow> [])"

definition aged :: "string \<Rightarrow> sh_event \<Rightarrow> nat" where
  "aged name ev = (case ev of Aged name' n \<Rightarrow> if name' = name then n else 0 | _ \<Rightarrow> 0)"

section \<open>The invariant\<close>

text \<open>
  Every queue of the map is in order, open and known by its name; every subscription is a consumer of
  its own that can read; the identifiers are those in the map of consumers.
\<close>

definition sh_queue_ok :: "string set \<Rightarrow> string \<Rightarrow> queue \<Rightarrow> bool" where
  "sh_queue_ok ids name q \<longleftrightarrow> q_inv q \<and> \<not> q_closed q \<and> q_name q = name \<and> q_consumerEvictionTimeout q = 0
     \<and> fst ` set (cm_consumers (q_consumers q)) \<subseteq> ids"

definition sh_sub_ok :: "shell \<Rightarrow> subscriber \<Rightarrow> bool" where
  "sh_sub_ok sh sb \<longleftrightarrow> sb_id sb \<in> fst ` set (sh_consumers sh)
     \<and> (\<exists>q. map_of (sh_queues sh) (sb_queue sb) = Some q \<and> q_live (sb_consumer sb) q
          \<and> c_group (cm_cstore (q_consumers q) (sb_consumer sb)) = None)"

definition sh_inv :: "shell \<Rightarrow> bool" where
  "sh_inv sh \<longleftrightarrow>
     (\<forall>name q. map_of (sh_queues sh) name = Some q \<longrightarrow> sh_queue_ok (fst ` set (sh_consumers sh)) name q)
     \<and> (\<forall>sb \<in> set (sh_subs sh). sh_sub_ok sh sb)
     \<and> distinct (map sb_id (sh_subs sh))
     \<and> distinct (map (\<lambda>sb. (sb_queue sb, sb_consumer sb)) (sh_subs sh))"

lemma sh_inv_start: "sh_inv sh_start"
  by (simp add: sh_inv_def sh_start_def)

lemma sequence_frame [simp]:
  "q_inv (q\<lparr>q_dataIDSequence := n\<rparr>) = q_inv q" "q_live p (q\<lparr>q_dataIDSequence := n\<rparr>) = q_live p q"
  "q_items (q\<lparr>q_dataIDSequence := n\<rparr>) = q_items q" "q_left p (q\<lparr>q_dataIDSequence := n\<rparr>) = q_left p q"
  by (simp_all add: q_inv_def q_live_def q_reader_def q_items_def q_left_def q_reading_def)

lemma sh_queue_okD:
  assumes "sh_queue_ok ids name q"
  shows "q_inv q" "\<not> q_closed q" "q_name q = name" "q_consumerEvictionTimeout q = 0"
    "fst ` set (cm_consumers (q_consumers q)) \<subseteq> ids"
  using assms by (simp_all add: sh_queue_ok_def)

text \<open>
  A step of one queue, seen in the shell: the queue goes through a run, the others stay as they are,
  and so do the subscriptions but for the state of one.
\<close>

definition sub_key :: "subscriber \<Rightarrow> string \<times> string \<times> cptr" where
  "sub_key sb = (sb_id sb, sb_queue sb, sb_consumer sb)"

lemma sub_keys_state [simp]: "map sub_key ((sh_subs sh)[i := (sh_subs sh ! i)\<lparr>sb_state := st\<rparr>]) = map sub_key (sh_subs sh)"
  by (cases "i < length (sh_subs sh)") (simp_all add: map_update sub_key_def list_update_same_conv list_update_beyond linorder_not_less)


definition follows :: "shell \<Rightarrow> sh_event \<Rightarrow> shell \<Rightarrow> bool" where
  "follows sh ev sh' \<longleftrightarrow> sh_inv sh' \<and> (\<exists>new. map sub_key (sh_subs sh') = map sub_key (sh_subs sh) @ new)
     \<and> (\<forall>name q. map_of (sh_queues sh) name = Some q \<longrightarrow>
          (\<exists>q' evs. map_of (sh_queues sh') name = Some q' \<and> q_run q evs q'
             \<and> map message_text (puts evs) = accepted name ev \<and> removed evs = aged name ev
             \<and> (\<forall>sb \<in> set (sh_subs sh). sb_queue sb = name \<longrightarrow> stays (sb_consumer sb) evs
                  \<and> map message_text (given (sb_consumer sb) None evs) = printed (sb_id sb) ev)))"

lemma sh_sub_ok_keys: "sub_key sb = sub_key sb' \<Longrightarrow> sh_sub_ok sh sb = sh_sub_ok sh sb'"
  by (simp add: sub_key_def sh_sub_ok_def)

text \<open>The invariant reads of the subscriptions only their keys.\<close>

lemma sh_inv_keys:
  assumes "map sub_key sbs = map sub_key (sh_subs sh)" "sh_inv sh"
  shows "sh_inv (sh\<lparr>sh_subs := sbs\<rparr>)"
proof -
  have f: "map f sbs = map f (sh_subs sh)" if "\<And>sb sb'. sub_key sb = sub_key sb' \<Longrightarrow> f sb = f sb'" for f :: "subscriber \<Rightarrow> 'x"
    using assms(1) that by (metis (no_types, lifting) length_map map_equality_iff nth_map)
  have "map (sh_sub_ok sh) sbs = map (sh_sub_ok sh) (sh_subs sh)" by (rule f) (rule sh_sub_ok_keys)
  moreover have ids: "map sb_id sbs = map sb_id (sh_subs sh)"
    "map (\<lambda>sb. (sb_queue sb, sb_consumer sb)) sbs = map (\<lambda>sb. (sb_queue sb, sb_consumer sb)) (sh_subs sh)"
    by (rule f, simp add: sub_key_def)+
  moreover have all: "(\<forall>sb \<in> set xs. sh_sub_ok sh sb) \<longleftrightarrow> False \<notin> set (map (sh_sub_ok sh) xs)" for xs by force
  moreover have "\<forall>sb \<in> set (sh_subs sh). sh_sub_ok sh sb" using assms(2) by (simp add: sh_inv_def)
  ultimately have "\<forall>sb \<in> set sbs. sh_sub_ok sh sb" by metis
  then have "\<forall>sb \<in> set sbs. sh_sub_ok (sh\<lparr>sh_subs := sbs\<rparr>) sb" by (simp add: sh_sub_ok_def)
  then show ?thesis using assms(2) ids by (simp add: sh_inv_def)
qed

lemma follows_put:
  assumes inv: "sh_inv sh" and q: "sh_queue name sh = Some q" and run: "q_run q es q'"
    and frame: "\<not> q_closed q'" "q_name q' = q_name q" "q_consumerEvictionTimeout q' = q_consumerEvictionTimeout q"
      "cm_consumers (q_consumers q') = cm_consumers (q_consumers q)"
    and put: "map message_text (puts es) = accepted name ev" "removed es = aged name ev"
    and others: "\<And>name'. name' \<noteq> name \<Longrightarrow> accepted name' ev = [] \<and> aged name' ev = 0"
    and subs: "\<And>sb. sb \<in> set (sh_subs sh) \<Longrightarrow> sb_queue sb = name \<Longrightarrow> stays (sb_consumer sb) es
        \<and> map message_text (given (sb_consumer sb) None es) = printed (sb_id sb) ev"
      "\<And>sb. sb \<in> set (sh_subs sh) \<Longrightarrow> sb_queue sb \<noteq> name \<Longrightarrow> printed (sb_id sb) ev = []"
    and keys: "map sub_key sbs = map sub_key (sh_subs sh)"
  shows "follows sh ev ((sh_put name q' sh)\<lparr>sh_subs := sbs\<rparr>)"
proof -
  obtain q0 where q0: "map_of (sh_queues sh) name = Some q0" "q = q0\<lparr>q_dataIDSequence := sh_sequence sh\<rparr>"
    using q by (auto simp: sh_queue_def)
  have ok0: "sh_queue_ok (fst ` set (sh_consumers sh)) name q0" using inv q0(1) by (simp add: sh_inv_def)
  note O = sh_queue_okD [OF ok0]
  have run0: "q_run q0 (Quiet # es) q'"
    using q_run.go [OF q_step.elsewhere [of q0 "sh_sequence sh"]] run q0(2) by simp
  have inv': "q_inv q'" by (rule q_run_inv [OF run0 O(1)])
  let ?sh = "sh_put name q' sh"
  have get: "map_of (sh_queues ?sh) n = (if n = name then Some q' else map_of (sh_queues sh) n)" for n
    by (simp add: sh_put_def update_conv')
  have live: "q_live (sb_consumer sb) q' \<and> c_group (cm_cstore (q_consumers q') (sb_consumer sb)) = None"
    if "sb \<in> set (sh_subs sh)" "sb_queue sb = name" for sb
  proof -
    have "q_live (sb_consumer sb) q0" "c_group (cm_cstore (q_consumers q0) (sb_consumer sb)) = None"
      using inv that q0(1) by (auto simp: sh_inv_def sh_sub_ok_def)
    moreover have "stays (sb_consumer sb) (Quiet # es)" using subs(1) [OF that] by simp
    ultimately show ?thesis using run_reader [OF run0 O(1)] by blast
  qed
  have "sh_inv ?sh"
    unfolding sh_inv_def
  proof (intro conjI allI impI ballI)
    fix n r assume "map_of (sh_queues ?sh) n = Some r"
    then show "sh_queue_ok (fst ` set (sh_consumers ?sh)) n r"
      using inv O inv' frame q0(2) unfolding get
      by (cases "n = name") (auto simp: sh_inv_def sh_put_def sh_queue_ok_def)
  next
    fix sb assume "sb \<in> set (sh_subs ?sh)"
    then have sb: "sb \<in> set (sh_subs sh)" by (simp add: sh_put_def)
    then have "sh_sub_ok sh sb" using inv by (simp add: sh_inv_def)
    then show "sh_sub_ok ?sh sb" using live [OF sb] get by (auto simp: sh_sub_ok_def sh_put_def)
  qed (use inv in \<open>simp_all add: sh_inv_def sh_put_def\<close>)
  then have sinv: "sh_inv (?sh\<lparr>sh_subs := sbs\<rparr>)"
    by (intro sh_inv_keys) (simp_all add: keys sh_put_def)
  show ?thesis
    unfolding follows_def
  proof (intro conjI allI impI)
    fix n r assume r: "map_of (sh_queues sh) n = Some r"
    show "\<exists>q' evs. map_of (sh_queues (?sh\<lparr>sh_subs := sbs\<rparr>)) n = Some q' \<and> q_run r evs q'
             \<and> map message_text (puts evs) = accepted n ev \<and> removed evs = aged n ev
             \<and> (\<forall>sb \<in> set (sh_subs sh). sb_queue sb = n \<longrightarrow> stays (sb_consumer sb) evs
                  \<and> map message_text (given (sb_consumer sb) None evs) = printed (sb_id sb) ev)"
    proof (cases "n = name")
      case True
      then show ?thesis
        using run0 r q0(1) put subs(1) get by (intro exI [of _ q'] exI [of _ "Quiet # es"]) auto
    next
      case False
      then show ?thesis
        using r others subs(2) get by (intro exI [of _ r] exI [of _ "[]"]) auto
    qed
  qed (use sinv keys in \<open>auto simp: sh_put_def\<close>)
qed

section \<open>What the operations leave alone\<close>

lemma notify_frame:
  assumes "notifyWaitingConsumers q = Some q'"
  shows "q_name q' = q_name q" "q_consumerEvictionTimeout q' = q_consumerEvictionTimeout q"
    "q_consumers q' = q_consumers q" "q_closed q' = q_closed q"
  using assms by (auto simp: notifyWaitingConsumers_def Let_def split: if_splits)

lemma TryEnqueue_frame:
  assumes "q_TryEnqueue payload now q = Some (err, q')"
  shows "q_name q' = q_name q" "q_consumerEvictionTimeout q' = q_consumerEvictionTimeout q"
    "q_consumers q' = q_consumers q" "q_closed q' = q_closed q"
  using assms notify_frame
  by (auto simp: q_TryEnqueue_def q_new_data_def Let_def split: prod.splits if_splits)

lemma TryRead_frame:
  assumes "q_TryRead clk k p q = Some (r, q')"
  shows "q_name q' = q_name q" "q_consumerEvictionTimeout q' = q_consumerEvictionTimeout q"
    "cm_consumers (q_consumers q') = cm_consumers (q_consumers q)" "q_closed q' = q_closed q"
  using assms by (auto simp: q_TryRead_def q_set_reading_def)

lemma tick_frame:
  assumes inv: "q_inv q" and opn: "\<not> q_closed q" and t: "q_consumerEvictionTimeout q = 0"
    and eq: "q_worker_tick clk now q = Some q'" and looks: "looks_agree clk (q_ttl q) 0 (q_items q)"
  shows "q_name q' = q_name q" "q_consumerEvictionTimeout q' = q_consumerEvictionTimeout q"
    "cm_consumers (q_consumers q') = cm_consumers (q_consumers q)" "q_closed q' = q_closed q"
    "q_run q (if q_expirationEnabled q then [Expired (length (q_items q) - length (q_items q'))] else []) q'"
proof -
  have "q_name q' = q_name q \<and> q_consumerEvictionTimeout q' = q_consumerEvictionTimeout q
    \<and> cm_consumers (q_consumers q') = cm_consumers (q_consumers q) \<and> q_closed q' = q_closed q
    \<and> q_run q (if q_expirationEnabled q then [Expired (length (q_items q) - length (q_items q'))] else []) q'"
  proof (cases "q_expirationEnabled q")
    case False
    then show ?thesis using eq t by (simp add: q_worker_tick_def)
  next
    case True
    let ?n = "expired_run clk (q_ttl q) 0 (q_items q)"
    obtain r where C: "cleanupExpiredItems clk q = Some (?n, r)"
      "q_items r = drop ?n (q_items q)" "q_closed r = q_closed q"
      "cm_consumers (q_consumers r) = cm_consumers (q_consumers q)"
      by (rule cleanup_spec [OF inv looks True]) simp_all
    have fr: "q_name r = q_name q \<and> q_consumerEvictionTimeout r = q_consumerEvictionTimeout q"
      using C(1) by (auto simp: cleanupExpiredItems_def Let_def split: prod.splits if_splits Option.bind_splits)
    then have r: "r = q'" using eq C(1) True t by (simp add: q_worker_tick_def)
    have "length (q_items q) - length (q_items q') = ?n"
      using C(2) r expired_run_le [of clk "q_ttl q" 0 "q_items q"] by simp
    then have "q_step q (Expired (length (q_items q) - length (q_items q'))) q'"
      using q_step.expire [OF C(1) looks] r by simp
    then show ?thesis using C fr r True by (auto intro: q_run.intros)
  qed
  then show "q_name q' = q_name q" "q_consumerEvictionTimeout q' = q_consumerEvictionTimeout q"
    "cm_consumers (q_consumers q') = cm_consumers (q_consumers q)" "q_closed q' = q_closed q"
    "q_run q (if q_expirationEnabled q then [Expired (length (q_items q) - length (q_items q'))] else []) q'"
    by blast+
qed

lemma AddConsumer_frame:
  assumes "q_AddConsumer uuid now q = (p, q')"
  shows "q_name q' = q_name q" "q_consumerEvictionTimeout q' = q_consumerEvictionTimeout q" "q_closed q' = q_closed q"
  using assms by (auto simp: q_AddConsumer_def split: prod.splits)

section \<open>The length of a message\<close>

lemma Join_Fields_le: "length (strings_Join (strings_Fields s) '' '') \<le> length (dropWhile is_space s)"
proof (induction s rule: strings_Fields.induct)
  case (1 s)
  let ?s = "dropWhile is_space s"
  let ?r = "dropWhile (\<lambda>c. \<not> is_space c) ?s"
  show ?case
  proof (cases "?s = []")
    case True
    then show ?thesis by (subst strings_Fields.simps) simp
  next
    case False
    have F: "strings_Fields s = takeWhile (\<lambda>c. \<not> is_space c) ?s # strings_Fields ?r"
      using False by (subst strings_Fields.simps) (simp add: Let_def del: dropWhile_eq_Nil_conv)
    have len: "length (takeWhile (\<lambda>c. \<not> is_space c) ?s) + length ?r = length ?s"
      by (metis length_append takeWhile_dropWhile_id)
    show ?thesis
    proof (cases ?r)
      case Nil
      then show ?thesis using F len by (simp del: dropWhile_eq_Nil_conv)
    next
      case (Cons c r)
      then have "is_space c" by (metis dropWhile_eq_Cons_conv)
      then have "length (dropWhile is_space ?r) < length ?r"
        using Cons length_dropWhile_le [of is_space r] by simp
      then show ?thesis
        using F len "1.IH" [OF refl False] by (cases "strings_Fields ?r") simp_all
    qed
  qed
qed

lemma Join_Cons_le: "length (strings_Join ws sep) \<le> length (strings_Join (w # ws) sep)"
  by (cases ws) simp_all

lemma message_short:
  assumes "strings_Fields line = cmd # name # ws"
  shows "length (strings_Join ws '' '') \<le> length line"
  using Join_Fields_le [of line] assms Join_Cons_le [of ws "'' ''" name] Join_Cons_le [of "name # ws" "'' ''" cmd]
    length_dropWhile_le [of is_space line] by simp

section \<open>Every step does to the queues what it shows\<close>

lemma follows_same:
  assumes "sh_inv sh" "sh_inv sh'" "sh_queues sh' = sh_queues sh" "map sub_key (sh_subs sh') = map sub_key (sh_subs sh)"
    and "\<And>name. accepted name ev = [] \<and> aged name ev = 0" "\<And>uid. printed uid ev = []"
  shows "follows sh ev sh'"
  unfolding follows_def using assms by (auto intro: exI [of _ "[]"] q_run.stop)

lemma follows_refl:
  assumes "sh_inv sh" "\<And>name. accepted name ev = [] \<and> aged name ev = 0" "\<And>uid. printed uid ev = []"
  shows "follows sh ev sh"
  by (rule follows_same) (use assms in simp_all)

lemma typed_simps [simp]: "printed uid (Typed line out) = []" "aged name (Typed line out) = 0"
  by (simp_all add: printed_def aged_def)

lemma accepted_other: "strings_Fields line = cmd # ws \<Longrightarrow> cmd \<noteq> ''pub'' \<Longrightarrow> accepted name (Typed line out) = []"
  by (cases ws) (simp_all add: accepted_def)

lemma accepted_not: "out \<noteq> println ''Message enqueued.'' \<Longrightarrow> accepted name (Typed line out) = []"
  by (simp add: accepted_def split: list.split)

text \<open>A consumer that reads: the item is shown by its own subscription.\<close>

lemma follows_read:
  assumes inv: "sh_inv sh" and i: "i < length (sh_subs sh)" and eq: "sub_try clk i sh = Some (data, sh')"
  shows "follows sh (case data of None \<Rightarrow> Silent | Some d \<Rightarrow> Showed (sb_id (sh_subs sh ! i)) (message_text d)) sh'"
proof -
  define sb where "sb = sh_subs sh ! i"
  have sb: "sb \<in> set (sh_subs sh)" using i by (simp add: sb_def)
  obtain q0 where q0: "map_of (sh_queues sh) (sb_queue sb) = Some q0" "q_live (sb_consumer sb) q0"
    "c_group (cm_cstore (q_consumers q0) (sb_consumer sb)) = None"
    using inv sb by (auto simp: sh_inv_def sh_sub_ok_def)
  have O: "q_inv q0" "\<not> q_closed q0" using inv q0(1) by (auto simp: sh_inv_def sh_queue_ok_def)
  define q where "q = q0\<lparr>q_dataIDSequence := sh_sequence sh\<rparr>"
  have q: "sh_queue (sb_queue sb) sh = Some q" using q0(1) by (simp add: sh_queue_def q_def)
  obtain q' where R: "q_TryRead clk 0 (sb_consumer sb) q = Some (data, q')"
    and sh': "sh' = sh_set_sub i (case data of None \<Rightarrow> Waiting | Some _ \<Rightarrow> Trying) (sh_put (sb_queue sb) q' sh)"
    using eq q by (auto simp: sub_try_def sb_def Let_def)
  note F = TryRead_frame [OF R]
  have k: "q_known (sb_consumer sb) q" using q0(2) by (auto simp: q_known_def q_live_def q_reader_def q_def)
  let ?e = "got (sb_consumer sb) q (case data of None \<Rightarrow> [] | Some d \<Rightarrow> [d])"
  have g: "?e = Got (sb_consumer sb) None (case data of None \<Rightarrow> [] | Some d \<Rightarrow> [d])"
    using q0(3) by (simp add: got_def q_def)
  have run: "q_run q [?e] q'" using q_step.read [OF k R] by (auto intro: q_run.intros)
  have same: "sb' = sb" if "sb' \<in> set (sh_subs sh)" "sb_id sb' = sb_id sb \<or> sb_queue sb' = sb_queue sb \<and> sb_consumer sb' = sb_consumer sb" for sb'
    using that sb inv by (auto simp: sh_inv_def distinct_map inj_on_def)
  have "follows sh (case data of None \<Rightarrow> Silent | Some d \<Rightarrow> Showed (sb_id sb) (message_text d))
      ((sh_put (sb_queue sb) q' sh)\<lparr>sh_subs := sh_subs sh'\<rparr>)"
  proof (rule follows_put [OF inv q run])
    show "\<not> q_closed q'" using F(4) O(2) by (simp add: q_def)
    show "map sub_key (sh_subs sh') = map sub_key (sh_subs sh)"
      by (simp add: sh' sh_set_sub_def sh_put_def)
    fix sb' assume sb': "sb' \<in> set (sh_subs sh)"
    show "stays (sb_consumer sb') [?e] \<and> map message_text (given (sb_consumer sb') None [?e])
        = printed (sb_id sb') (case data of None \<Rightarrow> Silent | Some d \<Rightarrow> Showed (sb_id sb) (message_text d))"
      if "sb_queue sb' = sb_queue sb"
      using same [OF sb'] that unfolding g by (auto simp: served_def printed_def split: option.splits)
    show "printed (sb_id sb') (case data of None \<Rightarrow> Silent | Some d \<Rightarrow> Showed (sb_id sb) (message_text d)) = []"
      if "sb_queue sb' \<noteq> sb_queue sb"
      using same [OF sb'] that by (auto simp: printed_def split: option.splits)
  qed (use F in \<open>auto simp: g accepted_def aged_def split: option.splits\<close>)
  moreover have "(sh_put (sb_queue sb) q' sh)\<lparr>sh_subs := sh_subs sh'\<rparr> = sh'"
    by (simp add: sh' sh_set_sub_def)
  ultimately show ?thesis unfolding sb_def by simp
qed

lemma follows_wake:
  assumes inv: "sh_inv sh" and i: "i < length (sh_subs sh)" and tok: "sub_token i sh"
  shows "follows sh Silent (sub_wake i sh)"
proof -
  let ?name = "sb_queue (sh_subs sh ! i)"
  obtain q where q: "sh_queue ?name sh = Some q" using tok by (auto simp: sub_token_def split: option.splits)
  then obtain q0 where q0: "map_of (sh_queues sh) ?name = Some q0" "q = q0\<lparr>q_dataIDSequence := sh_sequence sh\<rparr>"
    by (auto simp: sh_queue_def)
  have run: "q_run q [Quiet] (took_enqueue q)" by (rule q_run.go [OF q_step.news q_run.stop])
  have "follows sh Silent ((sh_put ?name (took_enqueue q) sh)\<lparr>sh_subs := sh_subs (sub_wake i sh)\<rparr>)"
  proof (rule follows_put [OF inv q run])
    show "\<not> q_closed (took_enqueue q)"
      using inv q0 by (auto simp: sh_inv_def sh_queue_ok_def took_enqueue_def)
  qed (simp_all add: took_enqueue_def accepted_def aged_def printed_def sub_wake_def q sh_set_sub_def sh_put_def)
  then show ?thesis by (simp add: sub_wake_def q sh_set_sub_def Let_def)
qed

lemma follows_tick:
  assumes inv: "sh_inv sh" and q: "sh_queue name sh = Some q" and eq: "q_worker_tick clk now q = Some q'"
    and looks: "looks_agree clk (q_ttl q) 0 (q_items q)"
  shows "follows sh (Aged name (length (q_items q) - length (q_items q'))) (sh_put name q' sh)"
proof -
  obtain q0 where q0: "map_of (sh_queues sh) name = Some q0" "q = q0\<lparr>q_dataIDSequence := sh_sequence sh\<rparr>"
    using q by (auto simp: sh_queue_def)
  have O: "q_inv q" "\<not> q_closed q" "q_consumerEvictionTimeout q = 0"
    using inv q0 by (auto simp: sh_inv_def sh_queue_ok_def)
  note F = tick_frame [OF O eq looks]
  let ?ev = "Aged name (length (q_items q) - length (q_items q'))"
  have z: "length (q_items q) - length (q_items q') = 0" if "\<not> q_expirationEnabled q"
    using F(5) that by simp
  have "follows sh ?ev ((sh_put name q' sh)\<lparr>sh_subs := sh_subs sh\<rparr>)"
    by (rule follows_put [OF inv q F(5)])
      (use F O z in \<open>simp_all add: accepted_def aged_def printed_def\<close>)
  then show ?thesis by (simp add: sh_put_def)
qed

lemma follows_create:
  assumes inv: "sh_inv sh" and new: "sh_queue name sh = None"
    and ev: "\<And>name. accepted name ev = [] \<and> aged name ev = 0" "\<And>uid. printed uid ev = []"
  shows "follows sh ev (sh_put name (NewQueueWithTTL name ttl now sequence) sh)"
proof -
  let ?q = "NewQueueWithTTL name ttl now sequence"
  let ?sh = "sh_put name ?q sh"
  have get: "map_of (sh_queues ?sh) n = (if n = name then Some ?q else map_of (sh_queues sh) n)" for n
    by (simp add: sh_put_def update_conv')
  have n: "map_of (sh_queues sh) name = None" using new by (simp add: sh_queue_def)
  have "q_inv ?q" "\<not> q_closed ?q"
    unfolding NewQueueWithTTL_def by (intro q_inv_new; simp add: MaxQueueMemory_def)+
  then have ok: "sh_queue_ok ids name ?q" for ids
    unfolding sh_queue_ok_def
    by (simp add: NewQueueWithTTL_def NewQueueWithConfig_def Let_def NewConsumerManager_def)
  have "sh_sub_ok ?sh sb" if "sh_sub_ok sh sb" for sb
    using that get n by (auto simp: sh_sub_ok_def sh_put_def)
  then have "sh_inv ?sh"
    using inv ok get by (auto simp: sh_inv_def sh_put_def)
  then show ?thesis
    unfolding follows_def using ev n get
    by (auto simp: sh_put_def intro!: exI [of _ "[]"] q_run.stop)
qed

lemma follows_pub:
  assumes inv: "sh_inv sh" and line: "strings_Fields line = ''pub'' # args" "length line < 65536"
    and eq: "handlePub io args sh = Some (out, sh')"
  shows "follows sh (Typed line out) sh'"
proof (cases "length args < 2 \<or> sh_queue (args ! 0) sh = None")
  case True
  then have "sh' = sh" "out \<noteq> println ''Message enqueued.''"
    using eq by (auto simp: handlePub_def not_found_def println_def Let_def split: if_splits option.splits)
  then show ?thesis using follows_refl [OF inv] accepted_not by simp
next
  case False
  then obtain name ws q where args: "args = name # ws" "ws \<noteq> []" and q: "sh_queue name sh = Some q"
    by (cases args) auto
  obtain q0 where q0: "map_of (sh_queues sh) name = Some q0" "q = q0\<lparr>q_dataIDSequence := sh_sequence sh\<rparr>"
    using q by (auto simp: sh_queue_def)
  have O: "q_inv q" "\<not> q_closed q" using inv q0 by (auto simp: sh_inv_def sh_queue_ok_def)
  let ?msg = "strings_Join ws '' ''"
  have msg: "payload_ok (PString ?msg)"
    using message_short [of line "''pub''" name ws] line args by (simp add: MaxInt64_def)
  obtain err q' where T: "q_TryEnqueue (PString ?msg) (io_now io) q = Some (err, q')"
    and out: "out = (case err of Some e \<Rightarrow> println (''Enqueue failed: '' @ Error e) | None \<Rightarrow> println ''Message enqueued.'')"
    and sh': "sh' = sh_put name q' sh"
    using eq args q by (auto simp: handlePub_def Let_def split: if_splits)
  have texts: "map message_text (puts [added q q']) = (if err = None then [?msg] else [])"
  proof (rule q_TryEnqueue_open [OF O msg, of "io_now io"], goal_cases)
    case (1 d err' q'')
    then have e: "err' = err" "q'' = q'" using T by simp_all
    have d: "message_text d = ?msg" using 1(2) by (simp add: new_item_def message_text_def)
    have "err = None \<and> stored [d] q q' \<or> err \<noteq> None \<and> same_queue q q'"
      using 1(4-6) e by blast
    then show ?case
      using d O by (auto simp: added_def stored_def dest: same_queueD)
  qed
  have acc: "accepted n (Typed line out) = (if n = name \<and> err = None then [?msg] else [])" for n
    using line args out by (auto simp: accepted_def println_def split: option.splits)
  note F = TryEnqueue_frame [OF T]
  have run: "q_run q [added q q'] q'" using q_step.try_enqueue [OF msg T] by (auto intro: q_run.intros)
  have "follows sh (Typed line out) ((sh_put name q' sh)\<lparr>sh_subs := sh_subs sh\<rparr>)"
    by (rule follows_put [OF inv q run])
      (use F O texts acc in \<open>simp_all add: added_def\<close>)
  then show ?thesis using sh' by (simp add: sh_put_def)
qed

lemma follows_sub:
  assumes inv: "sh_inv sh" and fresh: "io_uuid io \<notin> fst ` set (sh_consumers sh)"
    and line: "strings_Fields line = ''sub'' # args" and eq: "handleSub io args sh = (out, sh')"
  shows "follows sh (Typed line out) sh'"
proof (cases "args = [] \<or> sh_queue (args ! 0) sh = None")
  case True
  then have "sh' = sh" using eq by (cases args) (auto simp: handleSub_def)
  then show ?thesis using follows_refl [OF inv] accepted_other [OF line] by simp
next
  case False
  then obtain name ws q where args: "args = name # ws" and q: "sh_queue name sh = Some q"
    by (cases args) auto
  obtain q0 where q0: "map_of (sh_queues sh) name = Some q0" "q = q0\<lparr>q_dataIDSequence := sh_sequence sh\<rparr>"
    using q by (auto simp: sh_queue_def)
  have O: "q_inv q" "\<not> q_closed q" "q_name q = name" "q_consumerEvictionTimeout q = 0"
    "fst ` set (cm_consumers (q_consumers q)) \<subseteq> fst ` set (sh_consumers sh)"
    using inv q0 by (auto simp: sh_inv_def sh_queue_ok_def)
  obtain p q' where A: "q_AddConsumer (io_uuid io) (io_now io) q = (p, q')" by fastforce
  define sb where "sb = \<lparr>sb_id = io_uuid io, sb_queue = name, sb_consumer = p, sb_state = Trying\<rparr>"
  have sh': "sh' = (sh_put name q' sh)\<lparr>sh_consumers := AList.update (io_uuid io) (name, p) (sh_consumers sh),
      sh_subs := sh_subs sh @ [sb]\<rparr>"
    using eq args q A by (auto simp: handleSub_def sb_def sh_put_def Let_def)
  have f: "io_uuid io \<notin> fst ` set (cm_consumers (q_consumers q))" using fresh O(5) by blast
  note S = q_AddConsumer_spec [OF O(1) f A] and F = AddConsumer_frame [OF A]
  have get: "map_of (sh_queues sh') n = (if n = name then Some q' else map_of (sh_queues sh) n)" for n
    by (simp add: sh' sh_put_def update_conv')
  have keys: "fst ` set (sh_consumers sh') = insert (io_uuid io) (fst ` set (sh_consumers sh))"
    by (simp add: sh' dom_update)
  have own: "c_group (cm_cstore (q_consumers q') p) = None"
    using A by (auto simp: q_AddConsumer_def cm_AddConsumer_def cm_register_def Let_def NewConsumer_def
        c_SetPosition_def split: prod.splits option.splits)
  have live: "q_live (sb_consumer s) q' \<and> c_group (cm_cstore (q_consumers q') (sb_consumer s)) = None \<and> sb_consumer s \<noteq> p"
    if "s \<in> set (sh_subs sh)" "sb_queue s = name" for s
  proof -
    have l: "q_live (sb_consumer s) q" "c_group (cm_cstore (q_consumers q) (sb_consumer s)) = None"
      using inv that q0 by (auto simp: sh_inv_def sh_sub_ok_def)
    note l' = S(3) [OF l(1)]
    have "sb_consumer s \<in> snd ` set (cm_consumers (q_consumers q))" using l(1) by (simp add: q_live_def q_reader_def)
    then have "sb_consumer s \<noteq> p" using S(2) by blast
    moreover have "c_group (cm_cstore (q_consumers q') (sb_consumer s)) = None"
      using S(1) l l' unfolding undisturbed_def by simp
    ultimately show ?thesis using l' by simp
  qed
  have "sh_inv sh'"
    unfolding sh_inv_def
  proof (intro conjI allI impI ballI)
    fix n r assume "map_of (sh_queues sh') n = Some r"
    then show "sh_queue_ok (fst ` set (sh_consumers sh')) n r"
    proof (cases "n = name")
      case True
      then show ?thesis
        using \<open>map_of (sh_queues sh') n = Some r\<close> O S(1,5) F unfolding get keys
        by (auto simp: sh_queue_ok_def undisturbed_def)
    next
      case False
      then have "sh_queue_ok (fst ` set (sh_consumers sh)) n r"
        using \<open>map_of (sh_queues sh') n = Some r\<close> inv unfolding get by (simp add: sh_inv_def)
      then show ?thesis unfolding sh_queue_ok_def keys by blast
    qed
  next
    fix s assume s: "s \<in> set (sh_subs sh')"
    show "sh_sub_ok sh' s"
    proof (cases "s = sb")
      case True
      then show ?thesis using S(4) [OF O(2)] own get keys by (auto simp: sh_sub_ok_def sb_def)
    next
      case False
      then have s: "s \<in> set (sh_subs sh)" using s by (simp add: sh')
      then have "sh_sub_ok sh s" using inv by (simp add: sh_inv_def)
      then show ?thesis using live [OF s] get keys by (auto simp: sh_sub_ok_def)
    qed
  next
    show "distinct (map sb_id (sh_subs sh'))"
      using inv fresh by (auto simp: sh' sb_def sh_inv_def sh_sub_ok_def)
    show "distinct (map (\<lambda>sb. (sb_queue sb, sb_consumer sb)) (sh_subs sh'))"
      using inv live by (auto simp: sh' sb_def sh_inv_def)
  qed
  moreover have run: "q_run q0 [Quiet, Quiet] q'"
    using q_run.go [OF q_step.elsewhere [of q0 "sh_sequence sh"]] q_run.go [OF q_step.join [OF f A] q_run.stop] q0(2)
    by simp
  moreover have "\<exists>r' evs. map_of (sh_queues sh') n = Some r' \<and> q_run r evs r'
      \<and> map message_text (puts evs) = [] \<and> removed evs = 0
      \<and> (\<forall>s. stays (sb_consumer s) evs \<and> given (sb_consumer s) None evs = [])"
    if "map_of (sh_queues sh) n = Some r" for n r
  proof (cases "n = name")
    case True
    then show ?thesis
      using run that q0(1) get by (intro exI [of _ q'] exI [of _ "[Quiet, Quiet]"]) simp
  next
    case False
    then show ?thesis using that get by (intro exI [of _ r] exI [of _ "[]"]) simp
  qed
  ultimately show ?thesis
    unfolding follows_def using accepted_other [OF line] by (simp add: sh') blast
qed

lemma follows_line:
  assumes inv: "sh_inv sh" and fresh: "io_uuid io \<notin> fst ` set (sh_consumers sh)"
    and eq: "qctl_line io line sh = Some (out, sh', stop)"
  shows "follows sh (Typed line out) sh'"
proof (cases "65536 \<le> length line \<or> strings_Fields line = []")
  case True
  then have "sh' = sh" "out = []" using eq by (auto simp: qctl_line_def split: if_splits)
  then show ?thesis using follows_refl [OF inv] accepted_not [of out] by (simp add: println_def)
next
  case False
  then obtain cmd args where line: "strings_Fields line = cmd # args" "length line < 65536"
    by (cases "strings_Fields line") auto
  have "qctl_command io cmd args sh = Some (out, sh', stop)"
    using eq line by (simp add: qctl_line_def)
  note line' = this [unfolded qctl_command_def Let_def]
  note other = follows_refl [OF inv] accepted_other [OF line(1)]
  consider "cmd = ''create''" | "cmd = ''pub''" | "cmd = ''sub''" | "cmd \<noteq> ''create''" "cmd \<noteq> ''pub''" "cmd \<noteq> ''sub''"
    by blast
  then show ?thesis
  proof cases
    case 1
    then have h: "handleCreate io args sh = (out, sh')" using line' by (auto split: prod.splits)
    then show ?thesis
      using other follows_create [OF inv, of "args ! 0" "Typed line out" "create_ttl args" "io_now io" "sh_sequence sh"] 1
      by (auto simp: handleCreate_def Let_def split: if_splits option.splits)
  next
    case 2
    then have "handlePub io args sh = Some (out, sh')" using line' by auto
    then show ?thesis using follows_pub [OF inv] line 2 by simp
  next
    case 3
    then have "handleSub io args sh = (out, sh')" using line' by (auto split: prod.splits)
    then show ?thesis using follows_sub [OF inv fresh] line 3 by simp
  next
    case 4
    then have "sh' = sh" using line' by (auto split: if_splits)
    then show ?thesis using other 4 by simp
  qed
qed

text \<open>The one step left that no operation of a queue makes: a goroutine that ends.\<close>

theorem step_follows: "sh_step sh ev sh' \<Longrightarrow> sh_inv sh \<Longrightarrow> follows sh ev sh'"
proof (induction rule: sh_step.induct)
  case (typed io sh line out sh' stop)
  then show ?case by (intro follows_line)
next
  case (reads i sh clk d sh')
  then show ?case using follows_read [of sh i clk "Some d" sh'] by simp
next
  case (idles i sh clk sh')
  then show ?case using follows_read [of sh i clk None sh'] by simp
next
  case (wakes i sh)
  then show ?case by (intro follows_wake)
next
  case (ends i sh)
  have "map sub_key (sh_subs (sh_set_sub i Over sh)) = map sub_key (sh_subs sh)" by (simp add: sh_set_sub_def)
  moreover have "sh_set_sub i Over sh = sh\<lparr>sh_subs := sh_subs (sh_set_sub i Over sh)\<rparr>" by (simp add: sh_set_sub_def)
  ultimately show ?case
    using sh_inv_keys [OF _ ends.prems] by (intro follows_same [OF ends.prems]) (metis, simp_all add: sh_set_sub_def accepted_def aged_def printed_def)
next
  case (ticks name sh q clk now q')
  then show ?case by (intro follows_tick)
qed

section \<open>Runs\<close>

lemma follows_trans_queue:
  assumes "follows sh ev sh1" "map_of (sh_queues sh) name = Some q"
  obtains q1 evs where "map_of (sh_queues sh1) name = Some q1" "q_run q evs q1"
    "map message_text (puts evs) = accepted name ev" "removed evs = aged name ev"
    "\<And>sb. sb \<in> set (sh_subs sh) \<Longrightarrow> sb_queue sb = name \<Longrightarrow> stays (sb_consumer sb) evs
       \<and> map message_text (given (sb_consumer sb) None evs) = printed (sb_id sb) ev"
  using assms unfolding follows_def by metis

text \<open>The run of one queue that a run of the shell contains.\<close>

lemma sh_run_queue:
  assumes "sh_run sh evs sh'" "sh_inv sh" "map_of (sh_queues sh) name = Some q"
  shows "sh_inv sh' \<and> (\<exists>q' es. map_of (sh_queues sh') name = Some q' \<and> q_run q es q'
     \<and> map message_text (puts es) = concat (map (accepted name) evs) \<and> removed es = sum_list (map (aged name) evs)
     \<and> (\<forall>sb \<in> set (sh_subs sh). sb_queue sb = name \<longrightarrow> stays (sb_consumer sb) es
          \<and> map message_text (given (sb_consumer sb) None es) = concat (map (printed (sb_id sb)) evs)))"
  using assms
proof (induction arbitrary: q rule: sh_run.induct)
  case (stop sh)
  then show ?case by (auto intro: exI [of _ "[]"])
next
  case (go sh ev sh1 evs sh')
  note F = step_follows [OF go.hyps(1) go.prems(1)]
  have inv1: "sh_inv sh1" and keys: "\<exists>new. map sub_key (sh_subs sh1) = map sub_key (sh_subs sh) @ new"
    using F by (simp_all add: follows_def)
  obtain q1 es1 where q1: "map_of (sh_queues sh1) name = Some q1" "q_run q es1 q1"
    "map message_text (puts es1) = accepted name ev" "removed es1 = aged name ev"
    and s1: "\<And>sb. sb \<in> set (sh_subs sh) \<Longrightarrow> sb_queue sb = name \<Longrightarrow> stays (sb_consumer sb) es1
       \<and> map message_text (given (sb_consumer sb) None es1) = printed (sb_id sb) ev"
    using follows_trans_queue [OF F go.prems(2)] by blast
  obtain q' es where q': "map_of (sh_queues sh') name = Some q'" "q_run q1 es q'"
    "map message_text (puts es) = concat (map (accepted name) evs)" "removed es = sum_list (map (aged name) evs)"
    and s: "\<And>sb. sb \<in> set (sh_subs sh1) \<Longrightarrow> sb_queue sb = name \<Longrightarrow> stays (sb_consumer sb) es
       \<and> map message_text (given (sb_consumer sb) None es) = concat (map (printed (sb_id sb)) evs)"
    and inv': "sh_inv sh'"
    using go.IH [OF inv1 q1(1)] by blast
  have sub: "stays (sb_consumer sb) (es1 @ es)
      \<and> map message_text (given (sb_consumer sb) None (es1 @ es)) = concat (map (printed (sb_id sb)) (ev # evs))"
    if sb: "sb \<in> set (sh_subs sh)" "sb_queue sb = name" for sb
  proof -
    have "sub_key sb \<in> set (map sub_key (sh_subs sh))" using sb(1) by simp
    then have "sub_key sb \<in> set (map sub_key (sh_subs sh1))" using keys by (metis Un_iff set_append)
    then obtain sb1 where "sb1 \<in> set (sh_subs sh1)" "sub_key sb1 = sub_key sb" by auto
    then have "stays (sb_consumer sb) es
       \<and> map message_text (given (sb_consumer sb) None es) = concat (map (printed (sb_id sb)) evs)"
      using s [of sb1] sb(2) by (simp add: sub_key_def)
    then show ?thesis using s1 [OF sb] by (simp add: given_append stays_append)
  qed
  have "q_run q (es1 @ es) q'" by (rule q_run_trans [OF q1(2) q'(2)])
  moreover have "map message_text (puts (es1 @ es)) = concat (map (accepted name) (ev # evs))"
    "removed (es1 @ es) = sum_list (map (aged name) (ev # evs))"
    using q1(3,4) q'(3,4) by (simp_all add: puts_append removed_append)
  ultimately show ?case using inv' q'(1) sub by blast
qed

text \<open>What a subscriber has not printed yet.\<close>

definition unprinted :: "subscriber \<Rightarrow> shell \<Rightarrow> string list" where
  "unprinted sb sh =
     (case map_of (sh_queues sh) (sb_queue sb) of
        None \<Rightarrow> [] | Some q \<Rightarrow> map message_text (q_left (sb_consumer sb) q))"

lemma sh_run_subscriber:
  assumes run: "sh_run sh evs sh'" and inv: "sh_inv sh" and sb: "sb \<in> set (sh_subs sh)"
  shows "subseq (concat (map (printed (sb_id sb)) evs) @ unprinted sb sh')
      (unprinted sb sh @ concat (map (accepted (sb_queue sb)) evs))"
    and "\<forall>ev \<in> set evs. aged (sb_queue sb) ev = 0 \<Longrightarrow>
      concat (map (printed (sb_id sb)) evs) @ unprinted sb sh'
        = unprinted sb sh @ concat (map (accepted (sb_queue sb)) evs)"
proof -
  obtain q where q: "map_of (sh_queues sh) (sb_queue sb) = Some q" "q_live (sb_consumer sb) q"
    "c_group (cm_cstore (q_consumers q) (sb_consumer sb)) = None" "q_inv q"
    using inv sb by (fastforce simp: sh_inv_def sh_sub_ok_def sh_queue_ok_def)
  obtain q' es where E: "map_of (sh_queues sh') (sb_queue sb) = Some q'" "q_run q es q'"
     "map message_text (puts es) = concat (map (accepted (sb_queue sb)) evs)"
     "removed es = sum_list (map (aged (sb_queue sb)) evs)" "stays (sb_consumer sb) es"
     "map message_text (given (sb_consumer sb) None es) = concat (map (printed (sb_id sb)) evs)"
    using sh_run_queue [OF run inv q(1)] sb by blast
  note R = run_reader [OF E(2) q(4,2) E(5) q(3)]
  have "subseq (map message_text (given (sb_consumer sb) None es @ q_left (sb_consumer sb) q'))
      (map message_text (q_left (sb_consumer sb) q @ puts es))"
    using R by (intro subseq_map) simp
  then show "subseq (concat (map (printed (sb_id sb)) evs) @ unprinted sb sh')
      (unprinted sb sh @ concat (map (accepted (sb_queue sb)) evs))"
    using E(1,3,6) q(1) by (simp add: unprinted_def)
  show "concat (map (printed (sb_id sb)) evs) @ unprinted sb sh'
        = unprinted sb sh @ concat (map (accepted (sb_queue sb)) evs)"
    if "\<forall>ev \<in> set evs. aged (sb_queue sb) ev = 0"
  proof -
    have "removed es = 0" using that E(4) by simp
    then have "given (sb_consumer sb) None es @ q_left (sb_consumer sb) q' = q_left (sb_consumer sb) q @ puts es"
      using R by blast
    from arg_cong [OF this, of "map message_text"] show ?thesis
      using E(1,3,6) q(1) by (simp add: unprinted_def)
  qed
qed

end
