(* ===== verification/MQ_ShellProps.thy ===== *)
theory MQ_ShellProps
  imports MQ_Shell MQ_Example
begin

text \<open>
  The properties of the command line tool: what its subscribers print, that no line makes it panic,
  and two defects that show at its prompt.
\<close>

section \<open>Reachable shells\<close>

definition sh_reached :: "shell \<Rightarrow> bool" where
  "sh_reached sh \<longleftrightarrow> (\<exists>evs. sh_run sh_start evs sh)"

lemma sh_run_inv: "sh_run sh evs sh' \<Longrightarrow> sh_inv sh \<Longrightarrow> sh_inv sh'"
  by (induction rule: sh_run.induct) (use step_follows in \<open>auto simp: follows_def\<close>)

lemma sh_reached_inv: "sh_reached sh \<Longrightarrow> sh_inv sh"
  unfolding sh_reached_def using sh_run_inv sh_inv_start by blast

lemma sh_run_snoc: "sh_run sh evs sh1 \<Longrightarrow> sh_step sh1 ev sh' \<Longrightarrow> sh_run sh (evs @ [ev]) sh'"
  by (induction rule: sh_run.induct) (auto intro: sh_run.intros)

lemma sh_reached_step: "sh_reached sh \<Longrightarrow> sh_step sh ev sh' \<Longrightarrow> sh_reached sh'"
  unfolding sh_reached_def using sh_run_snoc by blast

lemma sh_reached_start: "sh_reached sh_start"
  unfolding sh_reached_def by (blast intro: sh_run.intros)

section \<open>Single steps\<close>

text \<open>The queue of a subscription, as the shell hands it to an operation.\<close>

lemma sub_queue:
  assumes "sh_inv sh" "i < length (sh_subs sh)"
  obtains q where "sh_queue (sb_queue (sh_subs sh ! i)) sh = Some q"
    "map_of (sh_queues sh) (sb_queue (sh_subs sh ! i)) \<noteq> None"
    "q_inv q" "\<not> q_closed q" "q_live (sb_consumer (sh_subs sh ! i)) q"
    "c_group (cm_cstore (q_consumers q) (sb_consumer (sh_subs sh ! i))) = None"
    "unprinted (sh_subs sh ! i) sh = map message_text (q_left (sb_consumer (sh_subs sh ! i)) q)"
proof -
  let ?sb = "sh_subs sh ! i"
  have "sh_sub_ok sh ?sb" using assms by (simp add: sh_inv_def)
  then obtain q0 where q0: "map_of (sh_queues sh) (sb_queue ?sb) = Some q0" "q_live (sb_consumer ?sb) q0"
    "c_group (cm_cstore (q_consumers q0) (sb_consumer ?sb)) = None"
    by (auto simp: sh_sub_ok_def)
  have "sh_queue_ok (fst ` set (sh_consumers sh)) (sb_queue ?sb) q0" using assms(1) q0(1) by (simp add: sh_inv_def)
  note O = sh_queue_okD [OF this]
  show ?thesis
    by (rule that [of "q0\<lparr>q_dataIDSequence := sh_sequence sh\<rparr>"])
      (use q0 O in \<open>simp_all add: sh_queue_def unprinted_def\<close>)
qed

lemma map_of_put: "map_of (sh_queues (sh_put name q sh)) n = (if n = name then Some q else map_of (sh_queues sh) n)"
  by (simp add: sh_put_def update_conv')

lemma set_sub_frame [simp]:
  "sh_queues (sh_set_sub i st sh) = sh_queues sh" "sh_queue name (sh_set_sub i st sh) = sh_queue name sh"
  "length (sh_subs (sh_set_sub i st sh)) = length (sh_subs sh)"
  "j < length (sh_subs sh) \<Longrightarrow> sb_queue (sh_subs (sh_set_sub i st sh) ! j) = sb_queue (sh_subs sh ! j)"
  "j < length (sh_subs sh) \<Longrightarrow> sb_consumer (sh_subs (sh_set_sub i st sh) ! j) = sb_consumer (sh_subs sh ! j)"
  "j < length (sh_subs sh) \<Longrightarrow> sb_id (sh_subs (sh_set_sub i st sh) ! j) = sb_id (sh_subs sh ! j)"
  "j < length (sh_subs sh) \<Longrightarrow> sb_state (sh_subs (sh_set_sub i st sh) ! j) = (if j = i then st else sb_state (sh_subs sh ! j))"
  by (cases "j = i"; simp add: sh_set_sub_def sh_queue_def)+

lemma put_frame [simp]:
  "sh_subs (sh_put name q sh) = sh_subs sh" "sh_consumers (sh_put name q sh) = sh_consumers sh"
  "sh_queue name (sh_put name q sh) = Some q"
  by (simp_all add: sh_put_def sh_queue_def update_conv')

text \<open>A try of a goroutine never panics; it takes what its consumer has left first.\<close>

lemma sub_try_spec:
  assumes inv: "sh_inv sh" and i: "i < length (sh_subs sh)" and q: "sh_queue (sb_queue (sh_subs sh ! i)) sh = Some q"
  defines "p \<equiv> sb_consumer (sh_subs sh ! i)"
  obtains q' where
    "sub_try clk i sh = Some (if q_left p q = [] then None else Some (hd (q_left p q)),
       sh_set_sub i (if q_left p q = [] then Waiting else Trying) (sh_put (sb_queue (sh_subs sh ! i)) q' sh))"
    "q_enqueueNotify q' = q_enqueueNotify q" "q_items q' = q_items q"
    "\<And>p'. q_left p' q' = (if p' = p then tl (q_left p q) else q_left p' q)"
proof -
  obtain r where R: "sh_queue (sb_queue (sh_subs sh ! i)) sh = Some r" "q_inv r" "q_live p r"
    "c_group (cm_cstore (q_consumers r) p) = None"
    using sub_queue [OF inv i] unfolding p_def by metis
  have r: "r = q" using R(1) q by simp
  obtain q' where T: "q_TryRead clk 0 p q = Some (if q_left p q = [] then None else Some (hd (q_left p q)), q')"
    "consumed p (take 1 (q_left p q)) (tl (q_left p q)) q q'"
    using q_TryRead_consumed [OF R(2,3)] unfolding r by metis
  have "q_enqueueNotify q' = q_enqueueNotify q" using T(1) by (auto simp: q_TryRead_def q_set_reading_def)
  moreover have "sub_try clk i sh = Some (if q_left p q = [] then None else Some (hd (q_left p q)),
       sh_set_sub i (if q_left p q = [] then Waiting else Trying) (sh_put (sb_queue (sh_subs sh ! i)) q' sh))"
    using T(1) q by (simp add: sub_try_def p_def Let_def)
  moreover have "q_items q' = q_items q" "\<And>p'. q_left p' q' = (if p' = p then tl (q_left p q) else q_left p' q)"
    using T(2) R(4) r by (auto simp: consumed_def same_cursor_def)
  ultimately show ?thesis using that by blast
qed

text \<open>A line whose message was accepted stored it in the queue it names.\<close>

lemma line_accepted:
  assumes inv: "sh_inv sh" and eq: "qctl_line io line sh = Some (out, sh', stop)"
    and acc: "accepted name (Typed line out) = [msg]"
  obtains q d q' where "sh_queue name sh = Some q" "sh' = sh_put name q' sh" "stored [d] q q'" "message_text d = msg"
proof -
  obtain ws where line: "strings_Fields line = ''pub'' # name # ws" and out: "out = println ''Message enqueued.''"
    and msg: "msg = strings_Join ws '' ''"
    using acc by (auto simp: accepted_def split: list.splits if_splits)
  have short: "length line < 65536"
    using eq out by (auto simp: qctl_line_def println_def split: if_splits)
  have "qctl_command io ''pub'' (name # ws) sh = Some (out, sh', stop)" using eq line short by (simp add: qctl_line_def)
  then have H: "handlePub io (name # ws) sh = Some (out, sh')" by (auto simp: qctl_command_def)
  have differs: "println (''Usage: pub <name> <message...>'') \<noteq> out" "not_found name \<noteq> out"
    unfolding out by (simp_all add: println_def not_found_def)
  then have ws: "ws \<noteq> []" using H by (auto simp: handlePub_def)
  obtain q where q: "sh_queue name sh = Some q"
    using H ws differs by (cases "sh_queue name sh") (auto simp: handlePub_def)
  obtain err q' where T: "q_TryEnqueue (PString msg) (io_now io) q = Some (err, q')" and sh': "sh' = sh_put name q' sh"
    and e: "out = (case err of Some e \<Rightarrow> println (''Enqueue failed: '' @ Error e) | None \<Rightarrow> println ''Message enqueued.'')"
    using H ws q by (auto simp: handlePub_def Let_def msg split: if_splits)
  obtain q0 where q0: "map_of (sh_queues sh) name = Some q0" "q = q0\<lparr>q_dataIDSequence := sh_sequence sh\<rparr>"
    using q by (auto simp: sh_queue_def)
  have O: "q_inv q" "\<not> q_closed q" using inv q0 by (auto simp: sh_inv_def sh_queue_ok_def)
  have ok: "payload_ok (PString msg)"
    using message_short [OF line] short msg by (simp add: MaxInt64_def)
  have err: "err = None" using e unfolding out by (cases err) (simp_all add: println_def)
  show ?thesis
  proof (rule q_TryEnqueue_open [OF O ok, of "io_now io"], goal_cases)
    case (1 d err' q'')
    then have "stored [d] q q'" "message_text d = msg"
      using T err by (auto simp: new_item_def message_text_def)
    then show ?case using that q sh' by blast
  qed
qed

text \<open>A goroutine that waits and finds a token tries again.\<close>

lemma sub_wake_eq:
  "sh_queue (sb_queue (sh_subs sh ! i)) sh = Some q \<Longrightarrow>
    sub_wake i sh = sh_set_sub i Trying (sh_put (sb_queue (sh_subs sh ! i)) (took_enqueue q) sh)"
  by (simp add: sub_wake_def Let_def)

lemma took_enqueue_frame [simp]:
  "q_left p (took_enqueue q) = q_left p q" "q_items (took_enqueue q) = q_items q"
  by (simp_all add: took_enqueue_def q_left_def q_reading_def q_items_def)

text \<open>A turn of the goroutine \<open>i\<close>: of the subscriptions only its state changes.\<close>

definition turned :: "nat \<Rightarrow> sub_state \<Rightarrow> shell \<Rightarrow> shell \<Rightarrow> bool" where
  "turned i st sh sh' \<longleftrightarrow> length (sh_subs sh') = length (sh_subs sh)
     \<and> (\<forall>k < length (sh_subs sh). sb_queue (sh_subs sh' ! k) = sb_queue (sh_subs sh ! k)
          \<and> sb_consumer (sh_subs sh' ! k) = sb_consumer (sh_subs sh ! k) \<and> sb_id (sh_subs sh' ! k) = sb_id (sh_subs sh ! k)
          \<and> sb_state (sh_subs sh' ! k) = (if k = i then st else sb_state (sh_subs sh ! k)))"

lemma turned_set_put: "turned i st sh (sh_set_sub i st (sh_put name q sh))"
  by (simp add: turned_def)

lemma turned_trans: "turned i st sh sh1 \<Longrightarrow> turned i st' sh1 sh' \<Longrightarrow> turned i st' sh sh'"
  by (simp add: turned_def)

lemma wake_turn:
  assumes "sh_reached sh" "i < length (sh_subs sh)" "sb_state (sh_subs sh ! i) = Waiting"
    "sh_queue (sb_queue (sh_subs sh ! i)) sh = Some q" "ch_buf (q_enqueueNotify q) \<noteq> []"
  obtains sh' where "sh_step sh Silent sh'" "sh_reached sh'" "turned i Trying sh sh'"
    "sh_queue (sb_queue (sh_subs sh ! i)) sh' = Some (took_enqueue q)"
proof -
  have e: "sub_wake i sh = sh_set_sub i Trying (sh_put (sb_queue (sh_subs sh ! i)) (took_enqueue q) sh)"
    by (rule sub_wake_eq [OF assms(4)])
  have s: "sh_step sh Silent (sub_wake i sh)"
    using assms by (intro sh_step.wakes) (simp_all add: sub_token_def)
  show ?thesis
    by (rule that [OF s sh_reached_step [OF assms(1) s]]) (simp_all add: e turned_set_put)
qed

lemma read_turn:
  assumes "sh_reached sh" "i < length (sh_subs sh)" "sb_state (sh_subs sh ! i) = Trying"
    "sh_queue (sb_queue (sh_subs sh ! i)) sh = Some q"
  defines "p \<equiv> sb_consumer (sh_subs sh ! i)"
  obtains sh' q' where
    "sh_step sh (case q_left p q of [] \<Rightarrow> Silent | d # ds \<Rightarrow> Showed (sb_id (sh_subs sh ! i)) (message_text d)) sh'"
    "sh_reached sh'" "turned i (if q_left p q = [] then Waiting else Trying) sh sh'"
    "sh_queue (sb_queue (sh_subs sh ! i)) sh' = Some q'" "q_enqueueNotify q' = q_enqueueNotify q"
    "\<And>p'. q_left p' q' = (if p' = p then tl (q_left p q) else q_left p' q)"
proof -
  obtain q' where T: "sub_try (\<lambda>_. 0) i sh = Some (if q_left p q = [] then None else Some (hd (q_left p q)),
       sh_set_sub i (if q_left p q = [] then Waiting else Trying) (sh_put (sb_queue (sh_subs sh ! i)) q' sh))"
    "q_enqueueNotify q' = q_enqueueNotify q" "\<And>p'. q_left p' q' = (if p' = p then tl (q_left p q) else q_left p' q)"
    unfolding p_def by (rule sub_try_spec [OF sh_reached_inv [OF assms(1)] assms(2,4), of "\<lambda>_. 0"]) blast
  let ?sh = "sh_set_sub i (if q_left p q = [] then Waiting else Trying) (sh_put (sb_queue (sh_subs sh ! i)) q' sh)"
  have s: "sh_step sh (case q_left p q of [] \<Rightarrow> Silent | d # ds \<Rightarrow> Showed (sb_id (sh_subs sh ! i)) (message_text d)) ?sh"
    using sh_step.reads [OF assms(2,3), of "\<lambda>_. 0"] sh_step.idles [OF assms(2,3), of "\<lambda>_. 0"] T(1)
    by (cases "q_left p q") simp_all
  show ?thesis
    by (rule that [OF s sh_reached_step [OF assms(1) s] turned_set_put, of q']) (use T in simp_all)
qed

text \<open>In an empty queue nobody has anything to print.\<close>

lemma unprinted_empty:
  assumes "sh_inv sh" "i < length (sh_subs sh)" "sh_queue (sb_queue (sh_subs sh ! i)) sh = Some q" "q_items q = []"
  shows "unprinted (sh_subs sh ! i) sh = []"
proof -
  obtain r where r: "sh_queue (sb_queue (sh_subs sh ! i)) sh = Some r" "q_inv r" "\<not> q_closed r"
    "q_live (sb_consumer (sh_subs sh ! i)) r"
    "unprinted (sh_subs sh ! i) sh = map message_text (q_left (sb_consumer (sh_subs sh ! i)) r)"
    using sub_queue [OF assms(1,2)] by metis
  have "q_left (sb_consumer (sh_subs sh ! i)) q = []"
    using q_rank(2) [OF r(2,3), of "sb_consumer (sh_subs sh ! i)"] r(1,4) assms(3,4) by (simp add: q_live_def)
  then show ?thesis using r(1,5) assms(3) by simp
qed

lemma idle_reader:
  assumes "sh_inv sh" "i < length (sh_subs sh)" "sh_queue (sb_queue (sh_subs sh ! i)) sh = Some q" "q_items q = []"
  shows "q_inv q" "q_live (sb_consumer (sh_subs sh ! i)) q" "q_left (sb_consumer (sh_subs sh ! i)) q = []"
  using sub_queue [OF assms(1,2)] assms(3) unprinted_empty [OF assms] by auto

section \<open>A session\<close>

text \<open>A queue without expiration, two subscriptions that found nothing to read, and a message.\<close>

definition typed_at :: "string \<Rightarrow> outside" where
  "typed_at uuid = \<lparr>io_now = 0, io_uuid = uuid, io_order = [''q'']\<rparr>"

definition typing :: "string \<Rightarrow> string \<Rightarrow> shell \<Rightarrow> shell" where
  "typing uuid line sh = fst (snd (the (qctl_line (typed_at uuid) line sh)))"

definition trying :: "nat \<Rightarrow> shell \<Rightarrow> shell" where
  "trying i sh = snd (the (sub_try (\<lambda>_. 0) i sh))"

definition ss_two :: shell where
  "ss_two = typing ''bbbbbbbb-2'' ''sub q'' (typing ''aaaaaaaa-1'' ''sub q'' (typing ''u0'' ''create q 0'' sh_start))"

definition ss_wait :: shell where
  "ss_wait = trying 1 (trying 0 ss_two)"

definition ss_pub :: shell where
  "ss_pub = typing ''u0'' ''pub q hi'' ss_wait"

lemma typing_step:
  assumes "uuid \<notin> fst ` set (sh_consumers sh)"
    and "map_option fst (qctl_line (typed_at uuid) line sh) = Some out"
  shows "sh_step sh (Typed line out) (typing uuid line sh)"
proof -
  obtain sh' stop where L: "qctl_line (typed_at uuid) line sh = Some (out, sh', stop)" using assms(2) by auto
  have u: "io_uuid (typed_at uuid) \<notin> fst ` set (sh_consumers sh)" using assms(1) by (simp add: typed_at_def)
  show ?thesis using sh_step.typed [OF u L] by (simp add: typing_def L)
qed

lemma ss_two_facts: "sh_reached ss_two" "length (sh_subs ss_two) = 2"
  "map sb_state (sh_subs ss_two) = [Trying, Trying]" "map sb_id (sh_subs ss_two) = [''aaaaaaaa-1'', ''bbbbbbbb-2'']"
  "map sb_queue (sh_subs ss_two) = [''q'', ''q'']"
  "map_option (\<lambda>q. cl_list (q_data q)) (sh_queue ''q'' ss_two) = Some []"
  "map_option (\<lambda>q. ch_buf (q_enqueueNotify q)) (sh_queue ''q'' ss_two) = Some []"
proof -
  let ?c = "typing ''u0'' ''create q 0'' sh_start"
  let ?s = "typing ''aaaaaaaa-1'' ''sub q'' ?c"
  have "sh_step sh_start (Typed ''create q 0'' (println (''Created queue '' @ quoted ''q'' @ '' with TTL 0s''))) ?c"
    by (rule typing_step; code_simp)
  moreover have "sh_step ?c (Typed ''sub q'' (println ''Started consumer aaaaaaaa. Messages will appear below...'')) ?s"
    by (rule typing_step; code_simp)
  moreover have "sh_step ?s (Typed ''sub q'' (println ''Started consumer bbbbbbbb. Messages will appear below...'')) ss_two"
    unfolding ss_two_def by (rule typing_step; code_simp)
  ultimately show "sh_reached ss_two" by (metis sh_reached_start sh_reached_step)
  show "length (sh_subs ss_two) = 2" "map sb_state (sh_subs ss_two) = [Trying, Trying]"
    "map sb_id (sh_subs ss_two) = [''aaaaaaaa-1'', ''bbbbbbbb-2'']"
    "map sb_queue (sh_subs ss_two) = [''q'', ''q'']"
    by code_simp+
  show "map_option (\<lambda>q. cl_list (q_data q)) (sh_queue ''q'' ss_two) = Some []"
    "map_option (\<lambda>q. ch_buf (q_enqueueNotify q)) (sh_queue ''q'' ss_two) = Some []"
    by code_simp+
qed

lemma trying_idle:
  assumes "sh_reached sh" "i < length (sh_subs sh)" "sb_state (sh_subs sh ! i) = Trying"
    "sh_queue (sb_queue (sh_subs sh ! i)) sh = Some q" "q_items q = []"
  shows "sh_reached (trying i sh)" "turned i Waiting sh (trying i sh)" "sh_consumers (trying i sh) = sh_consumers sh"
    "\<exists>q'. sh_queue (sb_queue (sh_subs sh ! i)) (trying i sh) = Some q' \<and> q_items q' = []
       \<and> q_enqueueNotify q' = q_enqueueNotify q"
proof -
  let ?p = "sb_consumer (sh_subs sh ! i)"
  have e: "q_left ?p q = []" by (rule idle_reader [OF sh_reached_inv [OF assms(1)] assms(2,4,5)])
  obtain q' where T: "sub_try (\<lambda>_. 0) i sh = Some (None, sh_set_sub i Waiting (sh_put (sb_queue (sh_subs sh ! i)) q' sh))"
    "q_enqueueNotify q' = q_enqueueNotify q" "q_items q' = q_items q"
    by (rule sub_try_spec [OF sh_reached_inv [OF assms(1)] assms(2,4), of "\<lambda>_. 0"]) (use e in simp)
  have t: "trying i sh = sh_set_sub i Waiting (sh_put (sb_queue (sh_subs sh ! i)) q' sh)" by (simp add: trying_def T)
  have s: "sh_step sh Silent (trying i sh)" unfolding t by (rule sh_step.idles [OF assms(2,3) T(1)])
  show "sh_reached (trying i sh)" by (rule sh_reached_step [OF assms(1) s])
  show "turned i Waiting sh (trying i sh)" unfolding t by (rule turned_set_put)
  show "sh_consumers (trying i sh) = sh_consumers sh" by (simp add: t sh_set_sub_def)
  show "\<exists>q'. sh_queue (sb_queue (sh_subs sh ! i)) (trying i sh) = Some q' \<and> q_items q' = []
       \<and> q_enqueueNotify q' = q_enqueueNotify q"
    using T assms(5) by (simp add: t)
qed

lemma ss_wait_facts: "sh_reached ss_wait" "length (sh_subs ss_wait) = 2"
  "sb_state (sh_subs ss_wait ! 0) = Waiting" "sb_state (sh_subs ss_wait ! 1) = Waiting"
  "sb_queue (sh_subs ss_wait ! 0) = ''q''" "sb_queue (sh_subs ss_wait ! 1) = ''q''"
  "sb_id (sh_subs ss_wait ! 0) = ''aaaaaaaa-1''" "''u0'' \<notin> fst ` set (sh_consumers ss_wait)"
  "\<exists>q. sh_queue ''q'' ss_wait = Some q \<and> q_items q = [] \<and> ch_buf (q_enqueueNotify q) = []"
proof -
  note F = ss_two_facts
  obtain x y where xy: "sh_subs ss_two = [x, y]" using F(2) by (auto simp: length_Suc_conv eval_nat_numeral)
  obtain q where q: "sh_queue ''q'' ss_two = Some q" "q_items q = []" "ch_buf (q_enqueueNotify q) = []"
    using F(6,7) by (auto simp: q_items_def cl_items_def)
  let ?s = "trying 0 ss_two"
  note T = trying_idle [OF F(1), of 0 q]
  obtain q1 where q1: "sh_queue ''q'' ?s = Some q1" "q_items q1 = []" "q_enqueueNotify q1 = q_enqueueNotify q"
    using T(4) F xy q by auto
  have t: "turned 0 Waiting ss_two ?s" "sh_reached ?s" "sh_consumers ?s = sh_consumers ss_two" using T F xy q by simp_all
  note U = trying_idle [OF t(2), of 1 q1]
  have u: "turned 1 Waiting ?s ss_wait" "sh_reached ss_wait" "sh_consumers ss_wait = sh_consumers ?s"
    "\<exists>q. sh_queue ''q'' ss_wait = Some q \<and> q_items q = [] \<and> ch_buf (q_enqueueNotify q) = []"
    using U F xy q q1 t(1) by (auto simp: turned_def ss_wait_def)
  show "sh_reached ss_wait" "\<exists>q. sh_queue ''q'' ss_wait = Some q \<and> q_items q = [] \<and> ch_buf (q_enqueueNotify q) = []"
    by (rule u)+
  have "''u0'' \<notin> fst ` set (sh_consumers ss_two)" by code_simp
  then show "''u0'' \<notin> fst ` set (sh_consumers ss_wait)" using u(3) t(3) by simp
  show "length (sh_subs ss_wait) = 2"
    "sb_state (sh_subs ss_wait ! 0) = Waiting" "sb_state (sh_subs ss_wait ! 1) = Waiting"
    "sb_queue (sh_subs ss_wait ! 0) = ''q''" "sb_queue (sh_subs ss_wait ! 1) = ''q''"
    "sb_id (sh_subs ss_wait ! 0) = ''aaaaaaaa-1''"
    using u(1) t(1) F xy by (simp_all add: turned_def)
qed

lemma ss_pub_line: "qctl_line (typed_at ''u0'') ''pub q hi'' ss_wait = Some (println ''Message enqueued.'', ss_pub, False)"
proof -
  have "map_option (\<lambda>(out, sh, stop). (out, stop)) (qctl_line (typed_at ''u0'') ''pub q hi'' ss_wait)
      = Some (println ''Message enqueued.'', False)"
    by code_simp
  then show ?thesis by (auto simp: ss_pub_def typing_def)
qed

lemma ss_pub_accepted: "accepted ''q'' (Typed ''pub q hi'' (println ''Message enqueued.'')) = [''hi'']"
  by code_simp

section \<open>What subscribers print\<close>

text \<open>C26. Between two moments of a session, what a subscriber prints followed by what it has not printed yet
  is a subsequence of what it had not printed before followed by the messages accepted for its queue by
  \<^verbatim>\<open>pub\<close>: none twice, none out of order; and when nothing expired in its queue it is exactly that, so none
  is lost. Lines typed, goroutines and expiration workers may interleave in any way, as long as in no
  expiration pass an item's TTL runs out between the pass's two looks at it.\<close>

theorem subscriber_prints_once:
  assumes "sh_reached sh" and "sb \<in> set (sh_subs sh)" and "sh_run sh evs sh'"
  shows "subseq (concat (map (printed (sb_id sb)) evs) @ unprinted sb sh')
      (unprinted sb sh @ concat (map (accepted (sb_queue sb)) evs))
    \<and> ((\<forall>ev \<in> set evs. aged (sb_queue sb) ev = 0) \<longrightarrow>
        concat (map (printed (sb_id sb)) evs) @ unprinted sb sh'
          = unprinted sb sh @ concat (map (accepted (sb_queue sb)) evs))"
  using sh_run_subscriber [OF assms(3) sh_reached_inv [OF assms(1)] assms(2)] by blast

theorem subscriber_prints_once_witness:
  "concat (map (printed ''aaaaaaaa-1'') [Typed ''pub q hi'' (println ''Message enqueued.'')]) @ unprinted (sh_subs ss_wait ! 0) ss_pub
     = unprinted (sh_subs ss_wait ! 0) ss_wait @ [''hi'']"
proof -
  have u: "io_uuid (typed_at ''u0'') \<notin> fst ` set (sh_consumers ss_wait)"
    using ss_wait_facts(8) by (simp add: typed_at_def)
  have "sh_run ss_wait [Typed ''pub q hi'' (println ''Message enqueued.'')] ss_pub"
    by (rule sh_run.go [OF sh_step.typed [OF u ss_pub_line] sh_run.stop])
  from subscriber_prints_once [OF ss_wait_facts(1) _ this, of "sh_subs ss_wait ! 0"] show ?thesis
    using ss_wait_facts ss_pub_accepted by (simp add: aged_def)
qed

text \<open>A message can stay unseen at the prompt. Two subscribers of an empty queue wait in \<^verbatim>\<open>Read\<close>; a
  message is published and accepted. One token is sent: the first subscriber prints the message and
  waits again, and the second stays blocked, without a token, with the message unprinted.\<close>

theorem second_subscriber_waits:
  assumes "sh_reached sh" and "i < length (sh_subs sh)" and "j < length (sh_subs sh)" and "i \<noteq> j"
    and "sb_state (sh_subs sh ! i) = Waiting" and "sb_state (sh_subs sh ! j) = Waiting"
    and "sb_queue (sh_subs sh ! i) = name" and "sb_queue (sh_subs sh ! j) = name"
    and "sh_queue name sh = Some q" and "q_items q = []" and "ch_buf (q_enqueueNotify q) = []"
    and "qctl_line io line sh = Some (out, sh1, stop)" and "accepted name (Typed line out) = [msg]"
    and "io_uuid io \<notin> fst ` set (sh_consumers sh)"
  shows "\<exists>sh'. sh_run sh [Typed line out, Silent, Showed (sb_id (sh_subs sh ! i)) msg, Silent] sh'
    \<and> sb_state (sh_subs sh' ! i) = Waiting \<and> sb_state (sh_subs sh' ! j) = Waiting
    \<and> \<not> sub_token j sh' \<and> \<not> sub_stopped j sh' \<and> unprinted (sh_subs sh' ! j) sh' = [msg]"
proof -
  note inv = sh_reached_inv [OF assms(1)]
  let ?p = "sb_consumer (sh_subs sh ! i)" and ?r = "sb_consumer (sh_subs sh ! j)"
  have step1: "sh_step sh (Typed line out) sh1" by (rule sh_step.typed [OF assms(14,12)])
  obtain q0 d q1 where Q: "sh_queue name sh = Some q0" "sh1 = sh_put name q1 sh" "stored [d] q0 q1" "message_text d = msg"
    by (rule line_accepted [OF inv assms(12,13)])
  have q0: "q0 = q" using Q(1) assms(9) by simp
  obtain live: "q_live ?p q" "q_live ?r q" and left: "q_left ?p q = []" "q_left ?r q = []"
    using idle_reader [OF inv assms(2)] idle_reader [OF inv assms(3)] assms(7-10) by metis
  have left1: "q_left ?p q1 = [d]" "q_left ?r q1 = [d]"
    using Q(3) live left unfolding q0 stored_def q_live_def by simp_all
  have "cm_consumers (q_consumers q) \<noteq> []" using live by (auto simp: q_live_def q_reader_def)
  then have "length (ch_buf (q_enqueueNotify q1)) = 1"
    using Q(3) assms(10,11) unfolding q0 stored_def by (cases "cm_consumers (q_consumers q)") auto
  then obtain u where buf: "ch_buf (q_enqueueNotify q1) = [u]" by (auto simp: length_Suc_conv)
  have pr: "?r \<noteq> ?p" using inv assms(2-4,7,8) by (auto simp: sh_inv_def distinct_conv_nth)
  have s1: "sh_subs sh1 = sh_subs sh" "sh_queue name sh1 = Some q1" using Q(2) by simp_all
  have r1: "sh_reached sh1" by (rule sh_reached_step [OF assms(1) step1])
  obtain sh2 where W: "sh_step sh1 Silent sh2" "sh_reached sh2" "turned i Trying sh sh2" "sh_queue name sh2 = Some (took_enqueue q1)"
    by (rule wake_turn [OF r1, of i q1]) (use s1 assms(2,5,7) buf in \<open>auto simp: turned_def\<close>)
  obtain sh3 q3 where R: "sh_step sh2 (Showed (sb_id (sh_subs sh ! i)) msg) sh3" "sh_reached sh3" "turned i Trying sh2 sh3"
    "sh_queue name sh3 = Some q3" "q_enqueueNotify q3 = q_enqueueNotify (took_enqueue q1)" "q_left ?p q3 = []" "q_left ?r q3 = [d]"
    by (rule read_turn [OF W(2), of i "took_enqueue q1"])
      (use W(3,4) assms(2,7) left1 pr Q(4) in \<open>auto simp: turned_def\<close>)
  note t3 = turned_trans [OF W(3) R(3)]
  obtain sh4 q4 where I: "sh_step sh3 Silent sh4" "sh_reached sh4" "turned i Waiting sh3 sh4"
    "sh_queue name sh4 = Some q4" "q_enqueueNotify q4 = q_enqueueNotify q3" "q_left ?r q4 = [d]"
    by (rule read_turn [OF R(2), of i q3]) (use t3 R assms(2,7) pr in \<open>auto simp: turned_def\<close>)
  note t4 = turned_trans [OF t3 I(3)]
  have tok: "ch_buf (q_enqueueNotify q4) = []" using I(5) R(5) buf by (simp add: took_enqueue_def take_token_def)
  have q4: "sh_queue (sb_queue (sh_subs sh4 ! j)) sh4 = Some q4" "j < length (sh_subs sh4)" "sb_consumer (sh_subs sh4 ! j) = ?r"
    using t4 I(4) assms(3,8) by (simp_all add: turned_def)
  have "q_inv q4" "\<not> q_closed q4" and un: "unprinted (sh_subs sh4 ! j) sh4 = [msg]"
    using sub_queue [OF sh_reached_inv [OF I(2)] q4(2)] q4(1,3) I(6) Q(4) by auto
  then have "\<not> sub_token j sh4" "\<not> sub_stopped j sh4"
    using q4(1) tok q_invD(8) [of q4] by (simp_all add: sub_token_def sub_stopped_def)
  moreover have "sh_run sh [Typed line out, Silent, Showed (sb_id (sh_subs sh ! i)) msg, Silent] sh4"
    using step1 W(1) R(1) I(1) by (blast intro: sh_run.intros)
  moreover have "sb_state (sh_subs sh4 ! i) = Waiting \<and> sb_state (sh_subs sh4 ! j) = Waiting"
    using t4 assms(2-6) by (simp add: turned_def)
  ultimately show ?thesis using un by blast
qed

theorem second_subscriber_waits_witness:
  "\<exists>sh'. sh_run ss_wait [Typed ''pub q hi'' (println ''Message enqueued.''), Silent, Showed ''aaaaaaaa-1'' ''hi'', Silent] sh'
    \<and> unprinted (sh_subs sh' ! 1) sh' = [''hi'']"
proof -
  have u: "io_uuid (typed_at ''u0'') \<notin> fst ` set (sh_consumers ss_wait)"
    using ss_wait_facts(8) by (simp add: typed_at_def)
  obtain q where q: "sh_queue ''q'' ss_wait = Some q" "q_items q = []" "ch_buf (q_enqueueNotify q) = []"
    using ss_wait_facts(9) by blast
  show ?thesis
    using second_subscriber_waits [OF ss_wait_facts(1) _ _ _ ss_wait_facts(3-6) q ss_pub_line ss_pub_accepted u]
      ss_wait_facts(2,7) by auto
qed

text \<open>Round trip of the words of a message: a line \<^verbatim>\<open>pub name words\<close> that is accepted leaves exactly
  its words, joined by single spaces, as the last thing each subscriber of the queue has to print.\<close>

theorem published_words:
  assumes "sh_reached sh" and "sb \<in> set (sh_subs sh)" and "is_word (sb_queue sb)" and "ws \<noteq> []" and "\<forall>w \<in> set ws. is_word w"
    and "io_uuid io \<notin> fst ` set (sh_consumers sh)"
    and "qctl_line io (strings_Join (''pub'' # sb_queue sb # ws) '' '') sh = Some (println ''Message enqueued.'', sh', stop)"
  shows "unprinted sb sh' = unprinted sb sh @ [strings_Join ws '' '']"
proof -
  let ?line = "strings_Join (''pub'' # sb_queue sb # ws) '' ''" and ?ok = "println ''Message enqueued.''"
  have "is_word ''pub''" by (simp add: is_word_def is_space_def)
  then have "strings_Fields ?line = ''pub'' # sb_queue sb # ws" using assms(3,5) by (intro Fields_Join) simp
  then have "accepted (sb_queue sb) (Typed ?line ?ok) = [strings_Join ws '' '']" by (simp add: accepted_def)
  moreover have "sh_run sh [Typed ?line ?ok] sh'"
    by (rule sh_run.go [OF sh_step.typed [OF assms(6,7)] sh_run.stop])
  ultimately show ?thesis
    using sh_run_subscriber(2) [OF _ sh_reached_inv [OF assms(1)] assms(2)] by (fastforce simp: aged_def)
qed

theorem published_words_witness: "unprinted (sh_subs ss_wait ! 0) ss_pub = [''hi'']"
proof -
  have u: "io_uuid (typed_at ''u0'') \<notin> fst ` set (sh_consumers ss_wait)"
    using ss_wait_facts(8) by (simp add: typed_at_def)
  obtain q where q: "sh_queue ''q'' ss_wait = Some q" "q_items q = []" using ss_wait_facts(9) by blast
  have "unprinted (sh_subs ss_wait ! 0) ss_wait = []"
    by (rule unprinted_empty [OF sh_reached_inv [OF ss_wait_facts(1)] _ _ q(2)]) (use ss_wait_facts q in simp_all)
  moreover have "is_word ''q''" "is_word ''hi''" by (simp_all add: is_word_def is_space_def)
  ultimately show ?thesis
    using published_words [OF ss_wait_facts(1), of "sh_subs ss_wait ! 0" "[''hi'']" "typed_at ''u0''"] u ss_pub_line ss_wait_facts
    by simp
qed

section \<open>No line panics\<close>

text \<open>No line typed, no read of a goroutine and no tick of an expiration worker makes a session
  panic: every handler returns what it prints and the new state.\<close>

theorem shell_no_panic:
  assumes "sh_reached sh"
  shows "qctl_line io line sh \<noteq> None \<and> (\<forall>i < length (sh_subs sh). sub_try clk i sh \<noteq> None)
    \<and> (\<forall>name q. sh_queue name sh = Some q \<longrightarrow> q_worker_tick (\<lambda>_. now) now q \<noteq> None)"
proof (intro conjI allI impI)
  note inv = sh_reached_inv [OF assms]
  have O: "q_inv q \<and> \<not> q_closed q \<and> q_consumerEvictionTimeout q = 0" if "sh_queue name sh = Some q" for name q
    using that inv by (auto simp: sh_queue_def sh_inv_def sh_queue_ok_def)
  show "sub_try clk i sh \<noteq> None" if i: "i < length (sh_subs sh)" for i
  proof -
    obtain q where "sh_queue (sb_queue (sh_subs sh ! i)) sh = Some q" by (rule sub_queue [OF inv i])
    then show ?thesis by (rule sub_try_spec [OF inv i, where clk = clk]) simp
  qed
  show "q_worker_tick (\<lambda>_. now) now q \<noteq> None" if q: "sh_queue name sh = Some q" for name q
  proof -
    have C: "q_CleanInactiveConsumers t now r \<noteq> None" if "q_inv r" for t r
      by (rule q_CleanInactive_spec [OF that, where now = now and timeout = t]) simp
    show ?thesis
    proof (cases "q_expirationEnabled q")
      case True
      obtain q' where "cleanupExpiredItems (\<lambda>_. now) q = Some (length (takeWhile (qd_IsExpired now (q_ttl q)) (q_items q)), q')" "q_inv q'"
        by (rule cleanup_steady [OF _ _ True, of "\<lambda>_. now" now]) (use O [OF q] in simp_all)
      then show ?thesis using C [of q' "q_consumerEvictionTimeout q'"] by (auto simp: q_worker_tick_def True)
    qed (use O [OF q] in \<open>simp add: q_worker_tick_def\<close>)
  qed
  show "qctl_line io line sh \<noteq> None"
  proof (cases "65536 \<le> length line \<or> strings_Fields line = []")
    case True
    then show ?thesis by (auto simp: qctl_line_def)
  next
    case False
    then obtain cmd args where line: "strings_Fields line = cmd # args" "length line < 65536"
      by (cases "strings_Fields line") auto
    have "handlePub io args sh \<noteq> None"
    proof (cases "2 \<le> length args \<and> sh_queue (args ! 0) sh \<noteq> None")
      case True
      then obtain name ws q where a: "args = name # ws" and q: "sh_queue name sh = Some q" by (cases args) auto
      have "payload_ok (PString (strings_Join ws '' ''))"
        using message_short [of line cmd name ws] line a by (simp add: MaxInt64_def)
      then have "q_TryEnqueue (PString (strings_Join ws '' '')) (io_now io) q \<noteq> None"
        using O [OF q] by (elim q_TryEnqueue_open [rotated 2, where now = "io_now io" and q = q]) simp_all
      then show ?thesis using q by (simp add: handlePub_def a Let_def)
    qed (auto simp: handlePub_def Let_def)
    then show ?thesis using line by (auto simp: qctl_line_def qctl_command_def split: prod.split)
  qed
qed

theorem shell_no_panic_witness: "qctl_line (typed_at ''u0'') ''pub q hi'' ss_wait \<noteq> None \<and> sub_try (\<lambda>_. 0) 1 ss_wait \<noteq> None"
  using shell_no_panic [OF ss_wait_facts(1), of "typed_at ''u0''" "''pub q hi''" "\<lambda>_. 0"] ss_wait_facts(2) by simp

section \<open>The TTL of a new queue\<close>

text \<open>\<^verbatim>\<open>create name seconds\<close> gives the queue that many seconds exactly up to 9223372036 and never beyond:
  the product with \<^verbatim>\<open>time.Second\<close> wraps around, and a TTL of 18446744074 seconds becomes 0.29 seconds.\<close>

theorem create_ttl_seconds:
  assumes "int n \<le> MaxInt64"
  shows "(create_ttl [name, show_nat n] = int n * 1000000000 \<longleftrightarrow> n \<le> 9223372036)
    \<and> show_duration (create_ttl [name, ''18446744074'']) = ''290.448384ms''"
proof
  have "create_ttl [name, show_nat n] = wrap64 (int n * 1000000000)"
    using Atoi_show_nat [OF assms] by (simp add: create_ttl_def )
  moreover have "wrap64 (int n * 1000000000) = int n * 1000000000 \<longleftrightarrow> is_int64 (int n * 1000000000)"
  proof
    assume e: "wrap64 (int n * 1000000000) = int n * 1000000000"
    show "is_int64 (int n * 1000000000)" using is_int64_wrap64 [of "int n * 1000000000"] unfolding e .
  qed (rule wrap64_id)
  ultimately show "create_ttl [name, show_nat n] = int n * 1000000000 \<longleftrightarrow> n \<le> 9223372036"
    by (simp only: int64_simps) linarith
  show "show_duration (create_ttl [name, ''18446744074'']) = ''290.448384ms''"
  proof -
    have "strconv_Atoi ''18446744074'' = Some 18446744074"
      by (simp add: strconv_Atoi_def read_nat_def is_digit_def int64_simps)
    then have "create_ttl [name, ''18446744074''] = 290448384" by (simp add: create_ttl_def wrap64_def)
    moreover have "show_duration 290448384 = ''290.448384ms''"
      by (simp add: show_duration_def fmtFrac_def pad_zeros_def show_nat.simps char_of_def bit_iff_odd)
    ultimately show ?thesis by (simp only:)
  qed
qed

theorem create_ttl_seconds_witness: "create_ttl [''q'', ''60''] = 60000000000"
proof -
  have "show_nat 60 = ''60''" by code_simp
  then show ?thesis using create_ttl_seconds [of 60 "''q''"] by (simp add: int64_simps )
qed

end
