(* ===== verification/MQ_ShellWake.thy ===== *)
theory MQ_ShellWake
  imports MQ_ShellProps
begin

text \<open>
  A subscriber that is the only one of its queue is never stuck: while it waits with something to
  print there is a token in the channel. This is what fails with a second subscriber.
\<close>

section \<open>The invariant\<close>

definition alone :: "nat \<Rightarrow> shell \<Rightarrow> bool" where
  "alone i sh \<longleftrightarrow> (\<forall>j < length (sh_subs sh). sb_queue (sh_subs sh ! j) = sb_queue (sh_subs sh ! i) \<longrightarrow> j = i)"

definition awake :: "cptr \<Rightarrow> queue \<Rightarrow> bool" where
  "awake p q \<longleftrightarrow> q_left p q = [] \<or> ch_buf (q_enqueueNotify q) \<noteq> []"

definition sub_awake :: "nat \<Rightarrow> shell \<Rightarrow> bool" where
  "sub_awake i sh \<longleftrightarrow> (\<forall>q. map_of (sh_queues sh) (sb_queue (sh_subs sh ! i)) = Some q \<longrightarrow> awake (sb_consumer (sh_subs sh ! i)) q)"

definition none_lost :: "shell \<Rightarrow> bool" where
  "none_lost sh \<longleftrightarrow> (\<forall>i < length (sh_subs sh). sb_state (sh_subs sh ! i) = Waiting \<and> alone i sh \<longrightarrow> sub_awake i sh)"

text \<open>The new state of a queue, for a waiting subscriber of it that was awake.\<close>

lemma awake_read: "q_enqueueNotify q' = q_enqueueNotify q \<Longrightarrow> (q_left p q = [] \<Longrightarrow> q_left p q' = []) \<Longrightarrow> awake p q \<Longrightarrow> awake p q'"
  by (auto simp: awake_def)

lemma awake_stored:
  assumes "stored [d] q q'" "q_live p q"
  shows "awake p q'"
proof -
  have "cm_consumers (q_consumers q) \<noteq> []" using assms(2) by (auto simp: q_live_def q_reader_def)
  then have "0 < length (ch_buf (q_enqueueNotify q'))" using assms(1) unfolding stored_def by (simp add: min_def)
  then show ?thesis by (auto simp: awake_def)
qed

lemma awake_tick:
  assumes inv: "q_inv q" and opn: "\<not> q_closed q" and t: "q_consumerEvictionTimeout q = 0" and live: "q_live p q"
    and eq: "q_worker_tick clk now q = Some q'" and looks: "looks_agree clk (q_ttl q) 0 (q_items q)" and a: "awake p q"
  shows "awake p q'"
proof (cases "q_expirationEnabled q")
  case False
  then show ?thesis using eq t a by (simp add: q_worker_tick_def)
next
  case True
  obtain r where C: "cleanupExpiredItems clk q = Some (expired_run clk (q_ttl q) 0 (q_items q), r)"
    "\<exists>n. q_left p r = drop n (q_left p q)"
    by (rule cleanup_spec [OF inv looks True]) (use opn live in \<open>auto simp: q_live_def\<close>)
  have fr: "q_consumerEvictionTimeout r = q_consumerEvictionTimeout q" "q_enqueueNotify r = q_enqueueNotify q"
    using C(1) by (auto simp: cleanupExpiredItems_def Let_def split: prod.splits if_splits Option.bind_splits)
  have "r = q'" using eq C(1) True t fr by (simp add: q_worker_tick_def)
  then show ?thesis using a C(2) fr by (auto simp: awake_def)
qed

section \<open>Every step keeps it\<close>

lemma sub_awake_same:
  assumes "map_of (sh_queues sh') (sb_queue (sh_subs sh ! i)) = map_of (sh_queues sh) (sb_queue (sh_subs sh ! i))"
    "sb_queue (sh_subs sh' ! i) = sb_queue (sh_subs sh ! i)" "sb_consumer (sh_subs sh' ! i) = sb_consumer (sh_subs sh ! i)"
  shows "sub_awake i sh' = sub_awake i sh"
  using assms by (simp add: sub_awake_def)

text \<open>A turn of the goroutine \<open>i\<close> with its queue: the others that are alone have other queues.\<close>

lemma none_lost_turn:
  assumes n: "none_lost sh" and t: "turned i st sh sh'" and i: "i < length (sh_subs sh)"
    and q: "\<And>name. name \<noteq> sb_queue (sh_subs sh ! i) \<Longrightarrow> map_of (sh_queues sh') name = map_of (sh_queues sh) name"
    and own: "st = Waiting \<Longrightarrow> sub_awake i sh'"
  shows "none_lost sh'"
  unfolding none_lost_def
proof (intro allI impI, elim conjE)
  fix j assume j: "j < length (sh_subs sh')" "sb_state (sh_subs sh' ! j) = Waiting" "alone j sh'"
  have T: "length (sh_subs sh') = length (sh_subs sh)"
    "\<And>k. k < length (sh_subs sh) \<Longrightarrow> sb_queue (sh_subs sh' ! k) = sb_queue (sh_subs sh ! k)"
    "\<And>k. k < length (sh_subs sh) \<Longrightarrow> sb_consumer (sh_subs sh' ! k) = sb_consumer (sh_subs sh ! k)"
    "\<And>k. k < length (sh_subs sh) \<Longrightarrow> sb_state (sh_subs sh' ! k) = (if k = i then st else sb_state (sh_subs sh ! k))"
    using t by (simp_all add: turned_def)
  show "sub_awake j sh'"
  proof (cases "j = i")
    case True
    then show ?thesis using own j T(4) [OF i] by simp
  next
    case False
    have al: "alone j sh" using j(3) T(1,2) j(1) by (simp add: alone_def)
    then have "sb_queue (sh_subs sh ! i) \<noteq> sb_queue (sh_subs sh ! j)" using i False by (auto simp: alone_def)
    moreover have "sub_awake j sh" using n al j T False by (simp add: none_lost_def)
    ultimately show ?thesis using sub_awake_same [of sh' sh j] q T j(1) by metis
  qed
qed

text \<open>A step that leaves the subscriptions, and in each of their queues those awake that were.\<close>

lemma none_lost_queues:
  assumes n: "none_lost sh" and s: "sh_subs sh' = sh_subs sh"
    and q: "\<And>i q'. i < length (sh_subs sh) \<Longrightarrow> map_of (sh_queues sh') (sb_queue (sh_subs sh ! i)) = Some q' \<Longrightarrow>
       \<exists>q. map_of (sh_queues sh) (sb_queue (sh_subs sh ! i)) = Some q
         \<and> (awake (sb_consumer (sh_subs sh ! i)) q \<longrightarrow> awake (sb_consumer (sh_subs sh ! i)) q')"
  shows "none_lost sh'"
  using n q unfolding none_lost_def sub_awake_def alone_def s by (metis option.inject)

lemma none_lost_line:
  assumes inv: "sh_inv sh" and n: "none_lost sh" and fresh: "io_uuid io \<notin> fst ` set (sh_consumers sh)"
    and eq: "qctl_command io cmd args sh = Some (out, sh', stop)"
    and msg: "length (strings_Join (tl args) '' '') < 65536"
  shows "none_lost sh'"
proof -
  have live: "\<exists>q. map_of (sh_queues sh) (sb_queue (sh_subs sh ! i)) = Some q \<and> q_live (sb_consumer (sh_subs sh ! i)) q"
    if "i < length (sh_subs sh)" for i
    using inv that by (fastforce simp: sh_inv_def sh_sub_ok_def)
  note eq' = eq [unfolded qctl_command_def Let_def]
  consider "cmd = ''create''" | "cmd = ''pub''" | "cmd = ''sub''" | "cmd \<noteq> ''create''" "cmd \<noteq> ''pub''" "cmd \<noteq> ''sub''"
    by blast
  then show ?thesis
  proof cases
    case 1
    then have h: "handleCreate io args sh = (out, sh')" using eq' by (auto split: prod.splits)
    have "sh' = sh \<or> (\<exists>name q. map_of (sh_queues sh) name = None \<and> sh' = sh_put name q sh)"
    proof (cases "args = [] \<or> sh_queue (args ! 0) sh \<noteq> None")
      case False
      then have "map_of (sh_queues sh) (args ! 0) = None" by (simp add: sh_queue_def)
      moreover have "\<exists>q. sh' = sh_put (args ! 0) q sh" using False h by (auto simp: handleCreate_def Let_def)
      ultimately show ?thesis by blast
    qed (use h in \<open>auto simp: handleCreate_def Let_def split: if_splits\<close>)
    then show ?thesis
    proof (elim disjE exE conjE)
      fix name q assume 2: "map_of (sh_queues sh) name = None" "sh' = sh_put name q sh"
      show ?thesis
      proof (rule none_lost_queues [OF n])
        show "sh_subs sh' = sh_subs sh" using 2(2) by simp
        fix i r assume i: "i < length (sh_subs sh)" and r: "map_of (sh_queues sh') (sb_queue (sh_subs sh ! i)) = Some r"
        obtain q0 where "map_of (sh_queues sh) (sb_queue (sh_subs sh ! i)) = Some q0" using live [OF i] by blast
        moreover have "sb_queue (sh_subs sh ! i) \<noteq> name" using calculation 2(1) by auto
        ultimately show "\<exists>q. map_of (sh_queues sh) (sb_queue (sh_subs sh ! i)) = Some q
            \<and> (awake (sb_consumer (sh_subs sh ! i)) q \<longrightarrow> awake (sb_consumer (sh_subs sh ! i)) r)"
          using r 2(2) by (simp add: map_of_put)
      qed
    qed (use n in simp)
  next
    case 2
    then have h: "handlePub io args sh = Some (out, sh')" using eq' by auto
    show ?thesis
    proof (cases "length args < 2 \<or> sh_queue (args ! 0) sh = None")
      case True
      then have "sh' = sh" using h by (auto simp: handlePub_def Let_def split: if_splits option.splits)
      then show ?thesis using n by simp
    next
      case False
      then obtain name ws q where args: "args = name # ws" "ws \<noteq> []" and q: "sh_queue name sh = Some q"
        by (cases args) auto
      obtain q0 where q0: "map_of (sh_queues sh) name = Some q0" "q = q0\<lparr>q_dataIDSequence := sh_sequence sh\<rparr>"
        using q by (auto simp: sh_queue_def)
      have O: "q_inv q" "\<not> q_closed q" using inv q0 by (auto simp: sh_inv_def sh_queue_ok_def)
      have ok: "payload_ok (PString (strings_Join ws '' ''))" using msg args by (simp add: MaxInt64_def)
      obtain err q' where T: "q_TryEnqueue (PString (strings_Join ws '' '')) (io_now io) q = Some (err, q')"
        and sh': "sh' = sh_put name q' sh"
        using h args q by (auto simp: handlePub_def Let_def split: if_splits)
      have A: "awake p q'" if "awake p q0" "q_live p q0" for p
      proof (rule q_TryEnqueue_open [OF O ok, of "io_now io"], goal_cases)
        case (1 d err' q'')
        have "same_queue q q' \<or> stored [d] q q'"
          using 1 T by (cases "q_at_limit q"; cases "q_room (qd_size d) q") auto
        moreover have "q_left p q = q_left p q0" "q_enqueueNotify q = q_enqueueNotify q0" "q_live p q" using q0 that by simp_all
        ultimately show ?case
          using awake_read [of q' q p] same_queueD(2,9) [of q q'] awake_stored [of d q q' p] that by (auto simp: awake_def)
      qed
      show ?thesis
      proof (rule none_lost_queues [OF n])
        show "sh_subs sh' = sh_subs sh" using sh' by simp
        fix i r assume i: "i < length (sh_subs sh)" and r: "map_of (sh_queues sh') (sb_queue (sh_subs sh ! i)) = Some r"
        obtain q1 where q1: "map_of (sh_queues sh) (sb_queue (sh_subs sh ! i)) = Some q1" "q_live (sb_consumer (sh_subs sh ! i)) q1"
          using live [OF i] by blast
        show "\<exists>q. map_of (sh_queues sh) (sb_queue (sh_subs sh ! i)) = Some q
            \<and> (awake (sb_consumer (sh_subs sh ! i)) q \<longrightarrow> awake (sb_consumer (sh_subs sh ! i)) r)"
        proof (cases "sb_queue (sh_subs sh ! i) = name")
          case True
          then have "q1 = q0" "r = q'" using q1(1) q0(1) r sh' by (simp_all add: map_of_put)
          then show ?thesis using q1 A by blast
        next
          case False
          then have "r = q1" using q1(1) r sh' by (simp add: map_of_put)
          then show ?thesis using q1 by simp
        qed
      qed
    qed
  next
    case 3
    then have h: "handleSub io args sh = (out, sh')" using eq' by (auto split: prod.splits)
    show ?thesis
    proof (cases "args = [] \<or> sh_queue (args ! 0) sh = None")
      case True
      then have "sh' = sh" using h by (cases args) (auto simp: handleSub_def)
      then show ?thesis using n by simp
    next
      case False
      then obtain name ws q where args: "args = name # ws" and q: "sh_queue name sh = Some q" by (cases args) auto
      obtain p q' where A: "q_AddConsumer (io_uuid io) (io_now io) q = (p, q')" by fastforce
      define sb where "sb = \<lparr>sb_id = io_uuid io, sb_queue = name, sb_consumer = p, sb_state = Trying\<rparr>"
      have sh': "sh_subs sh' = sh_subs sh @ [sb]" "\<And>n. n \<noteq> name \<Longrightarrow> map_of (sh_queues sh') n = map_of (sh_queues sh) n"
        using h args q A by (auto simp: handleSub_def sb_def sh_put_def Let_def update_conv')
      show ?thesis
        unfolding none_lost_def
      proof (intro allI impI, elim conjE)
        fix j assume j: "j < length (sh_subs sh')" "sb_state (sh_subs sh' ! j) = Waiting" "alone j sh'"
        have old: "j < length (sh_subs sh)" using j(1,2) sh'(1) by (cases "j = length (sh_subs sh)") (auto simp: sb_def)
        have "sb_queue (sh_subs sh ! j) \<noteq> name"
          using j(3) old sh'(1) unfolding alone_def by (auto simp: sb_def nth_append dest!: spec [of _ "length (sh_subs sh)"])
        moreover have al: "alone j sh"
          using j(3) old sh'(1) unfolding alone_def by (simp add: nth_append)
        then have "sub_awake j sh" using n old j(2) sh'(1) by (simp add: none_lost_def nth_append)
        ultimately show "sub_awake j sh'"
          using sub_awake_same [of sh' sh j] sh' old by (simp add: nth_append)
      qed
    qed
  next
    case 4
    then have "sh' = sh" using eq' by (auto split: if_splits)
    then show ?thesis using n by simp
  qed
qed

lemma none_lost_step: "sh_step sh ev sh' \<Longrightarrow> sh_inv sh \<Longrightarrow> none_lost sh \<Longrightarrow> none_lost sh'"
proof (induction rule: sh_step.induct)
  case (typed io sh line out sh' stop)
  show ?case
  proof (cases "65536 \<le> length line \<or> strings_Fields line = []")
    case True
    then have "sh' = sh" using typed.hyps(2) by (auto simp: qctl_line_def split: if_splits)
    then show ?thesis using typed.prems by simp
  next
    case False
    then obtain cmd args where line: "strings_Fields line = cmd # args" "length line < 65536"
      by (cases "strings_Fields line") auto
    have c: "qctl_command io cmd args sh = Some (out, sh', stop)" using typed.hyps(2) line by (simp add: qctl_line_def)
    have "length (strings_Join (tl args) '' '') < 65536"
      using message_short [of line cmd "hd args" "tl args"] line by (cases args) simp_all
    then show ?thesis by (rule none_lost_line [OF typed.prems typed.hyps(1) c])
  qed
next
  case (reads i sh clk d sh')
  obtain q where q: "sh_queue (sb_queue (sh_subs sh ! i)) sh = Some q" by (rule sub_queue [OF reads.prems(1) reads.hyps(1)])
  obtain q' where T: "sh' = sh_set_sub i Trying (sh_put (sb_queue (sh_subs sh ! i)) q' sh)"
    by (rule sub_try_spec [OF reads.prems(1) reads.hyps(1) q, of clk]) (use reads.hyps(3) in \<open>auto split: if_splits\<close>)
  have t: "turned i Trying sh sh'" unfolding T by (rule turned_set_put)
  show ?case
    by (rule none_lost_turn [OF reads.prems(2) t reads.hyps(1)]) (simp_all add: T map_of_put)
next
  case (idles i sh clk sh')
  obtain q where q: "sh_queue (sb_queue (sh_subs sh ! i)) sh = Some q" by (rule sub_queue [OF idles.prems(1) idles.hyps(1)])
  let ?p = "sb_consumer (sh_subs sh ! i)"
  obtain q' where T: "sh' = sh_set_sub i Waiting (sh_put (sb_queue (sh_subs sh ! i)) q' sh)" "q_left ?p q' = []"
  proof (rule sub_try_spec [OF idles.prems(1) idles.hyps(1) q, of clk], goal_cases)
    case (1 q')
    then show ?case using that [of q'] idles.hyps(3) by (auto split: if_splits)
  qed
  have t: "turned i Waiting sh sh'" unfolding T(1) by (rule turned_set_put)
  show ?case
    by (rule none_lost_turn [OF idles.prems(2) t idles.hyps(1)])
      (use T(2) idles.hyps(1) in \<open>simp_all add: T(1) map_of_put sub_awake_def awake_def\<close>)
next
  case (wakes i sh)
  obtain q where q: "sh_queue (sb_queue (sh_subs sh ! i)) sh = Some q" by (rule sub_queue [OF wakes.prems(1) wakes.hyps(1)])
  note T = sub_wake_eq [OF q]
  have t: "turned i Trying sh (sub_wake i sh)" unfolding T by (rule turned_set_put)
  show ?case
    by (rule none_lost_turn [OF wakes.prems(2) t wakes.hyps(1)]) (simp_all add: T map_of_put)
next
  case (ends i sh)
  have "turned i Over sh (sh_set_sub i Over sh)" by (simp add: turned_def)
  then show ?case by (rule none_lost_turn [OF ends.prems(2) _ ends.hyps(1)]) simp_all
next
  case (ticks name sh q clk now q')
  obtain q0 where q0: "map_of (sh_queues sh) name = Some q0" "q = q0\<lparr>q_dataIDSequence := sh_sequence sh\<rparr>"
    using ticks.hyps(1) by (auto simp: sh_queue_def)
  have O: "q_inv q" "\<not> q_closed q" "q_consumerEvictionTimeout q = 0"
    using ticks.prems(1) q0 by (auto simp: sh_inv_def sh_queue_ok_def)
  show ?case
  proof (rule none_lost_queues [OF ticks.prems(2)])
    show "sh_subs (sh_put name q' sh) = sh_subs sh" by simp
    fix i r assume i: "i < length (sh_subs sh)" and r: "map_of (sh_queues (sh_put name q' sh)) (sb_queue (sh_subs sh ! i)) = Some r"
    have "sh_sub_ok sh (sh_subs sh ! i)" using ticks.prems(1) i by (simp add: sh_inv_def)
    then obtain q1 where q1: "map_of (sh_queues sh) (sb_queue (sh_subs sh ! i)) = Some q1" "q_live (sb_consumer (sh_subs sh ! i)) q1"
      by (auto simp: sh_sub_ok_def)
    show "\<exists>q. map_of (sh_queues sh) (sb_queue (sh_subs sh ! i)) = Some q
        \<and> (awake (sb_consumer (sh_subs sh ! i)) q \<longrightarrow> awake (sb_consumer (sh_subs sh ! i)) r)"
    proof (cases "sb_queue (sh_subs sh ! i) = name")
      case True
      then have e: "q1 = q0" "r = q'" using q1(1) q0(1) r by (simp_all add: map_of_put)
      have l: "q_live (sb_consumer (sh_subs sh ! i)) q" using q1 e q0 by simp
      have "awake (sb_consumer (sh_subs sh ! i)) q0 \<Longrightarrow> awake (sb_consumer (sh_subs sh ! i)) q'"
        by (rule awake_tick [OF O l ticks.hyps(2,3)]) (simp add: q0(2) awake_def)
      then show ?thesis using q1 e by blast
    next
      case False
      then have "r = q1" using q1(1) r by (simp add: map_of_put)
      then show ?thesis using q1 by simp
    qed
  qed
qed

lemma sh_reached_none_lost: "sh_reached sh \<Longrightarrow> none_lost sh"
proof -
  have "sh_run sh evs sh' \<Longrightarrow> sh_inv sh \<Longrightarrow> none_lost sh \<Longrightarrow> none_lost sh'" for sh evs sh'
    by (induction rule: sh_run.induct) (use step_follows none_lost_step in \<open>auto simp: follows_def\<close>)
  then show "sh_reached sh \<Longrightarrow> none_lost sh"
    unfolding sh_reached_def using sh_inv_start by (fastforce simp: none_lost_def sh_start_def)
qed

section \<open>The lone subscriber prints\<close>

text \<open>C27. A lone subscriber is never stuck: in every state a session can reach, a subscriber that is the only
  one of its queue and waits in \<^verbatim>\<open>Read\<close> with messages to print finds a token, so its next two steps wake
  it and print the first of them.\<close>

theorem lone_subscriber_prints:
  assumes "sh_reached sh" and "i < length (sh_subs sh)" and "alone i sh" and "sb_state (sh_subs sh ! i) = Waiting"
    and "unprinted (sh_subs sh ! i) sh = msg # msgs"
  shows "sub_token i sh \<and> (\<exists>sh'. sh_run sh [Silent, Showed (sb_id (sh_subs sh ! i)) msg] sh'
    \<and> unprinted (sh_subs sh' ! i) sh' = msgs)"
proof -
  let ?p = "sb_consumer (sh_subs sh ! i)" and ?name = "sb_queue (sh_subs sh ! i)"
  obtain q where q: "sh_queue ?name sh = Some q" "unprinted (sh_subs sh ! i) sh = map message_text (q_left ?p q)"
    by (rule sub_queue [OF sh_reached_inv [OF assms(1)] assms(2)])
  then obtain q0 where q0: "map_of (sh_queues sh) ?name = Some q0" "q = q0\<lparr>q_dataIDSequence := sh_sequence sh\<rparr>"
    by (auto simp: sh_queue_def)
  obtain d ds where left: "q_left ?p q = d # ds" "message_text d = msg" "map message_text ds = msgs"
    using q(2) assms(5) by auto
  have "sub_awake i sh" using sh_reached_none_lost [OF assms(1)] assms(2-4) by (simp add: none_lost_def)
  then have "awake ?p q0" using q0(1) by (simp add: sub_awake_def)
  then have tok: "ch_buf (q_enqueueNotify q) \<noteq> []" using q0(2) left(1) by (auto simp: awake_def)
  obtain sh1 where W: "sh_step sh Silent sh1" "sh_reached sh1" "turned i Trying sh sh1" "sh_queue ?name sh1 = Some (took_enqueue q)"
    by (rule wake_turn [OF assms(1,2,4) q(1) tok])
  have t1: "i < length (sh_subs sh1)" "sb_queue (sh_subs sh1 ! i) = ?name" "sb_consumer (sh_subs sh1 ! i) = ?p"
    "sb_state (sh_subs sh1 ! i) = Trying" "sb_id (sh_subs sh1 ! i) = sb_id (sh_subs sh ! i)"
    using W(3) assms(2) by (simp_all add: turned_def)
  obtain sh2 q2 where R: "sh_step sh1 (Showed (sb_id (sh_subs sh ! i)) msg) sh2" "sh_reached sh2" "turned i Trying sh1 sh2"
    "sh_queue ?name sh2 = Some q2" "q_left ?p q2 = ds"
    by (rule read_turn [OF W(2) t1(1,4), of "took_enqueue q"]) (use W(4) t1 left in auto)
  have t2: "i < length (sh_subs sh2)" "sb_queue (sh_subs sh2 ! i) = ?name" "sb_consumer (sh_subs sh2 ! i) = ?p"
    using R(3) t1 by (simp_all add: turned_def)
  have "unprinted (sh_subs sh2 ! i) sh2 = msgs"
    by (rule sub_queue [OF sh_reached_inv [OF R(2)] t2(1)]) (use R(4,5) t2 left(3) in simp)
  moreover have "sh_run sh [Silent, Showed (sb_id (sh_subs sh ! i)) msg] sh2"
    using W(1) R(1) by (blast intro: sh_run.intros)
  moreover have "sub_token i sh" using q(1) tok by (simp add: sub_token_def)
  ultimately show ?thesis by blast
qed

text \<open>One subscription that waits, and a message.\<close>

definition ss_one :: shell where
  "ss_one = typing ''aaaaaaaa-1'' ''sub q'' (typing ''u0'' ''create q 0'' sh_start)"

lemma ss_one_facts: "sh_reached ss_one" "length (sh_subs ss_one) = 1" "map sb_state (sh_subs ss_one) = [Trying]"
  "map sb_id (sh_subs ss_one) = [''aaaaaaaa-1'']" "map sb_queue (sh_subs ss_one) = [''q'']"
  "map_option (\<lambda>q. cl_list (q_data q)) (sh_queue ''q'' ss_one) = Some []"
proof -
  let ?c = "typing ''u0'' ''create q 0'' sh_start"
  have "sh_step sh_start (Typed ''create q 0'' (println (''Created queue '' @ quoted ''q'' @ '' with TTL 0s''))) ?c"
    by (rule typing_step; code_simp)
  moreover have "sh_step ?c (Typed ''sub q'' (println ''Started consumer aaaaaaaa. Messages will appear below...'')) ss_one"
    unfolding ss_one_def by (rule typing_step; code_simp)
  ultimately show "sh_reached ss_one" by (metis sh_reached_start sh_reached_step)
  show "length (sh_subs ss_one) = 1" "map sb_state (sh_subs ss_one) = [Trying]"
    "map sb_id (sh_subs ss_one) = [''aaaaaaaa-1'']" "map sb_queue (sh_subs ss_one) = [''q'']"
    "map_option (\<lambda>q. cl_list (q_data q)) (sh_queue ''q'' ss_one) = Some []"
    by code_simp+
qed

theorem lone_subscriber_prints_witness:
  "\<exists>sh sh'. sh_reached sh \<and> sb_state (sh_subs sh ! 0) = Waiting \<and> sh_run sh [Silent, Showed ''aaaaaaaa-1'' ''hi''] sh'
    \<and> unprinted (sh_subs sh' ! 0) sh' = []"
proof -
  note F = ss_one_facts
  obtain x where x: "sh_subs ss_one = [x]" using F(2) by (auto simp: length_Suc_conv)
  obtain q where q: "sh_queue ''q'' ss_one = Some q" "q_items q = []" using F(6) by (auto simp: q_items_def cl_items_def)
  let ?w = "trying 0 ss_one" and ?p = "typing ''u0'' ''pub q hi'' (trying 0 ss_one)"
  note T = trying_idle [OF F(1), of 0 q]
  have w: "sh_reached ?w" "turned 0 Waiting ss_one ?w" "sh_consumers ?w = sh_consumers ss_one"
    "\<exists>q'. sh_queue ''q'' ?w = Some q' \<and> q_items q' = []"
    using T F x q by auto
  have ids: "''u0'' \<notin> fst ` set (sh_consumers ss_one)" by code_simp
  have out: "map_option fst (qctl_line (typed_at ''u0'') ''pub q hi'' ?w) = Some (println ''Message enqueued.'')" by code_simp
  have s: "sh_step ?w (Typed ''pub q hi'' (println ''Message enqueued.'')) ?p"
    by (rule typing_step [OF _ out]) (use ids w(3) in simp)
  have wx: "length (sh_subs ?w) = 1" "sb_queue (sh_subs ?w ! 0) = ''q''" "sb_id (sh_subs ?w ! 0) = ''aaaaaaaa-1''"
    "sb_state (sh_subs ?w ! 0) = Waiting"
    using w(2) F x by (simp_all add: turned_def)
  obtain q' where q': "sh_queue ''q'' ?w = Some q'" "q_items q' = []" using w(4) by blast
  have e: "unprinted (sh_subs ?w ! 0) ?w = []"
    by (rule unprinted_empty [OF sh_reached_inv [OF w(1)], of 0 q']) (use wx q' in simp_all)
  have subs: "sh_subs ?p = sh_subs ?w"
  proof -
    obtain sh stop where L: "qctl_line (typed_at ''u0'') ''pub q hi'' ?w = Some (println ''Message enqueued.'', sh, stop)"
      using out by auto
    show ?thesis
      by (rule line_accepted [OF sh_reached_inv [OF w(1)] L ss_pub_accepted]) (simp add: typing_def L)
  qed
  have "unprinted (sh_subs ?p ! 0) ?p = [''hi'']"
    using sh_run_subscriber(2) [OF sh_run.go [OF s sh_run.stop] sh_reached_inv [OF w(1)], of "sh_subs ?w ! 0"] wx e ss_pub_accepted subs
    by (simp add: aged_def printed_def)
  moreover have "sh_reached ?p" by (rule sh_reached_step [OF w(1) s])
  ultimately show ?thesis
    using lone_subscriber_prints [of ?p 0 "''hi''" "[]"] wx subs by (auto simp: alone_def)
qed

end
