(* ===== verification/MQ_Reports.thy ===== *)
theory MQ_Reports
  imports MQ_Metrics MQ_Example
begin

text \<open>
  Properties of what a queue reports about itself: the warning near the memory limit, and the text
  that Prometheus reads. Both go through floating point.
\<close>

section \<open>The warning near the limit\<close>

text \<open>The warning near the memory limit is exact: although \<^verbatim>\<open>IsNearLimit\<close> divides, multiplies and compares in
  floating point, in every reachable queue it is given exactly when more than nine tenths of the limit
  are used, for every usage up to \<open>2 ^ 53\<close> bytes.\<close>

theorem near_limit_exact:
  assumes "q_reached evs q" and "mt_totalMemory (q_memoryTracker q) \<le> 2 ^ 53" and "0 < mt_maxMemory (q_memoryTracker q)"
    and "mt_maxMemory (q_memoryTracker q) \<le> 2 ^ 50"
  shows "mt_IsNearLimit (q_memoryTracker q)
    \<longleftrightarrow> 10 * mt_totalMemory (q_memoryTracker q) > 9 * mt_maxMemory (q_memoryTracker q)"
  by (rule near_limit_iff [OF q_memory_range(1) [OF q_reached_inv [OF assms(1)]] assms(2-4)])

theorem near_limit_exact_witness: "\<not> mt_IsNearLimit (q_memoryTracker ex_stored)"
  using near_limit_exact [OF ex_reached(3)] ex_room by simp

section \<open>What Prometheus reads\<close>

text \<open>The line of a whole number.\<close>

definition counter_line :: "string \<Rightarrow> string \<Rightarrow> int \<Rightarrow> string" where
  "counter_line metric name n =
     metric @ ''{queue='' @ [CHR 0x22] @ name @ [CHR 0x22] @ ''} '' @ show_int n @ ''.000000'' @ [CHR 0x0A]"

abbreviation exact_count :: "int \<Rightarrow> bool" where
  "exact_count n \<equiv> 0 \<le> n \<and> n \<le> 9007199254740992"

lemma formatted_count: "exact_count n \<Longrightarrow> formatPrometheusMetric metric name (float_of_int n) = counter_line metric name n"
  by (simp add: prometheus_counter counter_line_def)

text \<open>C38. The export is exact: for every reachable queue whose counts are at most \<open>2 ^ 53\<close>, the text has the
  number of items the queue really holds, its bytes, its consumers and the five counters, each digit by
  digit, in this order; only the percentage and the latencies are rounded.\<close>

theorem prometheus_exact:
  assumes "q_reached evs q" and "exact_count (int (length (q_items q)))" and "mt_totalMemory (q_memoryTracker q) \<le> 2 ^ 53"
    and "exact_count (int (length (cm_consumers (q_consumers q))))"
    and "exact_count (m_totalEnqueued m)" and "exact_count (m_totalDequeued m)" and "exact_count (m_totalExpired m)"
    and "exact_count (m_enqueueErrors m)" and "exact_count (m_memoryLimitHits m)"
  shows "\<exists>latencies. m_GetPrometheusMetrics m name now q =
       counter_line ''mpmc_queue_depth'' name (int (length (q_items q)))
     @ counter_line ''mpmc_queue_memory_bytes'' name (mt_totalMemory (q_memoryTracker q))
     @ formatPrometheusMetric ''mpmc_queue_memory_percent'' name (mt_GetMemoryUsagePercent (q_memoryTracker q))
     @ counter_line ''mpmc_queue_consumers'' name (int (length (cm_consumers (q_consumers q))))
     @ counter_line ''mpmc_queue_enqueued_total'' name (m_totalEnqueued m)
     @ counter_line ''mpmc_queue_dequeued_total'' name (m_totalDequeued m)
     @ counter_line ''mpmc_queue_expired_total'' name (m_totalExpired m)
     @ counter_line ''mpmc_queue_enqueue_errors_total'' name (m_enqueueErrors m)
     @ counter_line ''mpmc_queue_memory_limit_hits_total'' name (m_memoryLimitHits m)
     @ latencies"
proof -
  note inv = q_reached_inv [OF assms(1)]
  have mem: "exact_count (mt_totalMemory (q_memoryTracker q))" using q_memory_range(1) [OF inv] assms(3) by simp
  note lines = formatted_count [OF assms(2)] formatted_count [OF mem] formatted_count [OF assms(4)] formatted_count [OF assms(5)]
    formatted_count [OF assms(6)] formatted_count [OF assms(7)] formatted_count [OF assms(8)] formatted_count [OF assms(9)]
  show ?thesis
    unfolding m_GetPrometheusMetrics_def m_GetSnapshot_def Let_def q_GetQueueStats_def cm_GetConsumerCount_def
      metrics_snapshot.simps queue_stats.simps q_total_items [OF inv] lines
    by (rule exI, rule refl)
qed

theorem prometheus_exact_witness:
  "\<exists>latencies. m_GetPrometheusMetrics NewMetrics ''q'' 0 ex_stored =
       counter_line ''mpmc_queue_depth'' ''q'' 1
     @ counter_line ''mpmc_queue_memory_bytes'' ''q'' 112420
     @ formatPrometheusMetric ''mpmc_queue_memory_percent'' ''q'' (mt_GetMemoryUsagePercent (q_memoryTracker ex_stored))
     @ counter_line ''mpmc_queue_consumers'' ''q'' 1 @ counter_line ''mpmc_queue_enqueued_total'' ''q'' 0 @ latencies"
proof -
  have c: "length (cm_consumers (q_consumers ex_stored)) = 1" by code_simp
  have "cl_totalItems (q_data ex_stored) = 1" by code_simp
  then have n: "length (q_items ex_stored) = 1" using q_total_items [OF ex_stored_inv(1)] by simp
  have m: "m_totalEnqueued NewMetrics = 0" "m_totalDequeued NewMetrics = 0" "m_totalExpired NewMetrics = 0"
    "m_enqueueErrors NewMetrics = 0" "m_memoryLimitHits NewMetrics = 0"
    by (simp_all add: NewMetrics_def)
  show ?thesis
    using prometheus_exact [OF ex_reached(3), of NewMetrics "''q''" 0] ex_room(2) c n m by auto
qed

section \<open>Short latencies\<close>

text \<open>Rounding moves a number by little.\<close>

lemma round_normal_near:
  assumes "0 < x"
  shows "x / 2 \<le> round_normal x" "round_normal x \<le> x + x / 10000"
proof -
  have e: "x * (1 + 1 / 9007199254740992) = x + x / 9007199254740992" "x * (1 - 1 / 9007199254740992) = x - x / 9007199254740992"
    by (simp_all add: algebra_simps)
  show "x / 2 \<le> round_normal x" "round_normal x \<le> x + x / 10000"
    using round_normal_error [OF assms] assms unfolding e by linarith+
qed

text \<open>A latency below half a microsecond is exported as zero: the seconds are printed with six decimals.\<close>

theorem short_latency_vanishes:
  assumes "0 < d" and "d < 500"
  shows "formatPrometheusMetric metric name (duration_Seconds d) = counter_line metric name 0"
proof -
  let ?x = "of_int d / 1000000000 :: rat"
  have x: "1 / 1000000000 \<le> ?x" "?x \<le> 499 / 1000000000" using assms by (simp_all add: divide_le_cancel)
  let ?y = "round_normal ?x"
  have "0 < ?x" using assms by simp
  note y = round_normal_near [OF this]
  have y1: "1 / 2000000000 \<le> ?y" using y(1) x(1) by linarith
  have y2: "?y \<le> 4991 / 10000000000" using y(2) x(2) by linarith
  let ?z = "round_normal ?y"
  have "0 < ?y" using y1 by simp
  note z = round_normal_near [OF this]
  have z1: "1 / 4000000000 \<le> ?z" using z(1) y1 by linarith
  have z2: "?z \<le> 4992 / 10000000000" using z(2) y2 by linarith
  have tiny: "(1 / 2 ^ 1022 :: rat) \<le> 1 / 2000000000" by simp
  have huge: "(1 :: rat) < 2 ^ 1024" by simp
  have fx: "float_of ?x = Fin ?y" by (rule float_of_pos) (use tiny x y2 huge in linarith)+
  have fy: "float_of ?y = Fin ?z" by (rule float_of_pos) (use tiny y1 z2 huge in linarith)+
  have "float_of_int d = Fin (of_int d)" "float_of_int 0 = Fin 0" using assms float_of_int_exact [of d] float_of_int_exact [of 0] by simp_all
  then have s: "duration_Seconds d = Fin ?z" using assms fx fy by (simp add: duration_Seconds_def)
  have "\<lfloor>?z * 10 ^ 6\<rfloor> = 0" using z1 z2 by (simp add: floor_eq_iff)
  then have "round_even (?z * 10 ^ 6) = 0" using z1 z2 by (simp add: round_even_def)
  moreover have "show_nat 0 = ''0''" "pad_zeros 6 ''0'' = ''000000''" by code_simp+
  ultimately have "fmt_f 6 (Fin ?z) = ''0.000000''" using z1 by (simp add: fmt_f_def show_fixed_def)
  then show ?thesis unfolding s formatPrometheusMetric_def counter_line_def show_int_def by (simp add: \<open>show_nat 0 = ''0''\<close>)
qed

theorem short_latency_vanishes_witness:
  "formatPrometheusMetric ''mpmc_queue_enqueue_latency_avg_seconds'' ''q'' (duration_Seconds 450)
     = counter_line ''mpmc_queue_enqueue_latency_avg_seconds'' ''q'' 0"
  by (rule short_latency_vanishes) simp_all

end
