(* ===== verification/MQ_MapPayload.thy ===== *)
theory MQ_MapPayload
  imports MQ_Example
begin

text \<open>
  A payload with a map in it, at any depth the walk reaches, as a field, an element of an array or a
  slice, or behind pointers, is estimated at \<open>2 ^ 40\<close> bytes or more, whatever else it holds, so no queue with a limit
  below that ever takes it. \<open>M\<close> are the addresses of the maps and of the pointers that lead to one; no
  other pointer or slice of the payload has one of them.
\<close>

section \<open>Maps within a value\<close>

fun map_within :: "addr set \<Rightarrow> nat \<Rightarrow> gval \<Rightarrow> bool" where
  "map_within M k (VMap t p) = (case p of None \<Rightarrow> True | Some a \<Rightarrow> a \<in> M)"
| "map_within M (Suc k) (VStruct t vs) = (\<exists>v \<in> set vs. map_within M k v)"
| "map_within M (Suc k) (VArray t vs) = (\<exists>v \<in> set vs. map_within M k v)"
| "map_within M (Suc k) (VInterface t (Some w)) = map_within M k w"
| "map_within M k v = False"

fun apart :: "addr set \<Rightarrow> gval \<Rightarrow> bool" where
  "apart M (VPointer t p) = (case p of None \<Rightarrow> True | Some a \<Rightarrow> a \<notin> M)"
| "apart M (VSlice t p n) = (case p of None \<Rightarrow> True | Some a \<Rightarrow> a \<notin> M)"
| "apart M (VStruct t vs) = (\<forall>v \<in> set vs. apart M v)"
| "apart M (VArray t vs) = (\<forall>v \<in> set vs. apart M v)"
| "apart M (VInterface t (Some w)) = apart M w"
| "apart M v = True"

text \<open>What lies at the addresses of \<open>M\<close> themselves may refer to them.\<close>

definition heap_apart :: "addr set \<Rightarrow> gheap \<Rightarrow> bool" where
  "heap_apart M h \<longleftrightarrow> (\<forall>(a, vs) \<in> set h. a \<notin> M \<longrightarrow> (\<forall>v \<in> set vs. apart M v))"

lemma heap_elems_apart: "heap_apart M h \<Longrightarrow> a \<notin> M \<Longrightarrow> v \<in> set (heap_elems h a) \<Longrightarrow> apart M v"
  by (cases "map_of h a") (auto simp: heap_apart_def heap_elems_def dest!: map_of_SomeD)

lemma heap_deref_apart: "heap_apart M h \<Longrightarrow> a \<notin> M \<Longrightarrow> apart M (heap_deref h a)"
  using heap_elems_apart [of M h a] by (auto simp: heap_deref_def split: list.splits)

lemma map_within_not_fixed: "map_within M k v \<Longrightarrow> well_typed v \<Longrightarrow> fixed_size (rv_Type v) = None"
proof (induction M k v rule: map_within.induct)
  case (1 M k t p)
  then show ?case by (cases t) auto
next
  case (2 M k t vs)
  then obtain v where v: "v \<in> set vs" "map_within M k v" by auto
  from 2(3) obtain nm z where t: "t = TStruct nm z (map rv_Type vs)" "well_typed v" using v by (cases t) auto
  have "fixed_size (rv_Type v) = None" using 2(1) [OF v t(2)] .
  then have "those (map fixed_size (map rv_Type vs)) = None"
    using v(1) by (cases "those (map fixed_size (map rv_Type vs))") (auto simp: those_eq_Some map_eq_conv Cons_eq_map_conv list_eq_iff_nth_eq in_set_conv_nth)
  then show ?case using t by simp
next
  case (3 M k t vs)
  then obtain v where v: "v \<in> set vs" "map_within M k v" by auto
  from 3(3) obtain nm t' where t: "t = TArray nm (length vs) t'" "well_typed v" "rv_Type v = t'" using v by (cases t) auto
  then show ?case using 3(1) [OF v t(2)] v(1) by auto
next
  case (4 M k t w)
  then show ?case by (cases t) auto
qed simp_all

section \<open>The walk counts them\<close>

definition fresh_map :: "addr set \<Rightarrow> addr list option \<Rightarrow> addr list option \<Rightarrow> bool" where
  "fresh_map M vis vis' \<longleftrightarrow> (\<exists>p \<in> M. p \<in> set (visited_list vis') \<and> p \<notin> set (visited_list vis))"

definition unseen :: "addr set \<Rightarrow> nat \<Rightarrow> gval \<Rightarrow> addr list option \<Rightarrow> bool" where
  "unseen M d v vis \<longleftrightarrow> (\<exists>k. map_within M k v \<and> d + k \<le> 1000) \<and> M \<inter> set (visited_list vis) = {}"

definition heavy :: "addr set \<Rightarrow> nat \<Rightarrow> gval \<Rightarrow> addr list option \<Rightarrow> walk_result \<Rightarrow> bool" where
  "heavy M d v vis r \<longleftrightarrow> (case r of ((s, _), vis', _) \<Rightarrow> fresh_map M vis vis' \<or> unseen M d v vis \<longrightarrow> 2 ^ 40 \<le> s)"

definition est_heavy :: "addr set \<Rightarrow> nat \<Rightarrow> bool" where
  "est_heavy M d \<longleftrightarrow> (\<forall>mx h ca v vis c. heap_ok h \<longrightarrow> heap_apart M h \<longrightarrow> well_typed v \<longrightarrow> apart M v \<longrightarrow> cache_sound c \<longrightarrow>
     heavy M d v vis (estimateValueSize mx h ca v vis d c))"

definition elems_heavy :: "addr set \<Rightarrow> nat \<Rightarrow> bool" where
  "elems_heavy M d \<longleftrightarrow> (\<forall>mx h vs vis c s0 f0. heap_ok h \<longrightarrow> heap_apart M h \<longrightarrow> (\<forall>v \<in> set vs. well_typed v \<and> apart M v) \<longrightarrow>
     cache_sound c \<longrightarrow> 0 \<le> s0 \<longrightarrow> s0 \<le> MaxInt64 \<longrightarrow>
     (case estimateElems mx h vs vis d c (s0, f0) of ((s, _), vis', _) \<Rightarrow>
        s0 \<le> s \<and> (fresh_map M vis vis' \<or> (\<exists>v \<in> set vs. unseen M d v vis) \<longrightarrow> 2 ^ 40 \<le> s)))"

lemma fresh_map_trans: "fresh_map M vis vis'' \<Longrightarrow> fresh_map M vis vis' \<or> fresh_map M vis' vis''"
  by (auto simp: fresh_map_def)

lemma fresh_map_refl [simp]: "\<not> fresh_map M vis vis"
  by (auto simp: fresh_map_def)

lemma unseen_later: "unseen M d v vis \<Longrightarrow> \<not> fresh_map M vis vis' \<Longrightarrow> unseen M d v vis'"
  by (auto simp: unseen_def fresh_map_def)

lemma elems_heavy_from_est:
  assumes est: "est_heavy M d"
  shows "elems_heavy M d"
  unfolding elems_heavy_def
proof (intro allI impI)
  fix mx h vs vis c s0 f0
  assume "heap_ok h" "heap_apart M h" "\<forall>v \<in> set vs. well_typed v \<and> apart M v" "cache_sound c" "0 \<le> s0" "s0 \<le> MaxInt64"
  then show "case estimateElems mx h vs vis d c (s0, f0) of ((s, _), vis', _) \<Rightarrow>
        s0 \<le> s \<and> (fresh_map M vis vis' \<or> (\<exists>v \<in> set vs. unseen M d v vis) \<longrightarrow> 2 ^ 40 \<le> s)"
  proof (induction vs arbitrary: vis c s0 f0)
    case (Cons v vs)
    obtain es ef vis1 c1 where r1: "estimateValueSize mx h True v vis d c = ((es, ef), vis1, c1)"
      by (metis prod.exhaust)
    have v: "well_typed v" "apart M v" using Cons.prems by simp_all
    note D = est_okD [OF walk_correct Cons.prems(1) v(1) Cons.prems(4) r1]
    have H: "fresh_map M vis vis1 \<or> unseen M d v vis \<longrightarrow> 2 ^ 40 \<le> es"
      using est [unfolded est_heavy_def, rule_format, of h v c vis mx True] Cons.prems v r1 by (simp add: heavy_def)
    let ?s = "safeAdd s0 es"
    have s: "s0 \<le> ?s" "?s \<le> MaxInt64" "es \<le> ?s"
      using Cons.prems(5,6) D(2,3) by (auto simp: safeAdd_def)
    obtain s2 f2 vis2 c2 where r2: "estimateElems mx h vs vis1 d c1 (?s, f0 \<and> ef) = ((s2, f2), vis2, c2)"
      by (metis prod.exhaust)
    have I: "?s \<le> s2" "fresh_map M vis1 vis2 \<or> (\<exists>v \<in> set vs. unseen M d v vis1) \<longrightarrow> 2 ^ 40 \<le> s2"
      using Cons.IH [of c1 ?s vis1 "f0 \<and> ef"] Cons.prems D s r2 by auto
    have "2 ^ 40 \<le> s2" if "fresh_map M vis vis2 \<or> (\<exists>w \<in> set (v # vs). unseen M d w vis)"
    proof (cases "2 ^ 40 \<le> es")
      case True
      then show ?thesis using s(3) I(1) by simp
    next
      case False
      then have "\<not> fresh_map M vis vis1" "\<not> unseen M d v vis" using H by auto
      then show ?thesis using that I(2) fresh_map_trans [of M vis vis2 vis1] unseen_later [of M d _ vis vis1] by auto
    qed
    then show ?case using r1 r2 s I by simp
  qed simp
qed


text \<open>One call: the cached case is not that of a value with a map in it, and the set of visited addresses a
  caller sees is not larger than the one the call built.\<close>

lemma fresh_map_ret: "fresh_map M vis (if vis = None then None else vis') \<Longrightarrow> fresh_map M vis vis'"
  by (cases vis) (auto simp: fresh_map_def visited_list_def)

lemma cached_not_map:
  "cache_sound c \<Longrightarrow> c (rv_Type v) = Some s \<Longrightarrow> 0 \<le> s \<Longrightarrow> well_typed v \<Longrightarrow> \<not> map_within M k v"
  using map_within_not_fixed [of M k v] unfolding cache_sound_def by force

lemma cached_no_pointer:
  "cache_sound c \<Longrightarrow> c (rv_Type v) = Some s \<Longrightarrow> 0 \<le> s \<Longrightarrow> well_typed v \<Longrightarrow> rv_Pointer v = None"
  unfolding cache_sound_def by (cases v; cases "rv_Type v") force+

lemma heavyI: "2 ^ 40 \<le> s \<Longrightarrow> heavy M d v vis ((s, f), vis', c)"
  by (simp add: heavy_def)

lemma heavy_elems:
  assumes E: "elems_heavy M (Suc d)" and h: "heap_ok h" "heap_apart M h" and c: "cache_sound c"
    and v: "v = VStruct t vs \<or> v = VArray t vs" "well_typed v" "apart M v"
  shows "heavy M d v vis (estimateValueSize mx h ca v vis d c)"
proof -
  obtain s fx vis' c' where r: "estimateElems mx h vs vis (Suc d) c (0, True) = ((s, fx), vis', c')"
    by (metis prod.exhaust)
  have vs: "\<forall>u \<in> set vs. well_typed u \<and> apart M u" using v by (cases t) auto
  have D: "fresh_map M vis vis' \<or> (\<exists>u \<in> set vs. unseen M (Suc d) u vis) \<longrightarrow> 2 ^ 40 \<le> s"
    using E [unfolded elems_heavy_def, rule_format, of h vs c 0 vis mx True] h vs c r by (auto simp: MaxInt64_def)
  have U: "\<exists>u \<in> set vs. unseen M (Suc d) u vis" if "unseen M d v vis"
  proof -
    obtain k where k: "map_within M k v" "d + k \<le> 1000" "M \<inter> set (visited_list vis) = {}" using \<open>unseen M d v vis\<close> by (auto simp: unseen_def)
    then obtain k' u where "k = Suc k'" "u \<in> set vs" "map_within M k' u" using v(1) by (cases k) auto
    then show ?thesis using k by (auto simp: unseen_def)
  qed
  have C: "\<not> unseen M d v vis" if "c (rv_Type v) = Some z" "0 \<le> z" for z
    using cached_not_map [OF c that v(2)] by (auto simp: unseen_def)
  show ?thesis
    using v(1) r D U C
    by (elim disjE) (auto simp: estimateValueSize.simps [of mx h ca] Let_def heavy_def unseen_def dest!: fresh_map_ret split: option.splits)
qed


lemma fresh_map_cons: "a \<notin> M \<Longrightarrow> fresh_map M vis (Some (a # visited_list vis)) = False"
  "a \<notin> M \<Longrightarrow> fresh_map M vis vis' = fresh_map M (Some (a # visited_list vis)) vis'"
  by (auto simp: fresh_map_def visited_list_def)

lemma heavy_slice:
  assumes E: "elems_heavy M (Suc d)" and h: "heap_ok h" "heap_apart M h" and c: "cache_sound c"
    and v: "v = VSlice (TSlice nm ek es) p n" "p = None \<longrightarrow> n = 0" "apart M v"
  shows "heavy M d v vis (estimateValueSize mx h ca v vis d c)"
proof -
  let ?vs = "case p of None \<Rightarrow> [] | Some a \<Rightarrow> take n (heap_elems h a)"
  let ?vis = "case p of None \<Rightarrow> vis | Some a \<Rightarrow> Some (a # visited_list vis)"
  obtain s fx vis' c' where r: "estimateElems mx h ?vs ?vis (Suc d) c (24, True) = ((s, fx), vis', c')"
    by (metis prod.exhaust)
  have vs: "\<forall>u \<in> set ?vs. well_typed u \<and> apart M u"
    using heap_elems_ok [OF h(1)] heap_elems_apart [OF h(2)] v(1,3) by (auto split: option.splits dest: in_set_takeD)
  have D: "fresh_map M ?vis vis' \<longrightarrow> 2 ^ 40 \<le> s"
    using E [unfolded elems_heavy_def, rule_format, of h ?vs c 24 ?vis mx True] h vs c r by (auto simp: MaxInt64_def)
  have a: "\<And>a. p = Some a \<Longrightarrow> a \<notin> M" using v by simp
  have D: "fresh_map M vis vis' \<longrightarrow> 2 ^ 40 \<le> s" and F: "\<not> fresh_map M vis ?vis"
    using D a fresh_map_cons [of _ M vis] by (cases p; simp)+
  have U: "\<not> unseen M d v vis" using v by (simp add: unseen_def)
  have C: "p = None" if "c (rv_Type v) = Some z" "0 \<le> z" for z
    using cached_no_pointer [OF c that] v by simp
  show ?thesis
    using v r D F U C
    by (cases "n = 0"; cases p)
      (auto simp: estimateValueSize.simps [of mx h ca] Let_def heavy_def dest!: fresh_map_ret split: option.splits)
qed

lemma heavy_pointer:
  assumes V: "est_heavy M (Suc d)" and h: "heap_ok h" "heap_apart M h" and c: "cache_sound c"
    and v: "v = VPointer (TPointer nm) p" "apart M v"
  shows "heavy M d v vis (estimateValueSize mx h ca v vis d c)"
proof (cases p)
  case None
  then show ?thesis
    using v by (auto simp: estimateValueSize.simps [of mx h ca] Let_def heavy_def unseen_def dest!: fresh_map_ret split: option.splits)
next
  case (Some a)
  let ?vis = "Some (a # visited_list vis)"
  obtain s fx vis' c' where r: "estimateValueSize mx h True (heap_deref h a) ?vis (Suc d) c = ((s, fx), vis', c')"
    by (metis prod.exhaust)
  have a: "a \<notin> M" using v Some by simp
  have "fresh_map M ?vis vis' \<longrightarrow> 2 ^ 40 \<le> s"
    using V [unfolded est_heavy_def, rule_format, of h "heap_deref h a" c ?vis mx True] h c r
      heap_deref_ok [OF h(1)] heap_deref_apart [OF h(2) a] by (auto simp: heavy_def)
  then have D: "fresh_map M vis vis' \<longrightarrow> 2 ^ 40 \<le> s" and F: "\<not> fresh_map M vis ?vis"
    using fresh_map_cons [OF a, of vis] by simp_all
  have s: "s \<le> safeAdd 8 s" using est_okD [OF walk_correct h(1) heap_deref_ok [OF h(1)] c r] by (auto simp: safeAdd_def)
  have C: "\<not> 0 \<le> z" if "c (TPointer nm) = Some z" for z
    using cached_no_pointer [OF c, of v z] that v Some by auto
  show ?thesis
    using v Some r D F C s
    by (auto simp: estimateValueSize.simps [of mx h ca] Let_def heavy_def unseen_def dest!: fresh_map_ret split: option.splits)
qed

lemma heavy_interface:
  assumes V: "est_heavy M (Suc d)" and h: "heap_ok h" "heap_apart M h" and c: "cache_sound c"
    and v: "v = VInterface (TInterface nm) w" "apart M v" "\<And>u. w = Some u \<Longrightarrow> well_typed u"
  shows "heavy M d v vis (estimateValueSize mx h ca v vis d c)"
proof (cases w)
  case None
  then show ?thesis
    using v by (auto simp: estimateValueSize.simps [of mx h ca] Let_def heavy_def unseen_def dest!: fresh_map_ret split: option.splits)
next
  case (Some u)
  obtain s fx vis' c' where r: "estimateValueSize mx h False u vis (Suc d) c = ((s, fx), vis', c')"
    by (metis prod.exhaust)
  have D: "fresh_map M vis vis' \<or> unseen M (Suc d) u vis \<longrightarrow> 2 ^ 40 \<le> s"
    using V [unfolded est_heavy_def, rule_format, of h u c vis mx False] h c r v Some by (auto simp: heavy_def)
  have U: "unseen M (Suc d) u vis" if now: "unseen M d v vis"
  proof -
    obtain k where k: "map_within M k v" "d + k \<le> 1000" "M \<inter> set (visited_list vis) = {}"
      using now by (auto simp: unseen_def)
    then show ?thesis using v(1) Some by (cases k) (auto simp: unseen_def)
  qed
  have s: "s \<le> safeAdd 16 s" using est_okD [OF walk_correct h(1) v(3) [OF Some] c r] by (auto simp: safeAdd_def)
  have C: "\<not> 0 \<le> z" if "c (TInterface nm) = Some z" for z
    using c that unfolding cache_sound_def by fastforce
  have N: "d \<le> 1000" if "unseen M d v vis" using that by (auto simp: unseen_def)
  show ?thesis
    using v Some r D U C s N
    by (auto simp: estimateValueSize.simps [of mx h ca] Let_def heavy_def dest!: fresh_map_ret split: option.splits)
qed

lemma heavy_map:
  assumes c: "cache_sound c" and v: "v = VMap (TMap nm) p"
  shows "heavy M d v vis (estimateValueSize mx h ca v vis d c)"
proof -
  have C: "\<not> 0 \<le> z" if "c (TMap nm) = Some z" for z using cache_sound_map [OF c that] by simp
  show ?thesis
    using v C by (cases p) (auto simp: estimateValueSize.simps [of mx h ca] Let_def heavy_def unseen_def visited_list_def split: option.splits)
qed

lemma heavy_leaf:
  assumes c: "cache_sound c" and v: "(\<exists>t. v = VScalar t) \<or> (\<exists>t. v = VOther t) \<or> (\<exists>t n. v = VString t n) \<or> v = VInvalid"
  shows "heavy M d v vis (estimateValueSize mx h ca v vis d c)"
  using v by (elim disjE exE) (auto simp: estimateValueSize.simps [of mx h ca] Let_def heavy_def unseen_def dest!: fresh_map_ret split: option.splits)

lemma est_heavy_from_elems:
  assumes E: "elems_heavy M (Suc d)" and V: "est_heavy M (Suc d)"
  shows "est_heavy M d"
  unfolding est_heavy_def
proof (intro allI impI)
  fix mx h ca v vis c
  assume h: "heap_ok h" "heap_apart M h" and v: "well_typed v" "apart M v" and c: "cache_sound c"
  show "heavy M d v vis (estimateValueSize mx h ca v vis d c)"
  proof (cases v)
    case (VSlice t p n)
    with v obtain nm ek es where "t = TSlice nm ek es" "p = None \<longrightarrow> n = 0" by (cases t) auto
    with VSlice v show ?thesis by (intro heavy_slice [OF E h c]) simp_all
  next
    case (VPointer t p)
    with v obtain nm where "t = TPointer nm" by (cases t) auto
    with VPointer v show ?thesis by (intro heavy_pointer [OF V h c]) simp_all
  next
    case (VInterface t w)
    with v obtain nm where "t = TInterface nm" by (cases t; cases w) auto
    with VInterface v show ?thesis by (intro heavy_interface [OF V h c]) auto
  next
    case (VMap t p)
    with v obtain nm where "t = TMap nm" by (cases t) auto
    with VMap show ?thesis by (intro heavy_map [OF c]) simp
  qed (use heavy_elems [OF E h c _ v] heavy_leaf [OF c] in auto)
qed

lemma walk_heavy: "est_heavy M d"
proof (induction "1002 - d" arbitrary: d rule: less_induct)
  case less
  show ?case
  proof (cases "d > 1000")
    case True
    then show ?thesis
      unfolding est_heavy_def by (intro allI impI, subst estimateValueSize.simps) (simp add: heavy_def unseen_def)
  next
    case False
    then have "est_heavy M (Suc d)" by (intro less) simp
    then show ?thesis by (metis est_heavy_from_elems elems_heavy_from_est)
  qed
qed

section \<open>Maps behind pointers and in slices\<close>

text \<open>
  A path to a map through pointers, fields, elements of arrays and slices, and interfaces: \<open>as\<close> are the
  addresses on it, in order. Nothing else the walk meets before has one of them.
\<close>

inductive leads :: "addr set \<Rightarrow> gheap \<Rightarrow> addr list \<Rightarrow> nat \<Rightarrow> gval \<Rightarrow> bool" for M h where
  leads_map: "m \<in> M \<Longrightarrow> leads M h [m] 0 (VMap t (Some m))"
| leads_field: "leads M h as k w \<Longrightarrow> \<forall>u \<in> set us. apart M u \<Longrightarrow> leads M h as (Suc k) (VStruct t (us @ w # us'))"
| leads_pointer: "leads M h as k (heap_deref h a) \<Longrightarrow> a \<in> M \<Longrightarrow> a \<notin> set as \<Longrightarrow> leads M h (a # as) (Suc k) (VPointer t (Some a))"
| leads_element: "leads M h as k w \<Longrightarrow> \<forall>u \<in> set us. apart M u \<Longrightarrow> leads M h as (Suc k) (VArray t (us @ w # us'))"
| leads_interface: "leads M h as k w \<Longrightarrow> leads M h as (Suc k) (VInterface t (Some w))"
| leads_slice: "leads M h as k w \<Longrightarrow> take n (heap_elems h a) = us @ w # us' \<Longrightarrow> \<forall>u \<in> set us. apart M u
    \<Longrightarrow> a \<in> M \<Longrightarrow> a \<notin> set as \<Longrightarrow> \<not> (KBool \<le> ek \<and> ek \<le> KFloat64)
    \<Longrightarrow> leads M h (a # as) (Suc k) (VSlice (TSlice nm ek es) (Some a) n)"

lemma leads_region: "leads M h as k v \<Longrightarrow> set as \<subseteq> M"
  by (induction rule: leads.induct) auto

lemma leads_not_fixed: "leads M h as k v \<Longrightarrow> well_typed v \<Longrightarrow> fixed_size (rv_Type v) = None \<and> v \<noteq> VInvalid"
proof (induction rule: leads.induct)
  case (leads_map m t)
  then show ?case by (cases t) auto
next
  case (leads_field as k w us t us')
  then obtain nm z where t: "t = TStruct nm z (map rv_Type (us @ w # us'))" "well_typed w" by (cases t) auto
  have "fixed_size (rv_Type w) = None" using leads_field t(2) by blast
  then have "those (map fixed_size (map rv_Type (us @ w # us'))) = None"
    by (cases "those (map fixed_size (map rv_Type (us @ w # us')))")
      (auto simp: those_eq_Some map_eq_conv Cons_eq_map_conv append_eq_map_conv)
  then show ?case using t(1) by simp
next
  case (leads_pointer as k a t)
  then show ?case by (cases t) auto
next
  case (leads_element as k w us t us')
  then obtain nm t' where "t = TArray nm (length (us @ w # us')) t'" "well_typed w" "rv_Type w = t'" by (cases t) auto
  then show ?case using leads_element by simp
next
  case (leads_interface as k w t)
  then show ?case by (cases t) auto
qed simp_all

lemma apart_none [simp]: "apart {} v"
  by (induction "{} :: addr set" v rule: apart.induct) (auto split: option.splits)

lemma elems_grow:
  assumes "heap_ok h" "\<forall>v \<in> set vs. well_typed v" "cache_sound c" "0 \<le> s0" "s0 \<le> MaxInt64"
    and "estimateElems mx h vs vis d c (s0, f0) = ((s, fx), vis', c')"
  shows "s0 \<le> s"
  using elems_heavy_from_est [OF walk_heavy, of "{}" d, unfolded elems_heavy_def, rule_format, of h vs c s0 vis mx f0] assms
  by (simp add: heap_apart_def split: prod.splits)

text \<open>The elements of a struct, one of which is on the path.\<close>

lemma elems_leads:
  assumes h: "heap_ok h" "heap_apart M h"
    and w: "\<And>vis c s fx vis' c'. cache_sound c \<Longrightarrow> set as \<inter> set (visited_list vis) = {} \<Longrightarrow>
        estimateValueSize mx h True w vis d c = ((s, fx), vis', c') \<Longrightarrow> 2 ^ 40 \<le> s"
    and as: "set as \<subseteq> M" and us: "\<forall>u \<in> set us. apart M u" and t: "\<forall>u \<in> set (us @ w # us'). well_typed u"
    and "cache_sound c" "0 \<le> s0" "s0 \<le> MaxInt64" "set as \<inter> set (visited_list vis) = {}"
    and "estimateElems mx h (us @ w # us') vis d c (s0, f0) = ((s, fx), vis', c')"
  shows "2 ^ 40 \<le> s"
  using us t assms(7-)
proof (induction us arbitrary: vis c s0 f0)
  case Nil
  obtain es ef vis1 c1 where r1: "estimateValueSize mx h True w vis d c = ((es, ef), vis1, c1)" by (metis prod.exhaust)
  have tw: "well_typed w" and t': "\<forall>u \<in> set us'. well_typed u" using Nil.prems(2) by simp_all
  note D = est_okD [OF walk_correct h(1) tw Nil.prems(3) r1]
  have e: "2 ^ 40 \<le> es" using w [OF Nil.prems(3,6) r1] .
  have r2: "estimateElems mx h us' vis1 d c1 (safeAdd s0 es, f0 \<and> ef) = ((s, fx), vis', c')" using Nil.prems(7) r1 by simp
  have s: "2 ^ 40 \<le> safeAdd s0 es" "safeAdd s0 es \<le> MaxInt64" using e D(2,3) Nil.prems(4,5) by (auto simp: safeAdd_def MaxInt64_def)
  show ?case using elems_grow [OF h(1) t' D(1) _ s(2) r2] s(1) by simp
next
  case (Cons u us)
  obtain es ef vis1 c1 where r1: "estimateValueSize mx h True u vis d c = ((es, ef), vis1, c1)" by (metis prod.exhaust)
  have tu: "well_typed u" "apart M u" and t': "\<forall>u \<in> set (us @ w # us'). well_typed u" using Cons.prems(1,2) by simp_all
  note D = est_okD [OF walk_correct h(1) tu(1) Cons.prems(3) r1]
  have r2: "estimateElems mx h (us @ w # us') vis1 d c1 (safeAdd s0 es, f0 \<and> ef) = ((s, fx), vis', c')" using Cons.prems(7) r1 by simp
  have s: "0 \<le> safeAdd s0 es" "safeAdd s0 es \<le> MaxInt64" using D(2,3) Cons.prems(4,5) by (auto simp: safeAdd_def)
  have H: "fresh_map M vis vis1 \<longrightarrow> 2 ^ 40 \<le> es"
    using walk_heavy [of M d, unfolded est_heavy_def, rule_format, OF h tu Cons.prems(3), of vis mx True] r1 by (simp add: heavy_def)
  show ?case
  proof (cases "2 ^ 40 \<le> es")
    case True
    then have "2 ^ 40 \<le> safeAdd s0 es" using D(2,3) Cons.prems(4) by (auto simp: safeAdd_def MaxInt64_def)
    then show ?thesis using elems_grow [OF h(1) t' D(1) s r2] by simp
  next
    case False
    then have "set as \<inter> set (visited_list vis1) = {}" using H as Cons.prems(6) by (auto simp: fresh_map_def)
    then show ?thesis using Cons.IH [OF _ t' D(1) s _ r2] Cons.prems(1) by simp
  qed
qed

lemma leads_heavy:
  assumes "leads M h as k v" and h: "heap_ok h" "heap_apart M h"
    and "well_typed v" "cache_sound c" "d + k \<le> 1000" "set as \<inter> set (visited_list vis) = {}"
    and "estimateValueSize mx h ca v vis d c = ((s, fx), vis', c')"
  shows "2 ^ 40 \<le> s"
  using assms(1,4-)
proof (induction arbitrary: ca vis d c s fx vis' c' rule: leads.induct)
  case (leads_map m t)
  note F = leads_not_fixed [OF leads.leads_map [OF leads_map(1)] leads_map(2)]
  have C: "\<not> 0 \<le> z" if "c t = Some z" for z using leads_map(3) that F unfolding cache_sound_def by force
  show ?case
    using leads_map C by (auto simp: estimateValueSize.simps [of mx h ca] Let_def split: if_splits option.splits)
next
  case (leads_field as k w us t us')
  note F = leads_not_fixed [OF leads.leads_field [OF leads_field(1,2)] leads_field.prems(1)]
  have C: "\<not> 0 \<le> z" if "c t = Some z" for z using leads_field.prems(2) that F unfolding cache_sound_def by force
  have t: "\<forall>u \<in> set (us @ w # us'). well_typed u" using leads_field.prems(1) by (cases t) auto
  obtain s1 f1 vis1 c1 where r: "estimateElems mx h (us @ w # us') vis (Suc d) c (0, True) = ((s1, f1), vis1, c1)"
    by (metis prod.exhaust)
  have "2 ^ 40 \<le> s1"
  proof (rule elems_leads [OF h _ leads_region [OF leads_field(1)] leads_field(2) t leads_field.prems(2) _ _ leads_field.prems(4) r])
    fix vis c s fx vis' c'
    assume "cache_sound c" "set as \<inter> set (visited_list vis) = {}" "estimateValueSize mx h True w vis (Suc d) c = ((s, fx), vis', c')"
    then show "2 ^ 40 \<le> s" using leads_field.IH [of c "Suc d" vis True s fx vis' c'] t leads_field.prems(3) by simp
  qed (simp_all add: MaxInt64_def)
  then show ?case
    using leads_field.prems C r by (auto simp: estimateValueSize.simps [of mx h ca] Let_def split: if_splits option.splits)
next
  case (leads_pointer as k a t)
  note F = leads_not_fixed [OF leads.leads_pointer [OF leads_pointer(1-3)] leads_pointer.prems(1)]
  have C: "\<not> 0 \<le> z" if "c t = Some z" for z using leads_pointer.prems(2) that F unfolding cache_sound_def by force
  let ?vis = "Some (a # visited_list vis)"
  obtain s1 f1 vis1 c1 where r: "estimateValueSize mx h True (heap_deref h a) ?vis (Suc d) c = ((s1, f1), vis1, c1)"
    by (metis prod.exhaust)
  note w = heap_deref_ok [OF h(1)]
  have "set as \<inter> set (visited_list ?vis) = {}" using leads_pointer(3) leads_pointer.prems(4) by (auto simp: visited_list_def)
  then have "2 ^ 40 \<le> s1" using leads_pointer.IH [OF w leads_pointer.prems(2) _ _ r] leads_pointer.prems(3) by simp
  moreover have "s1 \<le> MaxInt64" using est_okD [OF walk_correct h(1) w leads_pointer.prems(2) r] by simp
  ultimately have "2 ^ 40 \<le> safeAdd (rt_Size t) s1" if "0 \<le> rt_Size t" using that by (auto simp: safeAdd_def MaxInt64_def)
  moreover have "rt_Size t = 8" using leads_pointer.prems(1) by (cases t) auto
  ultimately show ?case
    using leads_pointer.prems C r by (auto simp: estimateValueSize.simps [of mx h ca] Let_def split: if_splits option.splits)
next
  case (leads_element as k w us t us')
  note F = leads_not_fixed [OF leads.leads_element [OF leads_element(1,2)] leads_element.prems(1)]
  have C: "\<not> 0 \<le> z" if "c t = Some z" for z using leads_element.prems(2) that F unfolding cache_sound_def by force
  have t: "\<forall>u \<in> set (us @ w # us'). well_typed u" using leads_element.prems(1) by (cases t) auto
  obtain s1 f1 vis1 c1 where r: "estimateElems mx h (us @ w # us') vis (Suc d) c (0, True) = ((s1, f1), vis1, c1)"
    by (metis prod.exhaust)
  have "2 ^ 40 \<le> s1"
  proof (rule elems_leads [OF h _ leads_region [OF leads_element(1)] leads_element(2) t leads_element.prems(2) _ _ leads_element.prems(4) r])
    fix vis c s fx vis' c'
    assume "cache_sound c" "set as \<inter> set (visited_list vis) = {}" "estimateValueSize mx h True w vis (Suc d) c = ((s, fx), vis', c')"
    then show "2 ^ 40 \<le> s" using leads_element.IH [of c "Suc d" vis True s fx vis' c'] t leads_element.prems(3) by simp
  qed (simp_all add: MaxInt64_def)
  then show ?case
    using leads_element.prems C r by (auto simp: estimateValueSize.simps [of mx h ca] Let_def split: if_splits option.splits)
next
  case (leads_interface as k w t)
  note F = leads_not_fixed [OF leads.leads_interface [OF leads_interface(1)] leads_interface.prems(1)]
  have C: "\<not> 0 \<le> z" if "c t = Some z" for z using leads_interface.prems(2) that F unfolding cache_sound_def by force
  have t: "well_typed w" "rt_Size t = 16" "rt_Kind t = KInterface" using leads_interface.prems(1) by (cases t; simp)+
  obtain s1 f1 vis1 c1 where r: "estimateValueSize mx h False w vis (Suc d) c = ((s1, f1), vis1, c1)"
    by (metis prod.exhaust)
  have "2 ^ 40 \<le> s1" using leads_interface.IH [OF t(1) leads_interface.prems(2) _ leads_interface.prems(4) r] leads_interface.prems(3) by simp
  moreover have "s1 \<le> MaxInt64" using est_okD [OF walk_correct h(1) t(1) leads_interface.prems(2) r] by simp
  ultimately have "2 ^ 40 \<le> safeAdd (rt_Size t) s1" using t(2) by (auto simp: safeAdd_def MaxInt64_def)
  then show ?case
    using leads_interface.prems C r by (auto simp: estimateValueSize.simps [of mx h ca] Let_def split: if_splits option.splits)
next
  case (leads_slice as k w n a us us' ek nm es)
  have C: "\<not> 0 \<le> z" if "c (TSlice nm ek es) = Some z" for z using leads_slice.prems(2) that unfolding cache_sound_def by force
  have t: "\<forall>u \<in> set (us @ w # us'). well_typed u"
    using heap_elems_ok [OF h(1)] unfolding leads_slice(2) [symmetric] by (auto dest: in_set_takeD)
  have n: "n \<noteq> 0" using leads_slice(2) by (cases n) auto
  let ?vis = "Some (a # visited_list vis)"
  obtain s1 f1 vis1 c1 where r: "estimateElems mx h (us @ w # us') ?vis (Suc d) c (24, True) = ((s1, f1), vis1, c1)"
    by (metis prod.exhaust)
  have dis: "set as \<inter> set (visited_list ?vis) = {}" using leads_slice(5) leads_slice.prems(4) by (auto simp: visited_list_def)
  have "2 ^ 40 \<le> s1"
  proof (rule elems_leads [OF h _ leads_region [OF leads_slice(1)] leads_slice(3) t leads_slice.prems(2) _ _ dis r])
    fix vis c s fx vis' c'
    assume "cache_sound c" "set as \<inter> set (visited_list vis) = {}" "estimateValueSize mx h True w vis (Suc d) c = ((s, fx), vis', c')"
    then show "2 ^ 40 \<le> s" using leads_slice.IH [of c "Suc d" vis True s fx vis' c'] t leads_slice.prems(3) by simp
  qed (simp_all add: MaxInt64_def)
  then show ?case
    using leads_slice.prems C r n leads_slice(2,6)
    by (auto simp: estimateValueSize.simps [of mx h ca] Let_def split: if_splits option.splits)
qed

section \<open>The estimate\<close>

text \<open>A payload with a map at most a thousand levels deep (the limit of the walk), within the value or on a
  path through pointers and slices.\<close>

fun holds_map :: "addr set \<Rightarrow> payload \<Rightarrow> bool" where
  "holds_map M (PValue h v x) \<longleftrightarrow>
     heap_apart M h \<and> (apart M v \<and> (\<exists>k \<le> 1000. map_within M k v) \<or> (\<exists>as k. k \<le> 1000 \<and> leads M h as k v))"
| "holds_map M _ \<longleftrightarrow> False"

lemma estimate_holds_map:
  assumes "payload_ok p" "cache_sound c" "holds_map M p" "estimatePayloadSize mx p c = (s, c')"
  shows "2 ^ 40 \<le> s"
proof -
  obtain h v x where p: "p = PValue h v x" using assms(3) by (cases p) auto
  obtain s1 fx vis' c1 where r: "estimateValueSize mx h False v None 0 c = ((s1, fx), vis', c1)"
    by (metis prod.exhaust)
  have s: "s = s1" using assms(4) p r by simp
  have ok: "heap_ok h" "well_typed v" "heap_apart M h" using assms(1,3) p by simp_all
  consider k where "apart M v" "k \<le> 1000" "map_within M k v" | as k where "k \<le> 1000" "leads M h as k v" using assms(3) p by auto
  then show ?thesis
  proof cases
    case 1
    then have "heavy M 0 v None ((s1, fx), vis', c1)"
      using walk_heavy [of M 0, unfolded est_heavy_def, rule_format, of h v c None mx False] ok assms(2) r by simp
    moreover have "unseen M 0 v None" using 1 by (auto simp: unseen_def visited_list_def)
    ultimately show ?thesis using s by (simp add: heavy_def)
  next
    case 2
    show ?thesis using leads_heavy [OF 2(2) ok(1,3,2) assms(2) _ _ r] 2(1) s by (simp add: visited_list_def)
  qed
qed

section \<open>The queue refuses it\<close>

lemma estimate_data_holds_map:
  assumes "payload_ok (qd_Payload d)" "holds_map M (qd_Payload d)" "cache_sound (mt_sizeCache mt)"
    and "mt_EstimateQueueDataSize (Some d) mt = (s, mt')"
  shows "2 ^ 40 \<le> s"
proof -
  obtain ps c where ps: "estimatePayloadSize (mt_maxMemory mt) (qd_Payload d) (mt_sizeCache mt) = (ps, c)" by fastforce
  have "2 ^ 40 \<le> ps" "ps \<le> MaxInt64"
    using estimate_holds_map [OF assms(1,3,2) ps] estimatePayloadSize_sound [OF assms(1,3) ps] by simp_all
  then have "2 ^ 40 \<le> safeAdd BaseQueueDataSize ps" "safeAdd BaseQueueDataSize ps \<le> MaxInt64"
    using safeAdd_le [of BaseQueueDataSize ps] by (auto simp: safeAdd_def BaseQueueDataSize_def MaxInt64_def)
  then show ?thesis
    using assms(4) ps safeAdd_ge safeAdd_le by (auto simp: mt_EstimateQueueDataSize_def Let_def) (meson order_trans)
qed

lemma new_data_holds_map:
  assumes inv: "q_inv q" and p: "payload_ok payload" "holds_map M payload" and n: "q_new_data payload now q = (d, q')"
  shows "2 ^ 40 \<le> qd_size d"
proof -
  obtain d0 sq where d0: "NewQueueData payload (q_name q) now (q_dataIDSequence q) = (d0, sq)" by fastforce
  obtain s mt where s: "mt_EstimateQueueDataSize (Some d0) (q_memoryTracker q) = (s, mt)" by fastforce
  have "qd_Payload d0 = payload" using d0 by (auto simp: NewQueueData_def Let_def)
  then have "2 ^ 40 \<le> s" using estimate_data_holds_map [OF _ _ _ s, of M] p q_invD(4) [OF inv] by (simp add: mt_ok_def)
  then show ?thesis using n d0 s by (auto simp: q_new_data_def qd_SetSize_def)
qed

text \<open>The error of \<^verbatim>\<open>TryEnqueue\<close> for an item of \<open>2 ^ 40\<close> bytes or more: the memory error with its size, unless the
  queue is closed or at its item limit.\<close>

definition size_refusal :: "queue \<Rightarrow> go_error \<Rightarrow> bool" where
  "size_refusal q e \<longleftrightarrow>
     (if q_closed q then e = QueueClosedError ''enqueue''
      else if q_at_limit q then e = QueueFullError (q_maxItems q)
      else \<exists>needed. 2 ^ 40 \<le> needed
        \<and> e = MemoryLimitError (mt_totalMemory (q_memoryTracker q)) (mt_maxMemory (q_memoryTracker q)) needed)"

lemma map_refused:
  assumes "q_inv q" and "\<not> q_closed q" and "payload_ok payload" and "holds_map M payload"
    and "mt_maxMemory (q_memoryTracker q) < 2 ^ 40"
  shows "\<exists>e q'. q_TryEnqueue payload now q = Some (Some e, q') \<and> same_queue q q' \<and> size_refusal q e"
    and "\<exists>needed q'. q_Enqueue payload now env q
           = Some (Returned (Some (MemoryLimitError (mt_totalMemory (q_memoryTracker q)) (mt_maxMemory (q_memoryTracker q)) needed)), q')
        \<and> 2 ^ 40 \<le> needed \<and> same_queue q q'"
proof -
  obtain d q1 where n: "q_new_data payload now q = (d, q1)" "new_item payload q now d" "same_queue q q1"
    by (rule q_new_data_spec [OF assms(1,3)])
  note S = same_queueD [OF n(3)] and inv1 = same_queue_inv [OF n(3) assms(1)] and big = new_data_holds_map [OF assms(1,3,4) n(1)]
  have lim: "q_maxItems q1 > 0 \<and> cl_totalItems (q_data q1) \<ge> q_maxItems q1 \<longleftrightarrow> q_at_limit q"
    using S q_total_items [OF assms(1)] by (simp add: q_at_limit_def)
  have sz: "0 \<le> qd_size d" "qd_size d \<le> MaxInt64" "payload_ok (qd_Payload d)"
    using n(2) assms(3) item_overhead_pos by (simp_all add: new_item_def)
  have ok1: "data_ok (q_data q1)" using inv1 by (simp add: q_inv_def)
  have over: "mt_maxMemory (q_memoryTracker q1) < mt_totalMemory (q_memoryTracker q1) + qd_size d"
    using big assms(5) q_memory_range(1) [OF assms(1)] S by simp
  obtain needed cl' where c: "cl_Enqueue d (q_data q1) = (Some (MemoryLimitError
        (mt_totalMemory (q_memoryTracker q1)) (mt_maxMemory (q_memoryTracker q1)) needed), cl')"
      "data_ok cl'" "cl' = (q_data q1)\<lparr>cl_memoryTracker := cl_memoryTracker cl'\<rparr>"
      "mt_totalMemory (cl_memoryTracker cl') = mt_totalMemory (q_memoryTracker q1)"
      "mt_maxMemory (cl_memoryTracker cl') = mt_maxMemory (q_memoryTracker q1)"
    by (rule cl_Enqueue_over [OF ok1 sz over])
  have sq: "same_queue q1 (q1\<lparr>q_data := cl'\<rparr>)"
    unfolding same_queue_def
    by (intro exI [of _ "cl_memoryTracker cl'"] exI [of _ "q_dataIDSequence q1"]) (use c in \<open>simp add: data_ok_def mt_ok_def\<close>)
  have "\<exists>mt'. mt_EstimateQueueDataSize (Some d) (q_memoryTracker q1) = (needed, mt')"
    using c(1) by (auto simp: cl_Enqueue_def split: if_splits prod.splits)
  then have "2 ^ 40 \<le> needed"
    using estimate_data_holds_map [of d M] n(2) assms(3,4) q_invD(4) [OF inv1] by (auto simp: new_item_def mt_ok_def)
  then show "\<exists>e q'. q_TryEnqueue payload now q = Some (Some e, q') \<and> same_queue q q' \<and> size_refusal q e"
    using n(1,3) assms(2) S lim c(1) big same_queue_trans [OF n(3) sq]
    by (cases "q_at_limit q") (simp_all add: q_TryEnqueue_def size_refusal_def)
  show "\<exists>needed q'. q_Enqueue payload now env q
           = Some (Returned (Some (MemoryLimitError (mt_totalMemory (q_memoryTracker q)) (mt_maxMemory (q_memoryTracker q)) needed)), q')
        \<and> 2 ^ 40 \<le> needed \<and> same_queue q q'"
    using n(1,3) assms(2,5) S big by (simp add: q_Enqueue_def)
qed

text \<open>C35. A payload that holds a map, at most a thousand levels deep and reached through fields, elements of
  arrays and slices, interfaces and pointers that nothing before shares, cannot be put into an open
  queue with a limit below one tebibyte (the default is one mebibyte), however small it is and however
  empty the queue: \<^verbatim>\<open>TryEnqueue\<close> fails with the memory error for a size of at least \<open>2 ^ 40\<close> bytes, unless
  the queue is at its item limit, when it fails with the full error; \<^verbatim>\<open>Enqueue\<close> fails with the memory
  error at once, whatever happens meanwhile; the content stays as it was.\<close>

theorem map_payload_refused:
  assumes "q_inv q" and "\<not> q_closed q" and "payload_ok payload" and "holds_map M payload"
    and "mt_maxMemory (q_memoryTracker q) < 2 ^ 40"
  shows "(\<exists>e q'. q_TryEnqueue payload now q = Some (Some e, q') \<and> same_queue q q' \<and> size_refusal q e)
    \<and> (\<exists>needed q'. q_Enqueue payload now env q
           = Some (Returned (Some (MemoryLimitError (mt_totalMemory (q_memoryTracker q)) (mt_maxMemory (q_memoryTracker q)) needed)), q')
        \<and> 2 ^ 40 \<le> needed \<and> same_queue q q')"
  by (rule conjI [OF map_refused [OF assms]])

text \<open>
  A log entry as that of \<^verbatim>\<open>examples/patterns/data_pipeline.go\<close>, without its time: a level, a message,
  and a map of tags.
\<close>

definition log_entry :: payload where
  "log_entry = PValue []
     (VStruct (TStruct ''LogEntry'' 40 [TString ''string'', TString ''string'', TMap ''map[string]string''])
        [VString (TString ''string'') 4, VString (TString ''string'') 14, VMap (TMap ''map[string]string'') (Some 7)]) CNil"

text \<open>A slice of such entries, with the map in the second.\<close>

definition log_entries :: payload where
  "log_entries = PValue
     [(5, [VStruct (TStruct ''LogEntry'' 40 [TString ''string'', TMap ''map[string]string''])
             [VString (TString ''string'') 4, VMap (TMap ''map[string]string'') None],
           VStruct (TStruct ''LogEntry'' 40 [TString ''string'', TMap ''map[string]string''])
             [VString (TString ''string'') 4, VMap (TMap ''map[string]string'') (Some 7)]])]
     (VSlice (TSlice ''[]LogEntry'' KStruct 40) (Some 5) 2) CNil"

lemma log_entries_hold: "holds_map {5, 7} log_entries"
proof -
  let ?M = "{5, 7} :: addr set" and ?T = "TStruct ''LogEntry'' 40 [TString ''string'', TMap ''map[string]string'']"
  let ?e = "\<lambda>p. VStruct ?T [VString (TString ''string'') 4, VMap (TMap ''map[string]string'') p]"
  let ?h = "[(5, [?e None, ?e (Some 7)])]"
  have "leads ?M ?h [7] (Suc 0) (?e (Some 7))"
    using leads_field [OF leads_map, of 7 ?M "[VString (TString ''string'') 4]"] by simp
  then have "leads ?M ?h [5, 7] (Suc (Suc 0)) (VSlice (TSlice ''[]LogEntry'' KStruct 40) (Some 5) 2)"
    by (rule leads_slice [of _ _ _ _ _ _ _ "[?e None]" "[]"]) (simp_all add: heap_elems_def less_eq_kind_def)
  moreover have "heap_apart ?M ?h" by (simp add: heap_apart_def)
  ultimately show ?thesis unfolding log_entries_def by (auto intro!: exI [of _ "[5, 7]"] exI [of _ "Suc (Suc 0)"])
qed

theorem map_payload_refused_witness:
  "(\<exists>e q'. q_TryEnqueue log_entry 9 ex_stored = Some (Some e, q') \<and> same_queue ex_stored q' \<and> size_refusal ex_stored e)
   \<and> (\<exists>e q'. q_TryEnqueue log_entries 9 ex_stored = Some (Some e, q') \<and> same_queue ex_stored q' \<and> size_refusal ex_stored e)"
proof -
  have ok: "payload_ok log_entry" "payload_ok log_entries" by (simp_all add: log_entry_def log_entries_def heap_ok_def MaxInt64_def)
  have "map_within {7} (Suc 0) (VStruct (TStruct ''LogEntry'' 40 [TString ''string'', TString ''string'', TMap ''map[string]string''])
        [VString (TString ''string'') 4, VString (TString ''string'') 14, VMap (TMap ''map[string]string'') (Some 7)])"
    by simp
  then have "holds_map {7} log_entry" by (simp add: log_entry_def heap_apart_def) (intro disjI1 exI [of _ "Suc 0"], simp)
  have lim: "mt_maxMemory (q_memoryTracker ex_stored) < 2 ^ 40" using ex_room by simp
  show ?thesis
    using conjunct1 [OF map_payload_refused [OF ex_stored_inv(1,4) ok(1) \<open>holds_map {7} log_entry\<close> lim, of 9]]
      conjunct1 [OF map_payload_refused [OF ex_stored_inv(1,4) ok(2) log_entries_hold lim, of 9]] by blast
qed

end
