(* ===== verification/MQ_Bench.thy ===== *)
theory MQ_Bench
  imports MQ_Text "HOL-Library.AList"
begin

text \<open>
  The script \<^verbatim>\<open>scripts/compare-benchmarks.go\<close>, which fails the build when a benchmark got slower:
  reading the output of two runs, the average of each benchmark in floating point, the table, and the
  exit code. A map of Go is an association list; the order in which a loop goes over it comes from
  outside.
\<close>

section \<open>Reading the output of a run\<close>

record bench_result =
  br_Name :: string
  br_NsPerOp :: float64
  br_Count :: int

type_synonym results = "(string \<times> bench_result) list"

text \<open>The class \<^verbatim>\<open>\s\<close> of a regular expression.\<close>

definition re_space :: "char \<Rightarrow> bool" where
  "re_space c \<longleftrightarrow> c \<in> {CHR '' '', CHR 0x09, CHR 0x0A, CHR 0x0C, CHR 0x0D}"

text \<open>
  The regular expression, whose parts exclude each other's first characters, so that each takes as much
  as it can: a name, a count, and a number with an optional fraction before the unit. The result is
  its two groups, the number as its whole digits and those of the fraction.
\<close>

definition re_number :: "string \<Rightarrow> string \<times> string \<times> string" where
  "re_number s =
     (let whole = takeWhile is_digit s;
          s = dropWhile is_digit s
      in if s \<noteq> [] \<and> hd s = CHR ''.'' \<and> takeWhile is_digit (tl s) \<noteq> []
         then (whole, takeWhile is_digit (tl s), dropWhile is_digit (tl s))
         else (whole, [], s))"

definition re_match :: "string \<Rightarrow> (string \<times> string \<times> string) option" where
  "re_match line =
     (let name = takeWhile (\<lambda>c. \<not> re_space c) line;
          s = dropWhile re_space (dropWhile (\<lambda>c. \<not> re_space c) line);
          runs = takeWhile is_digit s;
          s = dropWhile is_digit s;
          (whole, fraction, u) = re_number (dropWhile re_space s)
      in if take 9 name = ''Benchmark'' \<and> length name > 9
            \<and> runs \<noteq> [] \<and> s \<noteq> [] \<and> re_space (hd s)
            \<and> whole \<noteq> [] \<and> u \<noteq> [] \<and> re_space (hd u)
            \<and> take 5 (dropWhile re_space u) = ''ns/op''
         then Some (name, whole, fraction) else None)"

text \<open>\<^verbatim>\<open>strconv.ParseFloat\<close> of digits: the nearest number; beyond the largest it is an error.\<close>

definition strconv_ParseFloat :: "string \<Rightarrow> string \<Rightarrow> float64 option" where
  "strconv_ParseFloat whole fraction =
     (case float_of (of_nat (read_nat (whole @ fraction)) / 10 ^ length fraction) of
        Fin x \<Rightarrow> Some (Fin x) | _ \<Rightarrow> None)"

text \<open>The name up to its last \<^verbatim>\<open>-\<close>, when it has one.\<close>

definition strip_suffix :: "string \<Rightarrow> string" where
  "strip_suffix name =
     (if CHR ''-'' \<in> set name then rev (tl (dropWhile (\<lambda>c. c \<noteq> CHR ''-'') (rev name))) else name)"

definition br_add :: "float64 \<Rightarrow> bench_result \<Rightarrow> bench_result" where
  "br_add nsPerOp res =
     res\<lparr>br_NsPerOp := f_div (f_add (f_mul (br_NsPerOp res) (float_of_int (br_Count res))) nsPerOp)
                        (float_of_int (br_Count res + 1)),
         br_Count := br_Count res + 1\<rparr>"

definition parse_line :: "string \<Rightarrow> results \<Rightarrow> results" where
  "parse_line line results =
     (case re_match line of
        None \<Rightarrow> results
      | Some (name, whole, fraction) \<Rightarrow>
          let name = strip_suffix name
          in case strconv_ParseFloat whole fraction of
               None \<Rightarrow> results
             | Some nsPerOp \<Rightarrow>
                 (case map_of results name of
                    Some res \<Rightarrow> AList.update name (br_add nsPerOp res) results
                  | None \<Rightarrow> AList.update name \<lparr>br_Name = name, br_NsPerOp = nsPerOp, br_Count = 1\<rparr> results))"

text \<open>
  The loop over the lines. The scanner gives up at a line of 64 KiB. A file is its lines, or the error
  of opening it; \<^verbatim>\<open>main\<close> looks at the results only when there is no error.
\<close>

fun parse_lines :: "string list \<Rightarrow> results \<Rightarrow> string + results" where
  "parse_lines [] results = Inr results"
| "parse_lines (line # lines) results =
     (if int (length line) \<ge> 65536 then Inl ''bufio.Scanner: token too long''
      else parse_lines lines (parse_line line results))"

definition parseFile :: "string + string list \<Rightarrow> string + results" where
  "parseFile file = (case file of Inl err \<Rightarrow> Inl err | Inr lines \<Rightarrow> parse_lines lines [])"

section \<open>The table and the verdict\<close>

text \<open>The verbs \<^verbatim>\<open>%-40s\<close>, \<^verbatim>\<open>%8.2f\<close> and \<^verbatim>\<open>%+.2f\<close>.\<close>

definition pad_after :: "nat \<Rightarrow> string \<Rightarrow> string" where
  "pad_after w s = s @ replicate (w - length s) CHR '' ''"

definition pad_before :: "nat \<Rightarrow> string \<Rightarrow> string" where
  "pad_before w s = replicate (w - length s) CHR '' '' @ s"

definition fmt_signed :: "nat \<Rightarrow> float64 \<Rightarrow> string" where
  "fmt_signed prec x =
     (case x of Fin a \<Rightarrow> if a < 0 then fmt_f prec x else ''+'' @ fmt_f prec x
              | NaN \<Rightarrow> ''+NaN'' | _ \<Rightarrow> fmt_f prec x)"

definition bytes :: "nat list \<Rightarrow> string" where
  "bytes bs = map char_of bs"

definition bench_delta :: "bench_result \<Rightarrow> bench_result \<Rightarrow> float64" where
  "bench_delta baseRes newRes =
     f_mul (f_div (f_sub (br_NsPerOp newRes) (br_NsPerOp baseRes)) (br_NsPerOp baseRes)) (Fin 100)"

definition bench_row :: "string \<Rightarrow> bench_result \<Rightarrow> bench_result \<Rightarrow> string" where
  "bench_row name baseRes newRes =
     (let delta = bench_delta baseRes newRes;
          deltaStr = fmt_signed 2 delta @ ''%'';
          color = (if f_less (Fin 0) delta then ''[31m'' else ''[32m'')
      in pad_after 40 name @ '' | '' @ pad_before 8 (fmt_f 2 (br_NsPerOp baseRes)) @ ''ns | '' @
         pad_before 8 (fmt_f 2 (br_NsPerOp newRes)) @ ''ns | '' @
         [CHR 0x1B] @ color @ deltaStr @ [CHR 0x1B] @ ''[0m'' @ [CHR 0x0A])"

text \<open>One round of the loop of \<^verbatim>\<open>main\<close>: what is printed, and the two counts.\<close>

definition compare_one ::
  "results \<Rightarrow> results \<Rightarrow> float64 \<Rightarrow> string \<Rightarrow> string \<times> int \<times> int \<Rightarrow> string \<times> int \<times> int" where
  "compare_one baseResults newResults threshold name acc =
     (case (map_of baseResults name, map_of newResults name) of
        (Some baseRes, Some newRes) \<Rightarrow>
          let (out, regressions, improvements) = acc;
              delta = bench_delta baseRes newRes;
              out = out @ bench_row name baseRes newRes;
              (out, regressions) =
                (if f_less threshold delta
                 then (out @ ''  '' @ bytes [226, 154, 160, 239, 184, 143] @ '' REGRESSION DETECTED: '' @ name @ '' is '' @
                        fmt_f 2 delta @ ''% slower (threshold: '' @ fmt_f 2 threshold @ ''%)'' @ [CHR 0x0A], regressions + 1)
                 else (out, regressions));
              improvements = (if f_less delta (f_neg threshold) then improvements + 1 else improvements)
          in (out, regressions, improvements)
      | _ \<Rightarrow> acc)"

text \<open>The comparison, with the order of the loop over the map of the base results: the output and the exit code.\<close>

definition bench_compare ::
  "results \<Rightarrow> results \<Rightarrow> float64 \<Rightarrow> string list \<Rightarrow> string \<times> int" where
  "bench_compare baseResults newResults threshold order =
     (let rule = replicate 80 CHR ''-'' @ [CHR 0x0A];
          head = pad_after 40 ''Benchmark'' @ '' | '' @ pad_after 10 ''Base'' @ '' | '' @ pad_after 10 ''New'' @ '' | ''
                 @ pad_after 10 ''Delta'' @ [CHR 0x0A] @ rule;
          (out, regressions, improvements) = fold (compare_one baseResults newResults threshold) order (head, 0, 0);
          out = out @ rule
      in if regressions > 0
         then (out @ bytes [226, 157, 140] @ '' FAILED: Found '' @ show_int regressions @ '' regressions exceeding '' @
                fmt_f 2 threshold @ ''% threshold'' @ [CHR 0x0A], 1)
         else (out @ bytes [226, 156, 133] @ '' SUCCESS: No significant regressions found ('' @ show_int improvements @
                '' improvements detected)'' @ [CHR 0x0A], 0))"

text \<open>\<^verbatim>\<open>main\<close> after the flags are parsed; a file flag left out is \<open>None\<close>.\<close>

definition bench_main ::
  "(string + string list) option \<Rightarrow> (string + string list) option \<Rightarrow> float64 \<Rightarrow> string list \<Rightarrow> string \<times> int" where
  "bench_main baseFile newFile threshold order =
     (case (baseFile, newFile) of
        (Some baseFile, Some newFile) \<Rightarrow>
          (case parseFile baseFile of
             Inl err \<Rightarrow> (''Error parsing base file: '' @ err @ [CHR 0x0A], 1)
           | Inr baseResults \<Rightarrow>
               (case parseFile newFile of
                  Inl err \<Rightarrow> (''Error parsing new file: '' @ err @ [CHR 0x0A], 1)
                | Inr newResults \<Rightarrow> bench_compare baseResults newResults threshold order))
      | _ \<Rightarrow> (''Usage: go run compare-benchmarks.go -base <file> -new <file> [-threshold <percent>]'' @ [CHR 0x0A], 1))"

section \<open>The line of a result\<close>

text \<open>As \<^verbatim>\<open>go test -bench\<close> prints it: the name with the number of processors, the number of runs, the time.\<close>

definition result_line :: "string \<Rightarrow> nat \<Rightarrow> string \<Rightarrow> nat \<Rightarrow> string \<Rightarrow> string \<Rightarrow> nat \<Rightarrow> string" where
  "result_line name procs blanks runs blanks' rest ns =
     name @ ''-'' @ show_nat procs @ blanks @ show_nat runs @ blanks' @ show_nat ns @ '' ns/op'' @ rest"

definition blank :: "string \<Rightarrow> bool" where
  "blank s \<longleftrightarrow> s \<noteq> [] \<and> (\<forall>c \<in> set s. re_space c)"

definition bench_name :: "string \<Rightarrow> bool" where
  "bench_name name \<longleftrightarrow> take 9 name = ''Benchmark'' \<and> (\<forall>c \<in> set name. \<not> re_space c)"

lemma digit_not_space: "is_digit c \<Longrightarrow> \<not> re_space c"
  by (auto simp: re_space_def is_digit_def)

lemma show_nat_all_digits: "c \<in> set (show_nat n) \<Longrightarrow> is_digit c"
  using show_nat_digits by (simp add: is_digit_def)

lemma show_nat_not_Nil [simp]: "show_nat n \<noteq> []"
  by (subst show_nat.simps) simp

text \<open>Taking off a run of characters that all satisfy a test, up to one that does not.\<close>

lemma span_append:
  assumes "\<forall>c \<in> set w. P c" "s = [] \<or> \<not> P (hd s)"
  shows "takeWhile P (w @ s) = w" "dropWhile P (w @ s) = s"
  using assms by (cases s; simp add: takeWhile_append2 dropWhile_append2)+

lemma hd_blank: "blank b \<Longrightarrow> re_space (hd (b @ s)) \<and> b @ s \<noteq> []"
  by (cases b) (auto simp: blank_def)

lemma hd_digits: "is_digit (hd (show_nat n @ s))"
  using show_nat_all_digits [of "hd (show_nat n)" n] by simp

lemma re_match_result:
  assumes "bench_name name" "blank b" "blank b'"
  shows "re_match (result_line name procs b runs b' rest ns) = Some (name @ ''-'' @ show_nat procs, show_nat ns, [])"
proof -
  let ?name = "name @ ''-'' @ show_nat procs" and ?u = "'' ns/op'' @ rest"
  let ?n = "show_nat ns @ ?u"
  let ?r = "show_nat runs @ b' @ ?n"
  have line: "result_line name procs b runs b' rest ns = ?name @ b @ ?r" by (simp add: result_line_def)
  have name: "\<forall>c \<in> set ?name. \<not> re_space c"
    using assms(1) digit_not_space show_nat_all_digits by (auto simp: bench_name_def re_space_def)
  note s1 = span_append [of ?name "\<lambda>c. \<not> re_space c" "b @ ?r"]
  have s1: "takeWhile (\<lambda>c. \<not> re_space c) (?name @ b @ ?r) = ?name" "dropWhile (\<lambda>c. \<not> re_space c) (?name @ b @ ?r) = b @ ?r"
    using s1 name hd_blank [OF assms(2), of ?r] by simp_all
  have s2: "dropWhile re_space (b @ ?r) = ?r"
    using span_append(2) [of b re_space ?r] assms(2) digit_not_space [OF hd_digits] by (simp add: blank_def)
  have s3: "takeWhile is_digit ?r = show_nat runs" "dropWhile is_digit ?r = b' @ ?n"
    using span_append [of "show_nat runs" is_digit "b' @ ?n"] show_nat_all_digits hd_blank [OF assms(3), of ?n] digit_not_space
    by blast+
  have s4: "dropWhile re_space (b' @ ?n) = ?n"
    using span_append(2) [of b' re_space ?n] assms(3) digit_not_space [OF hd_digits] by (simp add: blank_def)
  have s5: "takeWhile is_digit ?n = show_nat ns" "dropWhile is_digit ?n = ?u"
    using span_append [of "show_nat ns" is_digit ?u] show_nat_all_digits by (simp_all add: is_digit_def)
  have num: "re_number ?n = (show_nat ns, [], ?u)" unfolding re_number_def Let_def s5 by simp
  have "take 9 ?name = ''Benchmark''" "9 < length ?name"
  proof -
    have l: "9 \<le> length name" using assms(1) by (cases "9 \<le> length name") (auto simp: bench_name_def dest: arg_cong [of _ _ length])
    then show "take 9 ?name = ''Benchmark''" using assms(1) by (simp add: bench_name_def)
    show "9 < length ?name" using l by simp
  qed
  moreover have "take 5 (dropWhile re_space ?u) = ''ns/op''" "re_space (hd ?u)" by (simp_all add: re_space_def)
  ultimately show ?thesis
    unfolding re_match_def Let_def line s1 s2 s3 s4 num using hd_blank [OF assms(3), of ?n] by simp
qed

lemma strip_result: "strip_suffix (name @ ''-'' @ show_nat procs) = name"
proof -
  let ?d = "rev (show_nat procs)"
  have d: "\<forall>c \<in> set ?d. c \<noteq> CHR ''-''"
    using show_nat_all_digits [of "CHR ''-''" procs] by (auto simp: is_digit_def)
  have "dropWhile (\<lambda>c. c \<noteq> CHR ''-'') (?d @ CHR ''-'' # rev name) = CHR ''-'' # rev name"
    by (rule span_append(2)) (use d in auto)
  then show ?thesis by (simp add: strip_suffix_def)
qed

lemma ParseFloat_nat: "ns \<le> 9007199254740992 \<Longrightarrow> strconv_ParseFloat (show_nat ns) [] = Some (Fin (of_nat ns))"
  by (simp add: strconv_ParseFloat_def read_show_nat float_of_nat)

section \<open>The average of a benchmark\<close>

text \<open>What a line says of the benchmark \<open>name\<close>: the lines of the others do not matter.\<close>

definition bench_value :: "string \<Rightarrow> string \<Rightarrow> float64 option" where
  "bench_value name line =
     (case re_match line of
        None \<Rightarrow> None
      | Some (word, whole, fraction) \<Rightarrow> if strip_suffix word = name then strconv_ParseFloat whole fraction else None)"

definition bench_values :: "string \<Rightarrow> string list \<Rightarrow> float64 list" where
  "bench_values name lines = List.map_filter (bench_value name) lines"

lemma bench_value_result:
  assumes "bench_name name" "blank b" "blank b'" "ns \<le> 9007199254740992"
  shows "bench_value name (result_line name procs b runs b' rest ns) = Some (Fin (of_nat ns))"
  unfolding bench_value_def re_match_result [OF assms(1-3)] using strip_result [of name procs] by (simp add: ParseFloat_nat assms(4))

lemma parse_line_name:
  "map_of (parse_line line results) name =
     (case bench_value name line of
        None \<Rightarrow> map_of results name
      | Some x \<Rightarrow> (case map_of results name of
                    None \<Rightarrow> Some \<lparr>br_Name = name, br_NsPerOp = x, br_Count = 1\<rparr>
                  | Some res \<Rightarrow> Some (br_add x res)))"
  by (auto simp: parse_line_def bench_value_def update_conv' Let_def split: option.splits)

definition bench_average :: "string \<Rightarrow> float64 list \<Rightarrow> bench_result option" where
  "bench_average name xs =
     (case xs of [] \<Rightarrow> None | x # xs \<Rightarrow> Some (fold br_add xs \<lparr>br_Name = name, br_NsPerOp = x, br_Count = 1\<rparr>))"

lemma parse_lines_name:
  assumes "\<forall>line \<in> set lines. length line < 65536"
  shows "\<exists>results'. parse_lines lines results = Inr results' \<and> map_of results' name =
     (case map_of results name of
        None \<Rightarrow> bench_average name (bench_values name lines)
      | Some res \<Rightarrow> Some (fold br_add (bench_values name lines) res))"
  using assms
proof (induction lines arbitrary: results)
  case Nil
  then show ?case by (auto simp: bench_values_def bench_average_def map_filter_simps split: option.splits)
next
  case (Cons line lines)
  then obtain results' where "parse_lines lines (parse_line line results) = Inr results'"
    "map_of results' name =
     (case map_of (parse_line line results) name of
        None \<Rightarrow> bench_average name (bench_values name lines)
      | Some res \<Rightarrow> Some (fold br_add (bench_values name lines) res))"
    by auto
  moreover have "int (length line) < 65536" using Cons.prems by simp
  ultimately show ?case
    by (auto simp: parse_line_name bench_values_def bench_average_def map_filter_simps split: option.splits)
qed

lemma average_between:
  assumes "br_NsPerOp res = Fin a" "of_nat lo \<le> a" "a \<le> of_nat hi" "br_Count res = int k" "0 < k" "0 < lo"
    and "\<forall>n \<in> set ns. lo \<le> n \<and> n \<le> hi" "hi * (k + length ns) \<le> 9007199254740992"
  shows "\<exists>a'. fold br_add (map (\<lambda>n. Fin (of_nat n)) ns) res = res\<lparr>br_NsPerOp := Fin a', br_Count := int (k + length ns)\<rparr>
     \<and> of_nat lo \<le> a' \<and> a' \<le> of_nat hi"
  using assms
proof (induction ns arbitrary: res a k)
  case Nil
  then show ?case by (intro exI [of _ a]) simp
next
  case (Cons n ns)
  have size: "hi * k \<le> hi * (k + length (n # ns))" "hi * (k + 1) \<le> hi * (k + length (n # ns))" "k + 1 \<le> hi * (k + length (n # ns))"
  proof -
    show "hi * k \<le> hi * (k + length (n # ns))" "hi * (k + 1) \<le> hi * (k + length (n # ns))" by (rule mult_le_mono2; simp)+
    have "1 * (k + 1) \<le> hi * (k + length (n # ns))" by (rule mult_le_mono) (use Cons.prems in auto)
    then show "k + 1 \<le> hi * (k + length (n # ns))" by simp
  qed
  note big = Cons.prems(8)
  have big1: "hi * k \<le> 9007199254740992" "hi * (k + 1) \<le> 9007199254740992" using size(1,2) big by linarith+
  have fk: "float_of_int (int k) = Fin (of_nat k)" "float_of_int (int k + 1) = Fin (of_nat (k + 1))"
    using float_of_nat [of k] float_of_nat [of "k + 1"] size(3) big by (simp_all add: float_of_int_def add.commute)
  have k: "(0 :: rat) < of_nat k" using Cons.prems(5) by simp
  have "of_nat (lo * k) \<le> a * of_nat k" "a * of_nat k \<le> of_nat (hi * k)"
    using Cons.prems(2,3) k by (simp_all add: mult_right_mono)
  then obtain y where y: "float_of (a * of_nat k) = Fin y" "of_nat (lo * k) \<le> y" "y \<le> of_nat (hi * k)"
    using float_between [of "lo * k" "a * of_nat k" "hi * k"] big1(1) Cons.prems(5,6) by auto
  have "lo * k + lo \<le> lo * k + n" "hi * k + n \<le> hi * k + hi" using Cons.prems(7) by simp_all
  then have n: "(of_nat (lo * (k + 1)) :: rat) \<le> of_nat (lo * k) + of_nat n" "(of_nat (hi * k) :: rat) + of_nat n \<le> of_nat (hi * (k + 1))"
    unfolding of_nat_add [symmetric] of_nat_le_iff by simp_all
  have "of_nat (lo * (k + 1)) \<le> y + of_nat n" "y + of_nat n \<le> of_nat (hi * (k + 1))"
    using y(2,3) n by linarith+
  then obtain z where z: "float_of (y + of_nat n) = Fin z" "of_nat (lo * (k + 1)) \<le> z" "z \<le> of_nat (hi * (k + 1))"
    using float_between [of "lo * (k + 1)" "y + of_nat n" "hi * (k + 1)", OF _ _ _ big1(2)] Cons.prems(6) by fastforce
  have k1: "(0 :: rat) < of_nat (k + 1)" by simp
  have "of_nat lo \<le> z / of_nat (k + 1)" "z / of_nat (k + 1) \<le> of_nat hi"
    using z(2,3) unfolding le_divide_eq divide_le_eq of_nat_mult using k1 by simp_all
  moreover have "hi \<le> 9007199254740992" using size(2) big by (simp add: algebra_simps)
  ultimately obtain b where b: "float_of (z / of_nat (k + 1)) = Fin b" "of_nat lo \<le> b" "b \<le> of_nat hi"
    using float_between [of lo "z / of_nat (k + 1)" hi] Cons.prems(6) by auto
  let ?res = "br_add (Fin (of_nat n)) res"
  have r: "?res = res\<lparr>br_NsPerOp := Fin b, br_Count := int (k + 1)\<rparr>"
  proof -
    have "(of_nat (k + 1) :: rat) \<noteq> 0" using k1 by simp
    then have "f_div (Fin z) (Fin (of_nat (k + 1))) = Fin b" using b(1) by (simp only: f_div.simps if_False)
    then show ?thesis using Cons.prems(1,4) fk y(1) z(1) by (simp add: br_add_def)
  qed
  have "\<exists>a'. fold br_add (map (\<lambda>n. Fin (of_nat n)) ns) ?res = ?res\<lparr>br_NsPerOp := Fin a', br_Count := int (k + 1 + length ns)\<rparr>
     \<and> of_nat lo \<le> a' \<and> a' \<le> of_nat hi"
    by (rule Cons.IH [of ?res b "k + 1"]) (use Cons.prems r b in simp_all)
  then show ?case by (simp add: r)
qed

text \<open>The average over repeated runs is one of the benchmark: in a file with lines of any benchmarks in any
  order, the entry of a benchmark depends on its own lines only, counts them, and, although the running
  average is rounded three times for each line, lies between the fastest and the slowest run (so equal
  runs give their time exactly), for whole times whose sum stays below \<open>2 ^ 53\<close>.\<close>

theorem bench_average_of_runs:
  assumes "\<forall>line \<in> set lines. length line < 65536" and "bench_values name lines = map (\<lambda>n. Fin (of_nat n)) ns" and "ns \<noteq> []"
    and "0 < lo" and "\<forall>n \<in> set ns. lo \<le> n \<and> n \<le> hi" and "hi * length ns \<le> 2 ^ 53"
  shows "\<exists>results a. parseFile (Inr lines) = Inr results
    \<and> map_of results name = Some \<lparr>br_Name = name, br_NsPerOp = Fin a, br_Count = int (length ns)\<rparr>
    \<and> of_nat lo \<le> a \<and> a \<le> of_nat hi"
proof -
  obtain n ns' where ns: "ns = n # ns'" using assms(3) by (cases ns) auto
  let ?res = "\<lparr>br_Name = name, br_NsPerOp = Fin (of_nat n), br_Count = 1\<rparr>"
  obtain results where "parse_lines lines [] = Inr results"
    "map_of results name = Some (fold br_add (map (\<lambda>n. Fin (of_nat n)) ns') ?res)"
    using parse_lines_name [OF assms(1), of "[]" name] assms(2) ns by (auto simp: bench_average_def)
  moreover obtain a where "fold br_add (map (\<lambda>n. Fin (of_nat n)) ns') ?res = ?res\<lparr>br_NsPerOp := Fin a, br_Count := int (1 + length ns')\<rparr>"
    "of_nat lo \<le> a" "a \<le> of_nat hi"
    using average_between [of ?res "of_nat n" lo hi 1 ns'] assms(4-6) ns by auto
  ultimately show ?thesis by (auto simp: parseFile_def ns)
qed

text \<open>Two runs with the lines of another benchmark around them.\<close>

definition ex_run_lines :: "string list" where
  "ex_run_lines = [''goos: linux'', ''BenchmarkRead-8  2000  600 ns/op'', ''BenchmarkEnqueue-8  1000  1200 ns/op  48 B/op'',
     ''BenchmarkEnqueue-8  1000  1201 ns/op  48 B/op'', ''PASS'']"

theorem bench_average_of_runs_witness:
  "\<exists>results a. parseFile (Inr ex_run_lines) = Inr results
    \<and> map_of results ''BenchmarkEnqueue'' = Some \<lparr>br_Name = ''BenchmarkEnqueue'', br_NsPerOp = Fin a, br_Count = 2\<rparr>
    \<and> 1200 \<le> a \<and> a \<le> 1201"
proof -
  let ?name = "''BenchmarkEnqueue''"
  have n: "show_nat 8 = ''8''" "show_nat 1000 = ''1000''" "show_nat 1200 = ''1200''" "show_nat 1201 = ''1201''"
    by (simp_all add: show_nat.simps char_of_def bit_iff_odd)
  have "bench_name ?name" "blank ''  ''" by (simp_all add: bench_name_def blank_def re_space_def)
  note line = bench_value_result [OF this(1,2,2), where procs = 8 and runs = 1000 and rest = "''  48 B/op''"]
  have "bench_value ?name ''BenchmarkEnqueue-8  1000  1200 ns/op  48 B/op'' = Some (Fin 1200)"
    "bench_value ?name ''BenchmarkEnqueue-8  1000  1201 ns/op  48 B/op'' = Some (Fin 1201)"
    using line [of 1200] line [of 1201] by (simp_all add: result_line_def n)
  moreover have "bench_value ?name ''goos: linux'' = None" "bench_value ?name ''PASS'' = None"
    "bench_value ?name ''BenchmarkRead-8  2000  600 ns/op'' = None"
    by (simp_all add: bench_value_def re_match_def re_number_def re_space_def is_digit_def strip_suffix_def)
  ultimately have "bench_values ?name ex_run_lines = map (\<lambda>n. Fin (of_nat n)) [1200, 1201]"
    by (simp add: bench_values_def ex_run_lines_def map_filter_simps)
  from bench_average_of_runs [OF _ this, of 1200 1201] show ?thesis by (simp add: ex_run_lines_def)
qed

section \<open>The verdict\<close>

definition slower :: "results \<Rightarrow> results \<Rightarrow> float64 \<Rightarrow> string \<Rightarrow> bool" where
  "slower b n threshold name \<longleftrightarrow>
     (\<exists>r s. map_of b name = Some r \<and> map_of n name = Some s \<and> f_less threshold (bench_delta r s))"

lemma compare_regressions:
  "fst (snd (fold (compare_one b n threshold) order acc)) = fst (snd acc) + int (length (filter (slower b n threshold) order))"
proof (induction order arbitrary: acc)
  case (Cons name order)
  have "fst (snd (compare_one b n threshold name acc)) = fst (snd acc) + (if slower b n threshold name then 1 else 0)"
    by (cases acc) (auto simp: compare_one_def slower_def Let_def split: option.splits)
  then show ?case using Cons.IH [of "compare_one b n threshold name acc"] by simp
qed simp

lemma compare_exit: "snd (bench_compare b n threshold order) = (if \<exists>name \<in> set order. slower b n threshold name then 1 else 0)"
  unfolding bench_compare_def Let_def
  by (auto simp: split_beta compare_regressions length_greater_0_conv [symmetric] filter_empty_conv if_distrib
      simp del: length_greater_0_conv)

lemma bench_delta_self: "bench_delta r r = Fin 0 \<or> bench_delta r r = NaN"
proof -
  have z: "float_of 0 = Fin 0" by (simp add: float_of_def)
  show ?thesis by (cases "br_NsPerOp r") (simp_all add: bench_delta_def f_sub_def z inf_of_sign_def)
qed

text \<open>C39. The verdict: the script fails exactly when a benchmark both files have got slower by more than the
  threshold, in whatever order it goes over them; a benchmark only one file has is never counted, so
  two files without a common one pass. A file compared with itself passes, for every threshold that is
  not negative, also with times that are zero or whose average overflowed.\<close>

theorem bench_verdict:
  assumes "parseFile f = Inr b" and "parseFile g = Inr n" and "set order = fst ` set b"
  shows "snd (bench_main (Some f) (Some g) threshold order)
      = (if \<exists>name r s. map_of b name = Some r \<and> map_of n name = Some s \<and> f_less threshold (bench_delta r s) then 1 else 0)
    \<and> (fst ` set b \<inter> fst ` set n = {} \<longrightarrow> snd (bench_main (Some f) (Some g) threshold order) = 0)
    \<and> (g = f \<longrightarrow> \<not> f_less threshold (Fin 0) \<longrightarrow> snd (bench_main (Some f) (Some g) threshold order) = 0)"
proof -
  have main: "snd (bench_main (Some f) (Some g) threshold order) = (if \<exists>name \<in> set order. slower b n threshold name then 1 else 0)"
    using assms by (simp add: bench_main_def compare_exit)
  have "(\<exists>name \<in> set order. slower b n threshold name)
      \<longleftrightarrow> (\<exists>name r s. map_of b name = Some r \<and> map_of n name = Some s \<and> f_less threshold (bench_delta r s))"
    unfolding slower_def assms(3) dom_map_of_conv_image_fst [symmetric] by auto
  moreover have "\<not> (\<exists>name \<in> set order. slower b n threshold name)" if "fst ` set b \<inter> fst ` set n = {}"
    using that unfolding slower_def dom_map_of_conv_image_fst [symmetric] by auto
  moreover have "\<not> (\<exists>name \<in> set order. slower b n threshold name)" if "g = f" "\<not> f_less threshold (Fin 0)"
  proof -
    have "n = b" using assms(1,2) that(1) by simp
    moreover have "\<not> f_less threshold (bench_delta r r)" for r
      using bench_delta_self [of r] that(2) by (cases threshold) auto
    ultimately show ?thesis unfolding slower_def by auto
  qed
  ultimately show ?thesis using main by auto
qed

theorem bench_verdict_witness:
  "snd (bench_main (Some (Inr [''BenchmarkRead-8 1 1000 ns/op''])) (Some (Inr [''BenchmarkRead-8 1 2000 ns/op'']))
     (Fin 10) [''BenchmarkRead'']) = 1"
proof -
  have f: "float_of 1000 = Fin 1000" "float_of 2000 = Fin 2000" "float_of 1 = Fin 1" "float_of 100 = Fin 100"
    using float_of_nat [of 1000] float_of_nat [of 2000] float_of_nat [of 1] float_of_nat [of 100] by simp_all
  have p: "parseFile (Inr [''BenchmarkRead-8 1 1000 ns/op'']) = Inr [(''BenchmarkRead'', \<lparr>br_Name = ''BenchmarkRead'', br_NsPerOp = Fin 1000, br_Count = 1\<rparr>)]"
    "parseFile (Inr [''BenchmarkRead-8 1 2000 ns/op'']) = Inr [(''BenchmarkRead'', \<lparr>br_Name = ''BenchmarkRead'', br_NsPerOp = Fin 2000, br_Count = 1\<rparr>)]"
    by (simp_all add: parseFile_def parse_line_def re_match_def re_number_def re_space_def is_digit_def strip_suffix_def
        strconv_ParseFloat_def read_nat_def f Let_def)
  show ?thesis using bench_verdict [OF p, of "[''BenchmarkRead'']" "Fin 10"] by (simp add: bench_delta_def f_sub_def f)
qed

end
