(* ===== verification/MQ_Goroutines.thy ===== *)
theory MQ_Goroutines
  imports MQ_Example
begin

text \<open>
  The goroutines of the library: \<^verbatim>\<open>NativeChannel\<close>, which forwards what a consumer reads, the loop of
  \<^verbatim>\<open>expirationWorker\<close>, and \<^verbatim>\<open>CloseWithContext\<close>. What the rest of the program does while they wait is an
  arbitrary run of the queue; the lemmas say which run the goroutine and the rest make together.
\<close>

section \<open>The goroutines\<close>

text \<open>
  The goroutine of \<^verbatim>\<open>NativeChannel\<close>. For each round: the waits of its \<^verbatim>\<open>Read\<close>, and what the rest does
  until someone receives from the channel, which has no buffer. The result is what was sent, and
  whether the channel was closed; with the end of the list the goroutine waits for a receiver.
\<close>

fun c_NativeChannel ::
  "(nat \<Rightarrow> clock) \<Rightarrow> cptr \<Rightarrow> (world \<times> (queue \<Rightarrow> queue)) list \<Rightarrow> queue \<Rightarrow> ((queue_data list \<times> bool) \<times> queue) option" where
  "c_NativeChannel clk p [] q = Some (([], False), q)"
| "c_NativeChannel clk p ((env, others) # turns) q =
     (case c_Read clk p env q of
        None \<Rightarrow> None
      | Some (Blocked, q) \<Rightarrow> Some (([], False), q)
      | Some (Returned None, q) \<Rightarrow> Some (([], True), q)
      | Some (Returned (Some data), q) \<Rightarrow>
          map_option (\<lambda>((sent, closed), q). ((data # sent, closed), q)) (c_NativeChannel clk p turns (others q)))"

text \<open>The loop of \<^verbatim>\<open>expirationWorker\<close>: a tick with the clock and the time of its two passes, or \<^verbatim>\<open>stopChan\<close>.\<close>

fun q_expirationWorker ::
  "((clock \<times> time) option \<times> (queue \<Rightarrow> queue)) list \<Rightarrow> queue \<Rightarrow> (unit outcome \<times> queue) option" where
  "q_expirationWorker [] q = Some (Blocked, q)"
| "q_expirationWorker ((Some (clk, now), others) # env) q =
     Option.bind (q_worker_tick clk now (others q)) (q_expirationWorker env)"
| "q_expirationWorker ((None, others) # env) q = Some (Returned (), others q)"

text \<open>
  \<^verbatim>\<open>CloseWithContext\<close>: the error when the context is done before the goroutine that closes; the queue
  when that goroutine is through, which nothing stops.
\<close>

definition q_CloseWithContext :: "go_error option \<Rightarrow> queue \<Rightarrow> (go_error option \<times> queue) option" where
  "q_CloseWithContext cancelled q = map_option (\<lambda>q. (cancelled, q)) (q_Close q)"

section \<open>What the rest of the program does\<close>

text \<open>A run of the queue of events that satisfy \<open>ok\<close>, which does not read with the consumer \<open>p\<close>.\<close>

definition others_run :: "(event \<Rightarrow> bool) \<Rightarrow> cptr \<Rightarrow> (queue \<Rightarrow> queue) \<Rightarrow> bool" where
  "others_run ok p f \<longleftrightarrow> (\<forall>q. q_inv q \<and> q_known p q \<longrightarrow>
     q_known p (f q) \<and> (\<exists>evs. q_run q evs (f q) \<and> given p None evs = [] \<and> list_all ok evs))"

text \<open>A step of a goroutine that uses the consumer \<open>p\<close>: a run in which \<open>p\<close> is given \<open>ds\<close>.\<close>

definition own :: "cptr \<Rightarrow> event \<Rightarrow> bool" where
  "own p ev \<longleftrightarrow> ev = Quiet \<or> (\<exists>g ds. ev = Got p g ds)"

definition ran :: "(event \<Rightarrow> bool) \<Rightarrow> cptr \<Rightarrow> queue_data list \<Rightarrow> queue \<Rightarrow> queue \<Rightarrow> bool" where
  "ran ok p ds q q' \<longleftrightarrow> q_inv q' \<and> q_known p q'
     \<and> (\<exists>evs. q_run q evs q' \<and> given p None evs = ds \<and> list_all (\<lambda>ev. ok ev \<or> own p ev) evs)"

lemma ran_refl: "q_inv q \<Longrightarrow> q_known p q \<Longrightarrow> ran ok p [] q q"
  unfolding ran_def by (auto intro: exI [of _ "[]"])

lemma ran_trans:
  assumes "ran ok p ds q q1" "ran ok p ds' q1 q'"
  shows "ran ok p (ds @ ds') q q'"
proof -
  obtain evs evs' where "q_run q evs q1" "given p None evs = ds" "list_all (\<lambda>ev. ok ev \<or> own p ev) evs"
    "q_run q1 evs' q'" "given p None evs' = ds'" "list_all (\<lambda>ev. ok ev \<or> own p ev) evs'"
    using assms by (auto simp: ran_def)
  then show ?thesis
    using assms(2) q_run_trans [of q evs q1 evs' q'] unfolding ran_def
    by (intro conjI exI [of _ "evs @ evs'"]) (simp_all add: given_append)
qed

lemma ran_others:
  assumes "others_run ok p f" "q_inv q" "q_known p q"
  shows "ran ok p [] q (f q)"
proof -
  obtain evs where "q_known p (f q)" "q_run q evs (f q)" "given p None evs = []" "list_all ok evs"
    using assms by (auto simp: others_run_def)
  then show ?thesis
    using q_run_inv [of q evs "f q"] assms(2) unfolding ran_def
    by (intro conjI exI [of _ evs]) (simp_all add: list_all_iff)
qed

lemma ran_read:
  assumes inv: "q_inv q" and k: "q_known p q" and r: "q_TryRead clk k p q = Some (r, q')"
  shows "ran ok p (case r of None \<Rightarrow> [] | Some d \<Rightarrow> [d]) q q'"
proof -
  have s: "q_step q (got p q (case r of None \<Rightarrow> [] | Some d \<Rightarrow> [d])) q'" by (rule q_step.read [OF k r])
  have "q_known p q'"
  proof (cases "q_live p q")
    case True
    show ?thesis by (rule q_TryRead_consumed [OF inv True, where clk = clk and k = k]) (use r k in simp)
  next
    case False
    then show ?thesis using q_TryRead_dead [OF inv k False] r k by simp
  qed
  moreover have "q_inv q'" by (rule q_step_inv [OF s inv])
  moreover have "given p None [got p q (case r of None \<Rightarrow> [] | Some d \<Rightarrow> [d])] = (case r of None \<Rightarrow> [] | Some d \<Rightarrow> [d])"
    by (simp add: got_def served_def)
  moreover have "own p (got p q (case r of None \<Rightarrow> [] | Some d \<Rightarrow> [d]))" by (simp add: own_def got_def)
  ultimately show ?thesis
    unfolding ran_def using q_run.go [OF s q_run.stop]
    by (intro conjI exI [of _ "[got p q (case r of None \<Rightarrow> [] | Some d \<Rightarrow> [d])]"]) simp_all
qed

lemma ran_news: "q_inv q \<Longrightarrow> q_known p q \<Longrightarrow> ran ok p [] q (took_enqueue q)"
proof -
  assume a: "q_inv q" "q_known p q"
  have s: "q_step q Quiet (took_enqueue q)" by (rule q_step.news)
  have "q_known p (took_enqueue q)" using a(2) by (simp add: q_known_def took_enqueue_def)
  then show ?thesis
    unfolding ran_def using q_step_inv [OF s a(1)] q_run.go [OF s q_run.stop] by (intro conjI exI [of _ "[Quiet]"]) (simp_all add: own_def)
qed

lemma TryRead_returns:
  assumes "q_inv q" "q_known p q"
  shows "\<exists>r q'. q_TryRead clk k p q = Some (r, q')"
proof (cases "q_live p q")
  case True
  show ?thesis by (rule q_TryRead_consumed [OF assms(1) True, where clk = clk and k = k]) blast
qed (use q_TryRead_dead [OF assms] in blast)

text \<open>A blocking read and what happens around it are a run.\<close>

definition read_gives :: "queue_data option outcome \<Rightarrow> queue_data list" where
  "read_gives out = (case out of Returned (Some d) \<Rightarrow> [d] | _ \<Rightarrow> [])"

lemma ran_Read:
  assumes "q_inv q" "q_known p q" "\<forall>f \<in> snd ` set env. others_run ok p f"
  shows "\<exists>out q'. c_Read clk p env q = Some (out, q') \<and> ran ok p (read_gives out) q q'"
  using assms
proof (induction env arbitrary: q)
  case Nil
  obtain r q' where r: "q_TryRead (clk 0) 0 p q = Some (r, q')" using TryRead_returns [OF Nil.prems(1,2)] by blast
  then show ?case using ran_read [OF Nil.prems(1,2) r] by (subst c_Read.simps) (auto simp: read_gives_def split: option.splits)
next
  case (Cons wf env)
  obtain w f where wf: "wf = (w, f)" by (cases wf)
  have f: "others_run ok p f" using Cons.prems(3) wf by simp
  obtain r q1 where r: "q_TryRead (clk (Suc (length env))) 0 p q = Some (r, q1)" using TryRead_returns [OF Cons.prems(1,2)] by blast
  note R = ran_read [OF Cons.prems(1,2) r]
  show ?case
  proof (cases r)
    case (Some d)
    then show ?thesis using R r by (subst c_Read.simps) (auto simp: read_gives_def)
  next
    case None
    have q1: "q_inv q1" "q_known p q1" using R by (simp_all add: ran_def)
    have "ran ok p ([] @ []) q (f q1)" by (rule ran_trans [OF _ ran_others [OF f q1]]) (use R None in simp)
    then have F: "ran ok p [] q (f q1)" by simp
    show ?thesis
    proof (cases "w = Notified")
      case True
      have f1: "q_inv (f q1)" "q_known p (f q1)" using F by (simp_all add: ran_def)
      have "ran ok p ([] @ []) q (took_enqueue (f q1))" by (rule ran_trans [OF F ran_news [OF f1]])
      then have N: "ran ok p [] q (took_enqueue (f q1))" by simp
      then obtain out q' where L: "c_Read clk p env (took_enqueue (f q1)) = Some (out, q')"
        "ran ok p (read_gives out) (took_enqueue (f q1)) q'"
        using Cons.IH [of "took_enqueue (f q1)"] Cons.prems(3) by (auto simp: ran_def)
      have "c_Read clk p (wf # env) q = Some (out, q')"
        using r None wf True L(1) by (subst c_Read.simps) (simp add: took_enqueue_def)
      then show ?thesis using ran_trans [OF N L(2)] by auto
    next
      case False
      then have "c_Read clk p (wf # env) q = Some (Returned None, f q1)"
        using r None wf by (subst c_Read.simps) (cases w; simp)
      then show ?thesis using F by (simp add: read_gives_def)
    qed
  qed
qed

lemma ran_NativeChannel:
  assumes "q_inv q" "q_known p q" "\<forall>(env, f) \<in> set turns. others_run ok p f \<and> (\<forall>g \<in> snd ` set env. others_run ok p g)"
  shows "\<exists>sent closed q'. c_NativeChannel clk p turns q = Some ((sent, closed), q') \<and> ran ok p sent q q'"
  using assms
proof (induction turns arbitrary: q)
  case Nil
  then show ?case by (intro exI [of _ "[]"] exI [of _ False] exI [of _ q]) (simp add: ran_refl)
next
  case (Cons t turns)
  obtain env f where t: "t = (env, f)" by (cases t)
  have f: "others_run ok p f" "\<forall>g \<in> snd ` set env. others_run ok p g" using Cons.prems(3) t by auto
  obtain out q1 where R: "c_Read clk p env q = Some (out, q1)" "ran ok p (read_gives out) q q1"
    using ran_Read [OF Cons.prems(1,2) f(2)] by blast
  show ?case
  proof (cases "\<exists>d. out = Returned (Some d)")
    case True
    then obtain d where d: "out = Returned (Some d)" by blast
    have q1: "q_inv q1" "q_known p q1" using R(2) by (simp_all add: ran_def)
    have F: "ran ok p ([d] @ []) q (f q1)" by (rule ran_trans [OF _ ran_others [OF f(1) q1]]) (use R(2) d in \<open>simp add: read_gives_def\<close>)
    obtain sent closed q' where L: "c_NativeChannel clk p turns (f q1) = Some ((sent, closed), q')" "ran ok p sent (f q1) q'"
      using Cons.IH [of "f q1"] F Cons.prems(3) by (auto simp: ran_def)
    then show ?thesis using R(1) d t ran_trans [OF F L(2)] by auto
  next
    case False
    then show ?thesis using R t by (cases out) (auto simp: read_gives_def split: option.splits)
  qed
qed

text \<open>What such a run means for the reader, when the others neither remove it nor let items expire.\<close>

lemma own_history: "own p ev \<Longrightarrow> stays p' [ev] \<and> removed [ev] = 0"
  by (auto simp: own_def)

lemma ran_history:
  assumes "list_all (\<lambda>ev. ok ev \<or> own p ev) evs"
  shows "(\<forall>ev. ok ev \<longrightarrow> stays p [ev]) \<Longrightarrow> stays p evs" "(\<forall>ev. ok ev \<longrightarrow> removed [ev] = 0) \<Longrightarrow> removed evs = 0"
  using assms
proof (induction evs)
  case (Cons ev evs)
  {
    case 1
    have "stays p [ev]" using 1 own_history [of p ev p] by (cases "own p ev") (simp_all del: stays_Cons)
    then show ?case using Cons.IH(1) 1 by simp
  next
    case 2
    then show ?case using Cons.IH(2) own_history [of p ev p] history_Cons(2) [of ev evs] by auto
  }
qed simp_all



section \<open>The expiration worker\<close>

lemma tick_run:
  assumes inv: "q_inv q"
  shows "\<exists>q' evs. q_worker_tick (\<lambda>_. now) now q = Some q' \<and> q_run q evs q' \<and> puts evs = []"
proof -
  obtain q1 evs where C: "(if q_expirationEnabled q then map_option snd (cleanupExpiredItems (\<lambda>_. now) q) else Some q) = Some q1"
    "q_run q evs q1" "puts evs = []" "q_inv q1"
  proof (cases "q_expirationEnabled q")
    case True
    obtain n q1 where C: "cleanupExpiredItems (\<lambda>_. now) q = Some (n, q1)" "q_inv q1"
      by (rule cleanup_steady [OF inv _ True, of "\<lambda>_. now" now]) simp_all
    show ?thesis
      by (rule that [of q1 "[Expired n]"]) (use C True q_run.go [OF q_step.expire [OF C(1) looks_agree_steady] q_run.stop] in simp_all)
  qed (use inv that [of q "[]"] in simp)
  show ?thesis
  proof (cases "0 < q_consumerEvictionTimeout q1")
    case True
    obtain n q2 where E: "q_CleanInactiveConsumers (q_consumerEvictionTimeout q1) now q1 = Some (n, q2)"
      by (rule q_CleanInactive_spec [OF C(4), where now = now and timeout = "q_consumerEvictionTimeout q1"]) blast
    have "q_run q1 [gone q1 q2] q2" by (rule q_run.go [OF q_step.evict [OF E] q_run.stop])
    then have "q_run q (evs @ [gone q1 q2]) q2" by (rule q_run_trans [OF C(2)])
    moreover have "puts (evs @ [gone q1 q2]) = []" using C(3) by (simp add: puts_append gone_def)
    ultimately show ?thesis using C(1) E True by (auto simp: q_worker_tick_def)
  qed (use C in \<open>auto simp: q_worker_tick_def\<close>)
qed

text \<open>
  The worker never panics, adds nothing, and makes a run together with the others; it ends exactly when
  it finds \<^verbatim>\<open>stopChan\<close> closed.
\<close>

definition at_times :: "(time option \<times> (queue \<Rightarrow> queue)) list \<Rightarrow> ((clock \<times> time) option \<times> (queue \<Rightarrow> queue)) list" where
  "at_times env = map (\<lambda>(t, f). (map_option (\<lambda>now. (\<lambda>_. now, now)) t, f)) env"

lemma expiration_worker_runs:
  assumes "q_inv q" "\<forall>f \<in> snd ` set env. \<forall>q. q_inv q \<longrightarrow> (\<exists>evs. q_run q evs (f q))"
  shows "\<exists>out q' evs. q_expirationWorker (at_times env) q = Some (out, q') \<and> q_run q evs q'
    \<and> (out = Returned () \<longleftrightarrow> None \<in> fst ` set env)"
  using assms
proof (induction env arbitrary: q)
  case (Cons tf env)
  obtain t f where tf: "tf = (t, f)" by (cases tf)
  obtain evs where f: "q_run q evs (f q)" using Cons.prems tf by auto
  note inv1 = q_run_inv [OF f Cons.prems(1)]
  show ?case
  proof (cases t)
    case None
    then show ?thesis using f tf by (auto simp: at_times_def)
  next
    case (Some now)
    obtain q1 evs1 where T: "q_worker_tick (\<lambda>_. now) now (f q) = Some q1" "q_run (f q) evs1 q1"
      using tick_run [OF inv1] by blast
    obtain out q' evs2 where L: "q_expirationWorker (at_times env) q1 = Some (out, q')" "q_run q1 evs2 q'"
      "out = Returned () \<longleftrightarrow> None \<in> fst ` set env"
      using Cons.IH [OF q_run_inv [OF T(2) inv1]] Cons.prems(2) by auto
    have "q_run q (evs @ evs1 @ evs2) q'" using f T(2) L(2) q_run_trans by blast
    then show ?thesis using Some tf T(1) L by (auto simp: at_times_def)
  qed
qed (auto simp: at_times_def intro: exI [of _ "[]"])

text \<open>\<^verbatim>\<open>CloseWithContext\<close> never panics, and the queue ends closed even when the context wins.\<close>

lemma close_with_context_closes:
  assumes "q_inv q"
  shows "\<exists>q'. q_CloseWithContext cancelled q = Some (cancelled, q') \<and> q_inv q' \<and> q_closed q' \<and> q_items q' = []"
  by (rule q_Close_spec [OF assms]) (simp add: q_CloseWithContext_def)

end
