(* ===== verification/MQ_Sending.thy ===== *)
theory MQ_Sending
  imports MQ_Goroutines
begin

text \<open>
  Lemmas on goroutines that read one queue and put what they make of it into another: \<^verbatim>\<open>Enqueue\<close>,
  together with what the rest of the program does while it waits, is a run of the queue it puts into, and
  \<^verbatim>\<open>ReadWithContext\<close> one of the queue it reads. Several goroutines of the examples are made of these.
\<close>

section \<open>Putting\<close>

text \<open>Runs of the rest of the program, whose events satisfy \<open>ok\<close>.\<close>

definition outside_run :: "(event \<Rightarrow> bool) \<Rightarrow> (queue \<Rightarrow> queue) \<Rightarrow> bool" where
  "outside_run ok f \<longleftrightarrow> (\<forall>q. q_inv q \<longrightarrow> (\<exists>evs. q_run q evs (f q) \<and> list_all ok evs))"

lemma outside_run_id [simp]: "outside_run ok (\<lambda>q. q)"
  by (auto simp: outside_run_def intro: exI [of _ "[]"])

text \<open>
  A run in which a goroutine puts \<open>ps\<close>, in this order, among what the others put; if the others put
  nothing, then exactly \<open>ps\<close>.
\<close>

definition puts_only :: "event \<Rightarrow> bool" where
  "puts_only ev \<longleftrightarrow> ev = Quiet \<or> (\<exists>ds. ev = Put ds)"

definition sent_run :: "(event \<Rightarrow> bool) \<Rightarrow> payload list \<Rightarrow> queue \<Rightarrow> queue \<Rightarrow> bool" where
  "sent_run ok ps q q' \<longleftrightarrow> q_inv q' \<and> (\<exists>evs. q_run q evs q' \<and> list_all (\<lambda>ev. ok ev \<or> puts_only ev) evs
     \<and> subseq ps (map qd_Payload (puts evs))
     \<and> ((\<forall>ev. ok ev \<longrightarrow> puts [ev] = []) \<longrightarrow> ps = map qd_Payload (puts evs)))"

lemma sent_run_refl: "q_inv q \<Longrightarrow> sent_run ok [] q q"
  unfolding sent_run_def by (auto intro: exI [of _ "[]"])

lemma sent_run_inv: "sent_run ok ps q q' \<Longrightarrow> q_inv q'"
  by (simp add: sent_run_def)

lemma sent_run_trans:
  assumes "sent_run ok ps q q1" "sent_run ok ps' q1 q'"
  shows "sent_run ok (ps @ ps') q q'"
proof -
  obtain evs evs' where e: "q_run q evs q1" "list_all (\<lambda>ev. ok ev \<or> puts_only ev) evs" "subseq ps (map qd_Payload (puts evs))"
    "(\<forall>ev. ok ev \<longrightarrow> puts [ev] = []) \<longrightarrow> ps = map qd_Payload (puts evs)"
    "q_run q1 evs' q'" "list_all (\<lambda>ev. ok ev \<or> puts_only ev) evs'" "subseq ps' (map qd_Payload (puts evs'))"
    "(\<forall>ev. ok ev \<longrightarrow> puts [ev] = []) \<longrightarrow> ps' = map qd_Payload (puts evs')"
    using assms unfolding sent_run_def by blast
  have "subseq (ps @ ps') (map qd_Payload (puts (evs @ evs')))"
    using list_emb_append_mono [OF e(3,7)] by (simp add: puts_append)
  then show ?thesis
    using assms(2) q_run_trans [OF e(1,5)] e unfolding sent_run_def
    by (intro conjI exI [of _ "evs @ evs'"]) (simp_all add: puts_append)
qed

lemma puts_none: "list_all ok evs \<Longrightarrow> \<forall>ev. ok ev \<longrightarrow> puts [ev] = [] \<Longrightarrow> puts evs = []"
proof (induction evs)
  case (Cons ev evs)
  then show ?case using history_Cons(1) [of ev evs] by auto
qed simp

lemma sent_outside:
  assumes "outside_run ok f" "q_inv q"
  shows "sent_run ok [] q (f q)"
proof -
  obtain evs where e: "q_run q evs (f q)" "list_all ok evs" using assms by (auto simp: outside_run_def)
  then have "list_all (\<lambda>ev. ok ev \<or> puts_only ev) evs" by (simp add: list_all_iff)
  moreover have "(\<forall>ev. ok ev \<longrightarrow> puts [ev] = []) \<longrightarrow> [] = map qd_Payload (puts evs)"
    using puts_none [OF e(2)] by auto
  ultimately show ?thesis
    using e(1) q_run_inv [OF e(1) assms(2)] unfolding sent_run_def by (intro conjI exI [of _ evs]) simp_all
qed

lemma sent_quiet: "q_step q Quiet q' \<Longrightarrow> q_inv q \<Longrightarrow> sent_run ok [] q q'"
  unfolding sent_run_def using q_step_inv q_run.go [OF _ q_run.stop]
  by (intro conjI exI [of _ "[Quiet]"]) (simp_all add: puts_only_def)

text \<open>One attempt of \<^verbatim>\<open>Enqueue\<close>.\<close>

lemma sent_attempt:
  assumes "q_inv q" "item_ok d" "q_enqueue_round wrap d q = Some a"
  shows "sent_run ok (case a of Done None q' \<Rightarrow> [qd_Payload d] | _ \<Rightarrow> []) q (settled a)"
proof -
  have s: "q_step q (added q (settled a)) (settled a)" by (rule q_step.enqueue [OF assms(2,3)])
  have "added q (settled a) = Put (case a of Done None q' \<Rightarrow> [d] | _ \<Rightarrow> [])"
    using enqueue_attempt [of q d wrap] assms
    by (auto simp: added_def enqueue_done_def enqueue_stall_def stored_def same_queueD split: option.splits)
  then show ?thesis
    unfolding sent_run_def using q_step_inv [OF s assms(1)] q_run.go [OF s q_run.stop]
    by (intro conjI exI [of _ "[added q (settled a)]"])
      (simp_all add: puts_only_def split: attempt.splits option.splits)
qed

lemma sent_loop:
  assumes "q_inv q" "item_ok d" "\<forall>f \<in> snd ` set env. outside_run ok f"
  shows "\<exists>out q'. q_enqueue_loop d env q = Some (out, q')
    \<and> sent_run ok (if out = Returned None then [qd_Payload d] else []) q q'"
  using assms
proof (induction env arbitrary: q)
  case Nil
  obtain a where a: "q_enqueue_round (\<lambda>e. e) d q = Some a" using enqueue_attempt [of q d "\<lambda>e. e"] Nil.prems by blast
  show ?case
    using a sent_attempt [OF Nil.prems(1,2) a, of ok]
    by (subst q_enqueue_loop.simps) (auto split: attempt.splits option.splits)
next
  case (Cons wf env)
  obtain w f where wf: "wf = (w, f)" by (cases wf)
  obtain a where a: "q_enqueue_round (\<lambda>e. e) d q = Some a" using enqueue_attempt [of q d "\<lambda>e. e"] Cons.prems by blast
  note S = sent_attempt [OF Cons.prems(1,2) a, of ok]
  show ?case
  proof (cases a)
    case (Done err q1)
    then show ?thesis using a S by (subst q_enqueue_loop.simps) (auto split: option.splits)
  next
    case (Wait q1)
    have q1: "sent_run ok [] q q1" using S Wait by simp
    have "sent_run ok [] q1 (f q1)"
      using sent_outside [of ok f] sent_run_inv [OF q1] Cons.prems(3) wf by auto
    then have F: "sent_run ok [] q (f q1)" using sent_run_trans [OF q1] by fastforce
    show ?thesis
    proof (cases w)
      case Notified
      have N: "sent_run ok [] q (took_dequeue (f q1))"
        using sent_run_trans [OF F sent_quiet [OF q_step.space sent_run_inv [OF F]]] by simp
      obtain out q' where L: "q_enqueue_loop d env (took_dequeue (f q1)) = Some (out, q')"
        "sent_run ok (if out = Returned None then [qd_Payload d] else []) (took_dequeue (f q1)) q'"
        using Cons.IH [OF sent_run_inv [OF N] Cons.prems(2)] Cons.prems(3) by auto
      have "q_enqueue_loop d (wf # env) q = Some (out, q')"
        using a Wait wf Notified L(1) by (subst q_enqueue_loop.simps) (simp add: took_dequeue_def)
      then show ?thesis using sent_run_trans [OF N L(2)] by auto
    qed (use a Wait wf F in \<open>subst q_enqueue_loop.simps; auto\<close>)+
  qed
qed

lemma sent_Enqueue:
  assumes "q_inv q" "payload_ok payload" "\<forall>f \<in> snd ` set env. outside_run ok f"
  shows "\<exists>out q'. q_Enqueue payload now env q = Some (out, q')
    \<and> sent_run ok (if out = Returned None then [payload] else []) q q'"
proof (cases "q_closed q")
  case False
  obtain d q1 where n: "q_new_data payload now q = (d, q1)" "new_item payload q now d" "same_queue q q1"
    by (rule q_new_data_spec [OF assms(1,2)])
  have d: "item_ok d" "qd_Payload d = payload" using new_item_ok [OF n(2) assms(2)] n(2) by (simp_all add: new_item_def)
  have Q: "sent_run ok [] q q1" by (rule sent_quiet [OF q_step.prepare [OF assms(2) n(1)] assms(1)])
  obtain out q' where L: "q_enqueue_loop d env q1 = Some (out, q')"
    "sent_run ok (if out = Returned None then [payload] else []) q1 q'"
    using sent_loop [OF sent_run_inv [OF Q] d(1) assms(3)] d(2) by auto
  show ?thesis
    using False n(1) Q L(1) sent_run_trans [OF Q L(2)] by (auto simp: q_Enqueue_def)
qed (use sent_run_refl [OF assms(1)] in \<open>auto simp: q_Enqueue_def\<close>)

section \<open>The memory limit\<close>

text \<open>Nothing changes the limit a queue was made with.\<close>

definition q_limit :: "queue \<Rightarrow> int" where
  "q_limit q = mt_maxMemory (q_memoryTracker q)"

lemma q_limit_stored: "stored ds q q' \<Longrightarrow> q_limit q' = q_limit q"
  by (simp add: q_limit_def stored_def)

lemma q_limit_same: "same_queue q q' \<Longrightarrow> q_limit q' = q_limit q"
  by (simp add: q_limit_def same_queueD)

lemma q_limit_data: "q_data q' = q_data q \<Longrightarrow> q_limit q' = q_limit q"
  by (simp add: q_limit_def)

lemma q_step_limit: "q_step q ev q' \<Longrightarrow> q_inv q \<Longrightarrow> q_limit q' = q_limit q"
proof (induction rule: q_step.induct)
  case (try_enqueue payload now q err q')
  show ?case
  proof (cases "q_closed q")
    case True
    then show ?thesis using try_enqueue.hyps(2) q_TryEnqueue_closed by simp
  next
    case False
    obtain d err' q'' where T: "q_TryEnqueue payload now q = Some (err', q'')" "q_at_limit q \<Longrightarrow> same_queue q q''"
      "\<not> q_at_limit q \<Longrightarrow> \<not> q_room (qd_size d) q \<Longrightarrow> same_queue q q''"
      "\<not> q_at_limit q \<Longrightarrow> q_room (qd_size d) q \<Longrightarrow> stored [d] q q''"
      by (rule q_TryEnqueue_open [OF try_enqueue.prems False try_enqueue.hyps(1), of now]) blast
    then have "same_queue q q'' \<or> stored [d] q q''" by blast
    then show ?thesis using T(1) try_enqueue.hyps(2) q_limit_same q_limit_stored by auto
  qed
next
  case (try_batch payloads clk q err q')
  show ?case
  proof (cases "q_closed q \<or> payloads = []")
    case True
    then have "q' = q" using try_batch q_TryEnqueueBatch_closed by (auto simp: q_TryEnqueueBatch_def split: if_splits)
    then show ?thesis by simp
  next
    case False
    then have c: "\<not> q_closed q" "payloads \<noteq> []" by simp_all
    show ?thesis
      by (rule q_TryEnqueueBatch_open [OF try_batch.prems c(1) try_batch.hyps(1) c(2), of clk])
        (use try_batch.hyps(2) q_limit_stored q_limit_same in \<open>cases err; auto\<close>)
  qed
next
  case (prepare payload now q d q')
  then show ?case using q_new_data_spec [OF prepare.prems prepare.hyps(1), of now] q_limit_same by auto
next
  case (prepare_batch payloads clk q items q')
  then show ?case using q_make_items_spec [OF prepare_batch.prems prepare_batch.hyps(1), of clk] q_limit_same by (metis prod.inject)
next
  case (enqueue d wrap q a)
  then show ?case
    using enqueue_attempt [of q d wrap] q_limit_stored q_limit_same
    by (auto simp: enqueue_done_def enqueue_stall_def split: option.splits)
next
  case (batch ds q a)
  then show ?case
    using batch_attempt [of q ds] q_limit_stored by (auto simp: batch_done_def batch_stall_def split: option.splits)
next
  case (expire clk q n q')
  show ?case
  proof (cases "q_expirationEnabled q")
    case True
    show ?thesis
      by (rule cleanup_spec [OF expire.prems expire.hyps(2) True]) (use expire.hyps in \<open>simp_all add: q_limit_def\<close>)
  qed (use expire.hyps cleanup_disabled in simp)
next
  case (close q q')
  show ?case
  proof (cases "q_closed q")
    case True
    show ?thesis by (rule q_Close_spec [OF close.prems]) (use close.hyps True in simp)
  next
    case False
    then have "q_data q' = cl_Clear (q_data q)" using close.hyps by (auto simp: q_Close_def bind_eq_Some_conv)
    moreover have "cl_inv (q_data q)" "cl_accounted (q_data q)" using q_invD [OF close.prems] by simp_all
    ultimately show ?thesis using cl_Clear_spec close.prems by (simp add: q_limit_def)
  qed
qed (auto intro!: q_limit_data simp: took_dequeue_def took_enqueue_def q_TryRead_def q_set_reading_def q_AddConsumer_def
    q_AddConsumerGroup_def q_AddGroupConsumer_def q_RemoveConsumer_def q_RemoveConsumerGroup_def q_CleanInactiveConsumers_def
    q_SetTTL_def q_EnableExpiration_def q_DisableExpiration_def q_limit_def split: prod.splits)

lemma q_run_limit: "q_run q evs q' \<Longrightarrow> q_inv q \<Longrightarrow> q_limit q' = q_limit q"
  by (induction rule: q_run.induct) (use q_step_limit q_step_inv in simp_all)

section \<open>The end of reading\<close>

lemma live_more:
  assumes inv: "q_inv q" and live: "q_live p q"
  shows "c_HasMoreData (q_closed q) (q_data q) (q_reading p q) \<longleftrightarrow> q_left p q \<noteq> []"
proof -
  have opn: "\<not> q_closed q" and r: "q_reader p q" using live by (simp_all add: q_live_def)
  show ?thesis
    using c_HasMoreData_left [OF q_invD(1,2) [OF inv] q_reader_ok [OF inv opn r]] opn by (simp add: q_left_def)
qed

text \<open>A read that finds nothing, for a reader that can read, means that nothing is left.\<close>

lemma TryRead_None_left:
  assumes "q_inv q" "q_known p q" "q_TryRead clk k p q = Some (None, q')"
  shows "q_live p q' \<longrightarrow> q_left p q' = []"
proof (cases "q_live p q")
  case True
  show ?thesis
    by (rule q_TryRead_consumed [OF assms(1) True, where clk = clk and k = k])
      (use assms(3) in \<open>auto simp: consumed_def split: if_splits\<close>)
qed (use q_TryRead_dead [OF assms(1,2), of clk k] assms(3) in auto)

section \<open>Reading with a context\<close>

definition ctx_read_gives :: "(queue_data option \<times> go_error option) outcome \<Rightarrow> queue_data list" where
  "ctx_read_gives out = (case out of Returned (Some d, _) \<Rightarrow> [d] | _ \<Rightarrow> [])"

lemma ran_ReadWithContext:
  assumes "q_inv q" "q_known p q" "\<forall>(c, w, f) \<in> set env. others_run ok p f"
  shows "\<exists>out q'. c_ReadWithContext clk p ctx env q = Some (out, q') \<and> ran ok p (ctx_read_gives out) q q'
    \<and> (\<forall>d err. out = Returned (Some d, err) \<longrightarrow> err = None)"
  using assms
proof (induction env arbitrary: q ctx)
  case Nil
  obtain r q' where r: "q_TryRead (clk 0) 0 p q = Some (r, q')" using TryRead_returns [OF Nil.prems(1,2)] by blast
  then show ?case
    using ran_read [OF Nil.prems(1,2) r] ran_refl [OF Nil.prems(1,2)]
    by (subst c_ReadWithContext.simps) (auto simp: ctx_read_gives_def split: option.splits)
next
  case (Cons wf env)
  obtain c w f where wf: "wf = (c, w, f)" by (cases wf) auto
  have f: "others_run ok p f" using Cons.prems(3) wf by simp
  show ?case
  proof (cases ctx)
    case (Some err)
    then show ?thesis
      using ran_refl [OF Cons.prems(1,2)] by (subst c_ReadWithContext.simps) (auto simp: ctx_read_gives_def)
  next
    case ctx: None
    obtain r q1 where r: "q_TryRead (clk (Suc (length env))) 0 p q = Some (r, q1)" using TryRead_returns [OF Cons.prems(1,2)] by blast
    note R = ran_read [OF Cons.prems(1,2) r]
    show ?thesis
    proof (cases r)
      case (Some d)
      then show ?thesis using R r ctx by (subst c_ReadWithContext.simps) (auto simp: ctx_read_gives_def)
    next
      case None
      have q1: "q_inv q1" "q_known p q1" using R by (simp_all add: ran_def)
      have F: "ran ok p [] q (f q1)" using ran_trans [OF _ ran_others [OF f q1]] R None by fastforce
      show ?thesis
      proof (cases w)
        case Notified
        have f1: "q_inv (f q1)" "q_known p (f q1)" using F by (simp_all add: ran_def)
        have N: "ran ok p [] q (took_enqueue (f q1))" using ran_trans [OF F ran_news [OF f1]] by simp
        then obtain out q' where L: "c_ReadWithContext clk p c env (took_enqueue (f q1)) = Some (out, q')"
          "ran ok p (ctx_read_gives out) (took_enqueue (f q1)) q'" "\<forall>d err. out = Returned (Some d, err) \<longrightarrow> err = None"
          using Cons.IH [of "took_enqueue (f q1)" c] Cons.prems(3) by (auto simp: ran_def)
        have "c_ReadWithContext clk p ctx (wf # env) q = Some (out, q')"
          using r None wf Notified L(1) ctx by (subst c_ReadWithContext.simps) (simp add: took_enqueue_def)
        then show ?thesis using ran_trans [OF N L(2)] L(3) by auto
      qed (use r None wf ctx F in \<open>subst c_ReadWithContext.simps; auto simp: ctx_read_gives_def\<close>)+
    qed
  qed
qed

end
