(* ===== verification/MQ_Calm.thy ===== *)
theory MQ_Calm
  imports MQ_Sending
begin

text \<open>
  A goroutine that reads with a consumer of its own, in surroundings where nothing expires, its
  consumer stays, and all that is put is \<open>good\<close>: what it reads is good, and nothing is missing.
  \<^verbatim>\<open>TryEnqueue\<close> in any surroundings. The workers of the examples are made of these.
\<close>

section \<open>Calm surroundings\<close>

text \<open>The others store good items, read, join and leave, but neither remove this consumer nor let items expire.\<close>

definition calm_for :: "(queue_data \<Rightarrow> bool) \<Rightarrow> (event \<Rightarrow> bool) \<Rightarrow> cptr \<Rightarrow> bool" where
  "calm_for good ok p \<longleftrightarrow> (\<forall>ev. ok ev \<longrightarrow> stays p [ev] \<and> removed [ev] = 0 \<and> (\<forall>d \<in> set (puts [ev]). good d))"

lemma calm_for_Quiet [simp]: "calm_for good (\<lambda>ev. ev = Quiet) p"
  by (simp add: calm_for_def)

lemma calm_for_history:
  assumes "calm_for good ok p" "list_all (\<lambda>ev. ok ev \<or> own p ev) evs"
  shows "stays p evs" "removed evs = 0" "\<forall>d \<in> set (puts evs). good d"
proof -
  show "stays p evs" "removed evs = 0"
    by (rule ran_history [OF assms(2)]; use assms(1) in \<open>simp add: calm_for_def del: stays_Cons\<close>)+
  show "\<forall>d \<in> set (puts evs). good d"
    using assms(2)
  proof (induction evs)
    case (Cons ev evs)
    have "puts [ev] = [] \<or> ok ev" using Cons.prems by (auto simp: own_def)
    then have "\<forall>d \<in> set (puts [ev]). good d" using assms(1) by (auto simp: calm_for_def)
    then show ?case using Cons history_Cons(1) [of ev evs] by auto
  qed simp
qed

text \<open>The goroutine's consumer, between two rounds.\<close>

definition reading_good :: "(queue_data \<Rightarrow> bool) \<Rightarrow> cptr \<Rightarrow> queue \<Rightarrow> bool" where
  "reading_good good p q \<longleftrightarrow> q_inv q \<and> q_live p q \<and> c_group (cm_cstore (q_consumers q) p) = None \<and> (\<forall>d \<in> set (q_left p q). good d)"

lemma reading_good_known: "reading_good good p q \<Longrightarrow> q_known p q"
  by (simp add: reading_good_def q_live_def q_reader_def q_known_def)

lemma reading_good_inv: "reading_good good p q \<Longrightarrow> q_inv q"
  by (simp add: reading_good_def)

lemma reading_good_more:
  "reading_good good p q \<Longrightarrow> c_HasMoreData (q_closed q) (q_data q) (q_reading p q) \<longleftrightarrow> q_left p q \<noteq> []"
  using live_more by (simp add: reading_good_def)

text \<open>A run keeps that, and in it what was read and what is left is what was left and what was put.\<close>

lemma ran_calm:
  assumes c: "calm_for good ok p" and a: "reading_good good p q" and r: "ran ok p ds q q'"
  shows "reading_good good p q'" "\<forall>d \<in> set ds. good d"
    "\<exists>evs. q_run q evs q' \<and> ds @ q_left p q' = q_left p q @ puts evs \<and> list_all (\<lambda>ev. ok ev \<or> own p ev) evs"
proof -
  obtain evs where e: "q_run q evs q'" "given p None evs = ds" "list_all (\<lambda>ev. ok ev \<or> own p ev) evs" "q_inv q'"
    using r by (auto simp: ran_def)
  note H = calm_for_history [OF c e(3)]
  have R: "q_live p q' \<and> c_group (cm_cstore (q_consumers q') p) = None \<and> ds @ q_left p q' = q_left p q @ puts evs"
    using run_reader [OF e(1) _ _ H(1)] a e(2) H(2) by (auto simp: reading_good_def)
  then have "set ds \<union> set (q_left p q') = set (q_left p q) \<union> set (puts evs)" by (metis set_append)
  then have "\<forall>d \<in> set ds \<union> set (q_left p q'). good d" using a H(3) by (auto simp: reading_good_def)
  then show "reading_good good p q'" "\<forall>d \<in> set ds. good d" using R e(4) by (auto simp: reading_good_def)
  show "\<exists>evs. q_run q evs q' \<and> ds @ q_left p q' = q_left p q @ puts evs \<and> list_all (\<lambda>ev. ok ev \<or> own p ev) evs"
    using R e(1,3) by blast
qed

text \<open>The round of a loop: what the others do, then a read.\<close>

lemma ran_round:
  assumes c: "calm_for good ok p" and a: "reading_good good p q" and f: "others_run ok p f"
  shows "\<exists>r q'. q_TryRead clk k p (f q) = Some (r, q') \<and> ran ok p (case r of None \<Rightarrow> [] | Some d \<Rightarrow> [d]) q q'
    \<and> reading_good good p q' \<and> (case r of None \<Rightarrow> True | Some d \<Rightarrow> good d)"
proof -
  have F: "ran ok p [] q (f q)" by (rule ran_others [OF f reading_good_inv [OF a] reading_good_known [OF a]])
  have inv: "q_inv (f q)" "q_known p (f q)" using F by (simp_all add: ran_def)
  obtain r q' where T: "q_TryRead clk k p (f q) = Some (r, q')" using TryRead_returns [OF inv] by blast
  have R: "ran ok p (case r of None \<Rightarrow> [] | Some d \<Rightarrow> [d]) q q'" using ran_trans [OF F ran_read [OF inv T]] by simp
  show ?thesis using T R ran_calm(1,2) [OF c a R] by (auto split: option.splits)
qed

lemma ran_round_more:
  assumes c: "calm_for good ok p" and a: "reading_good good p q" and f: "others_run ok p f"
  shows "ran ok p [] q (f q)" "reading_good good p (f q)"
    "c_HasMoreData (q_closed (f q)) (q_data (f q)) (q_reading p (f q)) \<longleftrightarrow> q_left p (f q) \<noteq> []"
proof -
  show R: "ran ok p [] q (f q)" by (rule ran_others [OF f reading_good_inv [OF a] reading_good_known [OF a]])
  show G: "reading_good good p (f q)" by (rule ran_calm(1) [OF c a R])
  show "c_HasMoreData (q_closed (f q)) (q_data (f q)) (q_reading p (f q)) \<longleftrightarrow> q_left p (f q) \<noteq> []"
    by (rule reading_good_more [OF G])
qed

section \<open>\<open>TryEnqueue\<close>\<close>

lemma sent_TryEnqueue:
  assumes "q_inv q" "payload_ok payload"
  shows "\<exists>err q'. q_TryEnqueue payload now q = Some (err, q') \<and> sent_run ok (if err = None then [payload] else []) q q'"
proof (cases "q_closed q")
  case False
  obtain d err q' where T: "q_TryEnqueue payload now q = Some (err, q')" "new_item payload q now d"
    "q_at_limit q \<Longrightarrow> err \<noteq> None \<and> same_queue q q'"
    "\<not> q_at_limit q \<Longrightarrow> \<not> q_room (qd_size d) q \<Longrightarrow> err \<noteq> None \<and> same_queue q q'"
    "\<not> q_at_limit q \<Longrightarrow> q_room (qd_size d) q \<Longrightarrow> err = None \<and> stored [d] q q'"
    by (rule q_TryEnqueue_open [OF assms(1) False assms(2), of now]) blast
  have s: "q_step q (added q q') q'" by (rule q_step.try_enqueue [OF assms(2) T(1)])
  have "added q q' = Put (if err = None then [d] else [])"
    using T(3-5) by (cases "q_at_limit q"; cases "q_room (qd_size d) q") (auto simp: added_def stored_def same_queueD)
  then show ?thesis
    unfolding sent_run_def using T(1,2) q_step_inv [OF s assms(1)] q_run.go [OF s q_run.stop]
    by (intro exI [of _ err] exI [of _ q'] conjI exI [of _ "[added q q']"]) (simp_all add: puts_only_def new_item_def)
qed (use assms sent_run_refl in \<open>auto simp: q_TryEnqueue_closed\<close>)

text \<open>Two runs, and a run of the others before.\<close>

lemma sent_after:
  assumes "outside_run ok f" "q_inv q" "sent_run ok ps (f q) q'"
  shows "sent_run ok ps q q'"
  using sent_run_trans [OF sent_outside [OF assms(1,2)] assms(3)] by simp

lemma sent_run_limit: "sent_run ok ps q q' \<Longrightarrow> q_inv q \<Longrightarrow> q_limit q' = q_limit q"
  using q_run_limit by (auto simp: sent_run_def)

end
