(* ===== verification/MQ_Pool.thy ===== *)
theory MQ_Pool
  imports MQ_Calm MQ_Text
begin

text \<open>
  The worker pool of \<^verbatim>\<open>examples/patterns/worker_pool.go\<close>: jobs and results as payloads, and the loop of a
  worker over two queues and of the main goroutine that collects the results, with what the rest of the
  program does to the queues in between. What a worker prints is left out.
\<close>

section \<open>Jobs and results\<close>

record job =
  job_ID :: int
  job_Task :: string
  job_Payload :: string

record job_result =
  jr_JobID :: int
  jr_Data :: string

abbreviation (input) any_string :: "string \<Rightarrow> gval" where
  "any_string s \<equiv> VInterface (TInterface ''any'') (Some (VString (TString ''string'') (length s)))"

text \<open>A \<^verbatim>\<open>Job\<close> and a \<^verbatim>\<open>Result\<close> (whose error is always nil) as the payload of an item, and a payload read as a job.\<close>

definition job_payload :: "job \<Rightarrow> payload" where
  "job_payload j =
     PValue []
       (VStruct (TStruct ''main.Job'' 40 [TScalar ''int'' KInt, TString ''string'', TInterface ''any''])
          [VScalar (TScalar ''int'' KInt), VString (TString ''string'') (length (job_Task j)), any_string (job_Payload j)])
       (CStruct ''main.Job'' [CInt (job_ID j), CString (job_Task j), CString (job_Payload j)])"

definition result_payload :: "job_result \<Rightarrow> payload" where
  "result_payload r =
     PValue []
       (VStruct (TStruct ''main.Result'' 40 [TScalar ''int'' KInt, TInterface ''any'', TInterface ''error''])
          [VScalar (TScalar ''int'' KInt), any_string (jr_Data r), VInterface (TInterface ''error'') None])
       (CStruct ''main.Result'' [CInt (jr_JobID r), CString (jr_Data r), CNil])"

fun as_job :: "payload \<Rightarrow> job option" where
  "as_job (PValue h v (CStruct name [CInt i, CString t, CString p])) =
     (if name = ''main.Job'' then Some \<lparr>job_ID = i, job_Task = t, job_Payload = p\<rparr> else None)"
| "as_job _ = None"

lemma as_job_payload [simp]: "as_job (job_payload j) = Some j"
  by (simp add: job_payload_def)

text \<open>The jobs \<^verbatim>\<open>main\<close> enqueues.\<close>

definition pool_job :: "int \<Rightarrow> job" where
  "pool_job i = \<lparr>job_ID = i, job_Task = ''process'', job_Payload = ''data-'' @ show_int i\<rparr>"

definition processJob :: "int \<Rightarrow> job \<Rightarrow> job_result" where
  "processJob workerID j =
     \<lparr>jr_JobID = job_ID j, jr_Data = ''Processed by worker '' @ show_int workerID @ '': '' @ job_Payload j\<rparr>"

section \<open>A worker\<close>

text \<open>
  One round of its loop: the answer of the context, the clocks, and what the others do to the job
  queue before the read and before \<^verbatim>\<open>HasMoreData\<close>, and to the result queue before the result is sent.
\<close>

record pool_round =
  pw_cancelled :: bool
  pw_clk :: clock
  pw_now :: time
  pw_jobs :: "queue \<Rightarrow> queue"
  pw_jobs' :: "queue \<Rightarrow> queue"
  pw_results :: "queue \<Rightarrow> queue"

datatype pool_end = NoMoreJobs | Cancelled | Running

text \<open>
  The jobs it processed, how it ended, and the queues; \<open>None\<close> is a panic, also that of the type
  assertion.
\<close>

fun pool_worker ::
  "int \<Rightarrow> cptr \<Rightarrow> pool_round list \<Rightarrow> queue \<Rightarrow> queue \<Rightarrow> ((job list \<times> pool_end) \<times> queue \<times> queue) option" where
  "pool_worker w p [] jobs results = Some (([], Running), jobs, results)"
| "pool_worker w p (r # rs) jobs results =
     (if pw_cancelled r then Some (([], Cancelled), jobs, results)
      else case q_TryRead (pw_clk r) 0 p (pw_jobs r jobs) of
        None \<Rightarrow> None
      | Some (None, jobs) \<Rightarrow>
          let jobs = pw_jobs' r jobs
          in if \<not> c_HasMoreData (q_closed jobs) (q_data jobs) (q_reading p jobs)
             then Some (([], NoMoreJobs), jobs, results)
             else pool_worker w p rs jobs results
      | Some (Some data, jobs) \<Rightarrow>
          (case as_job (qd_Payload data) of
             None \<Rightarrow> None
           | Some j \<Rightarrow>
               (case q_TryEnqueue (result_payload (processJob w j)) (pw_now r) (pw_results r results) of
                  None \<Rightarrow> None
                | Some (err, results) \<Rightarrow>
                    map_option (\<lambda>((done, out), qs). ((j # done, out), qs)) (pool_worker w p rs jobs results))))"

section \<open>The main goroutine\<close>

text \<open>\<^verbatim>\<open>main\<close> puts the jobs (an error is a panic); \<open>nows\<close> is the time of each \<^verbatim>\<open>TryEnqueue\<close>.\<close>

fun pool_jobs :: "int \<Rightarrow> time list \<Rightarrow> queue \<Rightarrow> queue option" where
  "pool_jobs i [] jobs = Some jobs"
| "pool_jobs i (now # nows) jobs =
     (case q_TryEnqueue (job_payload (pool_job i)) now jobs of
        None \<Rightarrow> None
      | Some (err, jobs) \<Rightarrow> if err \<noteq> None then None else pool_jobs (i + 1) nows jobs)"

text \<open>A payload read as a \<^verbatim>\<open>Result\<close>, with the text of its error, and the line for it.\<close>

fun as_result :: "payload \<Rightarrow> (job_result \<times> string option) option" where
  "as_result (PValue h v (CStruct name [CInt i, CString data, e])) =
     (if name \<noteq> ''main.Result'' then None
      else (case e of
         CNil \<Rightarrow> Some (\<lparr>jr_JobID = i, jr_Data = data\<rparr>, None)
       | CString msg \<Rightarrow> Some (\<lparr>jr_JobID = i, jr_Data = data\<rparr>, Some msg)
       | _ \<Rightarrow> None))"
| "as_result _ = None"

lemma as_result_payload [simp]: "as_result (result_payload r) = Some (r, None)"
  by (simp add: result_payload_def)

definition pool_result_line :: "job_result \<times> string option \<Rightarrow> string" where
  "pool_result_line r =
     ''  Job '' @ show_int (jr_JobID (fst r)) @
     (case snd r of Some msg \<Rightarrow> '' failed: '' @ msg | None \<Rightarrow> '' completed: '' @ jr_Data (fst r)) @ [CHR 0x0A]"

text \<open>
  The loop that collects the results: one round, with what the others do before the read and before
  each of the two \<^verbatim>\<open>HasMoreData\<close>. The result says what was read and whether the loop was left.
\<close>

record collect_round =
  co_clk :: clock
  co_read :: "queue \<Rightarrow> queue"
  co_more :: "queue \<Rightarrow> queue"
  co_more' :: "queue \<Rightarrow> queue"

fun pool_collect :: "cptr \<Rightarrow> collect_round list \<Rightarrow> queue \<Rightarrow> (((job_result \<times> string option) list \<times> bool) \<times> queue) option" where
  "pool_collect p [] results = Some (([], False), results)"
| "pool_collect p (r # rs) results =
     (case q_TryRead (co_clk r) 0 p (co_read r results) of
        None \<Rightarrow> None
      | Some (None, results) \<Rightarrow>
          let results = co_more r results
          in if \<not> c_HasMoreData (q_closed results) (q_data results) (q_reading p results)
             then let results = co_more' r results
                  in if \<not> c_HasMoreData (q_closed results) (q_data results) (q_reading p results)
                     then Some (([], True), results)
                     else pool_collect p rs results
             else pool_collect p rs results
      | Some (Some data, results) \<Rightarrow>
          (case as_result (qd_Payload data) of
             None \<Rightarrow> None
           | Some result \<Rightarrow>
               map_option (\<lambda>((done, over), results). ((result # done, over), results)) (pool_collect p rs results)))"

definition pool_report :: "(job_result \<times> string option) list \<Rightarrow> string" where
  "pool_report done =
     concat (map pool_result_line done) @
     [CHR 0x0A] @ ''Total jobs processed: '' @ show_nat (length done) @ ''/20'' @ [CHR 0x0A]"

section \<open>Every worker gets every job\<close>

text \<open>An item that is a job, and whose result is a string as Go has them.\<close>

definition good_job :: "int \<Rightarrow> queue_data \<Rightarrow> bool" where
  "good_job w d \<longleftrightarrow> (\<exists>j. as_job (qd_Payload d) = Some j \<and> int (length (jr_Data (processJob w j))) \<le> MaxInt64)"

definition job_of :: "queue_data \<Rightarrow> job" where
  "job_of d = the (as_job (qd_Payload d))"

definition round_ok :: "(event \<Rightarrow> bool) \<Rightarrow> cptr \<Rightarrow> pool_round \<Rightarrow> bool" where
  "round_ok ok p r \<longleftrightarrow> others_run ok p (pw_jobs r) \<and> others_run ok p (pw_jobs' r) \<and> (\<forall>q. q_inv q \<longrightarrow> q_inv (pw_results r q))"

lemma result_returns:
  assumes "q_inv q" "int (length (jr_Data r)) \<le> MaxInt64"
  shows "\<exists>err q'. q_TryEnqueue (result_payload r) now q = Some (err, q') \<and> q_inv q'"
proof -
  have "payload_ok (result_payload r)"
    using assms(2) by (simp add: result_payload_def heap_ok_def less_eq_kind_def)
  then show ?thesis using sent_TryEnqueue [OF assms(1)] sent_run_inv by metis
qed

lemma worker_ran:
  assumes "calm_for (good_job w) ok p" "reading_good (good_job w) p jobs" "q_inv results" "\<forall>r \<in> set rs. round_ok ok p r"
  shows "\<exists>done out jobs' results' ds. pool_worker w p rs jobs results = Some ((done, out), jobs', results')
    \<and> ran ok p ds jobs jobs' \<and> done = map job_of ds \<and> q_inv results' \<and> (out = NoMoreJobs \<longrightarrow> q_left p jobs' = [])"
  using assms(2-4)
proof (induction rs arbitrary: jobs results)
  case Nil
  have "ran ok p [] jobs jobs" by (rule ran_refl [OF reading_good_inv [OF Nil.prems(1)] reading_good_known [OF Nil.prems(1)]])
  then show ?case using Nil.prems(2) by fastforce
next
  case (Cons r rs)
  have r: "others_run ok p (pw_jobs r)" "others_run ok p (pw_jobs' r)" "\<And>q. q_inv q \<Longrightarrow> q_inv (pw_results r q)"
    using Cons.prems(3) by (simp_all add: round_ok_def)
  have stay: "ran ok p [] jobs jobs" by (rule ran_refl [OF reading_good_inv [OF Cons.prems(1)] reading_good_known [OF Cons.prems(1)]])
  obtain data j2 where T: "q_TryRead (pw_clk r) 0 p (pw_jobs r jobs) = Some (data, j2)"
    "ran ok p (case data of None \<Rightarrow> [] | Some d \<Rightarrow> [d]) jobs j2" "reading_good (good_job w) p j2"
    "case data of None \<Rightarrow> True | Some d \<Rightarrow> good_job w d"
    using ran_round [OF assms(1) Cons.prems(1) r(1)] by blast
  show ?case
  proof (cases "pw_cancelled r")
    case True
    then show ?thesis using stay Cons.prems(2) by fastforce
  next
    case go: False
    show ?thesis
    proof (cases data)
      case None
      let ?j3 = "pw_jobs' r j2"
      note M = ran_round_more [OF assms(1) T(3) r(2)]
      have R3: "ran ok p [] jobs ?j3" using ran_trans [OF _ M(1)] T(2) None by fastforce
      show ?thesis
      proof (cases "q_left p ?j3 = []")
        case True
        then have "pool_worker w p (r # rs) jobs results = Some (([], NoMoreJobs), ?j3, results)"
          using go T(1) None M(3) by simp
        then show ?thesis using R3 True Cons.prems(2) by fastforce
      next
        case False
        obtain done' out jobs' results' ds where L: "pool_worker w p rs ?j3 results = Some ((done', out), jobs', results')"
          "ran ok p ds ?j3 jobs'" "done' = map job_of ds" "q_inv results'" "out = NoMoreJobs \<longrightarrow> q_left p jobs' = []"
          using Cons.IH [OF M(2) Cons.prems(2)] Cons.prems(3) by fastforce
        have "pool_worker w p (r # rs) jobs results = Some ((done', out), jobs', results')"
          using go T(1) None M(3) False L(1) by simp
        then show ?thesis using ran_trans [OF R3 L(2)] L(3-5) by fastforce
      qed
    next
      case (Some d)
      obtain j where j: "as_job (qd_Payload d) = Some j" "int (length (jr_Data (processJob w j))) \<le> MaxInt64"
        using T(4) Some by (auto simp: good_job_def)
      obtain err res where E: "q_TryEnqueue (result_payload (processJob w j)) (pw_now r) (pw_results r results) = Some (err, res)" "q_inv res"
        using result_returns [OF r(3) [OF Cons.prems(2)] j(2), of "pw_now r"] by blast
      obtain done' out jobs' results' ds where L: "pool_worker w p rs j2 res = Some ((done', out), jobs', results')"
        "ran ok p ds j2 jobs'" "done' = map job_of ds" "q_inv results'" "out = NoMoreJobs \<longrightarrow> q_left p jobs' = []"
        using Cons.IH [OF T(3) E(2)] Cons.prems(3) by fastforce
      have "pool_worker w p (r # rs) jobs results = Some ((j # done', out), jobs', results')"
        using go T(1) Some j(1) E(1) L(1) by simp
      moreover have "j # done' = map job_of ([d] @ ds)" using j(1) L(3) by (simp add: job_of_def)
      moreover have "ran ok p ([d] @ ds) jobs jobs'" using ran_trans [OF _ L(2)] T(2) Some by fastforce
      ultimately show ?thesis using L(4,5) by metis
    qed
  qed
qed

text \<open>C29. The pool repeats the work: each worker has a consumer of its own, so a worker that ends because it
  found no more jobs has processed every job its consumer had left when it started and every job put
  meanwhile, in order and once, whatever the other workers read; with five workers every job is
  processed five times. No worker panics.\<close>

theorem every_worker_every_job:
  assumes "q_reached evs0 jobs" and "q_live p jobs" and "c_group (cm_cstore (q_consumers jobs) p) = None"
    and "\<forall>d \<in> set (q_left p jobs). good_job w d" and "q_inv results" and "calm_for (good_job w) ok p" and "\<forall>r \<in> set rs. round_ok ok p r"
  shows "\<exists>done out jobs' results' evs. pool_worker w p rs jobs results = Some ((done, out), jobs', results') \<and> q_run jobs evs jobs'
    \<and> done @ map job_of (q_left p jobs') = map job_of (q_left p jobs @ puts evs)
    \<and> (out = NoMoreJobs \<longrightarrow> done = map job_of (q_left p jobs @ puts evs))"
proof -
  have w: "reading_good (good_job w) p jobs" using q_reached_inv [OF assms(1)] assms(2-4) by (simp add: reading_good_def)
  obtain done' out jobs' results' ds where L: "pool_worker w p rs jobs results = Some ((done', out), jobs', results')"
    "ran ok p ds jobs jobs'" "done' = map job_of ds" "out = NoMoreJobs \<longrightarrow> q_left p jobs' = []"
    using worker_ran [OF assms(6) w assms(5,7)] by blast
  then obtain evs where "q_run jobs evs jobs'" "ds @ q_left p jobs' = q_left p jobs @ puts evs"
    using ran_calm(3) [OF assms(6) w] by blast
  then show ?thesis using L by (metis append_Nil2 map_append list.map_disc_iff)
qed

section \<open>The collected results\<close>

text \<open>What the workers send can be read back.\<close>

definition good_result :: "queue_data \<Rightarrow> bool" where
  "good_result d \<longleftrightarrow> as_result (qd_Payload d) \<noteq> None"

definition collect_ok :: "(event \<Rightarrow> bool) \<Rightarrow> cptr \<Rightarrow> collect_round \<Rightarrow> bool" where
  "collect_ok ok p r \<longleftrightarrow> others_run ok p (co_read r) \<and> others_run ok p (co_more r) \<and> others_run ok p (co_more' r)"

text \<open>
  The loop neither panics nor loses a result: the results it has printed, and those its consumer has
  left, are those there were and those sent meanwhile, in order. It is left only when nothing is left;
  but nothing says that the workers are done by then.
\<close>

theorem results_collected:
  assumes "calm_for good_result ok p" "reading_good good_result p results" "\<forall>r \<in> set rs. collect_ok ok p r"
  shows "\<exists>done over results' evs. pool_collect p rs results = Some ((done, over), results') \<and> q_run results evs results'
    \<and> map Some done @ map (as_result \<circ> qd_Payload) (q_left p results') = map (as_result \<circ> qd_Payload) (q_left p results @ puts evs)
    \<and> (over \<longrightarrow> q_left p results' = [])"
proof -
  have "\<exists>done over results' ds. pool_collect p rs results = Some ((done, over), results') \<and> ran ok p ds results results'
    \<and> map Some done = map (as_result \<circ> qd_Payload) ds \<and> (over \<longrightarrow> q_left p results' = [])"
    using assms(2,3)
  proof (induction rs arbitrary: results)
    case Nil
    then show ?case using ran_refl reading_good_inv reading_good_known by fastforce
  next
    case (Cons r rs)
    have r: "others_run ok p (co_read r)" "others_run ok p (co_more r)" "others_run ok p (co_more' r)"
      using Cons.prems(2) by (simp_all add: collect_ok_def)
    have rs: "\<forall>r \<in> set rs. collect_ok ok p r" using Cons.prems(2) by simp
    obtain data q2 where T: "q_TryRead (co_clk r) 0 p (co_read r results) = Some (data, q2)"
      "ran ok p (case data of None \<Rightarrow> [] | Some d \<Rightarrow> [d]) results q2" "reading_good good_result p q2"
      "case data of None \<Rightarrow> True | Some d \<Rightarrow> good_result d"
      using ran_round [OF assms(1) Cons.prems(1) r(1)] by blast
    show ?case
    proof (cases data)
      case None
      let ?q3 = "co_more r q2" and ?q4 = "co_more' r (co_more r q2)"
      note M = ran_round_more [OF assms(1) T(3) r(2)]
      note M' = ran_round_more [OF assms(1) M(2) r(3)]
      have R3: "ran ok p [] results ?q3" using ran_trans [OF _ M(1)] T(2) None by fastforce
      have R4: "ran ok p [] results ?q4" using ran_trans [OF R3 M'(1)] by simp
      show ?thesis
      proof (cases "q_left p ?q3 = []")
        case True
        show ?thesis
        proof (cases "q_left p ?q4 = []")
          case True
          then show ?thesis using \<open>q_left p ?q3 = []\<close> T(1) None M(3) M'(3) R4 by fastforce
        next
          case False
          then have "pool_collect p (r # rs) results = pool_collect p rs ?q4"
            using \<open>q_left p ?q3 = []\<close> T(1) None M(3) M'(3) by simp
          then show ?thesis using Cons.IH [OF M'(2) rs] ran_trans [OF R4] by fastforce
        qed
      next
        case False
        then have "pool_collect p (r # rs) results = pool_collect p rs ?q3" using T(1) None M(3) by simp
        then show ?thesis using Cons.IH [OF M(2) rs] ran_trans [OF R3] by fastforce
      qed
    next
      case (Some d)
      obtain res where res: "as_result (qd_Payload d) = Some res" using T(4) Some by (auto simp: good_result_def)
      obtain done' over results' ds where L: "pool_collect p rs q2 = Some ((done', over), results')" "ran ok p ds q2 results'"
        "map Some done' = map (as_result \<circ> qd_Payload) ds" "over \<longrightarrow> q_left p results' = []"
        using Cons.IH [OF T(3) rs] by blast
      have "pool_collect p (r # rs) results = Some ((res # done', over), results')" using T(1) Some res L(1) by simp
      moreover have "ran ok p ([d] @ ds) results results'" using ran_trans [OF _ L(2)] T(2) Some by fastforce
      moreover have "map Some (res # done') = map (as_result \<circ> qd_Payload) ([d] @ ds)" using res L(3) by simp
      ultimately show ?thesis using L(4) by metis
    qed
  qed
  then obtain done' over results' ds where L: "pool_collect p rs results = Some ((done', over), results')" "ran ok p ds results results'"
    "map Some done' = map (as_result \<circ> qd_Payload) ds" "over \<longrightarrow> q_left p results' = []" by blast
  then obtain evs where "q_run results evs results'" "ds @ q_left p results' = q_left p results @ puts evs"
    using ran_calm(3) [OF assms(1,2)] by blast
  then show ?thesis using L by (metis map_append)
qed

text \<open>A \<^verbatim>\<open>TryEnqueue\<close> whose item is seen to fit.\<close>

lemma TryEnqueue_fits:
  assumes inv: "q_inv q" and opn: "\<not> q_closed q" and p: "payload_ok payload" and lim: "\<not> q_at_limit q"
    and n: "q_new_data payload now q = (d, q1)" and room: "q_room (qd_size d) q"
  shows "\<exists>q' d'. q_TryEnqueue payload now q = Some (None, q') \<and> stored [d'] q q' \<and> qd_Payload d' = payload"
proof (rule q_TryEnqueue_open [OF inv opn p, of now], goal_cases)
  case (1 d' err q')
  obtain d2 q2 where N: "q_new_data payload now q = (d2, q2)" "new_item payload q now d2" "same_queue q q2"
    by (rule q_new_data_spec [OF inv p])
  have e: "d2 = d" "q2 = q1" using N(1) n by simp_all
  note S = same_queueD [OF N(3)]
  have can: "mt_CanAddData d (q_memoryTracker q1)"
    using mt_CanAddData_iff [of "q_memoryTracker q1" d] q_memory_range [OF same_queue_inv [OF N(3) inv]] N(2) room S item_overhead_pos
      q_invD(4) [OF same_queue_inv [OF N(3) inv]]
    unfolding e by (simp add: new_item_def q_room_def mt_ok_def MaxInt64_def)
  have "\<nexists>a b c. err = Some (MemoryLimitError a b c)"
    using 1(1) n opn S can unfolding e
    by (auto simp: q_TryEnqueue_def cl_Enqueue_def split: prod.splits if_splits option.splits)
  then have "q_room (qd_size d') q" using 1(5) lim by blast
  then have "err = None" "stored [d'] q q'" using 1(6) lim by simp_all
  then show ?case using 1(1,2) by (auto simp: new_item_def)
qed

text \<open>A queue with the first job.\<close>

definition ex_jobs :: queue where
  "ex_jobs = snd (the (q_TryEnqueue (job_payload (pool_job 0)) 1 ex_joined))"

lemma ex_jobs_facts: "q_reached [Quiet, added ex_joined ex_jobs] ex_jobs" "q_live 0 ex_jobs"
  "c_group (cm_cstore (q_consumers ex_jobs) 0) = None" "\<exists>d. q_left 0 ex_jobs = [d] \<and> qd_Payload d = job_payload (pool_job 0)"
proof -
  have ok: "payload_ok (job_payload (pool_job 0))"
    by (simp add: job_payload_def pool_job_def heap_ok_def less_eq_kind_def MaxInt64_def show_int_def show_nat.simps)
  obtain d q1 where n: "q_new_data (job_payload (pool_job 0)) 1 ex_joined = (d, q1)" by fastforce
  have data: "q_data ex_joined = q_data ex_new" by (simp add: ex_joined_def q_AddConsumer_def split: prod.split)
  have mt: "q_memoryTracker ex_joined = NewMemoryTracker MaxQueueMemory" "q_maxItems ex_joined = 3" "q_name ex_joined = ''jobs''"
    using data by (simp_all add: ex_joined_def q_AddConsumer_def ex_new_def NewQueueWithConfig_def NewChunkedList_def ex_config_def
        split: prod.split)
  have "fst (estimatePayloadSize 1048576 (job_payload (pool_job 0)) Map.empty) = 37"
    by (simp add: job_payload_def pool_job_def show_int_def show_nat.simps estimateValueSize.simps visited_list_def safeAdd_def MaxInt64_def)
  then obtain c where e: "estimatePayloadSize 1048576 (job_payload (pool_job 0)) Map.empty = (37, c)" by (metis prod.collapse)
  have "qd_size d \<le> 1000"
    using n e by (auto simp: q_new_data_def NewQueueData_def mt_EstimateQueueDataSize_def qd_SetSize_def Let_def mt NewMemoryTracker_def
        MaxQueueMemory_def BaseQueueDataSize_def BaseQueueEventSize_def safeAdd_def MaxInt64_def)
  then have room: "q_room (qd_size d) ex_joined" by (simp add: q_room_def mt NewMemoryTracker_def MaxQueueMemory_def)
  have lim: "\<not> q_at_limit ex_joined" using ex_joined_inv(4) mt(2) by (simp add: q_at_limit_def)
  obtain q' d' where T: "q_TryEnqueue (job_payload (pool_job 0)) 1 ex_joined = Some (None, q')" "stored [d'] ex_joined q'"
    "qd_Payload d' = job_payload (pool_job 0)"
    using TryEnqueue_fits [OF ex_joined_inv(1,5) ok lim n room] by blast
  have e: "q' = ex_jobs" using T(1) by (simp add: ex_jobs_def)
  show "q_reached [Quiet, added ex_joined ex_jobs] ex_jobs"
    by (rule ex_reachedI) (use ex_steps(1) q_step.try_enqueue [OF ok T(1)] in \<open>auto simp: e intro: q_run.intros\<close>)
  show "q_live 0 ex_jobs" "c_group (cm_cstore (q_consumers ex_jobs) 0) = None"
    "\<exists>d. q_left 0 ex_jobs = [d] \<and> qd_Payload d = job_payload (pool_job 0)"
    using T(2,3) ex_joined_inv(2,3) ex_own(1) unfolding e by (simp_all add: stored_def q_live_def)
qed

theorem every_worker_every_job_witness:
  "\<exists>done out jobs' results' evs. pool_worker 3 0 (replicate 2 \<lparr>pw_cancelled = False, pw_clk = \<lambda>_. 7, pw_now = 7,
       pw_jobs = \<lambda>q. q, pw_jobs' = \<lambda>q. q, pw_results = \<lambda>q. q\<rparr>) ex_jobs ex_new = Some ((done, out), jobs', results')
    \<and> done @ map job_of (q_left 0 jobs') = pool_job 0 # map job_of (puts evs)"
proof -
  let ?r = "\<lparr>pw_cancelled = False, pw_clk = \<lambda>_. 7, pw_now = 7, pw_jobs = \<lambda>q. q, pw_jobs' = \<lambda>q. q, pw_results = \<lambda>q. q\<rparr>"
  let ?ok = "\<lambda>ev. ev = Quiet"
  obtain d where d: "q_left 0 ex_jobs = [d]" "qd_Payload d = job_payload (pool_job 0)" using ex_jobs_facts(4) by blast
  have "length (jr_Data (processJob 3 (pool_job 0))) = 29" by code_simp
  then have g: "\<forall>d \<in> set (q_left 0 ex_jobs). good_job 3 d" using d by (simp add: good_job_def MaxInt64_def)
  have "others_run ?ok 0 (\<lambda>q. q)" by (auto simp: others_run_def intro: exI [of _ "[]"])
  then have r: "\<forall>r \<in> set (replicate 2 ?r). round_ok ?ok 0 r" by (simp add: round_ok_def)
  from every_worker_every_job [OF ex_jobs_facts(1-3) g ex_new_inv(1) calm_for_Quiet r]
  obtain done' out jobs' results' evs where
    "pool_worker 3 0 (replicate 2 ?r) ex_jobs ex_new = Some ((done', out), jobs', results')"
    "done' @ map job_of (q_left 0 jobs') = map job_of (q_left 0 ex_jobs @ puts evs)" by blast
  moreover have "job_of d = pool_job 0" using d(2) by (simp add: job_of_def)
  ultimately show ?thesis using d(1) by (intro exI [of _ done'] exI) simp
qed

end
