(* ===== verification/MQ_Pipeline.thy ===== *)
theory MQ_Pipeline
  imports MQ_Sending MQ_MapPayload
begin

text \<open>
  The stages of \<^verbatim>\<open>examples/patterns/data_pipeline.go\<close>: the source of \<^verbatim>\<open>Generate\<close>, a worker of \<^verbatim>\<open>Map\<close> and
  \<^verbatim>\<open>Filter\<close>, the goroutine of \<^verbatim>\<open>Batch\<close>, and a worker of \<^verbatim>\<open>Sink\<close>. A goroutine gets a list of turns: for
  each round of its loop, what the clocks show and what the rest of the program does to the two queues
  around it. Each result says what was read, what was handed to \<^verbatim>\<open>Enqueue\<close> with the error it gave (the
  code looks at none), and how it ended.
\<close>

section \<open>Goroutines\<close>

text \<open>It returned, it is blocked in \<^verbatim>\<open>Enqueue\<close>, or it is still going.\<close>

datatype stage_end = Over | Stuck | Going

type_synonym sent = "(payload \<times> go_error option) list"

text \<open>
  One turn: what a transformation takes from outside; what the others do to the queue that is read
  before the read and before \<^verbatim>\<open>HasMoreData\<close>, and to the queue that is written before \<^verbatim>\<open>Enqueue\<close>; the time
  and the waits of \<^verbatim>\<open>Enqueue\<close>.
\<close>

record 'o stage_turn =
  tu_outside :: 'o
  tu_before :: "queue \<Rightarrow> queue"
  tu_more :: "queue \<Rightarrow> queue"
  tu_out :: "queue \<Rightarrow> queue"
  tu_now :: time
  tu_env :: world

text \<open>
  \<^verbatim>\<open>Generate\<close>. The generator is the list of items it publishes, each with the time and the waits of its
  \<^verbatim>\<open>Enqueue\<close> and what the others do before it. When it has returned, the queue is closed.
\<close>

definition publish_error :: "string \<Rightarrow> go_error \<Rightarrow> string" where
  "publish_error name err = ''['' @ name @ ''] Enqueue failed: '' @ Error err @ [CHR 0x0A]"

fun pipe_publish ::
  "string \<Rightarrow> (payload \<times> (queue \<Rightarrow> queue) \<times> time \<times> world) list \<Rightarrow> queue \<Rightarrow> ((sent \<times> string \<times> stage_end) \<times> queue) option" where
  "pipe_publish name [] q = Some (([], [], Over), q)"
| "pipe_publish name ((item, others, now, env) # items) q =
     (case q_Enqueue item now env (others q) of
        None \<Rightarrow> None
      | Some (Blocked, q) \<Rightarrow> Some (([], [], Stuck), q)
      | Some (Returned err, q) \<Rightarrow>
          map_option (\<lambda>((sent, out, how), q).
              (((item, err) # sent, (case err of None \<Rightarrow> [] | Some e \<Rightarrow> publish_error name e) @ out, how), q))
            (pipe_publish name items q))"

definition pipe_Generate ::
  "string \<Rightarrow> (payload \<times> (queue \<Rightarrow> queue) \<times> time \<times> world) list \<Rightarrow> (queue \<Rightarrow> queue) \<Rightarrow> queue
    \<Rightarrow> ((sent \<times> string \<times> stage_end) \<times> queue) option" where
  "pipe_Generate name items others q =
     (case pipe_publish name items q of
        None \<Rightarrow> None
      | Some ((sent, out, how), q) \<Rightarrow>
          if how = Over then map_option (\<lambda>q. ((sent, out, how), q)) (q_Close (others q))
          else Some ((sent, out, how), q))"

text \<open>
  \<^verbatim>\<open>Map\<close>: what a worker does with an item. A transformation that panics is \<open>None\<close>; nil is not forwarded.
  The result says what was sent, and whether the worker is still blocked.
\<close>

definition map_item ::
  "('o \<Rightarrow> payload \<Rightarrow> payload option) \<Rightarrow> 'o stage_turn \<Rightarrow> queue_data \<Rightarrow> queue \<Rightarrow> ((sent \<times> bool) \<times> queue) option" where
  "map_item transform t data outQ =
     (case transform (tu_outside t) (qd_Payload data) of
        None \<Rightarrow> None
      | Some result \<Rightarrow>
          if result = PNil then Some (([], False), outQ)
          else map_option (\<lambda>(out, outQ). (case out of Returned err \<Rightarrow> ([(result, err)], False) | Blocked \<Rightarrow> ([], True), outQ))
                 (q_Enqueue result (tu_now t) (tu_env t) (tu_out t outQ)))"

text \<open>The first phase, with the clocks of each \<^verbatim>\<open>ReadWithContext\<close>, whether its context is done, and its waits.\<close>

fun map_read ::
  "('o \<Rightarrow> payload \<Rightarrow> payload option) \<Rightarrow> cptr \<Rightarrow> (((nat \<Rightarrow> clock) \<times> go_error option \<times> ctx_world) \<times> 'o stage_turn) list
    \<Rightarrow> queue \<Rightarrow> queue \<Rightarrow> ((queue_data list \<times> sent \<times> stage_end) \<times> queue \<times> queue) option" where
  "map_read transform p [] inQ outQ = Some (([], [], Going), inQ, outQ)"
| "map_read transform p (((clk, ctx, env), t) # turns) inQ outQ =
     (case c_ReadWithContext clk p ctx env (tu_before t inQ) of
        None \<Rightarrow> None
      | Some (Blocked, inQ) \<Rightarrow> Some (([], [], Going), inQ, outQ)
      | Some (Returned (data, err), inQ) \<Rightarrow>
          if err \<noteq> None then Some (([], [], Over), inQ, outQ)
          else (case data of
             None \<Rightarrow> Some (([], [], Over), inQ, outQ)
           | Some data \<Rightarrow>
               (case map_item transform t data outQ of
                  None \<Rightarrow> None
                | Some ((sent, stuck), outQ) \<Rightarrow>
                    if stuck then Some (([data], sent, Stuck), inQ, outQ)
                    else map_option (\<lambda>((ds, sent', how), qs). ((data # ds, sent @ sent', how), qs))
                           (map_read transform p turns inQ outQ))))"

text \<open>The second phase, until a read finds nothing and \<^verbatim>\<open>HasMoreData\<close> says so too.\<close>

fun map_drain ::
  "('o \<Rightarrow> payload \<Rightarrow> payload option) \<Rightarrow> cptr \<Rightarrow> (clock \<times> 'o stage_turn) list
    \<Rightarrow> queue \<Rightarrow> queue \<Rightarrow> ((queue_data list \<times> sent \<times> stage_end) \<times> queue \<times> queue) option" where
  "map_drain transform p [] inQ outQ = Some (([], [], Going), inQ, outQ)"
| "map_drain transform p ((clk, t) # turns) inQ outQ =
     (case q_TryRead clk 0 p (tu_before t inQ) of
        None \<Rightarrow> None
      | Some (None, inQ) \<Rightarrow>
          let inQ = tu_more t inQ
          in if \<not> c_HasMoreData (q_closed inQ) (q_data inQ) (q_reading p inQ) then Some (([], [], Over), inQ, outQ)
             else map_drain transform p turns inQ outQ
      | Some (Some data, inQ) \<Rightarrow>
          (case map_item transform t data outQ of
             None \<Rightarrow> None
           | Some ((sent, stuck), outQ) \<Rightarrow>
               if stuck then Some (([data], sent, Stuck), inQ, outQ)
               else map_option (\<lambda>((ds, sent', how), qs). ((data # ds, sent @ sent', how), qs))
                      (map_drain transform p turns inQ outQ)))"

text \<open>
  A worker: it joins its group (a closed group gives nil, and reading with it panics), then the two
  phases.
\<close>

definition map_phases ::
  "('o \<Rightarrow> payload \<Rightarrow> payload option) \<Rightarrow> cptr \<Rightarrow> (((nat \<Rightarrow> clock) \<times> go_error option \<times> ctx_world) \<times> 'o stage_turn) list
    \<Rightarrow> (clock \<times> 'o stage_turn) list \<Rightarrow> queue \<Rightarrow> queue \<Rightarrow> ((queue_data list \<times> sent \<times> stage_end) \<times> queue \<times> queue) option" where
  "map_phases transform p turns turns' inQ outQ =
     (case map_read transform p turns inQ outQ of
        None \<Rightarrow> None
      | Some ((ds, sent, how), inQ, outQ) \<Rightarrow>
          if how \<noteq> Over then Some ((ds, sent, how), inQ, outQ)
          else map_option (\<lambda>((ds', sent', how), qs). ((ds @ ds', sent @ sent', how), qs))
                 (map_drain transform p turns' inQ outQ))"

definition map_worker ::
  "('o \<Rightarrow> payload \<Rightarrow> payload option) \<Rightarrow> string \<Rightarrow> time \<Rightarrow> gptr
    \<Rightarrow> (((nat \<Rightarrow> clock) \<times> go_error option \<times> ctx_world) \<times> 'o stage_turn) list \<Rightarrow> (clock \<times> 'o stage_turn) list
    \<Rightarrow> queue \<Rightarrow> queue \<Rightarrow> ((queue_data list \<times> sent \<times> stage_end) \<times> queue \<times> queue) option" where
  "map_worker transform uuid now grp turns turns' inQ outQ =
     (case q_AddGroupConsumer uuid now grp inQ of
        (None, inQ) \<Rightarrow> None
      | (Some p, inQ) \<Rightarrow> map_phases transform p turns turns' inQ outQ)"

text \<open>\<^verbatim>\<open>Filter\<close> is \<^verbatim>\<open>Map\<close> with the transformation that keeps or drops.\<close>

definition filter_transform :: "(payload \<Rightarrow> bool option) \<Rightarrow> 'o \<Rightarrow> payload \<Rightarrow> payload option" where
  "filter_transform predicate outside item =
     map_option (\<lambda>b. if b then item else PNil) (predicate item)"

text \<open>When the workers of a stage are done, its output queue is closed.\<close>

definition stage_close :: "queue \<Rightarrow> queue option" where
  "stage_close outQ = q_Close outQ"

text \<open>A worker of \<^verbatim>\<open>Sink\<close>: the items it consumes, and whether it has returned.\<close>

fun sink_worker ::
  "(nat \<Rightarrow> clock) \<Rightarrow> cptr \<Rightarrow> (world \<times> (queue \<Rightarrow> queue)) list \<Rightarrow> queue \<Rightarrow> ((payload list \<times> bool) \<times> queue) option" where
  "sink_worker clk p [] q = Some (([], False), q)"
| "sink_worker clk p ((env, others) # turns) q =
     (case c_Read clk p env q of
        None \<Rightarrow> None
      | Some (Blocked, q) \<Rightarrow> Some (([], False), q)
      | Some (Returned None, q) \<Rightarrow> Some (([], True), q)
      | Some (Returned (Some data), q) \<Rightarrow>
          map_option (\<lambda>((consumed, over), q). ((qd_Payload data # consumed, over), q)) (sink_worker clk p turns (others q)))"

section \<open>Batches\<close>

text \<open>
  \<^verbatim>\<open>Batch\<close>. A batch is the list of its items; \<open>boxed\<close> is the value of type \<^verbatim>\<open>[]any\<close> with a copy of them
  that is put into the queue. What the \<^verbatim>\<open>select\<close> finds when there is nothing to read: the source is done,
  the ticker fired, or neither.
\<close>

datatype batch_signal = UpstreamDone | Tick | Nothing

type_synonym batches = "(payload list \<times> go_error option) list"

definition batch_flush ::
  "(payload list \<Rightarrow> payload) \<Rightarrow> 'o stage_turn \<Rightarrow> payload list \<Rightarrow> queue \<Rightarrow> ((batches \<times> bool) \<times> queue) option" where
  "batch_flush boxed t batch outQ =
     (if length batch > 0
      then map_option (\<lambda>(out, outQ). (case out of Returned err \<Rightarrow> ([(batch, err)], False) | Blocked \<Rightarrow> ([], True), outQ))
             (q_Enqueue (boxed batch) (tu_now t) (tu_env t) (tu_out t outQ))
      else Some (([], False), outQ))"

text \<open>An item that was read: the batch with it, which is sent when it is full.\<close>

definition batch_item ::
  "(payload list \<Rightarrow> payload) \<Rightarrow> int \<Rightarrow> 'o stage_turn \<Rightarrow> queue_data \<Rightarrow> payload list \<Rightarrow> queue
    \<Rightarrow> ((batches \<times> payload list \<times> bool) \<times> queue) option" where
  "batch_item boxed batchSize t data batch outQ =
     (let batch = batch @ [qd_Payload data]
      in if int (length batch) \<ge> batchSize
         then map_option (\<lambda>((sent, stuck), outQ). ((sent, if stuck then batch else [], stuck), outQ)) (batch_flush boxed t batch outQ)
         else Some (([], batch, False), outQ))"

text \<open>The loop that drains the source when it is done, then the final flush.\<close>

fun batch_drain ::
  "(payload list \<Rightarrow> payload) \<Rightarrow> int \<Rightarrow> cptr \<Rightarrow> (clock \<times> 'o stage_turn) list \<Rightarrow> payload list \<Rightarrow> queue \<Rightarrow> queue
    \<Rightarrow> ((batches \<times> payload list \<times> stage_end) \<times> queue \<times> queue) option" where
  "batch_drain boxed batchSize p [] batch inQ outQ = Some (([], batch, Going), inQ, outQ)"
| "batch_drain boxed batchSize p ((clk, t) # turns) batch inQ outQ =
     (case q_TryRead clk 0 p (tu_before t inQ) of
        None \<Rightarrow> None
      | Some (None, inQ) \<Rightarrow>
          map_option (\<lambda>((sent, stuck), outQ). ((sent, if stuck then batch else [], if stuck then Stuck else Over), inQ, outQ))
            (batch_flush boxed t batch outQ)
      | Some (Some data, inQ) \<Rightarrow>
          (case batch_item boxed batchSize t data batch outQ of
             None \<Rightarrow> None
           | Some ((sent, batch, stuck), outQ) \<Rightarrow>
               if stuck then Some ((sent, batch, Stuck), inQ, outQ)
               else map_option (\<lambda>((sent', batch, how), qs). ((sent @ sent', batch, how), qs))
                      (batch_drain boxed batchSize p turns batch inQ outQ)))"

fun batch_loop ::
  "(payload list \<Rightarrow> payload) \<Rightarrow> int \<Rightarrow> cptr \<Rightarrow> (clock \<times> batch_signal \<times> 'o stage_turn) list \<Rightarrow> (clock \<times> 'o stage_turn) list
    \<Rightarrow> payload list \<Rightarrow> queue \<Rightarrow> queue \<Rightarrow> ((batches \<times> payload list \<times> stage_end) \<times> queue \<times> queue) option" where
  "batch_loop boxed batchSize p [] turns' batch inQ outQ = Some (([], batch, Going), inQ, outQ)"
| "batch_loop boxed batchSize p ((clk, signal, t) # turns) turns' batch inQ outQ =
     (case q_TryRead clk 0 p (tu_before t inQ) of
        None \<Rightarrow> None
      | Some (Some data, inQ) \<Rightarrow>
          (case batch_item boxed batchSize t data batch outQ of
             None \<Rightarrow> None
           | Some ((sent, batch, stuck), outQ) \<Rightarrow>
               if stuck then Some ((sent, batch, Stuck), inQ, outQ)
               else map_option (\<lambda>((sent', batch, how), qs). ((sent @ sent', batch, how), qs))
                      (batch_loop boxed batchSize p turns turns' batch inQ outQ))
      | Some (None, inQ) \<Rightarrow>
          (case signal of
             UpstreamDone \<Rightarrow> batch_drain boxed batchSize p turns' batch inQ outQ
           | Tick \<Rightarrow>
               (case batch_flush boxed t batch outQ of
                  None \<Rightarrow> None
                | Some ((sent, stuck), outQ) \<Rightarrow>
                    if stuck then Some ((sent, batch, Stuck), inQ, outQ)
                    else map_option (\<lambda>((sent', batch, how), qs). ((sent @ sent', batch, how), qs))
                           (batch_loop boxed batchSize p turns turns' [] inQ outQ))
           | Nothing \<Rightarrow> batch_loop boxed batchSize p turns turns' batch inQ outQ))"

text \<open>
  The goroutine: a negative size, or a timeout that is not positive, panics; at its end it closes its
  output queue.
\<close>

definition batch_stage ::
  "(payload list \<Rightarrow> payload) \<Rightarrow> int \<Rightarrow> duration \<Rightarrow> string \<Rightarrow> time \<Rightarrow> (clock \<times> batch_signal \<times> 'o stage_turn) list
    \<Rightarrow> (clock \<times> 'o stage_turn) list \<Rightarrow> (queue \<Rightarrow> queue) \<Rightarrow> queue \<Rightarrow> queue
    \<Rightarrow> ((batches \<times> payload list \<times> stage_end) \<times> queue \<times> queue) option" where
  "batch_stage boxed batchSize timeout uuid now turns turns' others inQ outQ =
     (let (p, inQ) = q_AddConsumer uuid now inQ
      in if batchSize < 0 \<or> timeout \<le> 0 then None
         else case batch_loop boxed batchSize p turns turns' [] inQ outQ of
           None \<Rightarrow> None
         | Some ((sent, batch, how), inQ, outQ) \<Rightarrow>
             if how = Over then map_option (\<lambda>outQ. ((sent, batch, how), inQ, outQ)) (stage_close (others outQ))
             else Some ((sent, batch, how), inQ, outQ))"

section \<open>What a worker of \<open>Map\<close> does\<close>

text \<open>What was let into the queue of all that was sent.\<close>

definition let_in :: "('a \<times> go_error option) list \<Rightarrow> 'a list" where
  "let_in sent = map fst (filter (\<lambda>(x, err). err = None) sent)"

lemma let_in_simps [simp]:
  "let_in [] = []" "let_in (xs @ ys) = let_in xs @ let_in ys"
  "let_in [(x, err)] = (if err = None then [x] else [])"
  by (simp_all add: let_in_def)

text \<open>The turns of a goroutine whose surroundings are runs of the two queues.\<close>

definition turn_ok :: "(event \<Rightarrow> bool) \<Rightarrow> (event \<Rightarrow> bool) \<Rightarrow> cptr \<Rightarrow> 'o stage_turn \<Rightarrow> bool" where
  "turn_ok ok ok' p t \<longleftrightarrow> others_run ok p (tu_before t) \<and> others_run ok p (tu_more t) \<and> outside_run ok' (tu_out t)
     \<and> (\<forall>f \<in> snd ` set (tu_env t). outside_run ok' f)"

definition read_ok_turn :: "(event \<Rightarrow> bool) \<Rightarrow> (event \<Rightarrow> bool) \<Rightarrow> cptr
    \<Rightarrow> ((nat \<Rightarrow> clock) \<times> go_error option \<times> ctx_world) \<times> 'o stage_turn \<Rightarrow> bool" where
  "read_ok_turn ok ok' p x \<longleftrightarrow> (case x of ((clk, ctx, env), t) \<Rightarrow> turn_ok ok ok' p t \<and> (\<forall>(c, w, f) \<in> set env. others_run ok p f))"

text \<open>
  The results of the items read, of which those that are not nil were sent; when the worker is blocked,
  the last is not sent yet.
\<close>

definition forwarded :: "('o \<Rightarrow> payload \<Rightarrow> payload option) \<Rightarrow> queue_data list \<Rightarrow> sent \<Rightarrow> stage_end \<Rightarrow> bool" where
  "forwarded transform ds sent how \<longleftrightarrow>
     (\<exists>rs. list_all2 (\<lambda>d r. \<exists>outside. transform outside (qd_Payload d) = Some r) ds rs
        \<and> map fst sent = filter (\<lambda>r. r \<noteq> PNil) (if how = Stuck then butlast rs else rs)
        \<and> (how = Stuck \<longrightarrow> rs \<noteq> []))"

lemma forwarded_Nil: "how \<noteq> Stuck \<Longrightarrow> forwarded transform [] [] how"
  by (simp add: forwarded_def)

lemma forwarded_Cons:
  assumes "transform outside (qd_Payload d) = Some r" "map fst sent = (if r = PNil then [] else [r])"
    "forwarded transform ds sent' how"
  shows "forwarded transform (d # ds) (sent @ sent') how"
proof -
  obtain rs where rs: "list_all2 (\<lambda>d r. \<exists>outside. transform outside (qd_Payload d) = Some r) ds rs"
    "map fst sent' = filter (\<lambda>r. r \<noteq> PNil) (if how = Stuck then butlast rs else rs)" "how = Stuck \<longrightarrow> rs \<noteq> []"
    using assms(3) by (auto simp: forwarded_def)
  then show ?thesis
    unfolding forwarded_def using assms(1,2) by (intro exI [of _ "r # rs"]) auto
qed

lemma forwarded_Stuck: "transform outside (qd_Payload d) = Some r \<Longrightarrow> forwarded transform [d] [] Stuck"
  unfolding forwarded_def by (intro exI [of _ "[r]"]) auto

lemma forwarded_append:
  assumes "forwarded transform ds sent Over" "forwarded transform ds' sent' how"
  shows "forwarded transform (ds @ ds') (sent @ sent') how"
proof -
  obtain rs rs' where rs: "list_all2 (\<lambda>d r. \<exists>outside. transform outside (qd_Payload d) = Some r) ds rs"
    "map fst sent = filter (\<lambda>r. r \<noteq> PNil) rs"
    "list_all2 (\<lambda>d r. \<exists>outside. transform outside (qd_Payload d) = Some r) ds' rs'"
    "map fst sent' = filter (\<lambda>r. r \<noteq> PNil) (if how = Stuck then butlast rs' else rs')" "how = Stuck \<longrightarrow> rs' \<noteq> []"
    using assms by (auto simp: forwarded_def)
  then show ?thesis
    unfolding forwarded_def by (intro exI [of _ "rs @ rs'"]) (auto simp: list_all2_appendI butlast_append)
qed

text \<open>
  What the queue answered to \<^verbatim>\<open>Enqueue\<close>, at some moment of a run that began with \<open>outQ\<close>: every payload sent
  got its answer so, and a worker that is blocked has a payload without.
\<close>

definition enqueue_at where
  "enqueue_at ok outQ r out \<longleftrightarrow> (\<exists>ps q now env q'. sent_run ok ps outQ q \<and> q_Enqueue r now env q = Some (out, q'))"

definition result_of :: "('o \<Rightarrow> payload \<Rightarrow> payload option) \<Rightarrow> payload \<Rightarrow> bool" where
  "result_of transform r \<longleftrightarrow> (\<exists>outside x. transform outside x = Some r) \<and> r \<noteq> PNil"

definition answered :: "(event \<Rightarrow> bool) \<Rightarrow> ('o \<Rightarrow> payload \<Rightarrow> payload option) \<Rightarrow> queue \<Rightarrow> sent \<Rightarrow> stage_end \<Rightarrow> bool" where
  "answered ok transform outQ sent how \<longleftrightarrow>
     (\<forall>(r, err) \<in> set sent. result_of transform r \<and> enqueue_at ok outQ r (Returned err))
     \<and> (how = Stuck \<longrightarrow> (\<exists>r. result_of transform r \<and> enqueue_at ok outQ r Blocked))"

lemma enqueue_at_later: "sent_run ok ps outQ outQ1 \<Longrightarrow> enqueue_at ok outQ1 r out \<Longrightarrow> enqueue_at ok outQ r out"
  unfolding enqueue_at_def by (blast intro: sent_run_trans)

lemma answered_later: "sent_run ok ps outQ outQ1 \<Longrightarrow> answered ok transform outQ1 sent how \<Longrightarrow> answered ok transform outQ sent how"
  unfolding answered_def using enqueue_at_later by fast

lemma answered_append:
  "answered ok transform outQ sent Over \<Longrightarrow> answered ok transform outQ sent' how \<Longrightarrow> answered ok transform outQ (sent @ sent') how"
  by (auto simp: answered_def)

text \<open>A transformation whose results are values as Go has them.\<close>

definition yields_ok :: "('o \<Rightarrow> payload \<Rightarrow> payload option) \<Rightarrow> bool" where
  "yields_ok transform \<longleftrightarrow> (\<forall>outside x r. transform outside x = Some r \<longrightarrow> payload_ok r)"

lemma map_item_spec:
  assumes "q_inv outQ" "turn_ok ok ok' p t" "yields_ok transform"
  shows "map_item transform t d outQ = None \<Longrightarrow> transform (tu_outside t) (qd_Payload d) = None"
    and "map_item transform t d outQ = Some ((sent, stuck), outQ') \<Longrightarrow>
      \<exists>r. transform (tu_outside t) (qd_Payload d) = Some r \<and> map fst sent = (if r = PNil \<or> stuck then [] else [r])
        \<and> sent_run ok' (let_in sent) outQ outQ' \<and> answered ok' transform outQ sent (if stuck then Stuck else Over)"
proof -
  have "sent_run ok' [] outQ (tu_out t outQ)"
    using sent_outside [of ok' "tu_out t"] assms(1,2) by (simp add: turn_ok_def)
  note S = this
  have E: "\<exists>out q'. q_Enqueue r (tu_now t) (tu_env t) (tu_out t outQ) = Some (out, q')
      \<and> sent_run ok' (if out = Returned None then [r] else []) outQ q'" if "transform (tu_outside t) (qd_Payload d) = Some r" for r
    using sent_Enqueue [OF sent_run_inv [OF S] assms(3) [unfolded yields_ok_def, rule_format, OF that], of "tu_env t" ok' "tu_now t"] assms(2) sent_run_trans [OF S]
    by (fastforce simp: turn_ok_def)
  show "map_item transform t d outQ = None \<Longrightarrow> transform (tu_outside t) (qd_Payload d) = None"
    using E by (auto simp: map_item_def split: option.splits if_splits)
  show "\<exists>r. transform (tu_outside t) (qd_Payload d) = Some r \<and> map fst sent = (if r = PNil \<or> stuck then [] else [r])
        \<and> sent_run ok' (let_in sent) outQ outQ' \<and> answered ok' transform outQ sent (if stuck then Stuck else Over)" if m: "map_item transform t d outQ = Some ((sent, stuck), outQ')"
  proof -
    obtain r where r: "transform (tu_outside t) (qd_Payload d) = Some r" using m by (auto simp: map_item_def split: option.splits)
    show ?thesis
    proof (cases "r = PNil")
      case True
      then show ?thesis using m r sent_run_refl [OF assms(1)] by (auto simp: map_item_def answered_def)
    next
      case False
      have R: "result_of transform r" using r False by (auto simp: result_of_def)
      obtain out q' where E: "q_Enqueue r (tu_now t) (tu_env t) (tu_out t outQ) = Some (out, q')"
        "sent_run ok' (if out = Returned None then [r] else []) outQ q'" using E [OF r] by blast
      have A: "enqueue_at ok' outQ r out" unfolding enqueue_at_def using S E(1) by blast
      have e: "sent = (case out of Returned err \<Rightarrow> [(r, err)] | Blocked \<Rightarrow> [])" "stuck = (out = Blocked)" "outQ' = q'"
        using m r False E(1) by (auto simp: map_item_def split: outcome.splits)
      show ?thesis
        using r R A E(2) False unfolding e by (cases out) (auto simp: answered_def split: if_splits)
    qed
  qed
qed

text \<open>What a phase did, or that a transformation panicked.\<close>

definition worked where
  "worked ok ok' transform p inQ outQ ds sent how inQ' outQ' \<longleftrightarrow>
     ran ok p ds inQ inQ' \<and> sent_run ok' (let_in sent) outQ outQ' \<and> forwarded transform ds sent how
     \<and> answered ok' transform outQ sent how"

lemma worked_none: "ran ok p [] inQ inQ' \<Longrightarrow> q_inv outQ \<Longrightarrow> how \<noteq> Stuck \<Longrightarrow> worked ok ok' transform p inQ outQ [] [] how inQ' outQ"
  by (simp add: worked_def sent_run_refl forwarded_Nil answered_def)

lemma worked_append:
  "worked ok ok' transform p inQ outQ ds sent Over inQ1 outQ1 \<Longrightarrow> worked ok ok' transform p inQ1 outQ1 ds' sent' how inQ' outQ'
    \<Longrightarrow> worked ok ok' transform p inQ outQ (ds @ ds') (sent @ sent') how inQ' outQ'"
  unfolding worked_def let_in_simps by (blast intro: ran_trans sent_run_trans forwarded_append answered_append answered_later)

text \<open>One item, and then the rest of a phase.\<close>

lemma worked_item:
  assumes R: "ran ok p [d] inQ inQ1" and out: "q_inv outQ" and t: "turn_ok ok ok' p t"
    and T: "yields_ok transform"
    and rest: "\<And>outQ1. q_inv outQ1 \<Longrightarrow>
      (case rest outQ1 of None \<Rightarrow> \<exists>outside x. transform outside x = None
       | Some ((ds, sent, how), inQ', outQ') \<Rightarrow> worked ok ok' transform p inQ1 outQ1 ds sent how inQ' outQ' \<and> (how = Over \<longrightarrow> Q inQ'))"
  shows "case (case map_item transform t d outQ of None \<Rightarrow> None
        | Some ((sent, stuck), outQ) \<Rightarrow>
            if stuck then Some (([d], sent, Stuck), inQ1, outQ)
            else map_option (\<lambda>((ds, sent', how), qs). ((d # ds, sent @ sent', how), qs)) (rest outQ)) of
      None \<Rightarrow> \<exists>outside x. transform outside x = None
    | Some ((ds, sent, how), inQ', outQ') \<Rightarrow> worked ok ok' transform p inQ outQ ds sent how inQ' outQ' \<and> (how = Over \<longrightarrow> Q inQ')"
proof (cases "map_item transform t d outQ")
  case None
  then show ?thesis using map_item_spec(1) [OF out t T, of d] by auto
next
  case (Some a)
  obtain sent stuck outQ1 where a: "a = ((sent, stuck), outQ1)" by (cases a) auto
  obtain r where r: "transform (tu_outside t) (qd_Payload d) = Some r"
    "map fst sent = (if r = PNil \<or> stuck then [] else [r])" "sent_run ok' (let_in sent) outQ outQ1"
    "answered ok' transform outQ sent (if stuck then Stuck else Over)"
    using map_item_spec(2) [OF out t T, of d sent stuck outQ1] Some a by blast
  show ?thesis
  proof (cases stuck)
    case True
    then have "sent = []" using r(2) by simp
    then show ?thesis using Some a True R r(1,3,4) by (simp add: worked_def forwarded_Stuck)
  next
    case False
    note K = rest [OF sent_run_inv [OF r(3)]]
    have "worked ok ok' transform p inQ outQ (d # ds) (sent @ sent') how inQ' outQ'"
      if w: "worked ok ok' transform p inQ1 outQ1 ds sent' how inQ' outQ'" for ds sent' how inQ' outQ'
    proof -
      have "ran ok p ([d] @ ds) inQ inQ'" by (rule ran_trans [OF R]) (use w in \<open>simp add: worked_def\<close>)
      moreover have "sent_run ok' (let_in sent @ let_in sent') outQ outQ'"
        by (rule sent_run_trans [OF r(3)]) (use w in \<open>simp add: worked_def\<close>)
      moreover have "forwarded transform (d # ds) (sent @ sent') how"
        by (rule forwarded_Cons [of transform "tu_outside t" d r]) (use w r(1,2) False in \<open>simp_all add: worked_def\<close>)
      moreover have "answered ok' transform outQ (sent @ sent') how"
        by (rule answered_append [OF _ answered_later [OF r(3)]]) (use w r(4) False in \<open>simp_all add: worked_def\<close>)
      ultimately show ?thesis by (simp add: worked_def)
    qed
    then show ?thesis using Some a False K by (auto split: option.splits)
  qed
qed

lemma map_read_spec:
  assumes "q_inv inQ" "q_known p inQ" "q_inv outQ" "\<forall>x \<in> set turns. read_ok_turn ok ok' p x"
    and T: "yields_ok transform"
  shows "case map_read transform p turns inQ outQ of None \<Rightarrow> \<exists>outside x. transform outside x = None
    | Some ((ds, sent, how), inQ', outQ') \<Rightarrow> worked ok ok' transform p inQ outQ ds sent how inQ' outQ' \<and> (how = Over \<longrightarrow> True)"
  using assms(1-4)
proof (induction turns arbitrary: inQ outQ)
  case Nil
  then show ?case by (simp add: worked_none ran_refl)
next
  case (Cons x turns)
  obtain clk ctx env t where x: "x = ((clk, ctx, env), t)" by (cases x) auto
  have t: "turn_ok ok ok' p t" "\<forall>(c, w, f) \<in> set env. others_run ok p f" using Cons.prems(4) x by (simp_all add: read_ok_turn_def)
  have B: "ran ok p [] inQ (tu_before t inQ)" using ran_others [of ok p "tu_before t" inQ] Cons.prems(1,2) t(1) by (simp add: turn_ok_def)
  then have b: "q_inv (tu_before t inQ)" "q_known p (tu_before t inQ)" by (simp_all add: ran_def)
  obtain out inQ1 where R: "c_ReadWithContext clk p ctx env (tu_before t inQ) = Some (out, inQ1)"
    "ran ok p (ctx_read_gives out) (tu_before t inQ) inQ1" "\<forall>d err. out = Returned (Some d, err) \<longrightarrow> err = None"
    using ran_ReadWithContext [OF b t(2)] by blast
  have R': "ran ok p (ctx_read_gives out) inQ inQ1" using ran_trans [OF B R(2)] by simp
  show ?case
  proof (cases "\<exists>d. out = Returned (Some d, None)")
    case True
    then obtain d where d: "out = Returned (Some d, None)" by blast
    have Rd: "ran ok p [d] inQ inQ1" using R' d by (simp add: ctx_read_gives_def)
    have i1: "q_inv inQ1" "q_known p inQ1" using Rd by (simp_all add: ran_def)
    have e: "map_read transform p (x # turns) inQ outQ =
        (case map_item transform t d outQ of None \<Rightarrow> None
         | Some ((sent, stuck), outQ) \<Rightarrow>
             if stuck then Some (([d], sent, Stuck), inQ1, outQ)
             else map_option (\<lambda>((ds, sent', how), qs). ((d # ds, sent @ sent', how), qs)) (map_read transform p turns inQ1 outQ))"
      using x R(1) d by simp
    show ?thesis
      unfolding e by (rule worked_item [OF Rd Cons.prems(3) t(1) T]) (use Cons.IH [OF i1] Cons.prems(4) in auto)
  next
    case False
    then have n: "ran ok p [] inQ inQ1" "\<nexists>d err. out = Returned (Some d, err)"
      using R' R(3) by (auto simp: ctx_read_gives_def split: outcome.splits option.splits prod.splits)
    then show ?thesis
      using x R(1) worked_none [OF n(1) Cons.prems(3)]
      by (cases out) (auto split: option.splits prod.splits)
  qed
qed

lemma map_drain_spec:
  assumes "q_inv inQ" "q_known p inQ" "q_inv outQ" "\<forall>(clk, t) \<in> set turns. turn_ok ok ok' p t"
    and T: "yields_ok transform"
  shows "case map_drain transform p turns inQ outQ of None \<Rightarrow> \<exists>outside x. transform outside x = None
    | Some ((ds, sent, how), inQ', outQ') \<Rightarrow> worked ok ok' transform p inQ outQ ds sent how inQ' outQ'
        \<and> (how = Over \<longrightarrow> \<not> c_HasMoreData (q_closed inQ') (q_data inQ') (q_reading p inQ'))"
  using assms(1-4)
proof (induction turns arbitrary: inQ outQ)
  case Nil
  then show ?case by (simp add: worked_none ran_refl)
next
  case (Cons x turns)
  obtain clk t where x: "x = (clk, t)" by (cases x) auto
  have t: "turn_ok ok ok' p t" "others_run ok p (tu_more t)" using Cons.prems(4) x by (simp_all add: turn_ok_def)
  have B: "ran ok p [] inQ (tu_before t inQ)" using ran_others [of ok p "tu_before t" inQ] Cons.prems(1,2) t(1) by (simp add: turn_ok_def)
  then have b: "q_inv (tu_before t inQ)" "q_known p (tu_before t inQ)" by (simp_all add: ran_def)
  obtain r inQ1 where r: "q_TryRead clk 0 p (tu_before t inQ) = Some (r, inQ1)" using TryRead_returns [OF b] by blast
  have R: "ran ok p (case r of None \<Rightarrow> [] | Some d \<Rightarrow> [d]) inQ inQ1" using ran_trans [OF B ran_read [OF b r]] by simp
  have i1: "q_inv inQ1" "q_known p inQ1" using R by (simp_all add: ran_def)
  show ?case
  proof (cases r)
    case None
    let ?in = "tu_more t inQ1"
    have M: "ran ok p [] inQ ?in" using ran_trans [OF R ran_others [OF t(2) i1]] None by simp
    then have m: "q_inv ?in" "q_known p ?in" by (simp_all add: ran_def)
    show ?thesis
    proof (cases "c_HasMoreData (q_closed ?in) (q_data ?in) (q_reading p ?in)")
      case True
      have "worked ok ok' transform p inQ outQ [] [] Over ?in outQ" using worked_none [OF M Cons.prems(3), of Over ok' transform] by simp
      then show ?thesis
        using Cons.IH [OF m Cons.prems(3)] Cons.prems(4) x r None True worked_append [of ok ok' transform p inQ outQ "[]" "[]"]
        by (auto split: option.splits)
    next
      case False
      then show ?thesis using x r None worked_none [OF M Cons.prems(3), of Over ok' transform] by simp
    qed
  next
    case (Some d)
    have Rd: "ran ok p [d] inQ inQ1" using R Some by simp
    have e: "map_drain transform p (x # turns) inQ outQ =
        (case map_item transform t d outQ of None \<Rightarrow> None
         | Some ((sent, stuck), outQ) \<Rightarrow>
             if stuck then Some (([d], sent, Stuck), inQ1, outQ)
             else map_option (\<lambda>((ds, sent', how), qs). ((d # ds, sent @ sent', how), qs)) (map_drain transform p turns inQ1 outQ))"
      using x r Some by simp
    show ?thesis
      unfolding e by (rule worked_item [OF Rd Cons.prems(3) t(1) T]) (use Cons.IH [OF i1] Cons.prems(4) in auto)
  qed
qed

text \<open>The two phases together.\<close>

lemma map_phases_spec:
  assumes "q_inv inQ" "q_known p inQ" "q_inv outQ"
    and "\<forall>x \<in> set turns. read_ok_turn ok ok' p x" "\<forall>(clk, t) \<in> set turns'. turn_ok ok ok' p t"
    and T: "yields_ok transform"
  shows "case map_phases transform p turns turns' inQ outQ of None \<Rightarrow> \<exists>outside x. transform outside x = None
    | Some ((ds, sent, how), inQ', outQ') \<Rightarrow> worked ok ok' transform p inQ outQ ds sent how inQ' outQ'
        \<and> (how = Over \<longrightarrow> \<not> c_HasMoreData (q_closed inQ') (q_data inQ') (q_reading p inQ'))"
proof -
  note A = map_read_spec [OF assms(1-4) T]
  show ?thesis
  proof (cases "map_read transform p turns inQ outQ")
    case None
    then show ?thesis using A by (simp add: map_phases_def)
  next
    case (Some a)
    obtain ds sent how inQ1 outQ1 where a: "a = ((ds, sent, how), inQ1, outQ1)" by (cases a) auto
    have W: "worked ok ok' transform p inQ outQ ds sent how inQ1 outQ1" using A Some a by simp
    show ?thesis
    proof (cases "how = Over")
      case True
      have i: "q_inv inQ1" "q_known p inQ1" "q_inv outQ1" using W by (auto simp: worked_def ran_def dest: sent_run_inv)
      show ?thesis
        using map_drain_spec [OF i assms(5) T] worked_append [of ok ok' transform p inQ outQ ds sent inQ1 outQ1] W Some a True
        by (auto simp: map_phases_def split: option.splits)
    qed (use W Some a in \<open>simp add: map_phases_def\<close>)
  qed
qed

end
