(* ===== verification/MQ_Batches.thy ===== *)
theory MQ_Batches
  imports MQ_Pipeline
begin

text \<open>
  What the goroutine of \<^verbatim>\<open>Batch\<close> does: its batches, joined, are the items it read, in order, and none is
  larger than the size asked for.
\<close>

section \<open>Flushing\<close>

definition boxes_ok :: "(payload list \<Rightarrow> payload) \<Rightarrow> bool" where
  "boxes_ok boxed \<longleftrightarrow> (\<forall>b. payload_ok (boxed b))"

lemma batch_flush_spec:
  assumes "q_inv outQ" "turn_ok ok ok' p t" "boxes_ok boxed"
  shows "\<exists>sent stuck outQ'. batch_flush boxed t batch outQ = Some ((sent, stuck), outQ')
    \<and> map fst sent = (if batch = [] \<or> stuck then [] else [batch]) \<and> (stuck \<longrightarrow> batch \<noteq> [])
    \<and> sent_run ok' (map boxed (let_in sent)) outQ outQ'"
proof (cases "batch = []")
  case False
  have S: "sent_run ok' [] outQ (tu_out t outQ)" using sent_outside [of ok' "tu_out t"] assms(1,2) by (simp add: turn_ok_def)
  have b: "payload_ok (boxed batch)" and env: "\<forall>f \<in> snd ` set (tu_env t). outside_run ok' f"
    using assms(2,3) by (simp_all add: boxes_ok_def turn_ok_def)
  obtain out q' where E: "q_Enqueue (boxed batch) (tu_now t) (tu_env t) (tu_out t outQ) = Some (out, q')"
    "sent_run ok' (if out = Returned None then [boxed batch] else []) (tu_out t outQ) q'"
    using sent_Enqueue [OF sent_run_inv [OF S] b env] by blast
  have "sent_run ok' (if out = Returned None then [boxed batch] else []) outQ q'" using sent_run_trans [OF S E(2)] by simp
  then have "sent_run ok' (map boxed (let_in (case out of Returned err \<Rightarrow> [(batch, err)] | Blocked \<Rightarrow> []))) outQ q'"
    by (cases out) (auto split: if_splits)
  moreover have "batch_flush boxed t batch outQ
      = Some ((case out of Returned err \<Rightarrow> [(batch, err)] | Blocked \<Rightarrow> [], out = Blocked), q')"
    using E(1) False by (cases out) (simp_all add: batch_flush_def)
  ultimately show ?thesis
    using False by (intro exI [of _ "case out of Returned err \<Rightarrow> [(batch, err)] | Blocked \<Rightarrow> []"] exI [of _ "out = Blocked"] exI [of _ q'])
      (cases out; simp)
qed (auto simp: batch_flush_def sent_run_refl [OF assms(1)])

section \<open>The loops\<close>

definition batch_worked where
  "batch_worked ok ok' boxed sz p inQ outQ batch sent batch' how inQ' outQ' \<longleftrightarrow>
     (\<exists>ds. ran ok p ds inQ inQ' \<and> concat (map fst sent) @ batch' = batch @ map qd_Payload ds)
     \<and> sent_run ok' (map boxed (let_in sent)) outQ outQ'
     \<and> (\<forall>b \<in> fst ` set sent. b \<noteq> [] \<and> int (length b) \<le> max 1 sz)
     \<and> (how \<noteq> Stuck \<longrightarrow> int (length batch') < max 1 sz) \<and> (how = Over \<longrightarrow> batch' = [] \<and> (q_live p inQ' \<longrightarrow> q_left p inQ' = []))"

lemma batch_worked_trans:
  assumes "batch_worked ok ok' boxed sz p inQ outQ batch sent batch1 Going inQ1 outQ1"
    "batch_worked ok ok' boxed sz p inQ1 outQ1 batch1 sent' batch' how inQ' outQ'"
  shows "batch_worked ok ok' boxed sz p inQ outQ batch (sent @ sent') batch' how inQ' outQ'"
proof -
  obtain ds ds' where d: "ran ok p ds inQ inQ1" "concat (map fst sent) @ batch1 = batch @ map qd_Payload ds"
    "ran ok p ds' inQ1 inQ'" "concat (map fst sent') @ batch' = batch1 @ map qd_Payload ds'"
    using assms by (auto simp: batch_worked_def)
  have "concat (map fst (sent @ sent')) @ batch' = batch @ map qd_Payload (ds @ ds')" using d(2,4) by (metis append.assoc concat_append map_append)
  then show ?thesis
    using assms ran_trans [OF d(1,3)] sent_run_trans [of ok' "map boxed (let_in sent)" outQ outQ1 "map boxed (let_in sent')" outQ']
    unfolding batch_worked_def by (intro conjI exI [of _ "ds @ ds'"]) auto
qed

text \<open>An item that was read, kept or sent with its batch.\<close>

lemma batch_item_spec:
  assumes R: "ran ok p [d] inQ inQ1" and out: "q_inv outQ" and t: "turn_ok ok ok' p t" and b: "boxes_ok boxed"
    and len: "int (length batch) < max 1 sz"
  shows "\<exists>sent batch' stuck outQ'. batch_item boxed sz t d batch outQ = Some ((sent, batch', stuck), outQ')
    \<and> batch_worked ok ok' boxed sz p inQ outQ batch sent batch' (if stuck then Stuck else Going) inQ1 outQ'"
proof (cases "int (length (batch @ [qd_Payload d])) \<ge> sz")
  case True
  obtain sent stuck outQ' where F: "batch_flush boxed t (batch @ [qd_Payload d]) outQ = Some ((sent, stuck), outQ')"
    "map fst sent = (if stuck then [] else [batch @ [qd_Payload d]])" "sent_run ok' (map boxed (let_in sent)) outQ outQ'"
    using batch_flush_spec [OF out t b, of "batch @ [qd_Payload d]"] by auto
  have s: "concat (map fst sent) @ (if stuck then batch @ [qd_Payload d] else []) = batch @ map qd_Payload [d]"
    using F(2) by simp
  have "fst ` set sent \<subseteq> {batch @ [qd_Payload d]}" using arg_cong [OF F(2), of set] by (auto split: if_splits)
  then have "batch_worked ok ok' boxed sz p inQ outQ batch sent (if stuck then batch @ [qd_Payload d] else [])
      (if stuck then Stuck else Going) inQ1 outQ'"
    unfolding batch_worked_def using R s F(3) len by (intro conjI exI [of _ "[d]"]) auto
  then show ?thesis using True F(1) by (auto simp: batch_item_def)
next
  case False
  have "batch_worked ok ok' boxed sz p inQ outQ batch [] (batch @ [qd_Payload d]) Going inQ1 outQ"
    unfolding batch_worked_def using R False len sent_run_refl [OF out] by (intro conjI exI [of _ "[d]"]) auto
  then show ?thesis using False by (auto simp: batch_item_def)
qed

lemma batch_worked_none:
  assumes "ran ok p [] inQ inQ'" "q_inv outQ" "int (length batch) < max 1 sz"
  shows "batch_worked ok ok' boxed sz p inQ outQ batch [] batch Going inQ' outQ"
  unfolding batch_worked_def using assms sent_run_refl by (intro conjI exI [of _ "[]"]) auto

lemma batch_flush_worked:
  assumes R: "ran ok p [] inQ inQ1" and out: "q_inv outQ" and t: "turn_ok ok ok' p t" and b: "boxes_ok boxed"
    and len: "int (length batch) < max 1 sz" and how: "how = Over \<Longrightarrow> q_live p inQ1 \<longrightarrow> q_left p inQ1 = []" "how \<noteq> Stuck"
  shows "\<exists>sent stuck outQ'. batch_flush boxed t batch outQ = Some ((sent, stuck), outQ')
    \<and> batch_worked ok ok' boxed sz p inQ outQ batch sent (if stuck then batch else []) (if stuck then Stuck else how) inQ1 outQ'"
proof -
  obtain sent stuck outQ' where F: "batch_flush boxed t batch outQ = Some ((sent, stuck), outQ')"
    "map fst sent = (if batch = [] \<or> stuck then [] else [batch])" "stuck \<longrightarrow> batch \<noteq> []" "sent_run ok' (map boxed (let_in sent)) outQ outQ'"
    using batch_flush_spec [OF out t b, of batch] by blast
  have "fst ` set sent \<subseteq> (if batch = [] then {} else {batch})" using arg_cong [OF F(2), of set] by (auto split: if_splits)
  then have "batch_worked ok ok' boxed sz p inQ outQ batch sent (if stuck then batch else []) (if stuck then Stuck else how) inQ1 outQ'"
    unfolding batch_worked_def using R F(2-4) len how by (intro conjI exI [of _ "[]"]) (auto split: if_splits)
  then show ?thesis using F(1) by blast
qed

lemma batch_drain_spec:
  assumes "q_inv inQ" "q_known p inQ" "q_inv outQ" "\<forall>(clk, t) \<in> set turns. turn_ok ok ok' p t" "boxes_ok boxed"
    "int (length batch) < max 1 sz"
  shows "\<exists>sent batch' how inQ' outQ'. batch_drain boxed sz p turns batch inQ outQ = Some ((sent, batch', how), inQ', outQ')
    \<and> batch_worked ok ok' boxed sz p inQ outQ batch sent batch' how inQ' outQ'"
  using assms
proof (induction turns arbitrary: batch inQ outQ)
  case Nil
  then show ?case using batch_worked_none [OF ran_refl] by fastforce
next
  case (Cons x turns)
  obtain clk t where x: "x = (clk, t)" by (cases x) auto
  have t: "turn_ok ok ok' p t" using Cons.prems(4) x by simp
  have B: "ran ok p [] inQ (tu_before t inQ)" using ran_others [of ok p "tu_before t" inQ] Cons.prems(1,2) t(1) by (simp add: turn_ok_def)
  then have b: "q_inv (tu_before t inQ)" "q_known p (tu_before t inQ)" by (simp_all add: ran_def)
  obtain r inQ1 where r: "q_TryRead clk 0 p (tu_before t inQ) = Some (r, inQ1)" using TryRead_returns [OF b] by blast
  have R: "ran ok p (case r of None \<Rightarrow> [] | Some d \<Rightarrow> [d]) inQ inQ1" using ran_trans [OF B ran_read [OF b r]] by simp
  have i1: "q_inv inQ1" "q_known p inQ1" using R by (simp_all add: ran_def)
  show ?case
  proof (cases r)
    case None
    have n: "q_live p inQ1 \<longrightarrow> q_left p inQ1 = []" using TryRead_None_left [OF b, of clk 0 inQ1] r None by simp
    have R0: "ran ok p [] inQ inQ1" using R None by simp
    show ?thesis
      using batch_flush_worked [OF R0 Cons.prems(3) t Cons.prems(5,6) n, of Over] x r None by fastforce
  next
    case (Some d)
    have R1: "ran ok p [d] inQ inQ1" using R Some by simp
    obtain sent batch1 stuck outQ1 where I: "batch_item boxed sz t d batch outQ = Some ((sent, batch1, stuck), outQ1)"
      "batch_worked ok ok' boxed sz p inQ outQ batch sent batch1 (if stuck then Stuck else Going) inQ1 outQ1"
      using batch_item_spec [OF R1 Cons.prems(3) t Cons.prems(5,6)] by blast
    show ?thesis
    proof (cases stuck)
      case True
      then show ?thesis using x r Some I by simp
    next
      case False
      have o: "q_inv outQ1" "int (length batch1) < max 1 sz" using I(2) False by (auto simp: batch_worked_def dest: sent_run_inv)
      obtain sent' batch' how inQ' outQ' where D: "batch_drain boxed sz p turns batch1 inQ1 outQ1 = Some ((sent', batch', how), inQ', outQ')"
        "batch_worked ok ok' boxed sz p inQ1 outQ1 batch1 sent' batch' how inQ' outQ'"
        using Cons.IH [OF i1 o(1) _ Cons.prems(5) o(2)] Cons.prems(4) by auto
      show ?thesis using x r Some I D False batch_worked_trans [OF _ D(2)] by simp
    qed
  qed
qed

lemma batch_loop_spec:
  assumes "q_inv inQ" "q_known p inQ" "q_inv outQ" "\<forall>(clk, s, t) \<in> set turns. turn_ok ok ok' p t"
    "\<forall>(clk, t) \<in> set turns'. turn_ok ok ok' p t" "boxes_ok boxed" "int (length batch) < max 1 sz"
  shows "\<exists>sent batch' how inQ' outQ'. batch_loop boxed sz p turns turns' batch inQ outQ = Some ((sent, batch', how), inQ', outQ')
    \<and> batch_worked ok ok' boxed sz p inQ outQ batch sent batch' how inQ' outQ'"
  using assms
proof (induction turns arbitrary: batch inQ outQ)
  case Nil
  then show ?case using batch_worked_none [OF ran_refl] by fastforce
next
  case (Cons x turns)
  obtain clk s t where x: "x = (clk, s, t)" by (cases x) auto
  have t: "turn_ok ok ok' p t" using Cons.prems(4) x by simp
  have B: "ran ok p [] inQ (tu_before t inQ)" using ran_others [of ok p "tu_before t" inQ] Cons.prems(1,2) t(1) by (simp add: turn_ok_def)
  then have b: "q_inv (tu_before t inQ)" "q_known p (tu_before t inQ)" by (simp_all add: ran_def)
  obtain r inQ1 where r: "q_TryRead clk 0 p (tu_before t inQ) = Some (r, inQ1)" using TryRead_returns [OF b] by blast
  have R: "ran ok p (case r of None \<Rightarrow> [] | Some d \<Rightarrow> [d]) inQ inQ1" using ran_trans [OF B ran_read [OF b r]] by simp
  have i1: "q_inv inQ1" "q_known p inQ1" using R by (simp_all add: ran_def)
  have rest: "\<exists>sent batch' how inQ' outQ'. map_option (\<lambda>((sent', batch, how), qs). ((sent1 @ sent', batch, how), qs))
        (batch_loop boxed sz p turns turns' batch1 inQ1 outQ1) = Some ((sent, batch', how), inQ', outQ')
      \<and> batch_worked ok ok' boxed sz p inQ outQ batch sent batch' how inQ' outQ'"
    if w: "batch_worked ok ok' boxed sz p inQ outQ batch sent1 batch1 Going inQ1 outQ1" for sent1 batch1 outQ1
  proof -
    have o: "q_inv outQ1" "int (length batch1) < max 1 sz" using w by (auto simp: batch_worked_def dest: sent_run_inv)
    obtain sent' batch' how inQ' outQ' where D: "batch_loop boxed sz p turns turns' batch1 inQ1 outQ1 = Some ((sent', batch', how), inQ', outQ')"
      "batch_worked ok ok' boxed sz p inQ1 outQ1 batch1 sent' batch' how inQ' outQ'"
      using Cons.IH [OF i1 o(1) _ Cons.prems(5,6) o(2)] Cons.prems(4) by auto
    show ?thesis using D batch_worked_trans [OF w D(2)] by simp
  qed
  show ?case
  proof (cases r)
    case None
    have n: "q_live p inQ1 \<longrightarrow> q_left p inQ1 = []" using TryRead_None_left [OF b, of clk 0 inQ1] r None by simp
    have R0: "ran ok p [] inQ inQ1" using R None by simp
    note N = batch_worked_none [OF R0 Cons.prems(3,7), of ok' boxed]
    show ?thesis
    proof (cases s)
      case UpstreamDone
      obtain sent' batch' how inQ' outQ' where D: "batch_drain boxed sz p turns' batch inQ1 outQ = Some ((sent', batch', how), inQ', outQ')"
        "batch_worked ok ok' boxed sz p inQ1 outQ batch sent' batch' how inQ' outQ'"
        using batch_drain_spec [OF i1 Cons.prems(3,5,6,7)] by blast
      show ?thesis using batch_worked_trans [OF N D(2)] x r None UpstreamDone D(1) by simp
    next
      case Tick
      obtain sent stuck outQ1 where F: "batch_flush boxed t batch outQ = Some ((sent, stuck), outQ1)"
        "batch_worked ok ok' boxed sz p inQ outQ batch sent (if stuck then batch else []) (if stuck then Stuck else Going) inQ1 outQ1"
        using batch_flush_worked [OF R0 Cons.prems(3) t Cons.prems(6,7), of Going] by auto
      then show ?thesis using x r None Tick rest [of sent "[]" outQ1] by (cases stuck) auto
    next
      case Nothing
      then show ?thesis using x r None rest [OF N] by (auto simp: option.map_comp comp_def)
    qed
  next
    case (Some d)
    have R1: "ran ok p [d] inQ inQ1" using R Some by simp
    obtain sent batch1 stuck outQ1 where I: "batch_item boxed sz t d batch outQ = Some ((sent, batch1, stuck), outQ1)"
      "batch_worked ok ok' boxed sz p inQ outQ batch sent batch1 (if stuck then Stuck else Going) inQ1 outQ1"
      using batch_item_spec [OF R1 Cons.prems(3) t Cons.prems(6,7)] by blast
    then show ?thesis using x r Some rest [of sent batch1 outQ1] by (cases stuck) auto
  qed
qed

end
