(* ===== verification/MQ_PipelineProps.thy ===== *)
theory MQ_PipelineProps
  imports MQ_Batches MQ_Text
begin

text \<open>
  The properties of the pipeline of \<^verbatim>\<open>examples/patterns/data_pipeline.go\<close>: what its stages carry, what is
  lost between them, and the stages of its \<^verbatim>\<open>main\<close>.
\<close>

section \<open>Map and Filter\<close>

text \<open>C30. A worker of \<^verbatim>\<open>Map\<close> works off its group's items. In any surroundings it does not panic unless its
  transformation does; what it sends are the results, not nil, of the items it read, in order; what of it
  \<^verbatim>\<open>Enqueue\<close> accepts is put into the output queue in this order, among what others put. When it returns
  and its source is still open, nothing is left for the group: its members have been given, in order and
  once, everything the group had left and everything put meanwhile, when nothing expired.\<close>

theorem map_worker_drains:
  assumes "q_reached evs0 inQ" and "q_live p inQ" and "c_group (cm_cstore (q_consumers inQ) p) = g" and "q_inv outQ"
    and "\<forall>x \<in> set turns. read_ok_turn ok ok' p x" and "\<forall>(clk, t) \<in> set turns'. turn_ok ok ok' p t"
    and "yields_ok transform" and "\<forall>outside x. transform outside x \<noteq> None"
  shows "\<exists>ds sent how inQ' outQ' evs evs'. map_phases transform p turns turns' inQ outQ = Some ((ds, sent, how), inQ', outQ')
    \<and> q_run inQ evs inQ' \<and> ds = given p None evs \<and> forwarded transform ds sent how
    \<and> q_run outQ evs' outQ' \<and> subseq (let_in sent) (map qd_Payload (puts evs'))
    \<and> (stays p evs \<longrightarrow> subseq (given p g evs @ q_left p inQ') (q_left p inQ @ puts evs)
        \<and> (how = Over \<longrightarrow> q_left p inQ' = [] \<and> (removed evs = 0 \<longrightarrow> given p g evs = q_left p inQ @ puts evs)))"
proof -
  note inv = q_reached_inv [OF assms(1)]
  have k: "q_known p inQ" using assms(2) by (simp add: q_live_def q_reader_def q_known_def)
  note M = map_phases_spec [OF inv k assms(4-7)]
  obtain ds sent how inQ' outQ' where R: "map_phases transform p turns turns' inQ outQ = Some ((ds, sent, how), inQ', outQ')"
    using M assms(8) by (cases "map_phases transform p turns turns' inQ outQ") auto
  have W: "worked ok ok' transform p inQ outQ ds sent how inQ' outQ'"
    "how = Over \<longrightarrow> \<not> c_HasMoreData (q_closed inQ') (q_data inQ') (q_reading p inQ')" using M R by auto
  obtain evs where e: "q_inv inQ'" "q_run inQ evs inQ'" "given p None evs = ds" using W(1) by (auto simp: worked_def ran_def)
  obtain evs' where e': "q_run outQ evs' outQ'" "subseq (let_in sent) (map qd_Payload (puts evs'))"
    using W(1) by (auto simp: worked_def sent_run_def)
  have "subseq (given p g evs @ q_left p inQ') (q_left p inQ @ puts evs)
      \<and> (how = Over \<longrightarrow> q_left p inQ' = [] \<and> (removed evs = 0 \<longrightarrow> given p g evs = q_left p inQ @ puts evs))" if s: "stays p evs"
    using run_reader [OF e(2) inv assms(2) s assms(3)] live_more [OF e(1)] W(2) by auto
  moreover have "forwarded transform ds sent how" using W(1) by (simp add: worked_def)
  ultimately show ?thesis using R e(2,3) e' by metis
qed

text \<open>Surroundings in which nothing else happens.\<close>

definition idle_turn :: "'o \<Rightarrow> 'o stage_turn" where
  "idle_turn outside = \<lparr>tu_outside = outside, tu_before = \<lambda>q. q, tu_more = \<lambda>q. q, tu_out = \<lambda>q. q, tu_now = 9, tu_env = []\<rparr>"

lemma others_run_id [simp]: "others_run ok p (\<lambda>q. q)"
  by (auto simp: others_run_def intro: exI [of _ "[]"])

lemma idle_turn_ok [simp]: "turn_ok ok ok' p (idle_turn outside)"
  by (simp add: turn_ok_def idle_turn_def)

lemma ex_member_reached: "q_reached [Quiet, Put [ex_item], Quiet, Quiet] ex_member"
  by (rule ex_reachedI, rule q_run.go [OF ex_steps(1) q_run.go [OF ex_steps(2) q_run.go [OF q_step.new_group [OF ex_group_eq]
        q_run.go [OF q_step.join_group [OF ex_member_pre ex_member_eq] q_run.stop]]]])

theorem map_worker_drains_witness:
  "\<exists>ds sent how inQ' outQ' evs. map_phases (\<lambda>_ _. Some (PString ''x'')) 1 [((\<lambda>_ _. 7, Some ContextCanceled, []), idle_turn ())]
       [(\<lambda>_. 7, idle_turn ()), (\<lambda>_. 7, idle_turn ())] ex_member ex_new = Some ((ds, sent, how), inQ', outQ')
     \<and> q_run ex_member evs inQ' \<and> given 1 None evs = ds \<and> forwarded (\<lambda>(_ :: unit) _. Some (PString ''x'')) ds sent how"
proof -
  have y: "yields_ok (\<lambda>(_ :: unit) _. Some (PString ''x''))" by (simp add: yields_ok_def MaxInt64_def)
  have t: "\<forall>x \<in> set [((\<lambda>_ _. 7, Some ContextCanceled, []), idle_turn ())]. read_ok_turn (\<lambda>_. True) (\<lambda>_. True) 1 x"
    "\<forall>(clk, t) \<in> set [(\<lambda>_. 7 :: int, idle_turn ()), (\<lambda>_. 7, idle_turn ())]. turn_ok (\<lambda>_. True) (\<lambda>_. True) 1 t"
    by (simp_all add: read_ok_turn_def)
  show ?thesis
    using map_worker_drains [OF ex_member_reached ex_member_inv(3,6) ex_new_inv(1) t y] by blast
qed

text \<open>A filter forwards the items that satisfy the predicate, as they are; nil is dropped too.\<close>

lemma filter_forwards:
  assumes "forwarded (filter_transform predicate :: 'o \<Rightarrow> _) ds sent how" "how \<noteq> Stuck"
  shows "map fst sent = filter (\<lambda>x. x \<noteq> PNil \<and> predicate x = Some True) (map qd_Payload ds)"
proof -
  obtain rs where rs: "list_all2 (\<lambda>d r. \<exists>outside :: 'o. filter_transform predicate outside (qd_Payload d) = Some r) ds rs"
    "map fst sent = filter (\<lambda>r. r \<noteq> PNil) rs" using assms by (auto simp: forwarded_def)
  have "filter (\<lambda>r. r \<noteq> PNil) rs = filter (\<lambda>x. x \<noteq> PNil \<and> predicate x = Some True) (map qd_Payload ds)"
    using rs(1)
  proof (induction rule: list_all2_induct)
    case (Cons d ds r rs)
    obtain b where "predicate (qd_Payload d) = Some b" "r = (if b then qd_Payload d else PNil)"
      using Cons.hyps(1) by (auto simp: filter_transform_def)
    then show ?case using Cons.IH by auto
  qed simp
  then show ?thesis using rs(2) by simp
qed

text \<open>
  The second phase ends: when the others leave the source alone, as many turns as there are items left,
  and one, are enough, unless the worker is blocked.
\<close>

lemma map_drain_ends:
  assumes "q_inv inQ" "q_live p inQ" "length (q_left p inQ) < length turns"
    "\<forall>(clk, t) \<in> set turns. tu_before t = (\<lambda>q. q) \<and> tu_more t = (\<lambda>q. q)"
    "map_drain transform p turns inQ outQ = Some ((ds, sent, how), inQ', outQ')"
  shows "how \<noteq> Going"
  using assms
proof (induction turns arbitrary: inQ outQ ds sent)
  case (Cons x turns)
  obtain clk t where x: "x = (clk, t)" by (cases x) auto
  have t: "tu_before t = (\<lambda>q. q)" "tu_more t = (\<lambda>q. q)" using Cons.prems(4) x by auto
  obtain q' where r: "q_TryRead clk 0 p inQ = Some (if q_left p inQ = [] then None else Some (hd (q_left p inQ)), q')"
    "consumed p (take 1 (q_left p inQ)) (tl (q_left p inQ)) inQ q'"
    by (rule q_TryRead_consumed [OF Cons.prems(1,2)])
  have q': "q_inv q'" "q_live p q'" "q_left p q' = tl (q_left p inQ)" using r(2) Cons.prems(2) by (auto simp: consumed_def same_cursor_def)
  show ?case
  proof (cases "q_left p inQ")
    case Nil
    then show ?thesis using Cons.prems(5) x t r(1) live_more [OF q'(1,2)] q'(3) by simp
  next
    case (Cons d rest)
    then show ?thesis
      using Cons.prems(3-5) Cons.IH [OF q'(1,2)] q'(3) x t r(1)
      by (auto split: option.splits if_splits)
  qed
qed simp

section \<open>Batch\<close>

text \<open>C31. \<^verbatim>\<open>Batch\<close> keeps the items. In any surroundings the goroutine does not panic; the batches it sends,
  joined, followed by the one it has begun, are the items it read, in order and once; no batch is empty
  or larger than asked for (one item, when less is asked for); those accepted are put into the output
  queue in this order. When it ends nothing is held back, and if its source was not closed nothing is
  left: the batches are all that its consumer had left and all that was put, when nothing expired.\<close>

theorem batches_are_items:
  assumes "q_reached evs0 inQ" and "q_live p inQ" and "c_group (cm_cstore (q_consumers inQ) p) = None" and "q_inv outQ"
    and "\<forall>(clk, s, t) \<in> set turns. turn_ok ok ok' p t" and "\<forall>(clk, t) \<in> set turns'. turn_ok ok ok' p t" and "boxes_ok boxed"
  shows "\<exists>sent batch how inQ' outQ' evs evs'. batch_loop boxed batchSize p turns turns' [] inQ outQ = Some ((sent, batch, how), inQ', outQ')
    \<and> q_run inQ evs inQ' \<and> concat (map fst sent) @ batch = map qd_Payload (given p None evs)
    \<and> (\<forall>b \<in> fst ` set sent. b \<noteq> [] \<and> int (length b) \<le> max 1 batchSize)
    \<and> q_run outQ evs' outQ' \<and> subseq (map boxed (let_in sent)) (map qd_Payload (puts evs'))
    \<and> (how = Over \<longrightarrow> batch = []
        \<and> (stays p evs \<and> removed evs = 0 \<longrightarrow> concat (map fst sent) = map qd_Payload (q_left p inQ @ puts evs)))"
proof -
  note inv = q_reached_inv [OF assms(1)]
  have k: "q_known p inQ" using assms(2) by (simp add: q_live_def q_reader_def q_known_def)
  have s: "int (length ([] :: payload list)) < max 1 batchSize" by (simp add: max_def)
  obtain sent batch how inQ' outQ' where R: "batch_loop boxed batchSize p turns turns' [] inQ outQ = Some ((sent, batch, how), inQ', outQ')"
    "batch_worked ok ok' boxed batchSize p inQ outQ [] sent batch how inQ' outQ'"
    using batch_loop_spec [OF inv k assms(4-7) s] by blast
  obtain evs where e: "q_run inQ evs inQ'" "concat (map fst sent) @ batch = map qd_Payload (given p None evs)"
    using R(2) by (auto simp: batch_worked_def ran_def)
  obtain evs' where e': "q_run outQ evs' outQ'" "subseq (map boxed (let_in sent)) (map qd_Payload (puts evs'))"
    using R(2) by (auto simp: batch_worked_def sent_run_def)
  have "concat (map fst sent) = map qd_Payload (q_left p inQ @ puts evs)" if "how = Over" "stays p evs" "removed evs = 0"
  proof -
    have l: "q_live p inQ'" "given p None evs @ q_left p inQ' = q_left p inQ @ puts evs"
      using run_reader [OF e(1) inv assms(2) that(2) assms(3)] that(3) by simp_all
    moreover have "batch = []" "q_left p inQ' = []" using R(2) that(1) l(1) by (simp_all add: batch_worked_def)
    ultimately show ?thesis using e(2) by simp
  qed
  then show ?thesis using R(1) e e' R(2) unfolding batch_worked_def
    by (intro exI [of _ sent] exI [of _ batch] exI [of _ how] exI [of _ inQ'] exI [of _ outQ'] exI [of _ evs] exI [of _ evs']) auto
qed

text \<open>The value of a batch of strings: an array of interfaces, at some address.\<close>

definition box_strings :: "payload list \<Rightarrow> payload" where
  "box_strings b =
     PValue [(1, map (\<lambda>x. VInterface (TInterface ''interface {}'')
                 (case x of PString s \<Rightarrow> if int (length s) \<le> MaxInt64 then Some (VString (TString ''string'') (length s)) else None
                          | _ \<Rightarrow> None)) b)]
       (VSlice (TSlice ''[]interface {}'' KInterface 16) (Some 1) (length b)) CNil"

lemma box_strings_ok: "boxes_ok box_strings"
  by (auto simp: boxes_ok_def box_strings_def heap_ok_def split: payload.split)

theorem batches_are_items_witness:
  "\<exists>sent batch how inQ' outQ' evs. batch_loop box_strings 2 0 [(\<lambda>_. 7, Nothing, idle_turn ()), (\<lambda>_. 7, UpstreamDone, idle_turn ())]
       [(\<lambda>_. 7, idle_turn ())] [] ex_stored ex_new = Some ((sent, batch, how), inQ', outQ')
     \<and> q_run ex_stored evs inQ' \<and> concat (map fst sent) @ batch = map qd_Payload (given 0 None evs)"
proof -
  have t: "\<forall>(clk, s, t) \<in> set [(\<lambda>_. 7 :: int, Nothing, idle_turn ()), (\<lambda>_. 7, UpstreamDone, idle_turn ())].
      turn_ok (\<lambda>_. True) (\<lambda>_. True) 0 t" "\<forall>(clk, t) \<in> set [(\<lambda>_. 7 :: int, idle_turn ())]. turn_ok (\<lambda>_. True) (\<lambda>_. True) 0 t"
    by simp_all
  show ?thesis
    using batches_are_items [OF ex_reached(3) ex_stored_inv(2) ex_own(2) ex_new_inv(1) t box_strings_ok, of 2]
    by (elim exE conjE, intro exI conjI)
qed

section \<open>What is lost between stages\<close>

lemma publish_spec:
  assumes "q_inv q" "\<forall>(item, f, now, env) \<in> set items. payload_ok item \<and> outside_run ok f \<and> (\<forall>g \<in> snd ` set env. outside_run ok g)"
  shows "\<exists>sent out how q'. pipe_publish name items q = Some ((sent, out, how), q') \<and> sent_run ok (let_in sent) q q'
    \<and> prefix (map fst sent) (map fst items) \<and> (how = Over \<longrightarrow> map fst sent = map fst items)"
  using assms
proof (induction items arbitrary: q)
  case Nil
  then show ?case by (simp add: sent_run_refl)
next
  case (Cons x items)
  obtain item f now env where x: "x = (item, f, now, env)" by (cases x) auto
  have p: "payload_ok item" "outside_run ok f" "\<forall>g \<in> snd ` set env. outside_run ok g" using Cons.prems(2) x by auto
  have F: "sent_run ok [] q (f q)" by (rule sent_outside [OF p(2) Cons.prems(1)])
  obtain res q1 where E: "q_Enqueue item now env (f q) = Some (res, q1)" "sent_run ok (if res = Returned None then [item] else []) (f q) q1"
    using sent_Enqueue [OF sent_run_inv [OF F] p(1,3)] by blast
  have E': "sent_run ok (if res = Returned None then [item] else []) q q1" using sent_run_trans [OF F E(2)] by simp
  show ?case
  proof (cases res)
    case (Returned err)
    obtain sent out how q' where L: "pipe_publish name items q1 = Some ((sent, out, how), q')" "sent_run ok (let_in sent) q1 q'"
      "prefix (map fst sent) (map fst items)" "how = Over \<longrightarrow> map fst sent = map fst items"
      using Cons.IH [OF sent_run_inv [OF E']] Cons.prems(2) by auto
    have "sent_run ok (let_in ((item, err) # sent)) q q'"
      using sent_run_trans [OF E' L(2)] Returned let_in_simps(2) [of "[(item, err)]" sent] by (cases err) auto
    then show ?thesis using x E(1) Returned L by auto
  qed (use x E(1) E' in simp)
qed

lemma closed_more:
  assumes inv: "q_inv q" and c: "q_closed q" and k: "q_known p q"
  shows "\<not> c_HasMoreData (q_closed q) (q_data q) (q_reading p q)"
proof (cases "c_closed (cm_cstore (q_consumers q) p)")
  case False
  then have "p \<in> snd ` set (cm_consumers (q_consumers q))" using k by (simp add: q_known_def)
  then have "c_group (cm_cstore (q_consumers q) p) \<noteq> None \<or> c_chunkElement (cm_cstore (q_consumers q) p) = None"
    using inv c False unfolding q_inv_def Let_def by fastforce
  moreover have "cl_IsEmpty (q_data q)" using q_invD(10,1) [OF inv] c by (simp add: cl_IsEmpty_def cl_inv_def cl_items_def)
  ultimately show ?thesis using c by (cases "c_group (cm_cstore (q_consumers q) p)") (auto simp: c_HasMoreData_def q_reading_def cg_HasMoreData_def)
qed (simp add: c_HasMoreData_def q_reading_def)

text \<open>C32. Closing a stage throws away what its readers have not read. The source closes its queue as soon as
  its generator has returned, whatever of the published items is still to be read: the queue is empty
  and closed then, and from this moment a worker of the next stage reads nothing, in neither phase, nor
  does one of the sink.\<close>

theorem closed_source_loses:
  assumes "q_inv q" and "\<forall>(item, f, now, env) \<in> set items. payload_ok item \<and> outside_run ok f \<and> (\<forall>g \<in> snd ` set env. outside_run ok g)"
    and "outside_run ok others"
  shows "\<exists>sent out how q'. pipe_Generate name items others q = Some ((sent, out, how), q')
    \<and> (how = Over \<longrightarrow> map fst sent = map fst items \<and> q_items q' = [] \<and> q_closed q'
        \<and> (\<forall>p transform clk clk' ctx c env t turns turns' turns'' outQ. q_known p q' \<and> tu_before t q' = q' \<and> tu_more t q' = q' \<longrightarrow>
              map_read transform p (((clk, ctx, (c, Stopped, \<lambda>q. q) # env), t) # turns) q' outQ = Some (([], [], Over), q', outQ)
            \<and> map_drain transform p ((clk', t) # turns') q' outQ = Some (([], [], Over), q', outQ)
            \<and> sink_worker clk p (([(Stopped, \<lambda>q. q)], tu_before t) # turns'') q' = Some (([], True), q')))"
proof -
  obtain sent out how q1 where P: "pipe_publish name items q = Some ((sent, out, how), q1)" "sent_run ok (let_in sent) q q1"
    "how = Over \<longrightarrow> map fst sent = map fst items"
    using publish_spec [OF assms(1,2), of name] by blast
  show ?thesis
  proof (cases "how = Over")
    case True
    have "q_inv (others q1)" using sent_run_inv [OF sent_outside [OF assms(3) sent_run_inv [OF P(2)]]] .
    then obtain q' where C: "q_Close (others q1) = Some q'" "q_inv q'" "q_closed q'" "q_items q' = []"
      by (rule q_Close_spec) blast
    have dead: "q_TryRead clk k p q' = Some (None, q')" if "q_known p q'" for clk k p
      by (rule q_TryRead_dead [OF C(2) that]) (simp add: q_live_def C(3))
    note more = closed_more [OF C(2,3)]
    show ?thesis
      using P C(1,3,4) True dead more
      by (auto simp: pipe_Generate_def c_ReadWithContext.simps c_Read.simps)
  qed (use P in \<open>simp add: pipe_Generate_def\<close>)
qed

theorem closed_source_loses_witness:
  "\<exists>q'. pipe_Generate ''s'' [(PString ''y'', \<lambda>q. q, 6, [])] (\<lambda>q. q) ex_stored = Some (([(PString ''y'', None)], [], Over), q')
     \<and> q_items q' = [] \<and> map_drain (\<lambda>_. Some) 0 [(\<lambda>_. 7, idle_turn ())] q' ex_new = Some (([], [], Over), q', ex_new)"
proof -
  have "fst (the (pipe_Generate ''s'' [(PString ''y'', \<lambda>q. q, 6, [])] (\<lambda>q. q) ex_stored)) = ([(PString ''y'', None)], [], Over)"
    by code_simp
  moreover have "cm_consumers (q_consumers (snd (the (pipe_Generate ''s'' [(PString ''y'', \<lambda>q. q, 6, [])] (\<lambda>q. q) ex_stored)))) = [(''c1'', 0)]"
    by code_simp
  moreover have "\<forall>(item, f, now, env) \<in> set [(PString ''y'', \<lambda>q. q, 6 :: int, [])].
      payload_ok item \<and> outside_run (\<lambda>_. True) f \<and> (\<forall>g \<in> snd ` set env. outside_run (\<lambda>_. True) g)" by (simp add: MaxInt64_def)
  note C = closed_source_loses [OF ex_stored_inv(1) this outside_run_id, of "''s''", where 'a = unit]
  obtain q' where q': "pipe_Generate ''s'' [(PString ''y'', \<lambda>q. q, 6, [])] (\<lambda>q. q) ex_stored = Some (([(PString ''y'', None)], [], Over), q')"
    using C calculation(1) by auto
  then have known: "q_known 0 q' \<and> tu_before (idle_turn ()) q' = q' \<and> tu_more (idle_turn ()) q' = q'"
    using calculation(2) by (simp add: q_known_def idle_turn_def)
  have "map_drain (\<lambda>_. Some) 0 [(\<lambda>_. 7, idle_turn ())] q' ex_new = Some (([], [], Over), q', ex_new)" "q_items q' = []"
    using C q' known by (elim exE conjE; simp del: map_read.simps map_drain.simps sink_worker.simps; blast)+
  then show ?thesis using q' by blast
qed

section \<open>The stages of the example\<close>

text \<open>The lines the generator of \<^verbatim>\<open>main\<close> publishes.\<close>

definition gen_level :: "nat \<Rightarrow> string" where
  "gen_level i = [''INFO'', ''DEBUG'', ''ERROR'', ''WARN''] ! (i mod 4)"

definition gen_line :: "nat \<Rightarrow> string" where
  "gen_line i = gen_level i @ ''|Log message #'' @ show_nat i @ ''|user-'' @ show_nat (i mod 5)"

definition gen_items :: "payload list" where
  "gen_items = map (\<lambda>i. PString (gen_line i)) [0..<100]"

text \<open>
  The parser. What it takes from outside: the time, how the value of \<^verbatim>\<open>time.Now\<close> looks to \<^verbatim>\<open>reflect\<close>, and the
  address of the new map.
\<close>

record moment =
  mo_now :: time
  mo_time :: gval
  mo_heap :: gheap
  mo_tags :: addr

fun strings_Split :: "string \<Rightarrow> char \<Rightarrow> string list" where
  "strings_Split [] sep = [[]]"
| "strings_Split (c # s) sep =
     (if c = sep then [] # strings_Split s sep
      else (case strings_Split s sep of [] \<Rightarrow> [[c]] | w # ws \<Rightarrow> (c # w) # ws))"

definition log_entry_payload :: "moment \<Rightarrow> string \<Rightarrow> string \<Rightarrow> (string \<times> string) list \<Rightarrow> payload" where
  "log_entry_payload m level message tags =
     PValue (mo_heap m)
       (VStruct (TStruct ''main.LogEntry'' 64
            [rv_Type (mo_time m), TString ''string'', TString ''string'', TMap ''map[string]string''])
          [mo_time m, VString (TString ''string'') (length level), VString (TString ''string'') (length message),
           VMap (TMap ''map[string]string'') (Some (mo_tags m))])
       (CStruct ''main.LogEntry'' [CTime (mo_now m), CString level, CString message, CMap tags])"

text \<open>An item that is not a string makes the type assertion panic.\<close>

definition parse_log :: "moment \<Rightarrow> payload \<Rightarrow> payload option" where
  "parse_log m item =
     (case item of
        PString s \<Rightarrow>
          let parts = strings_Split s CHR ''|''
          in if length parts \<noteq> 3 then Some PNil
             else Some (log_entry_payload m (parts ! 0) (parts ! 1) [(''user'', parts ! 2)])
      | _ \<Rightarrow> None)"

definition log_level :: "payload \<Rightarrow> string option" where
  "log_level item =
     (case item of
        PValue h v (CStruct name [CTime t, CString level, CString message, CMap tags]) \<Rightarrow>
          if name = ''main.LogEntry'' then Some level else None
      | _ \<Rightarrow> None)"

definition not_debug :: "payload \<Rightarrow> bool option" where
  "not_debug item = map_option (\<lambda>level. level \<noteq> ''DEBUG'') (log_level item)"

text \<open>A moment as Go presents it: the map is new, so nothing else refers to it.\<close>

definition moment_ok :: "moment \<Rightarrow> bool" where
  "moment_ok m \<longleftrightarrow> heap_ok (mo_heap m) \<and> heap_apart {mo_tags m} (mo_heap m)
     \<and> well_typed (mo_time m) \<and> mo_time m \<noteq> VInvalid \<and> apart {mo_tags m} (mo_time m)"

text \<open>The parser on values as Go has them, with a moment for each call.\<close>

definition go_parse :: "(nat \<Rightarrow> moment) \<Rightarrow> nat \<Rightarrow> payload \<Rightarrow> payload option" where
  "go_parse moments i item = (if payload_ok item then parse_log (moments i) item else None)"

lemma Split_length: "w \<in> set (strings_Split s sep) \<Longrightarrow> length w \<le> length s"
  by (induction s sep arbitrary: w rule: strings_Split.induct) (fastforce split: if_splits list.splits)+

lemma parse_log_ok:
  assumes "moment_ok m" "payload_ok item" "parse_log m item = Some r"
  shows "payload_ok r" "r \<noteq> PNil \<Longrightarrow> holds_map {mo_tags m} r"
proof -
  obtain s where s: "item = PString s" using assms(3) by (auto simp: parse_log_def split: payload.splits)
  let ?parts = "strings_Split s CHR ''|''"
  have len: "int (length w) \<le> MaxInt64" if "w \<in> set ?parts" for w
    using Split_length [OF that] assms(2) s by simp
  have r: "r = PNil \<or> length ?parts = 3 \<and> r = log_entry_payload m (?parts ! 0) (?parts ! 1) [(''user'', ?parts ! 2)]"
    using assms(3) s by (auto simp: parse_log_def Let_def split: if_splits)
  show "payload_ok r"
  proof (cases "r = PNil")
    case False
    then have p: "length ?parts = 3" "r = log_entry_payload m (?parts ! 0) (?parts ! 1) [(''user'', ?parts ! 2)]" using r by simp_all
    have "?parts ! 0 \<in> set ?parts" "?parts ! 1 \<in> set ?parts" using p(1) by simp_all
    then show ?thesis using p(2) len assms(1) by (simp add: log_entry_payload_def moment_ok_def)
  qed simp
  assume "r \<noteq> PNil"
  then have p: "r = log_entry_payload m (?parts ! 0) (?parts ! 1) [(''user'', ?parts ! 2)]" using r by simp
  then show "holds_map {mo_tags m} r"
    using assms(1) unfolding p log_entry_payload_def holds_map.simps
    by (intro conjI disjI1 exI [of _ "Suc 0"]) (auto simp: moment_ok_def)
qed

text \<open>C33. The example prints nothing. Every log entry holds a map, whose size the queue takes for \<open>2 ^ 40\<close>
  bytes, so in a queue with a smaller limit (the default is one mebibyte) every \<^verbatim>\<open>Enqueue\<close> of the parser
  is refused at once, in any surroundings, and its workers ignore the error: a worker of the parser is
  never blocked, and puts nothing into the queue the next stage reads.\<close>

theorem parser_forwards_nothing:
  assumes "q_inv inQ" and "q_known p inQ" and "q_inv outQ" and "q_limit outQ < 2 ^ 40" and "\<forall>i. moment_ok (moments i)"
    and "\<forall>x \<in> set turns. read_ok_turn ok ok' p x" and "\<forall>(clk, t) \<in> set turns'. turn_ok ok ok' p t"
    and "map_phases (go_parse moments) p turns turns' inQ outQ = Some ((ds, sent, how), inQ', outQ')"
  shows "(\<forall>(r, err) \<in> set sent. err \<noteq> None) \<and> how \<noteq> Stuck
    \<and> (\<exists>evs. q_run outQ evs outQ' \<and> ((\<forall>ev. ok' ev \<longrightarrow> puts [ev] = []) \<longrightarrow> puts evs = []))"
proof -
  have y: "yields_ok (go_parse moments)"
    unfolding yields_ok_def go_parse_def using parse_log_ok(1) assms(5) by (auto split: if_splits)
  have W: "worked ok ok' (go_parse moments) p inQ outQ ds sent how inQ' outQ'"
    using map_phases_spec [OF assms(1-3,6,7) y] assms(8) by simp
  have R: "\<exists>err. out = Returned (Some err)" if r: "result_of (go_parse moments) r" and a: "enqueue_at ok' outQ r out" for r out
  proof -
    obtain i x where x: "go_parse moments i x = Some r" "r \<noteq> PNil" using r by (auto simp: result_of_def)
    then have x': "payload_ok x" "parse_log (moments i) x = Some r" by (auto simp: go_parse_def split: if_splits)
    note L = parse_log_ok [OF assms(5) [rule_format] x'] x(2)
    obtain ps q now env q' where q: "sent_run ok' ps outQ q" "q_Enqueue r now env q = Some (out, q')"
      using a by (auto simp: enqueue_at_def)
    have inv: "q_inv q" and "q_limit q = q_limit outQ"
      using sent_run_inv [OF q(1)] q_run_limit [OF _ assms(3)] q(1) by (auto simp: sent_run_def)
    then have lim: "mt_maxMemory (q_memoryTracker q) < 2 ^ 40" using assms(4) by (simp add: q_limit_def)
    show ?thesis
    proof (cases "q_closed q")
      case False
      have "\<exists>e q''. q_Enqueue r now env q = Some (Returned (Some e), q'')"
        using map_refused(2) [OF inv False L(1) L(2) [OF L(3)] lim, of now env] by blast
      then show ?thesis using q(2) by auto
    qed (use q(2) in \<open>auto simp: q_Enqueue_def\<close>)
  qed
  have e: "\<forall>(r, err) \<in> set sent. err \<noteq> None" "how \<noteq> Stuck"
    using W R unfolding worked_def answered_def by fastforce+
  then have "let_in sent = []" by (auto simp: let_in_def filter_empty_conv)
  then show ?thesis using e W by (auto simp: worked_def sent_run_def)
qed

text \<open>A queue with one of the lines.\<close>

definition ex_line :: queue where
  "ex_line = snd (the (q_TryEnqueue (PString (gen_line 0)) 5 ex_joined))"

definition ex_moment :: moment where
  "ex_moment = \<lparr>mo_now = 3, mo_time = VStruct (TStruct ''time.Time'' 24 [TScalar ''uint64'' KUint64, TScalar ''int64'' KInt64, TPointer ''*time.Location''])
     [VScalar (TScalar ''uint64'' KUint64), VScalar (TScalar ''int64'' KInt64), VPointer (TPointer ''*time.Location'') None],
     mo_heap = [], mo_tags = 7\<rparr>"

lemma ex_line_facts: "q_inv ex_line" "q_known 0 ex_line" "q_live 0 ex_line"
  "\<exists>d. q_left 0 ex_line = [d] \<and> qd_Payload d = PString (gen_line 0)"
proof -
  have ok: "payload_ok (PString (gen_line 0))" by (simp add: gen_line_def gen_level_def show_nat.simps MaxInt64_def)
  obtain d err q' where T: "q_TryEnqueue (PString (gen_line 0)) 5 ex_joined = Some (err, q')" "new_item (PString (gen_line 0)) ex_joined 5 d"
    "q_at_limit ex_joined \<Longrightarrow> err = Some (QueueFullError (q_maxItems ex_joined))"
    "\<not> q_at_limit ex_joined \<Longrightarrow> \<not> q_room (qd_size d) ex_joined \<Longrightarrow> err \<noteq> None"
    "\<not> q_at_limit ex_joined \<Longrightarrow> q_room (qd_size d) ex_joined \<Longrightarrow> stored [d] ex_joined q'"
    by (rule q_TryEnqueue_open [OF ex_joined_inv(1,5) ok, of 5]) blast
  have "fst (the (q_TryEnqueue (PString (gen_line 0)) 5 ex_joined)) = None" by code_simp
  then have "stored [d] ex_joined ex_line" using T by (auto simp: ex_line_def)
  then show "q_inv ex_line" "q_live 0 ex_line" "\<exists>d. q_left 0 ex_line = [d] \<and> qd_Payload d = PString (gen_line 0)"
    using ex_joined_inv(2,3) T(2) by (auto simp: stored_def q_live_def new_item_def)
  then show "q_known 0 ex_line" by (simp add: q_live_def q_reader_def q_known_def)
qed

theorem parser_forwards_nothing_witness:
  "\<exists>d r err inQ' outQ'. map_phases (go_parse (\<lambda>_. ex_moment)) 0 [((\<lambda>_ _. 7, Some ContextCanceled, []), idle_turn 0)]
       [(\<lambda>_. 7, idle_turn 0)] ex_line ex_new = Some (([d], [(r, Some err)], Going), inQ', outQ')
     \<and> qd_Payload d = PString (gen_line 0) \<and> r = log_entry_payload ex_moment ''INFO'' ''Log message #0'' [(''user'', ''user-0'')]"
proof -
  let ?t = "idle_turn 0 :: nat stage_turn"
  let ?r = "log_entry_payload ex_moment ''INFO'' ''Log message #0'' [(''user'', ''user-0'')]"
  let ?m = "map_phases (go_parse (\<lambda>_. ex_moment)) 0 [((\<lambda>_ _. 7, Some ContextCanceled, []), ?t)] [(\<lambda>_. 7, ?t)] ex_line ex_new"
  have m: "moment_ok ex_moment"
    by (simp add: moment_ok_def ex_moment_def heap_ok_def heap_apart_def less_eq_kind_def)
  have ok: "payload_ok (PString (gen_line 0))" by (simp add: gen_line_def gen_level_def show_nat.simps MaxInt64_def)
  have "parse_log ex_moment (PString (gen_line 0)) = Some ?r" by code_simp
  then have p: "go_parse (\<lambda>_. ex_moment) 0 (PString (gen_line 0)) = Some ?r" using ok by (simp add: go_parse_def)
  obtain d where d: "q_left 0 ex_line = [d]" "qd_Payload d = PString (gen_line 0)" using ex_line_facts(4) by blast
  obtain inQ' where T: "q_TryRead (\<lambda>_. 7) 0 0 ex_line = Some (Some d, inQ')"
    using q_TryRead_consumed [OF ex_line_facts(1,3), of "\<lambda>_. 7" 0] d(1) by auto
  have rok: "payload_ok ?r" by (rule parse_log_ok(1) [OF m ok \<open>parse_log ex_moment (PString (gen_line 0)) = Some ?r\<close>])
  obtain out outQ' where E: "q_Enqueue ?r 9 [] ex_new = Some (out, outQ')"
    using sent_Enqueue [OF ex_new_inv(1) rok, of "[]" "\<lambda>_. True" 9] by auto
  have lim: "q_limit ex_new < 2 ^ 40" by code_simp
  note P = parser_forwards_nothing [OF ex_line_facts(1,2) ex_new_inv(1) lim, of "\<lambda>_. ex_moment"
      "[((\<lambda>_ _. 7, Some ContextCanceled, []), ?t)]" "\<lambda>_. True" "\<lambda>_. True" "[(\<lambda>_. 7, ?t)]"]
  have M: "?m = Some (([d], case out of Returned err \<Rightarrow> [(?r, err)] | Blocked \<Rightarrow> [], case out of Returned err \<Rightarrow> Going | Blocked \<Rightarrow> Stuck), inQ', outQ')"
    using T p E d(2) by (cases out) (simp_all add: map_phases_def c_ReadWithContext.simps map_item_def idle_turn_def log_entry_payload_def)
  show ?thesis
    using P [OF _ _ _ M] m M d(2) by (cases out) (auto simp: read_ok_turn_def)
qed

end
