(* ===== verification/MQ_Requests.thy ===== *)
theory MQ_Requests
  imports MQ_Calm MQ_MapPayload MQ_Text
begin

text \<open>
  \<^verbatim>\<open>examples/patterns/request_response.go\<close>: the goroutine that answers requests, with the response
  queues behind the pointers the requests carry, and a goroutine that sends requests and waits for
  their responses. A goroutine gets, for each round of its loop, what the clocks show and what the rest
  of the program does to the queues around it; what it prints is part of the result.
\<close>

section \<open>Requests and responses\<close>

record request =
  rq_ID :: string
  rq_Operation :: string
  rq_Data :: content
  rq_ResponseQueue :: "addr option"

text \<open>What \<^verbatim>\<open>processRequest\<close> makes: a number, or a text.\<close>

type_synonym calculation = "int + string"

record response =
  rs_RequestID :: string
  rs_Result :: calculation

abbreviation (input) go_string :: "string \<Rightarrow> gval" where
  "go_string s \<equiv> VString (TString ''string'') (length s)"

text \<open>
  The payload of a request as \<^verbatim>\<open>requester\<close> makes it, with a number in \<^verbatim>\<open>Data\<close>; \<open>h\<close> is what \<^verbatim>\<open>reflect\<close>
  sees behind its pointer to the response queue.
\<close>

definition request_payload :: "gheap \<Rightarrow> string \<Rightarrow> string \<Rightarrow> int \<Rightarrow> addr \<Rightarrow> payload" where
  "request_payload h uid operation data responseQueue =
     PValue h
       (VStruct (TStruct ''main.Request'' 56 [TString ''string'', TString ''string'', TInterface ''interface {}'', TPointer ''*queue.Queue''])
          [go_string uid, go_string operation, VInterface (TInterface ''interface {}'') (Some (VScalar (TScalar ''int'' KInt))),
           VPointer (TPointer ''*queue.Queue'') (Some responseQueue)])
       (CStruct ''main.Request'' [CString uid, CString operation, CInt data, CPointer responseQueue])"

fun as_request :: "payload \<Rightarrow> request option" where
  "as_request (PValue h v (CStruct name [CString uid, CString operation, data, pointer])) =
     (if name \<noteq> ''main.Request'' then None
      else (case pointer of
         CPointer a \<Rightarrow> Some \<lparr>rq_ID = uid, rq_Operation = operation, rq_Data = data, rq_ResponseQueue = Some a\<rparr>
       | CNil \<Rightarrow> Some \<lparr>rq_ID = uid, rq_Operation = operation, rq_Data = data, rq_ResponseQueue = None\<rparr>
       | _ \<Rightarrow> None))"
| "as_request _ = None"

lemma as_request_payload [simp]:
  "as_request (request_payload h uid operation data a) =
     Some \<lparr>rq_ID = uid, rq_Operation = operation, rq_Data = CInt data, rq_ResponseQueue = Some a\<rparr>"
  by (simp add: request_payload_def)

fun calculation_value :: "calculation \<Rightarrow> gval" where
  "calculation_value (Inl n) = VScalar (TScalar ''int'' KInt)"
| "calculation_value (Inr s) = go_string s"

fun calculation_content :: "calculation \<Rightarrow> content" where
  "calculation_content (Inl n) = CInt n"
| "calculation_content (Inr s) = CString s"

text \<open>The error of a response is always nil.\<close>

definition response_payload :: "response \<Rightarrow> payload" where
  "response_payload r =
     PValue []
       (VStruct (TStruct ''main.Response'' 48 [TString ''string'', TInterface ''interface {}'', TInterface ''error''])
          [go_string (rs_RequestID r), VInterface (TInterface ''interface {}'') (Some (calculation_value (rs_Result r))),
           VInterface (TInterface ''error'') None])
       (CStruct ''main.Response'' [CString (rs_RequestID r), calculation_content (rs_Result r), CNil])"

fun as_response :: "payload \<Rightarrow> response option" where
  "as_response (PValue h v (CStruct name [CString uid, CInt n, CNil])) =
     (if name = ''main.Response'' then Some \<lparr>rs_RequestID = uid, rs_Result = Inl n\<rparr> else None)"
| "as_response (PValue h v (CStruct name [CString uid, CString s, CNil])) =
     (if name = ''main.Response'' then Some \<lparr>rs_RequestID = uid, rs_Result = Inr s\<rparr> else None)"
| "as_response _ = None"

lemma as_response_payload [simp]: "as_response (response_payload r) = Some r"
  by (cases "rs_Result r") (simp_all add: response_payload_def)

definition show_calculation :: "calculation \<Rightarrow> string" where
  "show_calculation c = (case c of Inl n \<Rightarrow> show_int n | Inr s \<Rightarrow> s)"

definition processRequest :: "request \<Rightarrow> calculation" where
  "processRequest req = (case rq_Data req of CInt num \<Rightarrow> Inl (wrap64 (num * 2)) | _ \<Rightarrow> Inr ''processed'')"

definition response_for :: "request \<Rightarrow> response" where
  "response_for req = \<lparr>rs_RequestID = rq_ID req, rs_Result = processRequest req\<rparr>"

section \<open>The processor\<close>

text \<open>
  The response queues are in a store, by the addresses the requests carry; none of them is the request
  queue. One round: the clock of the read, what the others do to the request queue before it and, while
  the processor sleeps, before \<^verbatim>\<open>HasMoreData\<close>, and what they do to the response queues before the answer.
\<close>

type_synonym store = "addr \<rightharpoonup> queue"

record processor_round =
  pr_clk :: clock
  pr_read :: "queue \<Rightarrow> queue"
  pr_more :: "queue \<Rightarrow> queue"
  pr_answers :: "store \<Rightarrow> store"
  pr_now :: time

definition response_error :: "request \<Rightarrow> go_error \<Rightarrow> string" where
  "response_error req err = ''Processor: failed to send response for '' @ rq_ID req @ '': '' @ Error err @ [CHR 0x0A]"

text \<open>The requests it read with the error of each answer, and whether it has returned; \<open>None\<close> is a panic.\<close>

fun processor_loop ::
  "cptr \<Rightarrow> processor_round list \<Rightarrow> queue \<Rightarrow> store \<Rightarrow> (((request \<times> go_error option) list \<times> bool) \<times> queue \<times> store) option" where
  "processor_loop p [] requests answers = Some (([], False), requests, answers)"
| "processor_loop p (r # rs) requests answers =
     (case q_TryRead (pr_clk r) 0 p (pr_read r requests) of
        None \<Rightarrow> None
      | Some (None, requests) \<Rightarrow>
          let requests = pr_more r requests
          in if \<not> c_HasMoreData (q_closed requests) (q_data requests) (q_reading p requests)
             then Some (([], True), requests, answers)
             else processor_loop p rs requests answers
      | Some (Some data, requests) \<Rightarrow>
          (case as_request (qd_Payload data) of
             None \<Rightarrow> None
           | Some req \<Rightarrow>
               let answers = pr_answers r answers
               in (case rq_ResponseQueue req of
                     None \<Rightarrow> None
                   | Some a \<Rightarrow>
                       (case answers a of
                          None \<Rightarrow> None
                        | Some q \<Rightarrow>
                            (case q_TryEnqueue (response_payload (response_for req)) (pr_now r) q of
                               None \<Rightarrow> None
                             | Some (err, q) \<Rightarrow>
                                 map_option (\<lambda>((done, over), qs). (((req, err) # done, over), qs))
                                   (processor_loop p rs requests (answers(a \<mapsto> q))))))))"

definition requestProcessor ::
  "string \<Rightarrow> time \<Rightarrow> processor_round list \<Rightarrow> queue \<Rightarrow> store
    \<Rightarrow> (((request \<times> go_error option) list \<times> bool) \<times> queue \<times> store) option" where
  "requestProcessor uuid now rs requests answers =
     (let (p, requests) = q_AddConsumer uuid now requests in processor_loop p rs requests answers)"

definition processor_output :: "(request \<times> go_error option) list \<Rightarrow> string" where
  "processor_output done = concat (map (\<lambda>(req, err). case err of None \<Rightarrow> [] | Some e \<Rightarrow> response_error req e) done)"

section \<open>A requester\<close>

text \<open>
  One request: what the others do to the request queue before it is sent; the heap as \<^verbatim>\<open>reflect\<close> sees it,
  the time; then, for a request that was taken, the identifier and the time of the new consumer, what the
  others do to the response queue before it is added, and the clocks, the context and the waits of
  \<^verbatim>\<open>ReadWhereWithContext\<close>.
\<close>

record requester_round =
  rr_send :: "queue \<Rightarrow> queue"
  rr_heap :: gheap
  rr_now :: time
  rr_uuid :: string
  rr_joined :: time
  rr_answers :: "queue \<Rightarrow> queue"
  rr_clk :: "nat \<Rightarrow> clock"
  rr_ctx :: "go_error option"
  rr_env :: ctx_world

definition request_id :: "int \<Rightarrow> nat \<Rightarrow> string" where
  "request_id requesterID i = ''req-'' @ show_int requesterID @ ''-'' @ show_nat i"

definition requester_start :: "int \<Rightarrow> string" where
  "requester_start requesterID = ''Requester '' @ show_int requesterID @ '': sending 5 requests'' @ [CHR 0x0A]"

definition request_failed :: "int \<Rightarrow> nat \<Rightarrow> go_error \<Rightarrow> string" where
  "request_failed requesterID i err =
     ''Requester '' @ show_int requesterID @ '': failed to send request '' @ request_id requesterID i @ '': '' @ Error err @ [CHR 0x0A]"

definition request_timeout :: "int \<Rightarrow> nat \<Rightarrow> string" where
  "request_timeout requesterID i =
     ''Requester '' @ show_int requesterID @ '': timeout waiting for response '' @ request_id requesterID i @ [CHR 0x0A]"

definition request_answered :: "int \<Rightarrow> response \<Rightarrow> string" where
  "request_answered requesterID resp =
     ''Requester '' @ show_int requesterID @ '': received response for '' @ rs_RequestID resp @ '': ''
     @ show_calculation (rs_Result resp) @ [CHR 0x0A]"

text \<open>
  The predicate panics on an item that is not a response; here it stops there, and the panic is that of
  the type assertion on what was read.
\<close>

definition is_response :: "string \<Rightarrow> queue_data \<Rightarrow> bool" where
  "is_response requestID d = (case as_response (qd_Payload d) of None \<Rightarrow> True | Some resp \<Rightarrow> rs_RequestID resp = requestID)"

text \<open>
  The loop from its \<open>i\<close>-th pass on, with the response queue at the address \<open>a\<close>: what was printed,
  whether all five passes are done, and the two queues.
\<close>

fun requester_loop ::
  "int \<Rightarrow> addr \<Rightarrow> nat \<Rightarrow> requester_round list \<Rightarrow> queue \<Rightarrow> queue \<Rightarrow> ((string \<times> bool) \<times> queue \<times> queue) option" where
  "requester_loop requesterID a i [] requests responses = Some (([], i \<ge> 5), requests, responses)"
| "requester_loop requesterID a i (r # rs) requests responses =
     (if i \<ge> 5 then Some (([], True), requests, responses)
      else case q_TryEnqueue (request_payload (rr_heap r) (request_id requesterID i) ''calculate'' (int i * 10) a) (rr_now r)
                  (rr_send r requests) of
        None \<Rightarrow> None
      | Some (Some err, requests) \<Rightarrow>
          map_option (\<lambda>((out, over), qs). ((request_failed requesterID i err @ out, over), qs))
            (requester_loop requesterID a (Suc i) rs requests responses)
      | Some (None, requests) \<Rightarrow>
          let (p, responses) = q_AddConsumer (rr_uuid r) (rr_joined r) (rr_answers r responses)
          in (case c_ReadWhereWithContext (Some (is_response (request_id requesterID i))) (rr_clk r) p (rr_ctx r) (rr_env r) responses of
                None \<Rightarrow> None
              | Some (Blocked, responses) \<Rightarrow> Some (([], False), requests, responses)
              | Some (Returned (response, err), responses) \<Rightarrow>
                  (case (if err \<noteq> None then Some (request_timeout requesterID i)
                         else (case response of
                                 None \<Rightarrow> Some []
                               | Some d \<Rightarrow> map_option (request_answered requesterID) (as_response (qd_Payload d)))) of
                     None \<Rightarrow> None
                   | Some line \<Rightarrow>
                       map_option (\<lambda>((out, over), qs). ((line @ out, over), qs))
                         (requester_loop requesterID a (Suc i) rs requests responses))))"

definition requester ::
  "int \<Rightarrow> addr \<Rightarrow> requester_round list \<Rightarrow> queue \<Rightarrow> queue \<Rightarrow> ((string \<times> bool) \<times> queue \<times> queue) option" where
  "requester requesterID a rs requests responses =
     map_option (\<lambda>((out, over), qs). ((requester_start requesterID @ out, over), qs))
       (requester_loop requesterID a 0 rs requests responses)"

section \<open>No request is sent\<close>

text \<open>
  A queue as \<^verbatim>\<open>reflect\<close> sees it behind a pointer to it: its third field points to the manager of its
  consumers, whose first field is a map. Nothing else that the walk meets refers to these addresses.
\<close>

definition queue_pointer :: "gheap \<Rightarrow> addr \<Rightarrow> bool" where
  "queue_pointer h a \<longleftrightarrow>
     (\<exists>cm m size types name data fields size' types' fields'.
        heap_deref h a = VStruct (TStruct ''queue.Queue'' size types)
          (name # data # VPointer (TPointer ''*queue.ConsumerManager'') (Some cm) # fields)
      \<and> heap_deref h cm = VStruct (TStruct ''queue.ConsumerManager'' size' types')
          (VMap (TMap ''map[string]*queue.Consumer'') (Some m) # fields')
      \<and> distinct [a, cm, m] \<and> heap_apart {a, cm, m} h \<and> apart {a, cm, m} name \<and> apart {a, cm, m} data)"

lemma request_holds_map:
  assumes "queue_pointer h a"
  shows "\<exists>M. holds_map M (request_payload h uid operation data a)"
proof -
  obtain cm m size types name' data' fields size' types' fields' where q:
    "heap_deref h a = VStruct (TStruct ''queue.Queue'' size types)
       (name' # data' # VPointer (TPointer ''*queue.ConsumerManager'') (Some cm) # fields)"
    "heap_deref h cm = VStruct (TStruct ''queue.ConsumerManager'' size' types')
       (VMap (TMap ''map[string]*queue.Consumer'') (Some m) # fields')"
    "distinct [a, cm, m]" "heap_apart {a, cm, m} h" "apart {a, cm, m} name'" "apart {a, cm, m} data'"
    using assms unfolding queue_pointer_def by blast
  let ?M = "{a, cm, m}"
  have "leads ?M h [m] (Suc 0) (heap_deref h cm)"
    unfolding q(2) using leads_field [OF leads_map, of m ?M "[]"] by simp
  then have "leads ?M h [cm, m] 2 (VPointer (TPointer ''*queue.ConsumerManager'') (Some cm))"
    using leads_pointer q(3) by (fastforce simp: numeral_2_eq_2)
  then have "leads ?M h [cm, m] 3 (heap_deref h a)"
    unfolding q(1) using leads_field [of ?M h "[cm, m]" 2 _ "[name', data']"] q(5,6) by simp
  then have "leads ?M h [a, cm, m] 4 (VPointer (TPointer ''*queue.Queue'') (Some a))"
    using leads_pointer [of ?M h "[cm, m]" 3 a] q(3) by simp
  then have "holds_map ?M (request_payload h uid operation data a)"
    unfolding request_payload_def holds_map.simps
    using q(4) leads_field [of ?M h "[a, cm, m]" 4 _ "[go_string uid, go_string operation, VInterface (TInterface ''interface {}'') (Some (VScalar (TScalar ''int'' KInt)))]" _ "[]"]
    by (intro conjI disjI2 exI [of _ "[a, cm, m]"] exI [of _ 5]) simp_all
  then show ?thesis ..
qed

lemma show_nat_length: "length (show_nat n) \<le> Suc n"
proof (induction n rule: show_nat.induct)
  case (1 n)
  then show ?case by (cases "n < 10") (subst show_nat.simps; simp)+
qed

lemma request_payload_fits:
  assumes "0 \<le> requesterID" "requesterID < 3" "i < 5" "heap_ok h"
  shows "payload_ok (request_payload h (request_id requesterID i) ''calculate'' (int i * 10) a)"
proof -
  have "length (show_int requesterID) \<le> 3" using show_nat_length [of "nat requesterID"] assms(1,2) by (simp add: show_int_def)
  then have "length (request_id requesterID i) \<le> 20" using show_nat_length [of i] assms(3) by (simp add: request_id_def)
  then have "int (length (request_id requesterID i)) \<le> MaxInt64" by (simp add: MaxInt64_def)
  then show ?thesis using assms(4) by (simp add: request_payload_def less_eq_kind_def MaxInt64_def)
qed

text \<open>What the others do to the request queue, and the heap at each request.\<close>

definition request_ok :: "(event \<Rightarrow> bool) \<Rightarrow> addr \<Rightarrow> requester_round \<Rightarrow> bool" where
  "request_ok ok a r \<longleftrightarrow> outside_run ok (rr_send r) \<and> heap_ok (rr_heap r) \<and> queue_pointer (rr_heap r) a"

lemma request_refused:
  assumes "0 \<le> requesterID" "requesterID < 3" "i < 5" "q_inv requests" "q_limit requests < 2 ^ 40" "request_ok ok a r"
  shows "\<exists>err requests'. q_TryEnqueue (request_payload (rr_heap r) (request_id requesterID i) ''calculate'' (int i * 10) a) (rr_now r)
        (rr_send r requests) = Some (Some err, requests')
     \<and> sent_run ok [] requests requests' \<and> sent_run ok [] requests (rr_send r requests) \<and> size_refusal (rr_send r requests) err"
proof -
  have f: "outside_run ok (rr_send r)" "heap_ok (rr_heap r)" "queue_pointer (rr_heap r) a" using assms(6) by (simp_all add: request_ok_def)
  let ?q = "rr_send r requests" and ?p = "request_payload (rr_heap r) (request_id requesterID i) ''calculate'' (int i * 10) a"
  have S: "sent_run ok [] requests ?q" by (rule sent_outside [OF f(1) assms(4)])
  note inv = sent_run_inv [OF S]
  have lim: "mt_maxMemory (q_memoryTracker ?q) < 2 ^ 40" using sent_run_limit [OF S assms(4)] assms(5) by (simp add: q_limit_def)
  have p: "payload_ok ?p" by (rule request_payload_fits [OF assms(1-3) f(2)])
  obtain M where m: "holds_map M ?p" using request_holds_map [OF f(3)] by blast
  obtain err q' where T: "q_TryEnqueue ?p (rr_now r) ?q = Some (err, q')" "sent_run ok (if err = None then [?p] else []) ?q q'"
    using sent_TryEnqueue [OF inv p] by blast
  have "\<exists>e. err = Some e \<and> size_refusal ?q e"
    using T(1) map_refused(1) [OF inv _ p m lim, of "rr_now r"] q_TryEnqueue_closed [of ?q ?p "rr_now r"]
    by (cases "q_closed ?q") (auto simp: size_refusal_def)
  then show ?thesis using T S sent_after [OF f(1) assms(4)] by auto
qed

text \<open>What the requests queue answers a requester: each error is that for an item of at least \<open>2 ^ 40\<close> bytes, at
  a moment the others' steps have brought the queue to.\<close>

definition refused_along :: "(event \<Rightarrow> bool) \<Rightarrow> queue \<Rightarrow> go_error list \<Rightarrow> bool" where
  "refused_along ok requests errs \<longleftrightarrow> (\<forall>e \<in> set errs. \<exists>q. sent_run ok [] requests q \<and> size_refusal q e)"

text \<open>C34. The request-response example sends nothing. A request holds a pointer to the queue for its
  response, and behind it lie the maps of that queue's manager, so the estimate of a request is at least
  \<open>2 ^ 40\<close> bytes: whatever the rest of the program does, each of a requester's five requests is refused by
  a request queue with a smaller limit (the default is one mebibyte). The error is the memory error with
  that size, unless at this moment the queue is closed or at its item limit, when it is that error. The
  requester prints the five errors and returns; it has put nothing into the request queue and added
  nothing to the response queue.\<close>

theorem requests_refused:
  assumes "0 \<le> requesterID" and "requesterID < 3" and "q_inv requests" and "q_limit requests < 2 ^ 40" and "5 \<le> length rs"
    and "\<forall>r \<in> set rs. request_ok ok a r"
  shows "\<exists>errs requests' evs. length errs = 5 \<and> refused_along ok requests errs
    \<and> requester requesterID a rs requests responses
        = Some ((requester_start requesterID @ concat (map (\<lambda>i. request_failed requesterID i (errs ! i)) [0..<5]), True), requests', responses)
    \<and> q_run requests evs requests' \<and> ((\<forall>ev. ok ev \<longrightarrow> puts [ev] = []) \<longrightarrow> puts evs = [])"
proof -
  have loop: "\<exists>errs requests'. length errs = 5 - i \<and> refused_along ok requests errs \<and> sent_run ok [] requests requests'
      \<and> requester_loop requesterID a i rs requests responses
        = Some ((concat (map (\<lambda>j. request_failed requesterID (i + j) (errs ! j)) [0..<5 - i]), True), requests', responses)"
    if "i \<le> 5" "q_inv requests" "q_limit requests < 2 ^ 40" "5 \<le> i + length rs" "\<forall>r \<in> set rs. request_ok ok a r" for i
    using that
  proof (induction rs arbitrary: i requests)
    case Nil
    then show ?case using sent_run_refl by (auto simp: refused_along_def)
  next
    case (Cons r rs)
    show ?case
    proof (cases "i = 5")
      case True
      then show ?thesis using sent_run_refl [OF Cons.prems(2)] by (auto simp: refused_along_def)
    next
      case False
      then have i: "i < 5" using Cons.prems(1) by simp
      obtain err requests1 where T: "q_TryEnqueue (request_payload (rr_heap r) (request_id requesterID i) ''calculate'' (int i * 10) a) (rr_now r)
          (rr_send r requests) = Some (Some err, requests1)" "sent_run ok [] requests requests1"
        "sent_run ok [] requests (rr_send r requests)" "size_refusal (rr_send r requests) err"
        using request_refused [OF assms(1,2) i Cons.prems(2,3), of ok a r] Cons.prems(5) by force
      have "q_limit requests1 < 2 ^ 40" using sent_run_limit [OF T(2) Cons.prems(2)] Cons.prems(3) by simp
      then obtain errs requests' where L: "length errs = 5 - Suc i" "sent_run ok [] requests1 requests'"
        "refused_along ok requests1 errs"
        "requester_loop requesterID a (Suc i) rs requests1 responses
          = Some ((concat (map (\<lambda>j. request_failed requesterID (Suc i + j) (errs ! j)) [0..<5 - Suc i]), True), requests', responses)"
        using Cons.IH [of "Suc i" requests1] sent_run_inv [OF T(2)] Cons.prems(4,5) i by auto
      have "5 - i = Suc (4 - i)" using i by simp
      then have "[0..<5 - i] = 0 # map Suc [0..<5 - Suc i]" by (simp add: map_Suc_upt upt_conv_Cons del: upt_Suc)
      then have "concat (map (\<lambda>j. request_failed requesterID (i + j) ((err # errs) ! j)) [0..<5 - i])
          = request_failed requesterID i err @ concat (map (\<lambda>j. request_failed requesterID (Suc i + j) (errs ! j)) [0..<5 - Suc i])"
        by (simp add: comp_def)
      then have "requester_loop requesterID a i (r # rs) requests responses
          = Some ((concat (map (\<lambda>j. request_failed requesterID (i + j) ((err # errs) ! j)) [0..<5 - i]), True), requests', responses)"
        using i T(1) L(4) by simp
      moreover have "refused_along ok requests (err # errs)"
        using T(3,4) L(3) sent_run_trans [OF T(2), of "[]"] unfolding refused_along_def by fastforce
      moreover have "length (err # errs) = 5 - i" using L(1) i by simp
      moreover have "sent_run ok [] requests requests'" using sent_run_trans [OF T(2) L(2)] by simp
      ultimately show ?thesis by blast
    qed
  qed
  obtain errs requests' where L: "length errs = 5" "refused_along ok requests errs" "sent_run ok [] requests requests'"
    "requester_loop requesterID a 0 rs requests responses
      = Some ((concat (map (\<lambda>i. request_failed requesterID i (errs ! i)) [0..<5]), True), requests', responses)"
    using loop [of 0] assms(3-) by auto
  then obtain evs where e: "q_run requests evs requests'" "(\<forall>ev. ok ev \<longrightarrow> puts [ev] = []) \<longrightarrow> puts evs = []"
    by (auto simp: sent_run_def)
  show ?thesis
    unfolding requester_def using L e by (intro exI [of _ errs] exI [of _ requests'] exI [of _ evs]) simp
qed

text \<open>A heap with a queue: its name, its data (not shown), and its manager with the map.\<close>

definition ex_queue_heap :: gheap where
  "ex_queue_heap =
     [(1, [VStruct (TStruct ''queue.Queue'' 400 [TString ''string'', TPointer ''*queue.ChunkedList'', TPointer ''*queue.ConsumerManager''])
             [VString (TString ''string'') 8, VPointer (TPointer ''*queue.ChunkedList'') None, VPointer (TPointer ''*queue.ConsumerManager'') (Some 2)]]),
      (2, [VStruct (TStruct ''queue.ConsumerManager'' 64 [TMap ''map[string]*queue.Consumer''])
             [VMap (TMap ''map[string]*queue.Consumer'') (Some 3)]])]"

definition ex_round :: requester_round where
  "ex_round = \<lparr>rr_send = \<lambda>q. q, rr_heap = ex_queue_heap, rr_now = 7, rr_uuid = ''r'', rr_joined = 7, rr_answers = \<lambda>q. q,
     rr_clk = \<lambda>_ _. 7, rr_ctx = None, rr_env = []\<rparr>"

theorem requests_refused_witness:
  "\<exists>errs requests' evs. length errs = 5 \<and> refused_along (\<lambda>ev. ev = Quiet) ex_new errs
    \<and> requester 2 1 (replicate 5 ex_round) ex_new ex_stored
        = Some ((requester_start 2 @ concat (map (\<lambda>i. request_failed 2 i (errs ! i)) [0..<5]), True), requests', ex_stored)
    \<and> q_run ex_new evs requests' \<and> puts evs = []"
proof -
  have q: "queue_pointer ex_queue_heap 1"
    unfolding queue_pointer_def by (rule exI [of _ 2], rule exI [of _ 3]) (simp add: ex_queue_heap_def heap_deref_def heap_elems_def heap_apart_def)
  have "heap_ok ex_queue_heap" by (simp add: ex_queue_heap_def heap_ok_def MaxInt64_def)
  then have r: "\<forall>r \<in> set (replicate 5 ex_round). request_ok (\<lambda>ev. ev = Quiet) 1 r"
    using q by (simp add: request_ok_def ex_round_def)
  have lim: "q_limit ex_new < 2 ^ 40" by code_simp
  show ?thesis using requests_refused [OF _ _ ex_new_inv(1) lim _ r, of 2 ex_stored] by simp
qed

section \<open>Each request is answered\<close>

text \<open>Requests whose response queue is in the store, and what the others do to it and to the request queue.\<close>

definition good_request :: "addr set \<Rightarrow> queue_data \<Rightarrow> bool" where
  "good_request A d \<longleftrightarrow> (\<exists>req a. as_request (qd_Payload d) = Some req \<and> rq_ResponseQueue req = Some a \<and> a \<in> A
     \<and> int (length (rq_ID req)) \<le> MaxInt64)"

definition store_run :: "(event \<Rightarrow> bool) \<Rightarrow> (store \<Rightarrow> store) \<Rightarrow> bool" where
  "store_run ok f \<longleftrightarrow> (\<forall>answers a. case answers a of None \<Rightarrow> f answers a = None
     | Some q \<Rightarrow> q_inv q \<longrightarrow> (\<exists>q'. f answers a = Some q' \<and> sent_run ok [] q q'))"

definition processor_ok :: "(event \<Rightarrow> bool) \<Rightarrow> (event \<Rightarrow> bool) \<Rightarrow> cptr \<Rightarrow> processor_round \<Rightarrow> bool" where
  "processor_ok ok ok' p r \<longleftrightarrow> others_run ok p (pr_read r) \<and> others_run ok p (pr_more r) \<and> store_run ok' (pr_answers r)"

text \<open>The responses for one queue, of those that were let in.\<close>

definition responses_to :: "addr \<Rightarrow> (request \<times> go_error option) list \<Rightarrow> payload list" where
  "responses_to a done =
     map (\<lambda>(req, err). response_payload (response_for req)) (filter (\<lambda>(req, err). err = None \<and> rq_ResponseQueue req = Some a) done)"

definition answered_store :: "(event \<Rightarrow> bool) \<Rightarrow> (request \<times> go_error option) list \<Rightarrow> store \<Rightarrow> store \<Rightarrow> bool" where
  "answered_store ok done answers answers' \<longleftrightarrow> (\<forall>a. case answers a of None \<Rightarrow> answers' a = None
     | Some q \<Rightarrow> \<exists>q'. answers' a = Some q' \<and> sent_run ok (responses_to a done) q q')"

lemma responses_to_Cons:
  "responses_to a ((req, err) # done) =
     (if err = None \<and> rq_ResponseQueue req = Some a then [response_payload (response_for req)] else []) @ responses_to a done"
  by (simp add: responses_to_def)

lemma answered_store_trans:
  assumes "answered_store ok done answers answers1" "answered_store ok done' answers1 answers'"
  shows "answered_store ok (done @ done') answers answers'"
  unfolding answered_store_def
proof
  fix a
  have "responses_to a (done @ done') = responses_to a done @ responses_to a done'" by (simp add: responses_to_def)
  then show "case answers a of None \<Rightarrow> answers' a = None
     | Some q \<Rightarrow> \<exists>q'. answers' a = Some q' \<and> sent_run ok (responses_to a (done @ done')) q q'"
    using assms [unfolded answered_store_def, rule_format, of a] sent_run_trans by (fastforce split: option.splits)
qed

lemma answered_storeD:
  assumes "answered_store ok done answers answers'"
  shows "answers a = None \<Longrightarrow> answers' a = None"
    "answers a = Some q \<Longrightarrow> \<exists>q'. answers' a = Some q' \<and> sent_run ok (responses_to a done) q q'"
  using assms [unfolded answered_store_def, rule_format, of a] by simp_all

lemma answered_store_inv: "answered_store ok done answers answers' \<Longrightarrow> answers' a = Some q \<Longrightarrow> q_inv q"
  using answered_storeD [of ok "done" answers answers' a] sent_run_inv by (cases "answers a") auto

lemma answered_store_dom: "answered_store ok done answers answers' \<Longrightarrow> dom answers' = dom answers"
  using answered_storeD [of ok "done" answers answers'] by (metis domD domI domIff subsetI subset_antisym)

lemma response_fits: "int (length (rq_ID req)) \<le> MaxInt64 \<Longrightarrow> payload_ok (response_payload (response_for req))"
  by (auto simp: response_payload_def response_for_def processRequest_def less_eq_kind_def heap_ok_def MaxInt64_def split: content.split)

text \<open>One answer.\<close>

lemma answer_one:
  assumes "store_run ok f" "\<forall>a q. answers a = Some q \<longrightarrow> q_inv q" "answers a = Some q" "rq_ResponseQueue req = Some a"
    "int (length (rq_ID req)) \<le> MaxInt64"
  shows "\<exists>q1 err q'. f answers a = Some q1 \<and> q_TryEnqueue (response_payload (response_for req)) now q1 = Some (err, q')
    \<and> answered_store ok [(req, err)] answers ((f answers)(a \<mapsto> q'))"
proof -
  obtain q1 where q1: "f answers a = Some q1" "sent_run ok [] q q1"
    using assms(1) [unfolded store_run_def, rule_format, of answers a] assms(2) [rule_format, of a q] assms(3) by auto
  obtain err q' where T: "q_TryEnqueue (response_payload (response_for req)) now q1 = Some (err, q')"
    "sent_run ok (if err = None then [response_payload (response_for req)] else []) q1 q'"
    using sent_TryEnqueue [OF sent_run_inv [OF q1(2)] response_fits [OF assms(5)]] by blast
  have A: "case answers b of None \<Rightarrow> ((f answers)(a \<mapsto> q')) b = None
     | Some q \<Rightarrow> \<exists>q''. ((f answers)(a \<mapsto> q')) b = Some q'' \<and> sent_run ok (responses_to b [(req, err)]) q q''" for b
  proof (cases "b = a")
    case True
    have "responses_to a [(req, err)] = (if err = None then [response_payload (response_for req)] else [])"
      using assms(4) by (simp add: responses_to_def)
    then have "sent_run ok (responses_to a [(req, err)]) q q'" using sent_run_trans [OF q1(2) T(2)] by (simp only: append_Nil)
    then show ?thesis using assms(3) True by simp
  next
    case False
    have "responses_to b [(req, err)] = []" using assms(4) False by (simp add: responses_to_def)
    then show ?thesis
      using assms(1) [unfolded store_run_def, rule_format, of answers b] assms(2) [rule_format, of b] False
      by (cases "answers b") (simp_all only: option.simps fun_upd_apply if_False HOL.simp_thms)
  qed
  then show ?thesis using q1(1) T(1) unfolding answered_store_def by blast
qed

text \<open>The processor serves every request once: while nothing expires in the request queue and only
  requests are put whose response queue exists, it does not panic; the requests it has served, and those
  its consumer has left, are those it had left and those sent meanwhile, in order; each response queue
  gets exactly the responses of its own requests, in order, less those it refuses, whatever the other
  goroutines do to it; and a number is answered by its double. It returns only when nothing is left, but
  also as soon as that is so, open or not.\<close>

theorem requests_answered:
  assumes "calm_for (good_request (dom answers)) ok p" and "reading_good (good_request (dom answers)) p requests"
    and "\<forall>a q. answers a = Some q \<longrightarrow> q_inv q" and "\<forall>r \<in> set rs. processor_ok ok ok' p r"
  shows "\<exists>done over requests' answers' evs. processor_loop p rs requests answers = Some ((done, over), requests', answers')
    \<and> q_run requests evs requests'
    \<and> map (Some \<circ> fst) done @ map (as_request \<circ> qd_Payload) (q_left p requests')
        = map (as_request \<circ> qd_Payload) (q_left p requests @ puts evs)
    \<and> answered_store ok' done answers answers' \<and> (over \<longrightarrow> q_left p requests' = [])"
proof -
  have "\<exists>done over requests' answers' ds. processor_loop p rs requests answers = Some ((done, over), requests', answers')
    \<and> ran ok p ds requests requests' \<and> map (Some \<circ> fst) done = map (as_request \<circ> qd_Payload) ds
    \<and> answered_store ok' done answers answers' \<and> (over \<longrightarrow> q_left p requests' = [])"
    using assms
  proof (induction rs arbitrary: requests answers)
    case Nil
    have "answered_store ok' [] answers answers"
      using Nil.prems(3) sent_run_refl by (auto simp: answered_store_def responses_to_def split: option.splits)
    then show ?case using ran_refl reading_good_inv reading_good_known Nil.prems(2) by fastforce
  next
    case (Cons r rs)
    have r: "others_run ok p (pr_read r)" "others_run ok p (pr_more r)" "store_run ok' (pr_answers r)"
      using Cons.prems(4) by (simp_all add: processor_ok_def)
    have rs: "\<forall>r \<in> set rs. processor_ok ok ok' p r" using Cons.prems(4) by simp
    have same: "answered_store ok' [] answers answers"
      using Cons.prems(3) sent_run_refl by (auto simp: answered_store_def responses_to_def split: option.splits)
    obtain data q2 where T: "q_TryRead (pr_clk r) 0 p (pr_read r requests) = Some (data, q2)"
      "ran ok p (case data of None \<Rightarrow> [] | Some d \<Rightarrow> [d]) requests q2" "reading_good (good_request (dom answers)) p q2"
      "case data of None \<Rightarrow> True | Some d \<Rightarrow> good_request (dom answers) d"
      using ran_round [OF Cons.prems(1,2) r(1)] by blast
    show ?case
    proof (cases data)
      case None
      let ?q3 = "pr_more r q2"
      note M = ran_round_more [OF Cons.prems(1) T(3) r(2)]
      have R3: "ran ok p [] requests ?q3" using ran_trans [OF _ M(1)] T(2) None by fastforce
      show ?thesis
      proof (cases "q_left p ?q3 = []")
        case True
        then have "processor_loop p (r # rs) requests answers = Some (([], True), ?q3, answers)" using T(1) None M(3) by simp
        then show ?thesis using R3 True same by fastforce
      next
        case False
        then have "processor_loop p (r # rs) requests answers = processor_loop p rs ?q3 answers" using T(1) None M(3) by simp
        then show ?thesis using Cons.IH [OF Cons.prems(1) M(2) Cons.prems(3) rs] ran_trans [OF R3] by fastforce
      qed
    next
      case (Some d)
      obtain req a q where g: "as_request (qd_Payload d) = Some req" "rq_ResponseQueue req = Some a" "answers a = Some q"
        "int (length (rq_ID req)) \<le> MaxInt64"
        using T(4) Some by (auto simp: good_request_def)
      obtain q1 err q' where A: "pr_answers r answers a = Some q1"
        "q_TryEnqueue (response_payload (response_for req)) (pr_now r) q1 = Some (err, q')"
        "answered_store ok' [(req, err)] answers ((pr_answers r answers)(a \<mapsto> q'))"
        using answer_one [OF r(3) Cons.prems(3) g(3,2,4)] by blast
      let ?answers = "(pr_answers r answers)(a \<mapsto> q')"
      have D: "dom ?answers = dom answers" by (rule answered_store_dom [OF A(3)])
      obtain done' over requests' answers' ds where L: "processor_loop p rs q2 ?answers = Some ((done', over), requests', answers')"
        "ran ok p ds q2 requests'" "map (Some \<circ> fst) done' = map (as_request \<circ> qd_Payload) ds"
        "answered_store ok' done' ?answers answers'" "over \<longrightarrow> q_left p requests' = []"
        using Cons.IH [of ?answers q2, unfolded D, OF Cons.prems(1) T(3) _ rs] answered_store_inv [OF A(3)] by blast
      have "processor_loop p (r # rs) requests answers = Some (((req, err) # done', over), requests', answers')"
        using T(1) Some g(1,2) A(1,2) L(1) by (simp add: Let_def)
      moreover have "ran ok p ([d] @ ds) requests requests'" using ran_trans [OF _ L(2)] T(2) Some by fastforce
      moreover have "map (Some \<circ> fst) ((req, err) # done') = map (as_request \<circ> qd_Payload) ([d] @ ds)" using g(1) L(3) by simp
      moreover have "answered_store ok' ((req, err) # done') answers answers'" using answered_store_trans [OF A(3) L(4)] by simp
      ultimately show ?thesis using L(5) by blast
    qed
  qed
  then obtain done' over requests' answers' ds where L: "processor_loop p rs requests answers = Some ((done', over), requests', answers')"
    "ran ok p ds requests requests'" "map (Some \<circ> fst) done' = map (as_request \<circ> qd_Payload) ds"
    "answered_store ok' done' answers answers'" "over \<longrightarrow> q_left p requests' = []" by blast
  then obtain evs where "q_run requests evs requests'" "ds @ q_left p requests' = q_left p requests @ puts evs"
    using ran_calm(3) [OF assms(1,2)] by blast
  then show ?thesis using L by (metis map_append)
qed

text \<open>A queue with a request.\<close>

definition ex_request_queue :: queue where
  "ex_request_queue = snd (the (q_TryEnqueue (request_payload [] ''req-0-1'' ''calculate'' 10 1) 5 ex_joined))"

lemma ex_request_facts: "reading_good (good_request {1}) 0 ex_request_queue"
  "\<exists>d. q_left 0 ex_request_queue = [d] \<and> qd_Payload d = request_payload [] ''req-0-1'' ''calculate'' 10 1"
proof -
  let ?p = "request_payload [] ''req-0-1'' ''calculate'' 10 1"
  have ok: "payload_ok ?p" by (simp add: request_payload_def heap_ok_def less_eq_kind_def MaxInt64_def)
  obtain d err q' where T: "q_TryEnqueue ?p 5 ex_joined = Some (err, q')" "new_item ?p ex_joined 5 d"
    "q_at_limit ex_joined \<Longrightarrow> err = Some (QueueFullError (q_maxItems ex_joined))"
    "\<not> q_at_limit ex_joined \<Longrightarrow> \<not> q_room (qd_size d) ex_joined \<Longrightarrow> err \<noteq> None"
    "\<not> q_at_limit ex_joined \<Longrightarrow> q_room (qd_size d) ex_joined \<Longrightarrow> stored [d] ex_joined q'"
    by (rule q_TryEnqueue_open [OF ex_joined_inv(1,5) ok, of 5]) blast
  have "fst (the (q_TryEnqueue ?p 5 ex_joined)) = None" by code_simp
  then have S: "stored [d] ex_joined ex_request_queue" using T by (auto simp: ex_request_queue_def)
  have d: "qd_Payload d = ?p" using T(2) by (simp add: new_item_def)
  then show "\<exists>d. q_left 0 ex_request_queue = [d] \<and> qd_Payload d = ?p"
    using S ex_joined_inv(2,3) by (auto simp: stored_def q_live_def)
  show "reading_good (good_request {1}) 0 ex_request_queue"
    using S ex_joined_inv(2,3) ex_own(1) d
    by (auto simp: reading_good_def stored_def q_live_def good_request_def MaxInt64_def)
qed

theorem requests_answered_witness:
  "\<exists>err requests' answers' evs.
     processor_loop 0 [\<lparr>pr_clk = \<lambda>_. 7, pr_read = \<lambda>q. q, pr_more = \<lambda>q. q, pr_answers = \<lambda>s. s, pr_now = 8\<rparr>] ex_request_queue [1 \<mapsto> ex_new]
       = Some (([(\<lparr>rq_ID = ''req-0-1'', rq_Operation = ''calculate'', rq_Data = CInt 10, rq_ResponseQueue = Some 1\<rparr>, err)], False), requests', answers')
   \<and> q_run ex_request_queue evs requests'"
proof -
  let ?req = "\<lparr>rq_ID = ''req-0-1'', rq_Operation = ''calculate'', rq_Data = CInt 10, rq_ResponseQueue = Some 1\<rparr>"
  let ?r = "\<lparr>pr_clk = \<lambda>_. 7, pr_read = \<lambda>q. q, pr_more = \<lambda>q. q, pr_answers = \<lambda>s. s, pr_now = 8\<rparr>"
  let ?s = "[1 \<mapsto> ex_new] :: store"
  let ?ok = "\<lambda>ev. ev = Quiet"
  have r: "\<forall>r \<in> set [?r]. processor_ok ?ok ?ok 0 r"
    using sent_run_refl by (auto simp: processor_ok_def store_run_def others_run_def intro: exI [of _ "[]"] split: option.splits)
  have D: "dom ?s = {1}" by simp
  have inv: "\<forall>a q. ?s a = Some q \<longrightarrow> q_inv q" using ex_new_inv(1) by (auto split: if_splits)
  from requests_answered [of ?s, unfolded D, OF calm_for_Quiet ex_request_facts(1) inv r]
  obtain done' over requests' answers' evs where L: "processor_loop 0 [?r] ex_request_queue ?s = Some ((done', over), requests', answers')"
    "q_run ex_request_queue evs requests'"
    "answered_store ?ok done' ?s answers'" by blast
  obtain d where d: "q_left 0 ex_request_queue = [d]" "as_request (qd_Payload d) = Some ?req" using ex_request_facts(2) by auto
  obtain q1 where "q_TryRead (\<lambda>_. 7) 0 0 ex_request_queue = Some (Some d, q1)"
    using q_TryRead_consumed [of ex_request_queue 0 "\<lambda>_. 7" 0] ex_request_facts(1) d(1) by (auto simp: reading_good_def)
  then obtain err where "done' = [(?req, err)]" "over = False" using L(1) d(2) by (auto split: option.splits)
  then show ?thesis using L(1,2) by (intro exI [of _ err] exI [of _ requests'] exI [of _ answers'] exI [of _ evs]) simp
qed

text \<open>
  The processor does not wait for requests: when it finds none, and none comes while it sleeps, it
  returns, although the queue is open.
\<close>

theorem processor_gives_up:
  assumes "reading_good good p requests" "q_left p requests = []" "others_run ok p (pr_read r)" "others_run ok p (pr_more r)"
    "calm_for good ok p" "\<forall>ev. ok ev \<longrightarrow> puts [ev] = []"
  shows "\<exists>requests'. processor_loop p (r # rs) requests answers = Some (([], True), requests', answers) \<and> \<not> q_closed requests'"
proof -
  obtain data q2 where T: "q_TryRead (pr_clk r) 0 p (pr_read r requests) = Some (data, q2)"
    "ran ok p (case data of None \<Rightarrow> [] | Some d \<Rightarrow> [d]) requests q2" "reading_good good p q2"
    using ran_round [OF assms(5,1,3)] by blast
  have none: "puts evs = []" if "list_all (\<lambda>ev. ok ev \<or> own p ev) evs" for evs
    using that by (rule puts_none) (use assms(6) in \<open>auto simp: own_def\<close>)
  have D: "data = None \<and> q_left p q2 = []"
    using ran_calm(3) [OF assms(5,1) T(2)] none assms(2) by (cases data) fastforce+
  note M = ran_round_more [OF assms(5) T(3) assms(4)]
  have "q_left p (pr_more r q2) = []" using ran_calm(3) [OF assms(5) T(3) M(1)] none D by fastforce
  moreover have "\<not> q_closed (pr_more r q2)" using M(2) by (simp add: reading_good_def q_live_def)
  ultimately show ?thesis using T(1) D M(3) by simp
qed

end
