(* ===== verification/MQ_SmallItems.thy ===== *)
theory MQ_SmallItems
  imports MQ_Calm
begin

text \<open>
  A queue with the default limits takes at least 900 small items: one chunk and their sizes stay far
  below the limit of one mebibyte, so \<^verbatim>\<open>TryEnqueue\<close> stores each of them and \<^verbatim>\<open>Enqueue\<close> does not wait.
  The example programs are runs of this kind.
\<close>

section \<open>Small items\<close>

definition small_payload :: "payload \<Rightarrow> bool" where
  "small_payload p \<longleftrightarrow> (case p of PString s \<Rightarrow> length s \<le> 500 | PScalar k n \<Rightarrow> in_type_switch k | _ \<Rightarrow> False)"

lemma small_payload_ok: "small_payload p \<Longrightarrow> payload_ok p"
  by (cases p) (auto simp: small_payload_def MaxInt64_def less_eq_kind_def)

lemma small_estimate: "small_payload p \<Longrightarrow> fst (estimatePayloadSize mx p c) \<le> 500"
proof -
  assume "small_payload p"
  moreover have "kind_size k \<le> 500" for k using kind_size_bounds [of k] by linarith
  ultimately show ?thesis by (cases p) (auto simp: small_payload_def)
qed

lemma sizes_bounded: "\<forall>d \<in> set ds. qd_size d \<le> n \<Longrightarrow> sum_list (map qd_size ds) \<le> n * int (length ds)"
  by (induction ds) (auto simp: algebra_simps)

text \<open>The chunks of the queue: none, or one with \<open>k\<close> items (also those that have expired).\<close>

definition in_one_chunk :: "nat \<Rightarrow> chunked_list \<Rightarrow> bool" where
  "in_one_chunk k cl \<longleftrightarrow> (k = 0 \<and> cl_list cl = []) \<or> (\<exists>e. cl_list cl = [e] \<and> cn_size (cl_chunk cl e) = k)"

definition small_queue :: "nat \<Rightarrow> queue \<Rightarrow> bool" where
  "small_queue k q \<longleftrightarrow> q_inv q \<and> \<not> q_closed q \<and> q_maxItems q = 0 \<and> mt_maxMemory (q_memoryTracker q) = MaxQueueMemory
     \<and> length (q_name q) \<le> 100
     \<and> in_one_chunk k (q_data q) \<and> length (q_items q) \<le> k \<and> (\<forall>d \<in> set (q_items q). qd_size d \<le> 1000)"

lemma in_one_chunk_append:
  assumes "in_one_chunk k cl" "k < 1000" "cl_append d cl = (ok, cl')"
  shows "ok" "in_one_chunk (Suc k) cl'"
  using assms
  by (auto simp: in_one_chunk_def cl_append_def cl_last_chunk_def cl_PushBack_def cl_track_def cl_set_chunk_def cn_Add_def cn_IsFull_def
      NewChunkNode_def Let_def split: if_splits)

lemma small_room:
  assumes "small_queue k q" "k < 900" "n \<le> 1000"
  shows "q_room n q"
proof -
  have "mt_totalMemory (q_memoryTracker q) = ChunkNodeSize * int (length (cl_list (q_data q))) + sum_list (map qd_size (q_items q))"
    using q_invD(3) assms(1) by (simp add: small_queue_def cl_accounted_def cl_bytes_def q_items_def)
  moreover have "length (cl_list (q_data q)) \<le> 1" using assms(1) by (auto simp: small_queue_def in_one_chunk_def)
  moreover have "sum_list (map qd_size (q_items q)) \<le> 1000 * int (length (q_items q))"
    by (rule sizes_bounded) (use assms(1) in \<open>simp add: small_queue_def\<close>)
  ultimately show ?thesis using assms unfolding q_room_def small_queue_def MaxQueueMemory_def ChunkNodeSize_def
    by (cases "cl_list (q_data q)") auto
qed

text \<open>The item that is made of a small payload, and its place in the list.\<close>

lemma small_item:
  assumes "length (q_name q) \<le> 100" "small_payload p" "q_new_data p now q = (d, q1)"
  shows "qd_size d \<le> 1000"
proof -
  obtain d0 sq where d0: "NewQueueData p (q_name q) now (q_dataIDSequence q) = (d0, sq)" by fastforce
  obtain ps c where ps: "estimatePayloadSize (mt_maxMemory (q_memoryTracker q)) p (mt_sizeCache (q_memoryTracker q)) = (ps, c)"
    by fastforce
  have "ps \<le> 500" using small_estimate [OF assms(2), of "mt_maxMemory (q_memoryTracker q)" "mt_sizeCache (q_memoryTracker q)"] ps by simp
  moreover have "qd_Payload d0 = p" "ev_QueueName (qd_EnqueueEvent d0) = q_name q" "ev_EventType (qd_EnqueueEvent d0) = ''enqueue''"
    using d0 by (auto simp: NewQueueData_def Let_def)
  ultimately show ?thesis
    using assms(1,3) d0 ps
    by (auto simp: q_new_data_def mt_EstimateQueueDataSize_def Let_def qd_SetSize_def safeAdd_def BaseQueueDataSize_def BaseQueueEventSize_def MaxInt64_def)
qed

text \<open>What an enqueue leaves as it is.\<close>

definition same_settings :: "queue \<Rightarrow> queue \<Rightarrow> bool" where
  "same_settings q q' \<longleftrightarrow> q_name q' = q_name q \<and> q_ttl q' = q_ttl q \<and> q_expirationEnabled q' = q_expirationEnabled q
     \<and> q_maxConsumerHistory q' = q_maxConsumerHistory q"

lemma same_settings_trans: "same_settings q q1 \<Longrightarrow> same_settings q1 q' \<Longrightarrow> same_settings q q'"
  by (simp add: same_settings_def)

definition put_small :: "nat \<Rightarrow> payload \<Rightarrow> time \<Rightarrow> queue \<Rightarrow> queue_data \<Rightarrow> queue \<Rightarrow> bool" where
  "put_small k p now q d q' \<longleftrightarrow> stored [d] q q' \<and> new_item p q now d \<and> small_queue (Suc k) q' \<and> same_settings q q'
     \<and> q_dataIDSequence q' = q_dataIDSequence q + 1"

lemma notify_settings:
  "notifyWaitingConsumers q = Some q' \<Longrightarrow> q_data q' = q_data q \<and> q_maxItems q' = q_maxItems q \<and> same_settings q q'
     \<and> q_dataIDSequence q' = q_dataIDSequence q"
  by (auto simp: notifyWaitingConsumers_def same_settings_def Let_def split: if_splits)

lemma new_data_sequence: "q_new_data p now q = (d, q1) \<Longrightarrow> q_dataIDSequence q1 = q_dataIDSequence q + 1 \<and> q_maxItems q1 = q_maxItems q
    \<and> same_settings q q1 \<and> q_closed q1 = q_closed q"
  by (auto simp: q_new_data_def NewQueueData_def same_settings_def Let_def split: prod.splits)

text \<open>The item is taken, and the others are told.\<close>

lemma small_put:
  assumes q: "small_queue k q" and k: "k < 900" and p: "small_payload p"
  shows "\<exists>d q1 cl' q'. q_new_data p now q = (d, q1) \<and> q_closed q1 = False \<and> q_maxItems q1 = 0 \<and> qd_size d \<le> mt_maxMemory (q_memoryTracker q1)
    \<and> cl_Enqueue d (q_data q1) = (None, cl') \<and> notifyWaitingConsumers (q1\<lparr>q_data := cl'\<rparr>) = Some q' \<and> put_small k p now q d q'"
proof -
  have s: "q_inv q" "\<not> q_closed q" "length (q_name q) \<le> 100" "q_maxItems q = 0" "mt_maxMemory (q_memoryTracker q) = MaxQueueMemory"
    "in_one_chunk k (q_data q)" "length (q_items q) \<le> k" "\<forall>d \<in> set (q_items q). qd_size d \<le> 1000"
    using q by (simp_all add: small_queue_def)
  obtain d q1 where n: "q_new_data p now q = (d, q1)" "new_item p q now d" "same_queue q q1"
    by (rule q_new_data_spec [OF s(1) small_payload_ok [OF p]])
  note S = same_queueD [OF n(3)] and inv1 = same_queue_inv [OF n(3) s(1)] and F = new_data_sequence [OF n(1)]
  have sz: "qd_size d \<le> 1000" by (rule small_item [OF s(3) p n(1)])
  have sz': "0 \<le> qd_size d" "qd_size d \<le> MaxInt64" using n(2) by (auto simp: new_item_def item_overhead_def BaseQueueDataSize_def BaseQueueEventSize_def)
  have ok1: "data_ok (q_data q1)" using inv1 by (simp add: q_inv_def)
  have fits: "mt_totalMemory (q_memoryTracker q1) + qd_size d \<le> mt_maxMemory (q_memoryTracker q1)"
    using small_room [OF q k sz] S by (simp add: q_room_def)
  obtain cl' where c: "cl_Enqueue d (q_data q1) = (None, cl')" "grown [d] (q_data q1) cl'"
    by (rule cl_Enqueue_fits [OF ok1 sz' fits])
  have opn1: "\<not> q_closed q1" using F s(2) by simp
  obtain q' where q': "notifyWaitingConsumers (q1\<lparr>q_data := cl'\<rparr>) = Some q'" "stored [d] q1 q'" "q_data q' = cl'"
    by (rule q_store [OF inv1 opn1 c(2)])
  have N: "q_maxItems q' = q_maxItems q1" "same_settings q1 q'" "q_dataIDSequence q' = q_dataIDSequence q1"
    using notify_settings [OF q'(1)] by (simp_all add: same_settings_def)
  have st: "stored [d] q q'" by (rule stored_same [OF n(3) q'(2)])
  have "cl_list (q_data q1) = cl_list (q_data q)" "cl_chunk (q_data q1) = cl_chunk (q_data q)" using n(3) by (auto simp: same_queue_def)
  then have one: "in_one_chunk k (q_data q1)" using s(6) by (simp add: in_one_chunk_def)
  have "in_one_chunk (Suc k) cl'"
    using c(1) in_one_chunk_append [OF one] k by (auto simp: cl_Enqueue_def split: if_splits prod.splits)
  moreover have set': "same_settings q q'" by (rule same_settings_trans [OF conjunct1 [OF conjunct2 [OF conjunct2 [OF F]]] N(2)])
  ultimately have "small_queue (Suc k) q'"
    using s st sz q'(3) N(1) F by (auto simp: small_queue_def stored_def same_settings_def)
  then have P: "put_small k p now q d q'"
    unfolding put_small_def using st n(2) set' N(3) F by simp
  have "qd_size d \<le> mt_maxMemory (q_memoryTracker q1)" using sz s(5) S by (simp add: MaxQueueMemory_def)
  then show ?thesis using n(1) opn1 F s(4) c(1) q'(1) P by auto
qed

lemma small_TryEnqueue:
  assumes "small_queue k q" "k < 900" "small_payload p"
  shows "\<exists>d q'. q_TryEnqueue p now q = Some (None, q') \<and> put_small k p now q d q'"
proof -
  have "\<not> q_closed q" using assms(1) by (simp add: small_queue_def)
  then show ?thesis using small_put [OF assms, of now] by (auto simp: q_TryEnqueue_def)
qed

lemma small_Enqueue:
  assumes "small_queue k q" "k < 900" "small_payload p"
  shows "\<exists>d q'. q_Enqueue p now env q = Some (Returned None, q') \<and> put_small k p now q d q'"
proof -
  have "\<not> q_closed q" using assms(1) by (simp add: small_queue_def)
  then show ?thesis
    using small_put [OF assms, of now] by (force simp: q_Enqueue_def q_enqueue_loop.simps q_enqueue_round_def)
qed

text \<open>A new queue, and what keeps the bound.\<close>

lemma small_new:
  assumes "length name \<le> 100" "cfg_MaxMemory config = MaxQueueMemory" "cfg_MaxItems config = 0"
  shows "small_queue 0 (NewQueueWithConfig name config now sequence)" "q_items (NewQueueWithConfig name config now sequence) = []"
proof -
  have c: "cfg_MaxMemory config \<le> 2 ^ 50" using assms(2) by (simp add: MaxQueueMemory_def)
  note N = q_inv_new [OF c, of name now sequence]
  show "q_items (NewQueueWithConfig name config now sequence) = []" by (rule N(2))
  show "small_queue 0 (NewQueueWithConfig name config now sequence)"
    using N assms unfolding small_queue_def
    by (simp add: NewQueueWithConfig_def Let_def NewChunkedList_def NewMemoryTracker_def in_one_chunk_def MaxQueueMemory_def)
qed

lemma small_frame:
  assumes "small_queue k q" "q_inv q'" "q_data q' = q_data q" "q_closed q' = q_closed q" "q_maxItems q' = q_maxItems q" "same_settings q q'"
  shows "small_queue k q'"
  using assms by (simp add: small_queue_def same_settings_def q_items_def)

end
