(* ===== verification/MQ_BasicUsage.thy ===== *)
theory MQ_BasicUsage
  imports MQ_SmallItems MQ_Text "HOL-Library.Monad_Syntax"
begin

text \<open>
  \<^verbatim>\<open>examples/basic_usage.go\<close>: its main function, section by section, as what it prints and the queue.
  Its queue is used by no other goroutine but the expiration worker, whose first tick is 30 seconds
  away; the times, the identifiers of the consumers and the formatted times come from outside.
\<close>

section \<open>The parts of the program\<close>

definition line :: "string \<Rightarrow> string" where
  "line s = s @ [CHR 0x0A]"

text \<open>The verb \<open>%s\<close>, of the payload (here always a string) and of a number, which is not meant for it.\<close>

definition payload_s :: "payload \<Rightarrow> string" where
  "payload_s p = (case p of PString s \<Rightarrow> s | _ \<Rightarrow> [])"

definition uint64_s :: "64 word \<Rightarrow> string" where
  "uint64_s n = ''%!s(uint64='' @ show_nat (unat n) @ '')''"

record basic_world =
  bw_now :: "nat \<Rightarrow> time"
  bw_clk :: "nat \<Rightarrow> clock"
  bw_uuid :: "nat \<Rightarrow> string"
  bw_pointers :: "queue_data list \<Rightarrow> string"
  bw_rfc3339 :: "time \<Rightarrow> string"

text \<open>
  The loop that enqueues the messages, which ends the program (\<^verbatim>\<open>log.Fatalf\<close>) with the first error; and
  one that looks at no error.
\<close>

fun enqueue_messages :: "(nat \<Rightarrow> time) \<Rightarrow> nat \<Rightarrow> string list \<Rightarrow> queue \<Rightarrow> ((string \<times> (nat \<times> go_error) option) \<times> queue) option" where
  "enqueue_messages now i [] q = Some (([], None), q)"
| "enqueue_messages now i (msg # messages) q =
     (case q_TryEnqueue (PString msg) (now i) q of
        None \<Rightarrow> None
      | Some (Some err, q) \<Rightarrow> Some (([], Some (i, err)), q)
      | Some (None, q) \<Rightarrow>
          map_option (\<lambda>((out, fatal), q). ((line (''   Enqueued: '' @ msg) @ out, fatal), q)) (enqueue_messages now (Suc i) messages q))"

fun enqueue_all :: "(nat \<Rightarrow> time) \<Rightarrow> nat \<Rightarrow> payload list \<Rightarrow> queue \<Rightarrow> queue option" where
  "enqueue_all now i [] q = Some q"
| "enqueue_all now i (p # ps) q = Option.bind (q_TryEnqueue p (now i) q) (\<lambda>(err, q). enqueue_all now (Suc i) ps q)"

text \<open>
  The loop that reads until there is nothing; \<open>clks\<close> are the clocks of its reads. The result says
  whether it was left.
\<close>

fun read_all :: "(queue_data \<Rightarrow> string) \<Rightarrow> cptr \<Rightarrow> clock list \<Rightarrow> queue \<Rightarrow> ((string \<times> bool) \<times> queue) option" where
  "read_all show_item p [] q = Some (([], False), q)"
| "read_all show_item p (clk # clks) q =
     (case q_TryRead clk 0 p q of
        None \<Rightarrow> None
      | Some (None, q) \<Rightarrow> Some (([], True), q)
      | Some (Some data, q) \<Rightarrow>
          map_option (\<lambda>((out, over), q). ((show_item data @ out, over), q)) (read_all show_item p clks q))"

definition messages :: "string list" where
  "messages = [''Hello'', ''World'', ''from'', ''Queue'']"

definition dequeued :: "queue_data \<Rightarrow> string" where
  "dequeued data = line (''   Dequeued: '' @ payload_s (qd_Payload data) @ '' (ID: '' @ uint64_s (qd_ID data) @ '')'')"

text \<open>1. Enqueue and dequeue. A fatal error ends the program.\<close>

definition basic_enqueue_dequeue :: "basic_world \<Rightarrow> clock list \<Rightarrow> queue \<Rightarrow> ((string \<times> (nat \<times> go_error) option) \<times> queue) option" where
  "basic_enqueue_dequeue w clks q =
     do {
       ((out, fatal), q) \<leftarrow> enqueue_messages (bw_now w) 0 messages q;
       if fatal \<noteq> None then Some ((out, fatal), q)
       else do {
         let (consumer, q) = q_AddConsumer (bw_uuid w 0) (bw_now w 4) q;
         ((read, over), q) \<leftarrow> read_all dequeued consumer clks q;
         Some ((out @ line (''   Created consumer: '' @ bw_uuid w 0) @ line ''   Reading messages:'' @ read, None), q)
       }
     }"

definition more_items :: "payload list" where
  "more_items = map (\<lambda>i. PString (''Item '' @ show_nat i)) [1..<6]"

definition item_line :: "queue_data \<Rightarrow> string" where
  "item_line data = line (''     '' @ payload_s (qd_Payload data))"

text \<open>2. Two consumers.\<close>

definition basic_consumers :: "basic_world \<Rightarrow> clock list \<Rightarrow> clock list \<Rightarrow> queue \<Rightarrow> (string \<times> queue) option" where
  "basic_consumers w clks clks' q =
     do {
       q \<leftarrow> enqueue_all (bw_now w) 5 more_items q;
       let (consumer1, q) = q_AddConsumer (bw_uuid w 1) (bw_now w 10) q;
       let (consumer2, q) = q_AddConsumer (bw_uuid w 2) (bw_now w 11) q;
       ((out1, over1), q) \<leftarrow> read_all item_line consumer1 clks q;
       ((out2, over2), q) \<leftarrow> read_all item_line consumer2 clks' q;
       Some (line (''   Consumer 1 ID: '' @ bw_uuid w 1) @ line (''   Consumer 2 ID: '' @ bw_uuid w 2) @
             line ''   Consumer 1 reads:'' @ out1 @ line ''   Consumer 2 reads:'' @ out2, q)
     }"

text \<open>3. Batches, with the pointers that \<open>%v\<close> prints.\<close>

definition batch_data :: "payload list" where
  "batch_data = map PString [''Batch1'', ''Batch2'', ''Batch3'', ''Batch4'']"

definition basic_batch :: "basic_world \<Rightarrow> queue \<Rightarrow> ((string \<times> go_error option) \<times> queue) option" where
  "basic_batch w q =
     do {
       (err, q) \<leftarrow> q_TryEnqueueBatch batch_data (bw_clk w 0) q;
       if err \<noteq> None then Some (([], err), q)
       else do {
         let (consumer3, q) = q_AddConsumer (bw_uuid w 3) (bw_now w 12) q;
         (batch, cgs) \<leftarrow> c_TryReadBatch (bw_clk w 1) 0 (q_closed q) (q_data q) 2 (q_reading consumer3 q);
         Some ((line ''   Enqueued batch of 4 items'' @
                line (''   Read batch of '' @ show_nat (length batch) @ '' items: '' @ bw_pointers w batch), None),
               q_set_reading consumer3 cgs q)
       }
     }"

text \<open>4. and 5. The statistics.\<close>

definition basic_stats :: "queue \<Rightarrow> string" where
  "basic_stats q =
     (let stats = q_GetQueueStats q
      in line (''   Queue Name: '' @ qs_Name stats) @
         line (''   Total Items: '' @ show_int (qs_TotalItems stats)) @
         line (''   Memory Usage: '' @ show_int (qs_MemoryUsage stats) @ '' bytes ('' @ fmt_f 2 (qs_MemoryPercent stats) @ ''%)'') @
         line (''   Consumer Count: '' @ show_nat (qs_ConsumerCount stats)) @
         line (''   TTL: '' @ show_duration (qs_TTL stats)))"

definition consumer_line :: "consumer_stats \<Rightarrow> string" where
  "consumer_line cs =
     line (''   Consumer '' @ cs_ID cs @ '': read '' @ show_int (cs_TotalItemsRead cs) @ '' items, '' @ show_int (cs_UnreadItems cs) @ '' unread'')"

definition basic_consumer_stats :: "queue \<Rightarrow> string option" where
  "basic_consumer_stats q = map_option (\<lambda>stats. concat (map consumer_line stats)) (q_GetConsumerStats q)"

text \<open>6. The history of an item.\<close>

fun history_lines :: "(time \<Rightarrow> string) \<Rightarrow> nat \<Rightarrow> dequeue_record list \<Rightarrow> string" where
  "history_lines fmt i [] = []"
| "history_lines fmt i (r # rs) =
     line (''     '' @ show_nat (i + 1) @ ''. Dequeued item '' @ uint64_s (dr_DataID r) @ '' at '' @ fmt (dr_Timestamp r)) @ history_lines fmt (Suc i) rs"

definition basic_history :: "basic_world \<Rightarrow> queue \<Rightarrow> (string \<times> queue) option" where
  "basic_history w q =
     do {
       (err, q) \<leftarrow> q_TryEnqueue (PString ''Tracked Item'') (bw_now w 13) q;
       let (trackedConsumer, q) = q_AddConsumer (bw_uuid w 4) (bw_now w 14) q;
       (data, q) \<leftarrow> q_TryRead (bw_clk w 2) 0 trackedConsumer q;
       Some (case data of
               None \<Rightarrow> []
             | Some data \<Rightarrow>
                 let event = qd_EnqueueEvent data
                 in line (''   Item ID: '' @ uint64_s (qd_ID data)) @
                    line ''   Enqueue Event:'' @
                    line (''     - '' @ ev_EventType event @ '' at '' @ bw_rfc3339 w (ev_Timestamp event) @ '' in queue '' @ ev_QueueName event) @
                    line ''   Dequeue History:'' @
                    history_lines (bw_rfc3339 w) 0 (c_dequeueHistory (cm_cstore (q_consumers q) trackedConsumer)), q)
     }"

definition basic_main :: "basic_world \<Rightarrow> clock list \<Rightarrow> clock list \<Rightarrow> clock list \<Rightarrow> time \<Rightarrow> 64 word \<Rightarrow> (string \<times> queue) option" where
  "basic_main w clks clks1 clks2 now sequence =
     do {
       let q = NewQueue ''example-queue'' now sequence;
       let title1 = line ''=== Basic Queue Usage Example ==='' @ line [] @ line ''1. Basic Enqueue/Dequeue:'';
       ((out1, fatal), q) \<leftarrow> basic_enqueue_dequeue w clks q;
       if fatal \<noteq> None then Some (title1 @ out1, q)
       else do {
         let title2 = line [] @ line ''2. Multiple Consumers:'';
         (out2, q) \<leftarrow> basic_consumers w clks1 clks2 q;
         let title3 = line [] @ line ''3. Batch Operations:'';
         ((out3, err), q) \<leftarrow> basic_batch w q;
         if err \<noteq> None then Some (title1 @ out1 @ title2 @ out2 @ title3, q)
         else do {
           let out4 = line [] @ line ''4. Queue Statistics:'' @ basic_stats q;
           out5 \<leftarrow> basic_consumer_stats q;
           (out6, q) \<leftarrow> basic_history w q;
           q \<leftarrow> q_Close q;
           Some (title1 @ out1 @ title2 @ out2 @ title3 @ out3 @ out4 @ line [] @ line ''5. Consumer Statistics:'' @ out5 @
                 line [] @ line ''6. Event History:'' @ out6 @ line [] @ line ''=== Example Complete ==='', q)
         }
       }
     }"

section \<open>What it prints\<close>

text \<open>Items that were all taken.\<close>

definition put_all :: "payload list \<Rightarrow> queue \<Rightarrow> queue_data list \<Rightarrow> queue \<Rightarrow> bool" where
  "put_all ps q ds q' \<longleftrightarrow> q_items q' = q_items q @ ds \<and> map qd_Payload ds = ps
     \<and> map qd_ID ds = map (\<lambda>j. q_dataIDSequence q + of_nat (Suc j)) [0..<length ps]
     \<and> q_dataIDSequence q' = q_dataIDSequence q + of_nat (length ps)
     \<and> q_consumers q' = q_consumers q \<and> q_closed q' = q_closed q \<and> same_settings q q'
     \<and> (\<forall>p. q_reader p q \<longrightarrow> q_reader p q' \<and> q_left p q' = q_left p q @ ds)"

lemma put_all_Nil: "put_all [] q [] q"
  by (simp add: put_all_def same_settings_def)

lemma put_all_Cons:
  assumes P: "put_small k p now q d q1" and A: "put_all ps q1 ds q'" and q: "small_queue k q"
  shows "put_all (p # ps) q (d # ds) q'"
proof -
  have S: "stored [d] q q1" "qd_Payload d = p" "qd_ID d = q_dataIDSequence q + 1" "q_dataIDSequence q1 = q_dataIDSequence q + 1"
    "same_settings q q1" "q_closed q1 = q_closed q"
    using P q by (auto simp: put_small_def new_item_def stored_def small_queue_def)
  have "[0..<length (p # ps)] = 0 # map Suc [0..<length ps]" by (simp add: map_Suc_upt upt_conv_Cons del: upt_Suc)
  then have "map qd_ID (d # ds) = map (\<lambda>j. q_dataIDSequence q + of_nat (Suc j)) [0..<length (p # ps)]"
    using A S(3,4) by (simp add: put_all_def algebra_simps)
  then show ?thesis
    using A S same_settings_trans [OF S(5)] unfolding put_all_def stored_def by (auto simp: algebra_simps)
qed

lemma small_enqueue_all:
  assumes "small_queue k q" "k + length ps \<le> 900" "\<forall>p \<in> set ps. small_payload p"
  shows "\<exists>ds q'. enqueue_all now i ps q = Some q' \<and> put_all ps q ds q' \<and> small_queue (k + length ps) q'
    \<and> qd_Created ` set ds \<subseteq> now ` {i..<i + length ps}"
  using assms
proof (induction ps arbitrary: k i q)
  case Nil
  then show ?case using put_all_Nil by auto
next
  case (Cons p ps)
  obtain d q1 where T: "q_TryEnqueue p (now i) q = Some (None, q1)" "put_small k p (now i) q d q1"
    using small_TryEnqueue [OF Cons.prems(1), of p "now i"] Cons.prems(2,3) by auto
  have "small_queue (Suc k) q1" using T(2) by (simp add: put_small_def)
  then obtain ds q' where L: "enqueue_all now (Suc i) ps q1 = Some q'" "put_all ps q1 ds q'" "small_queue (Suc k + length ps) q'"
    "qd_Created ` set ds \<subseteq> now ` {Suc i..<Suc i + length ps}"
    using Cons.IH [of "Suc k" q1 "Suc i"] Cons.prems(2,3) by auto
  have "qd_Created ` set (d # ds) \<subseteq> now ` {i..<i + length (p # ps)}"
    using L(4) T(2) by (fastforce simp: put_small_def new_item_def)
  then show ?case using T(1) L(1,3) put_all_Cons [OF T(2) L(2) Cons.prems(1)]
    by (intro exI [of _ "d # ds"] exI [of _ q']) simp
qed

lemma small_enqueue_messages:
  assumes "small_queue k q" "k + length msgs \<le> 900" "\<forall>m \<in> set msgs. length m \<le> 500"
  shows "\<exists>ds q'. enqueue_messages now i msgs q = Some ((concat (map (\<lambda>m. line (''   Enqueued: '' @ m)) msgs), None), q')
    \<and> put_all (map PString msgs) q ds q' \<and> small_queue (k + length msgs) q'"
  using assms
proof (induction msgs arbitrary: k i q)
  case Nil
  then show ?case using put_all_Nil by auto
next
  case (Cons m msgs)
  have p: "small_payload (PString m)" using Cons.prems(3) by (simp add: small_payload_def)
  obtain d q1 where T: "q_TryEnqueue (PString m) (now i) q = Some (None, q1)" "put_small k (PString m) (now i) q d q1"
    using small_TryEnqueue [OF Cons.prems(1) _ p, of "now i"] Cons.prems(2) by auto
  have "small_queue (Suc k) q1" using T(2) by (simp add: put_small_def)
  then obtain ds q' where "enqueue_messages now (Suc i) msgs q1 = Some ((concat (map (\<lambda>m. line (''   Enqueued: '' @ m)) msgs), None), q')"
    "put_all (map PString msgs) q1 ds q'" "small_queue (Suc k + length msgs) q'"
    using Cons.IH [of "Suc k" q1 "Suc i"] Cons.prems(2,3) by auto
  then show ?case using T(1) put_all_Cons [OF T(2) _ Cons.prems(1)] by auto
qed

text \<open>A consumer that joins, and one that reads until nothing is left.\<close>

lemma read_frame:
  "q_TryRead clk k p q = Some (r, q') \<Longrightarrow> q_data q' = q_data q \<and> q_closed q' = q_closed q \<and> q_maxItems q' = q_maxItems q
     \<and> same_settings q q' \<and> q_dataIDSequence q' = q_dataIDSequence q \<and> cm_consumers (q_consumers q') = cm_consumers (q_consumers q)"
  by (auto simp: q_TryRead_def q_set_reading_def same_settings_def)

lemma join_frame:
  "q_AddConsumer uuid now q = (p, q') \<Longrightarrow> q_data q' = q_data q \<and> q_closed q' = q_closed q \<and> q_maxItems q' = q_maxItems q
     \<and> same_settings q q' \<and> q_dataIDSequence q' = q_dataIDSequence q \<and> c_group (cm_cstore (q_consumers q') p) = None"
  by (auto simp: q_AddConsumer_def cm_AddConsumer_def cm_register_def updateActiveConsumers_def same_settings_def NewConsumer_def
      c_SetPosition_def Let_def split: option.splits)

lemma small_join:
  assumes q: "small_queue k q" and u: "uuid \<notin> fst ` set (cm_consumers (q_consumers q))"
  shows "\<exists>p q'. q_AddConsumer uuid now q = (p, q') \<and> small_queue k q' \<and> q_live p q' \<and> q_left p q' = q_items q \<and> q_items q' = q_items q
    \<and> c_group (cm_cstore (q_consumers q') p) = None \<and> same_settings q q' \<and> q_dataIDSequence q' = q_dataIDSequence q
    \<and> cm_consumers (q_consumers q') = cm_consumers (q_consumers q) @ [(uuid, p)]
    \<and> (\<forall>p'. q_live p' q \<longrightarrow> p' \<noteq> p \<and> q_live p' q' \<and> q_left p' q' = q_left p' q
         \<and> c_group (cm_cstore (q_consumers q') p') = c_group (cm_cstore (q_consumers q) p'))"
proof -
  have s: "q_inv q" "\<not> q_closed q" using q by (simp_all add: small_queue_def)
  obtain p q' where e: "q_AddConsumer uuid now q = (p, q')" by fastforce
  note A = q_AddConsumer_spec [OF s(1) u e] and F = join_frame [OF e]
  have "small_queue k q'" using small_frame [OF q] A(1) F by (simp add: undisturbed_def)
  then show ?thesis
    using A F s(2) e unfolding undisturbed_def by (auto simp: q_live_def q_reader_def)
qed

lemma read_all_prints:
  assumes "small_queue k q" "q_live p q" "length (q_left p q) < length clks"
  shows "\<exists>q'. read_all show_item p clks q = Some ((concat (map show_item (q_left p q)), True), q') \<and> small_queue k q'
    \<and> q_items q' = q_items q \<and> q_left p q' = [] \<and> same_settings q q' \<and> q_dataIDSequence q' = q_dataIDSequence q
    \<and> cm_consumers (q_consumers q') = cm_consumers (q_consumers q)
    \<and> (\<forall>p'. q_live p' q' = q_live p' q \<and> c_group (cm_cstore (q_consumers q') p') = c_group (cm_cstore (q_consumers q) p')
         \<and> (\<not> same_cursor q p p' \<longrightarrow> q_left p' q' = q_left p' q))"
  using assms
proof (induction clks arbitrary: q)
  case (Cons clk clks)
  have s: "q_inv q" using Cons.prems(1) by (simp add: small_queue_def)
  obtain q1 where T: "q_TryRead clk 0 p q = Some (if q_left p q = [] then None else Some (hd (q_left p q)), q1)"
    "consumed p (take 1 (q_left p q)) (tl (q_left p q)) q q1"
    by (rule q_TryRead_consumed [OF s Cons.prems(2), where clk = clk and k = 0])
  note F = read_frame [OF T(1)]
  have S: "small_queue k q1" using small_frame [OF Cons.prems(1)] T(2) F by (simp add: consumed_def)
  have left: "q_left p q1 = tl (q_left p q)" using T(2) by (simp add: consumed_def same_cursor_def)
  show ?case
  proof (cases "q_left p q")
    case Nil
    then show ?thesis using T S F left by (auto simp: consumed_def)
  next
    case (Cons d rest)
    have live: "q_live p q1" using T(2) \<open>q_live p q\<close> by (simp add: consumed_def)
    obtain q' where I: "read_all show_item p clks q1 = Some ((concat (map show_item (q_left p q1)), True), q')" "small_queue k q'"
      "q_items q' = q_items q1" "q_left p q' = []" "same_settings q1 q'" "q_dataIDSequence q' = q_dataIDSequence q1"
      "cm_consumers (q_consumers q') = cm_consumers (q_consumers q1)"
      "\<forall>p'. q_live p' q' = q_live p' q1 \<and> c_group (cm_cstore (q_consumers q') p') = c_group (cm_cstore (q_consumers q1) p')
         \<and> (\<not> same_cursor q1 p p' \<longrightarrow> q_left p' q' = q_left p' q1)"
      using Cons.IH [OF S live] Cons.prems(3) left Cons by auto
    have cur: "same_cursor q1 p p' = same_cursor q p p'" for p' using T(2) by (simp add: consumed_def same_cursor_def)
    have "read_all show_item p (clk # clks) q = Some ((concat (map show_item (q_left p q)), True), q')"
      using T(1) I(1) left Cons by simp
    then show ?thesis
      using I T(2) F same_settings_trans [of q q1 q'] cur by (auto simp: consumed_def)
  qed
qed simp

lemma small_NewQueue:
  assumes "length name \<le> 100"
  shows "small_queue 0 (NewQueue name now sequence)" "q_items (NewQueue name now sequence) = []"
    "q_dataIDSequence (NewQueue name now sequence) = sequence" "cm_consumers (q_consumers (NewQueue name now sequence)) = []"
proof -
  show "small_queue 0 (NewQueue name now sequence)" "q_items (NewQueue name now sequence) = []"
    unfolding NewQueue_def NewQueueWithTTL_def by (intro small_new [OF assms]; simp)+
  show "q_dataIDSequence (NewQueue name now sequence) = sequence" "cm_consumers (q_consumers (NewQueue name now sequence)) = []"
    by (simp_all add: NewQueue_def NewQueueWithTTL_def NewQueueWithConfig_def NewConsumerManager_def Let_def)
qed

lemma show_nat_small: "n < 100 \<Longrightarrow> length (show_nat n) \<le> 2"
  by (simp add: show_nat.simps [of n] show_nat.simps [of "n div 10"])

lemma more_items_small: "\<forall>p \<in> set more_items. small_payload p"
proof -
  have "length (show_nat i) \<le> 495" if "i < 6" for i using show_nat_small [of i] that by simp
  then show ?thesis by (auto simp: more_items_def small_payload_def)
qed

lemma dequeued_lines:
  assumes "map qd_Payload ds = map PString ms" "map qd_ID ds = map (\<lambda>j. sequence + of_nat (Suc j)) [0..<length ms]"
  shows "concat (map dequeued ds) = concat (map (\<lambda>i. line (''   Dequeued: '' @ ms ! i @ '' (ID: '' @ uint64_s (sequence + of_nat (Suc i)) @ '')'')) [0..<length ms])"
proof -
  have n: "length ds = length ms" using assms(1) by (metis length_map)
  have "map dequeued ds = map (\<lambda>i. line (''   Dequeued: '' @ ms ! i @ '' (ID: '' @ uint64_s (sequence + of_nat (Suc i)) @ '')'')) [0..<length ms]"
  proof (rule nth_equalityI)
    fix i assume "i < length (map dequeued ds)"
    then have i: "i < length ms" using n by simp
    then have "qd_Payload (ds ! i) = PString (ms ! i)" "qd_ID (ds ! i) = sequence + of_nat (Suc i)"
      using arg_cong [OF assms(1), of "\<lambda>xs. xs ! i"] arg_cong [OF assms(2), of "\<lambda>xs. xs ! i"] n by simp_all
    then show "map dequeued ds ! i = map (\<lambda>i. line (''   Dequeued: '' @ ms ! i @ '' (ID: '' @ uint64_s (sequence + of_nat (Suc i)) @ '')'')) [0..<length ms] ! i"
      using i n by (simp add: dequeued_def payload_s_def)
  qed (simp add: n)
  then show ?thesis by simp
qed

lemma item_lines: "map qd_Payload ds = map PString ms \<Longrightarrow> concat (map item_line ds) = concat (map (\<lambda>m. line (''     '' @ m)) ms)"
  by (induction ds arbitrary: ms) (auto simp: item_line_def payload_s_def map_eq_Cons_conv)

text \<open>The basic example prints what its comments say of reading: whatever the clocks and the identifiers
  (three different ones), the first consumer prints the four messages in order, each with its number
  (in the form that Go gives a number printed with \<open>%s\<close>), and each of the two later consumers prints all
  nine items, the messages that were read before as well.\<close>

theorem basic_usage_output:
  assumes "distinct (map (bw_uuid w) [0..<3])" and "4 < length clks" and "9 < length clks1" and "9 < length clks2"
  shows "\<exists>q q'. basic_enqueue_dequeue w clks (NewQueue ''example-queue'' now sequence) =
      Some ((concat (map (\<lambda>m. line (''   Enqueued: '' @ m)) messages) @ line (''   Created consumer: '' @ bw_uuid w 0) @ line ''   Reading messages:'' @
        concat (map (\<lambda>i. line (''   Dequeued: '' @ messages ! i @ '' (ID: '' @ uint64_s (sequence + of_nat (Suc i)) @ '')'')) [0..<4]), None), q)
    \<and> basic_consumers w clks1 clks2 q =
      Some (line (''   Consumer 1 ID: '' @ bw_uuid w 1) @ line (''   Consumer 2 ID: '' @ bw_uuid w 2) @
        line ''   Consumer 1 reads:'' @ concat (map (\<lambda>m. line (''     '' @ m)) (messages @ map (\<lambda>i. ''Item '' @ show_nat i) [1..<6])) @
        line ''   Consumer 2 reads:'' @ concat (map (\<lambda>m. line (''     '' @ m)) (messages @ map (\<lambda>i. ''Item '' @ show_nat i) [1..<6])), q')
    \<and> length (q_items q') = 9"
proof -
  let ?q0 = "NewQueue ''example-queue'' now sequence"
  have u: "bw_uuid w 1 \<noteq> bw_uuid w 0" "bw_uuid w 2 \<noteq> bw_uuid w 0" "bw_uuid w 2 \<noteq> bw_uuid w 1"
    using assms(1) by (auto simp: upt_rec numeral_3_eq_3 numeral_2_eq_2)
  have "length ''example-queue'' \<le> 100" by simp
  note N = small_NewQueue [OF this, of now sequence]
  have m: "\<forall>m \<in> set messages. length m \<le> 500" "length messages = 4" by (simp_all add: messages_def)
  obtain ds q1 where E1: "enqueue_messages (bw_now w) 0 messages ?q0 = Some ((concat (map (\<lambda>m. line (''   Enqueued: '' @ m)) messages), None), q1)"
    "put_all (map PString messages) ?q0 ds q1" "small_queue 4 q1"
    using small_enqueue_messages [OF N(1) _ m(1), of "bw_now w" 0] m(2) by auto
  have P1: "q_items q1 = ds" "map qd_Payload ds = map PString messages" "q_dataIDSequence q1 = sequence + 4"
    "map qd_ID ds = map (\<lambda>j. sequence + of_nat (Suc j)) [0..<length messages]" "cm_consumers (q_consumers q1) = []"
    using E1(2) N m(2) unfolding put_all_def by auto
  have n1: "length ds = 4" using P1(2) m(2) by (metis length_map)
  obtain p q2 where J1: "q_AddConsumer (bw_uuid w 0) (bw_now w 4) q1 = (p, q2)" "small_queue 4 q2" "q_live p q2" "q_left p q2 = ds"
    "q_items q2 = ds" "cm_consumers (q_consumers q2) = [(bw_uuid w 0, p)]"
    using small_join [OF E1(3), of "bw_uuid w 0" "bw_now w 4"] P1 by auto
  obtain q3 where R1: "read_all dequeued p clks q2 = Some ((concat (map dequeued ds), True), q3)" "small_queue 4 q3"
    "q_items q3 = ds" "cm_consumers (q_consumers q3) = [(bw_uuid w 0, p)]"
    using read_all_prints [OF J1(2,3), of clks dequeued] J1(4-6) assms(2) n1 by auto
  have S1: "basic_enqueue_dequeue w clks ?q0 = Some ((concat (map (\<lambda>m. line (''   Enqueued: '' @ m)) messages)
      @ line (''   Created consumer: '' @ bw_uuid w 0) @ line ''   Reading messages:'' @ concat (map dequeued ds), None), q3)"
    using E1(1) J1(1) R1(1) by (simp add: basic_enqueue_dequeue_def)
  have l6: "length more_items = 5" by (simp add: more_items_def)
  obtain ds2 q4 where E2: "enqueue_all (bw_now w) 5 more_items q3 = Some q4" "put_all more_items q3 ds2 q4" "small_queue 9 q4"
    using small_enqueue_all [OF R1(2) _ more_items_small, of "bw_now w" 5] l6 by fastforce
  have P2: "q_items q4 = ds @ ds2" "map qd_Payload ds2 = more_items" "cm_consumers (q_consumers q4) = [(bw_uuid w 0, p)]"
    using E2(2) R1 by (auto simp: put_all_def)
  have "length ds2 = 5" using arg_cong [OF P2(2), of length] l6 by simp
  then have n2: "length (ds @ ds2) = 9" using n1 by simp
  obtain p1 q5 where J2: "q_AddConsumer (bw_uuid w 1) (bw_now w 10) q4 = (p1, q5)" "small_queue 9 q5" "q_live p1 q5" "q_left p1 q5 = ds @ ds2"
    "q_items q5 = ds @ ds2" "cm_consumers (q_consumers q5) = [(bw_uuid w 0, p), (bw_uuid w 1, p1)]" "c_group (cm_cstore (q_consumers q5) p1) = None"
    using small_join [OF E2(3), of "bw_uuid w 1" "bw_now w 10"] P2 u by auto
  obtain p2 q6 where J3: "q_AddConsumer (bw_uuid w 2) (bw_now w 11) q5 = (p2, q6)" "small_queue 9 q6" "q_live p2 q6" "q_left p2 q6 = ds @ ds2"
    "q_items q6 = ds @ ds2" "p1 \<noteq> p2" "q_live p1 q6" "q_left p1 q6 = ds @ ds2" "c_group (cm_cstore (q_consumers q6) p1) = None"
    using small_join [OF J2(2), of "bw_uuid w 2" "bw_now w 11"] J2(3-7) u by auto
  obtain q7 where R2: "read_all item_line p1 clks1 q6 = Some ((concat (map item_line (ds @ ds2)), True), q7)" "small_queue 9 q7"
    "q_live p2 q7" "q_left p2 q7 = ds @ ds2" "q_items q7 = ds @ ds2"
    using read_all_prints [OF J3(2,7), of clks1 item_line] J3(3-6,8,9) assms(3) n2 by (auto simp: same_cursor_def)
  obtain q8 where R3: "read_all item_line p2 clks2 q7 = Some ((concat (map item_line (ds @ ds2)), True), q8)" "q_items q8 = ds @ ds2"
    using read_all_prints [OF R2(2,3), of clks2 item_line] R2(4,5) assms(4) n2 by auto
  have S2: "basic_consumers w clks1 clks2 q3 = Some (line (''   Consumer 1 ID: '' @ bw_uuid w 1) @ line (''   Consumer 2 ID: '' @ bw_uuid w 2) @
        line ''   Consumer 1 reads:'' @ concat (map item_line (ds @ ds2)) @ line ''   Consumer 2 reads:'' @ concat (map item_line (ds @ ds2)), q8)"
    using E2(1) J2(1) J3(1) R2(1) R3(1) by (simp add: basic_consumers_def)
  have items: "map qd_Payload (ds @ ds2) = map PString (messages @ map (\<lambda>i. ''Item '' @ show_nat i) [1..<6])"
    using P1(2) P2(2) by (simp add: more_items_def)
  have "length (q_items q8) = 9" using R3(2) n2 by simp
  then show ?thesis
    using S1 S2 unfolding item_lines [OF items] dequeued_lines [OF P1(2,4)] m(2) by blast
qed

theorem basic_usage_output_witness:
  "\<exists>q. basic_enqueue_dequeue \<lparr>bw_now = int, bw_clk = \<lambda>_ _. 20, bw_uuid = \<lambda>i. ''c'' @ show_nat i, bw_pointers = \<lambda>_. [], bw_rfc3339 = \<lambda>_. []\<rparr>
      (replicate 5 (\<lambda>_. 20)) (NewQueue ''example-queue'' 0 0) =
      Some ((concat (map (\<lambda>m. line (''   Enqueued: '' @ m)) messages) @ line ''   Created consumer: c0'' @ line ''   Reading messages:'' @
        concat (map (\<lambda>i. line (''   Dequeued: '' @ messages ! i @ '' (ID: '' @ uint64_s (0 + of_nat (Suc i)) @ '')'')) [0..<4]), None), q)"
proof -
  let ?w = "\<lparr>bw_now = int, bw_clk = \<lambda>_ _. 20, bw_uuid = \<lambda>i. ''c'' @ show_nat i, bw_pointers = \<lambda>_. [], bw_rfc3339 = \<lambda>_. []\<rparr>"
  have u: "distinct (map (bw_uuid ?w) [0..<3])" by code_simp
  have "bw_uuid ?w 0 = ''c0''" by code_simp
  then show ?thesis
    using basic_usage_output [OF u, of "replicate 5 (\<lambda>_. 20)" "replicate 10 (\<lambda>_. 20)" "replicate 10 (\<lambda>_. 20)" 0 0] by auto
qed

text \<open>
  The last section is about the item just put, but its consumer is new, so it reads the first item of the
  queue: what is printed are the number and the event of the first message.
\<close>

theorem history_of_first:
  assumes q: "small_queue k q" "k < 900" and items: "q_items q = d # rest" and u: "bw_uuid w 4 \<notin> fst ` set (cm_consumers (q_consumers q))"
  shows "\<exists>out q'. basic_history w q =
    Some (line (''   Item ID: '' @ uint64_s (qd_ID d)) @ line ''   Enqueue Event:'' @
      line (''     - '' @ ev_EventType (qd_EnqueueEvent d) @ '' at '' @ bw_rfc3339 w (ev_Timestamp (qd_EnqueueEvent d)) @ '' in queue '' @
        ev_QueueName (qd_EnqueueEvent d)) @ line ''   Dequeue History:'' @ out, q')"
proof -
  have p: "small_payload (PString ''Tracked Item'')" by (simp add: small_payload_def)
  obtain d' q1 where T: "q_TryEnqueue (PString ''Tracked Item'') (bw_now w 13) q = Some (None, q1)" "put_small k (PString ''Tracked Item'') (bw_now w 13) q d' q1"
    using small_TryEnqueue [OF q p] by blast
  have S: "small_queue (Suc k) q1" "q_items q1 = d # rest @ [d']" "cm_consumers (q_consumers q1) = cm_consumers (q_consumers q)"
    using T(2) items by (auto simp: put_small_def stored_def)
  obtain p q2 where J: "q_AddConsumer (bw_uuid w 4) (bw_now w 14) q1 = (p, q2)" "small_queue (Suc k) q2" "q_live p q2" "q_left p q2 = d # rest @ [d']"
    using small_join [OF S(1), of "bw_uuid w 4" "bw_now w 14"] S(2,3) u by auto
  have inv: "q_inv q2" using J(2) by (simp add: small_queue_def)
  obtain q3 where R: "q_TryRead (bw_clk w 2) 0 p q2 = Some (Some d, q3)"
    using q_TryRead_consumed [OF inv J(3), of "bw_clk w 2" 0] J(4) by auto
  show ?thesis using T(1) J(1) R by (simp add: basic_history_def Let_def)
qed

text \<open>Likewise, the batch that is read is the first two items of the queue, not of the batch just put.\<close>

theorem batch_of_first:
  assumes inv: "q_inv q" "\<not> q_closed q" and items: "q_items q = d1 # d2 # rest"
    and u: "bw_uuid w 3 \<notin> fst ` set (cm_consumers (q_consumers q))" and r: "basic_batch w q = Some ((out, None), q')"
  shows "out = line ''   Enqueued batch of 4 items'' @ line (''   Read batch of 2 items: '' @ bw_pointers w [d1, d2])"
proof -
  have p: "\<forall>p \<in> set batch_data. payload_ok p" "batch_data \<noteq> []" by (simp_all add: batch_data_def MaxInt64_def)
  obtain err q1 where E: "q_TryEnqueueBatch batch_data (bw_clk w 0) q = Some (err, q1)" "err = None \<Longrightarrow> \<exists>ds. stored ds q q1"
    by (rule q_TryEnqueueBatch_open [OF inv p, of "bw_clk w 0"]) blast
  have err: "err = None" using r E(1) by (auto simp: basic_batch_def split: if_splits)
  then obtain ds where S: "q_inv q1" "\<not> q_closed q1" "q_items q1 = d1 # d2 # rest @ ds" "q_consumers q1 = q_consumers q"
    using E(2) items by (auto simp: stored_def)
  obtain p q2 where J: "q_AddConsumer (bw_uuid w 3) (bw_now w 12) q1 = (p, q2)" by fastforce
  have u1: "bw_uuid w 3 \<notin> fst ` set (cm_consumers (q_consumers q1))" using u S(4) by simp
  note A = q_AddConsumer_spec [OF S(1) u1 J]
  have L: "q_inv q2" "q_live p q2" "q_left p q2 = d1 # d2 # rest @ ds" "\<not> q_closed q2"
    using A S(2,3) by (simp_all add: undisturbed_def q_live_def)
  have ok: "reader_ok (q_data q2) (q_reading p q2)" using q_reader_ok [OF L(1,4)] L(2) by (simp add: q_live_def)
  obtain cgs where "c_read_more (bw_clk w 1) 0 False (q_data q2) 2 [] (q_reading p q2) = Some ([] @ take 2 (left_to_read (q_data q2) (q_reading p q2)), cgs)"
    by (rule c_read_more_left [OF q_invD(1,2) [OF L(1)] ok])
  then have "c_TryReadBatch (bw_clk w 1) 0 (q_closed q2) (q_data q2) 2 (q_reading p q2) = Some ([d1, d2], cgs)"
    using L(3,4) by (simp add: c_TryReadBatch_def q_left_def)
  moreover have "show_nat (Suc (Suc 0)) = ''2''" by code_simp
  ultimately show ?thesis using r E(1) err J by (simp add: basic_batch_def)
qed

end
