(* ===== verification/MQ_Advanced.thy ===== *)
theory MQ_Advanced
  imports MQ_BasicUsage MQ_Pipeline
begin

text \<open>
  \<^verbatim>\<open>examples/advanced_usage.go\<close>: its five examples as what each prints and its queue. In the first and the
  last three, nothing else uses the queue; in the second, each producer and each consumer is a
  goroutine with what the others do in between.
\<close>

section \<open>Expiration\<close>

definition numbered :: "string \<Rightarrow> nat \<Rightarrow> payload list" where
  "numbered name n = map (\<lambda>i. PString (name @ show_nat i)) [1..<Suc n]"

definition total_items :: "queue \<Rightarrow> string" where
  "total_items q = show_int (qs_TotalItems (q_GetQueueStats q))"

text \<open>A receive that does not wait.\<close>

definition chan_try_receive :: "nat chan \<Rightarrow> (nat \<times> nat chan) option" where
  "chan_try_receive ch =
     (case ch_buf ch of
        n # ns \<Rightarrow> Some (n, ch\<lparr>ch_buf := ns\<rparr>)
      | [] \<Rightarrow> if ch_closed ch then Some (0, ch) else None)"

text \<open>
  1. The queue with a TTL of two seconds; \<open>clk\<close> is the clock of the expiration pass, after three seconds
  of sleep. The consumer has no group.
\<close>

definition expiration_example :: "(nat \<Rightarrow> time) \<Rightarrow> string \<Rightarrow> clock \<Rightarrow> queue \<Rightarrow> (string \<times> queue) option" where
  "expiration_example now uuid clk q =
     do {
       q \<leftarrow> enqueue_all now 0 (numbered ''Item '' 5) q;
       let (consumer, q) = q_AddConsumer uuid (now 5) q;
       let out = concat (map (\<lambda>i. line (''   Enqueued: Item '' @ show_nat i)) [1..<6]) @
             line (''   Queue has '' @ total_items q @ '' items'') @ line ''   Waiting for items to expire...'';
       (expired, q) \<leftarrow> q_ForceExpiration clk q;
       let c = cm_cstore (q_consumers q) consumer;
       let (note, ch) = (case chan_try_receive (c_notificationCh c) of
             Some (expiredCount, ch) \<Rightarrow> (line (''   Consumer received notification: '' @ show_nat expiredCount @ '' items expired''), ch)
           | None \<Rightarrow> (line ''   No expiration notification received'', c_notificationCh c));
       let q = q\<lparr>q_consumers := (q_consumers q)\<lparr>cm_cstore := (cm_cstore (q_consumers q))(consumer := c\<lparr>c_notificationCh := ch\<rparr>)\<rparr>\<rparr>;
       Some (out @ line (''   Expired '' @ show_nat expired @ '' items'') @ note @ line (''   Queue now has '' @ total_items q @ '' items''), q)
     }"

section \<open>Producers and consumers\<close>

text \<open>2. A producer, from its \<open>j\<close>-th item on: before each item what the others do, the time and the waits.\<close>

fun advanced_producer :: "nat \<Rightarrow> nat \<Rightarrow> ((queue \<Rightarrow> queue) \<times> time \<times> world) list \<Rightarrow> queue \<Rightarrow> ((string \<times> stage_end) \<times> queue) option" where
  "advanced_producer producerID j [] q = Some (([], if j \<ge> 10 then Over else Going), q)"
| "advanced_producer producerID j ((others, now, env) # turns) q =
     (if j \<ge> 10 then Some (([], Over), q)
      else
        let item = ''Producer'' @ show_nat producerID @ ''-Item'' @ show_nat j
        in case q_Enqueue (PString item) now env (others q) of
             None \<Rightarrow> None
           | Some (Blocked, q) \<Rightarrow> Some (([], Stuck), q)
           | Some (Returned err, q) \<Rightarrow>
               map_option
                 (\<lambda>((out, how), q).
                    (((case err of
                         Some e \<Rightarrow> line (''Producer '' @ show_nat producerID @ '' error: '' @ Error e)
                       | None \<Rightarrow> line (''   Producer '' @ show_nat producerID @ '': enqueued '' @ item)) @ out, how), q))
                 (advanced_producer producerID (Suc j) turns q))"

text \<open>
  A consumer: before each read what the others do; when nothing is read, whether the producers are done
  by then, and what the others do before the statistics are taken. The result says what was printed, the
  number of items consumed, and whether the loop was left.
\<close>

record reader_turn =
  at_clk :: clock
  at_read :: "queue \<Rightarrow> queue"
  at_done :: bool
  at_stats :: "queue \<Rightarrow> queue"

definition read_line :: "nat \<Rightarrow> queue_data \<Rightarrow> string" where
  "read_line consumerID data = line (''   Consumer '' @ show_nat consumerID @ '': read '' @ payload_s (qd_Payload data))"

fun advanced_reader :: "nat \<Rightarrow> cptr \<Rightarrow> reader_turn list \<Rightarrow> queue \<Rightarrow> ((string \<times> nat \<times> bool) \<times> queue) option" where
  "advanced_reader consumerID p [] q = Some (([], 0, False), q)"
| "advanced_reader consumerID p (t # ts) q =
     (case q_TryRead (at_clk t) 0 p (at_read t q) of
        None \<Rightarrow> None
      | Some (None, q) \<Rightarrow>
          let q = at_stats t q
          in if at_done t \<and> qs_TotalItems (q_GetQueueStats q) = 0 then Some (([], 0, True), q)
             else advanced_reader consumerID p ts q
      | Some (Some data, q) \<Rightarrow>
          map_option (\<lambda>((out, count, over), q). ((read_line consumerID data @ out, Suc count, over), q))
            (advanced_reader consumerID p ts q))"

definition advanced_consumer :: "nat \<Rightarrow> string \<Rightarrow> time \<Rightarrow> reader_turn list \<Rightarrow> queue \<Rightarrow> ((string \<times> nat \<times> bool) \<times> queue) option" where
  "advanced_consumer consumerID uuid now ts q =
     (let (p, q) = q_AddConsumer uuid now q
      in map_option (\<lambda>((out, r), q). ((line (''   Consumer '' @ show_nat consumerID @ '' ID: '' @ uuid) @ out, r), q))
           (advanced_reader consumerID p ts q))"

section \<open>The memory limit\<close>

text \<open>3. The loop that enqueues until there is an error, with the time and the waits of each \<^verbatim>\<open>Enqueue\<close>.\<close>

definition large_payload :: payload where
  "large_payload = PBytes (map (\<lambda>i. of_nat (i mod 256)) [0..<50 * 1024])"

fun fill_queue :: "payload \<Rightarrow> (time \<times> world) list \<Rightarrow> nat \<Rightarrow> queue \<Rightarrow> ((string \<times> stage_end) \<times> queue) option" where
  "fill_queue payload [] cnt q = Some (([], Going), q)"
| "fill_queue payload ((now, env) # turns) cnt q =
     (case q_Enqueue payload now env q of
        None \<Rightarrow> None
      | Some (Blocked, q) \<Rightarrow> Some (([], Stuck), q)
      | Some (Returned (Some err), q) \<Rightarrow>
          Some ((line (''   Memory limit reached after '' @ show_nat cnt @ '' items'') @ line (''   Error: '' @ Error err), Over), q)
      | Some (Returned None, q) \<Rightarrow>
          let cnt = cnt + 1;
              stats = q_GetQueueStats q
          in map_option
               (\<lambda>((out, how), q').
                  (((if cnt mod 5 = 0
                     then line (''   Enqueued '' @ show_nat cnt @ '' items, memory usage: '' @ show_int (qs_MemoryUsage stats) @ '' bytes (''
                       @ fmt_f 1 (qs_MemoryPercent stats) @ ''%)'')
                     else []) @ out, how), q'))
               (fill_queue payload turns cnt q))"

section \<open>A changed TTL, and positions\<close>

text \<open>\<^verbatim>\<open>Enqueue\<close> of several items, of which no error is looked at; whether it got through (nobody wakes it).\<close>

fun enqueue_wait :: "(nat \<Rightarrow> time) \<Rightarrow> nat \<Rightarrow> payload list \<Rightarrow> queue \<Rightarrow> (bool \<times> queue) option" where
  "enqueue_wait now i [] q = Some (True, q)"
| "enqueue_wait now i (p # ps) q =
     (case q_Enqueue p (now i) [] q of
        None \<Rightarrow> None
      | Some (Blocked, q) \<Rightarrow> Some (False, q)
      | Some (Returned err, q) \<Rightarrow> enqueue_wait now (Suc i) ps q)"

text \<open>4. The TTL is made shorter.\<close>

definition ttl_example :: "(nat \<Rightarrow> time) \<Rightarrow> clock \<Rightarrow> queue \<Rightarrow> (string \<times> queue) option" where
  "ttl_example now clk q =
     do {
       (through, q) \<leftarrow> enqueue_wait now 0 (numbered ''Long TTL Item '' 3) q;
       if \<not> through then Some ([], q)
       else do {
         let out = line (''   Added items with TTL: '' @ show_duration (q_ttl q)) @ line (''   Queue has '' @ total_items q @ '' items'');
         let q = q_SetTTL 100000000 q;
         let out = out @ line (''   Changed TTL to: '' @ show_duration (q_ttl q));
         (expired, q) \<leftarrow> q_ForceExpiration clk q;
         Some (out @ line (''   Expired '' @ show_nat expired @ '' items with new TTL'') @ line (''   Queue now has '' @ total_items q @ '' items''), q)
       }
     }"

text \<open>5. Reads of two consumers; \<open>False\<close> when a \<^verbatim>\<open>Read\<close> is blocked.\<close>

fun read_some :: "(queue_data \<Rightarrow> string) \<Rightarrow> cptr \<Rightarrow> (nat \<Rightarrow> clock) list \<Rightarrow> queue \<Rightarrow> ((string \<times> bool) \<times> queue) option" where
  "read_some show_item p [] q = Some (([], True), q)"
| "read_some show_item p (clk # clks) q =
     (case c_Read clk p [] q of
        None \<Rightarrow> None
      | Some (Blocked, q) \<Rightarrow> Some (([], False), q)
      | Some (Returned data, q) \<Rightarrow>
          map_option (\<lambda>((out, through), q). (((case data of None \<Rightarrow> [] | Some d \<Rightarrow> show_item d) @ out, through), q))
            (read_some show_item p clks q))"

definition recovery_line :: "string \<Rightarrow> queue_data \<Rightarrow> string" where
  "recovery_line name data = line (name @ payload_s (qd_Payload data))"

definition recovery_stats :: "consumer_stats \<Rightarrow> string" where
  "recovery_stats cs =
     line (''   Consumer '' @ cs_ID cs @ '': read '' @ show_int (cs_TotalItemsRead cs) @ '', unread '' @ show_int (cs_UnreadItems cs))"

definition recovery_example :: "(nat \<Rightarrow> time) \<Rightarrow> (nat \<Rightarrow> string) \<Rightarrow> (nat \<Rightarrow> nat \<Rightarrow> clock) \<Rightarrow> queue \<Rightarrow> ((string \<times> bool) \<times> queue) option" where
  "recovery_example now uuid clk q =
     do {
       (through, q) \<leftarrow> enqueue_wait now 0 (numbered ''Recovery Item '' 10) q;
       if \<not> through then Some (([], False), q)
       else do {
         let (consumer1, q) = q_AddConsumer (uuid 0) (now 10) q;
         ((out1, through), q) \<leftarrow> read_some (recovery_line ''   Read: '') consumer1 (map clk [0..<5]) q;
         let out = line ''   Consumer created, reading 5 items...'' @ out1;
         if \<not> through then Some ((out, False), q)
         else do {
           let (consumer2, q) = q_AddConsumer (uuid 1) (now 11) q;
           ((out2, through), q) \<leftarrow> read_some (recovery_line ''   New consumer read: '') consumer2 (map clk [5..<8]) q;
           let out = out @ line ''   New consumer created, reading first 3 items...'' @ out2;
           if \<not> through then Some ((out, False), q)
           else do {
             stats \<leftarrow> q_GetConsumerStats q;
             Some ((out @ line ''   Consumer statistics:'' @ concat (map recovery_stats stats), True), q)
           }
         }
       }
     }"

section \<open>The consumers wait for the items to expire\<close>

definition reader_ok_turn :: "(event \<Rightarrow> bool) \<Rightarrow> cptr \<Rightarrow> reader_turn \<Rightarrow> bool" where
  "reader_ok_turn ok p t \<longleftrightarrow> others_run ok p (at_read t) \<and> others_run ok p (at_stats t)"

lemma items_stay:
  assumes "calm_for (\<lambda>_. True) ok p" "reading_good (\<lambda>_. True) p q" "ran ok p ds q q'" "q_items q \<noteq> []"
  shows "q_items q' \<noteq> []"
proof -
  obtain evs where e: "q_run q evs q'" "list_all (\<lambda>ev. ok ev \<or> own p ev) evs" using assms(3) by (auto simp: ran_def)
  have "\<not> q_closed q'" using ran_calm(1) [OF assms(1-3)] by (simp add: reading_good_def q_live_def)
  then have "q_items q' = drop (removed evs) (q_items q @ puts evs)"
    using run_items [OF e(1) reading_good_inv [OF assms(2)]] by blast
  then show ?thesis using calm_for_history(2) [OF assms(1) e(2)] assms(4) by simp
qed

text \<open>C36. The consumers of the second advanced example do not end when they have read everything: they wait
  until the queue has no items, and reading takes none out. Whatever the producers and the other
  consumers do, and for however many rounds, as long as nothing expires and the consumer stays, a
  consumer that started on a queue with an item has not left its loop, although it has printed, in order
  and once, items that were there or were put since.\<close>

theorem readers_wait:
  assumes "calm_for (\<lambda>_. True) ok p" and "reading_good (\<lambda>_. True) p q" and "q_items q \<noteq> []" and "\<forall>t \<in> set ts. reader_ok_turn ok p t"
  shows "\<exists>ds q' evs. advanced_reader c p ts q = Some ((concat (map (read_line c) ds), length ds, False), q')
    \<and> q_run q evs q' \<and> ds @ q_left p q' = q_left p q @ puts evs"
proof -
  have "\<exists>ds q'. advanced_reader c p ts q = Some ((concat (map (read_line c) ds), length ds, False), q') \<and> ran ok p ds q q'"
    using assms(2-)
  proof (induction ts arbitrary: q)
    case Nil
    then show ?case using ran_refl reading_good_inv reading_good_known by fastforce
  next
    case (Cons t ts)
    have t: "others_run ok p (at_read t)" "others_run ok p (at_stats t)" using Cons.prems(3) by (simp_all add: reader_ok_turn_def)
    have ts: "\<forall>t \<in> set ts. reader_ok_turn ok p t" using Cons.prems(3) by simp
    obtain data q2 where T: "q_TryRead (at_clk t) 0 p (at_read t q) = Some (data, q2)"
      "ran ok p (case data of None \<Rightarrow> [] | Some d \<Rightarrow> [d]) q q2" "reading_good (\<lambda>_. True) p q2"
      using ran_round [OF assms(1) Cons.prems(1) t(1)] by blast
    show ?case
    proof (cases data)
      case None
      let ?q3 = "at_stats t q2"
      note M = ran_round_more(1,2) [OF assms(1) T(3) t(2)]
      have R: "ran ok p [] q ?q3" using ran_trans [OF _ M(1)] T(2) None by fastforce
      have ne: "q_items ?q3 \<noteq> []" by (rule items_stay [OF assms(1) Cons.prems(1) R Cons.prems(2)])
      then have "qs_TotalItems (q_GetQueueStats ?q3) \<noteq> 0"
        using q_total_items [OF reading_good_inv [OF M(2)]] by (simp add: q_GetQueueStats_def)
      then have "advanced_reader c p (t # ts) q = advanced_reader c p ts ?q3" using T(1) None by (simp add: Let_def)
      then show ?thesis using Cons.IH [OF M(2) ne ts] ran_trans [OF R] by fastforce
    next
      case (Some d)
      have R: "ran ok p [d] q q2" using T(2) Some by simp
      obtain ds q' where L: "advanced_reader c p ts q2 = Some ((concat (map (read_line c) ds), length ds, False), q')" "ran ok p ds q2 q'"
        using Cons.IH [OF T(3) items_stay [OF assms(1) Cons.prems(1) R Cons.prems(2)] ts] by blast
      have "advanced_reader c p (t # ts) q = Some ((concat (map (read_line c) (d # ds)), length (d # ds), False), q')"
        using T(1) Some L(1) by simp
      then show ?thesis using ran_trans [OF R L(2)] by fastforce
    qed
  qed
  then obtain ds q' where L: "advanced_reader c p ts q = Some ((concat (map (read_line c) ds), length ds, False), q')" "ran ok p ds q q'"
    by blast
  then show ?thesis using ran_calm(3) [OF assms(1,2)] by blast
qed

theorem readers_wait_witness:
  "\<exists>ds q' evs. advanced_reader 1 0 (replicate 9 \<lparr>at_clk = \<lambda>_. 7, at_read = \<lambda>q. q, at_done = True, at_stats = \<lambda>q. q\<rparr>) ex_stored
     = Some ((concat (map (read_line 1) ds), length ds, False), q') \<and> ds @ q_left 0 q' = ex_item # puts evs"
proof -
  let ?t = "\<lparr>at_clk = \<lambda>_. 7, at_read = \<lambda>q. q, at_done = True, at_stats = \<lambda>q. q\<rparr>"
  have g: "reading_good (\<lambda>_. True) 0 ex_stored" using ex_stored_inv ex_own(2) by (simp add: reading_good_def)
  have t: "\<forall>t \<in> set (replicate 9 ?t). reader_ok_turn (\<lambda>ev. ev = Quiet) 0 t"
    by (auto simp: reader_ok_turn_def others_run_def intro: exI [of _ "[]"])
  have "q_items ex_stored \<noteq> []" by (simp add: ex_stored_item)
  from readers_wait [OF calm_for_Quiet g this t, of 1] show ?thesis by (auto simp: ex_stored_inv)
qed

section \<open>The full queue\<close>

lemma bytes_size:
  assumes "length (q_name q) \<le> 100" "0 \<le> n" "n + 1000 \<le> q_limit q" "q_limit q \<le> MaxInt64" "q_new_data (PBytes b) now q = (d, q1)" "int (length b) = n"
  shows "n \<le> qd_size d" "qd_size d \<le> q_limit q" "0 \<le> qd_size d"
    "fst (mt_EstimateQueueDataSize (Some d) mt) = qd_size d"
  using assms
  by (auto simp: q_new_data_def NewQueueData_def mt_EstimateQueueDataSize_def Let_def qd_SetSize_def safeAdd_def BaseQueueDataSize_def
      BaseQueueEventSize_def MaxInt64_def q_limit_def)

lemma round_name: "q_enqueue_round wrap d q = Some (Done None q') \<Longrightarrow> q_name q' = q_name q"
  by (auto simp: q_enqueue_round_def same_settings_def Let_def dest!: notify_settings split: if_splits prod.splits option.splits go_error.splits)

lemma round_no_memory_error:
  assumes "fst (mt_EstimateQueueDataSize (Some d) (q_memoryTracker q)) \<le> mt_maxMemory (q_memoryTracker q)"
  shows "q_enqueue_round (\<lambda>e. e) d q \<noteq> Some (Done (Some (MemoryLimitError a b n)) q')"
  using assms
  by (auto simp: q_enqueue_round_def cl_Enqueue_def Let_def split: if_splits prod.splits option.splits go_error.splits)

lemma bytes_Enqueue:
  assumes inv: "q_inv q" and opn: "\<not> q_closed q" and name: "length (q_name q) \<le> 100" and b: "int (length b) + 1000 \<le> q_limit q"
  shows "(\<exists>q'. q_Enqueue (PBytes b) now [] q = Some (Blocked, q'))
    \<or> (\<exists>d q'. q_Enqueue (PBytes b) now [] q = Some (Returned None, q') \<and> stored [d] q q' \<and> q_room (qd_size d) q \<and> int (length b) \<le> qd_size d
         \<and> q_name q' = q_name q)"
proof -
  have lim: "q_limit q \<le> MaxInt64" using q_invD(4) [OF inv] by (simp add: mt_ok_def q_limit_def MaxInt64_def)
  have p: "payload_ok (PBytes b)" using b lim by simp
  obtain d q1 where n: "q_new_data (PBytes b) now q = (d, q1)" "new_item (PBytes b) q now d" "same_queue q q1"
    by (rule q_new_data_spec [OF inv p])
  note S = same_queueD [OF n(3)] and inv1 = same_queue_inv [OF n(3) inv] and F = new_data_sequence [OF n(1)]
  note Z = bytes_size [OF name _ b lim n(1)]
  have d: "0 \<le> qd_size d" "qd_size d \<le> MaxInt64" "payload_ok (qd_Payload d)" using n(2) p Z(3) by (simp_all add: new_item_def)
  have max1: "mt_maxMemory (q_memoryTracker q1) = q_limit q" using S by (simp add: q_limit_def)
  have E: "q_Enqueue (PBytes b) now [] q = q_enqueue_loop d [] q1" using opn n(1) Z(2) max1 by (simp add: q_Enqueue_def)
  show ?thesis
  proof (rule q_enqueue_round_spec [OF inv1 d, of "\<lambda>e. e"])
    assume "q_closed q1"
    then show ?thesis using opn F by simp
  next
    fix q' assume r: "q_room (qd_size d) q1" "q_enqueue_round (\<lambda>e. e) d q1 = Some (Done None q')" "stored [d] q1 q'"
    have "q_room (qd_size d) q" using r(1) S by (simp add: q_room_def)
    moreover have "q_name q' = q_name q" using round_name [OF r(2)] F by (simp add: same_settings_def)
    ultimately show ?thesis using E r(2) stored_same [OF n(3) r(3)] Z(1) by (auto simp: q_enqueue_loop.simps)
  next
    fix q' assume "q_enqueue_round (\<lambda>e. e) d q1 = Some (Wait q')"
    then show ?thesis using E by (simp add: q_enqueue_loop.simps)
  next
    fix q' n' assume "q_enqueue_round (\<lambda>e. e) d q1
      = Some (Done (Some (MemoryLimitError (mt_totalMemory (q_memoryTracker q1)) (mt_maxMemory (q_memoryTracker q1)) n')) q')"
    then show ?thesis using round_no_memory_error [of d q1] Z(2,4) max1 by simp
  qed
qed

text \<open>C37. The third advanced example waits for a memory error that does not come. It enqueues the same bytes until
  there is an error, but \<^verbatim>\<open>Enqueue\<close> waits for space when the item would fit into an empty queue: after
  finitely many items (at most the limit divided by their size) the loop is blocked, until somebody else
  changes the queue, which here is only the expiration of the items after ten minutes, and the line on
  the memory limit has not been printed.\<close>

theorem full_queue_blocks:
  assumes "q_inv q" and "\<not> q_closed q" and "length (q_name q) \<le> 100" and "int (length b) + 1000 \<le> q_limit q"
    and "q_limit q < int (length nows) * int (length b)"
  shows "\<exists>out q'. fill_queue (PBytes b) (map (\<lambda>now. (now, [])) nows) cnt q = Some ((out, Stuck), q')"
proof -
  have "\<exists>out q'. fill_queue (PBytes b) (map (\<lambda>now. (now, [])) nows) cnt q = Some ((out, Stuck), q')"
    if "nows \<noteq> []" "q_inv q" "\<not> q_closed q" "length (q_name q) \<le> 100" "int (length b) + 1000 \<le> q_limit q"
      "q_limit q < sum_list (map qd_size (q_items q)) + int (length nows) * int (length b)"
    using that
  proof (induction nows arbitrary: q cnt)
    case (Cons now nows)
    consider q' where "q_Enqueue (PBytes b) now [] q = Some (Blocked, q')"
      | d q' where "q_Enqueue (PBytes b) now [] q = Some (Returned None, q')" "stored [d] q q'" "q_room (qd_size d) q"
        "int (length b) \<le> qd_size d" "q_name q' = q_name q"
      using bytes_Enqueue [OF Cons.prems(2-5), of now] by blast
    then show ?case
    proof cases
      case 1
      then show ?thesis by simp
    next
      case 2
      have items: "q_items q' = q_items q @ [d]" "q_inv q'" "\<not> q_closed q'" using 2(2) by (simp_all add: stored_def)
      have lim: "q_limit q' = q_limit q" by (rule q_limit_stored [OF 2(2)])
      have "sum_list (map qd_size (q_items q)) \<le> mt_totalMemory (q_memoryTracker q)"
        using q_invD(3) [OF Cons.prems(2)] by (simp add: cl_accounted_def cl_bytes_def q_items_def ChunkNodeSize_def)
      then have le: "sum_list (map qd_size (q_items q')) \<le> q_limit q" using 2(3) items(1) by (simp add: q_room_def q_limit_def)
      have more: "q_limit q' < sum_list (map qd_size (q_items q')) + int (length nows) * int (length b)"
        using Cons.prems(6) 2(4) items(1) lim by (simp add: algebra_simps)
      then have "nows \<noteq> []" using le lim by auto
      then obtain out q'' where "fill_queue (PBytes b) (map (\<lambda>now. (now, [])) nows) (cnt + 1) q' = Some ((out, Stuck), q'')"
        using Cons.IH [of q' "cnt + 1"] items(2,3) 2(5) Cons.prems(4,5) lim more by auto
      then show ?thesis using 2(1) by (simp add: Let_def)
    qed
  qed simp
  moreover have "nows \<noteq> []" "0 \<le> sum_list (map qd_size (q_items q))"
    using assms(4,5) q_invD(3) [OF assms(1)] by (auto simp: cl_accounted_def q_items_def intro!: sum_list_nonneg)
  ultimately show ?thesis using assms by auto
qed

theorem full_queue_blocks_witness:
  "\<exists>out q'. fill_queue large_payload (map (\<lambda>now. (now, [])) (map int [0..<21])) 0 ex_new = Some ((out, Stuck), q')"
proof -
  have n: "length (q_name ex_new) \<le> 100" "q_limit ex_new = 1048576" by code_simp+
  show ?thesis
    unfolding large_payload_def
    by (rule full_queue_blocks [OF ex_new_inv(1,3) n(1)]) (simp_all add: n(2))
qed

section \<open>What the other examples print\<close>

lemma numbered_small:
  assumes "length name \<le> 400" "n < 99"
  shows "\<forall>p \<in> set (numbered name n). small_payload p" "length (numbered name n) = n"
proof -
  have "length (show_nat i) \<le> 2" if "i \<le> n" for i using show_nat_small [of i] that assms(2) by simp
  then have "length (name @ show_nat i) \<le> 500" if "i \<le> n" for i using assms(1) that by fastforce
  then show "\<forall>p \<in> set (numbered name n). small_payload p" by (auto simp: numbered_def small_payload_def simp del: length_append)
  show "length (numbered name n) = n" by (simp add: numbered_def)
qed

lemma small_NewQueueWithTTL:
  assumes "length name \<le> 100" "0 < ttl"
  shows "small_queue 0 (NewQueueWithTTL name ttl now sequence)" "q_items (NewQueueWithTTL name ttl now sequence) = []"
    "cm_consumers (q_consumers (NewQueueWithTTL name ttl now sequence)) = []"
    "q_ttl (NewQueueWithTTL name ttl now sequence) = ttl" "q_expirationEnabled (NewQueueWithTTL name ttl now sequence)"
proof -
  show "small_queue 0 (NewQueueWithTTL name ttl now sequence)" "q_items (NewQueueWithTTL name ttl now sequence) = []"
    unfolding NewQueueWithTTL_def by (intro small_new [OF assms(1)]; simp)+
  show "cm_consumers (q_consumers (NewQueueWithTTL name ttl now sequence)) = []"
    "q_ttl (NewQueueWithTTL name ttl now sequence) = ttl" "q_expirationEnabled (NewQueueWithTTL name ttl now sequence)"
    using assms(2) by (simp_all add: NewQueueWithTTL_def NewQueueWithConfig_def NewConsumerManager_def Let_def)
qed

lemma put_all_length: "put_all ps q ds q' \<Longrightarrow> length ds = length ps"
  unfolding put_all_def by (metis length_map)

lemma join_channel: "q_AddConsumer uuid now q = (p, q') \<Longrightarrow> c_notificationCh (cm_cstore (q_consumers q') p) = make_chan 100"
  by (auto simp: q_AddConsumer_def cm_AddConsumer_def cm_register_def updateActiveConsumers_def NewConsumer_def
      c_SetPosition_def Let_def split: option.splits)

lemma total_items_length: "q_inv q \<Longrightarrow> total_items q = show_int (int (length (q_items q)))"
  by (simp add: total_items_def q_GetQueueStats_def q_total_items)

lemma all_expired:
  assumes "qd_Created ` set ds \<subseteq> now ` I" "\<forall>i \<in> I. now i + ttl < t" "0 \<le> ttl" "ttl < MaxInt64"
  shows "takeWhile (qd_IsExpired t ttl) ds = ds" "dropWhile (qd_IsExpired t ttl) ds = []"
proof -
  have "qd_IsExpired t ttl d" if "d \<in> set ds" for d
  proof -
    have "qd_Created d \<in> now ` I" using assms(1) that by (rule set_mp [OF _ imageI])
    then obtain i where i: "qd_Created d = now i" "i \<in> I" by (rule imageE)
    have "ttl < t - qd_Created d" using assms(2) [rule_format, OF i(2)] unfolding i(1) by simp
    moreover have "MinInt64 \<le> ttl" using assms(3) unfolding MinInt64_def by linarith
    ultimately show ?thesis unfolding qd_IsExpired_def time_Since_less [OF assms(4)] by (simp only: time_Since_less [OF assms(4)])
  qed
  then show "takeWhile (qd_IsExpired t ttl) ds = ds" "dropWhile (qd_IsExpired t ttl) ds = []" by (simp_all add: takeWhile_eq_all_conv dropWhile_eq_Nil_conv)
qed

text \<open>
  The first example: a pass more than two seconds after the last of the five items was put finds all of
  them expired; the consumer that joined before is told of five.
\<close>

theorem expiration_example_output:
  assumes "\<forall>i \<in> {0..<5}. now i + 2000000000 < t"
  shows "\<exists>q'. expiration_example now uuid (\<lambda>_. t) (NewQueueWithTTL ''expiration-queue'' 2000000000 created sequence) =
    Some (concat (map (\<lambda>i. line (''   Enqueued: Item '' @ show_nat i)) [1..<6]) @
      line ''   Queue has 5 items'' @ line ''   Waiting for items to expire...'' @ line ''   Expired 5 items'' @
      line ''   Consumer received notification: 5 items expired'' @ line ''   Queue now has 0 items'', q')"
proof -
  let ?q0 = "NewQueueWithTTL ''expiration-queue'' 2000000000 created sequence"
  have N: "small_queue 0 ?q0" "q_items ?q0 = []" "cm_consumers (q_consumers ?q0) = []" "q_ttl ?q0 = 2000000000" "q_expirationEnabled ?q0"
    using small_NewQueueWithTTL [of "''expiration-queue''" 2000000000 created sequence] by simp_all
  have s: "\<forall>p \<in> set (numbered ''Item '' 5). small_payload p" "length (numbered ''Item '' 5) = 5" by (rule numbered_small; simp)+
  obtain ds q1 where E: "enqueue_all now 0 (numbered ''Item '' 5) ?q0 = Some q1" "put_all (numbered ''Item '' 5) ?q0 ds q1" "small_queue 5 q1"
    "qd_Created ` set ds \<subseteq> now ` {0..<5}"
    using small_enqueue_all [OF N(1) _ s(1), of now 0] s(2) by auto
  have P: "q_items q1 = ds" "length ds = 5" "cm_consumers (q_consumers q1) = []" "q_ttl q1 = 2000000000" "q_expirationEnabled q1"
    using E(2) N s(2) put_all_length [OF E(2)] by (simp_all add: put_all_def same_settings_def)
  obtain p q2 where J: "q_AddConsumer uuid (now 5) q1 = (p, q2)" "small_queue 5 q2" "q_live p q2" "q_left p q2 = ds" "q_items q2 = ds"
    "c_group (cm_cstore (q_consumers q2) p) = None" "q_ttl q2 = 2000000000" "q_expirationEnabled q2"
    using small_join [OF E(3), of uuid "now 5"] P by (auto simp: same_settings_def)
  have inv: "q_inv q2" "\<not> q_closed q2" "q_reader p q2" using J(2,3) by (simp_all add: small_queue_def q_live_def)
  have X: "takeWhile (qd_IsExpired t (q_ttl q2)) (q_items q2) = ds" "dropWhile (qd_IsExpired t (q_ttl q2)) (q_items q2) = []"
    using all_expired [OF E(4) assms] J(5,7) by (simp_all add: MaxInt64_def)
  obtain q3 where "cleanupExpiredItems (\<lambda>_. t) q2 = Some (length (takeWhile (qd_IsExpired t (q_ttl q2)) (q_items q2)), q3)" "q_inv q3"
    "q_items q3 = dropWhile (qd_IsExpired t (q_ttl q2)) (q_items q2)"
    "c_notificationCh (cm_cstore (q_consumers q3) p)
       = channel_after (length (takeWhile (qd_IsExpired t (q_ttl q2)) (q_items q2)) - (length (q_items q2) - length (q_left p q2))) False
           (c_notificationCh (cm_cstore (q_consumers q2) p))"
    by (rule cleanup_steady [OF inv(1) _ J(8), of "\<lambda>_. t" t]) (use inv(2,3) J(6) in blast)+
  then have C: "q_ForceExpiration (\<lambda>_. t) q2 = Some (5, q3)" "q_inv q3" "q_items q3 = []"
    "c_notificationCh (cm_cstore (q_consumers q3) p) = channel_after 5 False (make_chan 100)"
    using J(4,5) P(2) join_channel [OF J(1)] unfolding X q_ForceExpiration_def by simp_all
  have items: "total_items q2 = ''5''" "total_items q3 = ''0''"
  proof -
    have "show_int (int 5) = ''5''" "show_int (int 0) = ''0''" by code_simp+
    then show "total_items q2 = ''5''" "total_items q3 = ''0''" using total_items_length inv(1) C(2,3) J(5) P(2) by auto
  qed
  have five: "show_nat 5 = ''5''" by code_simp
  have told: "chan_try_receive (c_notificationCh (cm_cstore (q_consumers q3) p)) = Some (5, make_chan 100)"
    unfolding C(4) by (simp add: channel_after_def chan_try_receive_def make_chan_def)
  have "total_items (q3\<lparr>q_consumers := cm\<rparr>) = ''0''" for cm using items(2) by (simp add: total_items_def q_GetQueueStats_def)
  then show ?thesis
    using E(1) J(1) C(1) told items(1) five unfolding expiration_example_def
    by (simp add: Let_def del: upt_Suc)
qed

lemma small_enqueue_wait:
  assumes "small_queue k q" "k + length ps \<le> 900" "\<forall>p \<in> set ps. small_payload p"
  shows "\<exists>ds q'. enqueue_wait now i ps q = Some (True, q') \<and> put_all ps q ds q' \<and> small_queue (k + length ps) q'
    \<and> qd_Created ` set ds \<subseteq> now ` {i..<i + length ps}"
  using assms
proof (induction ps arbitrary: k i q)
  case Nil
  then show ?case using put_all_Nil by auto
next
  case (Cons p ps)
  obtain d q1 where T: "q_Enqueue p (now i) [] q = Some (Returned None, q1)" "put_small k p (now i) q d q1"
    using small_Enqueue [OF Cons.prems(1), of p "now i" "[]"] Cons.prems(2,3) by auto
  have "small_queue (Suc k) q1" using T(2) by (simp add: put_small_def)
  then obtain ds q' where L: "enqueue_wait now (Suc i) ps q1 = Some (True, q')" "put_all ps q1 ds q'" "small_queue (Suc k + length ps) q'"
    "qd_Created ` set ds \<subseteq> now ` {Suc i..<Suc i + length ps}"
    using Cons.IH [of "Suc k" q1 "Suc i"] Cons.prems(2,3) by auto
  have "qd_Created ` set (d # ds) \<subseteq> now ` {i..<i + length (p # ps)}"
    using L(4) T(2) by (fastforce simp: put_small_def new_item_def)
  then show ?case using T(1) L(1,3) put_all_Cons [OF T(2) L(2) Cons.prems(1)]
    by (intro exI [of _ "d # ds"] exI [of _ q']) simp
qed

text \<open>
  The fourth example: after the TTL was made shorter than the age of the three items, a pass finds them
  expired, although they were put under the longer one.
\<close>

theorem ttl_example_output:
  assumes "\<forall>i \<in> {0..<3}. now i + 100000000 < t"
  shows "\<exists>q'. ttl_example now (\<lambda>_. t) (NewQueueWithTTL ''dynamic-ttl-queue'' 5000000000 created sequence) =
    Some (line ''   Added items with TTL: 5s'' @ line ''   Queue has 3 items'' @ line ''   Changed TTL to: 100ms'' @
      line ''   Expired 3 items with new TTL'' @ line ''   Queue now has 0 items'', q')"
proof -
  let ?q0 = "NewQueueWithTTL ''dynamic-ttl-queue'' 5000000000 created sequence"
  have N: "small_queue 0 ?q0" "q_items ?q0 = []" "q_ttl ?q0 = 5000000000" "q_expirationEnabled ?q0"
    using small_NewQueueWithTTL [of "''dynamic-ttl-queue''" 5000000000 created sequence] by simp_all
  have s: "\<forall>p \<in> set (numbered ''Long TTL Item '' 3). small_payload p" "length (numbered ''Long TTL Item '' 3) = 3" by (rule numbered_small; simp)+
  obtain ds q1 where E: "enqueue_wait now 0 (numbered ''Long TTL Item '' 3) ?q0 = Some (True, q1)"
    "put_all (numbered ''Long TTL Item '' 3) ?q0 ds q1" "small_queue 3 q1" "qd_Created ` set ds \<subseteq> now ` {0..<3}"
    using small_enqueue_wait [OF N(1) _ s(1), of now 0] s(2) by auto
  have P: "q_items q1 = ds" "length ds = 3" "q_ttl q1 = 5000000000" "q_expirationEnabled q1"
    using E(2) N s(2) put_all_length [OF E(2)] by (simp_all add: put_all_def same_settings_def)
  let ?q2 = "q_SetTTL 100000000 q1"
  have inv1: "q_inv q1" using E(3) by (simp add: small_queue_def)
  have inv: "q_inv ?q2" by (rule q_step_inv [OF q_step.set_ttl inv1])
  have f: "q_items ?q2 = ds" "q_ttl ?q2 = 100000000" "q_expirationEnabled ?q2" using P by (simp_all add: q_SetTTL_def q_items_def)
  have X: "takeWhile (qd_IsExpired t (q_ttl ?q2)) (q_items ?q2) = ds" "dropWhile (qd_IsExpired t (q_ttl ?q2)) (q_items ?q2) = []"
    using all_expired [OF E(4) assms] f by (simp_all add: MaxInt64_def)
  obtain q3 where "cleanupExpiredItems (\<lambda>_. t) ?q2 = Some (length (takeWhile (qd_IsExpired t (q_ttl ?q2)) (q_items ?q2)), q3)" "q_inv q3"
    "q_items q3 = dropWhile (qd_IsExpired t (q_ttl ?q2)) (q_items ?q2)"
    by (rule cleanup_steady [OF inv _ f(3), of "\<lambda>_. t" t]) blast+
  then have C: "q_ForceExpiration (\<lambda>_. t) ?q2 = Some (3, q3)" "q_inv q3" "q_items q3 = []"
    using P(2) unfolding X q_ForceExpiration_def by simp_all
  have t: "show_int (int 3) = ''3''" "show_int (int 0) = ''0''" "show_nat 3 = ''3''" by code_simp+
  have u: "show_duration 5000000000 = ''5s''" "show_duration 100000000 = ''100ms''"
    by (simp_all add: show_duration_def fmtFrac_def pad_zeros_def show_nat.simps char_of_def bit_iff_odd)
  have "total_items q1 = ''3''" unfolding total_items_length [OF inv1] P(1,2) by (rule t(1))
  moreover have "total_items q3 = ''0''" using t(2) unfolding total_items_length [OF C(2)] C(3) by simp
  ultimately show ?thesis using E(1) C(1) P(3) f(2) t(3) u by (simp add: ttl_example_def Let_def)
qed

text \<open>The reads of the last example: as many as there are items left.\<close>

lemma read_some_prints:
  assumes "small_queue k q" "q_live p q" "length clks \<le> length (q_left p q)"
  shows "\<exists>q'. read_some show_item p clks q = Some ((concat (map show_item (take (length clks) (q_left p q))), True), q') \<and> small_queue k q'
    \<and> q_items q' = q_items q \<and> cm_consumers (q_consumers q') = cm_consumers (q_consumers q) \<and> (\<forall>p. q_live p q' = q_live p q)"
  using assms
proof (induction clks arbitrary: q)
  case (Cons clk clks)
  have s: "q_inv q" using Cons.prems(1) by (simp add: small_queue_def)
  obtain d rest where l: "q_left p q = d # rest" using Cons.prems(3) by (cases "q_left p q") auto
  obtain q1 where T: "q_TryRead (clk 0) 0 p q = Some (if q_left p q = [] then None else Some (hd (q_left p q)), q1)"
    "consumed p (take 1 (q_left p q)) (tl (q_left p q)) q q1"
    by (rule q_TryRead_consumed [OF s Cons.prems(2), where clk = "clk 0" and k = 0])
  note F = read_frame [OF T(1)]
  have S: "small_queue k q1" using small_frame [OF Cons.prems(1)] T(2) F by (simp add: consumed_def)
  have left: "q_left p q1 = rest" "q_live p q1" using T(2) l Cons.prems(2) by (simp_all add: consumed_def same_cursor_def)
  have R: "c_Read clk p [] q = Some (Returned (Some d), q1)" using T(1) l by (simp add: c_Read.simps)
  obtain q' where "read_some show_item p clks q1 = Some ((concat (map show_item (take (length clks) (q_left p q1))), True), q')"
    "small_queue k q'" "q_items q' = q_items q1" "cm_consumers (q_consumers q') = cm_consumers (q_consumers q1)" "\<forall>p. q_live p q' = q_live p q1"
    using Cons.IH [OF S left(2)] Cons.prems(3) left(1) l by auto
  then show ?case using R l left F T(2) by (auto simp: consumed_def)
qed simp

lemma stats_known:
  assumes "small_queue k q" "\<forall>p \<in> snd ` set (cm_consumers (q_consumers q)). q_live p q"
  shows "\<exists>stats. q_GetConsumerStats q = Some stats"
proof -
  have s: "q_inv q" "\<not> q_closed q" using assms(1) by (simp_all add: small_queue_def)
  have total: "\<exists>xs. those (map f ps) = Some xs" if "\<forall>p \<in> set ps. \<exists>x. f p = Some x" for f :: "cptr \<Rightarrow> consumer_stats option" and ps
    using that by (induction ps) auto
  have "\<exists>x. c_GetStats False (q_data q) (cm_cstore (q_consumers q) p, cm_gstore (q_consumers q)) = Some x"
    if "p \<in> set (cm_GetAllConsumers (q_consumers q))" for p
  proof -
    have "q_reader p q"
      using that assms(2) q_invD(5) [OF s(1)] by (auto simp: cm_GetAllConsumers_def cm_wf_def q_live_def)
    then show ?thesis
      using c_GetStats_left [OF q_invD(1,2) [OF s(1)]] q_reader_ok [OF s] by (simp add: q_reading_def)
  qed
  then show ?thesis using s(2) total unfolding q_GetConsumerStats_def cm_GetConsumerStats_def by simp
qed

lemma numbered_lines:
  assumes "map qd_Payload ds = numbered name n"
  shows "concat (map (recovery_line l) (take m ds)) = concat (map (\<lambda>i. line (l @ name @ show_nat i)) (take m [1..<Suc n]))"
proof -
  have "map (recovery_line l) ds = map (\<lambda>p. line (l @ payload_s p)) (map qd_Payload ds)" by (simp add: recovery_line_def)
  also have "\<dots> = map (\<lambda>i. line (l @ name @ show_nat i)) [1..<Suc n]" unfolding assms by (simp add: numbered_def payload_s_def del: upt_Suc)
  finally show ?thesis by (metis take_map)
qed

text \<open>
  The last example: the first consumer reads the first five of the ten items, and the consumer that joins
  then starts from the beginning.
\<close>

theorem recovery_example_output:
  assumes "uuid 0 \<noteq> uuid 1"
  shows "\<exists>stats q'. recovery_example now uuid clk (NewQueue ''recovery-queue'' created sequence) =
    Some ((line ''   Consumer created, reading 5 items...'' @ concat (map (\<lambda>i. line (''   Read: Recovery Item '' @ show_nat i)) [1..<6]) @
      line ''   New consumer created, reading first 3 items...'' @
      concat (map (\<lambda>i. line (''   New consumer read: Recovery Item '' @ show_nat i)) [1..<4]) @
      line ''   Consumer statistics:'' @ concat (map recovery_stats stats), True), q')"
proof -
  let ?q0 = "NewQueue ''recovery-queue'' created sequence"
  have "length ''recovery-queue'' \<le> 100" by simp
  note N = small_NewQueue [OF this, of created sequence]
  have s: "\<forall>p \<in> set (numbered ''Recovery Item '' 10). small_payload p" "length (numbered ''Recovery Item '' 10) = 10" by (rule numbered_small; simp)+
  obtain ds q1 where E: "enqueue_wait now 0 (numbered ''Recovery Item '' 10) ?q0 = Some (True, q1)"
    "put_all (numbered ''Recovery Item '' 10) ?q0 ds q1" "small_queue 10 q1"
    using small_enqueue_wait [OF N(1) _ s(1), of now 0] s(2) by auto
  have P: "q_items q1 = ds" "length ds = 10" "cm_consumers (q_consumers q1) = []" "map qd_Payload ds = numbered ''Recovery Item '' 10"
    using E(2) N s(2) put_all_length [OF E(2)] by (simp_all add: put_all_def)
  obtain p q2 where J: "q_AddConsumer (uuid 0) (now 10) q1 = (p, q2)" "small_queue 10 q2" "q_live p q2" "q_left p q2 = ds" "q_items q2 = ds"
    "cm_consumers (q_consumers q2) = [(uuid 0, p)]"
    using small_join [OF E(3), of "uuid 0" "now 10"] P by auto
  obtain q3 where R: "read_some (recovery_line ''   Read: '') p (map clk [0..<5]) q2 = Some ((concat (map (recovery_line ''   Read: '') (take 5 ds)), True), q3)"
    "small_queue 10 q3" "q_items q3 = ds" "cm_consumers (q_consumers q3) = [(uuid 0, p)]" "q_live p q3"
    using read_some_prints [OF J(2,3), of "map clk [0..<5]" "recovery_line ''   Read: ''"] J(3-6) P(2) by (auto simp del: read_some.simps)
  obtain p' q4 where J': "q_AddConsumer (uuid 1) (now 11) q3 = (p', q4)" "small_queue 10 q4" "q_live p' q4" "q_left p' q4 = ds" "q_live p q4"
    "cm_consumers (q_consumers q4) = [(uuid 0, p), (uuid 1, p')]"
    using small_join [OF R(2), of "uuid 1" "now 11"] R(3-5) assms by auto
  obtain q5 where R': "read_some (recovery_line ''   New consumer read: '') p' (map clk [5..<8]) q4
      = Some ((concat (map (recovery_line ''   New consumer read: '') (take 3 ds)), True), q5)" "small_queue 10 q5"
    "cm_consumers (q_consumers q5) = [(uuid 0, p), (uuid 1, p')]" "q_live p q5" "q_live p' q5"
    using read_some_prints [OF J'(2,3), of "map clk [5..<8]" "recovery_line ''   New consumer read: ''"] J'(3-6) P(2)
    by (auto simp: numeral_3_eq_3 simp del: read_some.simps)
  obtain stats where S: "q_GetConsumerStats q5 = Some stats" using stats_known [OF R'(2)] R'(3-5) by auto
  have five: "take 5 [1..<Suc 10] = [1..<6]" "take 3 [1..<Suc 10] = [1..<4]" by (simp_all add: take_upt del: upt_Suc)
  show ?thesis
    by (intro exI [of _ stats] exI [of _ q5])
       (use E(1) J(1) R(1) J'(1) R'(1) S in \<open>simp add: recovery_example_def Let_def numbered_lines [OF P(4)] five
          del: upt_Suc read_some.simps\<close>)
qed

end
