(* ===== verification/MQ_Observability.thy ===== *)
theory MQ_Observability
  imports MQ_BasicUsage MQ_Metrics
begin

text \<open>
  \<^verbatim>\<open>examples/observability/metrics_example.go\<close>: a hundred enqueues and fifty reads, each timed and
  recorded, and the report that is printed. Nothing else uses the queue. The readings of the clock and
  the clocks of the reads come from outside.
\<close>

section \<open>The program\<close>

fun observed_enqueues :: "(nat \<Rightarrow> time) \<Rightarrow> nat \<Rightarrow> payload list \<Rightarrow> metrics \<Rightarrow> queue \<Rightarrow> (metrics \<times> queue) option" where
  "observed_enqueues now i [] m q = Some (m, q)"
| "observed_enqueues now i (p # ps) m q =
     do {
       let start = now (3 * i);
       (err, q) \<leftarrow> q_TryEnqueue p (now (3 * i + 1)) q;
       let duration = time_Since (now (3 * i + 2)) start;
       observed_enqueues now (Suc i) ps (m_RecordEnqueue duration err m) q
     }"

fun observed_reads :: "(nat \<Rightarrow> time) \<Rightarrow> nat \<Rightarrow> cptr \<Rightarrow> clock list \<Rightarrow> metrics \<Rightarrow> queue \<Rightarrow> (metrics \<times> queue) option" where
  "observed_reads now i p [] m q = Some (m, q)"
| "observed_reads now i p (clk # clks) m q =
     do {
       let start = now (2 * i);
       (data, q) \<leftarrow> q_TryRead clk 0 p q;
       let duration = time_Since (now (2 * i + 1)) start;
       observed_reads now (Suc i) p clks (if data \<noteq> None then m_RecordDequeue duration m else m) q
     }"

text \<open>The operations: \<open>now\<close> and \<open>now'\<close> are the clock in the two loops.\<close>

definition metrics_operations :: "(nat \<Rightarrow> time) \<Rightarrow> (nat \<Rightarrow> time) \<Rightarrow> (nat \<Rightarrow> clock) \<Rightarrow> string \<Rightarrow> time \<Rightarrow> queue \<Rightarrow> (metrics \<times> queue) option" where
  "metrics_operations now now' clk uuid joined q =
     do {
       let metrics = NewMetrics;
       (metrics, q) \<leftarrow> observed_enqueues now 0 (map (\<lambda>i. PScalar KInt (int i)) [0..<100]) metrics q;
       let (consumer, q) = q_AddConsumer uuid joined q;
       observed_reads now' 0 consumer (map clk [0..<50]) metrics q
     }"

definition snapshot_report :: "metrics_snapshot \<Rightarrow> string" where
  "snapshot_report snapshot =
     line [] @ line ''=== Metrics Snapshot ==='' @
     line (''Queue Name: '' @ ms_QueueName snapshot) @
     line (''Total Items: '' @ show_int (ms_TotalItems snapshot)) @
     line (''Memory Usage: '' @ show_int (ms_MemoryUsage snapshot) @ '' bytes ('' @ fmt_f 2 (ms_MemoryPercent snapshot) @ ''%)'') @
     line (''Consumer Count: '' @ show_nat (ms_ConsumerCount snapshot)) @
     line [] @ line ''Operations:'' @
     line (''  Total Enqueued: '' @ show_int (ms_TotalEnqueued snapshot)) @
     line (''  Total Dequeued: '' @ show_int (ms_TotalDequeued snapshot)) @
     line (''  Total Expired: '' @ show_int (ms_TotalExpired snapshot)) @
     line (''  Enqueue Errors: '' @ show_int (ms_EnqueueErrors snapshot)) @
     line (''  Memory Limit Hits: '' @ show_int (ms_MemoryLimitHits snapshot)) @
     line [] @ line ''Latency:'' @
     line (''  Avg Enqueue: '' @ show_duration (ms_AvgEnqueueLatency snapshot)) @
     line (''  P95 Enqueue: '' @ show_duration (ms_P95EnqueueLatency snapshot)) @
     line (''  Avg Dequeue: '' @ show_duration (ms_AvgDequeueLatency snapshot)) @
     line (''  P95 Dequeue: '' @ show_duration (ms_P95DequeueLatency snapshot))"

text \<open>\<^verbatim>\<open>Duration.Round\<close>: to the nearest multiple, half away from zero, and no further than the type goes.\<close>

definition duration_Round :: "duration \<Rightarrow> duration \<Rightarrow> duration" where
  "duration_Round d m =
     (if m \<le> 0 then d
      else let r = \<bar>d\<bar> mod m;
               a = (if r + r < m then \<bar>d\<bar> - r else \<bar>d\<bar> + m - r)
           in max MinInt64 (min MaxInt64 (sgn d * a)))"

text \<open>The slice \<^verbatim>\<open>cs.ID[:8]\<close> panics when the identifier is shorter.\<close>

definition consumer_report :: "time \<Rightarrow> consumer_stats \<Rightarrow> string option" where
  "consumer_report now cs =
     (if length (cs_ID cs) < 8 then None
      else Some (line [] @ line (''Consumer '' @ take 8 (cs_ID cs) @ '':'') @
        line (''  Items Read: '' @ show_int (cs_TotalItemsRead cs)) @
        line (''  Unread Items: '' @ show_int (cs_UnreadItems cs)) @
        line (''  Last Read: '' @ show_duration (duration_Round (time_Since now (cs_LastReadTime cs)) 1000000) @ '' ago'')))"

text \<open>The report is on the queue after the operations; \<open>late\<close> is the clock then.\<close>

definition metrics_report :: "(nat \<Rightarrow> time) \<Rightarrow> metrics \<Rightarrow> queue \<Rightarrow> string option" where
  "metrics_report late m q =
     do {
       let snapshot = m_GetSnapshot m (q_name q) (late 0) q;
       let prometheus = m_GetPrometheusMetrics m (q_name q) (late 1) q;
       consumerStats \<leftarrow> q_GetConsumerStats q;
       consumers \<leftarrow> those (map (\<lambda>(i, cs). consumer_report (late (2 + i)) cs) (enumerate 0 consumerStats));
       Some (snapshot_report snapshot @ line [] @ line ''=== Prometheus Metrics ==='' @ prometheus @
         line [] @ line ''=== Monitoring Queue Statistics ==='' @ concat consumers)
     }"

section \<open>What it records\<close>

text \<open>
  The enqueues of small items all succeed; the samples are their durations. In the \<open>j\<close>th round of a loop that
  reads the clock \<open>k\<close> times a round, the duration is from the first reading to the last.
\<close>

definition sampled :: "(nat \<Rightarrow> time) \<Rightarrow> nat \<Rightarrow> nat \<Rightarrow> nat \<Rightarrow> duration list" where
  "sampled now k i n = map (\<lambda>j. time_Since (now (k * (i + j) + (k - 1))) (now (k * (i + j)))) [0..<n]"

lemma sampled_Suc: "sampled now k i (Suc n) = time_Since (now (k * i + (k - 1))) (now (k * i)) # sampled now k (Suc i) n"
proof -
  have "[0..<Suc n] = 0 # map Suc [0..<n]" by (simp add: map_Suc_upt upt_conv_Cons del: upt_Suc)
  then show ?thesis by (simp add: sampled_def)
qed

lemma small_observed_enqueues:
  assumes "small_queue k q" "k + length ps \<le> 900" "\<forall>p \<in> set ps. small_payload p"
  shows "\<exists>ds q'. observed_enqueues now i ps m q
      = Some (fold (\<lambda>d. m_RecordEnqueue d None) (sampled now 3 i (length ps)) m, q')
    \<and> put_all ps q ds q' \<and> small_queue (k + length ps) q'"
  using assms
proof (induction ps arbitrary: k i q m)
  case Nil
  then show ?case using put_all_Nil by (auto simp: sampled_def)
next
  case (Cons p ps)
  obtain d q1 where T: "q_TryEnqueue p (now (3 * i + 1)) q = Some (None, q1)" "put_small k p (now (3 * i + 1)) q d q1"
    using small_TryEnqueue [OF Cons.prems(1), of p "now (3 * i + 1)"] Cons.prems(2,3) by auto
  have "small_queue (Suc k) q1" using T(2) by (simp add: put_small_def)
  then obtain ds q' where L: "observed_enqueues now (Suc i) ps (m_RecordEnqueue (time_Since (now (3 * i + 2)) (now (3 * i))) None m) q1
      = Some (fold (\<lambda>d. m_RecordEnqueue d None) (sampled now 3 (Suc i) (length ps))
          (m_RecordEnqueue (time_Since (now (3 * i + 2)) (now (3 * i))) None m), q')"
    "put_all ps q1 ds q'" "small_queue (Suc k + length ps) q'"
    using Cons.IH [of "Suc k" q1 "Suc i" "m_RecordEnqueue (time_Since (now (3 * i + 2)) (now (3 * i))) None m"] Cons.prems(2,3) by auto
  then show ?case using T(1) put_all_Cons [OF T(2) L(2) Cons.prems(1)]
    by (intro exI [of _ "d # ds"] exI [of _ q']) (simp add: sampled_Suc)
qed

lemma small_observed_reads:
  assumes "small_queue k q" "q_live p q" "length clks \<le> length (q_left p q)" "c_group (cm_cstore (q_consumers q) p) = None"
  shows "\<exists>q'. observed_reads now i p clks m q = Some (fold m_RecordDequeue (sampled now 2 i (length clks)) m, q')
    \<and> small_queue k q' \<and> q_live p q' \<and> q_left p q' = drop (length clks) (q_left p q) \<and> q_items q' = q_items q
    \<and> cm_consumers (q_consumers q') = cm_consumers (q_consumers q)
    \<and> c_id (cm_cstore (q_consumers q') p) = c_id (cm_cstore (q_consumers q) p)
    \<and> c_totalItemsRead (cm_cstore (q_consumers q') p) = c_totalItemsRead (cm_cstore (q_consumers q) p) + int (length clks)
    \<and> same_settings q q'"
  using assms
proof (induction clks arbitrary: q i m)
  case Nil
  then show ?case by (simp add: sampled_def same_settings_def)
next
  case (Cons clk clks)
  have s: "q_inv q" using Cons.prems(1) by (simp add: small_queue_def)
  obtain d rest where l: "q_left p q = d # rest" using Cons.prems(3) by (cases "q_left p q") auto
  obtain q1 where T: "q_TryRead clk 0 p q = Some (if q_left p q = [] then None else Some (hd (q_left p q)), q1)"
    "consumed p (take 1 (q_left p q)) (tl (q_left p q)) q q1"
    by (rule q_TryRead_consumed [OF s Cons.prems(2), where clk = clk and k = 0])
  note F = read_frame [OF T(1)]
  have S: "small_queue k q1" using small_frame [OF Cons.prems(1)] T(2) F by (simp add: consumed_def)
  have R: "q_left p q1 = rest" "q_live p q1" "q_items q1 = q_items q" "c_group (cm_cstore (q_consumers q1) p) = None"
    "c_totalItemsRead (cm_cstore (q_consumers q1) p) = c_totalItemsRead (cm_cstore (q_consumers q) p) + 1"
    "c_id (cm_cstore (q_consumers q1) p) = c_id (cm_cstore (q_consumers q) p)"
    using T(2) l Cons.prems(2,4) by (auto simp: consumed_def same_cursor_def has_read_def q_reading_def)
  obtain q' where I: "observed_reads now (Suc i) p clks (m_RecordDequeue (time_Since (now (2 * i + 1)) (now (2 * i))) m) q1
      = Some (fold m_RecordDequeue (sampled now 2 (Suc i) (length clks)) (m_RecordDequeue (time_Since (now (2 * i + 1)) (now (2 * i))) m), q')"
    "small_queue k q'" "q_live p q'" "q_left p q' = drop (length clks) rest" "q_items q' = q_items q1"
    "cm_consumers (q_consumers q') = cm_consumers (q_consumers q1)"
    "c_id (cm_cstore (q_consumers q') p) = c_id (cm_cstore (q_consumers q1) p)"
    "c_totalItemsRead (cm_cstore (q_consumers q') p) = c_totalItemsRead (cm_cstore (q_consumers q1) p) + int (length clks)"
    "same_settings q1 q'"
    using Cons.IH [OF S R(2) _ R(4), of "Suc i" "m_RecordDequeue (time_Since (now (2 * i + 1)) (now (2 * i))) m"] Cons.prems(3) R(1) l by auto
  then show ?case
    using T(1) R F l same_settings_trans [of q q1 q'] by (intro exI [of _ q']) (simp add: sampled_Suc)
qed

text \<open>The recorded counts and samples, as long as they are few.\<close>

lemma recorded_enqueues:
  "m_totalEnqueued (fold (\<lambda>d. m_RecordEnqueue d None) ds m) = (if ds = [] then m_totalEnqueued m else wrap64 (m_totalEnqueued m + int (length ds)))
   \<and> m_enqueueErrors (fold (\<lambda>d. m_RecordEnqueue d None) ds m) = m_enqueueErrors m
   \<and> m_memoryLimitHits (fold (\<lambda>d. m_RecordEnqueue d None) ds m) = m_memoryLimitHits m
   \<and> m_totalDequeued (fold (\<lambda>d. m_RecordEnqueue d None) ds m) = m_totalDequeued m
   \<and> m_totalExpired (fold (\<lambda>d. m_RecordEnqueue d None) ds m) = m_totalExpired m
   \<and> m_maxLatencySamples (fold (\<lambda>d. m_RecordEnqueue d None) ds m) = m_maxLatencySamples m
   \<and> (m_enqueueLatency (fold (\<lambda>d. m_RecordEnqueue d None) ds m), m_enqueueLatencyIdx (fold (\<lambda>d. m_RecordEnqueue d None) ds m),
       m_enqueueLatencyCount (fold (\<lambda>d. m_RecordEnqueue d None) ds m))
     = fold (ring_put (m_maxLatencySamples m)) ds (m_enqueueLatency m, m_enqueueLatencyIdx m, m_enqueueLatencyCount m)
   \<and> (m_dequeueLatency (fold (\<lambda>d. m_RecordEnqueue d None) ds m), m_dequeueLatencyIdx (fold (\<lambda>d. m_RecordEnqueue d None) ds m),
       m_dequeueLatencyCount (fold (\<lambda>d. m_RecordEnqueue d None) ds m))
     = (m_dequeueLatency m, m_dequeueLatencyIdx m, m_dequeueLatencyCount m)"
proof (induction ds arbitrary: m)
  case (Cons d ds)
  show ?case
    using Cons [of "m_RecordEnqueue d None m"]
    by (auto simp: m_RecordEnqueue_def Let_def add.assoc split: prod.splits)
qed simp

lemma recorded_dequeues:
  "m_totalDequeued (fold m_RecordDequeue ds m) = (if ds = [] then m_totalDequeued m else wrap64 (m_totalDequeued m + int (length ds)))
   \<and> m_enqueueErrors (fold m_RecordDequeue ds m) = m_enqueueErrors m
   \<and> m_memoryLimitHits (fold m_RecordDequeue ds m) = m_memoryLimitHits m
   \<and> m_totalEnqueued (fold m_RecordDequeue ds m) = m_totalEnqueued m
   \<and> m_totalExpired (fold m_RecordDequeue ds m) = m_totalExpired m
   \<and> (m_dequeueLatency (fold m_RecordDequeue ds m), m_dequeueLatencyIdx (fold m_RecordDequeue ds m),
       m_dequeueLatencyCount (fold m_RecordDequeue ds m))
     = fold (ring_put (m_maxLatencySamples m)) ds (m_dequeueLatency m, m_dequeueLatencyIdx m, m_dequeueLatencyCount m)
   \<and> (m_enqueueLatency (fold m_RecordDequeue ds m), m_enqueueLatencyIdx (fold m_RecordDequeue ds m),
       m_enqueueLatencyCount (fold m_RecordDequeue ds m))
     = (m_enqueueLatency m, m_enqueueLatencyIdx m, m_enqueueLatencyCount m)"
proof (induction ds arbitrary: m)
  case (Cons d ds)
  show ?case
    using Cons [of "m_RecordDequeue d m"]
    by (auto simp: m_RecordDequeue_def Let_def add.assoc split: prod.splits)
qed simp

text \<open>A new ring that was not filled holds its samples in order.\<close>

lemma ring_samples:
  assumes "length ds < 1000" "fold (ring_put 1000) ds (replicate 1000 0, 0, 0) = (buf, idx, cnt)"
  shows "take cnt buf = ds"
proof -
  have ok: "ring_ok 1000 (replicate 1000 0, 0, 0)" "ring_content 1000 (replicate 1000 0, 0, 0) = []"
    by (simp_all add: ring_ok_def ring_content_def)
  have F: "ring_ok 1000 (buf, idx, cnt)" "ring_content 1000 (buf, idx, cnt) = ds"
    using ring_fold [OF ok(1), of ds] assms ok(2) by simp_all
  then show ?thesis using assms(1) by (auto simp: ring_ok_def ring_content_def split: if_splits)
qed

section \<open>What it reports\<close>

lemma joined_consumer:
  "q_AddConsumer uuid now q = (p, q') \<Longrightarrow> c_id (cm_cstore (q_consumers q') p) = uuid \<and> c_totalItemsRead (cm_cstore (q_consumers q') p) = 0"
  by (auto simp: q_AddConsumer_def cm_AddConsumer_def cm_register_def updateActiveConsumers_def NewConsumer_def
      c_SetPosition_def Let_def split: option.splits)

lemma lone_consumer_stats:
  assumes "small_queue k q" "cm_consumers (q_consumers q) = [(uuid, p)]" "q_live p q"
  shows "q_GetConsumerStats q = Some [\<lparr>cs_ID = c_id (cm_cstore (q_consumers q) p), cs_TotalItemsRead = c_totalItemsRead (cm_cstore (q_consumers q) p),
    cs_UnreadItems = int (length (q_left p q)), cs_LastReadTime = c_lastReadTime (cm_cstore (q_consumers q) p)\<rparr>]"
proof -
  have s: "q_inv q" "\<not> q_closed q" using assms(1) by (simp_all add: small_queue_def)
  have r: "q_reader p q" using assms(3) by (simp add: q_live_def)
  have "cm_GetAllConsumers (q_consumers q) = [p]"
    using assms(2) q_invD(5) [OF s(1)] by (auto simp: cm_GetAllConsumers_def cm_wf_def)
  then show ?thesis
    using c_GetStats_left [OF q_invD(1,2) [OF s(1)]] q_reader_ok [OF s r] s(2)
    by (simp add: q_GetConsumerStats_def cm_GetConsumerStats_def q_reading_def q_left_def)
qed

lemma ints_small: "\<forall>p \<in> set (map (\<lambda>i. PScalar KInt (int i)) [0..<100]). small_payload p"
  by (auto simp: small_payload_def less_eq_kind_def)

text \<open>The report of the metrics example, whatever the clock shows: a hundred items enqueued, fifty
  dequeued, none expired, no error and no hit of the limit; the averages are those of all hundred and
  of all fifty durations measured, and the percentiles are the 96th of the hundred and the 48th of the
  fifty in order of size. The queue still holds all hundred items, and its consumer has read fifty and has
  fifty unread.\<close>

theorem metrics_example_report:
  shows "\<exists>m q' cs snapshot. metrics_operations now now' clk uuid joined (NewQueue ''monitored-queue'' created sequence) = Some (m, q')
    \<and> m_GetSnapshot m (q_name q') late q' = snapshot
    \<and> ms_TotalItems snapshot = 100 \<and> ms_ConsumerCount snapshot = 1
    \<and> ms_TotalEnqueued snapshot = 100 \<and> ms_TotalDequeued snapshot = 50 \<and> ms_TotalExpired snapshot = 0
    \<and> ms_EnqueueErrors snapshot = 0 \<and> ms_MemoryLimitHits snapshot = 0
    \<and> ms_AvgEnqueueLatency snapshot = calculateAvg (sampled now 3 0 100) \<and> ms_P95EnqueueLatency snapshot = sort (sampled now 3 0 100) ! 95
    \<and> ms_AvgDequeueLatency snapshot = calculateAvg (sampled now' 2 0 50) \<and> ms_P95DequeueLatency snapshot = sort (sampled now' 2 0 50) ! 47
    \<and> q_GetConsumerStats q' = Some [cs] \<and> cs_ID cs = uuid \<and> cs_TotalItemsRead cs = 50 \<and> cs_UnreadItems cs = 50"
proof -
  let ?q0 = "NewQueue ''monitored-queue'' created sequence" and ?ps = "map (\<lambda>i. PScalar KInt (int i)) [0..<100]"
  have "length ''monitored-queue'' \<le> 100" by simp
  note N = small_NewQueue [OF this, of created sequence]
  define enq deq where e: "enq = sampled now 3 0 100" and d: "deq = sampled now' 2 0 50"
  have l: "length enq = 100" "length deq = 50" by (simp_all add: e d sampled_def)
  then have ne: "enq \<noteq> []" "deq \<noteq> []" by auto
  let ?m1 = "fold (\<lambda>d. m_RecordEnqueue d None) enq NewMetrics"
  have n: "length ?ps = 100" by simp
  obtain ds q1 where E: "observed_enqueues now 0 ?ps NewMetrics ?q0 = Some (?m1, q1)" "put_all ?ps ?q0 ds q1" "small_queue 100 q1"
    using small_observed_enqueues [OF N(1) _ ints_small, of now 0 NewMetrics] unfolding n e [symmetric] by auto
  have P: "q_items q1 = ds" "cm_consumers (q_consumers q1) = []" using E(2) N by (simp_all add: put_all_def)
  have n1: "length ds = 100" using E(2) n unfolding put_all_def by (metis length_map)
  obtain p q2 where J: "q_AddConsumer uuid joined q1 = (p, q2)" "small_queue 100 q2" "q_live p q2" "q_left p q2 = ds" "q_items q2 = ds"
    "cm_consumers (q_consumers q2) = [(uuid, p)]" "c_group (cm_cstore (q_consumers q2) p) = None"
    using small_join [OF E(3), of uuid joined] P by auto
  note C = joined_consumer [OF J(1)]
  have n2: "length (map clk [0..<50]) = 50" by simp
  let ?m = "fold m_RecordDequeue deq ?m1"
  obtain q3 where R: "observed_reads now' 0 p (map clk [0..<50]) ?m1 q2 = Some (?m, q3)" "small_queue 100 q3" "q_live p q3"
    "q_left p q3 = drop 50 ds" "q_items q3 = ds" "cm_consumers (q_consumers q3) = [(uuid, p)]"
    "c_id (cm_cstore (q_consumers q3) p) = uuid" "c_totalItemsRead (cm_cstore (q_consumers q3) p) = 50"
    using small_observed_reads [OF J(2,3) _ J(7), of "map clk [0..<50]" now' 0 ?m1] J(4-6) n1 C unfolding n2 d [symmetric] by auto
  have ops: "metrics_operations now now' clk uuid joined ?q0 = Some (?m, q3)"
    using E(1) J(1) R(1) by (simp add: metrics_operations_def Let_def del: upt_Suc)
  note M1 = recorded_enqueues [of enq NewMetrics] and M2 = recorded_dequeues [of deq ?m1]
  have counts: "m_totalEnqueued ?m = 100" "m_totalDequeued ?m = 50" "m_totalExpired ?m = 0" "m_enqueueErrors ?m = 0" "m_memoryLimitHits ?m = 0"
    using M1 M2 l ne by (simp_all add: NewMetrics_def int64_simps)
  have new: "(m_enqueueLatency NewMetrics, m_enqueueLatencyIdx NewMetrics, m_enqueueLatencyCount NewMetrics) = (replicate 1000 0, 0, 0)"
    "(m_dequeueLatency NewMetrics, m_dequeueLatencyIdx NewMetrics, m_dequeueLatencyCount NewMetrics) = (replicate 1000 0, 0, 0)"
    "m_maxLatencySamples NewMetrics = 1000"
    by (simp_all add: NewMetrics_def)
  have "fold (ring_put 1000) enq (replicate 1000 0, 0, 0) = (m_enqueueLatency ?m, m_enqueueLatencyIdx ?m, m_enqueueLatencyCount ?m)"
    using M1 M2 unfolding new by metis
  then have S1: "take (m_enqueueLatencyCount ?m) (m_enqueueLatency ?m) = enq" by (rule ring_samples [rotated]) (simp add: l)
  have "fold (ring_put 1000) deq (replicate 1000 0, 0, 0) = (m_dequeueLatency ?m, m_dequeueLatencyIdx ?m, m_dequeueLatencyCount ?m)"
    using M1 M2 unfolding new by metis
  then have S2: "take (m_dequeueLatencyCount ?m) (m_dequeueLatency ?m) = deq" by (rule ring_samples [rotated]) (simp add: l)
  have "q_inv q3" using R(2) by (simp add: small_queue_def)
  then have total: "cl_totalItems (q_data q3) = 100" using q_total_items [of q3] R(5) n1 by simp
  have p95: "calculateP95 enq = sort enq ! 95" "calculateP95 deq = sort deq ! 47"
    using l ne p95_index_exact [of 100] p95_index_exact [of 50] by (simp_all add: calculateP95_def)
  obtain cs where cs: "q_GetConsumerStats q3 = Some [cs]" "cs_ID cs = uuid" "cs_TotalItemsRead cs = 50" "cs_UnreadItems cs = 50"
    using lone_consumer_stats [OF R(2,6,3)] R(4,7,8) n1 by simp
  show ?thesis unfolding e [symmetric] d [symmetric]
    by (intro exI [of _ ?m] exI [of _ q3] exI [of _ cs] exI conjI, rule ops, rule refl)
      (use cs counts S1 S2 total p95 l ne R n1 in
        \<open>simp_all add: m_GetSnapshot_def q_GetQueueStats_def cm_GetConsumerCount_def Let_def\<close>)
qed

text \<open>With an identifier of at least eight characters, as \<^verbatim>\<open>uuid.New\<close> gives it, the report is printed.\<close>

theorem report_printed:
  assumes "q_GetConsumerStats q = Some [cs]" and "8 \<le> length (cs_ID cs)"
  shows "\<exists>t. metrics_report late m q = Some (snapshot_report (m_GetSnapshot m (q_name q) (late 0) q) @
    line [] @ line ''=== Prometheus Metrics ==='' @ m_GetPrometheusMetrics m (q_name q) (late 1) q @
    line [] @ line ''=== Monitoring Queue Statistics ==='' @
    line [] @ line (''Consumer '' @ take 8 (cs_ID cs) @ '':'') @ line (''  Items Read: '' @ show_int (cs_TotalItemsRead cs)) @
    line (''  Unread Items: '' @ show_int (cs_UnreadItems cs)) @ line (''  Last Read: '' @ show_duration t @ '' ago''))"
  using assms by (auto simp: metrics_report_def consumer_report_def Let_def)

end
