(* ===== verification/MQ_TornPass.thy ===== *)
theory MQ_TornPass
  imports MQ_Example
begin

text \<open>
  What a pass of \<^verbatim>\<open>RemoveExpiredData\<close> does when its looks do not agree: the TTL of the first item runs out
  between the scan of its chunk, which keeps it, and the test after the scan, which then goes on to the
  next chunk. The items behind it are removed before it, and a reader among them is sent back.
\<close>

section \<open>The torn pass\<close>

lemma expired_run_all:
  assumes "\<forall>j < length ds. qd_IsExpired (clk (k + j)) ttl (ds ! j)"
  shows "expired_run clk ttl k ds = length ds"
  using assms expired_run_le [of clk ttl k ds] expired_run_stop [of clk ttl k ds] by (meson le_neq_implies_less)

lemma sum_list_le_eq:
  fixes f g :: "'a \<Rightarrow> nat"
  assumes "\<And>x. f x \<le> g x" "sum_list (map f xs) = sum_list (map g xs)" "x \<in> set xs"
  shows "f x = g x"
  using assms(2,3)
proof (induction xs)
  case (Cons y ys)
  have "sum_list (map f ys) \<le> sum_list (map g ys)" by (rule sum_list_mono) (rule assms(1))
  then show ?case using Cons assms(1) [of y] by auto
qed simp

lemma torn_list:
  assumes inv: "cl_inv cl" and list: "cl_list cl = e # es" and first: "cl_live cl e = d # ks"
    and looks: "\<not> qd_IsExpired (clk 0) ttl d" "qd_IsExpired (clk 1) ttl d"
    and rest: "expired_run clk ttl 2 (concat (map (cl_live cl) es)) = length (concat (map (cl_live cl) es))"
  obtains infos cl' where "cl_RemoveExpiredData clk ttl cl = (length (concat (map (cl_live cl) es)), infos, cl')"
    and "sum_list (map ri_RemovedCount infos) = length (concat (map (cl_live cl) es))"
    and "cl_inv cl'" and "cl_list cl' = [e]" and "cl_live cl' e = d # ks" and "\<forall>x \<in> set es. cn_pooled (cl_chunk cl' x)"
proof -
  obtain emp k1 tot1 info1 cl1 where
    st: "cl_expire_chunk clk ttl 0 e (0, [], cl) = (emp, k1, tot1, info1, cl1)" by (metis prod.exhaust)
  have z: "expired_run clk ttl 0 (cl_live cl e) = 0" using first looks(1) by simp
  have S: "chunk_expired 0 [] e es cl cl1" "\<not> emp" "tot1 = 0" "info1 = []" "k1 = 1"
    using cl_expire_chunk_spec [OF inv _ st, of "[]" es, unfolded z] list first
    by (simp_all add: removal_info_def del: length_cn_live)
  have C: "cl_inv cl1" "cl_list cl1 = e # es" "cl_live cl1 e = d # ks" and same: "\<And>x. x \<noteq> e \<Longrightarrow> cl_chunk cl1 x = cl_chunk cl x"
    using S(1) first unfolding chunk_expired_def by (simp_all del: length_cn_live)
  have e: "e \<notin> set es" using cl_invD(1) [OF inv] list by simp
  have live: "map (cl_live cl1) es = map (cl_live cl) es"
    by (rule map_cong [OF refl]) (use same e in metis)
  have "cn_GetEarliestExpiry (cl_chunk cl1 e) = Some (qd_Created d)"
    using C cl_invD(4) [OF C(1), of e] by (simp add: cn_GetEarliestExpiry_live del: length_cn_live)
  then have go: "cl_RemoveExpiredData clk ttl cl = cl_expire_from clk ttl 2 es (0, [], cl1)"
    using looks(2) by (simp add: cl_RemoveExpiredData_def list st S(2-5) qd_IsExpired_def numeral_2_eq_2)
  obtain f cl' where f: "cl_expire_from clk ttl 2 es (0, [], cl1)
       = (0 + sum_list (map f es), [] @ concat (map (\<lambda>e. removal_info cl1 e (f e)) es), cl')"
     "expired_by f cl1 cl'" "\<And>x. x \<notin> set es \<Longrightarrow> f x = 0"
     "looks_agree clk ttl 2 (concat (map (cl_live cl1) es)) \<Longrightarrow> prefix_run clk ttl 2 cl1 f es"
    using cl_expire_from_spec [OF C(1), of "[e]" es clk ttl 2 0 "[]"] C(2) by auto
  have "looks_agree clk ttl 2 (concat (map (cl_live cl1) es))" using rest unfolding live by (simp add: looks_agree_def)
  then have sum: "sum_list (map f es) = length (concat (map (cl_live cl) es))"
    using f(4) rest unfolding prefix_run_def live by simp
  have all: "f x = length (cl_live cl1 x)" if "x \<in> set es" for x
    using sum_list_le_eq [OF expired_by_at(1) [OF f(2)] _ that] sum live [symmetric]
    by (simp add: length_concat o_def del: length_cn_live)
  note inv' = expired_byD(1) [OF f(2)]
  have list': "cl_list cl' = [e]"
    using expired_byD(2) [OF f(2)] C(2,3) all f(3) [OF e] by (simp add: filter_empty_conv del: length_cn_live)
  show ?thesis
  proof (rule that [OF _ _ inv' list'])
    show "cl_RemoveExpiredData clk ttl cl
        = (length (concat (map (cl_live cl) es)), removal_infos cl1 f es, cl')"
      using go f(1) sum by simp
    show "sum_list (map ri_RemovedCount (removal_infos cl1 f es)) = length (concat (map (cl_live cl) es))"
      using removal_infos_sum [of cl1 f es] sum by simp
    show "cl_live cl' e = d # ks" using expired_by_at(4) [OF f(2), of e] f(3) [OF e] C(3) by simp
    show "\<forall>x \<in> set es. cn_pooled (cl_chunk cl' x)"
    proof
      fix x assume x: "x \<in> set es"
      then have "x < cl_next cl'" using cl_invD(3) [OF C(1), of x] C(2) f(2) by (simp add: expired_by_def)
      then show "cn_pooled (cl_chunk cl' x)" using cl_invD(8) [OF inv'] list' x e by auto
    qed
  qed
qed

text \<open>A consumer without group at the start of a chunk with items reads the first of them.\<close>

lemma read_first_of_chunk:
  assumes "cn_inv (cl_chunk cl e)" "\<not> cn_pooled (cl_chunk cl e)" "cl_live cl e = d # ks"
    and "c_position c = (Some e, 0)" "\<not> c_closed c" "c_group c = None"
  shows "\<exists>cgs. c_TryRead clk k opn cl (c, groups) = Some (Some d, cgs)"
proof -
  let ?h = "cn_head (cl_chunk cl e)" and ?r = "c_round (clk k) (clk (k + 1)) cl"
  have h: "?h < cn_size (cl_chunk cl e)" using arg_cong [OF assms(3), of length] by simp
  have get: "cn_Get ?h (cl_chunk cl e) = Some d" using h assms(3) by (simp add: cn_Get_live)
  have p: "c_chunkElement c = Some e" "c_indexInChunk c = 0" using assms(4) by (simp_all add: c_position_def)
  have at_head: "\<exists>c'. run_rounds ?r (c\<lparr>c_indexInChunk := ?h\<rparr>) = Some (Some d, c')"
    using get h p assms(2) by (simp add: run_rounds.simps [of _ "c\<lparr>c_indexInChunk := ?h\<rparr>"] c_round_def)
  have "\<exists>c'. run_rounds ?r c = Some (Some d, c')"
  proof (cases "?h = 0")
    case True
    moreover have "c\<lparr>c_indexInChunk := 0\<rparr> = c" using p(2) by (cases c) simp
    ultimately show ?thesis using at_head by simp
  next
    case False
    then have "?r c = Continue (c\<lparr>c_indexInChunk := ?h\<rparr>)"
      using h p assms(2) by (simp add: c_round_def cn_Get_live)
    then show ?thesis using at_head by (simp add: run_rounds.simps [of _ c])
  qed
  then show ?thesis using assms(5,6) p by (auto simp: c_TryRead_def c_TryReadOwn_def)
qed

text \<open>C40. At most once does not hold for an item whose TTL runs out between the two looks of a pass at it:
  when this happens to the first item of the queue, and everything in the chunks behind is expired by the
  time it is scanned, the pass removes those chunks and keeps the first. A consumer that had read the
  first chunk, and at least one item after it, is sent back to the start of the first chunk and is given
  its first item again; the content is no suffix of what it was.\<close>

theorem torn_pass_repeats:
  assumes "q_inv q" and "q_expirationEnabled q" and "q_live p q" and "c_group (cm_cstore (q_consumers q) p) = None"
    and "cl_list (q_data q) = e # es" and "cl_live (q_data q) e = d # ks" and "q_items q = d # ks @ ds"
    and "\<not> qd_IsExpired (clk 0) (q_ttl q) d" and "qd_IsExpired (clk 1) (q_ttl q) d"
    and "\<forall>j < length ds. qd_IsExpired (clk (2 + j)) (q_ttl q) (ds ! j)"
    and "length (q_left p q) < length ds"
  shows "\<exists>q' q''. q_ForceExpiration clk q = Some (length ds, q') \<and> q_items q' = d # ks
    \<and> q_left p q = drop (length ds - length (q_left p q)) ds \<and> q_left p q' = d # ks
    \<and> q_TryRead clk' k p q' = Some (Some d, q'')"
proof -
  let ?c = "cm_cstore (q_consumers q) p" and ?cl = "q_data q" and ?cm = "q_consumers q"
  have opn: "\<not> q_closed q" and r: "q_reader p q" using assms(3) by (simp_all add: q_live_def)
  note inv = q_invD(1) [OF assms(1)] and wf = q_invD(5) [OF assms(1)]
  have ds: "concat (map (cl_live ?cl) es) = ds" using assms(5-7) by (simp add: q_items_def cl_items_def)
  obtain uid where u: "(uid, p) \<in> set (cm_consumers ?cm)" using r by (auto simp: q_reader_def)
  have ok: "pos_ok ?cl (c_position ?c)" by (rule cm_positionsD(1) [OF q_invD(9) [OF assms(1) opn] u assms(4)])
  have left: "q_left p q = unread ?cl (c_position ?c)"
    using assms(4) by (simp add: q_left_def left_to_read_def q_reading_def c_GetPosition_def c_position_def)
  obtain x i where x: "c_position ?c = (Some x, i)" "x \<in> set es"
  proof (cases "fst (c_position ?c)")
    case None
    then have "q_left p q = q_items q" unfolding left q_items_def by (cases "c_position ?c") simp
    then show thesis using assms(7,11) by simp
  next
    case (Some x)
    then obtain i where x: "c_position ?c = (Some x, i)" by (cases "c_position ?c") simp
    have "x \<noteq> e"
    proof
      assume "x = e"
      then have "q_left p q = drop (i - cn_head (cl_chunk ?cl e)) (cl_live ?cl e) @ ds"
        unfolding left ds [symmetric] using unread_split [OF inv, of "[]" e es i] assms(5) ok x by (simp add: pos_ok_def)
      then show False using assms(11) by simp
    qed
    then show thesis using that x ok assms(5) by (simp add: pos_ok_def)
  qed
  have run: "expired_run clk (q_ttl q) 2 (concat (map (cl_live ?cl) es)) = length (concat (map (cl_live ?cl) es))"
    unfolding ds by (rule expired_run_all) (use assms(10) in simp)
  obtain infos cl' where T: "cl_RemoveExpiredData clk (q_ttl q) ?cl = (length ds, infos, cl')"
    "sum_list (map ri_RemovedCount infos) = length ds" "cl_inv cl'" "cl_list cl' = [e]" "cl_live cl' e = d # ks"
    "\<forall>x \<in> set es. cn_pooled (cl_chunk cl' x)"
    by (rule torn_list [OF inv assms(5,6,8,9) run, unfolded ds]) blast
  have n: "0 < length ds" using assms(11) by (cases ds) simp_all
  let ?first = "cl_GetFirstElement cl'"
  have first: "?first = Some e" using T(4) by (simp add: cl_GetFirstElement_def)
  define cm' where "cm' = ?cm\<lparr>cm_cstore := \<lambda>p. if p \<in> snd ` set (cm_consumers ?cm)
        then consumer_after (length ds) ?first infos (cl_chunk cl') (cm_cstore ?cm p) else cm_cstore ?cm p,
      cm_gstore := \<lambda>g. if g \<in> snd ` set (cm_groups ?cm)
        then group_after (length ds) ?first infos (cl_chunk cl') (cm_gstore ?cm g) else cm_gstore ?cm g\<rparr>"
  have N: "cm_NotifyAllConsumersOfExpiration ?first infos (cl_chunk cl') ?cm = Some cm'"
    unfolding cm'_def using cm_Notify_spec [OF wf, of infos ?first "cl_chunk cl'", unfolded T(2)] n by simp
  let ?ch = "(q_dequeueNotify q)\<lparr>ch_buf := ch_buf (q_dequeueNotify q)
      @ replicate (ch_cap (q_dequeueNotify q) - length (ch_buf (q_dequeueNotify q))) ()\<rparr>"
  let ?q' = "q\<lparr>q_data := cl', q_consumers := cm', q_dequeueNotify := ?ch\<rparr>"
  have C: "q_ForceExpiration clk q = Some (length ds, ?q')"
    using assms(2) T(1) n N fill_signals_open [of "q_dequeueNotify q"] q_invD(7) [OF assms(1)]
    by (simp add: q_ForceExpiration_def cleanupExpiredItems_def signals_ok_def)
  let ?c' = "cm_cstore cm' p"
  have c': "?c' = consumer_after (length ds) ?first infos (cl_chunk cl') ?c" using u by (force simp: cm'_def)
  have g: "c_group ?c' = None" "\<not> c_closed ?c'" using assms(4) r by (simp_all add: c' q_reader_def)
  have pos: "c_position ?c' = (Some e, 0)"
    using x assms(4) n T(6) first
    by (simp add: c' consumer_after_def moved_position_def update_position_def Let_def cr.get_set)
  have items: "cl_items cl' = d # ks" using T(4,5) by (simp add: cl_items_def)
  have left': "q_left p ?q' = d # ks"
    using g(1) pos unread_first(1) [OF T(3) first] items
    by (simp add: q_left_def left_to_read_def q_reading_def c_GetPosition_def c_position_def)
  have e: "e \<in> set (cl_list cl')" using T(4) by simp
  obtain cgs where "c_TryRead clk' k (q_closed q) cl' (?c', cm_gstore cm') = Some (Some d, cgs)"
    using read_first_of_chunk [OF cl_invD(4,5) [OF T(3) e] T(5) pos g(2,1), of clk' k "q_closed q" "cm_gstore cm'"] by blast
  then have R: "q_TryRead clk' k p ?q' = Some (Some d, q_set_reading p cgs ?q')"
    by (simp add: q_TryRead_def q_reading_def)
  obtain j where j: "q_left p q = drop j (d # ks @ ds)" using assms(7) left by (simp add: unread_def q_items_def)
  have "length (q_left p q) = Suc (length ks + length ds) - j" using j by simp
  then have "Suc (length ks) < j" using assms(11) by linarith
  then have "q_left p q = drop (j - Suc (length ks)) ds" using j by (simp add: drop_Cons')
  then have "q_left p q = drop (length ds - length (q_left p q)) ds"
    by (cases "j - Suc (length ks) \<le> length ds") simp_all
  then show ?thesis using C left' R items by (intro exI [of _ ?q'] exI) (simp add: q_items_def)
qed

section \<open>A run that leads to it\<close>

text \<open>A consumer joins a queue without item limit, a batch of 1001 items is stored, and it reads them all.\<close>

lemma reads_on:
  assumes "q_inv q" and "q_live p q"
  shows "\<exists>evs q'. q_run q evs q' \<and> q_inv q' \<and> q_live p q' \<and> q_items q' = q_items q \<and> q_left p q' = drop n (q_left p q)
    \<and> c_group (cm_cstore (q_consumers q') p) = c_group (cm_cstore (q_consumers q) p)"
proof (induction n)
  case 0
  show ?case using assms by (auto intro: q_run.stop)
next
  case (Suc n)
  then obtain evs q1 where q1: "q_run q evs q1" "q_inv q1" "q_live p q1" "q_items q1 = q_items q"
    "q_left p q1 = drop n (q_left p q)"
    "c_group (cm_cstore (q_consumers q1) p) = c_group (cm_cstore (q_consumers q) p)" by blast
  obtain r q2 where q2: "q_TryRead (\<lambda>_. 7) 0 p q1 = Some (r, q2)" "consumed p (take 1 (q_left p q1)) (tl (q_left p q1)) q1 q2"
    by (rule q_TryRead_consumed [OF q1(2,3), where clk = "\<lambda>_. 7" and k = 0])
  have "q_known p q1" using q1(3) by (simp add: q_live_def q_reader_def q_known_def)
  then have "q_run q1 [got p q1 (case r of None \<Rightarrow> [] | Some d \<Rightarrow> [d])] q2"
    using q_step.read [OF _ q2(1)] by (blast intro: q_run.intros)
  then have "q_run q (evs @ [got p q1 (case r of None \<Rightarrow> [] | Some d \<Rightarrow> [d])]) q2" by (rule q_run_trans [OF q1(1)])
  moreover have "q_inv q2" "q_live p q2" "q_items q2 = q_items q1" "q_left p q2 = tl (q_left p q1)"
    "c_group (cm_cstore (q_consumers q2) p) = c_group (cm_cstore (q_consumers q1) p)"
    using q1(3) q2(2) unfolding consumed_def same_cursor_def by simp_all
  moreover have "tl (q_left p q1) = drop (Suc n) (q_left p q)" unfolding q1(5) by (simp add: drop_Suc tl_drop)
  ultimately show ?case using q1(4,6) by (intro exI [of _ "evs @ _"] exI [of _ q2]) auto
qed

definition torn_new :: queue where
  "torn_new = NewQueueWithConfig ''jobs'' (ex_config\<lparr>cfg_MaxItems := 0\<rparr>) 0 0"

definition torn_joined :: queue where
  "torn_joined = snd (q_AddConsumer ''c1'' 0 torn_new)"

definition torn_items :: "nat \<Rightarrow> queue_data list" where
  "torn_items n = map (\<lambda>i. ex_item\<lparr>qd_ID := of_nat i\<rparr>) [0..<n]"

lemma torn_items_simps:
  "length (torn_items n) = n" "i < n \<Longrightarrow> torn_items n ! i = ex_item\<lparr>qd_ID := of_nat i\<rparr>"
  "sum_list (map qd_size (torn_items n)) = 180 * int n" "x \<in> set (torn_items n) \<Longrightarrow> qd_size x = 180 \<and> qd_Created x = 5"
proof -
  have "qd_Created ex_item = 5" by code_simp
  then show "x \<in> set (torn_items n) \<Longrightarrow> qd_size x = 180 \<and> qd_Created x = 5" using ex_item_ok(2) by (auto simp: torn_items_def)
  show "sum_list (map qd_size (torn_items n)) = 180 * int n" by (induction n) (simp_all add: torn_items_def ex_item_ok)
qed (simp_all add: torn_items_def)

lemma torn_start:
  "q_run torn_new [Quiet] torn_joined" "q_inv torn_joined" "q_live 0 torn_joined" "q_left 0 torn_joined = []" "q_items torn_joined = []"
  "q_maxItems torn_joined = 0" "q_room (180 * 1001) torn_joined" "c_group (cm_cstore (q_consumers torn_joined) 0) = None"
proof -
  have m: "cfg_MaxMemory (ex_config\<lparr>cfg_MaxItems := 0\<rparr>) \<le> 2 ^ 50" by (simp add: ex_config_def MaxQueueMemory_def)
  note N = q_inv_new [OF m, of "''jobs''" 0 0, folded torn_new_def]
  have "fst (q_AddConsumer ''c1'' 0 torn_new) = 0" by code_simp
  then have eq: "q_AddConsumer ''c1'' 0 torn_new = (0, torn_joined)" by (simp add: torn_joined_def prod_eq_iff)
  have f: "''c1'' \<notin> fst ` set (cm_consumers (q_consumers torn_new))" by code_simp
  note A = q_AddConsumer_spec [OF N(1) f eq]
  show "q_inv torn_joined" "q_live 0 torn_joined" "q_left 0 torn_joined = []" "q_items torn_joined = []"
    using A N by (simp_all add: undisturbed_def)
  show "q_run torn_new [Quiet] torn_joined" using q_step.join [OF f eq] by (blast intro: q_run.intros)
  show "q_maxItems torn_joined = 0" "c_group (cm_cstore (q_consumers torn_joined) 0) = None" by code_simp+
  have "mt_totalMemory (q_memoryTracker torn_joined) = 0" "mt_maxMemory (q_memoryTracker torn_joined) = 1048576" by code_simp+
  then show "q_room (180 * 1001) torn_joined" by (simp add: q_room_def)
qed

lemma torn_stored:
  obtains q where "q_run torn_joined [Put (torn_items 1001)] q" "stored (torn_items 1001) torn_joined q"
proof -
  let ?ds = "torn_items 1001"
  have ok: "batch_ok ?ds"
    using torn_items_simps(3) [of 1001] torn_items_simps(4) [of _ 1001]
    by (auto simp: batch_ok_def item_overhead_def BaseQueueDataSize_def BaseQueueEventSize_def MaxInt64_def)
  have fits: "q_batch_fits ?ds torn_joined" using torn_start(6,7) torn_items_simps(3) [of 1001] by (simp add: q_batch_fits_def)
  have room: "sum_list (map qd_size ?ds) \<le> mt_maxMemory (q_memoryTracker torn_joined)"
    using fits q_memory_range(1) [OF torn_start(2)] by (simp add: q_batch_fits_def q_room_def)
  have opn: "\<not> q_closed torn_joined" using torn_start(3) by (simp add: q_live_def)
  obtain e q where B: "q_batch_round ?ds (sum_list (map qd_size ?ds)) torn_joined = Some (Done e q)" "batch_done ?ds torn_joined e q"
    using batch_attempt [of torn_joined ?ds] torn_start(2) ok fits by (auto simp: batch_stall_def)
  then have "e = None" using room opn torn_start(6) by (cases e) (auto simp: batch_done_def q_batch_never_def)
  then have st: "stored ?ds torn_joined q" using B(2) by (simp add: batch_done_def)
  have "q_step torn_joined (added torn_joined q) q" using q_step.batch [OF ok B(1)] by simp
  moreover have "added torn_joined q = Put ?ds" using st torn_start(5) by (simp add: added_def stored_def)
  ultimately show ?thesis using that st by (metis q_run.intros)
qed

text \<open>The consumer has nothing left to read, and is given the first item again after the pass.\<close>

theorem torn_pass_repeats_witness:
  "\<exists>evs q n q' q''. q_reached evs q \<and> q_items q = torn_items 1001 \<and> q_left 0 q = []
    \<and> q_ForceExpiration (\<lambda>k. 65 + int k) q = Some (n, q') \<and> 0 < n
    \<and> q_TryRead (\<lambda>_. 70) 0 0 q' = Some (Some (hd (torn_items 1001)), q'')"
proof -
  obtain q1 where Q1: "q_run torn_joined [Put (torn_items 1001)] q1" "stored (torn_items 1001) torn_joined q1" by (rule torn_stored)
  have live1: "q_inv q1" "q_live 0 q1" "q_left 0 q1 = torn_items 1001" "q_items q1 = torn_items 1001"
    "c_group (cm_cstore (q_consumers q1) 0) = None"
    using Q1(2) torn_start(3,4,5,8) by (auto simp: stored_def q_live_def)
  obtain evs q2 where Q2: "q_run q1 evs q2" "q_inv q2" "q_live 0 q2" "q_items q2 = torn_items 1001"
    "q_left 0 q2 = drop 1001 (torn_items 1001)" "c_group (cm_cstore (q_consumers q2) 0) = None"
    using reads_on [OF live1(1,2), of 1001] live1(3-5) by auto
  define q where "q = q_EnableExpiration (q_SetTTL 60 q2)"
  have run: "q_run q2 [Quiet, Quiet] q" unfolding q_def by (blast intro: q_run.intros q_step.set_ttl q_step.enable)
  have "q_run torn_new ([Quiet] @ [Put (torn_items 1001)] @ evs @ [Quiet, Quiet]) q"
    by (intro q_run_trans [OF torn_start(1)] q_run_trans [OF Q1(1)] q_run_trans [OF Q2(1) run])
  then have reached: "q_reached ([Quiet] @ [Put (torn_items 1001)] @ evs @ [Quiet, Quiet]) q"
    unfolding q_reached_def torn_new_def
    by (intro exI [of _ "''jobs''"] exI [of _ "ex_config\<lparr>cfg_MaxItems := 0\<rparr>"] exI [of _ 0])
      (simp add: ex_config_def MaxQueueMemory_def)
  note inv = q_reached_inv [OF reached]
  have Q: "q_live 0 q" "c_group (cm_cstore (q_consumers q) 0) = None" "q_expirationEnabled q" "q_ttl q = 60" "q_items q = torn_items 1001"
    "q_left 0 q = []"
    using Q2(3-6) torn_items_simps(1) [of 1001]
    by (simp_all add: q_def q_EnableExpiration_def q_SetTTL_def q_live_def q_reader_def q_items_def q_left_def q_reading_def)
  note ci = q_invD(1) [OF inv]
  have len: "length (cl_items (q_data q)) = 1001" using Q(5) torn_items_simps(1) [of 1001] by (simp add: q_items_def)
  then obtain e es where l: "cl_list (q_data q) = e # es" by (cases "cl_list (q_data q)") (auto simp: cl_items_def)
  obtain d ks where d: "cl_live (q_data q) e = d # ks" using cl_invD(7) [OF ci, of e] l by (cases "cl_live (q_data q) e") simp_all
  define ds where "ds = concat (map (cl_live (q_data q)) es)"
  have items: "q_items q = d # ks @ ds" using l d by (simp add: q_items_def cl_items_def ds_def)
  have "length (d # ks) \<le> 1000" using cl_invD(4) [OF ci, of e] l arg_cong [OF d, of length] cn_inv_le by fastforce
  then have ne: "0 < length ds" using len items by (cases ds) (simp_all add: q_items_def)
  have made: "qd_Created x = 5" if "x \<in> set (q_items q)" for x using torn_items_simps(4) that unfolding Q(5) by blast
  have "qd_Created d = 5" using made items by simp
  then have looks: "\<not> qd_IsExpired (65 + int 0) (q_ttl q) d" "qd_IsExpired (65 + int 1) (q_ttl q) d"
    by (simp_all add: qd_IsExpired_def Q(4) time_Since_def MaxInt64_def MinInt64_def)
  have rest: "\<forall>j < length ds. qd_IsExpired (65 + int (2 + j)) (q_ttl q) (ds ! j)"
  proof (intro allI impI)
    fix j assume "j < length ds"
    then have "qd_Created (ds ! j) = 5" using made items by simp
    then show "qd_IsExpired (65 + int (2 + j)) (q_ttl q) (ds ! j)"
      by (simp add: qd_IsExpired_def Q(4) time_Since_def MaxInt64_def MinInt64_def)
  qed
  have "length (q_left 0 q) < length ds" using ne Q(6) by simp
  note torn_pass_repeats [OF inv Q(3,1,2) l d items looks rest this, of "\<lambda>_. 70" 0]
  then obtain q' q'' where F: "q_ForceExpiration (\<lambda>k. 65 + int k) q = Some (length ds, q')"
    "q_TryRead (\<lambda>_. 70) 0 0 q' = Some (Some d, q'')" by blast
  have "d = hd (torn_items 1001)" using items Q(5) by (metis list.sel(1))
  then show ?thesis using F reached Q(5,6) ne by blast
qed

end
