(* ===== verification/Spec2Isabelle.thy ===== *)
theory Spec2Isabelle
  imports MQ_Components MQ_Interleavings MQ_ShellWake MQ_Reports MQ_MapPayload MQ_Bench
    MQ_Pool MQ_PipelineProps MQ_Requests MQ_Advanced MQ_Observability MQ_TornPass
begin

text \<open>
  A model of the multi-producer multi-consumer queue of \<^verbatim>\<open>src/queue/\<close> and what makes it correct.

  The program. A queue holds immutable items in a list of chunks of 1000 cells. Producers append
  items (\<^verbatim>\<open>TryEnqueue\<close>, \<^verbatim>\<open>Enqueue\<close>, the batch forms and those with a context) as long as an item
  limit and a memory limit allow it. Reading removes nothing: every consumer has a position (a
  chunk and an index) and reads all items at its own pace, and the members of a group share one
  position, so they divide the items. Only expiration removes items: from the front, those older
  than the TTL; it then corrects every position, tells each reader how many items it lost, and
  wakes blocked producers. Blocked readers are woken through a channel of tokens all share.

  The theories, and the files they model.
    \<^verbatim>\<open>MQ_Prelude\<close>: 64-bit integers with wrap-around, time, buffered channels (a second close and a
      send on a closed channel are \<open>None\<close>, the panic), folds that may fail.
    \<^verbatim>\<open>MQ_Errors\<close> (\<^verbatim>\<open>errors.go\<close>): the error types and their texts.
    \<^verbatim>\<open>MQ_Payload\<close>, \<^verbatim>\<open>MQ_Memory\<close> (\<^verbatim>\<open>memory.go\<close>): the estimate of a payload (the walk over its
      reflection, with the visited set, the depth limit and the type cache) and the tracker.
    \<^verbatim>\<open>MQ_Data\<close> (\<^verbatim>\<open>data.go\<close>, \<^verbatim>\<open>pool.go\<close>): items and chunks; \<^verbatim>\<open>MQ_ChunkedList\<close>
      (\<^verbatim>\<open>chunked_list.go\<close>): the list of chunks. Chunks are in a store by address, so a reader may
      still point to a chunk that has left the list; the invariants \<open>cl_inv\<close>, \<open>cl_chained\<close> and
      \<open>cl_accounted\<close> say that the chunks are linked in order, all but the last full, counted exactly.
    \<^verbatim>\<open>MQ_Cursor\<close> (positions, \<^verbatim>\<open>calculateExpiredCount\<close>): \<open>unread\<close> is what a position has left to read,
      and the main lemma is how expiration changes it.
    \<^verbatim>\<open>MQ_Reader\<close>: the locale \<open>reader\<close>, the contract of a loop that reads at a position; its lemmas
      are that the loop ends and delivers the first unread item. \<^verbatim>\<open>MQ_Group\<close> (\<^verbatim>\<open>consumer_group.go\<close>) and
      \<^verbatim>\<open>MQ_Consumer\<close> (\<^verbatim>\<open>consumer.go\<close>) interpret it on the two copies of the loop.
    \<^verbatim>\<open>MQ_Manager\<close> (the manager in \<^verbatim>\<open>consumer.go\<close>): the maps of consumers and groups, removal, eviction
      and the notification of expired items. Consumers and groups are in stores by address.
    \<^verbatim>\<open>MQ_Queue\<close> (\<^verbatim>\<open>queue.go\<close>, \<^verbatim>\<open>notify.go\<close>): the queue's record and operations; the blocking reads.
    \<^verbatim>\<open>MQ_QueueInv\<close>, \<^verbatim>\<open>MQ_QueueOps\<close>, \<^verbatim>\<open>MQ_Members\<close>: the invariant \<open>q_inv\<close> and, for each operation, what
      it does on every branch in terms of \<open>q_items\<close> (the content), \<open>q_left\<close> (what a reader has
      left) and the result.
    \<^verbatim>\<open>MQ_Waiting\<close>: the locales \<open>rounds\<close>, \<open>waiting\<close> and \<open>ctx_waiting\<close>, the contract of a loop of
      attempts that waits in a \<^verbatim>\<open>select\<close> between two of them, interpreted on all blocking operations.
    \<^verbatim>\<open>MQ_Run\<close>: runs. An abstract queue is its items and what each reader has left; \<open>q_step\<close> says which
      operation makes which event, \<open>implements\<close> what an event does to the abstract queue.
    \<^verbatim>\<open>MQ_Metrics\<close> (\<^verbatim>\<open>metrics.go\<close>): counters, rings of latencies, average and percentile.
    \<^verbatim>\<open>MQ_Race\<close>: the two \<^verbatim>\<open>TryRead\<close> as sequences of atomic steps, one for each access to shared
      state, and the proof that the steps alone are the operation. \<^verbatim>\<open>MQ_GroupRace\<close>: any number of
      goroutines in one group's \<^verbatim>\<open>TryRead\<close>, interleaved with storing and expiration; what each
      goroutine knows (\<open>pc_ok\<close>) is kept by every step of the others. \<^verbatim>\<open>MQ_ConsumerRace\<close>: one reader
      of a consumer, interleaved with storing and with an expiration pass taken apart at the
      consumer's lock. \<^verbatim>\<open>MQ_Interleavings\<close>: the properties of these, among them three schedules
      that lose or repeat an item.
    \<^verbatim>\<open>MQ_Float\<close>, \<^verbatim>\<open>MQ_Text\<close>: what the code uses of \<^verbatim>\<open>float64\<close> (exact operations, rounded), of the verb
      \<^verbatim>\<open>%f\<close>, of durations as text and of \<^verbatim>\<open>strings\<close> and \<^verbatim>\<open>strconv\<close>. \<^verbatim>\<open>MQ_Reports\<close>: that the warning near
      the memory limit and the Prometheus text are exact. \<^verbatim>\<open>MQ_MapPayload\<close>: that a payload with a map in
      it is never accepted.
    \<^verbatim>\<open>MQ_Goroutines\<close>: \<^verbatim>\<open>NativeChannel\<close>, the loop of \<^verbatim>\<open>expirationWorker\<close>, and \<^verbatim>\<open>CloseWithContext\<close>; what the
      rest of the program does meanwhile is a run of the queue.
    \<^verbatim>\<open>MQ_Shell\<close>, \<^verbatim>\<open>MQ_ShellProps\<close>, \<^verbatim>\<open>MQ_ShellWake\<close> (\<^verbatim>\<open>cmd/qctl/main.go\<close>): the command line tool. A session
      interleaves the lines typed, the goroutines of the subscriptions and the expiration workers.
    \<^verbatim>\<open>MQ_Bench\<close> (\<^verbatim>\<open>scripts/compare-benchmarks.go\<close>): parsing, averages, the table and the verdict.
    \<^verbatim>\<open>MQ_Sending\<close>: what a goroutine that sends into a queue, or reads from one at its position, has done
      after some rounds, when in between the others do anything that is a run of the queue: \<open>sent_run\<close>
      says which payloads it put, \<open>ran\<close> which items it was given; both compose. \<^verbatim>\<open>MQ_Calm\<close>: readers
      that stay while nothing expires, and what they can rely on of each item they read.
    \<^verbatim>\<open>MQ_Pool\<close> (\<^verbatim>\<open>examples/patterns/worker_pool.go\<close>): the jobs, a worker, and the loop that collects
      the results.
    \<^verbatim>\<open>MQ_Pipeline\<close>, \<^verbatim>\<open>MQ_Batches\<close>, \<^verbatim>\<open>MQ_PipelineProps\<close> (\<^verbatim>\<open>examples/patterns/data_pipeline.go\<close>): the
      stages as goroutines between two queues (\<open>map_phases\<close> is a worker of \<^verbatim>\<open>Map\<close> and \<^verbatim>\<open>Filter\<close>,
      \<open>batch_loop\<close> the goroutine of \<^verbatim>\<open>Batch\<close>), what they forward, and what the example's own stages do.
    \<^verbatim>\<open>MQ_Requests\<close> (\<^verbatim>\<open>examples/patterns/request_response.go\<close>): a requester and the processor, whose
      response queues are in a store by address.
    \<^verbatim>\<open>MQ_SmallItems\<close>: a queue with the default limit takes 900 items of at most 500 bytes. On it rest the
      programs whose output is computed: \<^verbatim>\<open>MQ_BasicUsage\<close> (\<^verbatim>\<open>examples/basic_usage.go\<close>), \<^verbatim>\<open>MQ_Advanced\<close>
      (\<^verbatim>\<open>examples/advanced_usage.go\<close>) and \<^verbatim>\<open>MQ_Observability\<close>
      (\<^verbatim>\<open>examples/observability/metrics_example.go\<close>).
    \<^verbatim>\<open>MQ_TornPass\<close>: an expiration pass in which an item's TTL runs out between two looks at it, and the
      reader that is given items twice after it.
    \<^verbatim>\<open>MQ_Example\<close>: small concrete queues the witnesses use. \<^verbatim>\<open>MQ_Components\<close>: the properties of
      single components. This theory: those of the queue as a whole.

  How the code's state and concurrency are represented. Records have the fields of the structs;
  padding, mutexes and the back pointer to the queue are left out, and atomics are their values. A
  step is one critical section of \<^verbatim>\<open>Queue.mutex\<close> (with the non-blocking notification after it), a run
  any sequence of steps, so the properties of runs hold for every interleaving of producers, members
  that come and go, expiration passes and reads that run without interference. Reads that do
  interfere have their own model (\<^verbatim>\<open>MQ_Race\<close> and what builds on it), in which what the code checks
  again under a lock is checked again. A blocking operation gets a list that says, for
  each wait, which case of the \<^verbatim>\<open>select\<close> fired and what the rest of the program did to the queue
  meanwhile, an arbitrary function; when the list ends the operation is still blocked. Likewise a
  goroutine of an example gets a list of turns, each with what the others do before it; when the list
  ends the goroutine is still in its loop, and how long a list is enough to leave it is part of the
  theorem where it does (one turn more than there are items to read). \<open>None\<close> is a
  panic or, for the read loops, not ending; that neither happens is proved.

  From outside come the clock (a reading for each call of \<^verbatim>\<open>time.Now\<close> or \<^verbatim>\<open>time.Since\<close>), the
  identifiers of \<^verbatim>\<open>uuid.New\<close>, the result of a payload's own \<^verbatim>\<open>Size\<close>, and the answers of a context.
  Hypotheses: \<open>MaxMemory\<close> is at most \<open>2 ^ 50\<close> bytes, so that the overhead of chunks, which is
  added unchecked, cannot reach the end of an int64; a payload's own \<^verbatim>\<open>Size\<close> is an int64 and
  strings are shorter than that (\<open>payload_ok\<close>); a new consumer's identifier is fresh. An expiration
  pass reads the clock for every item, and once more at the first item of a chunk that it keeps, to
  decide whether to go on to the next chunk. The steps of runs, of sessions and of the machine of one
  consumer (\<open>q_step\<close>, \<open>sh_step\<close>, \<open>agreed_run\<close>) allow any clock of which these two looks agree
  (\<open>looks_agree\<close>: no TTL runs out just in between). So the properties of runs, and what is said of
  goroutines among others that do anything, say nothing of a program in which such a pass has happened;
  \<^verbatim>\<open>MQ_TornPass\<close> shows that they do not hold there. The walk over a payload
  has the code's own limit of depth 1000, which is its measure; the other loops are structural, have
  a measure, or are \<open>partial_function\<close> with a proof that they return.

  Not modelled: the single stores inside a critical section of \<^verbatim>\<open>Queue.mutex\<close> as the accesses without
  a lock could see them half done; a group or the queue being closed in the middle of a \<^verbatim>\<open>TryRead\<close>;
  getters of fields; the \<^verbatim>\<open>main\<close> functions of the examples that make queues, start goroutines and wait
  for them; of the data pipeline, the enricher, which writes into a map that several payloads share
  (payloads are values here; no log entry gets as far, for the parser's are all refused), and the
  printer; lines of fixed text.
\<close>

section \<open>Histories of the queue\<close>

text \<open>C1. Exactly once, in order: along any run of steps of any operations in which nothing
  expires, a reader that is not removed is given, together with what it still has left, exactly
  what it had left at the start followed by everything that was put into the queue, in this
  order and without repetition. For a member of a group, what counts is what all members of the
  group were given: they share the items.\<close>

theorem exactly_once_fifo:
  assumes "q_reached evs0 q" and "q_run q evs q'" and "q_live p q" and "stays p evs" and "removed evs = 0"
  shows "q_live p q'
    \<and> given p (c_group (cm_cstore (q_consumers q) p)) evs @ q_left p q' = q_left p q @ puts evs"
  using run_reader [OF assms(2) q_reached_inv [OF assms(1)] assms(3,4) refl] assms(5) by blast

theorem exactly_once_fifo_witness:
  "q_live 0 ex_read \<and> given 0 None [Put [ex_item], Got 0 None [ex_item]] @ q_left 0 ex_read = [] @ [ex_item]"
proof -
  show ?thesis
    using exactly_once_fifo [OF ex_reached(2) ex_run ex_joined_inv(2)] ex_joined_inv(3) ex_own
    by (simp add: stays_def)
qed

text \<open>C2. Also when items expire, as long as no item's TTL runs out between an expiration pass's two
  looks at it (the condition of the step \<open>expire\<close> of \<open>q_step\<close>; the clock may move): a reader is never
  given an item twice, out of order, or one that was not put into the queue; what it is given and has
  left is a subsequence of what it had left and what was put.\<close>

theorem at_most_once_fifo:
  assumes "q_reached evs0 q" and "q_run q evs q'" and "q_live p q" and "stays p evs"
  shows "subseq (given p (c_group (cm_cstore (q_consumers q) p)) evs @ q_left p q') (q_left p q @ puts evs)"
  using run_reader [OF assms(2) q_reached_inv [OF assms(1)] assms(3,4) refl] by blast

theorem at_most_once_fifo_witness:
  "subseq (given 0 None [Put [ex_item], Got 0 None [ex_item]] @ q_left 0 ex_read)
     (q_left 0 ex_joined @ [ex_item])"
proof -
  show ?thesis
    using at_most_once_fifo [OF ex_reached(2) ex_run ex_joined_inv(2)] ex_own
    by (simp add: stays_def)
qed

text \<open>C3. Refinement: every critical section of every operation implements its event on the abstract
  queue (the items, and for each reader the items it has still to read), and keeps the invariant. An
  expiration pass may have any clock, as long as no item's TTL runs out between its two looks at it.\<close>

theorem step_refines_event:
  assumes "q_reached evs q" and "q_step q ev q'"
  shows "implements ev q q'"
  using q_step_implements [OF assms(2) q_reached_inv [OF assms(1)]] .

theorem step_refines_event_witness: "implements (Put [ex_item]) ex_joined ex_stored"
  by (rule step_refines_event [OF ex_reached(2) ex_steps(2)])

text \<open>C4. The content: as long as the queue is open, and in no expiration pass so far an item's TTL has run
  out between the pass's two looks at it, it holds what was put into it less a prefix, which is as long
  as the numbers of expired items add up to.\<close>

theorem content_of_history:
  assumes "q_reached evs q" and "\<not> q_closed q"
  shows "removed evs \<le> length (puts evs) \<and> q_items q = drop (removed evs) (puts evs)"
proof -
  obtain name config now sequence where c: "cfg_MaxMemory config \<le> 2 ^ 50"
    "q_run (NewQueueWithConfig name config now sequence) evs q"
    using assms(1) unfolding q_reached_def by blast
  show ?thesis
    using run_items [OF c(2) q_inv_new(1) [OF c(1)] assms(2)] by (simp add: q_inv_new(2) [OF c(1)])
qed

theorem content_of_history_witness: "q_items ex_read = drop 0 [ex_item]"
proof -
  have "\<not> q_closed ex_read" using ex_read_inv(2) by (simp add: q_live_def)
  then show ?thesis using content_of_history [OF ex_reached(4)] by simp
qed

text \<open>C5. The invariant of every reachable queue: the counter is the number of live items, the tracker
  counts exactly the bytes of the chunks and of the live items, in the range of an int64, and the
  history of no consumer is longer than its bound.\<close>

theorem reached_accounting:
  assumes "q_reached evs q"
  shows "cl_totalItems (q_data q) = int (length (q_items q))
    \<and> mt_totalMemory (q_memoryTracker q)
        = ChunkNodeSize * int (length (cl_list (q_data q))) + sum_list (map qd_size (q_items q))
    \<and> 0 \<le> mt_totalMemory (q_memoryTracker q) \<and> mt_totalMemory (q_memoryTracker q) \<le> MaxInt64
    \<and> (\<forall>p. length (c_dequeueHistory (cm_cstore (q_consumers q) p)) \<le> c_maxHistory (cm_cstore (q_consumers q) p))"
proof -
  note inv = q_reached_inv [OF assms]
  show ?thesis
    using q_total_items [OF inv] q_invD(3) [OF inv] q_memory_range [OF inv] cm_wfD(13) [OF q_invD(5) [OF inv]]
    by (simp add: cl_accounted_def cl_bytes_def q_items_def)
qed

theorem reached_accounting_witness:
  "cl_totalItems (q_data ex_read) = 1 \<and> mt_totalMemory (q_memoryTracker ex_read) = 112240 + 180"
  using reached_accounting [OF ex_reached(4)]
  by (simp add: ex_read_inv ex_room ex_item_ok ChunkNodeSize_def)



section \<open>Adding\<close>

text \<open>C12. \<^verbatim>\<open>TryEnqueue\<close> on every branch. A closed queue gives the closed error and stays as it is; at the
  item limit the full error, over the memory limit the memory error with the usage and the limit,
  and the queue keeps its items, readers and counts; otherwise the new item, with the next ID, is
  last, every reader has it last, and as many waiting readers as there are consumers or items
  are signalled, up to the room in the channel.\<close>

theorem try_enqueue_outcome:
  assumes "q_inv q" and "payload_ok payload"
  shows "\<exists>d err q'. q_TryEnqueue payload now q = Some (err, q') \<and> q_inv q'
    \<and> (q_closed q \<longrightarrow> err = Some (QueueClosedError ''enqueue'') \<and> q' = q)
    \<and> (\<not> q_closed q \<longrightarrow> new_item payload q now d
         \<and> (q_at_limit q \<longrightarrow> err = Some (QueueFullError (q_maxItems q)) \<and> same_queue q q')
         \<and> (\<not> q_at_limit q \<and> \<not> q_room (qd_size d) q \<longrightarrow> same_queue q q'
              \<and> (\<exists>needed. err = Some (MemoryLimitError (mt_totalMemory (q_memoryTracker q))
                    (mt_maxMemory (q_memoryTracker q)) needed)))
         \<and> (\<not> q_at_limit q \<and> q_room (qd_size d) q \<longrightarrow> err = None \<and> stored [d] q q'))"
proof (cases "q_closed q")
  case True
  then show ?thesis using assms(1) by (simp add: q_TryEnqueue_closed)
next
  case False
  show ?thesis
    by (rule q_TryEnqueue_open [OF assms(1) False assms(2), where now = now]) (use False in blast)
qed

theorem try_enqueue_outcome_witness:
  "\<exists>d err q'. q_TryEnqueue (PString ''x'') 9 ex_stored = Some (err, q') \<and> q_inv q'
     \<and> new_item (PString ''x'') ex_stored 9 d"
  using try_enqueue_outcome [OF ex_stored_inv(1) ex_payload, of 9] ex_stored_inv(4) by blast

text \<open>C13. The bound on the memory: when \<^verbatim>\<open>TryEnqueue\<close> succeeds, the usage is at most the limit and the
  overhead of one chunk; the limit itself can be passed by that overhead, which is not checked.\<close>

theorem try_enqueue_memory:
  assumes "q_inv q" and "payload_ok payload" and "q_TryEnqueue payload now q = Some (None, q')"
  shows "mt_totalMemory (q_memoryTracker q') \<le> mt_maxMemory (q_memoryTracker q') + ChunkNodeSize"
proof (cases "q_closed q")
  case True
  then show ?thesis using assms(3) by (simp add: q_TryEnqueue_closed)
next
  case False
  show ?thesis
  proof (rule q_TryEnqueue_open [OF assms(1) False assms(2), where now = now], goal_cases)
    case (1 d err q'')
    then have "\<not> q_at_limit q" "q_room (qd_size d) q" "q'' = q'" using assms(3) by auto
    then have "stored [d] q q'" "mt_totalMemory (q_memoryTracker q')
         \<le> mt_totalMemory (q_memoryTracker q) + qd_size d + ChunkNodeSize" using 1 by auto
    then show ?case using \<open>q_room (qd_size d) q\<close> by (simp add: stored_def q_room_def)
  qed
qed

text \<open>The limit of this queue is 1000 bytes; after the first item it holds more than 112000.\<close>

definition ex_small :: queue where
  "ex_small = NewQueueWithConfig ''q'' (ex_config\<lparr>cfg_MaxMemory := 1000\<rparr>) 0 0"

definition ex_full :: queue where
  "ex_full = snd (the (q_TryEnqueue PNil 1 ex_small))"

lemma ex_full:
  "q_inv ex_small" "q_TryEnqueue PNil 1 ex_small = Some (None, ex_full)" "q_inv ex_full" "\<not> q_closed ex_full"
  "mt_maxMemory (q_memoryTracker ex_full) = 1000" "mt_totalMemory (q_memoryTracker ex_full) > 1000"
proof -
  show inv: "q_inv ex_small" unfolding ex_small_def by (rule q_inv_new) (simp add: ex_config_def)
  have opn: "\<not> q_closed ex_small" unfolding ex_small_def by (rule q_inv_new(3)) (simp add: ex_config_def)
  obtain err q' where q': "q_TryEnqueue PNil 1 ex_small = Some (err, q')" "q_inv q'"
    by (rule q_TryEnqueue_open [OF inv opn, of PNil, where now = 1]) simp_all
  moreover have "fst (the (q_TryEnqueue PNil 1 ex_small)) = None" by code_simp
  ultimately show "q_TryEnqueue PNil 1 ex_small = Some (None, ex_full)" "q_inv ex_full" by (simp_all add: ex_full_def)
  show "\<not> q_closed ex_full" "mt_maxMemory (q_memoryTracker ex_full) = 1000"
    "mt_totalMemory (q_memoryTracker ex_full) > 1000" by code_simp+
qed

theorem try_enqueue_memory_witness:
  "mt_totalMemory (q_memoryTracker ex_full) > 1000
   \<and> mt_totalMemory (q_memoryTracker ex_full) \<le> 1000 + ChunkNodeSize"
  using try_enqueue_memory [OF ex_full(1) _ ex_full(2)] ex_full(5,6) by simp

text \<open>C14. \<^verbatim>\<open>TryEnqueueBatch\<close> is all or nothing: either every payload becomes an item, in order, with
  consecutive IDs, at the end of the queue, and then the limits had room for all of them; or there
  is an error and the queue keeps its items, readers and counts.\<close>

theorem try_batch_atomic:
  assumes "q_inv q" and "\<not> q_closed q" and "payloads \<noteq> []" and "\<forall>p \<in> set payloads. payload_ok p"
  shows "\<exists>err q'. q_TryEnqueueBatch payloads clk q = Some (err, q') \<and> q_inv q'
    \<and> (err \<noteq> None \<longrightarrow> same_queue q q')
    \<and> (err = None \<longrightarrow> (\<exists>ds. batch_items (q_name q) clk 0 (q_dataIDSequence q) payloads ds
          \<and> q_room (sum_list (map qd_size ds)) q
          \<and> (q_maxItems q > 0 \<longrightarrow> int (length (q_items q) + length payloads) \<le> q_maxItems q)
          \<and> stored ds q q'))"
  by (rule q_TryEnqueueBatch_open [OF assms(1,2,4,3), where clk = clk]) blast

theorem try_batch_atomic_witness:
  "\<exists>q' ds. q_TryEnqueueBatch [PString ''x'', PNil] (\<lambda>_. 9) ex_stored = Some (None, q')
     \<and> length ds = 2 \<and> q_items q' = ex_item # ds"
proof -
  have p: "\<forall>p \<in> set [PString ''x'', PNil]. payload_ok p" by (simp add: MaxInt64_def)
  have v: "fst (the (q_TryEnqueueBatch [PString ''x'', PNil] (\<lambda>_. 9) ex_stored)) = None" by code_simp
  obtain err q' where r: "q_TryEnqueueBatch [PString ''x'', PNil] (\<lambda>_. 9) ex_stored = Some (err, q')"
    "err = None \<longrightarrow> (\<exists>ds. batch_items (q_name ex_stored) (\<lambda>_. 9) 0 (q_dataIDSequence ex_stored)
        [PString ''x'', PNil] ds \<and> stored ds ex_stored q')"
    using try_batch_atomic [OF ex_stored_inv(1,4) _ p, of "\<lambda>_. 9"] by blast
  then have "err = None" using v by simp
  then obtain ds where "batch_items (q_name ex_stored) (\<lambda>_. 9) 0 (q_dataIDSequence ex_stored)
      [PString ''x'', PNil] ds" "stored ds ex_stored q'" using r(2) by blast
  then have "length ds = 2" "q_items q' = ex_item # ds"
    using batch_items_size(1) by (fastforce simp: stored_def ex_stored_item)+
  then show ?thesis using r(1) \<open>err = None\<close> by blast
qed

text \<open>C15. The blocking \<^verbatim>\<open>Enqueue\<close>, whatever the rest of the program does in between: it neither panics nor
  breaks the queue. If it returns nil then the item was stored by its last attempt, when the queue
  was open and had room; an error is that of a closed queue or of an item beyond the limit; and it
  is blocked only while the last attempt found no room.\<close>

theorem enqueue_blocking:
  assumes "q_inv q" and "payload_ok payload" and "world_keeps q_inv (map snd env)"
  shows "\<exists>out q' d. q_Enqueue payload now env q = Some (out, q') \<and> q_inv q' \<and> item_ok d \<and> qd_Payload d = payload
    \<and> (out = Returned None \<longrightarrow> (\<exists>q0. q_inv q0 \<and> \<not> q_closed q0 \<and> \<not> q_at_limit q0 \<and> q_room (qd_size d) q0
          \<and> stored [d] q0 q'))
    \<and> (\<forall>e. out = Returned (Some e) \<longrightarrow>
          e = QueueClosedError ''enqueue'' \<or> (\<exists>current mx needed. e = MemoryLimitError current mx needed \<and> needed > mx))
    \<and> (out = Blocked \<longrightarrow> (\<exists>q0. same_queue q0 q' \<and> \<not> q_closed q0 \<and> (q_at_limit q0 \<or> \<not> q_room (qd_size d) q0)))"
proof -
  obtain d q1 where n: "q_new_data payload now q = (d, q1)" "new_item payload q now d" "same_queue q q1"
    by (rule q_new_data_spec [OF assms(1,2), where now = now])
  have d: "item_ok d" "qd_Payload d = payload" using new_item_ok [OF n(2) assms(2)] n(2) by (simp_all add: new_item_def)
  have inv1: "q_inv q1" by (rule same_queue_inv [OF n(3) assms(1)])
  have w: "world_keeps (\<lambda>q. q_inv q \<and> item_ok d) (map snd env)"
    using assms(3) by (simp add: world_keeps_def)
  consider "q_closed q" | "\<not> q_closed q" "qd_size d > mt_maxMemory (q_memoryTracker q1)"
    | "\<not> q_closed q" "\<not> qd_size d > mt_maxMemory (q_memoryTracker q1)" by blast
  then show ?thesis
  proof cases
    case 3
    obtain out q' where L: "q_enqueue_loop d env q1 = Some (out, q')"
      "waited (\<lambda>q. q_inv q \<and> item_ok d) (enqueue_done (\<lambda>e. e) d) (enqueue_stall d)
         (\<lambda>e. e = Some (QueueClosedError ''enqueue'')) out q'"
      using enq.loop_result [of q1 d env] inv1 d w by blast
    have "q_Enqueue payload now env q = Some (out, q')" using 3 n(1) L(1) by (simp add: q_Enqueue_def)
    then show ?thesis
      using L(2) d by (cases out) (fastforce simp: enqueue_done_def enqueue_stall_def split: option.splits)+
  qed (use n inv1 d assms(1) in \<open>auto simp: q_Enqueue_def\<close>)
qed

theorem enqueue_blocking_witness:
  "\<exists>out q'. q_Enqueue (PString ''y'') 9 [(Notified, \<lambda>q. q)] ex_stored = Some (out, q') \<and> q_inv q'"
  using enqueue_blocking [OF ex_stored_inv(1), of "PString ''y''" "[(Notified, \<lambda>q. q)]" 9]
  by (auto simp: MaxInt64_def)

text \<open>C16. A blocked \<^verbatim>\<open>Enqueue\<close> makes progress: if it is signalled when the queue is open and has room for
  its item, it stores the item and returns nil.\<close>

theorem enqueue_woken:
  assumes "q_inv q" and "item_ok d" and "\<not> q_closed q" and "q_at_limit q \<or> \<not> q_room (qd_size d) q"
    and "\<not> mt_maxMemory (q_memoryTracker q) < fst (mt_EstimateQueueDataSize (Some d) (q_memoryTracker q))"
    and "\<And>q0. same_queue q q0 \<Longrightarrow> q_inv (f q0) \<and> \<not> q_closed (f q0) \<and> \<not> q_at_limit (f q0) \<and> q_room (qd_size d) (f q0)"
  shows "\<exists>q0 q'. same_queue q q0 \<and> q_enqueue_loop d [(Notified, f)] q = Some (Returned None, q')
    \<and> stored [d] (took_dequeue (f q0)) q'"
proof -
  have "\<exists>q0. q_enqueue_round (\<lambda>e. e) d q = Some (Wait q0) \<and> same_queue q q0"
  proof -
    have d: "0 \<le> qd_size d" "qd_size d \<le> MaxInt64" "payload_ok (qd_Payload d)"
      using assms(2) item_overhead_pos by (simp_all add: item_ok_def)
    have "q_enqueue_round (\<lambda>e. e) d q \<noteq> Some (Done (Some (MemoryLimitError c m n)) q')"
      if "n > mt_maxMemory (q_memoryTracker q)" for c m n q'
      using that assms(5)
      by (auto simp: q_enqueue_round_def cl_Enqueue_def Let_def split: prod.splits if_splits option.splits go_error.splits)
    then show ?thesis
      by (rule_tac q_enqueue_round_spec [OF assms(1) d, of "\<lambda>e. e"]) (use assms(3,4) in auto)
  qed
  then obtain q0 where q0: "q_enqueue_round (\<lambda>e. e) d q = Some (Wait q0)" "same_queue q q0" by blast
  note F = assms(6) [OF q0(2)]
  have t: "\<not> q_closed (took_dequeue (f q0))" "\<not> q_at_limit (took_dequeue (f q0))" "q_room (qd_size d) (took_dequeue (f q0))"
    using F by (simp_all add: took_dequeue_def q_at_limit_def q_room_def q_items_def)
  have inv: "q_inv (took_dequeue (f q0)) \<and> item_ok d" using took_inv(1) F assms(2) by blast
  from enqueue_attempt [OF inv, of "\<lambda>e. e"]
  obtain q' where q': "q_enqueue_round (\<lambda>e. e) d (took_dequeue (f q0)) = Some (Done None q')"
    "stored [d] (took_dequeue (f q0)) q'"
    using t by (auto simp: enqueue_done_def enqueue_stall_def split: option.splits)
  show ?thesis using enq.loop_woken [of d q q0 f, OF q0(1) q'(1)] q0(2) q'(2) by blast
qed

theorem enqueue_woken_witness:
  "\<exists>q'. q_enqueue_loop ex_item [(Notified, \<lambda>_. ex_joined)] ex_full = Some (Returned None, q')
     \<and> q_items q' = [ex_item]"
proof -
  have full: "\<not> q_room (qd_size ex_item) ex_full" using ex_full(5,6) by (simp add: q_room_def ex_item_ok)
  have small: "\<not> mt_maxMemory (q_memoryTracker ex_full)
      < fst (mt_EstimateQueueDataSize (Some ex_item) (q_memoryTracker ex_full))" by code_simp
  have free: "\<not> q_at_limit ex_joined" "q_room (qd_size ex_item) ex_joined"
  proof -
    have "q_maxItems ex_joined = 3" "mt_totalMemory (q_memoryTracker ex_joined) = 0"
      "mt_maxMemory (q_memoryTracker ex_joined) = 1048576" by code_simp+
    then show "\<not> q_at_limit ex_joined" "q_room (qd_size ex_item) ex_joined"
      by (simp_all add: q_at_limit_def q_room_def ex_joined_inv ex_item_ok)
  qed
  obtain q' where "q_enqueue_loop ex_item [(Notified, \<lambda>_. ex_joined)] ex_full = Some (Returned None, q')"
    "stored [ex_item] (took_dequeue ex_joined) q'"
    using enqueue_woken [OF ex_full(3) ex_item_ok(1) ex_full(4) disjI2 [OF full] small, of "\<lambda>_. ex_joined"]
      free ex_joined_inv by blast
  moreover have "q_items (took_dequeue ex_joined) = []"
    using ex_joined_inv by (simp add: took_dequeue_def q_items_def)
  ultimately show ?thesis by (auto simp: stored_def)
qed

text \<open>The blocking \<^verbatim>\<open>EnqueueBatch\<close>, in any world: all or nothing. It returns nil only when the last
  attempt put all items at the end at once, with room for all of them; an error is the one of a
  closed queue, of an overflow of the sum of the sizes, or of a batch no empty queue could take;
  and it is blocked only while the batch does not fit.\<close>

theorem batch_blocking:
  assumes "q_inv q" and "\<not> q_closed q" and "payloads \<noteq> []" and "\<forall>p \<in> set payloads. payload_ok p"
    and "world_keeps q_inv (map snd env)"
  shows "\<exists>out q'. q_EnqueueBatch payloads clk env q = Some (out, q') \<and> q_inv q'
    \<and> (out = Returned (Some batch_overflow) \<and> same_queue q q'
       \<or> (\<exists>ds. batch_items (q_name q) clk 0 (q_dataIDSequence q) payloads ds
            \<and> waited q_inv (batch_done ds) (batch_stall ds) (\<lambda>e. e = Some (QueueClosedError ''enqueue batch'')) out q'))"
proof -
  obtain items q1 where M: "q_make_items payloads clk q = (items, q1)" "same_queue q q1"
    "\<And>ds totalSize. items = Some (ds, totalSize) \<Longrightarrow>
       batch_items (q_name q) clk 0 (q_dataIDSequence q) payloads ds
       \<and> totalSize = sum_list (map qd_size ds) \<and> totalSize \<le> MaxInt64"
    by (rule q_make_items_spec [OF assms(1,4), where clk = clk]) blast
  have inv1: "q_inv q1" by (rule same_queue_inv [OF M(2) assms(1)])
  show ?thesis
  proof (cases items)
    case None
    then show ?thesis using M assms(2,3) inv1 by (simp add: q_EnqueueBatch_def)
  next
    case (Some dt)
    then obtain ds totalSize where it: "items = Some (ds, totalSize)" by (cases dt) auto
    note B = M(3) [OF it]
    have ok: "batch_ok ds"
      unfolding batch_ok_def
    proof (intro conjI ballI)
      show "item_overhead \<le> qd_size d" if "d \<in> set ds" for d
        using B that by (auto simp: batch_items_def in_set_conv_nth)
    qed (use B in auto)
    have w: "world_keeps (\<lambda>q. q_inv q \<and> batch_ok ds) (map snd env)" using assms(5) by (simp add: world_keeps_def)
    obtain out q' where L: "q_batch_loop ds (sum_list (map qd_size ds)) env q1 = Some (out, q')"
      "waited (\<lambda>q. q_inv q \<and> batch_ok ds) (batch_done ds) (batch_stall ds)
         (\<lambda>e. e = Some (QueueClosedError ''enqueue batch'')) out q'"
      using bat.loop_result [of q1 ds env] inv1 ok w by blast
    have "q_EnqueueBatch payloads clk env q = Some (out, q')"
      using assms(2,3) M(1) it B L(1) by (simp add: q_EnqueueBatch_def)
    moreover have "waited q_inv (batch_done ds) (batch_stall ds)
        (\<lambda>e. e = Some (QueueClosedError ''enqueue batch'')) out q'"
      using L(2) by (cases out) auto
    ultimately show ?thesis using B by (auto simp: waited_def)
  qed
qed

theorem batch_blocking_witness:
  "\<exists>out q'. q_EnqueueBatch [PNil, PNil] (\<lambda>_. 9) [(Notified, \<lambda>_. ex_joined)] ex_full = Some (out, q') \<and> q_inv q'"
proof -
  have w: "world_keeps q_inv (map snd [(Notified, \<lambda>_. ex_joined)])" by (simp add: ex_joined_inv)
  have p: "\<forall>p \<in> set [PNil, PNil]. payload_ok p" by simp
  show ?thesis using batch_blocking [OF ex_full(3,4) _ p w, of "\<lambda>_. 9"] by auto
qed

section \<open>Reading\<close>

text \<open>C17. \<^verbatim>\<open>TryRead\<close> returns: the first item its reader has left, or nil when nothing is left. The reader,
  and in a group its fellow members, have this item no more; every other reader keeps what it has
  left, the items of the queue stay, and the read is counted and remembered in the history, which
  keeps its last entries.\<close>

theorem try_read_first:
  assumes "q_inv q" and "q_live p q"
  shows "\<exists>q'. q_TryRead clk k p q = Some (if q_left p q = [] then None else Some (hd (q_left p q)), q')
    \<and> q_inv q' \<and> q_items q' = q_items q
    \<and> (\<forall>p'. q_left p' q' = (if same_cursor q p p' then tl (q_left p q) else q_left p' q))
    \<and> c_totalItemsRead (cm_cstore (q_consumers q') p)
        = c_totalItemsRead (cm_cstore (q_consumers q) p) + int (min 1 (length (q_left p q)))
    \<and> map dr_DataID (c_dequeueHistory (cm_cstore (q_consumers q') p))
        = keep_last (c_maxHistory (cm_cstore (q_consumers q) p))
            (map dr_DataID (c_dequeueHistory (cm_cstore (q_consumers q) p)) @ map qd_ID (take 1 (q_left p q)))"
proof -
  obtain q' where "q_TryRead clk k p q = Some (if q_left p q = [] then None else Some (hd (q_left p q)), q')"
    "consumed p (take 1 (q_left p q)) (tl (q_left p q)) q q'"
    by (rule q_TryRead_consumed [OF assms])
  then show ?thesis
    unfolding consumed_def has_read_def q_reading_def by (auto simp: min.commute)
qed

theorem try_read_first_witness:
  "\<exists>q'. q_TryRead (\<lambda>_. 7) 0 0 ex_stored = Some (Some ex_item, q') \<and> q_left 0 q' = []"
  using try_read_first [OF ex_stored_inv(1,2), of "\<lambda>_. 7" 0] ex_stored_inv(3) by (auto simp: same_cursor_def)

text \<open>C18. The blocking \<^verbatim>\<open>Read\<close>, in any world that keeps the queue in order: it never panics; when it
  returns an item, this was the first one its reader had left at the last attempt; nil comes only
  from a stopped queue; and it is blocked only while its reader has nothing left to read (or the
  queue is closed).\<close>

theorem read_blocking:
  assumes "q_inv q" and "q_known p q" and "world_keeps (read_ok p) (map snd env)"
  shows "\<exists>out q'. c_Read clk p env q = Some (out, q') \<and> q_inv q'
    \<and> (\<forall>d. out = Returned (Some d) \<longrightarrow> (\<exists>q0 rest. q_inv q0 \<and> consumed p [d] rest q0 q'))
    \<and> (out = Blocked \<longrightarrow> (\<exists>q0. q_inv q0 \<and> q_items q' = q_items q0 \<and> (q_live p q0 \<longrightarrow> q_left p q0 = [])))"
proof -
  have "read_ok p q" using assms(1,2) by (simp add: read_ok_def)
  then obtain out q' where L: "c_Read clk p env q = Some (out, q')"
    "waited (read_ok p) (read_done p) (read_stall p) (\<lambda>e. e = None) out q'"
    using rd.loop_result [OF _ assms(3)] by blast
  then show ?thesis
    by (cases out) (auto simp: read_done_def read_stall_def read_ok_def)
qed

theorem read_blocking_witness:
  "\<exists>out q'. c_Read (\<lambda>_ _. 7) 0 [(Notified, \<lambda>_. ex_stored)] ex_read = Some (out, q') \<and> q_inv q'"
proof -
  have w: "world_keeps (read_ok 0) (map snd [(Notified, \<lambda>_. ex_stored)])"
    by (simp add: read_ok_def ex_stored_inv ex_known)
  show ?thesis using read_blocking [OF ex_read_inv(1) ex_known(2) w, of "\<lambda>_ _. 7"] by blast
qed

text \<open>C19. A blocked \<^verbatim>\<open>Read\<close> makes progress: if it is signalled when its reader has something left, it
  returns the first of it.\<close>

theorem read_woken:
  assumes "q_inv q" and "q_live p q" and "q_left p q = []"
    and "\<And>q0. q_inv q0 \<and> q_items q0 = q_items q \<Longrightarrow> q_inv (f q0) \<and> q_live p (f q0) \<and> q_left p (f q0) = d # rest"
  shows "\<exists>q'. c_Read clk p [(Notified, f)] q = Some (Returned (Some d), q') \<and> q_left p q' = rest"
proof -
  obtain q0 where q0: "q_TryRead (clk 1) 0 p q = Some (if q_left p q = [] then None else Some (hd (q_left p q)), q0)"
    "consumed p (take 1 (q_left p q)) (tl (q_left p q)) q q0"
    by (rule q_TryRead_consumed [OF assms(1,2), where clk = "clk 1" and k = 0])
  have a1: "read_attempt clk p (Suc 0) q = Some (Wait q0)" using q0(1) assms(3) by (simp add: read_attempt_def)
  have F: "q_inv (f q0)" "q_live p (f q0)" "q_left p (f q0) = d # rest"
    using assms(4) [of q0] q0(2) by (simp_all add: consumed_def)
  let ?q1 = "took_enqueue (f q0)"
  have t: "q_inv ?q1" "q_live p ?q1" "q_left p ?q1 = d # rest"
    using F took_inv(2) by (simp_all add: took_enqueue_def q_live_def q_reader_def q_left_def q_reading_def)
  obtain q' where q': "q_TryRead (clk 0) 0 p ?q1 = Some (if q_left p ?q1 = [] then None else Some (hd (q_left p ?q1)), q')"
    "consumed p (take 1 (q_left p ?q1)) (tl (q_left p ?q1)) ?q1 q'"
    by (rule q_TryRead_consumed [OF t(1,2), where clk = "clk 0" and k = 0])
  have a2: "read_attempt clk p 0 ?q1 = Some (Done (Some d) q')" using q'(1) t(3) by (simp add: read_attempt_def)
  have "q_left p q' = rest" using q'(2) t(3) by (simp add: consumed_def same_cursor_def)
  then show ?thesis using rd.loop_woken [of clk p q q0 f, OF a1 a2] by blast
qed

theorem read_woken_witness:
  "\<exists>q'. c_Read (\<lambda>_ _. 7) 0 [(Notified, \<lambda>_. ex_stored)] ex_read = Some (Returned (Some ex_item), q')"
  using read_woken [OF ex_read_inv(1-3), of "\<lambda>_. ex_stored" ex_item "[]" "\<lambda>_ _. 7"] ex_stored_inv by blast

text \<open>\<^verbatim>\<open>ReadWhere\<close> with a predicate, for a consumer without group, in any world: it ends every search;
  an item it returns satisfies the predicate, is the first such item its reader had left, and the
  items in front of it, none of which does, are read past; nil comes only from a stopped queue.\<close>

theorem read_where_blocking:
  assumes "where_ok p q" and "world_keeps (where_ok p) (map snd env)"
  shows "\<exists>out q'. c_ReadWhere (Some P) clk p env q = Some (out, q') \<and> q_inv q'
    \<and> (\<forall>data err. out = Returned (data, err) \<longrightarrow> err = None
         \<and> (\<forall>d. data = Some d \<longrightarrow> (\<exists>q0 skipped rest. q_inv q0 \<and> P d \<and> (\<forall>x \<in> set skipped. \<not> P x)
               \<and> consumed p (skipped @ [d]) rest q0 q')))
    \<and> (out = Blocked \<longrightarrow> (\<exists>q0. q_inv q0 \<and> where_stall P p q0 q'))"
proof -
  obtain out q' where L: "c_read_where_loop P clk p env q = Some (out, q')"
    "waited (where_ok p) (where_done P p) (where_stall P p) (\<lambda>e. e = (None, None)) out q'"
    using rw.loop_result [OF assms] by blast
  have "c_ReadWhere (Some P) clk p env q = Some (out, q')"
    using L(1) assms(1) by (simp add: c_ReadWhere_def where_ok_def q_reading_def)
  then show ?thesis
    using L(2) by (cases out) (fastforce simp: where_done_def where_ok_def read_ok_def)+
qed

theorem read_where_blocking_witness:
  "\<exists>out q'. c_ReadWhere (Some (\<lambda>d. qd_size d > 100)) (\<lambda>_ _. 7) 0 [] ex_stored = Some (out, q') \<and> q_inv q'"
proof -
  have "where_ok 0 ex_stored" by (simp add: where_ok_def read_ok_def ex_stored_inv ex_known ex_own)
  then show ?thesis using read_where_blocking [of 0 ex_stored "[]" "\<lambda>d. qd_size d > 100" "\<lambda>_ _. 7"] by auto
qed

text \<open>The batch reads take from the front: \<^verbatim>\<open>TryReadBatch\<close> returns the first \<open>limit\<close> items its reader
  has left, or all when there are fewer, and leaves it the rest.\<close>

theorem try_read_batch:
  assumes "q_inv q" and "q_live p q"
  shows "\<exists>q'. q_TryReadBatch clk k limit p q = Some (take (nat limit) (q_left p q), q')
    \<and> (limit > 0 \<longrightarrow> consumed p (take (nat limit) (q_left p q)) (drop (nat limit) (q_left p q)) q q')
    \<and> (limit \<le> 0 \<longrightarrow> q' = q)"
proof (cases "limit \<le> 0")
  case True
  then show ?thesis by (simp add: q_TryReadBatch_def c_TryReadBatch_def)
next
  case False
  have opn: "\<not> q_closed q" and r: "q_reader p q" using assms(2) by (simp_all add: q_live_def)
  note ok = q_reader_ok [OF assms(1) opn r]
  obtain cgs where T: "c_read_more clk k False (q_data q) (nat limit) [] (q_reading p q)
      = Some ([] @ take (nat limit) (q_left p q), cgs)"
    "reader_ok (q_data q) cgs" "left_to_read (q_data q) cgs = drop (nat limit) (q_left p q)"
    "has_read (take (nat limit) (q_left p q)) (q_reading p q) cgs"
    unfolding q_left_def by (rule c_read_more_left [OF q_invD(1,2) [OF assms(1)] ok])
  have "consumed p (take (nat limit) (q_left p q)) (drop (nat limit) (q_left p q)) q (q_set_reading p cgs q)"
    using consumed_reading [OF assms T(2,4)] unfolding T(3) by simp
  then show ?thesis
    using T(1) False opn by (simp add: q_TryReadBatch_def c_TryReadBatch_def)
qed

theorem try_read_batch_witness:
  "\<exists>q'. q_TryReadBatch (\<lambda>_. 7) 0 5 0 ex_stored = Some ([ex_item], q') \<and> q_inv q'"
  using try_read_batch [OF ex_stored_inv(1,2), of "\<lambda>_. 7" 0 5] ex_stored_inv(3) by (auto simp: consumed_def)

text \<open>C20. The look-ahead of a reader is exact: \<^verbatim>\<open>HasMoreData\<close> says whether it has anything left,
  \<^verbatim>\<open>GetUnreadCount\<close> how much (its walk over the chunks ends), and \<^verbatim>\<open>IsEmpty\<close> whether the queue has
  any item.\<close>

theorem look_ahead_exact:
  assumes "q_inv q" and "q_live p q"
  shows "(c_HasMoreData (q_closed q) (q_data q) (q_reading p q) \<longleftrightarrow> q_left p q \<noteq> [])
    \<and> c_GetUnreadCount (q_closed q) (q_data q) (q_reading p q) = Some (int (length (q_left p q)))
    \<and> (q_IsEmpty q \<longleftrightarrow> q_items q = [])"
proof -
  have opn: "\<not> q_closed q" and r: "q_reader p q" using assms(2) by (simp_all add: q_live_def)
  note inv = q_invD(1,2) [OF assms(1)] and ok = q_reader_ok [OF assms(1) opn r]
  show ?thesis
    using c_HasMoreData_left [OF inv ok] c_GetUnreadCount_left [OF inv ok] opn q_total_items [OF assms(1)]
    by (simp add: q_left_def q_IsEmpty_def cl_IsEmpty_def)
qed

theorem look_ahead_exact_witness:
  "c_HasMoreData (q_closed ex_stored) (q_data ex_stored) (q_reading 0 ex_stored)
   \<and> c_GetUnreadCount (q_closed ex_stored) (q_data ex_stored) (q_reading 0 ex_stored) = Some 1"
  using look_ahead_exact [OF ex_stored_inv(1,2)] ex_stored_inv(3) by simp

section \<open>Expiration\<close>

text \<open>C21. The expiration pass, with any clock, as long as no item's TTL runs out between the pass's two
  looks at it (the scan of its chunk and the test whether to go on): it removes the items from the
  front that are expired when looked at, up to the first that is not, and returns their number.
  Every reader loses exactly those of them it had not read; an independent consumer is told how many
  these are, in one message, unless there are none or its channel is full. When something was
  removed, every blocked producer can be woken: the channel of free space is full of tokens.\<close>

theorem expiration_pass:
  assumes "q_inv q" and "q_expirationEnabled q" and "looks_agree clk (q_ttl q) 0 (q_items q)"
  shows "\<exists>q' n. q_ForceExpiration clk q = Some (n, q') \<and> q_inv q'
    \<and> n \<le> length (q_items q) \<and> q_items q' = drop n (q_items q)
    \<and> (\<forall>i < n. qd_IsExpired (clk i) (q_ttl q) (q_items q ! i))
    \<and> (n < length (q_items q) \<longrightarrow> \<not> qd_IsExpired (clk n) (q_ttl q) (q_items q ! n))
    \<and> (\<forall>p. q_live p q \<longrightarrow> q_live p q'
         \<and> q_left p q' = drop (n - (length (q_items q) - length (q_left p q))) (q_left p q)
         \<and> (c_group (cm_cstore (q_consumers q) p) = None \<longrightarrow>
              c_notificationCh (cm_cstore (q_consumers q') p)
                = channel_after (n - (length (q_items q) - length (q_left p q))) False
                    (c_notificationCh (cm_cstore (q_consumers q) p))))
    \<and> (n > 0 \<longrightarrow> length (ch_buf (q_dequeueNotify q')) = 100)"
proof -
  let ?n = "expired_run clk (q_ttl q) 0 (q_items q)"
  note run = expired_run_le [of clk "q_ttl q" 0 "q_items q"] expired_run_nth [of _ clk "q_ttl q" 0 "q_items q"]
    expired_run_stop [of clk "q_ttl q" 0 "q_items q"]
  obtain q' where C: "cleanupExpiredItems clk q = Some (?n, q')" "q_inv q'"
    "q_items q' = drop ?n (q_items q)" "q_closed q' = q_closed q"
    "\<And>p. \<not> q_closed q \<Longrightarrow> q_reader p q \<Longrightarrow> q_reader p q' \<and>
        q_left p q' = drop (?n - (length (q_items q) - length (q_left p q))) (q_left p q)"
    "\<And>p. \<not> q_closed q \<Longrightarrow> q_reader p q \<Longrightarrow> c_group (cm_cstore (q_consumers q) p) = None \<Longrightarrow>
        c_notificationCh (cm_cstore (q_consumers q') p)
          = channel_after (?n - (length (q_items q) - length (q_left p q))) False
              (c_notificationCh (cm_cstore (q_consumers q) p))"
    "?n > 0 \<Longrightarrow> length (ch_buf (q_dequeueNotify q')) = 100"
  proof (rule cleanup_spec [OF assms(1,3,2)], goal_cases)
    case (1 q')
    show ?case by (rule that [of q']) (fact 1)+
  qed
  show ?thesis
    unfolding q_ForceExpiration_def q_live_def
    by (intro exI [of _ q'] exI [of _ ?n] conjI allI impI) (use C run in simp_all)
qed

text \<open>The clock moves in the pass: it shows 100 at the first look and 200 at the next.\<close>

theorem expiration_pass_witness:
  "\<exists>q'. q_ForceExpiration (\<lambda>k. 100 * int (Suc k)) ex_stored = Some (1, q') \<and> q_items q' = [] \<and> q_left 0 q' = []"
proof -
  have e: "q_expirationEnabled ex_stored" "qd_IsExpired (100 * int (Suc 0)) (q_ttl ex_stored) ex_item" by code_simp+
  have l: "looks_agree (\<lambda>k. 100 * int (Suc k)) (q_ttl ex_stored) 0 (q_items ex_stored)"
    using e(2) by (simp add: looks_agree_def ex_stored_item)
  obtain q' n where q': "q_ForceExpiration (\<lambda>k. 100 * int (Suc k)) ex_stored = Some (n, q')" "n \<le> 1"
    "q_items q' = drop n [ex_item]" "n = 0 \<longrightarrow> \<not> qd_IsExpired (100 * int (Suc 0)) (q_ttl ex_stored) ex_item"
    "q_left 0 q' = drop (n - 0) [ex_item]"
    using expiration_pass [OF ex_stored_inv(1) e(1) l] ex_stored_inv(2,3) by (auto simp: ex_stored_item)
  then have "n = 1" using e(2) by (cases n) auto
  then show ?thesis using q' by auto
qed

section \<open>Members\<close>

text \<open>A new consumer joins with everything to read: it has the whole content of the open queue
  left, and nobody else notices.\<close>

theorem join_reads_all:
  assumes "q_inv q" and "\<not> q_closed q" and "uuid \<notin> fst ` set (cm_consumers (q_consumers q))"
    and "q_AddConsumer uuid now q = (p, q')"
  shows "q_inv q' \<and> q_live p q' \<and> q_left p q' = q_items q \<and> q_items q' = q_items q
    \<and> (\<forall>p'. q_live p' q \<longrightarrow> p' \<noteq> p \<and> q_live p' q' \<and> q_left p' q' = q_left p' q)"
  using q_AddConsumer_spec [OF assms(1,3,4)] assms(2)
  unfolding undisturbed_def by (auto simp: q_live_def q_reader_def)

theorem join_reads_all_witness:
  "\<exists>p q'. q_AddConsumer ''c9'' 3 ex_stored = (p, q') \<and> q_left p q' = [ex_item]"
proof -
  have f: "''c9'' \<notin> fst ` set (cm_consumers (q_consumers ex_stored))" by code_simp
  obtain p q' where "q_AddConsumer ''c9'' 3 ex_stored = (p, q')" by fastforce
  then show ?thesis using join_reads_all [OF ex_stored_inv(1,4) f] ex_stored_item by auto
qed

text \<open>C22. A group divides the items: when a member reads, no fellow member has the item left any more,
  while a consumer outside the group keeps everything it has left.\<close>

theorem group_divides:
  assumes "q_inv q" and "q_live p q" and "c_group (cm_cstore (q_consumers q) p) = Some g"
    and "q_TryRead clk k p q = Some (Some d, q')"
  shows "(\<forall>p'. c_group (cm_cstore (q_consumers q) p') = Some g \<longrightarrow> d # q_left p' q' = q_left p' q)
    \<and> (\<forall>p'. c_group (cm_cstore (q_consumers q) p') \<noteq> Some g \<longrightarrow> q_left p' q' = q_left p' q)"
proof -
  obtain q'' where q'': "q_TryRead clk k p q = Some (if q_left p q = [] then None else Some (hd (q_left p q)), q'')"
    "consumed p (take 1 (q_left p q)) (tl (q_left p q)) q q''"
    by (rule q_TryRead_consumed [OF assms(1,2), where clk = clk and k = k])
  then have d: "q_left p q = d # tl (q_left p q)" and e: "q'' = q'"
    using assms(4) by (cases "q_left p q"; simp)+
  have "q_left p' q = q_left p q" if "c_group (cm_cstore (q_consumers q) p') = Some g" for p'
    by (rule q_left_served) (use that assms(3) in \<open>simp add: served_def\<close>)
  then show ?thesis
    using q''(2) assms(3) d unfolding e consumed_def same_cursor_def by (metis option.distinct(1))
qed

theorem group_divides_witness:
  "\<exists>d q'. q_TryRead (\<lambda>_. 7) 0 1 ex_members = Some (Some d, q')
     \<and> q_left 2 q' = tl (q_left 2 ex_members) \<and> q_left 0 q' = [ex_item]"
proof -
  have own: "c_group (cm_cstore (q_consumers ex_members) 0) \<noteq> Some 0" by code_simp
  have "c_GetUnreadCount (q_closed ex_members) (q_data ex_members) (q_reading 1 ex_members) \<noteq> Some 0"
    by code_simp
  then have ne: "q_left 1 ex_members \<noteq> []"
    using c_GetUnreadCount_left [OF q_invD(1,2) [OF ex_members_inv(1)] q_reader_ok [OF ex_members_inv(1,5)], of 1]
      ex_members_inv(3,5) by (auto simp: q_live_def q_left_def)
  obtain q' where q': "q_TryRead (\<lambda>_. 7) 0 1 ex_members = Some (if q_left 1 ex_members = [] then None
      else Some (hd (q_left 1 ex_members)), q')"
    by (rule q_TryRead_consumed [OF ex_members_inv(1,3), where clk = "\<lambda>_. 7" and k = 0])
  then have r: "q_TryRead (\<lambda>_. 7) 0 1 ex_members = Some (Some (hd (q_left 1 ex_members)), q')" using ne by simp
  show ?thesis
    using group_divides [OF ex_members_inv(1,3,7) r] ex_members_inv(6,8) own r by (metis list.sel(3))
qed

text \<open>Removing a group closes exactly its members: \<^verbatim>\<open>RemoveConsumerGroup\<close> reports whether there is a
  group of the name, afterwards a reader can read exactly when it could and was no member, and what
  the others have left is unchanged.\<close>

theorem remove_group_members:
  assumes "q_inv q"
  shows "\<exists>q'. q_RemoveConsumerGroup name q = Some (name \<in> fst ` set (cm_groups (q_consumers q)), q')
    \<and> q_inv q' \<and> q_items q' = q_items q
    \<and> (\<forall>p. q_live p q \<longrightarrow>
         (q_live p q' \<longleftrightarrow> (\<forall>g. (name, g) \<in> set (cm_groups (q_consumers q)) \<longrightarrow>
             c_group (cm_cstore (q_consumers q) p) \<noteq> Some g))
         \<and> (q_live p q' \<longrightarrow> q_left p q' = q_left p q))"
  by (rule q_RemoveConsumerGroup_spec [OF assms, of name]) (auto simp: undisturbed_def)

theorem remove_group_members_witness:
  "\<exists>q'. q_RemoveConsumerGroup ''g'' ex_members = Some (True, q') \<and> q_live 0 q' \<and> \<not> q_live 1 q' \<and> \<not> q_live 2 q'"
proof -
  have g: "cm_groups (q_consumers ex_members) = [(''g'', 0)]" by code_simp
  have own: "c_group (cm_cstore (q_consumers ex_members) 0) \<noteq> Some 0" by code_simp
  show ?thesis
    using remove_group_members [OF ex_members_inv(1), of "''g''"] ex_members_inv(2-4,7,8) own by (auto simp: g)
qed

text \<open>C23. The eviction of idle members. \<^verbatim>\<open>CleanInactiveConsumers\<close> removes every consumer, also one of a
  group, that has not read for longer than the timeout, and every group that then has no member,
  also one that never had any; it returns the number of consumers. The others keep what they have
  left.\<close>

theorem evict_idle:
  fixes now :: time and timeout :: duration
  assumes "q_inv q"
  defines "idle \<equiv> \<lambda>p. time_Since now (c_lastReadTime (cm_cstore (q_consumers q) p)) > timeout"
  shows "\<exists>q'. q_CleanInactiveConsumers timeout now q
        = Some (length (filter (\<lambda>x. idle (snd x)) (cm_consumers (q_consumers q))), q')
    \<and> q_inv q' \<and> q_items q' = q_items q
    \<and> cm_consumers (q_consumers q') = filter (\<lambda>x. \<not> idle (snd x)) (cm_consumers (q_consumers q))
    \<and> cm_groups (q_consumers q') = filter (\<lambda>x. \<exists>(uid, p) \<in> set (cm_consumers (q_consumers q')).
         c_group (cm_cstore (q_consumers q) p) = Some (snd x)) (cm_groups (q_consumers q))
    \<and> (\<forall>name g. (name, g) \<in> set (cm_groups (q_consumers q)) \<and> (name, g) \<notin> set (cm_groups (q_consumers q'))
         \<longrightarrow> cg_closed (cm_gstore (q_consumers q') g))
    \<and> (\<forall>p. q_live p q \<longrightarrow> (q_live p q' \<longleftrightarrow> \<not> idle p) \<and> (\<not> idle p \<longrightarrow> q_left p q' = q_left p q))"
  unfolding idle_def
  by (rule q_CleanInactive_spec [OF assms(1), where now = now and timeout = timeout]) (auto simp: undisturbed_def)

text \<open>A group that was just made, with no member yet, is evicted and closed.\<close>

theorem evict_idle_witness:
  "\<exists>q'. q_CleanInactiveConsumers 1000 10 ex_group = Some (0, q') \<and> cm_groups (q_consumers ex_group) = [(''g'', 0)]
     \<and> cm_groups (q_consumers q') = [] \<and> cg_closed (cm_gstore (q_consumers q') 0) \<and> q_left 0 q' = [ex_item]"
proof -
  have v: "cm_groups (q_consumers ex_group) = [(''g'', 0)]" "cm_consumers (q_consumers ex_group) = [(''c1'', 0)]"
    "c_group (cm_cstore (q_consumers ex_group) 0) = None"
    "\<not> time_Since 10 (c_lastReadTime (cm_cstore (q_consumers ex_group) 0)) > 1000" by code_simp+
  show ?thesis
    using evict_idle [OF ex_group_inv(1), where now = 10 and timeout = 1000] ex_group_inv(2,4) v by auto
qed

section \<open>Signals and closing\<close>

text \<open>C24. One signal for all: an item put into an empty queue sends a single token on the channel all
  blocked readers wait on, although every independent consumer has the item to read. A second
  blocked reader is not woken by it.\<close>

theorem one_signal_for_all:
  assumes "q_inv q" and "q_items q = []" and "ch_buf (q_enqueueNotify q) = []" and "payload_ok payload"
    and "q_live p q" and "q_live p' q" and "p \<noteq> p'"
    and "q_TryEnqueue payload now q = Some (None, q')"
  shows "\<exists>d. q_left p q' = [d] \<and> q_left p' q' = [d] \<and> length (ch_buf (q_enqueueNotify q')) = 1"
proof -
  have opn: "\<not> q_closed q" using assms(5) by (simp add: q_live_def)
  have left: "q_left x q = []" if "q_live x q" for x
    using q_rank(2) [OF assms(1) opn, of x] that assms(2) by (simp add: q_live_def)
  have st: "\<exists>d. stored [d] q q'"
  proof (rule q_TryEnqueue_open [OF assms(1) opn assms(4), where now = now], goal_cases)
    case (1 d err q'')
    then have "err = None" "q'' = q'" using assms(8) by simp_all
    then have "\<not> q_at_limit q" "q_room (qd_size d) q" using 1(4,5) by auto
    then show ?case using 1(6) \<open>q'' = q'\<close> by blast
  qed
  then obtain d where d: "stored [d] q q'" by blast
  have "cm_consumers (q_consumers q) \<noteq> []" using assms(5) by (auto simp: q_live_def q_reader_def)
  then have "min (min (length (cm_consumers (q_consumers q))) 1) 100 = 1" by (cases "cm_consumers (q_consumers q)") auto
  then have "length (ch_buf (q_enqueueNotify q')) = 1"
    using d assms(2,3) by (simp add: stored_def)
  moreover have "q_left x q' = q_left x q @ [d]" if "q_live x q" for x
    using d that unfolding stored_def q_live_def by blast
  ultimately show ?thesis using left assms(5,6) by simp
qed

definition ex_two :: queue where
  "ex_two = snd (q_AddConsumer ''c4'' 0 ex_joined)"

theorem one_signal_for_all_witness:
  "\<exists>d q'. q_TryEnqueue (PString ''x'') 5 ex_two = Some (None, q') \<and> q_left 0 q' = [d] \<and> q_left 1 q' = [d]
     \<and> length (ch_buf (q_enqueueNotify q')) = 1"
proof -
  have "fst (q_AddConsumer ''c4'' 0 ex_joined) = 1" by code_simp
  then have j: "q_AddConsumer ''c4'' 0 ex_joined = (1, ex_two)" by (simp add: ex_two_def prod_eq_iff)
  have f: "''c4'' \<notin> fst ` set (cm_consumers (q_consumers ex_joined))" by code_simp
  note A = q_AddConsumer_spec [OF ex_joined_inv(1) f j]
  have two: "q_inv ex_two" "q_items ex_two = []" "q_live 0 ex_two" "q_live 1 ex_two" "\<not> q_closed ex_two"
    using A ex_joined_inv by (auto simp: undisturbed_def)
  have buf: "ch_buf (q_enqueueNotify ex_two) = []" by code_simp
  have "fst (the (q_TryEnqueue (PString ''x'') 5 ex_two)) = None" by code_simp
  moreover obtain err q' where q': "q_TryEnqueue (PString ''x'') 5 ex_two = Some (err, q')"
    by (rule q_TryEnqueue_open [OF two(1,5) ex_payload, where now = 5]) blast
  ultimately have q'': "q_TryEnqueue (PString ''x'') 5 ex_two = Some (None, q')" by simp
  show ?thesis
    using one_signal_for_all [OF two(1,2) buf ex_payload two(3,4) _ q''] q'' by auto
qed

text \<open>C25. \<^verbatim>\<open>Close\<close> closes once and for all: it never panics, also when called again, which changes
  nothing; the queue is empty, its memory count is zero, every consumer is closed, and adding to it
  gives the closed error.\<close>

theorem close_once:
  assumes "q_inv q"
  shows "\<exists>q'. q_Close q = Some q' \<and> q_inv q' \<and> q_closed q' \<and> q_items q' = [] \<and> q_Close q' = Some q'
    \<and> (\<not> q_closed q \<longrightarrow> mt_totalMemory (q_memoryTracker q') = 0
         \<and> (\<forall>(uid, p) \<in> set (cm_consumers (q_consumers q')). c_closed (cm_cstore (q_consumers q') p)))
    \<and> q_TryEnqueue payload now q' = Some (Some (QueueClosedError ''enqueue''), q')"
  by (rule q_Close_spec [OF assms]) (auto simp: q_Close_def q_TryEnqueue_closed)

theorem close_once_witness:
  "\<exists>q'. q_Close ex_members = Some q' \<and> q_items q' = [] \<and> mt_totalMemory (q_memoryTracker q') = 0"
  using close_once [OF ex_members_inv(1)] ex_members_inv(5) by blast

end
